(* ===== verification/Prelude.thy ===== *)
theory Prelude
  imports Main "HOL-Library.Word" "HOL-Library.Monad_Syntax"
begin

text \<open>
  Shared vocabulary of the development: the C machine types, the collections of hints the
  component theories add to, generic facts on lists, maps and words, and the interface
  (a locale) every allocator of the repository is held to.
\<close>

unbundle bit_operations_syntax

section \<open>C types and conventions\<close>

text \<open>
  A pointer into a memory pool is the offset from the start of the pool; a pointer that may be
  \<open>NULL\<close> is an \<open>option\<close>.  A function whose C code would read memory that holds no
  initialised object, or would not return, yields \<^term>\<open>None\<close> at its outermost option type.
\<close>

type_synonym size_t = "64 word"
type_synonym uint64_t = "64 word"
type_synonym uchar = "8 word"
type_synonym ptr = "nat option"

section \<open>Collections of hints\<close>

named_theorems layout_simps \<open>rewriting of block layouts under heap updates\<close>
named_theorems layout_dests \<open>consequences of a block layout\<close>
named_theorems c_consts \<open>the numeric constants of the C files\<close>

section \<open>Lists\<close>

text \<open>The last \<open>n\<close> elements of a list: what a bounded log keeps.\<close>

definition lastn :: "nat \<Rightarrow> 'a list \<Rightarrow> 'a list" where
  "lastn n xs = drop (length xs - n) xs"

lemma length_lastn [simp]: "length (lastn n xs) = min n (length xs)"
  by (auto simp: lastn_def)

lemma lastn_short [simp]: "length xs \<le> n \<Longrightarrow> lastn n xs = xs"
  by (simp add: lastn_def)

lemma lastn_snoc:
  "length xs = n \<Longrightarrow> 0 < n \<Longrightarrow> lastn n (xs @ [x]) = tl xs @ [x]"
  by (cases xs) (auto simp: lastn_def)

lemma lastn_lastn_snoc: "0 < n \<Longrightarrow> lastn n (lastn n xs @ [x]) = lastn n (xs @ [x])"
  by (cases "length xs \<le> n") (auto simp: lastn_def Suc_diff_le)

lemma lastn_lastn_append: "lastn n (lastn n xs @ ys) = lastn n (xs @ ys)"
  by (cases "length xs \<le> n") (auto simp: lastn_def add.commute)

lemma find_SomeD: "List.find P xs = Some x \<Longrightarrow> x \<in> set xs \<and> P x"
  by (auto simp: find_Some_iff)

text \<open>Literal lists at literal indices and lengths.\<close>

lemma replicate_numeral_Cons [simp]: "replicate (numeral k) x = x # replicate (pred_numeral k) x"
  by (simp add: numeral_eq_Suc)

lemma list_update_numeral [simp]: "(x # xs)[numeral k := y] = x # xs[pred_numeral k := y]"
  by (simp add: numeral_eq_Suc)

lemma find_append_case:
  "List.find P (xs @ ys) = (case List.find P xs of None \<Rightarrow> List.find P ys | Some x \<Rightarrow> Some x)"
  by (induction xs) auto

section \<open>Bytes in a buffer\<close>

text \<open>
  A buffer is a list of bytes.  Writing or reading beyond it has no result: the C code would
  touch memory outside the object.
\<close>

definition write_bytes :: "uchar list \<Rightarrow> nat \<Rightarrow> uchar list \<Rightarrow> uchar list option" where
  "write_bytes buf off bs =
     (if off + length bs \<le> length buf
      then Some (take off buf @ bs @ drop (off + length bs) buf) else None)"

definition read_bytes :: "uchar list \<Rightarrow> nat \<Rightarrow> nat \<Rightarrow> uchar list option" where
  "read_bytes buf off n = (if off + n \<le> length buf then Some (take n (drop off buf)) else None)"

lemma length_write_bytes: "write_bytes buf off bs = Some buf' \<Longrightarrow> length buf' = length buf"
  by (auto simp: write_bytes_def split: if_splits)

lemma nth_write_bytes:
  "write_bytes buf off bs = Some buf' \<Longrightarrow> i < length buf \<Longrightarrow>
     buf' ! i = (if off \<le> i \<and> i < off + length bs then bs ! (i - off) else buf ! i)"
  by (auto simp: write_bytes_def nth_append min_def split: if_splits)

lemma read_write_same: "write_bytes buf off bs = Some buf' \<Longrightarrow> read_bytes buf' off (length bs) = Some bs"
  by (auto simp: write_bytes_def read_bytes_def split: if_splits)

lemma read_write_apart:
  assumes "write_bytes buf off bs = Some buf'" and "o' + n \<le> off \<or> off + length bs \<le> o'"
  shows "read_bytes buf' o' n = read_bytes buf o' n"
proof (cases "o' + n \<le> length buf")
  case False
  then show ?thesis using length_write_bytes [OF assms(1)] by (simp add: read_bytes_def)
next
  case True
  have "take n (drop o' buf') = take n (drop o' buf)"
    by (rule nth_equalityI)
      (use True assms(2) in \<open>auto simp: nth_write_bytes [OF assms(1)] length_write_bytes [OF assms(1)]\<close>)
  then show ?thesis using True length_write_bytes [OF assms(1)] by (simp add: read_bytes_def)
qed

section \<open>Words\<close>

text \<open>\<open>ALIGN4(x)\<close> of the allocators: \<open>(((x) + 3) & ~3)\<close> on \<open>size_t\<close>.\<close>

definition ALIGN4 :: "size_t \<Rightarrow> size_t" where
  "ALIGN4 x = (x + 3) AND NOT 3"

lemma and_not_mask_eq_push_drop:
  "(w :: 'a::len word) AND NOT (mask n) = push_bit n (drop_bit n w)"
  by (rule bit_word_eqI) (auto simp: bit_simps)

lemma unat_ALIGN4: "unat (ALIGN4 x) = (unat x + 3) mod 2 ^ 64 div 4 * 4"
proof -
  let ?w = "x + 3"
  have "ALIGN4 x = push_bit 2 (drop_bit 2 ?w)"
    using and_not_mask_eq_push_drop [of ?w 2] by (simp add: ALIGN4_def mask_eq_exp_minus_1)
  then have "ALIGN4 x = drop_bit 2 ?w * 4"
    by (simp add: push_bit_eq_mult)
  then have "unat (ALIGN4 x) = unat ?w div 4 * 4 mod 2 ^ 64"
    by (simp add: unat_word_ariths unat_drop_bit_eq drop_bit_eq_div)
  moreover have "unat ?w < 2 ^ LENGTH(64)"
    by (rule unsigned_less)
  then have "unat ?w div 4 * 4 < 2 ^ 64"
    by simp
  moreover have "unat ?w = (unat x + 3) mod 2 ^ 64"
    by (simp add: unat_word_ariths)
  ultimately show ?thesis by simp
qed

lemma ALIGN4_ge: "unat x + 3 < 2 ^ 64 \<Longrightarrow> unat x \<le> unat (ALIGN4 x)"
  by (simp add: unat_ALIGN4)

lemma ALIGN4_dvd: "4 dvd unat (ALIGN4 x)"
  by (simp add: unat_ALIGN4)

text \<open>A word as it lies in memory on a little-endian machine, and back.\<close>

definition le_bytes :: "nat \<Rightarrow> 'a::len word \<Rightarrow> uchar list" where
  "le_bytes n w = map (\<lambda>k. ucast (drop_bit (8 * k) w)) [0..<n]"

fun of_le :: "uchar list \<Rightarrow> 'a::len word" where
  "of_le [] = 0"
| "of_le (b # bs) = ucast b OR push_bit 8 (of_le bs)"

lemma length_le_bytes [simp]: "length (le_bytes n w) = n"
  by (simp add: le_bytes_def)

lemma bit_of_le:
  "bit (of_le bs :: 'a::len word) k \<longleftrightarrow> k < LENGTH('a) \<and> k div 8 < length bs \<and> bit (bs ! (k div 8)) (k mod 8)"
proof (induction bs arbitrary: k)
  case Nil
  then show ?case by simp
next
  case (Cons b bs)
  show ?case
  proof (cases "k < 8")
    case True
    then show ?thesis by (auto simp: bit_simps)
  next
    case False
    then obtain j where k: "k = j + 8" by (metis add.commute le_Suc_ex not_less)
    have "\<not> bit b k" using False bit_imp_le_length by force
    moreover have "(j + 8) div 8 = Suc (j div 8)" by simp
    ultimately show ?thesis using Cons [of j] k by (auto simp: bit_simps)
  qed
qed

lemma of_le_bytes: "LENGTH('a) \<le> 8 * n \<Longrightarrow> of_le (le_bytes n (w :: 'a::len word)) = w"
proof (rule bit_word_eqI)
  fix k assume n: "LENGTH('a) \<le> 8 * n" and k: "k < LENGTH('a)"
  then have "k div 8 < n" by simp
  then show "bit (of_le (le_bytes n w) :: 'a word) k = bit w k"
    using k by (simp add: bit_of_le le_bytes_def bit_simps)
qed

end
