(* ===== verification/Allocator.thy ===== *)
theory Allocator
  imports Prelude
begin

text \<open>
  The interface of an allocator, as its clients see it, and what follows from it for every
  disciplined client.  The three allocators that hand out blocks of one pool interpret the
  locale in their own theories.
\<close>

section \<open>Clients\<close>

datatype request = Malloc size_t | Free nat

text \<open>
  A client's requests served in order; \<open>outs\<close> are the pointers it holds.  The run is
  \<^term>\<open>None\<close> where the allocator's code has no defined result.
\<close>

fun client_run ::
  "(size_t \<Rightarrow> 's \<Rightarrow> ('s \<times> ptr) option) \<Rightarrow> (ptr \<Rightarrow> 's \<Rightarrow> 's option) \<Rightarrow> request list \<Rightarrow> 's \<Rightarrow> nat set
     \<Rightarrow> ('s \<times> nat set) option" where
  "client_run al de [] s outs = Some (s, outs)"
| "client_run al de (Malloc n # rs) s outs =
     (case al n s of
        None \<Rightarrow> None
      | Some (s', None) \<Rightarrow> client_run al de rs s' outs
      | Some (s', Some p) \<Rightarrow> client_run al de rs s' (insert p outs))"
| "client_run al de (Free p # rs) s outs =
     (case de (Some p) s of
        None \<Rightarrow> None
      | Some s' \<Rightarrow> client_run al de rs s' (outs - {p}))"

text \<open>A disciplined client frees only pointers it holds: no double free, no wild free.\<close>

fun disciplined ::
  "(size_t \<Rightarrow> 's \<Rightarrow> ('s \<times> ptr) option) \<Rightarrow> (ptr \<Rightarrow> 's \<Rightarrow> 's option) \<Rightarrow> request list \<Rightarrow> 's \<Rightarrow> nat set
     \<Rightarrow> bool" where
  "disciplined al de [] s outs = True"
| "disciplined al de (Malloc n # rs) s outs =
     (case al n s of
        None \<Rightarrow> True
      | Some (s', None) \<Rightarrow> disciplined al de rs s' outs
      | Some (s', Some p) \<Rightarrow> disciplined al de rs s' (insert p outs))"
| "disciplined al de (Free p # rs) s outs =
     (p \<in> outs \<and> (case de (Some p) s of
        None \<Rightarrow> True
      | Some s' \<Rightarrow> disciplined al de rs s' (outs - {p})))"

text \<open>Payloads that do not overlap.\<close>

definition non_overlapping :: "(nat \<times> nat) set \<Rightarrow> bool" where
  "non_overlapping L \<longleftrightarrow>
     (\<forall>(p, m) \<in> L. \<forall>(q, k) \<in> L. (p = q \<longrightarrow> m = k) \<and> (p < q \<longrightarrow> p + m \<le> q))"

section \<open>The contract\<close>

text \<open>
  Safety first: what holds of every call that returns.  The laws speak of the payloads in use,
  \<open>live\<close>, as pairs of a pointer and a size.
\<close>

locale safe_allocator =
  fixes inv :: "'s \<Rightarrow> bool"
    and live :: "'s \<Rightarrow> (nat \<times> nat) set"
    and alloc :: "size_t \<Rightarrow> 's \<Rightarrow> ('s \<times> ptr) option"
    and dealloc :: "ptr \<Rightarrow> 's \<Rightarrow> 's option"
    and pool_end :: nat
  assumes alloc_inv: "inv s \<Longrightarrow> alloc n s = Some (s', r) \<Longrightarrow> inv s'"
    and alloc_null: "inv s \<Longrightarrow> alloc n s = Some (s', None) \<Longrightarrow> live s' = live s"
    and alloc_ptr: "inv s \<Longrightarrow> alloc n s = Some (s', Some p) \<Longrightarrow>
           \<exists>m \<ge> unat (ALIGN4 n). live s' = insert (p, m) (live s) \<and> p \<notin> fst ` live s"
    and dealloc_live: "inv s \<Longrightarrow> (p, m) \<in> live s \<Longrightarrow> dealloc (Some p) s = Some s' \<Longrightarrow>
           inv s' \<and> live s' = live s - {(p, m)}"
    and live_apart: "inv s \<Longrightarrow> non_overlapping (live s)"
    and live_inside: "inv s \<Longrightarrow> (p, m) \<in> live s \<Longrightarrow> p + m \<le> pool_end"
begin

lemma addresses_after_dealloc:
  assumes "inv s" and "(p, m) \<in> live s"
  shows "fst ` (live s - {(p, m)}) = fst ` live s - {p}"
proof -
  have "k = m" if "(p, k) \<in> live s" for k
    using live_apart [OF assms(1)] that assms(2) by (force simp: non_overlapping_def)
  then show ?thesis by force
qed

text \<open>
  The main lemma on clients: as long as the calls of a disciplined client return, the allocator
  stays well formed, and the pointers the client holds are the payloads in use.
\<close>

lemma client_run_safe:
  "inv s \<Longrightarrow> outs = fst ` live s \<Longrightarrow> disciplined alloc dealloc rs s outs \<Longrightarrow>
     client_run alloc dealloc rs s outs = Some (s', outs') \<Longrightarrow> inv s' \<and> outs' = fst ` live s'"
proof (induction rs arbitrary: s outs)
  case Nil
  then show ?case by auto
next
  case (Cons r rs)
  show ?case
  proof (cases r)
    case (Malloc n)
    with Cons.prems(4) obtain s1 q where s1: "alloc n s = Some (s1, q)"
      by (auto split: option.splits)
    then have "inv s1" using alloc_inv Cons.prems(1) by blast
    show ?thesis
    proof (cases q)
      case None
      with s1 have "live s1 = live s" using alloc_null Cons.prems(1) by blast
      then show ?thesis using Cons.IH [OF \<open>inv s1\<close>] Cons.prems Malloc None s1 by simp
    next
      case (Some p)
      with s1 obtain m where "live s1 = insert (p, m) (live s)"
        using alloc_ptr [OF Cons.prems(1)] by blast
      then show ?thesis using Cons.IH [OF \<open>inv s1\<close>] Cons.prems Malloc Some s1 by simp
    qed
  next
    case (Free p)
    with Cons.prems obtain m s1 where m: "(p, m) \<in> live s" "dealloc (Some p) s = Some s1"
      by (auto split: option.splits)
    then have s1: "inv s1" "live s1 = live s - {(p, m)}"
      using dealloc_live [OF Cons.prems(1)] by blast+
    then have "fst ` live s1 = outs - {p}"
      using addresses_after_dealloc [OF Cons.prems(1) m(1)] Cons.prems(2) by simp
    then show ?thesis using Cons.IH [OF s1(1)] Cons.prems(3,4) Free m(2) by simp
  qed
qed

text \<open>
  Distinct pointers of such a client are distinct payloads inside the pool, and never
  overlap.
\<close>

lemma client_payloads_safe:
  assumes "inv s" and "outs = fst ` live s" and "disciplined alloc dealloc rs s outs"
    and "client_run alloc dealloc rs s outs = Some (s', outs')"
  shows "outs' = fst ` live s' \<and> non_overlapping (live s') \<and> (\<forall>(p, m) \<in> live s'. p + m \<le> pool_end)"
  using client_run_safe [OF assms] live_apart live_inside by blast

end

text \<open>A total allocator: in addition, every call in the contract returns.\<close>

locale allocator = safe_allocator +
  assumes alloc_defined: "inv s \<Longrightarrow> \<exists>s' r. alloc n s = Some (s', r)"
    and dealloc_defined: "inv s \<Longrightarrow> (p, m) \<in> live s \<Longrightarrow> \<exists>s'. dealloc (Some p) s = Some s'"
begin

lemma client_run_defined:
  "inv s \<Longrightarrow> outs = fst ` live s \<Longrightarrow> disciplined alloc dealloc rs s outs \<Longrightarrow>
     \<exists>s' outs'. client_run alloc dealloc rs s outs = Some (s', outs')"
proof (induction rs arbitrary: s outs)
  case Nil
  then show ?case by simp
next
  case (Cons r rs)
  show ?case
  proof (cases r)
    case (Malloc n)
    obtain s1 q where s1: "alloc n s = Some (s1, q)"
      using alloc_defined [OF Cons.prems(1)] by blast
    let ?outs = "case q of None \<Rightarrow> outs | Some p \<Rightarrow> insert p outs"
    have "inv s1 \<and> ?outs = fst ` live s1"
      using client_run_safe [OF Cons.prems(1,2), of "[r]" s1 ?outs] Malloc s1
      by (simp split: option.split)
    then show ?thesis using Cons.IH [of s1 ?outs] Cons.prems Malloc s1
      by (simp split: option.splits)
  next
    case (Free p)
    with Cons.prems obtain m where m: "(p, m) \<in> live s" by auto
    then obtain s1 where s1: "dealloc (Some p) s = Some s1"
      using dealloc_defined [OF Cons.prems(1)] by blast
    have "inv s1 \<and> outs - {p} = fst ` live s1"
      using client_run_safe [OF Cons.prems(1,2), of "[r]" s1 "outs - {p}"] Free s1 Cons.prems(3)
      by simp
    then show ?thesis using Cons.IH [of s1 "outs - {p}"] Cons.prems Free s1 by simp
  qed
qed

lemma client_payloads:
  assumes "inv s" and "outs = fst ` live s" and "disciplined alloc dealloc rs s outs"
  shows "\<exists>s' outs'. client_run alloc dealloc rs s outs = Some (s', outs') \<and> outs' = fst ` live s'
    \<and> non_overlapping (live s') \<and> (\<forall>(p, m) \<in> live s'. p + m \<le> pool_end)"
  using client_run_defined [OF assms] client_payloads_safe [OF assms] by blast

end

end
