(* ===== verification/PoolLayout.thy ===== *)
theory PoolLayout
  imports Allocator
begin

text \<open>
  Pools that are a row of blocks, each a header of \<open>H\<close> bytes followed by its payload: the
  shape the implicit, the explicit and the segregated allocator share.  The file defines when a
  map of headers lays a list of blocks out between two offsets, the operations of a first-fit
  allocator on the list of blocks (the abstract specification), and what these operations do to
  the set of allocated payloads.
\<close>

section \<open>Blocks in a row\<close>

text \<open>A block is its payload size and whether it is free.\<close>

type_synonym block = "nat \<times> bool"

primrec layout :: "nat \<Rightarrow> (nat \<rightharpoonup> block) \<Rightarrow> nat \<Rightarrow> block list \<Rightarrow> nat \<Rightarrow> bool" where
  "layout H m p [] e = (p = e)"
| "layout H m p (b # bs) e = (m p = Some b \<and> layout H m (p + H + fst b) bs e)"

text \<open>The blocks with the offsets of their headers.\<close>

primrec cells :: "nat \<Rightarrow> nat \<Rightarrow> block list \<Rightarrow> (nat \<times> block) list" where
  "cells H p [] = []"
| "cells H p (b # bs) = (p, b) # cells H (p + H + fst b) bs"

abbreviation starts :: "nat \<Rightarrow> nat \<Rightarrow> block list \<Rightarrow> nat set" where
  "starts H p bs \<equiv> fst ` set (cells H p bs)"

text \<open>The payloads in use: offset and size.\<close>

definition live_of :: "nat \<Rightarrow> nat \<Rightarrow> block list \<Rightarrow> (nat \<times> nat) set" where
  "live_of H p bs = {(q + H, s) | q s. (q, (s, False)) \<in> set (cells H p bs)}"

lemma live_of_Nil [simp]: "live_of H p [] = {}"
  by (simp add: live_of_def)

lemma live_of_Cons [simp]:
  "live_of H p (b # bs) =
     (if snd b then {} else {(p + H, fst b)}) \<union> live_of H (p + H + fst b) bs"
  by (cases b) (auto simp: live_of_def)

lemma cells_ge [layout_dests]: "(q, b) \<in> set (cells H p bs) \<Longrightarrow> p \<le> q"
  by (induction bs arbitrary: p) fastforce+

lemma cells_append:
  "cells H p (bs @ cs) = cells H p bs @ cells H (p + (\<Sum>b\<leftarrow>bs. H + fst b)) cs"
  by (induction bs arbitrary: p) (auto simp: algebra_simps)

lemma layout_end: "layout H m p bs e \<Longrightarrow> e = p + (\<Sum>b\<leftarrow>bs. H + fst b)"
proof (induction bs arbitrary: p)
  case Nil
  then show ?case by simp
next
  case (Cons b bs)
  then have "layout H m (p + H + fst b) bs e" by simp
  from Cons.IH [OF this] show ?case by simp
qed

lemma layout_le [layout_dests]: "layout H m p bs e \<Longrightarrow> p \<le> e"
  by (auto dest: layout_end)

lemma layout_cell [layout_dests]: "layout H m p bs e \<Longrightarrow> (q, b) \<in> set (cells H p bs) \<Longrightarrow> m q = Some b"
  by (induction bs arbitrary: p) auto

lemma layout_cell_end [layout_dests]:
  "layout H m p bs e \<Longrightarrow> (q, b) \<in> set (cells H p bs) \<Longrightarrow> q + H + fst b \<le> e"
  by (induction bs arbitrary: p) (auto dest: layout_le)

lemma layout_upd [layout_simps]:
  "q \<notin> starts H p bs \<Longrightarrow> layout H (m(q := x)) p bs e = layout H m p bs e"
  by (induction bs arbitrary: p) auto

lemma layout_cong:
  "(\<And>q. p \<le> q \<Longrightarrow> m q = m' q) \<Longrightarrow> layout H m p bs e = layout H m' p bs e"
proof (induction bs arbitrary: p)
  case Nil
  show ?case by simp
next
  case (Cons b bs)
  have "layout H m (p + H + fst b) bs e = layout H m' (p + H + fst b) bs e"
    by (rule Cons.IH) (simp add: Cons.prems)
  then show ?case using Cons.prems by simp
qed

lemma layout_unique:
  "0 < H \<Longrightarrow> layout H m p bs e \<Longrightarrow> layout H m p cs e \<Longrightarrow> bs = cs"
proof (induction bs arbitrary: p cs)
  case Nil
  then show ?case by (cases cs) (auto dest: layout_le)
next
  case (Cons b bs)
  then show ?case by (cases cs) (auto dest: layout_le)
qed

text \<open>Two different blocks of a row do not overlap.\<close>

lemma cells_disjoint [layout_dests]:
  "(q, b) \<in> set (cells H p bs) \<Longrightarrow> (r, c) \<in> set (cells H p bs) \<Longrightarrow> q < r \<Longrightarrow> q + H + fst b \<le> r"
proof (induction bs arbitrary: p)
  case Nil
  then show ?case by simp
next
  case (Cons a bs)
  then show ?case by (force dest: cells_ge)
qed

lemma cells_functional [layout_dests]:
  "0 < H \<Longrightarrow> (q, b) \<in> set (cells H p bs) \<Longrightarrow> (q, c) \<in> set (cells H p bs) \<Longrightarrow> b = c"
proof (induction bs arbitrary: p)
  case Nil
  then show ?case by simp
next
  case (Cons a bs)
  then show ?case by (force dest: cells_ge)
qed

lemma cells_distinct: "0 < H \<Longrightarrow> distinct (map fst (cells H p bs))"
proof (induction bs arbitrary: p)
  case Nil
  then show ?case by simp
next
  case (Cons b bs)
  then show ?case by (auto dest: cells_ge)
qed

text \<open>The payloads in use of a row never overlap.\<close>

lemma live_of_non_overlapping:
  assumes "0 < H"
  shows "non_overlapping (live_of H p bs)"
proof -
  have "(a = b \<longrightarrow> m = k) \<and> (a < b \<longrightarrow> a + m \<le> b)"
    if am: "(a, m) \<in> live_of H p bs" and bk: "(b, k) \<in> live_of H p bs" for a m b k
  proof -
    from am obtain q where q: "a = q + H" "(q, (m, False)) \<in> set (cells H p bs)"
      by (auto simp: live_of_def)
    from bk obtain r where r: "b = r + H" "(r, (k, False)) \<in> set (cells H p bs)"
      by (auto simp: live_of_def)
    have "m = k" if "a = b"
      using cells_functional [OF assms q(2), of "(k, False)"] r that q(1) by auto
    moreover have "a + m \<le> b" if "a < b"
      using cells_disjoint [OF q(2) r(2)] that q r by simp
    ultimately show ?thesis by blast
  qed
  then show ?thesis unfolding non_overlapping_def by fast
qed

section \<open>First fit on a list of blocks\<close>

text \<open>
  The abstract allocator: the first free block of at least \<open>n\<close> bytes is taken, and split when
  more than a header and four bytes would be left over.
\<close>

definition split_block :: "nat \<Rightarrow> nat \<Rightarrow> nat \<Rightarrow> block list" where
  "split_block H n s =
     (if s - n > H + 4 then [(n, False), (s - n - H, True)] else [(s, False)])"

fun ff_alloc :: "nat \<Rightarrow> nat \<Rightarrow> nat \<Rightarrow> block list \<Rightarrow> block list \<times> ptr" where
  "ff_alloc H n p [] = ([], None)"
| "ff_alloc H n p ((s, f) # bs) =
     (if f \<and> n \<le> s then (split_block H n s @ bs, Some (p + H))
      else (case ff_alloc H n (p + H + s) bs of (bs', r) \<Rightarrow> ((s, f) # bs', r)))"

fun coalesce :: "nat \<Rightarrow> block list \<Rightarrow> block list" where
  "coalesce H (b # c # bs) =
     (if snd b \<and> snd c then coalesce H ((fst b + (H + fst c), True) # bs)
      else b # coalesce H (c # bs))"
| "coalesce H [] = []"
| "coalesce H [b] = [b]"

primrec mark_free :: "nat \<Rightarrow> nat \<Rightarrow> nat \<Rightarrow> block list \<Rightarrow> block list" where
  "mark_free H q p [] = []"
| "mark_free H q p (b # bs) =
     (if p = q then (fst b, True) # bs else b # mark_free H q (p + H + fst b) bs)"

text \<open>No two neighbours are free: what merging establishes.\<close>

fun no_adjacent_free :: "block list \<Rightarrow> bool" where
  "no_adjacent_free (b # c # bs) = (\<not> (snd b \<and> snd c) \<and> no_adjacent_free (c # bs))"
| "no_adjacent_free [] = True"
| "no_adjacent_free [b] = True"

lemma live_of_ge: "(a, s) \<in> live_of H p bs \<Longrightarrow> p + H \<le> a"
  by (auto simp: live_of_def dest: cells_ge)

lemma live_of_split:
  "n \<le> s \<Longrightarrow> live_of H p (split_block H n s @ bs) =
     insert (p + H, if s - n > H + 4 then n else s) (live_of H (p + H + s) bs)"
  by (simp add: split_block_def add.assoc)

lemma ff_alloc_Some:
  "0 < H \<Longrightarrow> ff_alloc H n p bs = (bs', Some a) \<Longrightarrow>
     \<exists>s \<ge> n. live_of H p bs' = insert (a, s) (live_of H p bs) \<and> a \<notin> fst ` live_of H p bs
       \<and> p + H \<le> a"
proof (induction H n p bs arbitrary: bs' rule: ff_alloc.induct)
  case (1 H n p)
  then show ?case by simp
next
  case (2 H n p s f bs)
  show ?case
  proof (cases "f \<and> n \<le> s")
    case True
    with 2 have "bs' = split_block H n s @ bs" "a = p + H"
      by auto
    moreover have "p + H \<notin> fst ` live_of H (p + H + s) bs"
      using 2(2) by (auto dest: live_of_ge)
    ultimately show ?thesis
      using True by (intro exI [of _ "if s - n > H + 4 then n else s"]) (auto simp: live_of_split)
  next
    case False
    with 2 obtain cs where cs: "ff_alloc H n (p + H + s) bs = (cs, Some a)" "bs' = (s, f) # cs"
      by (auto split: prod.splits)
    from 2(1) [OF False 2(2) cs(1)] obtain k where
      "n \<le> k" "live_of H (p + H + s) cs = insert (a, k) (live_of H (p + H + s) bs)"
      "a \<notin> fst ` live_of H (p + H + s) bs" "p + H + s + H \<le> a"
      by blast
    then show ?thesis
      using cs 2(2) by (intro exI [of _ k]) auto
  qed
qed

lemma ff_alloc_None:
  "ff_alloc H n p bs = (bs', None) \<Longrightarrow> bs' = bs \<and> (\<forall>(s, f) \<in> set bs. f \<longrightarrow> s < n)"
  by (induction H n p bs arbitrary: bs' rule: ff_alloc.induct)
    (auto split: if_splits prod.splits)

lemma ff_alloc_Some_fits:
  "(s, True) \<in> set bs \<Longrightarrow> n \<le> s \<Longrightarrow> \<exists>bs' a. ff_alloc H n p bs = (bs', Some a)"
  by (induction H n p bs rule: ff_alloc.induct) (auto split: prod.splits)

lemma live_of_mark_free:
  assumes "0 < H" and "(q, (s, f)) \<in> set (cells H p bs)"
  shows "live_of H p (mark_free H q p bs) = live_of H p bs - {(q + H, s)}"
  using assms
proof (induction bs arbitrary: p)
  case Nil
  then show ?case by simp
next
  case (Cons b bs)
  show ?case
  proof (cases "p = q")
    case True
    with Cons.prems have "b = (s, f)"
      by (auto dest: cells_ge)
    with True Cons.prems(1) show ?thesis
      by (auto dest: live_of_ge)
  next
    case False
    with Cons show ?thesis by auto
  qed
qed

lemma live_of_coalesce: "live_of H p (coalesce H bs) = live_of H p bs"
proof (induction H bs arbitrary: p rule: coalesce.induct)
  case (1 H b c bs)
  then show ?case by (cases "snd b \<and> snd c") (simp_all add: add.assoc)
qed simp_all

lemma coalesce_head: "\<exists>s cs. coalesce H (b # bs) = (s, snd b) # cs"
proof (induction H "b # bs" arbitrary: b bs rule: coalesce.induct)
  case (1 H b c bs)
  then show ?case by (cases b; cases "snd b \<and> snd c") auto
qed (simp, metis prod.collapse)

lemma coalesce_no_adjacent_free: "no_adjacent_free (coalesce H bs)"
proof (induction H bs rule: coalesce.induct)
  case (1 H b c bs)
  show ?case
  proof (cases "snd b \<and> snd c")
    case True
    with 1 show ?thesis by simp
  next
    case False
    moreover obtain s cs where "coalesce H (c # bs) = (s, snd c) # cs"
      using coalesce_head by blast
    ultimately show ?thesis using 1(2) by auto
  qed
qed simp_all

lemma coalesce_all_free:
  "bs \<noteq> [] \<Longrightarrow> \<forall>b \<in> set bs. snd b \<Longrightarrow> \<exists>s. coalesce H bs = [(s, True)]"
proof (induction H bs rule: coalesce.induct)
  case (3 H b)
  then show ?case by (cases b) simp
qed simp_all

lemma live_of_empty_iff: "live_of H p bs = {} \<longleftrightarrow> (\<forall>b \<in> set bs. snd b)"
  by (induction bs arbitrary: p) auto

lemma layout_mark_free:
  "0 < H \<Longrightarrow> layout H m p bs e \<Longrightarrow> q \<in> starts H p bs \<Longrightarrow> m q = Some (s, f) \<Longrightarrow>
     layout H (m(q \<mapsto> (s, True))) p (mark_free H q p bs) e"
proof (induction bs arbitrary: p)
  case Nil
  then show ?case by simp
next
  case (Cons b bs)
  show ?case
  proof (cases "p = q")
    case True
    with Cons.prems have "q \<notin> starts H (p + H + fst b) bs"
      by (auto dest: cells_ge)
    then have "layout H (m(q \<mapsto> (s, True))) (q + H + fst b) bs e \<longleftrightarrow>
        layout H m (q + H + fst b) bs e"
      unfolding True by (rule layout_upd)
    with True Cons.prems show ?thesis by (auto simp del: fun_upd_apply simp: fun_upd_same)
  next
    case False
    with Cons show ?thesis by auto
  qed
qed

text \<open>A merged row with nothing in use is a single block.\<close>

lemma layout_whole:
  assumes "no_adjacent_free bs" and "layout H m p bs e" and "live_of H p bs = {}" and "p < e"
  shows "bs = [(e - p - H, True)]"
proof -
  from assms(3) have free: "\<forall>b \<in> set bs. snd b" by (simp add: live_of_empty_iff)
  show ?thesis
  proof (cases bs rule: no_adjacent_free.cases)
    case (1 b c cs)
    with assms(1) free show ?thesis by simp
  next
    case 2
    with assms(2,4) show ?thesis by simp
  next
    case (3 b)
    with assms(2) free show ?thesis by (cases b) auto
  qed
qed

section \<open>Rows cut in two, and blocks taken from the middle\<close>

text \<open>The offset behind a row, the free blocks of a row, and taking the block at an offset.\<close>

definition row_end :: "nat \<Rightarrow> nat \<Rightarrow> block list \<Rightarrow> nat" where
  "row_end H p bs = p + (\<Sum>b\<leftarrow>bs. H + fst b)"

definition frees_of :: "nat \<Rightarrow> nat \<Rightarrow> block list \<Rightarrow> nat set" where
  "frees_of H p bs = {q. \<exists>s. (q, (s, True)) \<in> set (cells H p bs)}"

primrec take_at :: "nat \<Rightarrow> nat \<Rightarrow> nat \<Rightarrow> nat \<Rightarrow> block list \<Rightarrow> block list" where
  "take_at H n q p [] = []"
| "take_at H n q p (b # bs) =
     (if p = q then split_block H n (fst b) @ bs else b # take_at H n q (p + H + fst b) bs)"

lemma row_end_simps [simp]:
  "row_end H p [] = p"
  "row_end H p (b # bs) = row_end H (p + H + fst b) bs"
  "row_end H p (as @ bs) = row_end H (row_end H p as) bs"
  by (simp_all add: row_end_def)

lemma row_end_ge: "p \<le> row_end H p bs"
  by (simp add: row_end_def)

lemma cells_row [simp]: "cells H p (as @ bs) = cells H p as @ cells H (row_end H p as) bs"
  by (simp add: cells_append row_end_def)

lemma layout_row [simp]:
  "layout H m p (as @ bs) e = (layout H m p as (row_end H p as) \<and> layout H m (row_end H p as) bs e)"
  by (induction as arbitrary: p) auto

lemma live_of_row [simp]: "live_of H p (as @ bs) = live_of H p as \<union> live_of H (row_end H p as) bs"
  by (induction as arbitrary: p) auto

lemma frees_of_simps [simp]:
  "frees_of H p [] = {}"
  "frees_of H p (b # bs) = (if snd b then {p} else {}) \<union> frees_of H (p + H + fst b) bs"
  "frees_of H p (as @ bs) = frees_of H p as \<union> frees_of H (row_end H p as) bs"
  by (auto simp: frees_of_def prod_eq_iff)

lemma frees_of_start: "q \<in> frees_of H p bs \<Longrightarrow> q \<in> starts H p bs"
  by (force simp: frees_of_def)

lemma starts_row_less:
  "0 < H \<Longrightarrow> q \<in> starts H p as \<Longrightarrow> q < row_end H p as"
proof (induction as arbitrary: p)
  case Nil
  then show ?case by simp
next
  case (Cons b as)
  have "p + H + fst b \<le> row_end H (p + H + fst b) as" by (rule row_end_ge)
  with Cons show ?case by auto
qed

lemma starts_ge: "q \<in> starts H p bs \<Longrightarrow> p \<le> q"
  by (auto dest: cells_ge)

lemma cells_split:
  "(q, b) \<in> set (cells H p bs) \<Longrightarrow> \<exists>as cs. bs = as @ b # cs \<and> row_end H p as = q"
proof (induction bs arbitrary: p)
  case Nil
  then show ?case by simp
next
  case (Cons a bs)
  show ?case
  proof (cases "(q, b) = (p, a)")
    case True
    then show ?thesis by (intro exI [of _ "[]"] exI [of _ bs]) auto
  next
    case False
    with Cons.prems have "(q, b) \<in> set (cells H (p + H + fst a) bs)" by auto
    from Cons.IH [OF this] obtain as cs where
      "bs = as @ b # cs" "row_end H (p + H + fst a) as = q" by blast
    then show ?thesis by (intro exI [of _ "a # as"] exI [of _ cs]) auto
  qed
qed

text \<open>Taking or marking the block behind a prefix leaves the prefix alone.\<close>

lemma take_at_row:
  "0 < H \<Longrightarrow> take_at H n (row_end H p as) p (as @ b # cs) = as @ split_block H n (fst b) @ cs"
proof (induction as arbitrary: p)
  case Nil
  then show ?case by simp
next
  case (Cons a as)
  have "p + H + fst a \<le> row_end H (p + H + fst a) as" by (rule row_end_ge)
  with Cons show ?case by auto
qed

lemma mark_free_row:
  "0 < H \<Longrightarrow> mark_free H (row_end H p as) p (as @ b # cs) = as @ (fst b, True) # cs"
proof (induction as arbitrary: p)
  case Nil
  then show ?case by simp
next
  case (Cons a as)
  have "p + H + fst a \<le> row_end H (p + H + fst a) as" by (rule row_end_ge)
  with Cons show ?case by auto
qed

lemma row_end_split: "n \<le> s \<Longrightarrow> row_end H p (split_block H n s) = p + H + s"
  by (simp add: split_block_def row_end_def)

lemma layout_frame_row:
  assumes "0 < H" and "layout H m p as (row_end H p as)"
    and "\<And>q. q < row_end H p as \<Longrightarrow> m' q = m q"
  shows "layout H m' p as (row_end H p as)"
  using assms(2,3)
proof (induction as arbitrary: p)
  case Nil
  then show ?case by simp
next
  case (Cons a as)
  have "p + H + fst a \<le> row_end H (p + H + fst a) as" by (rule row_end_ge)
  with Cons assms(1) show ?case by auto
qed

text \<open>
  Rewriting the middle of a row: the headers outside it stay, so only the middle has to be laid
  out again.
\<close>

lemma layout_replace:
  assumes "0 < H" and "layout H m p (as @ bs @ cs) e"
    and "\<And>q. q < row_end H p as \<or> row_end H p (as @ bs) \<le> q \<Longrightarrow> m' q = m q"
    and "layout H m' (row_end H p as) ds (row_end H p (as @ bs))"
  shows "layout H m' p (as @ ds @ cs) e"
proof -
  have "row_end H (row_end H p as) ds = row_end H p (as @ bs)"
    using layout_end [OF assms(4)] by (simp add: row_end_def)
  moreover have "layout H m' p as (row_end H p as)"
    by (rule layout_frame_row [OF assms(1)]) (use assms(2,3) in auto)
  moreover have "layout H m' (row_end H p (as @ bs)) cs e"
    by (rule layout_cong [THEN iffD1]) (use assms(2,3) in auto)
  ultimately show ?thesis using assms(4) by simp
qed

text \<open>No header lies strictly inside a block.\<close>

lemma starts_outside:
  assumes "0 < H" and "q \<in> starts H p (as @ b # cs)" and "row_end H p as = r"
  shows "q < r \<or> q = r \<or> r + H + fst b \<le> q"
  using assms starts_row_less [OF assms(1), of q p as] by (auto dest: cells_ge)

lemma frees_of_outside:
  "0 < H \<Longrightarrow> q \<in> frees_of H p as \<Longrightarrow> q < row_end H p as"
  "q \<in> frees_of H p bs \<Longrightarrow> p \<le> q"
  by (auto dest!: frees_of_start intro: starts_row_less dest: cells_ge)

text \<open>Taking a free block of the row adds one payload to those in use.\<close>

lemma live_of_take_row:
  assumes "0 < H" and "n \<le> z"
  shows "\<exists>m \<ge> n. live_of H p (as @ split_block H n z @ cs) =
        insert (row_end H p as + H, m) (live_of H p (as @ (z, True) # cs))
    \<and> row_end H p as + H \<notin> fst ` live_of H p (as @ (z, True) # cs)"
proof -
  let ?q = "row_end H p as"
  have "live_of H p (as @ split_block H n z @ cs) =
      live_of H p as \<union> live_of H ?q (split_block H n z @ cs)"
    by (rule live_of_row)
  moreover have "?q + H \<notin> fst ` live_of H p as"
    using starts_row_less [OF assms(1), of _ p as] by (force simp: live_of_def)
  moreover have "?q + H \<notin> fst ` live_of H (?q + H + z) cs"
    using assms(1) by (auto dest: live_of_ge)
  ultimately show ?thesis
    using live_of_split [of n z H ?q cs] assms(2)
    by (intro exI [of _ "if z - n > H + 4 then n else z"]) auto
qed

end
