(* ===== verification/ImplicitFreeList.thy ===== *)
theory ImplicitFreeList
  imports PoolLayout
begin

text \<open>
  The implicit free list allocator
  (\<open>15.memory_allocation/1.allocation_strategy/1.implicit_free_list.c\<close>).  The pool is a row of
  blocks, each a header followed by its payload; \<open>my_malloc\<close> takes the first free block that
  is large enough and splits it, \<open>my_free\<close> marks a block and merges neighbours.  The file
  models the functions, relates them to a list of blocks, and proves them correct.
\<close>

section \<open>Data\<close>

record BlockHeader =
  bh_size :: nat
  bh_free :: bool

text \<open>
  The pool as the allocator sees it: which header the bytes at an offset from
  \<open>memory_pool\<close> hold.  \<open>sizeof(BlockHeader)\<close> is 16 (a \<open>size_t\<close>, an \<open>int\<close>, padding).
\<close>

type_synonym il_pool = "nat \<rightharpoonup> BlockHeader"

definition POOL_SIZE_il :: nat where
  "POOL_SIZE_il = 1024 * 10"

definition sizeof_BlockHeader :: nat where
  "sizeof_BlockHeader = 16"

lemmas il_consts [c_consts] = POOL_SIZE_il_def sizeof_BlockHeader_def

section \<open>Operations\<close>

text \<open>\<open>got\<close>: whether the C library's \<open>malloc(POOL_SIZE)\<close> gave memory; the code does not check.\<close>

definition init_memory_il :: "bool \<Rightarrow> il_pool option" where
  "init_memory_il got =
     (if got
      then Some [0 \<mapsto> \<lparr>bh_size = POOL_SIZE_il - sizeof_BlockHeader, bh_free = True\<rparr>]
      else None)"

text \<open>The block found: split it when enough is left over, mark it, return its payload.\<close>

definition take_block_il :: "il_pool \<Rightarrow> nat \<Rightarrow> nat \<Rightarrow> BlockHeader \<Rightarrow> il_pool" where
  "take_block_il h sz ptr block =
     (let remaining = bh_size block - sz in
      if remaining > sizeof_BlockHeader + 4
      then h (ptr + sizeof_BlockHeader + sz \<mapsto>
                \<lparr>bh_size = remaining - sizeof_BlockHeader, bh_free = True\<rparr>,
              ptr \<mapsto> \<lparr>bh_size = sz, bh_free = False\<rparr>)
      else h (ptr \<mapsto> block\<lparr>bh_free := False\<rparr>))"

function my_malloc_loop_il :: "il_pool \<Rightarrow> nat \<Rightarrow> nat \<Rightarrow> (il_pool \<times> ptr) option" where
  "my_malloc_loop_il h sz ptr =
     (if ptr < POOL_SIZE_il
      then case h ptr of
             None \<Rightarrow> None
           | Some block \<Rightarrow>
               if bh_free block \<and> bh_size block \<ge> sz
               then Some (take_block_il h sz ptr block, Some (ptr + sizeof_BlockHeader))
               else my_malloc_loop_il h sz (ptr + sizeof_BlockHeader + bh_size block)
      else Some (h, None))"
  by pat_completeness auto
termination
  by (relation "measure (\<lambda>(h, sz, ptr). POOL_SIZE_il - ptr)") (auto simp: c_consts)

definition my_malloc_il :: "size_t \<Rightarrow> il_pool \<Rightarrow> (il_pool \<times> ptr) option" where
  "my_malloc_il sz h = my_malloc_loop_il h (unat (ALIGN4 sz)) 0"

text \<open>
  The merging loop of \<open>my_free\<close>: at each step the current block swallows its successor when
  both are free, otherwise the loop moves on.
\<close>

definition next_il :: "il_pool \<Rightarrow> nat \<Rightarrow> nat" where
  "next_il h cur = cur + sizeof_BlockHeader + (case h cur of None \<Rightarrow> 0 | Some b \<Rightarrow> bh_size b)"

function merge_loop_il :: "il_pool \<Rightarrow> nat \<Rightarrow> il_pool option" where
  "merge_loop_il h cur =
     (if cur < POOL_SIZE_il
      then case h cur of
             None \<Rightarrow> None
           | Some b \<Rightarrow>
               let next_ptr = cur + sizeof_BlockHeader + bh_size b in
               if next_ptr \<ge> POOL_SIZE_il then Some h
               else case h next_ptr of
                      None \<Rightarrow> None
                    | Some next \<Rightarrow>
                        if bh_free b \<and> bh_free next
                        then merge_loop_il
                               (h(cur \<mapsto> b\<lparr>bh_size := bh_size b + (sizeof_BlockHeader + bh_size next)\<rparr>))
                               cur
                        else merge_loop_il h next_ptr
      else Some h)"
  by pat_completeness auto
termination
proof (relation "measure (\<lambda>(h, cur). (POOL_SIZE_il - cur) + (POOL_SIZE_il - next_il h cur))",
    goal_cases)
  case 1
  show ?case by simp
next
  case (2 h cur b n nb)
  then show ?case by (simp add: next_il_def c_consts)
next
  case (3 h cur b n nb)
  then show ?case by (simp add: next_il_def c_consts)
qed

definition my_free_il :: "ptr \<Rightarrow> il_pool \<Rightarrow> il_pool option" where
  "my_free_il ptr h =
     (case ptr of
        None \<Rightarrow> Some h
      | Some p \<Rightarrow>
          if p < sizeof_BlockHeader then None
          else case h (p - sizeof_BlockHeader) of
                 None \<Rightarrow> None
               | Some block \<Rightarrow>
                   merge_loop_il (h(p - sizeof_BlockHeader \<mapsto> block\<lparr>bh_free := True\<rparr>)) 0)"

text \<open>\<open>print_state\<close>: the lines it prints, as (block number, size, free) triples.\<close>

function print_state_loop_il :: "il_pool \<Rightarrow> nat \<Rightarrow> nat \<Rightarrow> (nat \<times> nat \<times> bool) list option" where
  "print_state_loop_il h i ptr =
     (if ptr < POOL_SIZE_il
      then case h ptr of
             None \<Rightarrow> None
           | Some block \<Rightarrow>
               map_option (\<lambda>out. (i, bh_size block, bh_free block) # out)
                 (print_state_loop_il h (i + 1) (ptr + sizeof_BlockHeader + bh_size block))
      else Some [])"
  by pat_completeness auto
termination
  by (relation "measure (\<lambda>(h, i, ptr). POOL_SIZE_il - ptr)") (auto simp: c_consts)

definition print_state_il :: "il_pool \<Rightarrow> (nat \<times> nat \<times> bool) list option" where
  "print_state_il h = print_state_loop_il h 0 0"

text \<open>The demonstration \<open>main\<close>: what its three calls of \<open>print_state\<close> print.\<close>

definition main_il :: "bool \<Rightarrow> (nat \<times> nat \<times> bool) list list option" where
  "main_il got =
     Option.bind (init_memory_il got) (\<lambda>h0.
     Option.bind (my_malloc_il 100 h0) (\<lambda>(h1, a).
     Option.bind (my_malloc_il 200 h1) (\<lambda>(h2, b).
     Option.bind (my_malloc_il 300 h2) (\<lambda>(h3, c).
     Option.bind (print_state_il h3) (\<lambda>out1.
     Option.bind (my_free_il b h3) (\<lambda>h4.
     Option.bind (print_state_il h4) (\<lambda>out2.
     Option.bind (my_free_il a h4) (\<lambda>h5.
     Option.bind (my_free_il c h5) (\<lambda>h6.
     Option.bind (print_state_il h6) (\<lambda>out3.
       Some [out1, out2, out3]))))))))))"

declare my_malloc_loop_il.simps [simp del] merge_loop_il.simps [simp del]
  print_state_loop_il.simps [simp del]


section \<open>Invariant and abstraction\<close>

text \<open>The pool as sizes and free flags, and the invariant: the headers lay the pool out.\<close>

definition il_view :: "il_pool \<Rightarrow> nat \<rightharpoonup> block" where
  "il_view h = (\<lambda>p. map_option (\<lambda>b. (bh_size b, bh_free b)) (h p))"

abbreviation il_layout :: "il_pool \<Rightarrow> nat \<Rightarrow> block list \<Rightarrow> bool" where
  "il_layout h p bs \<equiv> layout sizeof_BlockHeader (il_view h) p bs POOL_SIZE_il"

definition il_inv :: "il_pool \<Rightarrow> bool" where
  "il_inv h \<longleftrightarrow> (\<exists>bs. il_layout h 0 bs)"

definition il_live :: "il_pool \<Rightarrow> (nat \<times> nat) set" where
  "il_live h = \<Union> {live_of sizeof_BlockHeader 0 bs | bs. il_layout h 0 bs}"

lemma il_view_upd [layout_simps]:
  "il_view (h(p \<mapsto> b)) = (il_view h)(p \<mapsto> (bh_size b, bh_free b))"
  by (simp add: il_view_def fun_eq_iff)

lemma il_view_Some [layout_dests]:
  "il_view h p = Some (s, f) \<Longrightarrow> h p = Some \<lparr>bh_size = s, bh_free = f\<rparr>"
  by (auto simp: il_view_def)

lemma il_hdr_pos [simp]: "0 < sizeof_BlockHeader"
  by (simp add: c_consts)

lemma il_layout_unique: "il_layout h p bs \<Longrightarrow> il_layout h p cs \<Longrightarrow> bs = cs"
  by (rule layout_unique) simp_all

lemma il_live_eq: "il_layout h 0 bs \<Longrightarrow> il_live h = live_of sizeof_BlockHeader 0 bs"
  by (auto simp: il_live_def dest: il_layout_unique)

lemma il_layout_less:
  "il_layout h p (b # bs) \<Longrightarrow> p < POOL_SIZE_il"
  by (auto simp: c_consts dest: layout_le)

section \<open>\<open>my_malloc\<close> is first fit\<close>

text \<open>Taking a block is splitting it.\<close>

lemma take_block_frame: "q < p \<Longrightarrow> take_block_il h n p b q = h q"
  by (simp add: take_block_il_def Let_def)

lemma take_block_layout:
  assumes "n \<le> s" and "il_layout h (p + sizeof_BlockHeader + s) bs"
  shows "il_layout (take_block_il h n p \<lparr>bh_size = s, bh_free = True\<rparr>) p
           (split_block sizeof_BlockHeader n s @ bs)"
proof -
  have frame: "il_layout (take_block_il h n p \<lparr>bh_size = s, bh_free = True\<rparr>)
      (p + sizeof_BlockHeader + s) bs"
    by (rule layout_cong [THEN iffD1, OF _ assms(2)])
      (auto simp: take_block_il_def Let_def il_view_def c_consts)
  show ?thesis
  proof (cases "s - n > sizeof_BlockHeader + 4")
    case True
    have "p + sizeof_BlockHeader + n + sizeof_BlockHeader + (s - n - sizeof_BlockHeader)
        = p + sizeof_BlockHeader + s"
      using True assms(1) by simp
    then show ?thesis using True frame
      by (simp add: split_block_def take_block_il_def Let_def il_view_def add.assoc)
  next
    case False
    then show ?thesis using frame
      by (simp add: split_block_def take_block_il_def Let_def il_view_def)
  qed
qed

lemma my_malloc_loop_refines:
  "il_layout h p bs \<Longrightarrow> ff_alloc sizeof_BlockHeader n p bs = (bs', r) \<Longrightarrow>
     \<exists>h'. my_malloc_loop_il h n p = Some (h', r) \<and> il_layout h' p bs' \<and> (\<forall>q < p. h' q = h q)"
proof (induction bs arbitrary: p bs' r)
  case Nil
  then show ?case by (simp add: my_malloc_loop_il.simps)
next
  case (Cons b bs)
  obtain s f where b: "b = (s, f)" by (cases b)
  note below = il_layout_less [OF Cons.prems(1)]
  from Cons.prems(1) b have hd: "h p = Some \<lparr>bh_size = s, bh_free = f\<rparr>"
    and tl: "il_layout h (p + sizeof_BlockHeader + s) bs"
    by (auto dest: layout_dests)
  show ?case
  proof (cases "f \<and> n \<le> s")
    case True
    with Cons.prems(2) b have r: "bs' = split_block sizeof_BlockHeader n s @ bs"
      "r = Some (p + sizeof_BlockHeader)" by auto
    have "my_malloc_loop_il h n p = Some (take_block_il h n p \<lparr>bh_size = s, bh_free = True\<rparr>, r)"
      using True below hd r by (simp add: my_malloc_loop_il.simps)
    then show ?thesis
      using take_block_layout [OF _ tl] True r by (auto simp: take_block_frame)
  next
    case False
    with Cons.prems(2) b obtain cs where cs: "bs' = (s, f) # cs"
      "ff_alloc sizeof_BlockHeader n (p + sizeof_BlockHeader + s) bs = (cs, r)"
      by (auto split: prod.splits)
    from Cons.IH [OF tl cs(2)] obtain h' where h':
      "my_malloc_loop_il h n (p + sizeof_BlockHeader + s) = Some (h', r)"
      "il_layout h' (p + sizeof_BlockHeader + s) cs"
      "\<forall>q < p + sizeof_BlockHeader + s. h' q = h q" by blast
    then have "my_malloc_loop_il h n p = Some (h', r)"
      using False below hd by (auto simp: my_malloc_loop_il.simps [of h n p])
    moreover have "il_layout h' p bs'"
      using h' hd cs(1) by (simp add: il_view_def c_consts)
    ultimately show ?thesis using h'(3) by auto
  qed
qed

section \<open>\<open>my_free\<close> marks and merges\<close>

lemma merge_loop_refines:
  "il_layout h p bs \<Longrightarrow>
     \<exists>h'. merge_loop_il h p = Some h' \<and> il_layout h' p (coalesce sizeof_BlockHeader bs)
       \<and> (\<forall>q < p. h' q = h q)"
proof (induction sizeof_BlockHeader bs arbitrary: h p rule: coalesce.induct)
  case (1 b c bs)
  obtain s f t g where bc: "b = (s, f)" "c = (t, g)" by (cases b; cases c)
  let ?n = "p + sizeof_BlockHeader + s"
  note below = il_layout_less [OF 1(3)]
  from 1(3) bc have hd: "h p = Some \<lparr>bh_size = s, bh_free = f\<rparr>"
    and nx: "h ?n = Some \<lparr>bh_size = t, bh_free = g\<rparr>"
    and tl: "il_layout h ?n (c # bs)"
    and tl2: "il_layout h (?n + sizeof_BlockHeader + t) bs"
    by (auto dest: layout_dests)
  note below' = il_layout_less [OF tl]
  show ?case
  proof (cases "f \<and> g")
    case True
    let ?h = "h(p \<mapsto> \<lparr>bh_size = s + (sizeof_BlockHeader + t), bh_free = f\<rparr>)"
    have step: "merge_loop_il h p = merge_loop_il ?h p"
      using True below below' hd nx by (simp add: merge_loop_il.simps [of h p])
    have "il_layout ?h (?n + sizeof_BlockHeader + t) bs"
      by (rule layout_cong [THEN iffD1, OF _ tl2]) (auto simp: il_view_def c_consts)
    then have "il_layout ?h p ((s + (sizeof_BlockHeader + t), True) # bs)"
      using True by (simp add: il_view_def add.assoc)
    then obtain h' where "merge_loop_il ?h p = Some h'"
      "il_layout h' p (coalesce sizeof_BlockHeader (b # c # bs))" "\<forall>q < p. h' q = ?h q"
      using 1(1) [of ?h p] True bc by auto
    then show ?thesis using step by auto
  next
    case False
    from 1(2) [OF _ tl] False bc obtain h' where h': "merge_loop_il h ?n = Some h'"
      "il_layout h' ?n (coalesce sizeof_BlockHeader (c # bs))" "\<forall>q < ?n. h' q = h q"
      by auto
    moreover have "merge_loop_il h p = merge_loop_il h ?n"
      using False below below' hd nx by (auto simp: merge_loop_il.simps [of h p])
    moreover have "il_view h' p = Some (s, f)"
      using h'(3) hd by (simp add: il_view_def c_consts)
    ultimately show ?thesis using False bc by auto
  qed
next
  case 2
  then show ?case by (auto simp: merge_loop_il.simps)
next
  case (3 b)
  then obtain s f where b: "b = (s, f)" by (cases b)
  with 3 have "h p = Some \<lparr>bh_size = s, bh_free = f\<rparr>" "p + sizeof_BlockHeader + s = POOL_SIZE_il"
    by (auto dest: layout_dests)
  then show ?case using 3 by (simp add: merge_loop_il.simps)
qed

text \<open>\<open>my_free\<close> of a block of the pool, used or not, is marking and merging.\<close>

lemma my_free_refines:
  assumes "il_layout h 0 bs" and "q \<in> starts sizeof_BlockHeader 0 bs"
  shows "\<exists>h'. my_free_il (Some (q + sizeof_BlockHeader)) h = Some h'
     \<and> il_layout h' 0 (coalesce sizeof_BlockHeader (mark_free sizeof_BlockHeader q 0 bs))"
proof -
  from assms(2) obtain s f where "(q, (s, f)) \<in> set (cells sizeof_BlockHeader 0 bs)"
    by force
  with assms(1) have v: "il_view h q = Some (s, f)" by (rule layout_cell)
  then have b: "h q = Some \<lparr>bh_size = s, bh_free = f\<rparr>" by (rule il_view_Some)
  let ?h = "h(q \<mapsto> \<lparr>bh_size = s, bh_free = True\<rparr>)"
  have "il_layout ?h 0 (mark_free sizeof_BlockHeader q 0 bs)"
    using layout_mark_free [OF _ assms v] by (simp add: il_view_upd)
  from merge_loop_refines [OF this] show ?thesis
    using b by (auto simp: my_free_il_def)
qed

section \<open>The contract\<close>

lemma my_malloc_refines:
  assumes "il_layout h 0 bs"
  shows "\<exists>h'. my_malloc_il n h =
      Some (h', snd (ff_alloc sizeof_BlockHeader (unat (ALIGN4 n)) 0 bs))
    \<and> il_layout h' 0 (fst (ff_alloc sizeof_BlockHeader (unat (ALIGN4 n)) 0 bs))"
  using my_malloc_loop_refines [OF assms] by (auto simp: my_malloc_il_def)

lemma init_layout:
  "init_memory_il True = Some h \<Longrightarrow>
     il_layout h 0 [(POOL_SIZE_il - sizeof_BlockHeader, True)]"
  by (auto simp: init_memory_il_def il_view_def c_consts)

lemma il_live_cases:
  assumes "il_inv h" and "(p, m) \<in> il_live h"
  obtains bs q where "il_layout h 0 bs" "p = q + sizeof_BlockHeader"
    "(q, (m, False)) \<in> set (cells sizeof_BlockHeader 0 bs)" "q \<in> starts sizeof_BlockHeader 0 bs"
proof -
  from assms(1) obtain bs where bs: "il_layout h 0 bs" by (auto simp: il_inv_def)
  with assms(2) obtain q where q: "p = q + sizeof_BlockHeader"
    "(q, (m, False)) \<in> set (cells sizeof_BlockHeader 0 bs)"
    by (auto simp: il_live_eq live_of_def)
  moreover from q(2) have "q \<in> starts sizeof_BlockHeader 0 bs" by force
  ultimately show thesis using that bs by blast
qed

interpretation il: allocator il_inv il_live my_malloc_il my_free_il POOL_SIZE_il
proof (unfold_locales, goal_cases)
  case (1 h n h' r)
  then obtain bs where "il_layout h 0 bs" by (auto simp: il_inv_def)
  from my_malloc_refines [OF this, of n] 1 show ?case by (auto simp: il_inv_def)
next
  case (2 h n h')
  then obtain bs where bs: "il_layout h 0 bs" by (auto simp: il_inv_def)
  with my_malloc_refines [OF bs, of n] 2 show ?case
    by (cases "ff_alloc sizeof_BlockHeader (unat (ALIGN4 n)) 0 bs")
      (auto simp: il_live_eq dest!: ff_alloc_None)
next
  case (3 h n h' p)
  then obtain bs where bs: "il_layout h 0 bs" by (auto simp: il_inv_def)
  with my_malloc_refines [OF bs, of n] 3 show ?case
    by (cases "ff_alloc sizeof_BlockHeader (unat (ALIGN4 n)) 0 bs")
      (auto simp: il_live_eq dest!: ff_alloc_Some [rotated])
next
  case (4 h p m h')
  from il_live_cases [OF 4(1,2)] obtain bs q where q: "il_layout h 0 bs" "p = q + sizeof_BlockHeader"
    "(q, (m, False)) \<in> set (cells sizeof_BlockHeader 0 bs)" "q \<in> starts sizeof_BlockHeader 0 bs"
    by metis
  from my_free_refines [OF q(1,4)] q(2) 4(3) have
    h': "il_layout h' 0 (coalesce sizeof_BlockHeader (mark_free sizeof_BlockHeader q 0 bs))"
    by auto
  then have "il_live h' = il_live h - {(p, m)}"
    using q(1-3) by (simp add: il_live_eq live_of_coalesce live_of_mark_free)
  with h' show ?case unfolding il_inv_def by blast
next
  case (5 h)
  then obtain bs where "il_layout h 0 bs" by (auto simp: il_inv_def)
  then show ?case using live_of_non_overlapping [OF il_hdr_pos] by (simp add: il_live_eq)
next
  case (6 h p m)
  from il_live_cases [OF 6] obtain bs q where "il_layout h 0 bs" "p = q + sizeof_BlockHeader"
    "(q, (m, False)) \<in> set (cells sizeof_BlockHeader 0 bs)"
    by metis
  then show ?case by (auto dest: layout_cell_end)
next
  case (7 h n)
  then obtain bs where "il_layout h 0 bs" by (auto simp: il_inv_def)
  from my_malloc_refines [OF this, of n] show ?case by blast
next
  case (8 h p m)
  from il_live_cases [OF 8] obtain bs q where q: "il_layout h 0 bs" "p = q + sizeof_BlockHeader"
    "q \<in> starts sizeof_BlockHeader 0 bs"
    by metis
  from my_free_refines [OF q(1,3)] q(2) show ?case by auto
qed

text \<open>What the demonstration prints: the four blocks, a hole, and one free block again.\<close>

lemma main_il_prints:
  "main_il True = Some
     [[(0, 100, False), (1, 200, False), (2, 300, False), (3, 9576, True)],
      [(0, 100, False), (1, 200, True), (2, 300, False), (3, 9576, True)],
      [(0, 10224, True)]]"
  by (simp add: main_il_def init_memory_il_def my_malloc_il_def my_malloc_loop_il.simps
      ALIGN4_def take_block_il_def my_free_il_def merge_loop_il.simps print_state_il_def
      print_state_loop_il.simps c_consts)

section \<open>Properties\<close>

text \<open>
  \<open>my_malloc\<close> of the implicit free list is first fit: on any pool whose headers lay out
  the blocks \<open>bs\<close> it returns what the abstract first-fit allocator returns for the request
  rounded up to a multiple of four, and leaves the pool laid out as the abstract result.
\<close>

theorem my_malloc_il_first_fit:
  assumes "layout sizeof_BlockHeader (il_view h) 0 bs POOL_SIZE_il"
    and "ff_alloc sizeof_BlockHeader (unat (ALIGN4 n)) 0 bs = (bs', r)"
  shows "\<exists>h'. my_malloc_il n h = Some (h', r)
    \<and> layout sizeof_BlockHeader (il_view h') 0 bs' POOL_SIZE_il"
  using my_malloc_refines [OF assms(1), of n] assms(2) by simp

text \<open>
  C2: every disciplined client of the implicit free list, starting from \<open>init_memory\<close>,
  only makes calls with a defined result, and the blocks it holds lie inside the pool and never
  overlap.
\<close>

theorem il_disciplined_clients_safe:
  assumes "init_memory_il True = Some h"
    and "disciplined my_malloc_il my_free_il rs h {}"
  shows "\<exists>h' outs. client_run my_malloc_il my_free_il rs h {} = Some (h', outs)
    \<and> outs = fst ` il_live h' \<and> non_overlapping (il_live h')
    \<and> (\<forall>(p, m) \<in> il_live h'. p + m \<le> POOL_SIZE_il)"
proof (rule il.client_payloads)
  from assms(1) have l: "il_layout h 0 [(POOL_SIZE_il - sizeof_BlockHeader, True)]"
    by (rule init_layout)
  then show "il_inv h" unfolding il_inv_def by blast
  show "{} = fst ` il_live h" by (simp add: il_live_eq [OF l])
qed (rule assms(2))

theorem il_disciplined_clients_safe_witness:
  "\<exists>h' outs. client_run my_malloc_il my_free_il [Malloc 100, Malloc 200, Free 16]
      [0 \<mapsto> \<lparr>bh_size = 10224, bh_free = True\<rparr>] {} = Some (h', outs)
    \<and> outs = fst ` il_live h' \<and> non_overlapping (il_live h')
    \<and> (\<forall>(p, m) \<in> il_live h'. p + m \<le> POOL_SIZE_il)"
  by (rule il_disciplined_clients_safe)
    (simp_all add: init_memory_il_def c_consts my_malloc_il_def my_malloc_loop_il.simps
      ALIGN4_def take_block_il_def my_free_il_def merge_loop_il.simps)

text \<open>
  \<open>my_free\<close> of a block in use gives exactly that payload back, and leaves no two
  neighbouring free blocks; when it was the last block in use, the whole pool is one free block
  again.
\<close>

theorem my_free_il_coalesces:
  assumes "il_inv h" and "(p, m) \<in> il_live h"
  shows "\<exists>h' bs. my_free_il (Some p) h = Some h'
    \<and> layout sizeof_BlockHeader (il_view h') 0 bs POOL_SIZE_il
    \<and> il_live h' = il_live h - {(p, m)} \<and> no_adjacent_free bs
    \<and> (il_live h = {(p, m)} \<longrightarrow> bs = [(POOL_SIZE_il - sizeof_BlockHeader, True)])"
proof -
  from assms obtain bs where bs: "il_layout h 0 bs" by (auto simp: il_inv_def)
  with assms(2) obtain q where q: "p = q + sizeof_BlockHeader"
    "(q, (m, False)) \<in> set (cells sizeof_BlockHeader 0 bs)"
    by (auto simp: il_live_eq live_of_def)
  then have "q \<in> starts sizeof_BlockHeader 0 bs" by force
  let ?fs = "coalesce sizeof_BlockHeader (mark_free sizeof_BlockHeader q 0 bs)"
  obtain h' where h': "my_free_il (Some p) h = Some h'" "il_layout h' 0 ?fs"
    using my_free_refines [OF bs \<open>q \<in> _\<close>] q(1) by auto
  have live: "il_live h' = il_live h - {(p, m)}"
    using bs q h'(2) by (simp add: il_live_eq live_of_coalesce live_of_mark_free)
  have "?fs = [(POOL_SIZE_il - sizeof_BlockHeader, True)]" if "il_live h = {(p, m)}"
    using that live il_live_eq [OF h'(2)] layout_whole [OF _ h'(2)]
    by (simp add: coalesce_no_adjacent_free c_consts)
  then show ?thesis using h' live coalesce_no_adjacent_free by blast
qed

text \<open>
  C1: The implicit free list allocator is first fit with coalescing: on any pool whose headers lay
  out the blocks \<open>bs\<close>, \<open>my_malloc\<close> returns what the abstract first-fit allocator returns for the
  request rounded up to a multiple of four, and leaves the pool laid out as the abstract result, the
  pool that \<open>init_memory\<close> makes, with one free block, included;
  \<open>my_free\<close> of a block in use gives exactly that payload back, and leaves no two neighbouring free
  blocks; when it was the last block in use, the whole pool is one free block again.
\<close>

theorem il_is_first_fit:
  assumes "layout sizeof_BlockHeader (il_view h) 0 bs POOL_SIZE_il"
    and "ff_alloc sizeof_BlockHeader (unat (ALIGN4 n)) 0 bs = (bs', r)"
  shows "(\<exists>h'. my_malloc_il n h = Some (h', r)
      \<and> layout sizeof_BlockHeader (il_view h') 0 bs' POOL_SIZE_il)
    \<and> (\<forall>h0. init_memory_il True = Some h0 \<longrightarrow>
        layout sizeof_BlockHeader (il_view h0) 0 [(POOL_SIZE_il - sizeof_BlockHeader, True)] POOL_SIZE_il)
    \<and> ((p, m) \<in> il_live h \<longrightarrow> (\<exists>h' cs. my_free_il (Some p) h = Some h'
      \<and> layout sizeof_BlockHeader (il_view h') 0 cs POOL_SIZE_il
      \<and> il_live h' = il_live h - {(p, m)} \<and> no_adjacent_free cs
      \<and> (il_live h = {(p, m)} \<longrightarrow> cs = [(POOL_SIZE_il - sizeof_BlockHeader, True)])))"
  using my_malloc_il_first_fit [OF assms] my_free_il_coalesces [of h p m] assms(1) init_layout
  unfolding il_inv_def by blast

theorem il_is_first_fit_witness:
  "\<exists>h' h'' cs. my_malloc_il 100 [0 \<mapsto> \<lparr>bh_size = 80, bh_free = False\<rparr>, 96 \<mapsto> \<lparr>bh_size = 10128, bh_free = True\<rparr>]
      = Some (h', Some 112)
    \<and> my_free_il (Some 16) [0 \<mapsto> \<lparr>bh_size = 80, bh_free = False\<rparr>, 96 \<mapsto> \<lparr>bh_size = 10128, bh_free = True\<rparr>] = Some h''
    \<and> layout sizeof_BlockHeader (il_view h'') 0 [(10224, True)] POOL_SIZE_il"
proof -
  let ?h = "[0 \<mapsto> \<lparr>bh_size = 80, bh_free = False\<rparr>, 96 \<mapsto> \<lparr>bh_size = 10128, bh_free = True\<rparr>]"
  have l: "il_layout ?h 0 [(80, False), (10128, True)]" by (simp add: il_view_def c_consts)
  have live: "il_live ?h = {(16, 80)}" by (simp add: il_live_eq [OF l] c_consts live_of_def)
  have f: "ff_alloc sizeof_BlockHeader (unat (ALIGN4 100)) 0 [(80, False), (10128, True)]
      = ([(80, False), (100, False), (10012, True)], Some 112)"
    by (simp add: c_consts ALIGN4_def split_block_def)
  have m: "(16, 80) \<in> il_live ?h" by (simp add: live)
  from il_is_first_fit [OF l f, of 16 80] m live show ?thesis by (simp add: c_consts) blast
qed

text \<open>
  Rounding the request up wraps around: \<open>my_malloc\<close> of a size above \<open>SIZE_MAX - 3\<close>
  succeeds on the initial pool with a payload of zero bytes, where an error is due.
\<close>

theorem my_malloc_il_huge_request:
  assumes "2 ^ 64 - 3 \<le> unat n" and "init_memory_il True = Some h"
  shows "\<exists>h'. my_malloc_il n h = Some (h', Some sizeof_BlockHeader)
    \<and> il_live h' = {(sizeof_BlockHeader, 0)}"
proof -
  have "unat n < 2 ^ LENGTH(64)" by (rule unsigned_less)
  with assms(1) have "(unat n + 3) mod 2 ^ 64 = unat n + 3 - 2 ^ 64"
    by (simp add: mod_if)
  with \<open>unat n < _\<close> have "unat (ALIGN4 n) = 0" by (simp add: unat_ALIGN4)
  then obtain h' where h': "my_malloc_il n h = Some (h', Some sizeof_BlockHeader)"
    "il_layout h' 0 [(0, False), (10208, True)]"
    using my_malloc_refines [OF init_layout [OF assms(2)], of n]
    by (auto simp: split_block_def c_consts)
  then show ?thesis using il_live_eq [OF h'(2)] by simp
qed

theorem my_malloc_il_huge_request_witness:
  "\<exists>h'. my_malloc_il 18446744073709551615 [0 \<mapsto> \<lparr>bh_size = 10224, bh_free = True\<rparr>] =
      Some (h', Some sizeof_BlockHeader) \<and> il_live h' = {(sizeof_BlockHeader, 0)}"
  by (rule my_malloc_il_huge_request) (simp_all add: init_memory_il_def c_consts)

end
