(* ===== verification/ExplicitFreeList.thy ===== *)
theory ExplicitFreeList
  imports PoolLayout
begin

text \<open>
  The explicit free list allocator
  (\<open>15.memory_allocation/1.allocation_strategy/2.explicit_free_list.c\<close>): the blocks of the pool
  carry the links of a doubly linked list that holds exactly the free ones.  The links are
  modelled as the code has them, in the headers, so that every pointer write is a write to the
  shared memory.
\<close>

section \<open>Data\<close>

record Block_el =
  el_size :: nat
  el_free :: bool
  el_next :: ptr
  el_prev :: ptr

type_synonym el_mem = "nat \<rightharpoonup> Block_el"

record el_state =
  el_memory :: el_mem
  free_list :: ptr

definition POOL_SIZE_el :: nat where
  "POOL_SIZE_el = 1024 * 10"

text \<open>\<open>sizeof(Block)\<close>: a \<open>size_t\<close>, an \<open>int\<close> with padding, two pointers.\<close>

definition sizeof_Block :: nat where
  "sizeof_Block = 32"

lemmas el_consts [c_consts] = POOL_SIZE_el_def sizeof_Block_def

section \<open>Operations\<close>

definition init_memory_el :: "bool \<Rightarrow> el_state option" where
  "init_memory_el got =
     (if got
      then Some \<lparr>el_memory = [0 \<mapsto> \<lparr>el_size = POOL_SIZE_el - sizeof_Block, el_free = True,
                                     el_next = None, el_prev = None\<rparr>],
                 free_list = Some 0\<rparr>
      else None)"

text \<open>Writing one field of the block at an address: undefined where no block is.\<close>

definition set_next :: "el_mem \<Rightarrow> nat \<Rightarrow> ptr \<Rightarrow> el_mem option" where
  "set_next m q v = map_option (\<lambda>b. m(q \<mapsto> b\<lparr>el_next := v\<rparr>)) (m q)"

definition set_prev :: "el_mem \<Rightarrow> nat \<Rightarrow> ptr \<Rightarrow> el_mem option" where
  "set_prev m q v = map_option (\<lambda>b. m(q \<mapsto> b\<lparr>el_prev := v\<rparr>)) (m q)"

text \<open>Each access to \<open>block\<close> after a write reads the memory again, as the code does.\<close>

definition remove_from_free_list :: "nat \<Rightarrow> el_state \<Rightarrow> el_state option" where
  "remove_from_free_list p s = do {
     block \<leftarrow> el_memory s p;
     m1 \<leftarrow> (case el_prev block of None \<Rightarrow> Some (el_memory s)
           | Some q \<Rightarrow> set_next (el_memory s) q (el_next block));
     block1 \<leftarrow> m1 p;
     m2 \<leftarrow> (case el_next block1 of None \<Rightarrow> Some m1
           | Some q \<Rightarrow> set_prev m1 q (el_prev block1));
     block2 \<leftarrow> m2 p;
     Some \<lparr>el_memory = m2,
           free_list = (if Some p = free_list s then el_next block2 else free_list s)\<rparr>
   }"

definition add_to_free_list :: "nat \<Rightarrow> el_state \<Rightarrow> el_state option" where
  "add_to_free_list p s = do {
     block \<leftarrow> el_memory s p;
     let m1 = (el_memory s)(p \<mapsto> block\<lparr>el_next := free_list s\<rparr>);
     m2 \<leftarrow> (case free_list s of None \<Rightarrow> Some m1 | Some q \<Rightarrow> set_prev m1 q (Some p));
     block2 \<leftarrow> m2 p;
     Some \<lparr>el_memory = m2(p \<mapsto> block2\<lparr>el_prev := None\<rparr>), free_list = Some p\<rparr>
   }"

text \<open>The body of the loop of \<open>my_malloc\<close> once a block is found: split, mark, unlink.\<close>

definition take_block_el :: "el_state \<Rightarrow> nat \<Rightarrow> nat \<Rightarrow> (el_state \<times> ptr) option" where
  "take_block_el s n p = do {
     block \<leftarrow> el_memory s p;
     s1 \<leftarrow> (if el_size block > n + sizeof_Block + 4 then do {
              let new = p + sizeof_Block + n;
              let m = (el_memory s)(new \<mapsto>
                        \<lparr>el_size = el_size block - n - sizeof_Block, el_free = True,
                         el_next = None, el_prev = None\<rparr>);
              s' \<leftarrow> add_to_free_list new (s\<lparr>el_memory := m\<rparr>);
              block' \<leftarrow> el_memory s' p;
              Some (s'\<lparr>el_memory := (el_memory s')(p \<mapsto> block'\<lparr>el_size := n\<rparr>)\<rparr>)
            } else Some s);
     block1 \<leftarrow> el_memory s1 p;
     s2 \<leftarrow> remove_from_free_list p
            (s1\<lparr>el_memory := (el_memory s1)(p \<mapsto> block1\<lparr>el_free := False\<rparr>)\<rparr>);
     Some (s2, Some (p + sizeof_Block))
   }"

text \<open>
  The search follows the links, so nothing but the shape of the list makes it end:
  \<^term>\<open>None\<close> covers a cyclic list as well.
\<close>

partial_function (option) my_malloc_loop_el ::
  "el_state \<Rightarrow> nat \<Rightarrow> ptr \<Rightarrow> (el_state \<times> ptr) option" where
  "my_malloc_loop_el s n cur =
     (case cur of
        None \<Rightarrow> Some (s, None)
      | Some p \<Rightarrow> Option.bind (el_memory s p) (\<lambda>block.
          if el_free block \<and> el_size block \<ge> n then take_block_el s n p
          else my_malloc_loop_el s n (el_next block)))"

definition my_malloc_el :: "size_t \<Rightarrow> el_state \<Rightarrow> (el_state \<times> ptr) option" where
  "my_malloc_el sz s = my_malloc_loop_el s (unat (ALIGN4 sz)) (free_list s)"

partial_function (option) merge_loop_el :: "el_state \<Rightarrow> nat \<Rightarrow> el_state option" where
  "merge_loop_el s cur =
     (if cur < POOL_SIZE_el then
        Option.bind (el_memory s cur) (\<lambda>b.
          let next_ptr = cur + sizeof_Block + el_size b in
          if next_ptr \<ge> POOL_SIZE_el then Some s
          else Option.bind (el_memory s next_ptr) (\<lambda>next.
            if el_free b \<and> el_free next then
              Option.bind (remove_from_free_list next_ptr s) (\<lambda>s1.
              Option.bind (el_memory s1 cur) (\<lambda>b1.
              Option.bind (el_memory s1 next_ptr) (\<lambda>next1.
                merge_loop_el
                  (s1\<lparr>el_memory := (el_memory s1)
                     (cur \<mapsto> b1\<lparr>el_size := el_size b1 + (sizeof_Block + el_size next1)\<rparr>)\<rparr>)
                  cur)))
            else merge_loop_el s next_ptr))
      else Some s)"

definition my_free_el :: "ptr \<Rightarrow> el_state \<Rightarrow> el_state option" where
  "my_free_el pt s =
     (case pt of
        None \<Rightarrow> Some s
      | Some a \<Rightarrow>
          if a < sizeof_Block then None
          else do {
            let p = a - sizeof_Block;
            block \<leftarrow> el_memory s p;
            s1 \<leftarrow> add_to_free_list p
                   (s\<lparr>el_memory := (el_memory s)(p \<mapsto> block\<lparr>el_free := True\<rparr>)\<rparr>);
            merge_loop_el s1 0
          })"

text \<open>\<open>print_state\<close>: (block number, size, free) for every block from the start of the pool.\<close>

function print_state_loop_el :: "el_mem \<Rightarrow> nat \<Rightarrow> nat \<Rightarrow> (nat \<times> nat \<times> bool) list option" where
  "print_state_loop_el m i cur =
     (if cur < POOL_SIZE_el
      then case m cur of
             None \<Rightarrow> None
           | Some block \<Rightarrow>
               map_option (\<lambda>out. (i, el_size block, el_free block) # out)
                 (print_state_loop_el m (i + 1) (cur + sizeof_Block + el_size block))
      else Some [])"
  by pat_completeness auto
termination
  by (relation "measure (\<lambda>(m, i, cur). POOL_SIZE_el - cur)") (auto simp: c_consts)

definition print_state_el :: "el_state \<Rightarrow> (nat \<times> nat \<times> bool) list option" where
  "print_state_el s = print_state_loop_el (el_memory s) 0 0"

definition main_el :: "bool \<Rightarrow> (nat \<times> nat \<times> bool) list list option" where
  "main_el got = do {
     s0 \<leftarrow> init_memory_el got;
     (s1, a) \<leftarrow> my_malloc_el 128 s0;
     (s2, b) \<leftarrow> my_malloc_el 256 s1;
     (s3, c) \<leftarrow> my_malloc_el 64 s2;
     out1 \<leftarrow> print_state_el s3;
     s4 \<leftarrow> my_free_el b s3;
     out2 \<leftarrow> print_state_el s4;
     s5 \<leftarrow> my_free_el a s4;
     s6 \<leftarrow> my_free_el c s5;
     out3 \<leftarrow> print_state_el s6;
     Some [out1, out2, out3]
   }"

declare print_state_loop_el.simps [simp del]

lemmas el_ops = remove_from_free_list_def add_to_free_list_def take_block_el_def set_next_def
  set_prev_def my_malloc_el_def my_free_el_def init_memory_el_def

lemma main_el_prints:
  "main_el True = Some
     [[(0, 128, False), (1, 256, False), (2, 64, False), (3, 9664, True)],
      [(0, 128, False), (1, 256, True), (2, 64, False), (3, 9664, True)],
      [(0, 10208, True)]]"
  by (simp add: main_el_def el_ops print_state_el_def my_malloc_loop_el.simps
      merge_loop_el.simps print_state_loop_el.simps ALIGN4_def c_consts Let_def)


section \<open>The doubly linked list\<close>

text \<open>
  \<open>dll m pr xs nx\<close>: the blocks at \<open>xs\<close> are linked in this order, the first one's \<open>prev\<close>
  is \<open>pr\<close>, the last one's \<open>next\<close> is \<open>nx\<close>.
\<close>

definition hd_ptr :: "nat list \<Rightarrow> ptr \<Rightarrow> ptr" where
  "hd_ptr xs nx = (case xs of [] \<Rightarrow> nx | x # _ \<Rightarrow> Some x)"

definition last_ptr :: "ptr \<Rightarrow> nat list \<Rightarrow> ptr" where
  "last_ptr pr xs = (if xs = [] then pr else Some (last xs))"

primrec dll :: "el_mem \<Rightarrow> ptr \<Rightarrow> nat list \<Rightarrow> ptr \<Rightarrow> bool" where
  "dll m pr [] nx = True"
| "dll m pr (x # xs) nx =
     ((\<exists>b. m x = Some b \<and> el_prev b = pr \<and> el_next b = hd_ptr xs nx) \<and> dll m (Some x) xs nx)"

lemma hd_ptr_simps [simp]:
  "hd_ptr [] nx = nx" "hd_ptr (x # xs) nx = Some x" "hd_ptr (xs @ ys) nx = hd_ptr xs (hd_ptr ys nx)"
  by (auto simp: hd_ptr_def split: list.splits)

lemma last_ptr_simps [simp]:
  "last_ptr pr [] = pr" "last_ptr pr (xs @ [x]) = Some x"
  "last_ptr pr (x # xs) = last_ptr (Some x) xs"
  by (auto simp: last_ptr_def)

lemma dll_append [simp]:
  "dll m pr (xs @ ys) nx = (dll m pr xs (hd_ptr ys nx) \<and> dll m (last_ptr pr xs) ys nx)"
  by (induction xs arbitrary: pr) auto

lemma dll_cong: "(\<And>x. x \<in> set xs \<Longrightarrow> m x = m' x) \<Longrightarrow> dll m pr xs nx = dll m' pr xs nx"
  by (induction xs arbitrary: pr) auto

lemma dll_upd [simp]: "x \<notin> set xs \<Longrightarrow> dll (m(x := v)) pr xs nx = dll m pr xs nx"
  by (rule dll_cong) auto

section \<open>View and invariant\<close>

definition el_view :: "el_mem \<Rightarrow> nat \<rightharpoonup> block" where
  "el_view m = (\<lambda>p. map_option (\<lambda>b. (el_size b, el_free b)) (m p))"

lemma el_view_upd [layout_simps]:
  "el_view (m(p \<mapsto> b)) = (el_view m)(p \<mapsto> (el_size b, el_free b))"
  by (simp add: el_view_def fun_eq_iff)

lemma el_view_Some:
  "el_view m p = Some (s, f) \<longleftrightarrow> (\<exists>b. m p = Some b \<and> el_size b = s \<and> el_free b = f)"
  by (auto simp: el_view_def)

text \<open>Writing links does not change the view.\<close>

lemma el_view_same:
  "m p = Some b \<Longrightarrow> el_size b' = el_size b \<Longrightarrow> el_free b' = el_free b \<Longrightarrow>
     el_view (m(p \<mapsto> b')) = el_view m"
  by (auto simp: el_view_def fun_eq_iff)

text \<open>
  A state represents the blocks \<open>bs\<close> and the free list \<open>fl\<close> (in list order): the headers
  lay the pool out, and the list holds each free block once and nothing else.
\<close>

definition el_rep :: "el_state \<Rightarrow> block list \<Rightarrow> nat list \<Rightarrow> bool" where
  "el_rep s bs fl \<longleftrightarrow>
     layout sizeof_Block (el_view (el_memory s)) 0 bs POOL_SIZE_el
     \<and> free_list s = hd_ptr fl None \<and> dll (el_memory s) None fl None \<and> distinct fl
     \<and> set fl = frees_of sizeof_Block 0 bs"

definition el_inv :: "el_state \<Rightarrow> bool" where
  "el_inv s \<longleftrightarrow> (\<exists>bs fl. el_rep s bs fl)"

definition el_live :: "el_state \<Rightarrow> (nat \<times> nat) set" where
  "el_live s = \<Union> {live_of sizeof_Block 0 bs | bs fl. el_rep s bs fl}"

lemma el_hdr_pos [simp]: "0 < sizeof_Block"
  by (simp add: c_consts)

lemma el_live_eq: "el_rep s bs fl \<Longrightarrow> el_live s = live_of sizeof_Block 0 bs"
  by (auto simp: el_live_def el_rep_def dest: layout_unique [OF el_hdr_pos])

section \<open>Linking and unlinking\<close>

lemma remove_from_free_list_dll:
  assumes "dll m None (xs @ p # ys) None" and "distinct (xs @ p # ys)"
  shows "\<exists>m'. remove_from_free_list p
        \<lparr>el_memory = m, free_list = hd_ptr (xs @ p # ys) None\<rparr> =
        Some \<lparr>el_memory = m', free_list = hd_ptr (xs @ ys) None\<rparr>
      \<and> dll m' None (xs @ ys) None \<and> el_view m' = el_view m"
proof (cases xs rule: rev_cases)
  case Nil
  then show ?thesis
  proof (cases ys)
    case Nil
    with \<open>xs = []\<close> assms show ?thesis by (auto simp: remove_from_free_list_def)
  next
    case (Cons r rs)
    with \<open>xs = []\<close> assms show ?thesis
      by (auto simp: remove_from_free_list_def set_prev_def el_view_same)
  qed
next
  case (snoc as q)
  then show ?thesis
  proof (cases ys)
    case Nil
    with snoc assms show ?thesis
      by (cases as) (auto simp: remove_from_free_list_def set_next_def el_view_same)
  next
    case (Cons r rs)
    with snoc assms show ?thesis
      by (cases as) (auto simp: remove_from_free_list_def set_next_def set_prev_def el_view_same)
  qed
qed

lemma add_to_free_list_dll:
  assumes "dll m None fl None" and "distinct fl" and "p \<notin> set fl" and "m p = Some b"
  shows "\<exists>m'. add_to_free_list p \<lparr>el_memory = m, free_list = hd_ptr fl None\<rparr> =
        Some \<lparr>el_memory = m', free_list = Some p\<rparr>
      \<and> dll m' None (p # fl) None \<and> el_view m' = el_view m"
proof (cases fl)
  case Nil
  with assms show ?thesis by (auto simp: add_to_free_list_def el_view_same)
next
  case (Cons r rs)
  with assms obtain c where c: "m r = Some c" "p \<noteq> r" "p \<notin> set rs" by auto
  let ?m = "m(p \<mapsto> b\<lparr>el_next := Some r, el_prev := None\<rparr>, r \<mapsto> c\<lparr>el_prev := Some p\<rparr>)"
  have "add_to_free_list p \<lparr>el_memory = m, free_list = hd_ptr fl None\<rparr> =
      Some \<lparr>el_memory = ?m, free_list = Some p\<rparr>"
    using Cons c assms(4) by (simp add: add_to_free_list_def set_prev_def fun_upd_twist)
  moreover have "el_view ?m = el_view m"
    using c assms(4) by (simp add: el_view_same)
  ultimately show ?thesis using Cons assms c by auto
qed

text \<open>
  The same three facts on the list as a whole: \<open>linked m fl\<close> is the list part of the
  invariant.
\<close>

definition linked :: "el_mem \<Rightarrow> nat list \<Rightarrow> bool" where
  "linked m fl \<longleftrightarrow> dll m None fl None \<and> distinct fl"

lemma linked_remove:
  assumes "linked m fl" and "p \<in> set fl"
  shows "\<exists>m'. remove_from_free_list p \<lparr>el_memory = m, free_list = hd_ptr fl None\<rparr> =
        Some \<lparr>el_memory = m', free_list = hd_ptr (remove1 p fl) None\<rparr>
      \<and> linked m' (remove1 p fl) \<and> el_view m' = el_view m"
proof -
  from assms(2) obtain xs ys where fl: "fl = xs @ p # ys" by (meson split_list)
  with assms(1) have "remove1 p fl = xs @ ys" by (auto simp: linked_def remove1_append)
  with remove_from_free_list_dll [of m xs p ys] assms(1) fl show ?thesis
    by (auto simp: linked_def)
qed

lemma linked_add:
  assumes "linked m fl" and "p \<notin> set fl" and "m p = Some b"
  shows "\<exists>m'. add_to_free_list p \<lparr>el_memory = m, free_list = hd_ptr fl None\<rparr> =
        Some \<lparr>el_memory = m', free_list = hd_ptr (p # fl) None\<rparr>
      \<and> linked m' (p # fl) \<and> el_view m' = el_view m"
  using add_to_free_list_dll [of m fl p b] assms by (auto simp: linked_def)

lemma dll_same_links:
  "m p = Some b \<Longrightarrow> el_next b' = el_next b \<Longrightarrow> el_prev b' = el_prev b \<Longrightarrow>
     dll (m(p \<mapsto> b')) pr xs nx = dll m pr xs nx"
  by (induction xs arbitrary: pr) auto

lemma linked_same_links:
  "linked m fl \<Longrightarrow> m p = Some b \<Longrightarrow> el_next b' = el_next b \<Longrightarrow> el_prev b' = el_prev b \<Longrightarrow>
     linked (m(p \<mapsto> b')) fl"
  by (simp add: linked_def dll_same_links)

lemma linked_other: "linked m fl \<Longrightarrow> p \<notin> set fl \<Longrightarrow> linked (m(p := v)) fl"
  by (simp add: linked_def)

lemma el_rep_linked:
  "el_rep s bs fl \<longleftrightarrow>
     layout sizeof_Block (el_view (el_memory s)) 0 bs POOL_SIZE_el
     \<and> s = \<lparr>el_memory = el_memory s, free_list = hd_ptr fl None\<rparr>
     \<and> linked (el_memory s) fl \<and> set fl = frees_of sizeof_Block 0 bs"
  by (cases s) (auto simp: el_rep_def linked_def)

section \<open>\<open>my_malloc\<close>\<close>

text \<open>
  The block that is taken: the first one of the free list that is large enough, or none.  The
  abstract allocator takes it from the row of blocks.
\<close>

definition size_at :: "block list \<Rightarrow> nat \<Rightarrow> nat" where
  "size_at bs q = (case map_of (cells sizeof_Block 0 bs) q of None \<Rightarrow> 0 | Some b \<Rightarrow> fst b)"

definition el_alloc :: "nat \<Rightarrow> block list \<Rightarrow> nat list \<Rightarrow> block list \<times> ptr" where
  "el_alloc n bs fl =
     (case List.find (\<lambda>q. n \<le> size_at bs q) fl of
        None \<Rightarrow> (bs, None)
      | Some q \<Rightarrow> (take_at sizeof_Block n q 0 bs, Some (q + sizeof_Block)))"

lemma size_at_cell:
  "(q, b) \<in> set (cells sizeof_Block 0 bs) \<Longrightarrow> size_at bs q = fst b"
  by (simp add: size_at_def map_of_is_SomeI cells_distinct)

text \<open>Each entry of the list is a free block with the size the row gives it.\<close>

lemma el_rep_entry:
  assumes "el_rep s bs fl" and "q \<in> set fl"
  shows "\<exists>b z as cs. el_memory s q = Some b \<and> el_free b \<and> el_size b = z \<and> size_at bs q = z
    \<and> bs = as @ (z, True) # cs \<and> q = row_end sizeof_Block 0 as"
proof -
  from assms obtain z where z: "(q, (z, True)) \<in> set (cells sizeof_Block 0 bs)"
    by (auto simp: el_rep_def frees_of_def)
  with assms(1) have "el_view (el_memory s) q = Some (z, True)"
    by (auto simp: el_rep_def dest: layout_cell)
  then obtain b where "el_memory s q = Some b" "el_free b" "el_size b = z"
    by (auto simp: el_view_Some)
  moreover obtain as cs where "bs = as @ (z, True) # cs" "q = row_end sizeof_Block 0 as"
    using cells_split [OF z] by metis
  moreover have "size_at bs q = z" using size_at_cell [OF z] by simp
  ultimately show ?thesis by metis
qed

text \<open>Taking a block without splitting it, and splitting one.\<close>

lemma frees_of_without:
  assumes "F = frees_of sizeof_Block 0 (as @ (z, True) # cs)" and "p = row_end sizeof_Block 0 as"
  shows "F - {p} = frees_of sizeof_Block 0 as \<union> frees_of sizeof_Block (p + sizeof_Block + z) cs"
proof -
  have "p \<notin> frees_of sizeof_Block 0 as"
    using frees_of_outside(1) [OF el_hdr_pos, of p 0 as] assms(2) by auto
  moreover have "p \<notin> frees_of sizeof_Block (p + sizeof_Block + z) cs"
    using frees_of_outside(2) [of p sizeof_Block "p + sizeof_Block + z" cs] by (auto simp: c_consts)
  ultimately show ?thesis using assms by auto
qed

lemma el_rep_layout_split:
  assumes "layout sizeof_Block (el_view m) 0 (as @ (z, True) # cs) POOL_SIZE_el"
    and "p = row_end sizeof_Block 0 as"
    and "\<And>q. q < p \<or> p + sizeof_Block + z \<le> q \<Longrightarrow> el_view m' q = el_view m q"
    and "layout sizeof_Block (el_view m') p ds (p + sizeof_Block + z)"
  shows "layout sizeof_Block (el_view m') 0 (as @ ds @ cs) POOL_SIZE_el"
  using layout_replace [of sizeof_Block "el_view m" 0 as "[(z, True)]" cs POOL_SIZE_el "el_view m'" ds]
    assms by simp

lemma el_rep_cases:
  assumes "el_rep s bs fl"
  obtains m where "s = \<lparr>el_memory = m, free_list = hd_ptr fl None\<rparr>" "linked m fl"
    "layout sizeof_Block (el_view m) 0 bs POOL_SIZE_el" "set fl = frees_of sizeof_Block 0 bs"
  using assms by (cases s) (auto simp: el_rep_def linked_def)

lemma el_rep_intro:
  "linked m fl \<Longrightarrow> layout sizeof_Block (el_view m) 0 bs POOL_SIZE_el \<Longrightarrow>
     set fl = frees_of sizeof_Block 0 bs \<Longrightarrow>
     el_rep \<lparr>el_memory = m, free_list = hd_ptr fl None\<rparr> bs fl"
  by (simp add: el_rep_def linked_def)

text \<open>Marking the block and unlinking it, the end of both branches.\<close>

lemma take_and_unlink:
  assumes "linked m fl" and "p \<in> set fl" and "m p = Some b"
  shows "\<exists>m2. remove_from_free_list p
        \<lparr>el_memory = m(p \<mapsto> b\<lparr>el_free := False\<rparr>), free_list = hd_ptr fl None\<rparr> =
        Some \<lparr>el_memory = m2, free_list = hd_ptr (remove1 p fl) None\<rparr>
      \<and> linked m2 (remove1 p fl) \<and> el_view m2 = (el_view m)(p \<mapsto> (el_size b, False))"
proof -
  have "linked (m(p \<mapsto> b\<lparr>el_free := False\<rparr>)) fl"
    using assms by (simp add: linked_same_links)
  from linked_remove [OF this assms(2)] show ?thesis by (simp add: el_view_upd)
qed

lemma take_block_el_whole:
  assumes rep: "el_rep s (as @ (z, True) # cs) fl" and p: "p = row_end sizeof_Block 0 as"
    and n: "\<not> n + sizeof_Block + 4 < z"
  shows "\<exists>s'. take_block_el s n p = Some (s', Some (p + sizeof_Block))
    \<and> el_rep s' (as @ (z, False) # cs) (remove1 p fl)"
  using rep
proof (cases rule: el_rep_cases)
  case (1 m)
  from 1(3) p obtain b where b: "m p = Some b" "el_size b = z" "el_free b"
    by (auto simp: el_view_Some)
  have "p \<in> set fl" using 1(4) p by simp
  from take_and_unlink [OF 1(2) this b(1)] b obtain m2 where
    m2: "remove_from_free_list p
      \<lparr>el_memory = m(p \<mapsto> b\<lparr>el_free := False\<rparr>), free_list = hd_ptr fl None\<rparr> =
        Some \<lparr>el_memory = m2, free_list = hd_ptr (remove1 p fl) None\<rparr>"
    "linked m2 (remove1 p fl)" and v: "el_view m2 = (el_view m)(p \<mapsto> (z, False))"
    by blast
  have "take_block_el s n p =
      Some (\<lparr>el_memory = m2, free_list = hd_ptr (remove1 p fl) None\<rparr>, Some (p + sizeof_Block))"
    using b n m2(1) 1(1) by (simp add: take_block_el_def)
  moreover have "layout sizeof_Block (el_view m2) 0 (as @ [(z, False)] @ cs) POOL_SIZE_el"
    by (rule el_rep_layout_split [OF 1(3) p]) (use v in \<open>auto simp: c_consts\<close>)
  moreover have "set (remove1 p fl) = frees_of sizeof_Block 0 (as @ [(z, False)] @ cs)"
    using 1(2) frees_of_without [OF 1(4) p] p by (simp add: linked_def)
  ultimately show ?thesis using el_rep_intro m2(2) by (auto simp del: layout_row)
qed

lemma take_block_el_split:
  assumes rep: "el_rep s (as @ (z, True) # cs) fl" and p: "p = row_end sizeof_Block 0 as"
    and n: "n + sizeof_Block + 4 < z"
  shows "\<exists>s'. take_block_el s n p = Some (s', Some (p + sizeof_Block))
    \<and> el_rep s' (as @ [(n, False), (z - n - sizeof_Block, True)] @ cs)
        ((p + sizeof_Block + n) # remove1 p fl)"
  using rep
proof (cases rule: el_rep_cases)
  case (1 m)
  let ?new = "p + sizeof_Block + n"
  let ?nb = "\<lparr>el_size = z - n - sizeof_Block, el_free = True, el_next = None, el_prev = None\<rparr>"
  let ?fl = "remove1 p fl"
  from 1(3) p obtain b where b: "m p = Some b" "el_size b = z" "el_free b"
    by (auto simp: el_view_Some)
  have "?new \<notin> set fl"
    using starts_outside [OF el_hdr_pos, of ?new 0 as "(z, True)" cs, OF frees_of_start] p n 1(4)
    by (auto simp: c_consts)
  then have "linked (m(?new \<mapsto> ?nb)) fl" using 1(2) by (simp add: linked_other)
  from linked_add [OF this \<open>?new \<notin> set fl\<close>] obtain m1 where
    m1: "add_to_free_list ?new \<lparr>el_memory = m(?new \<mapsto> ?nb), free_list = hd_ptr fl None\<rparr> =
        Some \<lparr>el_memory = m1, free_list = Some ?new\<rparr>"
    "linked m1 (?new # fl)" and v1: "el_view m1 = (el_view m)(?new \<mapsto> (z - n - sizeof_Block, True))"
    by (auto simp: el_view_upd)
  from v1 b have "el_view m1 p = Some (z, True)" by (simp add: el_view_def c_consts)
  then obtain b1 where b1: "m1 p = Some b1" "el_size b1 = z" "el_free b1"
    by (auto simp: el_view_Some)
  let ?m2 = "m1(p \<mapsto> b1\<lparr>el_size := n\<rparr>)"
  have "linked ?m2 (?new # fl)" using m1(2) b1 by (simp add: linked_same_links)
  moreover have "p \<in> set (?new # fl)" using 1(4) p by simp
  ultimately obtain m3 where
    m3: "remove_from_free_list p
      \<lparr>el_memory = ?m2(p \<mapsto> b1\<lparr>el_size := n, el_free := False\<rparr>), free_list = hd_ptr (?new # fl) None\<rparr> =
        Some \<lparr>el_memory = m3, free_list = hd_ptr (?new # ?fl) None\<rparr>"
    "linked m3 (?new # ?fl)" and v3: "el_view m3 = (el_view ?m2)(p \<mapsto> (n, False))"
    using take_and_unlink [of ?m2 "?new # fl" p "b1\<lparr>el_size := n\<rparr>"] by (auto simp: c_consts)
  have v: "el_view m3 = (el_view m)(?new \<mapsto> (z - n - sizeof_Block, True), p \<mapsto> (n, False))"
    using v3 v1 by (simp add: el_view_upd)
  have "take_block_el s n p =
      Some (\<lparr>el_memory = m3, free_list = Some ?new\<rparr>, Some (p + sizeof_Block))"
    using b n m1(1) b1 m3(1) 1(1) by (simp add: take_block_el_def)
  moreover have "layout sizeof_Block (el_view m3) 0
      (as @ [(n, False), (z - n - sizeof_Block, True)] @ cs) POOL_SIZE_el"
    by (rule el_rep_layout_split [OF 1(3) p]) (use v n in \<open>auto simp: c_consts\<close>)
  moreover have "set (?new # ?fl) =
      frees_of sizeof_Block 0 (as @ [(n, False), (z - n - sizeof_Block, True)] @ cs)"
    using 1(2) frees_of_without [OF 1(4) p] p n by (simp add: linked_def add.assoc)
  ultimately show ?thesis using el_rep_intro [OF m3(2)] by (auto simp del: layout_row)
qed

lemma take_block_el_refines:
  assumes "el_rep s (as @ (z, True) # cs) fl" and "p = row_end sizeof_Block 0 as" and "n \<le> z"
  shows "\<exists>s' fl'. take_block_el s n p = Some (s', Some (p + sizeof_Block))
    \<and> el_rep s' (take_at sizeof_Block n p 0 (as @ (z, True) # cs)) fl'"
proof -
  have "take_at sizeof_Block n p 0 (as @ (z, True) # cs) = as @ split_block sizeof_Block n z @ cs"
    using take_at_row [OF el_hdr_pos, of n 0 as "(z, True)" cs] assms(2) by simp
  then show ?thesis
    using take_block_el_whole [OF assms(1,2), of n] take_block_el_split [OF assms(1,2), of n]
    by (cases "n + sizeof_Block + 4 < z") (fastforce simp: split_block_def)+
qed

text \<open>The search walks the rest \<open>ys\<close> of the list.\<close>

lemma my_malloc_loop_el_refines:
  assumes rep: "el_rep s bs fl"
  shows "fl = xs @ ys \<Longrightarrow> el_alloc n bs ys = (bs', r) \<Longrightarrow>
    \<exists>s' fl'. my_malloc_loop_el s n (hd_ptr ys None) = Some (s', r) \<and> el_rep s' bs' fl'"
proof (induction ys arbitrary: xs)
  case Nil
  then show ?case using rep by (auto simp: my_malloc_loop_el.simps el_alloc_def)
next
  case (Cons q ys)
  from Cons.prems(1) have "q \<in> set fl" by simp
  from el_rep_entry [OF rep this] obtain b z as cs where b: "el_memory s q = Some b" "el_free b"
    "el_size b = z" "size_at bs q = z" and bs: "bs = as @ (z, True) # cs"
    and q: "q = row_end sizeof_Block 0 as"
    by blast
  show ?case
  proof (cases "n \<le> z")
    case True
    with Cons.prems(2) b(4) have "bs' = take_at sizeof_Block n q 0 bs" "r = Some (q + sizeof_Block)"
      by (auto simp: el_alloc_def)
    moreover have "my_malloc_loop_el s n (hd_ptr (q # ys) None) = take_block_el s n q"
      using b True by (simp add: my_malloc_loop_el.simps)
    ultimately show ?thesis
      using take_block_el_refines [OF rep [unfolded bs] q True] unfolding bs by simp
  next
    case False
    have "el_next b = hd_ptr ys None"
      using rep Cons.prems(1) b(1) by (auto simp: el_rep_def)
    moreover have "el_alloc n bs ys = (bs', r)"
      using Cons.prems(2) False b(4) by (simp add: el_alloc_def)
    ultimately show ?thesis
      using Cons.IH [of "xs @ [q]"] Cons.prems(1) False b by (simp add: my_malloc_loop_el.simps)
  qed
qed

lemma my_malloc_el_refines:
  assumes "el_rep s bs fl" and "el_alloc (unat (ALIGN4 n)) bs fl = (bs', r)"
  shows "\<exists>s' fl'. my_malloc_el n s = Some (s', r) \<and> el_rep s' bs' fl'"
  using my_malloc_loop_el_refines [OF assms(1), of "[]" fl] assms
  by (auto simp: my_malloc_el_def el_rep_def)

section \<open>\<open>my_free\<close>\<close>

lemma merge_step_el:
  assumes rep: "el_rep s (as @ (y, True) # (z, True) # cs) fl"
    and p: "p = row_end sizeof_Block 0 as" and q: "q = p + sizeof_Block + y"
  shows "\<exists>s1 b1 n1. remove_from_free_list q s = Some s1
    \<and> el_memory s1 p = Some b1 \<and> el_memory s1 q = Some n1
    \<and> el_rep (s1\<lparr>el_memory := (el_memory s1)(p \<mapsto> b1\<lparr>el_size := el_size b1 + (sizeof_Block + el_size n1)\<rparr>)\<rparr>)
        (as @ (y + (sizeof_Block + z), True) # cs) (remove1 q fl)"
  using rep
proof (cases rule: el_rep_cases)
  case (1 m)
  let ?fl = "remove1 q fl"
  have "q \<in> set fl" using 1(4) p q by simp
  from linked_remove [OF 1(2) this] obtain m1 where
    m1: "remove_from_free_list q \<lparr>el_memory = m, free_list = hd_ptr fl None\<rparr> =
        Some \<lparr>el_memory = m1, free_list = hd_ptr ?fl None\<rparr>"
    "linked m1 ?fl" and v1: "el_view m1 = el_view m" by blast
  have "el_view m1 p = Some (y, True)" "el_view m1 q = Some (z, True)"
    using 1(3) p q v1 by auto
  then obtain b1 n1 where b1: "m1 p = Some b1" "el_size b1 = y" "el_free b1"
    and n1: "m1 q = Some n1" "el_size n1 = z"
    by (auto simp: el_view_Some)
  let ?m2 = "m1(p \<mapsto> b1\<lparr>el_size := y + (sizeof_Block + z)\<rparr>)"
  have lk: "linked ?m2 ?fl" using m1(2) b1 by (simp add: linked_same_links)
  have v: "el_view ?m2 = (el_view m)(p \<mapsto> (y + (sizeof_Block + z), True))"
    using v1 b1 by (simp add: el_view_upd)
  have lay: "layout sizeof_Block (el_view ?m2) 0 (as @ [(y + (sizeof_Block + z), True)] @ cs) POOL_SIZE_el"
    by (rule layout_replace [of _ "el_view m" _ _ "[(y, True), (z, True)]"])
      (use 1(3) p q v in \<open>auto simp: c_consts add.assoc\<close>)
  have "set fl - {q} = frees_of sizeof_Block 0 (as @ [(y, True)])
      \<union> frees_of sizeof_Block (q + sizeof_Block + z) cs"
    by (rule frees_of_without) (use 1(4) p q in auto)
  then have "set ?fl = frees_of sizeof_Block 0 (as @ [(y + (sizeof_Block + z), True)] @ cs)"
    using 1(2) p q by (simp add: linked_def add.assoc)
  from el_rep_intro [OF lk lay this] show ?thesis
    using m1 b1 n1 1(1) by (auto simp del: layout_row)
qed

lemma merge_loop_el_refines:
  "el_rep s (as @ bs) fl \<Longrightarrow>
     \<exists>s' fl'. merge_loop_el s (row_end sizeof_Block 0 as) = Some s'
       \<and> el_rep s' (as @ coalesce sizeof_Block bs) fl'"
proof (induction sizeof_Block bs arbitrary: s as fl rule: coalesce.induct)
  case (1 b c bs)
  obtain y f z g where bc: "b = (y, f)" "c = (z, g)" by (cases b; cases c)
  let ?p = "row_end sizeof_Block 0 as"
  let ?q = "?p + sizeof_Block + y"
  from 1(3) bc have l: "layout sizeof_Block (el_view (el_memory s)) ?p ((y, f) # (z, g) # bs) POOL_SIZE_el"
    by (simp add: el_rep_def)
  then obtain hb hc where h: "el_memory s ?p = Some hb" "el_size hb = y" "el_free hb = f"
    "el_memory s ?q = Some hc" "el_size hc = z" "el_free hc = g"
    by (auto simp: el_view_Some)
  have below: "?p < POOL_SIZE_el" "?q < POOL_SIZE_el"
    using l by (auto simp: c_consts dest!: layout_le)
  show ?case
  proof (cases "f \<and> g")
    case True
    with 1(3) bc have "el_rep s (as @ (y, True) # (z, True) # bs) fl" by simp
    from merge_step_el [OF this refl refl] obtain s1 b1 n1 where s1:
      "remove_from_free_list ?q s = Some s1" "el_memory s1 ?p = Some b1" "el_memory s1 ?q = Some n1"
      "el_rep (s1\<lparr>el_memory := (el_memory s1)(?p \<mapsto> b1\<lparr>el_size := el_size b1 + (sizeof_Block + el_size n1)\<rparr>)\<rparr>)
        (as @ (y + (sizeof_Block + z), True) # bs) (remove1 ?q fl)" by blast
    then show ?thesis
      using 1(1) [of _ as] True bc h below by (simp add: merge_loop_el.simps [of s ?p] Let_def)
  next
    case False
    with 1(2) [of s "as @ [b]" fl] 1(3) bc obtain s' fl' where
      "merge_loop_el s ?q = Some s'" "el_rep s' ((as @ [b]) @ coalesce sizeof_Block (c # bs)) fl'"
      by auto
    then show ?thesis
      using False bc h below by (auto simp: merge_loop_el.simps [of s ?p] Let_def)
  qed
next
  case 2
  then have "row_end sizeof_Block 0 as = POOL_SIZE_el"
    by (auto simp: el_rep_def row_end_def dest!: layout_end)
  with 2 show ?case by (auto simp: merge_loop_el.simps)
next
  case (3 b)
  then obtain z f where b: "b = (z, f)" by (cases b)
  with 3 obtain hb where "el_memory s (row_end sizeof_Block 0 as) = Some hb"
    "row_end sizeof_Block 0 as + sizeof_Block + el_size hb = POOL_SIZE_el"
    by (auto simp: el_rep_def el_view_Some)
  then show ?case using 3 by (auto simp: merge_loop_el.simps Let_def)
qed

lemma my_free_el_refines:
  assumes rep: "el_rep s bs fl" and p: "(p, (z, False)) \<in> set (cells sizeof_Block 0 bs)"
  shows "\<exists>s' fl'. my_free_el (Some (p + sizeof_Block)) s = Some s'
    \<and> el_rep s' (coalesce sizeof_Block (mark_free sizeof_Block p 0 bs)) fl'"
proof -
  obtain as cs where bs: "bs = as @ (z, False) # cs" and q: "p = row_end sizeof_Block 0 as"
    using cells_split [OF p] by metis
  from rep show ?thesis
  proof (cases rule: el_rep_cases)
    case (1 m)
    from 1(3) bs q obtain b where b: "m p = Some b" "el_size b = z"
      by (auto simp: el_view_Some)
    let ?m = "m(p \<mapsto> b\<lparr>el_free := True\<rparr>)"
    have "p \<notin> frees_of sizeof_Block 0 as" "p \<notin> frees_of sizeof_Block (p + sizeof_Block + z) cs"
      using frees_of_outside(1) [OF el_hdr_pos, of p 0 as]
        frees_of_outside(2) [of p sizeof_Block "p + sizeof_Block + z" cs] q
      by (auto simp: c_consts)
    then have "p \<notin> set fl" using 1(4) bs q by simp
    moreover have "linked ?m fl" using 1(2) b by (simp add: linked_same_links)
    ultimately obtain m1 where
      m1: "add_to_free_list p \<lparr>el_memory = ?m, free_list = hd_ptr fl None\<rparr> =
          Some \<lparr>el_memory = m1, free_list = hd_ptr (p # fl) None\<rparr>"
      "linked m1 (p # fl)" and v1: "el_view m1 = (el_view m)(p \<mapsto> (z, True))"
      using linked_add [of ?m fl p] b by (auto simp: el_view_upd)
    have "layout sizeof_Block (el_view m1) 0 (as @ [(z, True)] @ cs) POOL_SIZE_el"
      by (rule layout_replace [of _ "el_view m" _ _ "[(z, False)]"])
        (use 1(3) bs q v1 in \<open>auto simp: c_consts\<close>)
    moreover have "set (p # fl) = frees_of sizeof_Block 0 (as @ [(z, True)] @ cs)"
      using 1(4) bs q by auto
    ultimately have "el_rep \<lparr>el_memory = m1, free_list = hd_ptr (p # fl) None\<rparr>
        ([] @ as @ (z, True) # cs) (p # fl)"
      using el_rep_intro [OF m1(2)] by simp
    from merge_loop_el_refines [OF this] show ?thesis
      using m1(1) b 1(1) bs mark_free_row [OF el_hdr_pos, of 0 as "(z, False)" cs] q
      by (simp add: my_free_el_def)
  qed
qed

section \<open>The contract\<close>

lemma el_init_rep:
  "init_memory_el True = Some s \<Longrightarrow> el_rep s [(POOL_SIZE_el - sizeof_Block, True)] [0]"
  by (auto simp: init_memory_el_def el_rep_def el_view_def c_consts)

lemma el_alloc_Some:
  assumes rep: "el_rep s bs fl" and al: "el_alloc n bs fl = (bs', Some a)"
  shows "\<exists>m \<ge> n. live_of sizeof_Block 0 bs' = insert (a, m) (live_of sizeof_Block 0 bs)
    \<and> a \<notin> fst ` live_of sizeof_Block 0 bs"
proof -
  from al obtain q where q: "q \<in> set fl" "n \<le> size_at bs q"
    "bs' = take_at sizeof_Block n q 0 bs" "a = q + sizeof_Block"
    by (auto simp: el_alloc_def split: option.splits dest: find_SomeD)
  from el_rep_entry [OF rep q(1)] obtain z as cs where z: "size_at bs q = z"
    "bs = as @ (z, True) # cs" "q = row_end sizeof_Block 0 as" by blast
  with q have bs': "bs' = as @ split_block sizeof_Block n z @ cs"
    using take_at_row [OF el_hdr_pos, of n 0 as "(z, True)" cs] by simp
  have "live_of sizeof_Block 0 bs = live_of sizeof_Block 0 (as @ (z, True) # cs)"
    using z(2) by (rule arg_cong)
  with live_of_take_row [OF el_hdr_pos, of n z 0 as cs] bs' q(2,4) z(1,3) show ?thesis by simp
qed

lemma el_alloc_None: "el_alloc n bs fl = (bs', None) \<Longrightarrow> bs' = bs"
  by (auto simp: el_alloc_def split: option.splits)

lemma el_live_cases:
  assumes "el_inv s" and "(p, m) \<in> el_live s"
  obtains bs fl q where "el_rep s bs fl" "p = q + sizeof_Block"
    "(q, (m, False)) \<in> set (cells sizeof_Block 0 bs)"
proof -
  from assms(1) obtain bs fl where rep: "el_rep s bs fl" by (auto simp: el_inv_def)
  with assms(2) obtain q where q: "p = q + sizeof_Block"
    "(q, (m, False)) \<in> set (cells sizeof_Block 0 bs)"
    by (auto simp: el_live_eq live_of_def)
  with rep that show thesis by blast
qed

lemma my_malloc_el_cases:
  assumes "el_inv s"
  obtains bs fl bs' r s' fl' where "el_rep s bs fl" "el_alloc (unat (ALIGN4 n)) bs fl = (bs', r)"
    "my_malloc_el n s = Some (s', r)" "el_rep s' bs' fl'"
proof -
  from assms obtain bs fl where rep: "el_rep s bs fl" by (auto simp: el_inv_def)
  obtain bs' r where al: "el_alloc (unat (ALIGN4 n)) bs fl = (bs', r)" by fastforce
  from my_malloc_el_refines [OF rep al] rep al that show thesis by blast
qed

interpretation el: allocator el_inv el_live my_malloc_el my_free_el POOL_SIZE_el
proof (unfold_locales, goal_cases)
  case (1 s n s' r)
  from my_malloc_el_cases [OF 1(1), of n] 1(2) show ?case
    by (metis el_inv_def option.inject prod.inject)
next
  case (2 s n s')
  from my_malloc_el_cases [OF 2(1), of n] obtain bs fl bs' r t fl' where
    t: "el_rep s bs fl" "el_alloc (unat (ALIGN4 n)) bs fl = (bs', r)"
    "my_malloc_el n s = Some (t, r)" "el_rep t bs' fl'" by metis
  with 2 show ?case by (auto simp: el_live_eq dest!: el_alloc_None)
next
  case (3 s n s' p)
  from my_malloc_el_cases [OF 3(1), of n] obtain bs fl bs' r t fl' where
    t: "el_rep s bs fl" "el_alloc (unat (ALIGN4 n)) bs fl = (bs', r)"
    "my_malloc_el n s = Some (t, r)" "el_rep t bs' fl'" by metis
  with 3 el_alloc_Some [OF t(1), of "unat (ALIGN4 n)" bs' p] show ?case by (auto simp: el_live_eq)
next
  case (4 s p m s')
  from el_live_cases [OF 4(1,2)] obtain bs fl q where q: "el_rep s bs fl" "p = q + sizeof_Block"
    "(q, (m, False)) \<in> set (cells sizeof_Block 0 bs)" by metis
  from my_free_el_refines [OF q(1,3)] q(2) 4(3) obtain fl' where
    s': "el_rep s' (coalesce sizeof_Block (mark_free sizeof_Block q 0 bs)) fl'" by auto
  then have "el_live s' = el_live s - {(p, m)}"
    using q by (simp add: el_live_eq live_of_coalesce live_of_mark_free)
  with s' show ?case unfolding el_inv_def by blast
next
  case (5 s)
  then obtain bs fl where "el_rep s bs fl" by (auto simp: el_inv_def)
  then show ?case using live_of_non_overlapping [OF el_hdr_pos] by (simp add: el_live_eq)
next
  case (6 s p m)
  from el_live_cases [OF 6] obtain bs fl q where q: "el_rep s bs fl" "p = q + sizeof_Block"
    "(q, (m, False)) \<in> set (cells sizeof_Block 0 bs)" by metis
  with layout_cell_end [of sizeof_Block _ 0 bs POOL_SIZE_el q "(m, False)"] show ?case
    by (auto simp: el_rep_def)
next
  case (7 s n)
  from my_malloc_el_cases [OF 7, of n] show ?case by metis
next
  case (8 s p m)
  from el_live_cases [OF 8] obtain bs fl q where q: "el_rep s bs fl" "p = q + sizeof_Block"
    "(q, (m, False)) \<in> set (cells sizeof_Block 0 bs)" by metis
  from my_free_el_refines [OF q(1,3)] q(2) show ?case by auto
qed

section \<open>Properties\<close>

text \<open>
  \<open>my_malloc\<close> of the explicit free list takes the first block of the free list that is
  large enough: a state that represents the blocks \<open>bs\<close> and the free list \<open>fl\<close> yields the
  result of the abstract allocator, and a state that again represents its blocks, with a doubly
  linked list of exactly the free blocks.
\<close>

theorem my_malloc_el_takes_first_listed:
  assumes "el_rep s bs fl" and "el_alloc (unat (ALIGN4 n)) bs fl = (bs', r)"
  shows "\<exists>s' fl'. my_malloc_el n s = Some (s', r) \<and> el_rep s' bs' fl'
    \<and> set fl' = frees_of sizeof_Block 0 bs'"
  using my_malloc_el_refines [OF assms] by (auto simp: el_rep_def)

theorem my_malloc_el_takes_first_listed_witness:
  "\<exists>s' fl'. my_malloc_el 128 \<lparr>el_memory = [0 \<mapsto> \<lparr>el_size = 10208, el_free = True,
        el_next = None, el_prev = None\<rparr>], free_list = Some 0\<rparr> = Some (s', Some 32)
    \<and> el_rep s' [(128, False), (10048, True)] fl'
    \<and> set fl' = frees_of sizeof_Block 0 [(128, False), (10048, True)]"
  by (rule my_malloc_el_takes_first_listed [of _ "[(10208, True)]" "[0]"])
    (simp_all add: el_rep_def el_view_def c_consts ALIGN4_def el_alloc_def size_at_def
      split_block_def)

text \<open>
  \<open>my_free\<close> of a block in use puts it on the list and merges: afterwards the list again
  holds exactly the free blocks, no two neighbours are free, and exactly the freed payload is no
  longer in use.
\<close>

theorem my_free_el_coalesces:
  assumes "el_inv s" and "(p, m) \<in> el_live s"
  shows "\<exists>s' bs fl. my_free_el (Some p) s = Some s' \<and> el_rep s' bs fl
    \<and> el_live s' = el_live s - {(p, m)} \<and> no_adjacent_free bs"
proof -
  from assms obtain bs fl where rep: "el_rep s bs fl" by (auto simp: el_inv_def)
  with assms(2) obtain q where q: "p = q + sizeof_Block"
    "(q, (m, False)) \<in> set (cells sizeof_Block 0 bs)"
    by (auto simp: el_live_eq live_of_def)
  from my_free_el_refines [OF rep q(2)] q(1) obtain s' fl' where
    s': "my_free_el (Some p) s = Some s'"
    "el_rep s' (coalesce sizeof_Block (mark_free sizeof_Block q 0 bs)) fl'" by auto
  moreover have "el_live s' = el_live s - {(p, m)}"
    using q rep s' by (simp add: el_live_eq live_of_coalesce live_of_mark_free)
  ultimately show ?thesis using coalesce_no_adjacent_free by blast
qed

theorem my_free_el_coalesces_witness:
  "let s = \<lparr>el_memory = [0 \<mapsto> \<lparr>el_size = 10208, el_free = False, el_next = None, el_prev = None\<rparr>],
            free_list = None\<rparr> in
   \<exists>s' bs fl. my_free_el (Some 32) s = Some s' \<and> el_rep s' bs fl
    \<and> el_live s' = el_live s - {(32, 10208)} \<and> no_adjacent_free bs"
  unfolding Let_def
proof (rule my_free_el_coalesces)
  let ?s = "\<lparr>el_memory = [0 \<mapsto> \<lparr>el_size = 10208, el_free = False, el_next = None, el_prev = None\<rparr>],
            free_list = None\<rparr>"
  have rep: "el_rep ?s [(10208, False)] []"
    by (simp add: el_rep_def el_view_def c_consts)
  then show "el_inv ?s" unfolding el_inv_def by blast
  show "(32, 10208) \<in> el_live ?s" by (simp add: el_live_eq [OF rep] c_consts)
qed

text \<open>
  C14: every disciplined client of the explicit free list, starting from \<open>init_memory\<close>,
  only makes calls with a defined result (so every search and every merge ends), and the blocks
  it holds lie inside the pool and never overlap.
\<close>

theorem el_disciplined_clients_safe:
  assumes "init_memory_el True = Some s"
    and "disciplined my_malloc_el my_free_el rs s {}"
  shows "\<exists>s' outs. client_run my_malloc_el my_free_el rs s {} = Some (s', outs)
    \<and> outs = fst ` el_live s' \<and> non_overlapping (el_live s')
    \<and> (\<forall>(p, m) \<in> el_live s'. p + m \<le> POOL_SIZE_el)"
proof (rule el.client_payloads)
  from assms(1) have rep: "el_rep s [(POOL_SIZE_el - sizeof_Block, True)] [0]"
    by (rule el_init_rep)
  then show "el_inv s" unfolding el_inv_def by blast
  show "{} = fst ` el_live s" by (simp add: el_live_eq [OF rep])
qed (rule assms(2))

theorem el_disciplined_clients_safe_witness:
  "let s = \<lparr>el_memory = [0 \<mapsto> \<lparr>el_size = 10208, el_free = True, el_next = None, el_prev = None\<rparr>],
            free_list = Some 0\<rparr> in
   \<exists>s' outs. client_run my_malloc_el my_free_el [Malloc 128, Malloc 256, Free 32] s {}
      = Some (s', outs)
    \<and> outs = fst ` el_live s' \<and> non_overlapping (el_live s')
    \<and> (\<forall>(p, m) \<in> el_live s'. p + m \<le> POOL_SIZE_el)"
  unfolding Let_def
  by (rule el_disciplined_clients_safe)
    (simp_all add: el_ops my_malloc_loop_el.simps merge_loop_el.simps ALIGN4_def c_consts)

end
