(* ===== verification/SegregatedFits.thy ===== *)
theory SegregatedFits
  imports ExplicitFreeList
begin

text \<open>
  The segregated fits allocator
  (\<open>15.memory_allocation/1.allocation_strategy/3.segregated_fits.c\<close>).  Its block header is the
  one of the explicit free list; the free blocks hang in five lists, one per size class, and
  blocks are never merged.  What the code keeps (the row of blocks, links that lead to headers)
  is proved to be enough for safety; the lists themselves can get out of step with the blocks,
  and a client that makes the allocator loop forever is exhibited.
\<close>

section \<open>Data\<close>

definition POOL_SIZE_sf :: nat where
  "POOL_SIZE_sf = 1024 * 32"

definition NUM_CLASSES :: nat where
  "NUM_CLASSES = 5"

definition class_limits :: "nat list" where
  "class_limits = [32, 64, 128, 256, 1024]"

lemmas sf_consts [c_consts] = POOL_SIZE_sf_def NUM_CLASSES_def

record sf_state =
  sf_memory :: el_mem
  class_bins :: "ptr list"

section \<open>Operations\<close>

definition init_memory_sf :: "bool \<Rightarrow> sf_state option" where
  "init_memory_sf got =
     (if got
      then Some \<lparr>sf_memory = [0 \<mapsto> \<lparr>el_size = POOL_SIZE_sf - sizeof_Block, el_free = True,
                                     el_next = None, el_prev = None\<rparr>],
                 class_bins = (replicate NUM_CLASSES None)[NUM_CLASSES - 1 := Some 0]\<rparr>
      else None)"

function get_class_id_loop :: "nat \<Rightarrow> nat \<Rightarrow> nat" where
  "get_class_id_loop n i =
     (if i < NUM_CLASSES then
        if n \<le> class_limits ! i then i else get_class_id_loop n (i + 1)
      else NUM_CLASSES - 1)"
  by pat_completeness auto
termination
  by (relation "measure (\<lambda>(n, i). NUM_CLASSES - i)") auto

definition get_class_id :: "nat \<Rightarrow> nat" where
  "get_class_id n = get_class_id_loop n 0"

definition add_to_class :: "nat \<Rightarrow> sf_state \<Rightarrow> sf_state option" where
  "add_to_class p s = do {
     block \<leftarrow> sf_memory s p;
     let class_id = get_class_id (el_size block);
     let m1 = (sf_memory s)(p \<mapsto> block\<lparr>el_next := class_bins s ! class_id\<rparr>);
     m2 \<leftarrow> (case class_bins s ! class_id of None \<Rightarrow> Some m1 | Some q \<Rightarrow> set_prev m1 q (Some p));
     block2 \<leftarrow> m2 p;
     Some \<lparr>sf_memory = m2(p \<mapsto> block2\<lparr>el_prev := None\<rparr>),
           class_bins = (class_bins s)[class_id := Some p]\<rparr>
   }"

definition remove_from_class :: "nat \<Rightarrow> sf_state \<Rightarrow> sf_state option" where
  "remove_from_class p s = do {
     block \<leftarrow> sf_memory s p;
     let class_id = get_class_id (el_size block);
     m1 \<leftarrow> (case el_prev block of None \<Rightarrow> Some (sf_memory s)
           | Some q \<Rightarrow> set_next (sf_memory s) q (el_next block));
     block1 \<leftarrow> m1 p;
     m2 \<leftarrow> (case el_next block1 of None \<Rightarrow> Some m1
           | Some q \<Rightarrow> set_prev m1 q (el_prev block1));
     block2 \<leftarrow> m2 p;
     Some \<lparr>sf_memory = m2,
           class_bins = (if Some p = class_bins s ! class_id
                         then (class_bins s)[class_id := el_next block2] else class_bins s)\<rparr>
   }"

text \<open>
  \<open>my_malloc\<close>: the search of one bin, the block found (split, mark, unlink: in this order, so
  that \<open>remove_from_class\<close> sees the new size), and the loop over the bins.
\<close>

partial_function (option) search_bin_sf :: "nat \<Rightarrow> el_mem \<Rightarrow> ptr \<Rightarrow> ptr option" where
  "search_bin_sf n m cur =
     (case cur of
        None \<Rightarrow> Some None
      | Some p \<Rightarrow> Option.bind (m p) (\<lambda>block.
          if el_free block \<and> el_size block \<ge> n then Some (Some p)
          else search_bin_sf n m (el_next block)))"

definition take_block_sf :: "nat \<Rightarrow> nat \<Rightarrow> sf_state \<Rightarrow> (sf_state \<times> ptr) option" where
  "take_block_sf n p s = do {
     block \<leftarrow> sf_memory s p;
     let remaining = el_size block - n;
     s1 \<leftarrow> (if remaining > sizeof_Block + 4 then do {
              let new = p + sizeof_Block + n;
              let m = (sf_memory s)(new \<mapsto>
                        \<lparr>el_size = remaining - sizeof_Block, el_free = True,
                         el_next = None, el_prev = None\<rparr>);
              s' \<leftarrow> add_to_class new (s\<lparr>sf_memory := m\<rparr>);
              block' \<leftarrow> sf_memory s' p;
              Some (s'\<lparr>sf_memory := (sf_memory s')(p \<mapsto> block'\<lparr>el_size := n\<rparr>)\<rparr>)
            } else Some s);
     block1 \<leftarrow> sf_memory s1 p;
     s2 \<leftarrow> remove_from_class p
            (s1\<lparr>sf_memory := (sf_memory s1)(p \<mapsto> block1\<lparr>el_free := False\<rparr>)\<rparr>);
     Some (s2, Some (p + sizeof_Block))
   }"

function my_malloc_loop_sf :: "nat \<Rightarrow> sf_state \<Rightarrow> nat \<Rightarrow> (sf_state \<times> ptr) option" where
  "my_malloc_loop_sf n s i =
     (if i < NUM_CLASSES
      then case search_bin_sf n (sf_memory s) (class_bins s ! i) of
             None \<Rightarrow> None
           | Some None \<Rightarrow> my_malloc_loop_sf n s (i + 1)
           | Some (Some p) \<Rightarrow> take_block_sf n p s
      else Some (s, None))"
  by pat_completeness auto
termination
  by (relation "measure (\<lambda>(n, s, i). NUM_CLASSES - i)") auto

definition my_malloc_sf :: "size_t \<Rightarrow> sf_state \<Rightarrow> (sf_state \<times> ptr) option" where
  "my_malloc_sf sz s =
     (let n = unat (ALIGN4 sz) in my_malloc_loop_sf n s (get_class_id n))"

definition my_free_sf :: "ptr \<Rightarrow> sf_state \<Rightarrow> sf_state option" where
  "my_free_sf pt s =
     (case pt of
        None \<Rightarrow> Some s
      | Some a \<Rightarrow>
          if a < sizeof_Block then None
          else do {
            let p = a - sizeof_Block;
            block \<leftarrow> sf_memory s p;
            add_to_class p (s\<lparr>sf_memory := (sf_memory s)(p \<mapsto> block\<lparr>el_free := True\<rparr>)\<rparr>)
          })"

text \<open>\<open>print_state\<close>: for every bin its number, its limit and the sizes in it.\<close>

partial_function (option) print_bin_sf :: "el_mem \<Rightarrow> ptr \<Rightarrow> nat list option" where
  "print_bin_sf m cur =
     (case cur of
        None \<Rightarrow> Some []
      | Some p \<Rightarrow> Option.bind (m p) (\<lambda>block.
          Option.bind (print_bin_sf m (el_next block)) (\<lambda>out. Some (el_size block # out))))"

fun print_bins_sf :: "el_mem \<Rightarrow> (nat \<times> nat \<times> ptr) list \<Rightarrow> (nat \<times> nat \<times> nat list) list option" where
  "print_bins_sf m [] = Some []"
| "print_bins_sf m ((i, l, cur) # bins) = do {
     out \<leftarrow> print_bin_sf m cur;
     outs \<leftarrow> print_bins_sf m bins;
     Some ((i, l, out) # outs)
   }"

definition print_state_sf :: "sf_state \<Rightarrow> (nat \<times> nat \<times> nat list) list option" where
  "print_state_sf s =
     print_bins_sf (sf_memory s) (zip [0..<NUM_CLASSES] (zip class_limits (class_bins s)))"

definition main_sf :: "bool \<Rightarrow> (nat \<times> nat \<times> nat list) list list option" where
  "main_sf got = do {
     s0 \<leftarrow> init_memory_sf got;
     (s1, a) \<leftarrow> my_malloc_sf 30 s0;
     (s2, b) \<leftarrow> my_malloc_sf 70 s1;
     (s3, c) \<leftarrow> my_malloc_sf 100 s2;
     out1 \<leftarrow> print_state_sf s3;
     s4 \<leftarrow> my_free_sf b s3;
     out2 \<leftarrow> print_state_sf s4;
     s5 \<leftarrow> my_free_sf a s4;
     s6 \<leftarrow> my_free_sf c s5;
     out3 \<leftarrow> print_state_sf s6;
     Some [out1, out2, out3]
   }"

declare get_class_id_loop.simps [simp del] my_malloc_loop_sf.simps [simp del]

lemma get_class_id_cases:
  "get_class_id n =
     (if n \<le> 32 then 0 else if n \<le> 64 then 1 else if n \<le> 128 then 2
      else if n \<le> 256 then 3 else 4)"
  by (simp add: get_class_id_def get_class_id_loop.simps class_limits_def NUM_CLASSES_def)

lemmas sf_ops = remove_from_class_def add_to_class_def take_block_sf_def set_next_def
  set_prev_def my_malloc_sf_def my_free_sf_def init_memory_sf_def get_class_id_cases
  class_limits_def my_malloc_loop_sf.simps search_bin_sf.simps

lemma main_sf_prints:
  "main_sf True = Some
     [[(0, 32, []), (1, 64, []), (2, 128, []), (3, 256, []), (4, 1024, [32436])],
      [(0, 32, []), (1, 64, []), (2, 128, [72]), (3, 256, []), (4, 1024, [32436])],
      [(0, 32, [32]), (1, 64, []), (2, 128, [100, 72]), (3, 256, []), (4, 1024, [32436])]]"
  by (simp add: main_sf_def sf_ops print_state_sf_def print_bin_sf.simps ALIGN4_def 
      POOL_SIZE_sf_def el_consts NUM_CLASSES_def Let_def upt_conv_Cons)

section \<open>What the code keeps: headers in a row, links that lead to headers\<close>

definition links_to :: "nat set \<Rightarrow> ptr \<Rightarrow> bool" where
  "links_to S x \<longleftrightarrow> set_option x \<subseteq> S"

definition links_ok :: "nat set \<Rightarrow> el_mem \<Rightarrow> ptr list \<Rightarrow> bool" where
  "links_ok S m bins \<longleftrightarrow> S \<subseteq> dom m \<and> length bins = NUM_CLASSES \<and> (\<forall>x \<in> set bins. links_to S x)
     \<and> (\<forall>b \<in> ran m. links_to S (el_next b) \<and> links_to S (el_prev b))"

definition sf_rep :: "sf_state \<Rightarrow> block list \<Rightarrow> bool" where
  "sf_rep s bs \<longleftrightarrow> layout sizeof_Block (el_view (sf_memory s)) 0 bs POOL_SIZE_sf
     \<and> links_ok (starts sizeof_Block 0 bs) (sf_memory s) (class_bins s)"

definition sf_inv :: "sf_state \<Rightarrow> bool" where
  "sf_inv s \<longleftrightarrow> (\<exists>bs. sf_rep s bs)"

definition sf_live :: "sf_state \<Rightarrow> (nat \<times> nat) set" where
  "sf_live s = \<Union> {live_of sizeof_Block 0 bs | bs. sf_rep s bs}"

lemma sf_live_eq: "sf_rep s bs \<Longrightarrow> sf_live s = live_of sizeof_Block 0 bs"
  by (auto simp: sf_live_def sf_rep_def dest: layout_unique [OF el_hdr_pos])

lemma get_class_id_less [simp]: "get_class_id n < NUM_CLASSES"
  by (simp add: get_class_id_cases NUM_CLASSES_def)

lemma links_to_simps [simp]: "links_to S None" "links_to S (Some q) \<longleftrightarrow> q \<in> S"
  by (simp_all add: links_to_def)

lemma links_to_mono: "links_to S x \<Longrightarrow> S \<subseteq> S' \<Longrightarrow> links_to S' x"
  by (auto simp: links_to_def)

lemma links_ok_bin: "links_ok S m bins \<Longrightarrow> i < NUM_CLASSES \<Longrightarrow> links_to S (bins ! i)"
  by (simp add: links_ok_def)

lemma links_ok_next:
  "links_ok S m bins \<Longrightarrow> m p = Some b \<Longrightarrow> links_to S (el_next b) \<and> links_to S (el_prev b)"
  by (auto simp: links_ok_def ran_def)

lemma links_ok_block: "links_ok S m bins \<Longrightarrow> p \<in> S \<Longrightarrow> \<exists>b. m p = Some b"
  by (auto simp: links_ok_def)

lemma ran_updD: "c \<in> ran (m(p \<mapsto> b)) \<Longrightarrow> c = b \<or> c \<in> ran m"
  by (auto simp: ran_def split: if_splits)

lemma links_ok_write:
  "links_ok S m bins \<Longrightarrow> links_to S (el_next b) \<Longrightarrow> links_to S (el_prev b) \<Longrightarrow>
     links_ok S (m(p \<mapsto> b)) bins"
  by (auto simp: links_ok_def dest!: ran_updD)

lemma links_ok_set_bin: "links_ok S m bins \<Longrightarrow> links_to S x \<Longrightarrow> links_ok S m (bins[i := x])"
  by (auto simp: links_ok_def dest!: subsetD [OF set_update_subset_insert])

text \<open>A new header on the row, still without links.\<close>

lemma links_ok_insert:
  assumes "links_ok S m bins" and "el_next b = None" and "el_prev b = None"
  shows "links_ok (insert p S) (m(p \<mapsto> b)) bins"
proof -
  have "links_to (insert p S) x" if "links_to S x" for x
    using that by (rule links_to_mono) blast
  then show ?thesis using assms by (auto simp: links_ok_def dest!: ran_updD)
qed

text \<open>Writing one link of a header.\<close>

lemma write_link:
  assumes "links_ok S m bins" and "links_to S y" and "links_to S x"
  shows "\<exists>m'. (case y of None \<Rightarrow> Some m | Some q \<Rightarrow> set_prev m q x) = Some m'
      \<and> links_ok S m' bins \<and> el_view m' = el_view m"
    and "\<exists>m'. (case y of None \<Rightarrow> Some m | Some q \<Rightarrow> set_next m q x) = Some m'
      \<and> links_ok S m' bins \<and> el_view m' = el_view m"
proof -
  have "\<exists>b. m q = Some b \<and> links_to S (el_next b) \<and> links_to S (el_prev b)" if "y = Some q" for q
    using assms that links_ok_block [of S m bins q] links_ok_next by fastforce
  then show "\<exists>m'. (case y of None \<Rightarrow> Some m | Some q \<Rightarrow> set_prev m q x) = Some m'
      \<and> links_ok S m' bins \<and> el_view m' = el_view m"
    and "\<exists>m'. (case y of None \<Rightarrow> Some m | Some q \<Rightarrow> set_next m q x) = Some m'
      \<and> links_ok S m' bins \<and> el_view m' = el_view m"
    using assms
    by (auto simp: set_prev_def set_next_def el_view_same intro!: links_ok_write split: option.split)
qed

lemma add_to_class_ok:
  assumes "links_ok S (sf_memory s) (class_bins s)" and "p \<in> S"
  shows "\<exists>s'. add_to_class p s = Some s' \<and> links_ok S (sf_memory s') (class_bins s')
    \<and> el_view (sf_memory s') = el_view (sf_memory s)"
proof -
  obtain b where b: "sf_memory s p = Some b" using links_ok_block assms by blast
  let ?i = "get_class_id (el_size b)"
  let ?m1 = "(sf_memory s)(p \<mapsto> b\<lparr>el_next := class_bins s ! ?i\<rparr>)"
  have x: "links_to S (class_bins s ! ?i)" by (rule links_ok_bin [OF assms(1)]) simp
  then have "links_ok S ?m1 (class_bins s)"
    using links_ok_next [OF assms(1) b] by (simp add: links_ok_write assms(1))
  from write_link(1) [OF this x, of "Some p"] assms(2) obtain m where
    m: "(case class_bins s ! ?i of None \<Rightarrow> Some ?m1 | Some q \<Rightarrow> set_prev ?m1 q (Some p)) = Some m"
    and ok: "links_ok S m (class_bins s)" "el_view m = el_view ?m1"
    by (simp only: links_to_simps) blast
  obtain c where c: "m p = Some c" using links_ok_block ok(1) assms(2) by blast
  have "links_ok S (m(p \<mapsto> c\<lparr>el_prev := None\<rparr>)) ((class_bins s)[?i := Some p])"
    using links_ok_next [OF ok(1) c] assms(2) by (simp add: links_ok_write links_ok_set_bin ok(1))
  moreover have "add_to_class p s = Some \<lparr>sf_memory = m(p \<mapsto> c\<lparr>el_prev := None\<rparr>),
      class_bins = (class_bins s)[?i := Some p]\<rparr>"
    using b m c by (simp add: add_to_class_def Let_def)
  ultimately show ?thesis using ok(2) b c by (simp add: el_view_same)
qed

lemma remove_from_class_ok:
  assumes "links_ok S (sf_memory s) (class_bins s)" and "p \<in> S"
  shows "\<exists>s'. remove_from_class p s = Some s' \<and> links_ok S (sf_memory s') (class_bins s')
    \<and> el_view (sf_memory s') = el_view (sf_memory s)"
proof -
  obtain b where b: "sf_memory s p = Some b" using links_ok_block assms by blast
  let ?i = "get_class_id (el_size b)"
  obtain m1 where
    m1: "(case el_prev b of None \<Rightarrow> Some (sf_memory s)
          | Some q \<Rightarrow> set_next (sf_memory s) q (el_next b)) = Some m1"
    and ok1: "links_ok S m1 (class_bins s)" "el_view m1 = el_view (sf_memory s)"
    using write_link(2) [OF assms(1)] links_ok_next [OF assms(1) b] by blast
  obtain b1 where b1: "m1 p = Some b1" using links_ok_block ok1(1) assms(2) by blast
  obtain m2 where
    m2: "(case el_next b1 of None \<Rightarrow> Some m1 | Some q \<Rightarrow> set_prev m1 q (el_prev b1)) = Some m2"
    and ok2: "links_ok S m2 (class_bins s)" "el_view m2 = el_view m1"
    using write_link(1) [OF ok1(1)] links_ok_next [OF ok1(1) b1] by blast
  obtain b2 where b2: "m2 p = Some b2" using links_ok_block ok2(1) assms(2) by blast
  have n: "links_to S (el_next b2)" using links_ok_next [OF ok2(1) b2] by simp
  have "remove_from_class p s = Some \<lparr>sf_memory = m2,
      class_bins = (if Some p = class_bins s ! ?i then (class_bins s)[?i := el_next b2]
                    else class_bins s)\<rparr>"
    using b m1 b1 m2 b2 by (simp add: remove_from_class_def Let_def)
  then show ?thesis
    using ok1(2) ok2 links_ok_set_bin [OF ok2(1) n, of ?i] by auto
qed

section \<open>Taking a block\<close>

lemma sf_layout_split:
  assumes "layout sizeof_Block (el_view m) 0 (as @ (z, True) # cs) POOL_SIZE_sf"
    and "p = row_end sizeof_Block 0 as"
    and "\<And>q. q < p \<or> p + sizeof_Block + z \<le> q \<Longrightarrow> el_view m' q = el_view m q"
    and "layout sizeof_Block (el_view m') p ds (p + sizeof_Block + z)"
  shows "layout sizeof_Block (el_view m') 0 (as @ ds @ cs) POOL_SIZE_sf"
  using layout_replace [of sizeof_Block "el_view m" 0 as "[(z, True)]" cs POOL_SIZE_sf "el_view m'" ds]
    assms by simp

lemma mark_and_remove_sf:
  assumes "links_ok S m bins" and "p \<in> S" and "m p = Some b"
  shows "\<exists>s2. remove_from_class p \<lparr>sf_memory = m(p \<mapsto> b\<lparr>el_free := False\<rparr>), class_bins = bins\<rparr> = Some s2
    \<and> links_ok S (sf_memory s2) (class_bins s2)
    \<and> el_view (sf_memory s2) = (el_view m)(p \<mapsto> (el_size b, False))"
proof -
  have "links_ok S (m(p \<mapsto> b\<lparr>el_free := False\<rparr>)) bins"
    using links_ok_next [OF assms(1,3)] by (simp add: links_ok_write assms(1))
  then show ?thesis
    using remove_from_class_ok [of S "\<lparr>sf_memory = m(p \<mapsto> b\<lparr>el_free := False\<rparr>), class_bins = bins\<rparr>" p]
      assms(2) by (simp add: el_view_upd)
qed

lemma take_block_sf_whole:
  assumes rep: "sf_rep s (as @ (z, True) # cs)" and p: "p = row_end sizeof_Block 0 as"
    and n: "\<not> n + sizeof_Block + 4 < z" "n \<le> z"
  shows "\<exists>s'. take_block_sf n p s = Some (s', Some (p + sizeof_Block))
    \<and> sf_rep s' (as @ [(z, False)] @ cs)"
proof -
  let ?S = "starts sizeof_Block 0 (as @ (z, True) # cs)"
  from rep have l: "layout sizeof_Block (el_view (sf_memory s)) 0 (as @ (z, True) # cs) POOL_SIZE_sf"
    and ok: "links_ok ?S (sf_memory s) (class_bins s)" by (auto simp: sf_rep_def)
  from l p obtain b where b: "sf_memory s p = Some b" "el_size b = z"
    by (auto simp: el_view_Some)
  have "p \<in> ?S" using p by simp
  from mark_and_remove_sf [OF ok this b(1)] obtain s2 where
    s2: "remove_from_class p
        \<lparr>sf_memory = (sf_memory s)(p \<mapsto> b\<lparr>el_free := False\<rparr>), class_bins = class_bins s\<rparr> = Some s2"
    and ok2: "links_ok ?S (sf_memory s2) (class_bins s2)"
    and v: "el_view (sf_memory s2) = (el_view (sf_memory s))(p \<mapsto> (z, False))"
    using b(2) by blast
  from n have "\<not> sizeof_Block + 4 < z - n" by simp
  with s2 b have "take_block_sf n p s = Some (s2, Some (p + sizeof_Block))"
    by (cases s) (simp add: take_block_sf_def Let_def)
  moreover have "layout sizeof_Block (el_view (sf_memory s2)) 0 (as @ [(z, False)] @ cs) POOL_SIZE_sf"
    by (rule sf_layout_split [OF l p]) (use v in \<open>auto simp: c_consts\<close>)
  moreover have "starts sizeof_Block 0 (as @ [(z, False)] @ cs) = ?S" by (simp add: cells_row)
  ultimately show ?thesis using ok2 unfolding sf_rep_def by metis
qed

lemma take_block_sf_split:
  assumes rep: "sf_rep s (as @ (z, True) # cs)" and p: "p = row_end sizeof_Block 0 as"
    and n: "n + sizeof_Block + 4 < z"
  shows "\<exists>s'. take_block_sf n p s = Some (s', Some (p + sizeof_Block))
    \<and> sf_rep s' (as @ [(n, False), (z - n - sizeof_Block, True)] @ cs)"
proof -
  let ?S = "starts sizeof_Block 0 (as @ (z, True) # cs)"
  let ?new = "p + sizeof_Block + n"
  let ?r = "z - n - sizeof_Block"
  let ?nb = "\<lparr>el_size = ?r, el_free = True, el_next = None, el_prev = None\<rparr>"
  from rep have l: "layout sizeof_Block (el_view (sf_memory s)) 0 (as @ (z, True) # cs) POOL_SIZE_sf"
    and ok: "links_ok ?S (sf_memory s) (class_bins s)" by (auto simp: sf_rep_def)
  from l p obtain b where b: "sf_memory s p = Some b" "el_size b = z"
    by (auto simp: el_view_Some)
  have "links_ok (insert ?new ?S) ((sf_memory s)(?new \<mapsto> ?nb)) (class_bins s)"
    by (rule links_ok_insert [OF ok]) simp_all
  from add_to_class_ok [of "insert ?new ?S"
      "\<lparr>sf_memory = (sf_memory s)(?new \<mapsto> ?nb), class_bins = class_bins s\<rparr>" ?new] this
  obtain s1 where
    s1: "add_to_class ?new \<lparr>sf_memory = (sf_memory s)(?new \<mapsto> ?nb), class_bins = class_bins s\<rparr> = Some s1"
    and ok1: "links_ok (insert ?new ?S) (sf_memory s1) (class_bins s1)"
    and v1: "el_view (sf_memory s1) = (el_view (sf_memory s))(?new \<mapsto> (?r, True))"
    by (auto simp: el_view_upd)
  from v1 l p have "el_view (sf_memory s1) p = Some (z, True)" by (simp add: c_consts)
  then obtain b1 where b1: "sf_memory s1 p = Some b1" "el_size b1 = z"
    by (auto simp: el_view_Some)
  let ?m = "(sf_memory s1)(p \<mapsto> b1\<lparr>el_size := n\<rparr>)"
  have "links_ok (insert ?new ?S) ?m (class_bins s1)"
    by (rule links_ok_write [OF ok1]) (use links_ok_next [OF ok1 b1(1)] in simp_all)
  moreover have "p \<in> insert ?new ?S" using p by simp
  ultimately obtain s2 where
    s2: "remove_from_class p
        \<lparr>sf_memory = ?m(p \<mapsto> b1\<lparr>el_size := n, el_free := False\<rparr>), class_bins = class_bins s1\<rparr> = Some s2"
    and ok2: "links_ok (insert ?new ?S) (sf_memory s2) (class_bins s2)"
    and v2: "el_view (sf_memory s2) = (el_view ?m)(p \<mapsto> (n, False))"
    using mark_and_remove_sf [of "insert ?new ?S" ?m "class_bins s1" p "b1\<lparr>el_size := n\<rparr>"] by auto
  have v: "el_view (sf_memory s2) = (el_view (sf_memory s))(?new \<mapsto> (?r, True), p \<mapsto> (n, False))"
    using v2 v1 by (simp add: el_view_upd)
  from n have "sizeof_Block + 4 < z - n" by simp
  with s1 s2 b b1 have "take_block_sf n p s = Some (s2, Some (p + sizeof_Block))"
    by (cases s; cases s1) (simp add: take_block_sf_def Let_def)
  moreover have "layout sizeof_Block (el_view (sf_memory s2)) 0
      (as @ [(n, False), (?r, True)] @ cs) POOL_SIZE_sf"
    by (rule sf_layout_split [OF l p]) (use v n in \<open>auto simp: c_consts\<close>)
  moreover have "starts sizeof_Block 0 (as @ [(n, False), (?r, True)] @ cs) = insert ?new ?S"
    using p n by (auto simp: cells_row add.assoc)
  ultimately show ?thesis using ok2 unfolding sf_rep_def by metis
qed

lemma take_block_sf_refines:
  assumes "sf_rep s (as @ (z, True) # cs)" and "p = row_end sizeof_Block 0 as" and "n \<le> z"
  shows "\<exists>s'. take_block_sf n p s = Some (s', Some (p + sizeof_Block))
    \<and> sf_rep s' (as @ split_block sizeof_Block n z @ cs)"
  using take_block_sf_whole [OF assms(1,2) _ assms(3)] take_block_sf_split [OF assms(1,2), of n]
  by (cases "n + sizeof_Block + 4 < z") (auto simp: split_block_def)

section \<open>Calls that return\<close>

lemma sf_rep_free_block:
  assumes "sf_rep s bs" and "p \<in> starts sizeof_Block 0 bs" and "sf_memory s p = Some b"
    and "el_free b = f"
  shows "\<exists>as cs. bs = as @ (el_size b, f) # cs \<and> p = row_end sizeof_Block 0 as"
proof -
  from assms(2) obtain c where c: "(p, c) \<in> set (cells sizeof_Block 0 bs)" by force
  with assms(1) have "el_view (sf_memory s) p = Some c" by (auto simp: sf_rep_def dest: layout_cell)
  with assms(3,4) have "c = (el_size b, f)" by (simp add: el_view_def)
  with cells_split [OF c] show ?thesis by metis
qed

text \<open>Whatever the bins look like, a block that the search returns is a free block of the row.\<close>

lemma search_bin_sf_safe:
  assumes ret: "search_bin_sf n m cur = Some (Some p)"
    and "links_ok S m bins" and "links_to S cur"
  shows "p \<in> S \<and> (\<exists>b. m p = Some b \<and> el_free b \<and> n \<le> el_size b)"
proof -
  let ?P = "\<lambda>n m cur r. links_ok S m bins \<longrightarrow> links_to S cur \<longrightarrow>
    (\<forall>p. r = Some p \<longrightarrow> p \<in> S \<and> (\<exists>b. m p = Some b \<and> el_free b \<and> n \<le> el_size b))"
  have "?P n m cur (Some p)"
  proof (rule search_bin_sf.raw_induct [where P = ?P, OF _ ret])
    fix f n m cur r
    assume IH: "\<And>n m cur r. f n m cur = Some r \<Longrightarrow> ?P n m cur r"
      and eq: "(case cur of None \<Rightarrow> Some None
        | Some p \<Rightarrow> Option.bind (m p) (\<lambda>block.
            if el_free block \<and> n \<le> el_size block then Some (Some p)
            else f n m (el_next block))) = Some r"
    show "?P n m cur r"
    proof (cases cur)
      case None
      with eq show ?thesis by simp
    next
      case (Some q)
      with eq obtain b where b: "m q = Some b" by (auto split: Option.bind_splits)
      show ?thesis
      proof (cases "el_free b \<and> n \<le> el_size b")
        case True
        with eq Some b show ?thesis by auto
      next
        case False
        with eq Some b have "f n m (el_next b) = Some r" by auto
        from IH [OF this] links_ok_next [of S m bins q b] b show ?thesis by blast
      qed
    qed
  qed
  with assms(2,3) show ?thesis by blast
qed

text \<open>One call, as a relation between the rows before and after.\<close>

definition sf_took :: "nat \<Rightarrow> block list \<Rightarrow> ptr \<Rightarrow> block list \<Rightarrow> bool" where
  "sf_took n bs r bs' \<longleftrightarrow>
     r = None \<and> bs' = bs
     \<or> (\<exists>as z cs. bs = as @ (z, True) # cs \<and> n \<le> z \<and> bs' = as @ split_block sizeof_Block n z @ cs
          \<and> r = Some (row_end sizeof_Block 0 as + sizeof_Block))"

lemma take_found_sf:
  assumes rep: "sf_rep s bs" and i: "i < NUM_CLASSES"
    and f: "search_bin_sf n (sf_memory s) (class_bins s ! i) = Some (Some p)"
  shows "\<exists>s' bs'. take_block_sf n p s = Some (s', Some (p + sizeof_Block)) \<and> sf_rep s' bs'
    \<and> sf_took n bs (Some (p + sizeof_Block)) bs'"
proof -
  from rep have ok: "links_ok (starts sizeof_Block 0 bs) (sf_memory s) (class_bins s)"
    by (simp add: sf_rep_def)
  from search_bin_sf_safe [OF f ok links_ok_bin [OF ok i]] obtain b where
    b: "p \<in> starts sizeof_Block 0 bs" "sf_memory s p = Some b" "el_free b" "n \<le> el_size b"
    by blast
  from sf_rep_free_block [OF rep b(1,2)] b(3) obtain as cs where
    bs: "bs = as @ (el_size b, True) # cs" "p = row_end sizeof_Block 0 as" by blast
  from take_block_sf_refines [OF rep [unfolded bs(1)] bs(2) b(4)] obtain s' where
    "take_block_sf n p s = Some (s', Some (p + sizeof_Block))"
    "sf_rep s' (as @ split_block sizeof_Block n (el_size b) @ cs)" by blast
  with bs b(4) show ?thesis unfolding sf_took_def by blast
qed

lemma my_malloc_loop_sf_safe:
  "sf_rep s bs \<Longrightarrow> my_malloc_loop_sf n s i = Some (s', r) \<Longrightarrow>
     \<exists>bs'. sf_rep s' bs' \<and> sf_took n bs r bs'"
proof (induction n s i rule: my_malloc_loop_sf.induct)
  case (1 n s i)
  show ?case
  proof (cases "i < NUM_CLASSES")
    case False
    with 1(2,3) show ?thesis by (auto simp: my_malloc_loop_sf.simps sf_took_def)
  next
    case True
    with 1(3) obtain q where q: "search_bin_sf n (sf_memory s) (class_bins s ! i) = Some q"
      by (auto simp: my_malloc_loop_sf.simps split: option.splits)
    show ?thesis
    proof (cases q)
      case None
      with q True 1(3) have "my_malloc_loop_sf n s (i + 1) = Some (s', r)"
        by (subst (asm) my_malloc_loop_sf.simps) simp
      from 1(1) [OF True q [unfolded None] refl 1(2) this] show ?thesis .
    next
      case (Some p)
      with q True 1(3) have "take_block_sf n p s = Some (s', r)"
        by (subst (asm) my_malloc_loop_sf.simps) simp
      with take_found_sf [OF 1(2) True, of n p] q Some show ?thesis by auto
    qed
  qed
qed

lemma my_malloc_sf_safe:
  "sf_rep s bs \<Longrightarrow> my_malloc_sf n s = Some (s', r) \<Longrightarrow>
     \<exists>bs'. sf_rep s' bs' \<and> sf_took (unat (ALIGN4 n)) bs r bs'"
  by (auto simp: my_malloc_sf_def Let_def intro: my_malloc_loop_sf_safe)

lemma sf_took_live:
  assumes "sf_took n bs r bs'"
  shows "case r of None \<Rightarrow> bs' = bs
    | Some a \<Rightarrow> \<exists>m \<ge> n. live_of sizeof_Block 0 bs' = insert (a, m) (live_of sizeof_Block 0 bs)
        \<and> a \<notin> fst ` live_of sizeof_Block 0 bs"
  using assms live_of_take_row [OF el_hdr_pos, of n] unfolding sf_took_def by (auto simp del: live_of_row)

text \<open>\<open>my_free\<close> never loops: it marks the block and pushes it on the list of its class.\<close>

lemma my_free_sf_refines:
  assumes rep: "sf_rep s bs" and p: "(q, (z, False)) \<in> set (cells sizeof_Block 0 bs)"
  shows "\<exists>s'. my_free_sf (Some (q + sizeof_Block)) s = Some s'
    \<and> sf_rep s' (mark_free sizeof_Block q 0 bs)"
proof -
  let ?S = "starts sizeof_Block 0 bs"
  from rep have l: "layout sizeof_Block (el_view (sf_memory s)) 0 bs POOL_SIZE_sf"
    and ok: "links_ok ?S (sf_memory s) (class_bins s)" by (auto simp: sf_rep_def)
  from p have S: "q \<in> ?S" by force
  from layout_cell [OF l p] obtain b where b: "sf_memory s q = Some b" "el_size b = z"
    by (auto simp: el_view_Some)
  let ?m = "(sf_memory s)(q \<mapsto> b\<lparr>el_free := True\<rparr>)"
  have "links_ok ?S ?m (class_bins s)"
    by (rule links_ok_write [OF ok]) (use links_ok_next [OF ok b(1)] in simp_all)
  then obtain s' where s': "add_to_class q \<lparr>sf_memory = ?m, class_bins = class_bins s\<rparr> = Some s'"
    "links_ok ?S (sf_memory s') (class_bins s')" "el_view (sf_memory s') = el_view ?m"
    using add_to_class_ok [of ?S "\<lparr>sf_memory = ?m, class_bins = class_bins s\<rparr>" q] S by auto
  have "layout sizeof_Block (el_view ?m) 0 (mark_free sizeof_Block q 0 bs) POOL_SIZE_sf"
    using layout_mark_free [OF el_hdr_pos l S layout_cell [OF l p]] b by (simp add: el_view_upd)
  moreover have "starts sizeof_Block 0 (mark_free sizeof_Block q 0 bs) = ?S"
  proof -
    obtain as cs where bs: "bs = as @ (z, False) # cs" "q = row_end sizeof_Block 0 as"
      using cells_split [OF p] by metis
    then show ?thesis using mark_free_row [OF el_hdr_pos, of 0 as "(z, False)" cs] by simp
  qed
  moreover have "my_free_sf (Some (q + sizeof_Block)) s = Some s'"
    using s'(1) b by (cases s) (simp add: my_free_sf_def)
  ultimately show ?thesis using s' by (auto simp: sf_rep_def)
qed

section \<open>The contract: safe, but not total\<close>

lemma sf_live_cases:
  assumes "sf_inv s" and "(p, m) \<in> sf_live s"
  obtains bs q where "sf_rep s bs" "p = q + sizeof_Block"
    "(q, (m, False)) \<in> set (cells sizeof_Block 0 bs)"
proof -
  from assms(1) obtain bs where rep: "sf_rep s bs" by (auto simp: sf_inv_def)
  with assms(2) obtain q where q: "p = q + sizeof_Block"
    "(q, (m, False)) \<in> set (cells sizeof_Block 0 bs)"
    by (auto simp: sf_live_eq live_of_def)
  with rep that show thesis by blast
qed

lemma my_malloc_sf_cases:
  assumes "sf_inv s" and "my_malloc_sf n s = Some (s', r)"
  obtains bs bs' where "sf_rep s bs" "sf_rep s' bs'" "sf_took (unat (ALIGN4 n)) bs r bs'"
  using assms my_malloc_sf_safe unfolding sf_inv_def by blast

interpretation sf: safe_allocator sf_inv sf_live my_malloc_sf my_free_sf POOL_SIZE_sf
proof (unfold_locales, goal_cases)
  case (1 s n s' r)
  then show ?case by (rule my_malloc_sf_cases) (auto simp: sf_inv_def)
next
  case (2 s n s')
  from my_malloc_sf_cases [OF 2] obtain bs bs' where
    "sf_rep s bs" "sf_rep s' bs'" "sf_took (unat (ALIGN4 n)) bs None bs'" by metis
  then show ?case using sf_took_live [of "unat (ALIGN4 n)" bs None bs'] by (simp add: sf_live_eq)
next
  case (3 s n s' p)
  from my_malloc_sf_cases [OF 3] obtain bs bs' where
    "sf_rep s bs" "sf_rep s' bs'" "sf_took (unat (ALIGN4 n)) bs (Some p) bs'" by metis
  then show ?case using sf_took_live [of "unat (ALIGN4 n)" bs "Some p" bs'] by (simp add: sf_live_eq)
next
  case (4 s p m s')
  from sf_live_cases [OF 4(1,2)] obtain bs q where q: "sf_rep s bs" "p = q + sizeof_Block"
    "(q, (m, False)) \<in> set (cells sizeof_Block 0 bs)" by metis
  from my_free_sf_refines [OF q(1,3)] q(2) 4(3)
  have s': "sf_rep s' (mark_free sizeof_Block q 0 bs)" by auto
  then have "sf_live s' = sf_live s - {(p, m)}"
    using q by (simp add: sf_live_eq live_of_mark_free)
  with s' show ?case unfolding sf_inv_def by blast
next
  case (5 s)
  then obtain bs where "sf_rep s bs" by (auto simp: sf_inv_def)
  then show ?case using live_of_non_overlapping [OF el_hdr_pos] by (simp add: sf_live_eq)
next
  case (6 s p m)
  from sf_live_cases [OF 6] obtain bs q where q: "sf_rep s bs" "p = q + sizeof_Block"
    "(q, (m, False)) \<in> set (cells sizeof_Block 0 bs)" by metis
  with layout_cell_end [of sizeof_Block _ 0 bs POOL_SIZE_sf q "(m, False)"] show ?case
    by (auto simp: sf_rep_def)
qed

lemma sf_init_rep:
  "init_memory_sf True = Some s \<Longrightarrow> sf_rep s [(POOL_SIZE_sf - sizeof_Block, True)]"
  by (auto simp: init_memory_sf_def sf_rep_def links_ok_def el_view_def ran_def c_consts
      split: if_splits)

section \<open>The search in bins that are lists\<close>

text \<open>\<open>chain m cur xs\<close>: following \<open>next\<close> from \<open>cur\<close> visits the blocks \<open>xs\<close> and ends.\<close>

primrec chain :: "el_mem \<Rightarrow> ptr \<Rightarrow> nat list \<Rightarrow> bool" where
  "chain m cur [] = (cur = None)"
| "chain m cur (x # xs) = (cur = Some x \<and> (\<exists>b. m x = Some b \<and> chain m (el_next b) xs))"

definition fits_sf :: "el_mem \<Rightarrow> nat \<Rightarrow> nat \<Rightarrow> bool" where
  "fits_sf m n q = (case m q of None \<Rightarrow> False | Some b \<Rightarrow> el_free b \<and> n \<le> el_size b)"

lemma search_bin_sf_chain:
  "chain m cur xs \<Longrightarrow> search_bin_sf n m cur = Some (List.find (fits_sf m n) xs)"
  by (induction xs arbitrary: cur) (auto simp: search_bin_sf.simps fits_sf_def)

lemma my_malloc_loop_sf_chains:
  "length xss = NUM_CLASSES \<Longrightarrow> i \<le> NUM_CLASSES \<Longrightarrow>
     \<forall>j < NUM_CLASSES. chain (sf_memory s) (class_bins s ! j) (xss ! j) \<Longrightarrow>
     my_malloc_loop_sf n s i =
       (case List.find (fits_sf (sf_memory s) n) (concat (drop i xss)) of
          None \<Rightarrow> Some (s, None)
        | Some p \<Rightarrow> take_block_sf n p s)"
proof (induction n s i rule: my_malloc_loop_sf.induct)
  case (1 n s i)
  show ?case
  proof (cases "i < NUM_CLASSES")
    case False
    with 1(2,3) show ?thesis by (simp add: my_malloc_loop_sf.simps)
  next
    case True
    with 1(4) have s: "search_bin_sf n (sf_memory s) (class_bins s ! i) =
        Some (List.find (fits_sf (sf_memory s) n) (xss ! i))"
      by (simp add: search_bin_sf_chain)
    have d: "drop i xss = xss ! i # drop (i + 1) xss"
      using True 1(2) by (simp add: Cons_nth_drop_Suc)
    show ?thesis
    proof (cases "List.find (fits_sf (sf_memory s) n) (xss ! i)")
      case None
      have "my_malloc_loop_sf n s i = my_malloc_loop_sf n s (i + 1)"
        using True s None by (subst my_malloc_loop_sf.simps) simp
      also have "\<dots> = (case List.find (fits_sf (sf_memory s) n) (concat (drop (i + 1) xss)) of
          None \<Rightarrow> Some (s, None) | Some p \<Rightarrow> take_block_sf n p s)"
        using 1(1) [OF True s [unfolded None] refl 1(2) _ 1(4)] True by simp
      finally show ?thesis using None by (simp add: d find_append_case)
    next
      case (Some p)
      then show ?thesis using True s by (subst my_malloc_loop_sf.simps) (simp add: d find_append_case)
    qed
  qed
qed

lemma chain_on_row:
  assumes "sf_rep s bs" and "i < NUM_CLASSES" and "chain (sf_memory s) (class_bins s ! i) xs"
  shows "set xs \<subseteq> starts sizeof_Block 0 bs"
proof -
  from assms(1) have ok: "links_ok (starts sizeof_Block 0 bs) (sf_memory s) (class_bins s)"
    by (simp add: sf_rep_def)
  have "chain (sf_memory s) cur xs \<Longrightarrow> links_to (starts sizeof_Block 0 bs) cur \<Longrightarrow>
      set xs \<subseteq> starts sizeof_Block 0 bs" for cur
    by (induction xs arbitrary: cur) (auto dest: links_ok_next [OF ok])
  then show ?thesis using assms(2,3) links_ok_bin [OF ok] by blast
qed

section \<open>Bins that are cycles\<close>

text \<open>One step of the search, \<open>curr = curr->next\<close>, and sets of blocks it never leaves.\<close>

definition next_sf :: "el_mem \<Rightarrow> ptr \<Rightarrow> ptr" where
  "next_sf m cur = Option.bind cur (\<lambda>q. Option.bind (m q) el_next)"

definition closed_walk :: "el_mem \<Rightarrow> nat \<Rightarrow> nat set \<Rightarrow> bool" where
  "closed_walk m n C \<longleftrightarrow>
     (\<forall>q \<in> C. q \<in> dom m \<and> \<not> fits_sf m n q \<and> (\<exists>r \<in> C. next_sf m (Some q) = Some r))"

lemma closed_walk_forever:
  "closed_walk m n C \<Longrightarrow> q \<in> C \<Longrightarrow> \<exists>r \<in> C. (next_sf m ^^ k) (Some q) = Some r"
proof (induction k)
  case 0
  then show ?case by simp
next
  case (Suc k)
  then show ?case by (auto simp: closed_walk_def)
qed

lemma search_bin_sf_closed:
  assumes "closed_walk m n C" and "q \<in> C"
  shows "search_bin_sf n m (Some q) = None"
proof (rule ccontr)
  let ?P = "\<lambda>n m cur (r :: ptr). closed_walk m n C \<longrightarrow> (\<exists>q \<in> C. cur = Some q) \<longrightarrow> False"
  assume "search_bin_sf n m (Some q) \<noteq> None"
  then obtain r where ret: "search_bin_sf n m (Some q) = Some r" by blast
  have "?P n m (Some q) r"
  proof (rule search_bin_sf.raw_induct [where P = ?P, OF _ ret])
    fix f n m cur r
    assume IH: "\<And>n m cur r. f n m cur = Some r \<Longrightarrow> ?P n m cur r"
      and eq: "(case cur of None \<Rightarrow> Some None
        | Some p \<Rightarrow> Option.bind (m p) (\<lambda>block.
            if el_free block \<and> n \<le> el_size block then Some (Some p)
            else f n m (el_next block))) = Some r"
    show "?P n m cur r"
    proof (intro impI)
      assume c: "closed_walk m n C" and "\<exists>q \<in> C. cur = Some q"
      then obtain q b where q: "q \<in> C" "cur = Some q" "m q = Some b"
        by (fastforce simp: closed_walk_def)
      with c obtain t where t: "t \<in> C" "el_next b = Some t" "\<not> (el_free b \<and> n \<le> el_size b)"
        by (fastforce simp: closed_walk_def next_sf_def fits_sf_def)
      with eq q have "f n m (Some t) = Some r" by auto
      from IH [OF this] c t(1) show False by blast
    qed
  qed
  with assms show False by blast
qed

lemma all_less_5: "(\<forall>j < 5. P j) \<longleftrightarrow> P 0 \<and> P (Suc 0) \<and> P 2 \<and> P 3 \<and> P (4 :: nat)"
  by (simp add: numeral_eq_Suc All_less_Suc2)

section \<open>Properties\<close>

text \<open>
  C18: whatever a disciplined client of the segregated fits allocator does, as long as its
  calls return, the blocks it holds lie inside the pool and never overlap: the free flags keep
  the blocks apart even when the bins are out of step with them.
\<close>

theorem sf_disciplined_clients_safe:
  assumes "init_memory_sf True = Some s"
    and "disciplined my_malloc_sf my_free_sf rs s {}"
    and "client_run my_malloc_sf my_free_sf rs s {} = Some (s', outs)"
  shows "outs = fst ` sf_live s' \<and> non_overlapping (sf_live s')
    \<and> (\<forall>(p, m) \<in> sf_live s'. p + m \<le> POOL_SIZE_sf)"
proof (rule sf.client_payloads_safe)
  from assms(1) have rep: "sf_rep s [(POOL_SIZE_sf - sizeof_Block, True)]"
    by (rule sf_init_rep)
  then show "sf_inv s" unfolding sf_inv_def by blast
  show "{} = fst ` sf_live s" by (simp add: sf_live_eq [OF rep])
qed (rule assms(2,3))+

theorem sf_disciplined_clients_safe_witness:
  "\<exists>s'. client_run my_malloc_sf my_free_sf [Malloc 200, Free 32, Malloc 100]
      \<lparr>sf_memory = [0 \<mapsto> \<lparr>el_size = 32736, el_free = True, el_next = None, el_prev = None\<rparr>],
       class_bins = [None, None, None, None, Some 0]\<rparr> {} = Some (s', {32})
    \<and> {32} = fst ` sf_live s' \<and> non_overlapping (sf_live s')
    \<and> (\<forall>(p, m) \<in> sf_live s'. p + m \<le> POOL_SIZE_sf)"
proof -
  let ?s = "\<lparr>sf_memory = [0 \<mapsto> \<lparr>el_size = 32736, el_free = True, el_next = None, el_prev = None\<rparr>],
       class_bins = [None, None, None, None, Some 0]\<rparr>"
  let ?rs = "[Malloc 200, Free 32, Malloc 100]"
  have i: "init_memory_sf True = Some ?s" by (simp add: init_memory_sf_def c_consts)
  have d: "disciplined my_malloc_sf my_free_sf ?rs ?s {}"
    by (simp add: sf_ops ALIGN4_def POOL_SIZE_sf_def el_consts NUM_CLASSES_def Let_def)
  have r: "\<exists>s'. client_run my_malloc_sf my_free_sf ?rs ?s {} = Some (s', {32})"
    by (simp add: sf_ops ALIGN4_def POOL_SIZE_sf_def el_consts NUM_CLASSES_def Let_def)
  then obtain s' where "client_run my_malloc_sf my_free_sf ?rs ?s {} = Some (s', {32})" by blast
  with sf_disciplined_clients_safe [OF i d this] show ?thesis by blast
qed

text \<open>
  When every bin is a list that ends, \<open>my_malloc\<close> returns; it takes the first block that
  fits of the first bin, from the request's own class upwards, that has one, it splits it when
  enough is left over, and it reports failure only when no block of these bins fits.
\<close>

theorem my_malloc_sf_takes_best_class:
  assumes "sf_rep s bs" and "length xss = NUM_CLASSES"
    and "\<forall>j < NUM_CLASSES. chain (sf_memory s) (class_bins s ! j) (xss ! j)"
    and "n = unat (ALIGN4 sz)"
  shows "case List.find (fits_sf (sf_memory s) n) (concat (drop (get_class_id n) xss)) of
      None \<Rightarrow> my_malloc_sf sz s = Some (s, None)
    | Some p \<Rightarrow> \<exists>s' as z cs. my_malloc_sf sz s = Some (s', Some (p + sizeof_Block))
        \<and> p = row_end sizeof_Block 0 as \<and> bs = as @ (z, True) # cs \<and> n \<le> z
        \<and> sf_rep s' (as @ split_block sizeof_Block n z @ cs)"
proof -
  let ?r = "List.find (fits_sf (sf_memory s) n) (concat (drop (get_class_id n) xss))"
  have e: "my_malloc_sf sz s = (case ?r of None \<Rightarrow> Some (s, None) | Some p \<Rightarrow> take_block_sf n p s)"
    using my_malloc_loop_sf_chains [OF assms(2) _ assms(3), of "get_class_id n" n] assms(4)
    by (simp add: my_malloc_sf_def Let_def less_imp_le)
  show ?thesis
  proof (cases ?r)
    case None
    with e show ?thesis by simp
  next
    case (Some p)
    from find_SomeD [OF Some] obtain xs where "xs \<in> set xss" "p \<in> set xs"
      by (auto dest: in_set_dropD)
    then obtain j where j: "j < NUM_CLASSES" "p \<in> set (xss ! j)"
      using assms(2) by (auto simp: in_set_conv_nth [of xs xss])
    from find_SomeD [OF Some] obtain b where b: "sf_memory s p = Some b" "el_free b" "n \<le> el_size b"
      by (auto simp: fits_sf_def split: option.splits)
    have "p \<in> starts sizeof_Block 0 bs"
      using chain_on_row [OF assms(1) j(1)] assms(3) j by blast
    from sf_rep_free_block [OF assms(1) this b(1)] b(2) obtain as cs where
      bs: "bs = as @ (el_size b, True) # cs" "p = row_end sizeof_Block 0 as" by blast
    from take_block_sf_refines [OF assms(1) [unfolded bs(1)] bs(2) b(3)] e Some bs b(3)
    show ?thesis by auto
  qed
qed

theorem my_malloc_sf_takes_best_class_witness:
  "let s = \<lparr>sf_memory = [0 \<mapsto> \<lparr>el_size = 32736, el_free = True, el_next = None, el_prev = None\<rparr>],
       class_bins = [None, None, None, None, Some 0]\<rparr> in
   \<exists>s' as z cs. my_malloc_sf 99 s = Some (s', Some (0 + sizeof_Block))
     \<and> 0 = row_end sizeof_Block 0 as \<and> [(32736, True)] = as @ (z, True) # cs \<and> 100 \<le> z
     \<and> sf_rep s' (as @ split_block sizeof_Block 100 z @ cs)"
proof -
  let ?s = "\<lparr>sf_memory = [0 \<mapsto> \<lparr>el_size = 32736, el_free = True, el_next = None, el_prev = None\<rparr>],
       class_bins = [None, None, None, None, Some 0]\<rparr>"
  have rep: "sf_rep ?s [(32736, True)]"
    using sf_init_rep [of ?s] by (simp add: init_memory_sf_def c_consts)
  have ch: "\<forall>j < NUM_CLASSES. chain (sf_memory ?s) (class_bins ?s ! j) ([[], [], [], [], [0]] ! j)"
    unfolding NUM_CLASSES_def by (simp add: all_less_5)
  have f: "List.find (fits_sf (sf_memory ?s) 100)
      (concat (drop (get_class_id 100) [[], [], [], [], [0]])) = Some 0"
    by (simp add: get_class_id_cases fits_sf_def)
  have "length [[], [], [], [], [0]] = NUM_CLASSES" "100 = unat (ALIGN4 99)"
    by (simp_all add: NUM_CLASSES_def ALIGN4_def)
  from my_malloc_sf_takes_best_class [OF rep this(1) ch this(2), unfolded f option.case]
  show ?thesis unfolding Let_def .
qed

text \<open>
  The bins do get out of step: \<open>my_malloc\<close> writes the new size before
  \<open>remove_from_class\<close> looks the class up, so a block can stay in its old bin.  After the
  disciplined client below, the bin of the class of 128 bytes is a cycle of two blocks none of
  which fits, and the next \<open>my_malloc(128)\<close> never returns.
\<close>

theorem my_malloc_sf_loops_forever:
  "\<exists>s0 s. init_memory_sf True = Some s0
    \<and> disciplined my_malloc_sf my_free_sf
        [Malloc 200, Free 32, Malloc 100, Free 32, Malloc 32, Malloc 64, Free 164] s0 {}
    \<and> client_run my_malloc_sf my_free_sf
        [Malloc 200, Free 32, Malloc 100, Free 32, Malloc 32, Malloc 64, Free 164] s0 {} = Some (s, {32})
    \<and> my_malloc_sf 128 s = None
    \<and> (\<forall>k. \<exists>q b. (next_sf (sf_memory s) ^^ k) (class_bins s ! get_class_id 128) = Some q
          \<and> sf_memory s q = Some b \<and> \<not> fits_sf (sf_memory s) 128 q)"
proof -
  let ?rs = "[Malloc 200, Free 32, Malloc 100, Free 32, Malloc 32, Malloc 64, Free 164]"
  let ?s0 = "\<lparr>sf_memory = [0 \<mapsto> \<lparr>el_size = 32736, el_free = True, el_next = None, el_prev = None\<rparr>],
       class_bins = [None, None, None, None, Some 0]\<rparr>"
  have d: "disciplined my_malloc_sf my_free_sf ?rs ?s0 {}"
    by (simp add: sf_ops ALIGN4_def POOL_SIZE_sf_def el_consts NUM_CLASSES_def Let_def)
  have "\<exists>m. client_run my_malloc_sf my_free_sf ?rs ?s0 {} =
        Some (\<lparr>sf_memory = m, class_bins = [None, Some 64, Some 132, Some 0, Some 232]\<rparr>, {32})
      \<and> m 0 = Some \<lparr>el_size = 32, el_free = False, el_next = Some 132, el_prev = Some 132\<rparr>
      \<and> m 132 = Some \<lparr>el_size = 68, el_free = True, el_next = Some 0, el_prev = None\<rparr>"
    by (simp add: sf_ops ALIGN4_def POOL_SIZE_sf_def el_consts NUM_CLASSES_def Let_def)
  then obtain m where r: "client_run my_malloc_sf my_free_sf ?rs ?s0 {} =
      Some (\<lparr>sf_memory = m, class_bins = [None, Some 64, Some 132, Some 0, Some 232]\<rparr>, {32})"
    and m: "m 0 = Some \<lparr>el_size = 32, el_free = False, el_next = Some 132, el_prev = Some 132\<rparr>"
      "m 132 = Some \<lparr>el_size = 68, el_free = True, el_next = Some 0, el_prev = None\<rparr>" by blast
  have c: "closed_walk m 128 {0, 132}" using m by (auto simp: closed_walk_def fits_sf_def next_sf_def)
  have "my_malloc_sf 128 \<lparr>sf_memory = m, class_bins = [None, Some 64, Some 132, Some 0, Some 232]\<rparr> = None"
    using search_bin_sf_closed [OF c, of 132]
    by (simp add: my_malloc_sf_def ALIGN4_def get_class_id_cases my_malloc_loop_sf.simps NUM_CLASSES_def)
  moreover have "\<forall>k. \<exists>q b. (next_sf m ^^ k) (Some 132) = Some q \<and> m q = Some b \<and> \<not> fits_sf m 128 q"
    using closed_walk_forever [OF c, of 132] c by (fastforce simp: closed_walk_def)
  ultimately show ?thesis
    using d r by (intro exI [of _ ?s0] exI conjI) (assumption | simp add: init_memory_sf_def c_consts get_class_id_cases)+
qed

end
