(* ===== verification/PointerList.thy ===== *)
theory PointerList
  imports Prelude
begin

text \<open>
  Singly linked lists in memory, for the components that thread one through their blocks.
  \<open>nx p\<close> is the \<open>next\<close> pointer stored at address \<open>p\<close>, when something is stored there;
  \<open>stack nx c ps\<close> says that the list from \<open>c\<close> visits the addresses \<open>ps\<close> and ends.
\<close>

primrec stack :: "(nat \<rightharpoonup> ptr) \<Rightarrow> ptr \<Rightarrow> nat list \<Rightarrow> bool" where
  "stack nx c [] = (c = None)"
| "stack nx c (p # ps) = (c = Some p \<and> (\<exists>d. nx p = Some d \<and> stack nx d ps))"

lemma stack_same: "(\<And>p. p \<in> set ps \<Longrightarrow> nx p = nx' p) \<Longrightarrow> stack nx c ps = stack nx' c ps"
  by (induction ps arbitrary: c) auto

lemma stack_upd [simp]: "p \<notin> set ps \<Longrightarrow> stack (nx(p := v)) c ps = stack nx c ps"
  by (rule stack_same) auto

lemma stack_None [simp]: "stack nx None ps \<longleftrightarrow> ps = []"
  by (cases ps) auto

lemma stack_Some: "stack nx (Some p) ps \<longleftrightarrow> (\<exists>d qs. ps = p # qs \<and> nx p = Some d \<and> stack nx d qs)"
  by (cases ps) auto

lemma stack_dom: "stack nx c ps \<Longrightarrow> set ps \<subseteq> dom nx"
  by (induction ps arbitrary: c) auto

lemma stack_unique: "stack nx c ps \<Longrightarrow> stack nx c qs \<Longrightarrow> ps = qs"
  by (induction ps arbitrary: c qs) (auto simp: stack_Some)

text \<open>A list that ends never visits an address twice.\<close>

lemma stack_suffix: "stack nx c (ps @ qs) \<Longrightarrow> \<exists>d. stack nx d qs \<and> (qs \<noteq> [] \<longrightarrow> d = Some (hd qs))"
  by (induction ps arbitrary: c) (auto, (cases qs, auto))

lemma stack_distinct: "stack nx c ps \<Longrightarrow> distinct ps"
proof (induction ps arbitrary: c)
  case Nil
  then show ?case by simp
next
  case (Cons p ps)
  then obtain d where d: "nx p = Some d" "stack nx d ps" by auto
  have "p \<notin> set ps"
  proof
    assume "p \<in> set ps"
    then obtain as bs where ps: "ps = as @ p # bs" by (meson split_list)
    from stack_suffix [of nx d as "p # bs"] d(2) ps have "stack nx d bs" using d(1) by auto
    with d(2) have "ps = bs" by (rule stack_unique)
    with ps show False by simp
  qed
  with Cons.IH [OF d(2)] show ?case by simp
qed

text \<open>Writing a \<open>next\<close> pointer past one entry takes this entry off the list.\<close>

lemma stack_skip:
  "stack nx c (ps @ q # r # rs) \<Longrightarrow> distinct (ps @ q # r # rs) \<Longrightarrow> nx r = Some d \<Longrightarrow>
     stack (nx(q \<mapsto> d)) c (ps @ q # rs)"
  by (induction ps arbitrary: c) auto

text \<open>Writing the last \<open>next\<close> pointer puts an address at the end.\<close>

lemma stack_snoc:
  "stack nx c (ps @ [q]) \<Longrightarrow> r \<noteq> q \<Longrightarrow> r \<notin> set ps \<Longrightarrow>
     stack (nx(q \<mapsto> Some r, r \<mapsto> None)) c ((ps @ [q]) @ [r])"
proof -
  assume st: "stack nx c (ps @ [q])" and r: "r \<noteq> q" "r \<notin> set ps"
  have "q \<notin> set ps" using stack_distinct [OF st] by simp
  with st r show ?thesis by (induction ps arbitrary: c) auto
qed

end
