(* ===== verification/FixedBins.thy ===== *)
theory FixedBins
  imports PointerList
begin

text \<open>
  The fixed-size bins allocator
  (\<open>15.memory_allocation/1.allocation_strategy/4.slab_style_fixed_size_bins.c\<close>): one region of
  50 chunks of 32 bytes and one of 30 chunks of 64 bytes, each with a singly linked list of its
  free chunks threaded through the chunks themselves.  Both bins meet one contract, the locale
  \<open>chunk_stack\<close>: a stack of addresses.
\<close>

section \<open>Data\<close>

definition POOL_SIZE_bins :: nat where
  "POOL_SIZE_bins = 1024 * 4"

definition CHUNK_32_SIZE :: nat where
  "CHUNK_32_SIZE = 32"

definition CHUNK_64_SIZE :: nat where
  "CHUNK_64_SIZE = 64"

definition NUM_32 :: nat where
  "NUM_32 = 50"

definition NUM_64 :: nat where
  "NUM_64 = 30"

lemmas bins_consts [c_consts] = POOL_SIZE_bins_def CHUNK_32_SIZE_def CHUNK_64_SIZE_def
  NUM_32_def NUM_64_def

text \<open>\<open>next\<close> of every chunk that carries one, by address; a chunk in use carries client data.\<close>

record bins_state =
  chunk_next :: "nat \<rightharpoonup> ptr"
  free_list_32 :: ptr
  free_list_64 :: ptr

section \<open>Operations\<close>

text \<open>The two loops of \<open>init_memory\<close>: \<open>n\<close> chunks from \<open>p\<close> on, each pushed on its list.\<close>

fun init_32_loop :: "nat \<Rightarrow> nat \<Rightarrow> bins_state \<Rightarrow> bins_state \<times> nat" where
  "init_32_loop 0 p s = (s, p)"
| "init_32_loop (Suc n) p s =
     init_32_loop n (p + CHUNK_32_SIZE)
       (s\<lparr>chunk_next := (chunk_next s)(p \<mapsto> free_list_32 s), free_list_32 := Some p\<rparr>)"

fun init_64_loop :: "nat \<Rightarrow> nat \<Rightarrow> bins_state \<Rightarrow> bins_state \<times> nat" where
  "init_64_loop 0 p s = (s, p)"
| "init_64_loop (Suc n) p s =
     init_64_loop n (p + CHUNK_64_SIZE)
       (s\<lparr>chunk_next := (chunk_next s)(p \<mapsto> free_list_64 s), free_list_64 := Some p\<rparr>)"

definition bins_start :: bins_state where
  "bins_start = \<lparr>chunk_next = Map.empty, free_list_32 = None, free_list_64 = None\<rparr>"

definition init_memory_bins :: "bool \<Rightarrow> bins_state option" where
  "init_memory_bins got =
     (if got then
        let (s1, p1) = init_32_loop NUM_32 0 bins_start;
            (s2, p2) = init_64_loop NUM_64 p1 s1
        in Some s2
      else None)"

definition alloc_32 :: "bins_state \<Rightarrow> (bins_state \<times> ptr) option" where
  "alloc_32 s =
     (case free_list_32 s of
        None \<Rightarrow> Some (s, None)
      | Some chunk \<Rightarrow>
          map_option (\<lambda>next. (s\<lparr>free_list_32 := next\<rparr>, Some chunk)) (chunk_next s chunk))"

definition alloc_64 :: "bins_state \<Rightarrow> (bins_state \<times> ptr) option" where
  "alloc_64 s =
     (case free_list_64 s of
        None \<Rightarrow> Some (s, None)
      | Some chunk \<Rightarrow>
          map_option (\<lambda>next. (s\<lparr>free_list_64 := next\<rparr>, Some chunk)) (chunk_next s chunk))"

text \<open>A \<open>NULL\<close> argument is dereferenced: no result.\<close>

definition free_32 :: "ptr \<Rightarrow> bins_state \<Rightarrow> bins_state option" where
  "free_32 pt s =
     map_option (\<lambda>chunk. s\<lparr>chunk_next := (chunk_next s)(chunk \<mapsto> free_list_32 s),
                             free_list_32 := Some chunk\<rparr>) pt"

definition free_64 :: "ptr \<Rightarrow> bins_state \<Rightarrow> bins_state option" where
  "free_64 pt s =
     map_option (\<lambda>chunk. s\<lparr>chunk_next := (chunk_next s)(chunk \<mapsto> free_list_64 s),
                             free_list_64 := Some chunk\<rparr>) pt"

text \<open>\<open>print_state\<close> counts the chunks of both lists.\<close>

partial_function (option) count_chunks :: "(nat \<rightharpoonup> ptr) \<Rightarrow> ptr \<Rightarrow> nat \<Rightarrow> nat option" where
  "count_chunks nx c k =
     (case c of
        None \<Rightarrow> Some k
      | Some p \<Rightarrow> Option.bind (nx p) (\<lambda>next. count_chunks nx next (k + 1)))"

definition print_state_bins :: "bins_state \<Rightarrow> (nat \<times> nat) option" where
  "print_state_bins s = do {
     count_32 \<leftarrow> count_chunks (chunk_next s) (free_list_32 s) 0;
     count_64 \<leftarrow> count_chunks (chunk_next s) (free_list_64 s) 0;
     Some (count_32, count_64)
   }"

definition main_bins :: "bool \<Rightarrow> (nat \<times> nat) list option" where
  "main_bins got = do {
     s0 \<leftarrow> init_memory_bins got;
     (s1, a) \<leftarrow> alloc_32 s0;
     (s2, b) \<leftarrow> alloc_64 s1;
     (s3, c) \<leftarrow> alloc_64 s2;
     out1 \<leftarrow> print_state_bins s3;
     s4 \<leftarrow> free_64 b s3;
     out2 \<leftarrow> print_state_bins s4;
     s5 \<leftarrow> free_32 a s4;
     s6 \<leftarrow> free_64 c s5;
     out3 \<leftarrow> print_state_bins s6;
     Some [out1, out2, out3]
   }"

section \<open>The lists of free chunks\<close>

lemma count_chunks_stack: "stack nx c ps \<Longrightarrow> count_chunks nx c k = Some (k + length ps)"
proof (induction ps arbitrary: c k)
  case Nil
  then show ?case by (subst count_chunks.simps) simp
next
  case (Cons p ps)
  then show ?case by (subst count_chunks.simps) auto
qed

text \<open>
  The state stands for two stacks of free chunks: those of the 32-byte bin among the 50 chunks
  at the start of the pool, those of the 64-byte bin among the 30 behind them.
\<close>

definition chunks_32 :: "nat list" where
  "chunks_32 = map (\<lambda>i. i * CHUNK_32_SIZE) [0..<NUM_32]"

definition chunks_64 :: "nat list" where
  "chunks_64 = map (\<lambda>i. NUM_32 * CHUNK_32_SIZE + i * CHUNK_64_SIZE) [0..<NUM_64]"

definition bins_rep :: "bins_state \<Rightarrow> nat list \<Rightarrow> nat list \<Rightarrow> bool" where
  "bins_rep s ps qs \<longleftrightarrow>
     stack (chunk_next s) (free_list_32 s) ps \<and> stack (chunk_next s) (free_list_64 s) qs
     \<and> distinct ps \<and> distinct qs \<and> set ps \<subseteq> set chunks_32 \<and> set qs \<subseteq> set chunks_64"

lemma chunks_disjoint: "p \<in> set chunks_32 \<Longrightarrow> p \<notin> set chunks_64"
  by (auto simp: chunks_32_def chunks_64_def c_consts)

text \<open>The addresses \<open>p\<close>, \<open>p + c\<close>, \dots of \<open>n\<close> chunks of \<open>c\<close> bytes.\<close>

definition chunk_row :: "nat \<Rightarrow> nat \<Rightarrow> nat \<Rightarrow> nat list" where
  "chunk_row c p n = map (\<lambda>i. p + i * c) [0..<n]"

lemma chunk_row_simps [simp]:
  "chunk_row c p 0 = []" "chunk_row c p (Suc n) = p # chunk_row c (p + c) n"
  by (simp_all add: chunk_row_def upt_conv_Cons map_Suc_upt [symmetric] add.assoc del: upt_Suc)

lemma init_32_loop_stack:
  "stack (chunk_next s) (free_list_32 s) ps \<Longrightarrow> \<forall>q \<in> set ps. q < p \<Longrightarrow>
     init_32_loop n p s = (s', p') \<Longrightarrow>
     p' = p + n * CHUNK_32_SIZE \<and> free_list_64 s' = free_list_64 s
       \<and> stack (chunk_next s') (free_list_32 s') (rev (chunk_row CHUNK_32_SIZE p n) @ ps)
       \<and> (\<forall>q < p. chunk_next s' q = chunk_next s q)"
proof (induction n p s arbitrary: ps rule: init_32_loop.induct)
  case (1 p s)
  then show ?case by simp
next
  case (2 n p s)
  let ?s = "s\<lparr>chunk_next := (chunk_next s)(p \<mapsto> free_list_32 s), free_list_32 := Some p\<rparr>"
  have "stack (chunk_next ?s) (free_list_32 ?s) (p # ps)"
    using 2(2,3) by auto
  moreover have "\<forall>q \<in> set (p # ps). q < p + CHUNK_32_SIZE"
    using 2(3) by (auto simp: CHUNK_32_SIZE_def)
  moreover have "init_32_loop n (p + CHUNK_32_SIZE) ?s = (s', p')" using 2(4) by simp
  ultimately have "p' = p + CHUNK_32_SIZE + n * CHUNK_32_SIZE \<and> free_list_64 s' = free_list_64 ?s
       \<and> stack (chunk_next s') (free_list_32 s') (rev (chunk_row CHUNK_32_SIZE (p + CHUNK_32_SIZE) n) @ p # ps)
       \<and> (\<forall>q < p + CHUNK_32_SIZE. chunk_next s' q = chunk_next ?s q)"
    by (rule 2(1))
  then show ?case by auto
qed

lemma init_64_loop_stack:
  "stack (chunk_next s) (free_list_64 s) ps \<Longrightarrow> \<forall>q \<in> set ps. q < p \<Longrightarrow>
     init_64_loop n p s = (s', p') \<Longrightarrow>
     p' = p + n * CHUNK_64_SIZE \<and> free_list_32 s' = free_list_32 s
       \<and> stack (chunk_next s') (free_list_64 s') (rev (chunk_row CHUNK_64_SIZE p n) @ ps)
       \<and> (\<forall>q < p. chunk_next s' q = chunk_next s q)"
proof (induction n p s arbitrary: ps rule: init_64_loop.induct)
  case (1 p s)
  then show ?case by simp
next
  case (2 n p s)
  let ?s = "s\<lparr>chunk_next := (chunk_next s)(p \<mapsto> free_list_64 s), free_list_64 := Some p\<rparr>"
  have "stack (chunk_next ?s) (free_list_64 ?s) (p # ps)"
    using 2(2,3) by auto
  moreover have "\<forall>q \<in> set (p # ps). q < p + CHUNK_64_SIZE"
    using 2(3) by (auto simp: CHUNK_64_SIZE_def)
  moreover have "init_64_loop n (p + CHUNK_64_SIZE) ?s = (s', p')" using 2(4) by simp
  ultimately have "p' = p + CHUNK_64_SIZE + n * CHUNK_64_SIZE \<and> free_list_32 s' = free_list_32 ?s
       \<and> stack (chunk_next s') (free_list_64 s') (rev (chunk_row CHUNK_64_SIZE (p + CHUNK_64_SIZE) n) @ p # ps)
       \<and> (\<forall>q < p + CHUNK_64_SIZE. chunk_next s' q = chunk_next ?s q)"
    by (rule 2(1))
  then show ?case by auto
qed

lemma init_bins_rep:
  assumes "init_memory_bins True = Some s"
  shows "bins_rep s (rev chunks_32) (rev chunks_64)"
proof -
  obtain s1 p1 where s1: "init_32_loop NUM_32 0 bins_start = (s1, p1)" by fastforce
  then have 1: "p1 = NUM_32 * CHUNK_32_SIZE" "free_list_64 s1 = None"
    "stack (chunk_next s1) (free_list_32 s1) (rev chunks_32)"
    using init_32_loop_stack [of bins_start "[]" 0 NUM_32 s1 p1]
    by (simp_all add: bins_start_def chunks_32_def chunk_row_def)
  obtain p2 where s2: "init_64_loop NUM_64 p1 s1 = (s, p2)"
    using assms s1 by (auto simp: init_memory_bins_def split: prod.splits)
  then have 2: "free_list_32 s = free_list_32 s1"
    "stack (chunk_next s) (free_list_64 s) (rev chunks_64)"
    "\<forall>q < p1. chunk_next s q = chunk_next s1 q"
    using init_64_loop_stack [of s1 "[]" p1 NUM_64 s p2] 1
    by (simp_all add: chunks_64_def chunk_row_def)
  have "stack (chunk_next s) (free_list_32 s1) (rev chunks_32)"
  proof (rule stack_same [THEN iffD2, OF _ 1(3)])
    fix q assume "q \<in> set (rev chunks_32)"
    then have "q < p1" using 1(1) by (auto simp: chunks_32_def c_consts)
    with 2(3) show "chunk_next s q = chunk_next s1 q" by blast
  qed
  moreover have "distinct chunks_32" "distinct chunks_64"
    by (auto simp: chunks_32_def chunks_64_def distinct_map inj_on_def c_consts)
  ultimately show ?thesis using 2 by (simp add: bins_rep_def)
qed

section \<open>The contract of a bin\<close>

text \<open>\<open>rep s x ps\<close>: the bin of state \<open>s\<close> holds the free chunks \<open>ps\<close>; \<open>x\<close> is the rest.\<close>

locale chunk_stack =
  fixes rep :: "'s \<Rightarrow> 'x \<Rightarrow> nat list \<Rightarrow> bool"
    and region :: "nat set"
    and alloc :: "'s \<Rightarrow> ('s \<times> ptr) option"
    and dealloc :: "ptr \<Rightarrow> 's \<Rightarrow> 's option"
  assumes alloc_empty: "rep s x [] \<Longrightarrow> alloc s = Some (s, None)"
    and alloc_top: "rep s x (p # ps) \<Longrightarrow> \<exists>s'. alloc s = Some (s', Some p) \<and> rep s' x ps"
    and dealloc_push: "rep s x ps \<Longrightarrow> p \<in> region \<Longrightarrow> p \<notin> set ps \<Longrightarrow>
           \<exists>s'. dealloc (Some p) s = Some s' \<and> rep s' x (p # ps)"
    and rep_region: "rep s x ps \<Longrightarrow> set ps \<subseteq> region \<and> distinct ps"
begin

text \<open>The chunks handed out are those of the region that are not on the list.\<close>

definition held :: "'s \<Rightarrow> 'x \<Rightarrow> nat set \<Rightarrow> bool" where
  "held s x H \<longleftrightarrow> (\<exists>ps. rep s x ps \<and> H = region - set ps)"

lemma held_alloc:
  assumes "held s x H"
  shows "\<exists>s' r. alloc s = Some (s', r) \<and>
    (case r of None \<Rightarrow> s' = s \<and> H = region
     | Some p \<Rightarrow> p \<in> region - H \<and> held s' x (insert p H))"
proof -
  from assms obtain ps where ps: "rep s x ps" "H = region - set ps" by (auto simp: held_def)
  show ?thesis
  proof (cases ps)
    case Nil
    with ps alloc_empty show ?thesis by auto
  next
    case (Cons p qs)
    with ps obtain s' where s': "alloc s = Some (s', Some p)" "rep s' x qs"
      using alloc_top by blast
    moreover have "insert p H = region - set qs" "p \<in> region - H"
      using ps Cons rep_region by fastforce+
    ultimately show ?thesis by (auto simp: held_def)
  qed
qed

lemma held_dealloc:
  assumes "held s x H" and "p \<in> H"
  shows "\<exists>s'. dealloc (Some p) s = Some s' \<and> held s' x (H - {p})"
proof -
  from assms obtain ps where "rep s x ps" "H = region - set ps" by (auto simp: held_def)
  with assms(2) obtain s' where "dealloc (Some p) s = Some s'" "rep s' x (p # ps)"
    using dealloc_push by blast
  moreover have "H - {p} = region - set (p # ps)" using \<open>H = _\<close> by auto
  ultimately show ?thesis unfolding held_def by blast
qed

text \<open>A chunk given back is the next one handed out, and nothing else changes.\<close>

lemma dealloc_then_alloc:
  assumes "rep s x ps" and "p \<in> region" and "p \<notin> set ps"
  shows "\<exists>s1 s2. dealloc (Some p) s = Some s1 \<and> alloc s1 = Some (s2, Some p) \<and> rep s2 x ps"
  using dealloc_push [OF assms] alloc_top by blast

end

interpretation b32: chunk_stack "\<lambda>s qs ps. bins_rep s ps qs" "set chunks_32" alloc_32 free_32
proof (unfold_locales, goal_cases)
  case (3 s qs ps p)
  then have "p \<notin> set qs" using chunks_disjoint by (auto simp: bins_rep_def)
  with 3 show ?case by (auto simp: bins_rep_def free_32_def)
qed (auto simp: bins_rep_def alloc_32_def)

interpretation b64: chunk_stack bins_rep "set chunks_64" alloc_64 free_64
proof (unfold_locales, goal_cases)
  case (3 s ps qs q)
  then have "q \<notin> set ps" using chunks_disjoint by (auto simp: bins_rep_def)
  with 3 show ?case by (auto simp: bins_rep_def free_64_def)
qed (auto simp: bins_rep_def alloc_64_def)

section \<open>Clients of both bins\<close>

datatype bins_request = Alloc32 | Alloc64 | Free32 nat | Free64 nat

text \<open>\<open>A\<close> and \<open>B\<close> are the chunks of either bin the client holds; it frees only those.\<close>

fun bins_run :: "bins_request list \<Rightarrow> bins_state \<Rightarrow> nat set \<Rightarrow> nat set
    \<Rightarrow> (bins_state \<times> nat set \<times> nat set) option" where
  "bins_run [] s A B = Some (s, A, B)"
| "bins_run (Alloc32 # rs) s A B =
     Option.bind (alloc_32 s) (\<lambda>(s', r). bins_run rs s' (A \<union> set_option r) B)"
| "bins_run (Alloc64 # rs) s A B =
     Option.bind (alloc_64 s) (\<lambda>(s', r). bins_run rs s' A (B \<union> set_option r))"
| "bins_run (Free32 p # rs) s A B =
     Option.bind (free_32 (Some p) s) (\<lambda>s'. bins_run rs s' (A - {p}) B)"
| "bins_run (Free64 p # rs) s A B =
     Option.bind (free_64 (Some p) s) (\<lambda>s'. bins_run rs s' A (B - {p}))"

fun bins_disciplined :: "bins_request list \<Rightarrow> bins_state \<Rightarrow> nat set \<Rightarrow> nat set \<Rightarrow> bool" where
  "bins_disciplined [] s A B = True"
| "bins_disciplined (Alloc32 # rs) s A B =
     (case alloc_32 s of None \<Rightarrow> True
      | Some (s', r) \<Rightarrow> bins_disciplined rs s' (A \<union> set_option r) B)"
| "bins_disciplined (Alloc64 # rs) s A B =
     (case alloc_64 s of None \<Rightarrow> True
      | Some (s', r) \<Rightarrow> bins_disciplined rs s' A (B \<union> set_option r))"
| "bins_disciplined (Free32 p # rs) s A B =
     (p \<in> A \<and> (case free_32 (Some p) s of None \<Rightarrow> True
      | Some s' \<Rightarrow> bins_disciplined rs s' (A - {p}) B))"
| "bins_disciplined (Free64 p # rs) s A B =
     (p \<in> B \<and> (case free_64 (Some p) s of None \<Rightarrow> True
      | Some s' \<Rightarrow> bins_disciplined rs s' A (B - {p})))"

definition bins_held :: "bins_state \<Rightarrow> nat set \<Rightarrow> nat set \<Rightarrow> bool" where
  "bins_held s A B \<longleftrightarrow>
     (\<exists>ps qs. bins_rep s ps qs \<and> A = set chunks_32 - set ps \<and> B = set chunks_64 - set qs)"

lemma bins_held_32: "bins_held s A B \<longleftrightarrow> (\<exists>qs. b32.held s qs A \<and> B = set chunks_64 - set qs)"
  by (auto simp: bins_held_def b32.held_def)

lemma bins_held_64: "bins_held s A B \<longleftrightarrow> (\<exists>ps. b64.held s ps B \<and> A = set chunks_32 - set ps)"
  by (auto simp: bins_held_def b64.held_def)

lemma bins_run_held:
  "bins_held s A B \<Longrightarrow> bins_disciplined rs s A B \<Longrightarrow>
     \<exists>s' A' B'. bins_run rs s A B = Some (s', A', B') \<and> bins_held s' A' B'"
proof (induction rs s A B rule: bins_run.induct)
  case (1 s A B)
  then show ?case by simp
next
  case (2 rs s A B)
  then obtain qs where qs: "b32.held s qs A" "B = set chunks_64 - set qs"
    by (auto simp: bins_held_32)
  from b32.held_alloc [OF qs(1)] obtain s' r where s': "alloc_32 s = Some (s', r)"
    "case r of None \<Rightarrow> s' = s \<and> A = set chunks_32
     | Some p \<Rightarrow> p \<in> set chunks_32 - A \<and> b32.held s' qs (insert p A)" by blast
  have "bins_held s' (A \<union> set_option r) B"
    using s'(2) qs 2(2) by (cases r) (auto simp: bins_held_32)
  then show ?case using 2 s'(1) by simp
next
  case (3 rs s A B)
  then obtain ps where ps: "b64.held s ps B" "A = set chunks_32 - set ps"
    by (auto simp: bins_held_64)
  from b64.held_alloc [OF ps(1)] obtain s' r where s': "alloc_64 s = Some (s', r)"
    "case r of None \<Rightarrow> s' = s \<and> B = set chunks_64
     | Some p \<Rightarrow> p \<in> set chunks_64 - B \<and> b64.held s' ps (insert p B)" by blast
  have "bins_held s' A (B \<union> set_option r)"
    using s'(2) ps 3(2) by (cases r) (auto simp: bins_held_64)
  then show ?case using 3 s'(1) by simp
next
  case (4 p rs s A B)
  then obtain qs where qs: "b32.held s qs A" "B = set chunks_64 - set qs" "p \<in> A"
    by (auto simp: bins_held_32)
  from b32.held_dealloc [OF qs(1,3)] obtain s' where
    s': "free_32 (Some p) s = Some s'" "b32.held s' qs (A - {p})" by blast
  then have "bins_held s' (A - {p}) B" using qs(2) by (auto simp: bins_held_32)
  then show ?case using 4 s'(1) by simp
next
  case (5 p rs s A B)
  then obtain ps where ps: "b64.held s ps B" "A = set chunks_32 - set ps" "p \<in> B"
    by (auto simp: bins_held_64)
  from b64.held_dealloc [OF ps(1,3)] obtain s' where
    s': "free_64 (Some p) s = Some s'" "b64.held s' ps (B - {p})" by blast
  then have "bins_held s' A (B - {p})" using ps(2) by (auto simp: bins_held_64)
  then show ?case using 5 s'(1) by simp
qed

lemma init_bins_defined: "\<exists>s. init_memory_bins True = Some s"
  by (simp add: init_memory_bins_def split: prod.split)

lemma bins_held_init: "init_memory_bins True = Some s \<Longrightarrow> bins_held s {} {}"
  unfolding bins_held_def
  by (intro exI [of _ "rev chunks_32"] exI [of _ "rev chunks_64"]) (simp add: init_bins_rep)

lemma print_state_rep:
  "bins_rep s ps qs \<Longrightarrow> print_state_bins s = Some (length ps, length qs)"
  by (simp add: print_state_bins_def bins_rep_def count_chunks_stack [of _ _ ps]
      count_chunks_stack [of _ _ qs])

lemma print_state_held:
  assumes "bins_held s A B"
  shows "print_state_bins s = Some (NUM_32 - card A, NUM_64 - card B)"
proof -
  from assms obtain ps qs where r: "bins_rep s ps qs" "A = set chunks_32 - set ps"
    "B = set chunks_64 - set qs" by (auto simp: bins_held_def)
  have len: "length xs = length cs - card (set cs - set xs)"
    if "distinct xs" "distinct cs" "set xs \<subseteq> set cs" for xs cs :: "nat list"
    using that card_mono [OF _ that(3)] by (simp add: card_Diff_subset distinct_card)
  have "distinct chunks_32" "distinct chunks_64" "length chunks_32 = NUM_32" "length chunks_64 = NUM_64"
    by (auto simp: chunks_32_def chunks_64_def distinct_map inj_on_def c_consts)
  then have "length ps = NUM_32 - card A" "length qs = NUM_64 - card B"
    using r len [of ps chunks_32] len [of qs chunks_64] by (simp_all add: bins_rep_def)
  with print_state_rep [OF r(1)] show ?thesis by simp
qed

lemma bins_chunks_apart:
  "p \<in> set chunks_32 \<Longrightarrow> q \<in> set chunks_32 \<Longrightarrow> p < q \<Longrightarrow> p + CHUNK_32_SIZE \<le> q"
  "p \<in> set chunks_32 \<Longrightarrow> q \<in> set chunks_64 \<Longrightarrow> p + CHUNK_32_SIZE \<le> q"
  "p \<in> set chunks_64 \<Longrightarrow> q \<in> set chunks_64 \<Longrightarrow> p < q \<Longrightarrow> p + CHUNK_64_SIZE \<le> q"
  "q \<in> set chunks_64 \<Longrightarrow> q + CHUNK_64_SIZE \<le> POOL_SIZE_bins"
  by (auto simp: chunks_32_def chunks_64_def c_consts)

text \<open>What the demonstration prints.\<close>

lemma main_bins_prints: "main_bins True = Some [(49, 28), (49, 29), (50, 30)]"
proof -
  obtain s where s: "init_memory_bins True = Some s" using init_bins_defined by blast
  have l: "length (rev chunks_32) = 50" "length (rev chunks_64) = 30"
    by (simp_all add: chunks_32_def chunks_64_def c_consts)
  then obtain p ps where p: "rev chunks_32 = p # ps" by (cases "rev chunks_32") auto
  from l obtain q1 q2 qs where q: "rev chunks_64 = q1 # q2 # qs"
    by (cases "rev chunks_64" rule: remdups_adj.cases) auto
  have r0: "bins_rep s (p # ps) (q1 # q2 # qs)" using init_bins_rep [OF s] p q by simp
  from b32.alloc_top [OF this] obtain s1 where
    s1: "alloc_32 s = Some (s1, Some p)" and r1: "bins_rep s1 ps (q1 # q2 # qs)" by blast
  from b64.alloc_top [OF r1] obtain s2 where
    s2: "alloc_64 s1 = Some (s2, Some q1)" and r2: "bins_rep s2 ps (q2 # qs)" by blast
  from b64.alloc_top [OF r2] obtain s3 where
    s3: "alloc_64 s2 = Some (s3, Some q2)" and r3: "bins_rep s3 ps qs" by blast
  have in64: "q1 \<in> set chunks_64" "q2 \<in> set chunks_64" and in32: "p \<in> set chunks_32"
    using arg_cong [OF q, of set] arg_cong [OF p, of set] by auto
  have fresh: "p \<notin> set ps" "q1 \<notin> set qs" "q2 \<notin> set (q1 # qs)" using r0 by (auto simp: bins_rep_def)
  from b64.dealloc_push [OF r3 in64(1) fresh(2)] obtain s4 where
    s4: "free_64 (Some q1) s3 = Some s4" and r4: "bins_rep s4 ps (q1 # qs)" by blast
  from b32.dealloc_push [OF r4 in32 fresh(1)] obtain s5 where
    s5: "free_32 (Some p) s4 = Some s5" and r5: "bins_rep s5 (p # ps) (q1 # qs)" by blast
  from b64.dealloc_push [OF r5 in64(2) fresh(3)] obtain s6 where
    s6: "free_64 (Some q2) s5 = Some s6" and r6: "bins_rep s6 (p # ps) (q2 # q1 # qs)" by blast
  have "length ps = 49" "length qs = 28" using l p q by simp_all
  then show ?thesis
    using s s1 s2 s3 s4 s5 s6 print_state_rep [OF r3] print_state_rep [OF r4] print_state_rep [OF r6]
    by (simp add: main_bins_def)
qed

section \<open>Properties\<close>

text \<open>
  C17: however a disciplined client mixes the two bins, every call has a result and no chunk is
  lost: what the client holds and what is free make up the 50 and the 30 chunks, two chunks in
  use never overlap, they lie inside the pool, and \<open>print_state\<close> reports the chunks left.
\<close>

theorem bins_clients_lose_nothing:
  assumes "init_memory_bins True = Some s" and "bins_disciplined rs s {} {}"
  shows "\<exists>s' A B. bins_run rs s {} {} = Some (s', A, B) \<and> bins_held s' A B
    \<and> print_state_bins s' = Some (NUM_32 - card A, NUM_64 - card B)
    \<and> (\<forall>p \<in> A. \<forall>q \<in> A. p < q \<longrightarrow> p + CHUNK_32_SIZE \<le> q)
    \<and> (\<forall>p \<in> A. \<forall>q \<in> B. p + CHUNK_32_SIZE \<le> q)
    \<and> (\<forall>p \<in> B. \<forall>q \<in> B. p < q \<longrightarrow> p + CHUNK_64_SIZE \<le> q)
    \<and> (\<forall>q \<in> B. q + CHUNK_64_SIZE \<le> POOL_SIZE_bins)"
proof -
  from bins_run_held [OF bins_held_init [OF assms(1)] assms(2)] obtain s' A B where
    r: "bins_run rs s {} {} = Some (s', A, B)" "bins_held s' A B" by blast
  then have A: "\<And>p. p \<in> A \<Longrightarrow> p \<in> set chunks_32" and B: "\<And>p. p \<in> B \<Longrightarrow> p \<in> set chunks_64"
    by (auto simp: bins_held_def)
  have "\<forall>p \<in> A. \<forall>q \<in> A. p < q \<longrightarrow> p + CHUNK_32_SIZE \<le> q"
    by (intro ballI impI bins_chunks_apart(1) A)
  moreover have "\<forall>p \<in> A. \<forall>q \<in> B. p + CHUNK_32_SIZE \<le> q"
    by (intro ballI bins_chunks_apart(2) A B)
  moreover have "\<forall>p \<in> B. \<forall>q \<in> B. p < q \<longrightarrow> p + CHUNK_64_SIZE \<le> q"
    by (intro ballI impI bins_chunks_apart(3) B)
  moreover have "\<forall>q \<in> B. q + CHUNK_64_SIZE \<le> POOL_SIZE_bins"
    by (intro ballI bins_chunks_apart(4) B)
  ultimately show ?thesis using r print_state_held [OF r(2)] by blast
qed

theorem bins_clients_lose_nothing_witness:
  "\<exists>s s' A B. init_memory_bins True = Some s
    \<and> bins_run [Alloc32, Alloc64, Free32 1568] s {} {} = Some (s', A, B) \<and> bins_held s' A B
    \<and> print_state_bins s' = Some (NUM_32 - card A, NUM_64 - card B)"
proof -
  obtain s where s: "init_memory_bins True = Some s" using init_bins_defined by blast
  have top: "rev chunks_32 = 1568 # rev (chunk_row 32 0 49)"
    using upt_Suc_append [of 0 49] by (simp add: chunks_32_def chunk_row_def c_consts)
  obtain s1 where s1: "alloc_32 s = Some (s1, Some 1568)"
    using b32.alloc_top [OF init_bins_rep [OF s, unfolded top]] by blast
  have "bins_disciplined [Alloc32, Alloc64, Free32 1568] s {} {}"
    using s1 by (simp split: option.split)
  from bins_clients_lose_nothing [OF s this] obtain s' A B where
    "bins_run [Alloc32, Alloc64, Free32 1568] s {} {} = Some (s', A, B)" "bins_held s' A B"
    "print_state_bins s' = Some (NUM_32 - card A, NUM_64 - card B)"
    by (elim exE conjE)
  with s show ?thesis by (intro exI conjI)
qed

text \<open>
  An allocation fails only when the client holds every chunk of the bin, in whatever order
  the chunks came and went; a successful one hands out a chunk the client does not hold, and a
  chunk given back is the next one handed out.
\<close>

theorem alloc_64_fails_only_when_exhausted:
  assumes "bins_held s A B"
  shows "\<exists>s' r. alloc_64 s = Some (s', r) \<and> (r = None \<longleftrightarrow> card B = NUM_64)
    \<and> (\<forall>p. r = Some p \<longrightarrow> p \<notin> B \<and> bins_held s' A (insert p B)
          \<and> (\<exists>s1 s2. free_64 (Some p) s' = Some s1 \<and> alloc_64 s1 = Some (s2, Some p)
                \<and> bins_held s2 A (insert p B)))"
proof -
  from assms obtain ps where ps: "b64.held s ps B" "A = set chunks_32 - set ps"
    by (auto simp: bins_held_64)
  from b64.held_alloc [OF ps(1)] obtain s' r where r: "alloc_64 s = Some (s', r)"
    "case r of None \<Rightarrow> s' = s \<and> B = set chunks_64
     | Some p \<Rightarrow> p \<in> set chunks_64 - B \<and> b64.held s' ps (insert p B)" by blast
  have sub: "B \<subseteq> set chunks_64" using assms by (auto simp: bins_held_def)
  have "card (set chunks_64) = NUM_64"
    using distinct_card [of chunks_64]
    by (auto simp: chunks_64_def distinct_map inj_on_def c_consts simp del: set_map)
  then have "r = None \<longleftrightarrow> card B = NUM_64"
    using r(2) sub card_subset_eq [OF _ sub] by (cases r) auto
  moreover have "\<exists>s1 s2. free_64 (Some p) s' = Some s1 \<and> alloc_64 s1 = Some (s2, Some p)
      \<and> bins_held s2 A (insert p B)" if "r = Some p" for p
  proof -
    from r(2) that obtain qs where qs: "bins_rep s' ps qs" "insert p B = set chunks_64 - set qs"
      by (auto simp: b64.held_def)
    then have "p \<in> set chunks_64" "p \<notin> set qs" by auto
    from b64.dealloc_then_alloc [OF qs(1) this] qs(2) ps(2) show ?thesis
      by (auto simp: bins_held_def)
  qed
  moreover have "p \<notin> B \<and> bins_held s' A (insert p B)" if "r = Some p" for p
    using r(2) that ps(2) by (auto simp: bins_held_64)
  ultimately show ?thesis using r(1) by blast
qed

theorem alloc_64_fails_only_when_exhausted_witness:
  "\<exists>s s' r. init_memory_bins True = Some s \<and> alloc_64 s = Some (s', r)
    \<and> (r = None \<longleftrightarrow> card ({} :: nat set) = NUM_64)"
proof -
  obtain s where s: "init_memory_bins True = Some s" using init_bins_defined by blast
  from alloc_64_fails_only_when_exhausted [OF bins_held_init [OF s]] s show ?thesis by blast
qed

end
