(* ===== verification/MemPoolBase.thy ===== *)
theory MemPoolBase
  imports PointerList
begin

text \<open>
  The first memory pool (\<open>15.memory_allocation/2.mem_pool_c/1.base\<close>): blocks of the C
  library's heap, each with a guard zone before and behind the user's bytes, an array of the
  blocks in use, and per size class a list of blocks that were given back and are handed out
  again.  Every operation takes the one pool lock for its whole body, so the operations are
  modelled as atomic steps.
\<close>

section \<open>Data\<close>

definition SLAB_COUNT :: nat where
  "SLAB_COUNT = 8"

definition SLAB_SIZES :: "size_t list" where
  "SLAB_SIZES = [32, 64, 128, 256, 512, 1024, 2048, 4096]"

definition GUARD_SIZE :: nat where
  "GUARD_SIZE = 16"

definition GUARD_VAL :: uchar where
  "GUARD_VAL = 0xAB"

definition MAX_BACKTRACE :: nat where
  "MAX_BACKTRACE = 10"

text \<open>
  A buffer of the C library is named by a number, a pointer into it is the number and an
  offset; blocks (the \<open>Block\<close> structures) are named by numbers, too.
\<close>

type_synonym vptr = "(nat \<times> nat) option"

record Block_mp =
  real_ptr :: nat
  user_ptr :: "nat \<times> nat"
  mp_size :: size_t
  mp_next :: ptr
  mp_backtrace :: "nat list"

record Slab =
  chunk_size :: size_t
  slab_free :: ptr
  slab_total :: size_t
  slab_in_use :: size_t

text \<open>
  The statics of the file and the heap: \<open>active_blocks\<close> up to \<open>active_count\<close>, the block
  structures, the buffers, and the next unused number.
\<close>

record mp_state =
  slabs :: "Slab list"
  active_blocks :: "nat list"
  active_capacity :: nat
  mp_blocks :: "nat \<rightharpoonup> Block_mp"
  mp_buffers :: "nat \<rightharpoonup> uchar list"
  mp_fresh :: nat

text \<open>
  What the C library answers during one call of \<open>mem_pool_alloc\<close>: whether \<open>calloc\<close> and
  \<open>realloc\<close> give memory, what the bytes \<open>malloc\<close> gives hold (if it gives any), and the
  frames \<open>backtrace\<close> finds.
\<close>

record mp_env =
  calloc_ok :: bool
  malloc_bytes :: "(nat \<Rightarrow> uchar) option"
  realloc_ok :: bool
  call_frames :: "nat list"

datatype mp_msg =
  Invalid_or_double_free
| Buffer_overflow_detected size_t
| Slab_line size_t size_t size_t size_t
| No_leaks
| Unfreed_blocks nat
| Leak "nat \<times> nat" size_t "nat list"

section \<open>Operations\<close>

definition mp_start :: mp_state where
  "mp_start = \<lparr>
     slabs = replicate SLAB_COUNT \<lparr>chunk_size = 0, slab_free = None, slab_total = 0, slab_in_use = 0\<rparr>,
     active_blocks = [], active_capacity = 0,
     mp_blocks = Map.empty, mp_buffers = Map.empty, mp_fresh = 0\<rparr>"

fun slab_index_loop :: "size_t list \<Rightarrow> nat \<Rightarrow> size_t \<Rightarrow> ptr" where
  "slab_index_loop [] i sz = None"
| "slab_index_loop (limit # sizes) i sz =
     (if limit \<ge> sz then Some i else slab_index_loop sizes (i + 1) sz)"

definition slab_index :: "size_t \<Rightarrow> ptr" where
  "slab_index sz = slab_index_loop SLAB_SIZES 0 sz"

definition push_active :: "bool \<Rightarrow> nat \<Rightarrow> mp_state \<Rightarrow> mp_state option" where
  "push_active grown b s = do {
     s1 \<leftarrow> (if length (active_blocks s) \<ge> active_capacity s
           then if grown
                then Some (s\<lparr>active_capacity :=
                             (if active_capacity s \<noteq> 0 then active_capacity s * 2 else 64)\<rparr>)
                else None
           else Some s);
     Some (s1\<lparr>active_blocks := active_blocks s1 @ [b]\<rparr>)
   }"

text \<open>\<open>active_blocks[i] = active_blocks[--active_count]\<close> at the first place that holds \<open>b\<close>.\<close>

fun remove_active_loop :: "nat list \<Rightarrow> nat list \<Rightarrow> nat \<Rightarrow> nat list" where
  "remove_active_loop pre [] b = pre"
| "remove_active_loop pre (a # as) b =
     (if a = b then butlast ((pre @ a # as)[length pre := last (a # as)])
      else remove_active_loop (pre @ [a]) as b)"

definition remove_active :: "nat \<Rightarrow> mp_state \<Rightarrow> mp_state" where
  "remove_active b s = s\<lparr>active_blocks := remove_active_loop [] (active_blocks s) b\<rparr>"

definition fill_guard :: "uchar list \<Rightarrow> nat \<Rightarrow> uchar list option" where
  "fill_guard buf p = write_bytes buf p (replicate GUARD_SIZE GUARD_VAL)"

definition check_guard :: "uchar list \<Rightarrow> nat \<Rightarrow> bool option" where
  "check_guard buf p = map_option (list_all (\<lambda>c. c = GUARD_VAL)) (read_bytes buf p GUARD_SIZE)"

definition mem_pool_init :: "mp_state \<Rightarrow> mp_state" where
  "mem_pool_init s = s\<lparr>slabs := map2 (\<lambda>sl z. sl\<lparr>chunk_size := z\<rparr>) (slabs s) SLAB_SIZES\<rparr>"

text \<open>The two branches of \<open>mem_pool_alloc\<close>: a block given back before, or a new one.\<close>

definition reuse_block :: "nat \<Rightarrow> nat \<Rightarrow> mp_state \<Rightarrow> (mp_state \<times> nat) option" where
  "reuse_block idx blk s = do {
     b \<leftarrow> mp_blocks s blk;
     let sl = slabs s ! idx;
     Some (s\<lparr>slabs := (slabs s)[idx := sl\<lparr>slab_free := mp_next b, slab_in_use := slab_in_use sl + 1\<rparr>]\<rparr>,
           blk)
   }"

definition new_block :: "mp_env \<Rightarrow> ptr \<Rightarrow> size_t \<Rightarrow> mp_state \<Rightarrow> (mp_state \<times> nat) option" where
  "new_block env idx sz s =
     (if calloc_ok env then do {
        junk \<leftarrow> malloc_bytes env;
        let blk = mp_fresh s;
        let total = sz + of_nat (GUARD_SIZE * 2);
        let buf0 = map junk [0..<unat total];
        buf1 \<leftarrow> fill_guard buf0 0;
        buf2 \<leftarrow> fill_guard buf1 (GUARD_SIZE + unat sz);
        let s1 = s\<lparr>mp_blocks := (mp_blocks s)(blk \<mapsto>
                     \<lparr>real_ptr = blk, user_ptr = (blk, GUARD_SIZE), mp_size = sz, mp_next = None,
                      mp_backtrace = []\<rparr>),
                   mp_buffers := (mp_buffers s)(blk \<mapsto> buf2),
                   mp_fresh := mp_fresh s + 1\<rparr>;
        Some (case idx of
                None \<Rightarrow> s1
              | Some i \<Rightarrow> s1\<lparr>slabs := (slabs s1)[i := (slabs s1 ! i)\<lparr>slab_total := slab_total (slabs s1 ! i) + 1\<rparr>]\<rparr>,
              blk)
      } else None)"

definition mem_pool_alloc :: "mp_env \<Rightarrow> size_t \<Rightarrow> mp_state \<Rightarrow> (mp_state \<times> vptr) option" where
  "mem_pool_alloc env sz s = do {
     let idx = slab_index sz;
     (s1, blk) \<leftarrow> (case idx of
                    None \<Rightarrow> new_block env idx sz s
                  | Some i \<Rightarrow> (case slab_free (slabs s ! i) of
                       Some b \<Rightarrow> reuse_block i b s
                     | None \<Rightarrow> new_block env idx sz s));
     b \<leftarrow> mp_blocks s1 blk;
     let s2 = s1\<lparr>mp_blocks := (mp_blocks s1)(blk \<mapsto>
                b\<lparr>mp_backtrace := take MAX_BACKTRACE (call_frames env)\<rparr>)\<rparr>;
     s3 \<leftarrow> push_active (realloc_ok env) blk s2;
     Some (s3, Some (user_ptr b))
   }"

text \<open>The search of \<open>mem_pool_free\<close> for the block with the pointer.\<close>

fun find_active :: "(nat \<rightharpoonup> Block_mp) \<Rightarrow> nat list \<Rightarrow> nat \<times> nat \<Rightarrow> ptr option" where
  "find_active m [] q = Some None"
| "find_active m (a # as) q = do {
     b \<leftarrow> m a;
     if user_ptr b = q then Some (Some a) else find_active m as q
   }"

definition mem_pool_free :: "vptr \<Rightarrow> mp_state \<Rightarrow> (mp_state \<times> mp_msg list) option" where
  "mem_pool_free pt s =
     (case pt of
        None \<Rightarrow> Some (s, [])
      | Some q \<Rightarrow> do {
          r \<leftarrow> find_active (mp_blocks s) (active_blocks s) q;
          case r of
            None \<Rightarrow> Some (s, [Invalid_or_double_free])
          | Some found \<Rightarrow> do {
              let s1 = remove_active found s;
              b \<leftarrow> mp_blocks s1 found;
              buf \<leftarrow> mp_buffers s1 (real_ptr b);
              head_ok \<leftarrow> check_guard buf 0;
              ok \<leftarrow> (if head_ok then do {
                       ubuf \<leftarrow> mp_buffers s1 (fst (user_ptr b));
                       check_guard ubuf (snd (user_ptr b) + unat (mp_size b))
                     } else Some False);
              let msgs = (if ok then [] else [Buffer_overflow_detected (mp_size b)]);
              case slab_index (mp_size b) of
                Some i \<Rightarrow>
                  let sl = slabs s1 ! i in
                  Some (s1\<lparr>mp_blocks := (mp_blocks s1)(found \<mapsto> b\<lparr>mp_next := slab_free sl\<rparr>),
                           slabs := (slabs s1)[i := sl\<lparr>slab_free := Some found,
                                                      slab_in_use := slab_in_use sl - 1\<rparr>]\<rparr>, msgs)
              | None \<Rightarrow>
                  Some (s1\<lparr>mp_buffers := (mp_buffers s1)(real_ptr b := None),
                           mp_blocks := (mp_blocks s1)(found := None)\<rparr>, msgs)
            }
        })"

definition mem_pool_dump_stats :: "mp_state \<Rightarrow> mp_msg list" where
  "mem_pool_dump_stats s =
     map (\<lambda>sl. Slab_line (chunk_size sl) (slab_total sl) (slab_in_use sl)
                 (slab_total sl - slab_in_use sl)) (slabs s)"

fun leak_lines :: "(nat \<rightharpoonup> Block_mp) \<Rightarrow> nat list \<Rightarrow> mp_msg list option" where
  "leak_lines m [] = Some []"
| "leak_lines m (a # as) = do {
     b \<leftarrow> m a;
     out \<leftarrow> leak_lines m as;
     Some (Leak (user_ptr b) (mp_size b) (mp_backtrace b) # out)
   }"

definition mem_pool_dump_leaks :: "mp_state \<Rightarrow> mp_msg list option" where
  "mem_pool_dump_leaks s =
     (if active_blocks s = [] then Some [No_leaks]
      else map_option (\<lambda>out. Unfreed_blocks (length (active_blocks s)) # out)
             (leak_lines (mp_blocks s) (active_blocks s)))"

text \<open>\<open>free(b->real_ptr); free(b);\<close> and the walk over a list of free blocks that does it.\<close>

definition release_block :: "nat \<Rightarrow> mp_state \<Rightarrow> mp_state option" where
  "release_block p s = do {
     b \<leftarrow> mp_blocks s p;
     buf \<leftarrow> mp_buffers s (real_ptr b);
     Some (s\<lparr>mp_buffers := (mp_buffers s)(real_ptr b := None), mp_blocks := (mp_blocks s)(p := None)\<rparr>)
   }"

partial_function (option) release_list :: "ptr \<Rightarrow> mp_state \<Rightarrow> mp_state option" where
  "release_list cur s =
     (case cur of
        None \<Rightarrow> Some s
      | Some p \<Rightarrow> Option.bind (mp_blocks s p) (\<lambda>b.
          Option.bind (release_block p s) (\<lambda>s1. release_list (mp_next b) s1)))"

fun release_lists :: "ptr list \<Rightarrow> mp_state \<Rightarrow> mp_state option" where
  "release_lists [] s = Some s"
| "release_lists (c # cs) s = Option.bind (release_list c s) (release_lists cs)"

fun release_all :: "nat list \<Rightarrow> mp_state \<Rightarrow> mp_state option" where
  "release_all [] s = Some s"
| "release_all (p # ps) s = Option.bind (release_block p s) (release_all ps)"

definition mem_pool_destroy :: "mp_state \<Rightarrow> (mp_state \<times> mp_msg list) option" where
  "mem_pool_destroy s = do {
     out \<leftarrow> mem_pool_dump_leaks s;
     s1 \<leftarrow> release_lists (map slab_free (slabs s)) s;
     s2 \<leftarrow> release_all (active_blocks s1) s1;
     Some (s2\<lparr>active_blocks := [], active_capacity := 0\<rparr>, mem_pool_dump_stats s @ out)
   }"

text \<open>A client's write of bytes through a pointer it holds.\<close>

definition mp_store :: "nat \<times> nat \<Rightarrow> nat \<Rightarrow> uchar list \<Rightarrow> mp_state \<Rightarrow> mp_state option" where
  "mp_store q off bs s = do {
     buf \<leftarrow> mp_buffers s (fst q);
     buf' \<leftarrow> write_bytes buf (snd q + off) bs;
     Some (s\<lparr>mp_buffers := (mp_buffers s)(fst q \<mapsto> buf')\<rparr>)
   }"

section \<open>Size classes, guards and the array of active blocks\<close>

lemma slab_index_cases:
  "slab_index sz =
     (if sz \<le> 32 then Some 0 else if sz \<le> 64 then Some 1 else if sz \<le> 128 then Some 2
      else if sz \<le> 256 then Some 3 else if sz \<le> 512 then Some 4 else if sz \<le> 1024 then Some 5
      else if sz \<le> 2048 then Some 6 else if sz \<le> 4096 then Some 7 else None)"
  by (simp add: slab_index_def SLAB_SIZES_def)

lemma slab_index_less: "slab_index sz = Some i \<Longrightarrow> i < SLAB_COUNT"
  by (auto simp: slab_index_cases SLAB_COUNT_def split: if_splits)

lemma remove_active_loop_hit:
  "remove_active_loop pre (a # as) a = (if as = [] then pre else pre @ last as # butlast as)"
  by (simp add: list_update_append butlast_append)

lemma remove_active_loop_set:
  "distinct (pre @ as) \<Longrightarrow> b \<in> set as \<Longrightarrow>
     set (remove_active_loop pre as b) = set (pre @ as) - {b}
     \<and> distinct (remove_active_loop pre as b)
     \<and> length (remove_active_loop pre as b) = length (pre @ as) - 1"
proof (induction pre as b rule: remove_active_loop.induct)
  case (1 pre b)
  then show ?case by simp
next
  case (2 pre a as b)
  show ?case
  proof (cases "a = b")
    case True
    show ?thesis
    proof (cases as rule: rev_cases)
      case Nil
      with True 2(2) show ?thesis by (auto simp: remove_active_loop_hit simp del: remove_active_loop.simps)
    next
      case (snoc ys y)
      with True 2(2) show ?thesis by (auto simp: remove_active_loop_hit simp del: remove_active_loop.simps)
    qed
  next
    case False
    with 2 show ?thesis by auto
  qed
qed

lemma check_fill_guard:
  "fill_guard buf p = Some buf' \<Longrightarrow> check_guard buf' p = Some True"
  using read_write_same [of buf p "replicate GUARD_SIZE GUARD_VAL" buf']
  by (simp add: fill_guard_def check_guard_def list_all_iff)

lemma check_guard_write_apart:
  "write_bytes buf off bs = Some buf' \<Longrightarrow> p + GUARD_SIZE \<le> off \<or> off + length bs \<le> p \<Longrightarrow>
     check_guard buf' p = check_guard buf p"
  by (simp add: check_guard_def read_write_apart)

lemma check_guard_hit:
  assumes "write_bytes buf off bs = Some buf'" and "p \<le> off" and "off < p + GUARD_SIZE"
    and "p + GUARD_SIZE \<le> length buf" and "bs \<noteq> []" and "hd bs \<noteq> GUARD_VAL"
  shows "check_guard buf' p = Some False"
proof -
  have l: "off + length bs \<le> length buf" "length buf' = length buf"
    using assms(1) length_write_bytes [OF assms(1)]
    by (simp_all add: write_bytes_def split: if_splits)
  moreover have pos: "0 < length bs" using assms(5) by simp
  ultimately have "off < length buf" by linarith
  then have h: "buf' ! off = hd bs"
    using nth_write_bytes [OF assms(1)] assms(5) pos by (simp add: hd_conv_nth)
  have m: "off - p < length (take GUARD_SIZE (drop p buf'))"
    using assms(2,3,4) l by simp
  then have e: "take GUARD_SIZE (drop p buf') ! (off - p) = buf' ! off"
    using assms(2) \<open>off < length buf\<close> l(2) by simp
  from nth_mem [OF m] have "hd bs \<in> set (take GUARD_SIZE (drop p buf'))" unfolding e h .
  then show ?thesis
    using assms(4,6) l by (auto simp: check_guard_def read_bytes_def list_all_iff)
qed

section \<open>Invariant\<close>

definition mp_nx :: "mp_state \<Rightarrow> nat \<rightharpoonup> ptr" where
  "mp_nx s = (\<lambda>p. map_option mp_next (mp_blocks s p))"

text \<open>The size class of a block, as \<open>mem_pool_free\<close> computes it.\<close>

definition class_of :: "mp_state \<Rightarrow> nat \<Rightarrow> ptr" where
  "class_of s p = Option.bind (mp_blocks s p) (\<lambda>b. slab_index (mp_size b))"

text \<open>
  \<open>frees\<close> lists, per class, the blocks that wait to be handed out again.  The last two
  conjuncts are the accounting: \<open>total\<close> counts the blocks of the class, \<open>in_use\<close> is the
  negated (modulo 2 to the 64) number of waiting blocks.
\<close>

definition mp_blocks_ok :: "mp_state \<Rightarrow> bool" where
  "mp_blocks_ok s \<longleftrightarrow>
     (\<forall>p b. mp_blocks s p = Some b \<longrightarrow> p < mp_fresh s \<and> real_ptr b = p \<and> user_ptr b = (p, GUARD_SIZE)
        \<and> (\<exists>buf. mp_buffers s p = Some buf \<and> length buf = unat (mp_size b) + 2 * GUARD_SIZE))"

definition mp_lists_ok :: "mp_state \<Rightarrow> (nat \<Rightarrow> nat list) \<Rightarrow> bool" where
  "mp_lists_ok s frees \<longleftrightarrow>
     length (slabs s) = SLAB_COUNT \<and> distinct (active_blocks s)
     \<and> (\<forall>i < SLAB_COUNT. stack (mp_nx s) (slab_free (slabs s ! i)) (frees i)
          \<and> (\<forall>p \<in> set (frees i). class_of s p = Some i \<and> p \<notin> set (active_blocks s)))
     \<and> (\<forall>p. p \<in> dom (mp_blocks s) \<longleftrightarrow> p \<in> set (active_blocks s) \<or> (\<exists>i < SLAB_COUNT. p \<in> set (frees i)))"

definition mp_count_ok :: "mp_state \<Rightarrow> (nat \<Rightarrow> nat list) \<Rightarrow> bool" where
  "mp_count_ok s frees \<longleftrightarrow>
     (\<forall>i < SLAB_COUNT.
        slab_total (slabs s ! i) =
          of_nat (card {p \<in> set (active_blocks s). class_of s p = Some i} + length (frees i))
        \<and> slab_in_use (slabs s ! i) = - of_nat (length (frees i)))"

definition mp_rep :: "mp_state \<Rightarrow> (nat \<Rightarrow> nat list) \<Rightarrow> bool" where
  "mp_rep s frees \<longleftrightarrow> mp_blocks_ok s \<and> mp_lists_ok s frees \<and> mp_count_ok s frees"

lemma slabs_init:
  "slabs (mem_pool_init mp_start) =
     map (\<lambda>z. \<lparr>chunk_size = z, slab_free = None, slab_total = 0, slab_in_use = 0\<rparr>) SLAB_SIZES"
  by (simp add: mem_pool_init_def mp_start_def SLAB_COUNT_def SLAB_SIZES_def)

lemma length_SLAB_SIZES [simp]: "length SLAB_SIZES = SLAB_COUNT"
  by (simp add: SLAB_COUNT_def SLAB_SIZES_def)

lemma mp_rep_init: "mp_rep (mem_pool_init mp_start) (\<lambda>_. [])"
proof -
  have "active_blocks (mem_pool_init mp_start) = []" "mp_blocks (mem_pool_init mp_start) = Map.empty"
    by (simp_all add: mem_pool_init_def mp_start_def)
  then show ?thesis
    by (simp add: mp_rep_def mp_blocks_ok_def mp_lists_ok_def mp_count_ok_def slabs_init)
qed

lemma mp_rep_block:
  assumes "mp_rep s frees" and "p \<in> set (active_blocks s)"
  shows "\<exists>b buf. mp_blocks s p = Some b \<and> real_ptr b = p \<and> user_ptr b = (p, GUARD_SIZE)
    \<and> mp_buffers s p = Some buf \<and> length buf = unat (mp_size b) + 2 * GUARD_SIZE"
proof -
  from assms have "p \<in> dom (mp_blocks s)" by (auto simp: mp_rep_def mp_lists_ok_def)
  then obtain b where "mp_blocks s p = Some b" by blast
  with assms(1) show ?thesis by (auto simp: mp_rep_def mp_blocks_ok_def)
qed

section \<open>Allocation\<close>

definition new_capacity :: "mp_state \<Rightarrow> nat" where
  "new_capacity s =
     (if length (active_blocks s) \<ge> active_capacity s
      then if active_capacity s \<noteq> 0 then active_capacity s * 2 else 64 else active_capacity s)"

lemma push_active_Some:
  "push_active True b s =
     Some (s\<lparr>active_capacity := new_capacity s, active_blocks := active_blocks s @ [b]\<rparr>)"
  by (simp add: push_active_def new_capacity_def)

lemma new_capacity_upd [simp]:
  "new_capacity (s\<lparr>slabs := x\<rparr>) = new_capacity s"
  "new_capacity (s\<lparr>mp_blocks := y\<rparr>) = new_capacity s"
  "new_capacity (s\<lparr>mp_buffers := z\<rparr>) = new_capacity s"
  "new_capacity (s\<lparr>mp_fresh := n\<rparr>) = new_capacity s"
  by (simp_all add: new_capacity_def)

text \<open>The state after a block that waited was handed out again.\<close>

definition reused :: "mp_state \<Rightarrow> nat \<Rightarrow> nat \<Rightarrow> Block_mp \<Rightarrow> nat list \<Rightarrow> nat \<Rightarrow> mp_state" where
  "reused s i p b bt c = s\<lparr>
     slabs := (slabs s)[i := (slabs s ! i)\<lparr>slab_free := mp_next b, slab_in_use := slab_in_use (slabs s ! i) + 1\<rparr>],
     mp_blocks := (mp_blocks s)(p \<mapsto> b\<lparr>mp_backtrace := bt\<rparr>),
     active_capacity := c, active_blocks := active_blocks s @ [p]\<rparr>"

lemma reused_simps:
  "class_of (reused s i p b bt c) q = class_of s q"
  "mp_nx (reused s i p b bt c) = mp_nx s"
  if "mp_blocks s p = Some b"
  using that by (auto simp: class_of_def mp_nx_def reused_def fun_eq_iff)

lemma listed_upd:
  "i < N \<Longrightarrow> (\<exists>j < N. q \<in> set ((f(i := xs)) j)) \<longleftrightarrow> q \<in> set xs \<or> (\<exists>j < N. j \<noteq> i \<and> q \<in> set (f j))"
  for i N :: nat
  by auto

lemma listed_split:
  "i < N \<Longrightarrow> (\<exists>j < N. q \<in> set (f j)) \<longleftrightarrow> q \<in> set (f i) \<or> (\<exists>j < N. j \<noteq> i \<and> q \<in> set (f j))"
  for i N :: nat
  by auto

lemma reused_lists:
  assumes lo: "mp_lists_ok s frees" and i: "i < SLAB_COUNT" and f: "frees i = p # ps"
    and b: "mp_blocks s p = Some b"
  shows "mp_lists_ok (reused s i p b bt c) (frees(i := ps))"
proof -
  let ?s = "reused s i p b bt c"
  have st: "stack (mp_nx s) (slab_free (slabs s ! i)) (p # ps)"
    and cl: "class_of s p = Some i" and na: "p \<notin> set (active_blocks s)"
    using lo i f by (auto simp: mp_lists_ok_def)
  have np: "p \<notin> set ps" using stack_distinct [OF st] by simp
  have other: "p \<notin> set (frees j)" if "j < SLAB_COUNT" "j \<noteq> i" for j
    using lo that cl by (auto simp: mp_lists_ok_def)
  have "stack (mp_nx s) (slab_free (slabs ?s ! j)) ((frees(i := ps)) j)" if "j < SLAB_COUNT" for j
    using lo that st b i by (auto simp: mp_lists_ok_def reused_def nth_list_update mp_nx_def)
  moreover have "class_of s q = Some j \<and> q \<notin> set (active_blocks ?s)"
    if "j < SLAB_COUNT" "q \<in> set ((frees(i := ps)) j)" for j q
    using lo that f np other [OF that(1)] by (cases "j = i") (auto simp: mp_lists_ok_def reused_def)
  moreover have "q \<in> dom (mp_blocks ?s) \<longleftrightarrow>
      q \<in> set (active_blocks ?s) \<or> (\<exists>j < SLAB_COUNT. q \<in> set ((frees(i := ps)) j))" for q
  proof -
    have "q \<in> dom (mp_blocks ?s) \<longleftrightarrow> q \<in> dom (mp_blocks s)" using b by (auto simp: reused_def)
    also have "\<dots> \<longleftrightarrow> q \<in> set (active_blocks s) \<or> (\<exists>j < SLAB_COUNT. q \<in> set (frees j))"
      using lo by (simp add: mp_lists_ok_def)
    also have "\<dots> \<longleftrightarrow> q \<in> set (active_blocks ?s) \<or> (\<exists>j < SLAB_COUNT. q \<in> set ((frees(i := ps)) j))"
      unfolding listed_upd [OF i] listed_split [OF i, of q frees] using f by (auto simp: reused_def)
    finally show ?thesis .
  qed
  ultimately show ?thesis
    using lo na by (simp add: mp_lists_ok_def reused_simps [OF b]) (simp add: reused_def)
qed

lemma reused_count:
  assumes lo: "mp_lists_ok s frees" and co: "mp_count_ok s frees" and i: "i < SLAB_COUNT"
    and f: "frees i = p # ps" and b: "mp_blocks s p = Some b"
  shows "mp_count_ok (reused s i p b bt c) (frees(i := ps))"
  unfolding mp_count_ok_def reused_simps [OF b]
proof (intro allI impI)
  let ?s = "reused s i p b bt c"
  fix j assume j: "j < SLAB_COUNT"
  have cl: "class_of s p = Some i" and na: "p \<notin> set (active_blocks s)"
    and len: "length (slabs s) = SLAB_COUNT"
    using lo i f by (auto simp: mp_lists_ok_def)
  have set: "{q \<in> set (active_blocks ?s). class_of s q = Some j} =
      (if j = i then insert p {q \<in> set (active_blocks s). class_of s q = Some j}
       else {q \<in> set (active_blocks s). class_of s q = Some j})"
    using cl by (auto simp: reused_def)
  show "slab_total (slabs ?s ! j) =
        of_nat (card {q \<in> set (active_blocks ?s). class_of s q = Some j} + length ((frees(i := ps)) j))
      \<and> slab_in_use (slabs ?s ! j) = - of_nat (length ((frees(i := ps)) j))"
    unfolding set using co j i f na len
    by (cases "j = i") (auto simp: mp_count_ok_def reused_def)
qed

lemma reused_rep:
  assumes "mp_rep s frees" and "i < SLAB_COUNT" and "frees i = p # ps" and b: "mp_blocks s p = Some b"
  shows "mp_rep (reused s i p b bt c) (frees(i := ps))"
proof -
  have "mp_blocks_ok (reused s i p b bt c)"
    using assms(1) b by (auto simp: mp_rep_def mp_blocks_ok_def reused_def)
  then show ?thesis
    using assms reused_lists reused_count by (simp add: mp_rep_def)
qed

text \<open>The state after a new block was made.\<close>

definition created :: "mp_state \<Rightarrow> size_t \<Rightarrow> uchar list \<Rightarrow> nat list \<Rightarrow> nat \<Rightarrow> mp_state" where
  "created s sz buf bt c = s\<lparr>
     slabs := (case slab_index sz of None \<Rightarrow> slabs s
               | Some i \<Rightarrow> (slabs s)[i := (slabs s ! i)\<lparr>slab_total := slab_total (slabs s ! i) + 1\<rparr>]),
     mp_blocks := (mp_blocks s)(mp_fresh s \<mapsto>
       \<lparr>real_ptr = mp_fresh s, user_ptr = (mp_fresh s, GUARD_SIZE), mp_size = sz, mp_next = None,
        mp_backtrace = bt\<rparr>),
     mp_buffers := (mp_buffers s)(mp_fresh s \<mapsto> buf), mp_fresh := mp_fresh s + 1,
     active_capacity := c, active_blocks := active_blocks s @ [mp_fresh s]\<rparr>"

lemma mp_rep_fresh:
  assumes "mp_rep s frees"
  shows "mp_blocks s (mp_fresh s) = None" "mp_fresh s \<notin> set (active_blocks s)"
    "i < SLAB_COUNT \<Longrightarrow> mp_fresh s \<notin> set (frees i)"
proof -
  show n: "mp_blocks s (mp_fresh s) = None"
    using assms by (cases "mp_blocks s (mp_fresh s)") (auto simp: mp_rep_def mp_blocks_ok_def)
  then have "mp_fresh s \<notin> dom (mp_blocks s)" by auto
  then show "mp_fresh s \<notin> set (active_blocks s)" "i < SLAB_COUNT \<Longrightarrow> mp_fresh s \<notin> set (frees i)"
    using assms unfolding mp_rep_def mp_lists_ok_def by blast+
qed

lemma created_simps:
  "class_of (created s sz buf bt c) q = (if q = mp_fresh s then slab_index sz else class_of s q)"
  "mp_nx (created s sz buf bt c) = (mp_nx s)(mp_fresh s \<mapsto> None)"
  by (auto simp: class_of_def mp_nx_def created_def fun_eq_iff)

lemma active_created: "active_blocks (created s sz buf bt c) = active_blocks s @ [mp_fresh s]"
  by (simp add: created_def)

lemma active_reused: "active_blocks (reused s i p b bt c) = active_blocks s @ [p]"
  by (simp add: reused_def)

lemma slabs_created:
  "length (slabs s) = SLAB_COUNT \<Longrightarrow> i < SLAB_COUNT \<Longrightarrow>
     slabs (created s sz buf bt c) ! i =
       (if slab_index sz = Some i then (slabs s ! i)\<lparr>slab_total := slab_total (slabs s ! i) + 1\<rparr> else slabs s ! i)"
  by (auto simp: created_def nth_list_update split: option.split)

lemma created_rep:
  assumes rep: "mp_rep s frees" and len: "length buf = unat sz + 2 * GUARD_SIZE"
  shows "mp_rep (created s sz buf bt c) frees"
proof -
  let ?s = "created s sz buf bt c"
  from rep have bo: "mp_blocks_ok s" and lo: "mp_lists_ok s frees" and co: "mp_count_ok s frees"
    by (simp_all add: mp_rep_def)
  note fr = mp_rep_fresh [OF rep]
  have l: "length (slabs s) = SLAB_COUNT" using lo by (simp add: mp_lists_ok_def)
  have fr3: "q \<noteq> mp_fresh s" if "i < SLAB_COUNT" "q \<in> set (frees i)" for i q
    using fr(3) [OF that(1)] that(2) by blast
  have "mp_blocks_ok ?s"
    using bo len by (auto simp: mp_blocks_ok_def created_def less_Suc_eq)
  moreover have "mp_lists_ok ?s frees"
  proof -
    have "stack (mp_nx ?s) (slab_free (slabs ?s ! i)) (frees i)" if "i < SLAB_COUNT" for i
      using lo that fr(3) [OF that] by (simp add: mp_lists_ok_def created_simps slabs_created l)
    moreover have "class_of ?s q = Some i \<and> q \<notin> set (active_blocks ?s)"
      if "i < SLAB_COUNT" "q \<in> set (frees i)" for i q
      using lo that fr3 [OF that] by (auto simp: mp_lists_ok_def created_simps) (auto simp: created_def)
    moreover have "q \<in> dom (mp_blocks ?s) \<longleftrightarrow>
        q \<in> set (active_blocks ?s) \<or> (\<exists>i < SLAB_COUNT. q \<in> set (frees i))" for q
    proof -
      have "q \<in> dom (mp_blocks s) \<longleftrightarrow> q \<in> set (active_blocks s) \<or> (\<exists>i < SLAB_COUNT. q \<in> set (frees i))"
        using lo by (simp add: mp_lists_ok_def)
      then show ?thesis by (auto simp: created_def)
    qed
    moreover have "length (slabs ?s) = SLAB_COUNT" "distinct (active_blocks ?s)"
      using lo fr(2) by (auto simp: mp_lists_ok_def created_def split: option.split)
    ultimately show ?thesis by (simp add: mp_lists_ok_def)
  qed
  moreover have "mp_count_ok ?s frees"
    unfolding mp_count_ok_def
  proof (intro allI impI)
    fix i assume i: "i < SLAB_COUNT"
    have set: "{q \<in> set (active_blocks ?s). class_of ?s q = Some i} =
        (if slab_index sz = Some i then insert (mp_fresh s) {q \<in> set (active_blocks s). class_of s q = Some i}
         else {q \<in> set (active_blocks s). class_of s q = Some i})"
      using fr(2) by (auto simp: created_simps) (auto simp: created_def)
    show "slab_total (slabs ?s ! i) =
          of_nat (card {q \<in> set (active_blocks ?s). class_of ?s q = Some i} + length (frees i))
        \<and> slab_in_use (slabs ?s ! i) = - of_nat (length (frees i))"
      unfolding set using co i fr(2) by (simp add: mp_count_ok_def slabs_created l)
  qed
  ultimately show ?thesis by (simp add: mp_rep_def)
qed

text \<open>Both branches of \<open>mem_pool_alloc\<close>.\<close>

definition env_ok :: "mp_env \<Rightarrow> bool" where
  "env_ok env \<longleftrightarrow> calloc_ok env \<and> malloc_bytes env \<noteq> None \<and> realloc_ok env"

lemma alloc_reuses:
  assumes rep: "mp_rep s frees" and env: "env_ok env" and i: "slab_index sz = Some i"
    and f: "frees i = p # ps"
  shows "\<exists>b. mp_blocks s p = Some b \<and> mem_pool_alloc env sz s =
      Some (reused s i p b (take MAX_BACKTRACE (call_frames env)) (new_capacity s), Some (p, GUARD_SIZE))"
proof -
  have i8: "i < SLAB_COUNT" using i by (rule slab_index_less)
  with rep f have "stack (mp_nx s) (slab_free (slabs s ! i)) (p # ps)"
    by (auto simp: mp_rep_def mp_lists_ok_def)
  then obtain b where b: "mp_blocks s p = Some b" "slab_free (slabs s ! i) = Some p"
    by (auto simp: mp_nx_def)
  moreover have "user_ptr b = (p, GUARD_SIZE)"
    using rep b by (auto simp: mp_rep_def mp_blocks_ok_def)
  ultimately show ?thesis
    using i env by (auto simp: mem_pool_alloc_def reuse_block_def Let_def env_ok_def push_active_Some
        reused_def)
qed

lemma alloc_creates:
  assumes rep: "mp_rep s frees" and env: "env_ok env" and sz: "unat sz + 2 * GUARD_SIZE < 2 ^ 64"
    and f: "case slab_index sz of None \<Rightarrow> True | Some i \<Rightarrow> frees i = []"
  shows "\<exists>buf. mem_pool_alloc env sz s =
      Some (created s sz buf (take MAX_BACKTRACE (call_frames env)) (new_capacity s),
        Some (mp_fresh s, GUARD_SIZE))
    \<and> length buf = unat sz + 2 * GUARD_SIZE
    \<and> check_guard buf 0 = Some True \<and> check_guard buf (GUARD_SIZE + unat sz) = Some True"
proof -
  obtain junk where junk: "malloc_bytes env = Some junk" using env by (auto simp: env_ok_def)
  have tot: "unat (sz + of_nat (GUARD_SIZE * 2)) = unat sz + 2 * GUARD_SIZE"
    using sz by (simp add: unat_word_ariths GUARD_SIZE_def)
  let ?buf0 = "map junk [0..<unat (sz + of_nat (GUARD_SIZE * 2))]"
  obtain buf1 where buf1: "fill_guard ?buf0 0 = Some buf1" "length buf1 = length ?buf0"
    using tot by (auto simp: fill_guard_def write_bytes_def)
  obtain buf2 where buf2: "fill_guard buf1 (GUARD_SIZE + unat sz) = Some buf2" "length buf2 = length ?buf0"
    using tot buf1(2) by (auto simp: fill_guard_def write_bytes_def)
  have g: "check_guard buf2 0 = Some True" "check_guard buf2 (GUARD_SIZE + unat sz) = Some True"
    using check_fill_guard [OF buf1(1)] check_fill_guard [OF buf2(1)]
      check_guard_write_apart [OF buf2(1) [unfolded fill_guard_def], of 0] by simp_all
  have nf: "slab_free (slabs s ! i) = None" if "slab_index sz = Some i" for i
    using rep f that slab_index_less [OF that] by (auto simp: mp_rep_def mp_lists_ok_def)
  have nb: "new_block env (slab_index sz) sz s = Some
      (s\<lparr>mp_blocks := (mp_blocks s)(mp_fresh s \<mapsto>
           \<lparr>real_ptr = mp_fresh s, user_ptr = (mp_fresh s, GUARD_SIZE), mp_size = sz, mp_next = None,
            mp_backtrace = []\<rparr>),
         mp_buffers := (mp_buffers s)(mp_fresh s \<mapsto> buf2), mp_fresh := mp_fresh s + 1,
         slabs := (case slab_index sz of None \<Rightarrow> slabs s
               | Some i \<Rightarrow> (slabs s)[i := (slabs s ! i)\<lparr>slab_total := slab_total (slabs s ! i) + 1\<rparr>])\<rparr>,
       mp_fresh s)"
    using env junk buf1(1) buf2(1)
    by (simp add: new_block_def env_ok_def Let_def split: option.split)
  have "mem_pool_alloc env sz s =
      Some (created s sz buf2 (take MAX_BACKTRACE (call_frames env)) (new_capacity s),
        Some (mp_fresh s, GUARD_SIZE))"
    using env nf nb by (cases "slab_index sz")
      (auto simp: mem_pool_alloc_def env_ok_def push_active_Some created_def Let_def)
  then show ?thesis using g buf2(2) tot by auto
qed

section \<open>Giving back\<close>

lemma find_active_owned:
  "\<forall>p \<in> set as. \<exists>b. m p = Some b \<and> user_ptr b = (p, GUARD_SIZE) \<Longrightarrow>
     find_active m as q = Some (if snd q = GUARD_SIZE \<and> fst q \<in> set as then Some (fst q) else None)"
proof (induction as)
  case Nil
  then show ?case by simp
next
  case (Cons a as)
  then obtain b where "m a = Some b" "user_ptr b = (a, GUARD_SIZE)" by auto
  with Cons show ?case by (cases q) auto
qed

text \<open>The state after a block went back to the list of its class, or was freed for good.\<close>

definition given_back :: "mp_state \<Rightarrow> nat \<Rightarrow> nat \<Rightarrow> Block_mp \<Rightarrow> mp_state" where
  "given_back s i p b = s\<lparr>
     active_blocks := remove_active_loop [] (active_blocks s) p,
     mp_blocks := (mp_blocks s)(p \<mapsto> b\<lparr>mp_next := slab_free (slabs s ! i)\<rparr>),
     slabs := (slabs s)[i := (slabs s ! i)\<lparr>slab_free := Some p, slab_in_use := slab_in_use (slabs s ! i) - 1\<rparr>]\<rparr>"

definition dropped :: "mp_state \<Rightarrow> nat \<Rightarrow> mp_state" where
  "dropped s p = s\<lparr>
     active_blocks := remove_active_loop [] (active_blocks s) p,
     mp_buffers := (mp_buffers s)(p := None), mp_blocks := (mp_blocks s)(p := None)\<rparr>"

lemma removed_active:
  assumes "mp_rep s frees" and "p \<in> set (active_blocks s)"
  shows "set (remove_active_loop [] (active_blocks s) p) = set (active_blocks s) - {p}"
    "distinct (remove_active_loop [] (active_blocks s) p)"
  using remove_active_loop_set [of "[]" "active_blocks s" p] assms
  by (auto simp: mp_rep_def mp_lists_ok_def)

lemma given_back_rep:
  assumes rep: "mp_rep s frees" and p: "p \<in> set (active_blocks s)" and b: "mp_blocks s p = Some b"
    and i: "slab_index (mp_size b) = Some i"
  shows "mp_rep (given_back s i p b) (frees(i := p # frees i))"
proof -
  let ?s = "given_back s i p b"
  from rep have bo: "mp_blocks_ok s" and lo: "mp_lists_ok s frees" and co: "mp_count_ok s frees"
    by (simp_all add: mp_rep_def)
  note rm = removed_active [OF rep p]
  have i8: "i < SLAB_COUNT" using i by (rule slab_index_less)
  have len: "length (slabs s) = SLAB_COUNT" using lo by (simp add: mp_lists_ok_def)
  have cl: "class_of ?s q = class_of s q" for q using b by (simp add: class_of_def given_back_def)
  have cp: "class_of s p = Some i" using b i by (simp add: class_of_def)
  have nx: "mp_nx ?s = (mp_nx s)(p \<mapsto> slab_free (slabs s ! i))"
    by (auto simp: mp_nx_def given_back_def fun_eq_iff)
  have act: "set (active_blocks ?s) = set (active_blocks s) - {p}" "distinct (active_blocks ?s)"
    using rm by (simp_all add: given_back_def)
  have np: "p \<notin> set (frees j)" if "j < SLAB_COUNT" for j
    using lo that p by (auto simp: mp_lists_ok_def)
  have "mp_blocks_ok ?s" using bo b by (auto simp: mp_blocks_ok_def given_back_def)
  moreover have "mp_lists_ok ?s (frees(i := p # frees i))"
  proof -
    have "stack (mp_nx ?s) (slab_free (slabs ?s ! j)) ((frees(i := p # frees i)) j)"
      if "j < SLAB_COUNT" for j
      using lo that i8 np [OF that] np [OF i8] len unfolding nx
      by (auto simp: mp_lists_ok_def given_back_def nth_list_update)
    moreover have "class_of ?s q = Some j \<and> q \<notin> set (active_blocks ?s)"
      if "j < SLAB_COUNT" "q \<in> set ((frees(i := p # frees i)) j)" for j q
      using lo that cp unfolding cl act(1) by (cases "j = i") (auto simp: mp_lists_ok_def)
    moreover have "q \<in> dom (mp_blocks ?s) \<longleftrightarrow>
        q \<in> set (active_blocks ?s) \<or> (\<exists>j < SLAB_COUNT. q \<in> set ((frees(i := p # frees i)) j))" for q
    proof -
      have "q \<in> dom (mp_blocks ?s) \<longleftrightarrow> q \<in> dom (mp_blocks s)" using b by (auto simp: given_back_def)
      also have "\<dots> \<longleftrightarrow> q \<in> set (active_blocks s) \<or> (\<exists>j < SLAB_COUNT. q \<in> set (frees j))"
        using lo by (simp add: mp_lists_ok_def)
      also have "\<dots> \<longleftrightarrow> q \<in> set (active_blocks ?s)
          \<or> (\<exists>j < SLAB_COUNT. q \<in> set ((frees(i := p # frees i)) j))"
        unfolding listed_upd [OF i8] listed_split [OF i8, of q frees] act(1) using p by auto
      finally show ?thesis .
    qed
    ultimately show ?thesis using act(2) len by (simp add: mp_lists_ok_def) (simp add: given_back_def)
  qed
  moreover have "mp_count_ok ?s (frees(i := p # frees i))"
    unfolding mp_count_ok_def cl act(1)
  proof (intro allI impI)
    fix j assume j: "j < SLAB_COUNT"
    let ?A = "{q \<in> set (active_blocks s). class_of s q = Some j}"
    have set: "{q \<in> set (active_blocks s) - {p}. class_of s q = Some j} = (if j = i then ?A - {p} else ?A)"
      using cp by auto
    have card: "card ?A = Suc (card (?A - {p}))" if "j = i"
      by (rule card_Suc_Diff1 [symmetric]) (use p cp that in auto)
    have "slab_total (slabs s ! j) = of_nat (card ?A + length (frees j))"
      "slab_in_use (slabs s ! j) = - of_nat (length (frees j))"
      using co j by (simp_all add: mp_count_ok_def)
    then show "slab_total (slabs ?s ! j) = of_nat (card {q \<in> set (active_blocks s) - {p}. class_of s q = Some j}
            + length ((frees(i := p # frees i)) j))
        \<and> slab_in_use (slabs ?s ! j) = - of_nat (length ((frees(i := p # frees i)) j))"
      unfolding set using len i8 card by (cases "j = i") (simp_all add: given_back_def)
  qed
  ultimately show ?thesis by (simp add: mp_rep_def)
qed

lemma dropped_rep:
  assumes rep: "mp_rep s frees" and p: "p \<in> set (active_blocks s)" and b: "mp_blocks s p = Some b"
    and i: "slab_index (mp_size b) = None"
  shows "mp_rep (dropped s p) frees"
proof -
  let ?s = "dropped s p"
  from rep have bo: "mp_blocks_ok s" and lo: "mp_lists_ok s frees" and co: "mp_count_ok s frees"
    by (simp_all add: mp_rep_def)
  note rm = removed_active [OF rep p]
  have act: "set (active_blocks ?s) = set (active_blocks s) - {p}" "distinct (active_blocks ?s)"
    "slabs ?s = slabs s" using rm by (simp_all add: dropped_def)
  have np: "p \<notin> set (frees j)" if "j < SLAB_COUNT" for j
    using lo that p by (auto simp: mp_lists_ok_def)
  have cp: "class_of s p = None" using b i by (simp add: class_of_def)
  have cl: "class_of ?s q = class_of s q" for q using cp by (auto simp: class_of_def dropped_def)
  have nx: "mp_nx ?s = (mp_nx s)(p := None)" by (auto simp: mp_nx_def dropped_def fun_eq_iff)
  have "mp_blocks_ok ?s" using bo by (auto simp: mp_blocks_ok_def dropped_def)
  moreover have "mp_lists_ok ?s frees"
    unfolding mp_lists_ok_def cl act nx
    using lo np act(2) p by (auto simp: mp_lists_ok_def dropped_def)
  moreover have "mp_count_ok ?s frees"
  proof -
    have "{q \<in> set (active_blocks s) - {p}. class_of s q = Some j} =
        {q \<in> set (active_blocks s). class_of s q = Some j}" for j using cp by auto
    then show ?thesis using co unfolding mp_count_ok_def cl act by simp
  qed
  ultimately show ?thesis by (simp add: mp_rep_def)
qed

text \<open>The guard zones of a block as \<open>mem_pool_free\<close> finds them.\<close>

definition guards_intact :: "mp_state \<Rightarrow> nat \<Rightarrow> bool" where
  "guards_intact s p \<longleftrightarrow>
     (\<exists>b buf. mp_blocks s p = Some b \<and> mp_buffers s p = Some buf
        \<and> check_guard buf 0 = Some True \<and> check_guard buf (GUARD_SIZE + unat (mp_size b)) = Some True)"

definition freed_mp :: "mp_state \<Rightarrow> nat \<Rightarrow> Block_mp \<Rightarrow> mp_state" where
  "freed_mp s p b =
     (case slab_index (mp_size b) of None \<Rightarrow> dropped s p | Some i \<Rightarrow> given_back s i p b)"

lemma free_result:
  assumes rep: "mp_rep s frees" and p: "p \<in> set (active_blocks s)" and b: "mp_blocks s p = Some b"
  shows "mem_pool_free (Some (p, GUARD_SIZE)) s =
    Some (freed_mp s p b, if guards_intact s p then [] else [Buffer_overflow_detected (mp_size b)])"
proof -
  from mp_rep_block [OF rep p] b obtain buf where buf: "real_ptr b = p"
    "user_ptr b = (p, GUARD_SIZE)" "mp_buffers s p = Some buf"
    "length buf = unat (mp_size b) + 2 * GUARD_SIZE" by auto
  have "\<forall>q \<in> set (active_blocks s). \<exists>b. mp_blocks s q = Some b \<and> user_ptr b = (q, GUARD_SIZE)"
    using mp_rep_block [OF rep] by blast
  from find_active_owned [OF this, of "(p, GUARD_SIZE)"] p
  have f: "find_active (mp_blocks s) (active_blocks s) (p, GUARD_SIZE) = Some (Some p)" by simp
  obtain g1 g2 where g: "check_guard buf 0 = Some g1"
    "check_guard buf (GUARD_SIZE + unat (mp_size b)) = Some g2"
    using buf(4) by (auto simp: check_guard_def read_bytes_def)
  have "guards_intact s p \<longleftrightarrow> g1 \<and> g2" using b buf g by (auto simp: guards_intact_def)
  then show ?thesis
    using f b buf g by (cases "slab_index (mp_size b)")
      (simp_all add: mem_pool_free_def remove_active_def dropped_def given_back_def freed_mp_def Let_def)
qed

lemma freed_rep:
  assumes "mp_rep s frees" and "p \<in> set (active_blocks s)" and "mp_blocks s p = Some b"
  shows "mp_rep (freed_mp s p b)
    (case slab_index (mp_size b) of None \<Rightarrow> frees | Some i \<Rightarrow> frees(i := p # frees i))"
  using dropped_rep [OF assms] given_back_rep [OF assms]
  by (simp add: freed_mp_def split: option.split)

lemma freed_active:
  assumes "mp_rep s frees" and "p \<in> set (active_blocks s)"
  shows "set (active_blocks (freed_mp s p b)) = set (active_blocks s) - {p}"
  using removed_active [OF assms]
  by (simp add: freed_mp_def dropped_def given_back_def split: option.split)

lemma free_not_active:
  assumes rep: "mp_rep s frees" and q: "snd q \<noteq> GUARD_SIZE \<or> fst q \<notin> set (active_blocks s)"
  shows "mem_pool_free (Some q) s = Some (s, [Invalid_or_double_free])"
proof -
  have "\<forall>q \<in> set (active_blocks s). \<exists>b. mp_blocks s q = Some b \<and> user_ptr b = (q, GUARD_SIZE)"
    using mp_rep_block [OF rep] by blast
  from find_active_owned [OF this, of q] q show ?thesis by (auto simp: mem_pool_free_def)
qed

section \<open>Clients\<close>

datatype mp_request =
  Alloc_mp mp_env size_t
| Free_mp "nat \<times> nat"
| Store_mp "nat \<times> nat" nat "uchar list"

fun mp_run :: "mp_request list \<Rightarrow> mp_state \<Rightarrow> (mp_state \<times> mp_msg list) option" where
  "mp_run [] s = Some (s, [])"
| "mp_run (Alloc_mp env sz # rs) s =
     Option.bind (mem_pool_alloc env sz s) (\<lambda>(s1, r). mp_run rs s1)"
| "mp_run (Free_mp q # rs) s =
     Option.bind (mem_pool_free (Some q) s) (\<lambda>(s1, msgs).
       map_option (\<lambda>(s2, msgs'). (s2, msgs @ msgs')) (mp_run rs s1))"
| "mp_run (Store_mp q off bs # rs) s = Option.bind (mp_store q off bs s) (mp_run rs)"

text \<open>
  A careful client stores only inside blocks in use, up to the size the block records; it may
  free whatever it likes.  The C library is assumed to have memory for it.
\<close>

fun mp_careful :: "mp_request list \<Rightarrow> mp_state \<Rightarrow> bool" where
  "mp_careful [] s = True"
| "mp_careful (Alloc_mp env sz # rs) s =
     (env_ok env \<and> unat sz + 2 * GUARD_SIZE < 2 ^ 64
      \<and> (case mem_pool_alloc env sz s of None \<Rightarrow> True | Some (s1, r) \<Rightarrow> mp_careful rs s1))"
| "mp_careful (Free_mp q # rs) s =
     (case mem_pool_free (Some q) s of None \<Rightarrow> True | Some (s1, msgs) \<Rightarrow> mp_careful rs s1)"
| "mp_careful (Store_mp q off bs # rs) s =
     ((case mp_blocks s (fst q) of None \<Rightarrow> False
       | Some b \<Rightarrow> fst q \<in> set (active_blocks s) \<and> snd q = GUARD_SIZE
           \<and> off + length bs \<le> unat (mp_size b))
      \<and> (case mp_store q off bs s of None \<Rightarrow> True | Some s1 \<Rightarrow> mp_careful rs s1))"

definition all_guarded :: "mp_state \<Rightarrow> bool" where
  "all_guarded s \<longleftrightarrow> (\<forall>p \<in> dom (mp_blocks s). guards_intact s p)"

lemma guards_intact_reused:
  "mp_blocks s p = Some b \<Longrightarrow> guards_intact (reused s i p b bt c) q = guards_intact s q"
  by (auto simp: guards_intact_def reused_def)

lemma guards_intact_given_back:
  "mp_blocks s p = Some b \<Longrightarrow> guards_intact (given_back s i p b) q = guards_intact s q"
  by (auto simp: guards_intact_def given_back_def)

lemma alloc_step:
  assumes rep: "mp_rep s frees" and env: "env_ok env" and sz: "unat sz + 2 * GUARD_SIZE < 2 ^ 64"
  shows "\<exists>s' p frees'. mem_pool_alloc env sz s = Some (s', Some (p, GUARD_SIZE)) \<and> mp_rep s' frees'
    \<and> p \<notin> set (active_blocks s) \<and> active_blocks s' = active_blocks s @ [p]
    \<and> (all_guarded s \<longrightarrow> all_guarded s')"
proof (cases "\<exists>i p ps. slab_index sz = Some i \<and> frees i = p # ps")
  case True
  then obtain i p ps where i: "slab_index sz = Some i" "frees i = p # ps" by blast
  from alloc_reuses [OF rep env i] obtain b where b: "mp_blocks s p = Some b"
    "mem_pool_alloc env sz s =
      Some (reused s i p b (take MAX_BACKTRACE (call_frames env)) (new_capacity s), Some (p, GUARD_SIZE))"
    by blast
  have i8: "i < SLAB_COUNT" using i(1) by (rule slab_index_less)
  have "p \<notin> set (active_blocks s)" using rep i8 i(2) by (auto simp: mp_rep_def mp_lists_ok_def)
  moreover have "dom (mp_blocks (reused s i p b bt c)) = dom (mp_blocks s)" for bt c
    using b(1) by (auto simp: reused_def)
  ultimately show ?thesis
    using b reused_rep [OF rep i8 i(2) b(1)] guards_intact_reused [OF b(1)]
    by (simp add: all_guarded_def active_reused) blast
next
  case False
  then have "case slab_index sz of None \<Rightarrow> True | Some i \<Rightarrow> frees i = []"
    by (cases "slab_index sz"; cases "frees (the (slab_index sz))") auto
  from alloc_creates [OF rep env sz this] obtain buf where buf: "mem_pool_alloc env sz s =
      Some (created s sz buf (take MAX_BACKTRACE (call_frames env)) (new_capacity s),
        Some (mp_fresh s, GUARD_SIZE))" "length buf = unat sz + 2 * GUARD_SIZE"
    "check_guard buf 0 = Some True" "check_guard buf (GUARD_SIZE + unat sz) = Some True"
    by blast
  have "all_guarded s \<longrightarrow> all_guarded (created s sz buf bt c)" for bt c
    using buf(3,4) by (auto simp: all_guarded_def guards_intact_def created_def)
  then show ?thesis
    using buf(1) created_rep [OF rep buf(2)] mp_rep_fresh(2) [OF rep]
    by (simp add: active_created) blast
qed

lemma free_step:
  assumes rep: "mp_rep s frees" and g: "all_guarded s"
  shows "\<exists>s' msgs frees'. mem_pool_free (Some q) s = Some (s', msgs) \<and> mp_rep s' frees'
    \<and> all_guarded s' \<and> set msgs \<subseteq> {Invalid_or_double_free}"
proof (cases "snd q = GUARD_SIZE \<and> fst q \<in> set (active_blocks s)")
  case False
  then show ?thesis using free_not_active [OF rep] rep g by auto
next
  case True
  then obtain p where q: "q = (p, GUARD_SIZE)" and p: "p \<in> set (active_blocks s)" by (cases q) auto
  from mp_rep_block [OF rep p] obtain b where b: "mp_blocks s p = Some b" by blast
  then have "guards_intact s p" using g by (auto simp: all_guarded_def)
  with free_result [OF rep p b] have
    s': "mem_pool_free (Some (p, GUARD_SIZE)) s = Some (freed_mp s p b, [])" by simp
  have "all_guarded (freed_mp s p b)"
    unfolding all_guarded_def
  proof
    fix r assume "r \<in> dom (mp_blocks (freed_mp s p b))"
    then have "r \<in> dom (mp_blocks s) \<and> guards_intact (freed_mp s p b) r = guards_intact s r"
      using b by (auto simp: freed_mp_def given_back_def dropped_def guards_intact_def
          split: option.splits if_splits)
    then show "guards_intact (freed_mp s p b) r" using g by (auto simp: all_guarded_def)
  qed
  with s' freed_rep [OF rep p b] q show ?thesis by auto
qed

lemma mp_rep_store:
  assumes rep: "mp_rep s frees" and buf: "mp_buffers s p = Some buf" "length buf' = length buf"
  shows "mp_rep (s\<lparr>mp_buffers := (mp_buffers s)(p \<mapsto> buf')\<rparr>) frees"
proof -
  let ?s = "s\<lparr>mp_buffers := (mp_buffers s)(p \<mapsto> buf')\<rparr>"
  have "class_of ?s q = class_of s q" "mp_nx ?s = mp_nx s" for q
    by (simp_all add: class_of_def mp_nx_def)
  moreover have "mp_blocks_ok ?s"
    using rep buf unfolding mp_rep_def mp_blocks_ok_def by fastforce
  ultimately show ?thesis using rep by (simp add: mp_rep_def mp_lists_ok_def mp_count_ok_def)
qed

lemma store_step:
  assumes rep: "mp_rep s frees" and g: "all_guarded s" and p: "p \<in> set (active_blocks s)"
    and b: "mp_blocks s p = Some b" and r: "off + length bs \<le> unat (mp_size b)"
  shows "\<exists>s'. mp_store (p, GUARD_SIZE) off bs s = Some s' \<and> mp_rep s' frees \<and> all_guarded s'"
proof -
  from mp_rep_block [OF rep p] b obtain buf where
    buf: "mp_buffers s p = Some buf" "length buf = unat (mp_size b) + 2 * GUARD_SIZE" by auto
  obtain buf' where w: "write_bytes buf (GUARD_SIZE + off) bs = Some buf'"
    using r buf(2) by (auto simp: write_bytes_def)
  let ?s = "s\<lparr>mp_buffers := (mp_buffers s)(p \<mapsto> buf')\<rparr>"
  have "check_guard buf' 0 = check_guard buf 0"
    "check_guard buf' (GUARD_SIZE + unat (mp_size b)) = check_guard buf (GUARD_SIZE + unat (mp_size b))"
    using check_guard_write_apart [OF w] r by auto
  then have "guards_intact ?s q = guards_intact s q" for q
    using b buf(1) by (auto simp: guards_intact_def)
  then have "all_guarded ?s" using g by (auto simp: all_guarded_def)
  moreover have "mp_rep ?s frees"
    using mp_rep_store [OF rep buf(1) length_write_bytes [OF w]] .
  ultimately show ?thesis using buf(1) w by (simp add: mp_store_def)
qed

lemma careful_run:
  "mp_rep s frees \<Longrightarrow> all_guarded s \<Longrightarrow> mp_careful rs s \<Longrightarrow>
     \<exists>s' msgs frees'. mp_run rs s = Some (s', msgs) \<and> mp_rep s' frees' \<and> all_guarded s'
       \<and> set msgs \<subseteq> {Invalid_or_double_free}"
proof (induction rs s arbitrary: frees rule: mp_run.induct)
  case (1 s)
  then show ?case by auto
next
  case (2 env sz rs s)
  then have "env_ok env" "unat sz + 2 * GUARD_SIZE < 2 ^ 64" by simp_all
  from alloc_step [OF 2(2) this] obtain s1 p frees' where
    s1: "mem_pool_alloc env sz s = Some (s1, Some (p, GUARD_SIZE))" "mp_rep s1 frees'"
    "all_guarded s \<longrightarrow> all_guarded s1" by blast
  with 2(4) have "mp_careful rs s1" by simp
  from 2(1) [OF s1(1) refl s1(2) _ this] s1 2(3) show ?case by simp
next
  case (3 q rs s)
  from free_step [OF 3(2,3), of q] obtain s1 msgs frees' where
    s1: "mem_pool_free (Some q) s = Some (s1, msgs)" "mp_rep s1 frees'" "all_guarded s1"
    "set msgs \<subseteq> {Invalid_or_double_free}" by blast
  with 3(4) have "mp_careful rs s1" by simp
  from 3(1) [OF s1(1) refl s1(2,3) this] s1 show ?case by auto
next
  case (4 q off bs rs s)
  then obtain b where b: "mp_blocks s (fst q) = Some b" "fst q \<in> set (active_blocks s)"
    "q = (fst q, GUARD_SIZE)" "off + length bs \<le> unat (mp_size b)"
    by (cases q) (auto split: option.splits)
  from store_step [OF 4(2,3) b(2,1,4)] b(3) obtain s1 where
    s1: "mp_store q off bs s = Some s1" "mp_rep s1 frees" "all_guarded s1" by metis
  with 4(4) have "mp_careful rs s1" by simp
  from 4(1) [OF s1(1-3) this] s1 show ?case by simp
qed

lemma list_all2_mono_set:
  "list_all2 P xs ys \<Longrightarrow> (\<And>x y. y \<in> set ys \<Longrightarrow> P x y \<Longrightarrow> Q x y) \<Longrightarrow> list_all2 Q xs ys"
  by (induction rule: list_all2_induct) auto

section \<open>Destruction\<close>

lemma release_list_stack:
  "mp_blocks_ok s \<Longrightarrow> stack (mp_nx s) c ps \<Longrightarrow>
     \<exists>s'. release_list c s = Some s' \<and> mp_blocks s' = mp_blocks s |` (- set ps) \<and> mp_blocks_ok s'
       \<and> slabs s' = slabs s \<and> active_blocks s' = active_blocks s"
proof (induction ps arbitrary: c s)
  case Nil
  then show ?case by (simp add: release_list.simps)
next
  case (Cons p ps)
  then obtain b buf where b: "c = Some p" "mp_blocks s p = Some b" "stack (mp_nx s) (mp_next b) ps"
    "real_ptr b = p" "mp_buffers s p = Some buf"
    by (fastforce simp: mp_nx_def mp_blocks_ok_def)
  let ?s = "s\<lparr>mp_buffers := (mp_buffers s)(p := None), mp_blocks := (mp_blocks s)(p := None)\<rparr>"
  have r: "release_block p s = Some ?s" using b by (simp add: release_block_def)
  have "p \<notin> set ps" using stack_distinct [OF Cons.prems(2)] by simp
  moreover have "mp_nx ?s = (mp_nx s)(p := None)" by (auto simp: mp_nx_def fun_eq_iff)
  ultimately have "stack (mp_nx ?s) (mp_next b) ps" using b(3) by simp
  moreover have "mp_blocks_ok ?s" using Cons.prems(1) by (auto simp: mp_blocks_ok_def)
  ultimately obtain s' where "release_list (mp_next b) ?s = Some s'"
    "mp_blocks s' = mp_blocks ?s |` (- set ps)" "mp_blocks_ok s'"
    "slabs s' = slabs ?s" "active_blocks s' = active_blocks ?s"
    using Cons.IH by blast
  moreover have "mp_blocks ?s |` (- set ps) = mp_blocks s |` (- set (p # ps))"
    by (auto simp: restrict_map_def fun_eq_iff)
  ultimately show ?case using b(1,2) r by (simp add: release_list.simps)
qed

lemma mp_nx_restrict: "mp_blocks s' = mp_blocks s |` A \<Longrightarrow> mp_nx s' = mp_nx s |` A"
  by (simp add: mp_nx_def restrict_map_def fun_eq_iff)

lemma release_lists_stacks:
  "mp_blocks_ok s \<Longrightarrow> list_all2 (stack (mp_nx s)) cs pss \<Longrightarrow> distinct (concat pss) \<Longrightarrow>
     \<exists>s'. release_lists cs s = Some s' \<and> mp_blocks s' = mp_blocks s |` (- set (concat pss))
       \<and> mp_blocks_ok s' \<and> slabs s' = slabs s \<and> active_blocks s' = active_blocks s"
proof (induction cs arbitrary: s pss)
  case Nil
  then show ?case by simp
next
  case (Cons c cs)
  then obtain ps qss where ps: "pss = ps # qss" "stack (mp_nx s) c ps" "list_all2 (stack (mp_nx s)) cs qss"
    by (auto simp: list_all2_Cons1)
  from release_list_stack [OF Cons.prems(1) ps(2)] obtain s1 where
    s1: "release_list c s = Some s1" "mp_blocks s1 = mp_blocks s |` (- set ps)" "mp_blocks_ok s1"
    "slabs s1 = slabs s" "active_blocks s1 = active_blocks s" by blast
  have "list_all2 (stack (mp_nx s1)) cs qss"
    using ps(3)
  proof (rule list_all2_mono_set)
    fix d qs assume "qs \<in> set qss" "stack (mp_nx s) d qs"
    moreover have "mp_nx s1 q = mp_nx s q" if "q \<in> set qs" for q
      using Cons.prems(3) ps(1) that \<open>qs \<in> set qss\<close>
      by (auto simp: mp_nx_restrict [OF s1(2)] restrict_map_def)
    ultimately show "stack (mp_nx s1) d qs" using stack_same by metis
  qed
  from Cons.IH [OF s1(3) this] Cons.prems(3) ps(1) obtain s2 where
    s2: "release_lists cs s1 = Some s2" "mp_blocks s2 = mp_blocks s1 |` (- set (concat qss))"
    "mp_blocks_ok s2" "slabs s2 = slabs s1" "active_blocks s2 = active_blocks s1" by auto
  moreover have "mp_blocks s1 |` (- set (concat qss)) = mp_blocks s |` (- set (concat pss))"
    using s1(2) ps(1) by (auto simp: restrict_map_def fun_eq_iff)
  ultimately show ?case using s1 by simp
qed

lemma release_all_blocks:
  "mp_blocks_ok s \<Longrightarrow> set ps \<subseteq> dom (mp_blocks s) \<Longrightarrow> distinct ps \<Longrightarrow>
     \<exists>s'. release_all ps s = Some s' \<and> mp_blocks s' = mp_blocks s |` (- set ps) \<and> slabs s' = slabs s"
proof (induction ps arbitrary: s)
  case Nil
  then show ?case by simp
next
  case (Cons p ps)
  then obtain b buf where b: "mp_blocks s p = Some b" "real_ptr b = p" "mp_buffers s p = Some buf"
    by (fastforce simp: mp_blocks_ok_def)
  let ?s = "s\<lparr>mp_buffers := (mp_buffers s)(p := None), mp_blocks := (mp_blocks s)(p := None)\<rparr>"
  have r: "release_block p s = Some ?s" using b by (simp add: release_block_def)
  have "mp_blocks_ok ?s" using Cons.prems(1) by (auto simp: mp_blocks_ok_def)
  moreover have "set ps \<subseteq> dom (mp_blocks ?s)" using Cons.prems by auto
  ultimately obtain s' where "release_all ps ?s = Some s'" "mp_blocks s' = mp_blocks ?s |` (- set ps)"
    "slabs s' = slabs ?s"
    using Cons.IH Cons.prems(3) by fastforce
  moreover have "mp_blocks ?s |` (- set ps) = mp_blocks s |` (- set (p # ps))"
    by (auto simp: restrict_map_def fun_eq_iff)
  ultimately show ?case using r by simp
qed

lemma distinct_concat_upt:
  "(\<And>i. i < n \<Longrightarrow> distinct (f i)) \<Longrightarrow>
     (\<And>i j. i < n \<Longrightarrow> j < n \<Longrightarrow> i \<noteq> j \<Longrightarrow> set (f i) \<inter> set (f j) = {}) \<Longrightarrow>
     distinct (concat (map f [0..<n]))"
proof (induction n)
  case 0
  then show ?case by simp
next
  case (Suc n)
  have "distinct (concat (map f [0..<n]))"
    by (rule Suc.IH) (use Suc.prems in \<open>auto simp: less_Suc_eq\<close>)
  moreover have "distinct (f n)" using Suc.prems(1) by simp
  moreover have "set (f i) \<inter> set (f n) = {}" if "i < n" for i
    using Suc.prems(2) [of i n] that by simp
  then have "set (concat (map f [0..<n])) \<inter> set (f n) = {}" by fastforce
  ultimately show ?case by simp
qed

lemma leak_lines_defined:
  "set as \<subseteq> dom m \<Longrightarrow> \<exists>out. leak_lines m as = Some out \<and> length out = length as"
proof (induction as)
  case Nil
  then show ?case by simp
next
  case (Cons a as)
  then have "set as \<subseteq> dom m" "a \<in> dom m" by simp_all
  from Cons.IH [OF this(1)] obtain out where "leak_lines m as = Some out" "length out = length as"
    by blast
  moreover from \<open>a \<in> dom m\<close> obtain b where "m a = Some b" by blast
  ultimately show ?case by simp
qed

lemma destroy_result:
  assumes rep: "mp_rep s frees"
  shows "\<exists>s' out. mem_pool_destroy s = Some (s', mem_pool_dump_stats s @ out)
    \<and> mem_pool_dump_leaks s = Some out \<and> mp_blocks s' = Map.empty \<and> slabs s' = slabs s
    \<and> active_blocks s' = []"
proof -
  from rep have bo: "mp_blocks_ok s" and lo: "mp_lists_ok s frees" by (simp_all add: mp_rep_def)
  have dom: "set (active_blocks s) \<subseteq> dom (mp_blocks s)" using lo by (auto simp: mp_lists_ok_def)
  from leak_lines_defined [OF dom] obtain out where out: "mem_pool_dump_leaks s = Some out"
    by (cases "active_blocks s = []") (auto simp: mem_pool_dump_leaks_def)
  let ?pss = "map frees [0..<SLAB_COUNT]"
  have "list_all2 (stack (mp_nx s)) (map slab_free (slabs s)) ?pss"
    using lo by (auto simp: list_all2_conv_all_nth mp_lists_ok_def)
  moreover have "distinct (concat ?pss)"
  proof (rule distinct_concat_upt)
    show "distinct (frees i)" if "i < SLAB_COUNT" for i
      using lo that by (auto simp: mp_lists_ok_def dest: stack_distinct)
    have c: "class_of s x = Some i" if "i < SLAB_COUNT" "x \<in> set (frees i)" for i x
      using lo that by (simp add: mp_lists_ok_def)
    show "set (frees i) \<inter> set (frees j) = {}" if "i < SLAB_COUNT" "j < SLAB_COUNT" "i \<noteq> j" for i j
      using c [OF that(1)] c [OF that(2)] that(3) by fastforce
  qed
  ultimately obtain s1 where s1: "release_lists (map slab_free (slabs s)) s = Some s1"
    "mp_blocks s1 = mp_blocks s |` (- set (concat ?pss))" "mp_blocks_ok s1" "slabs s1 = slabs s"
    "active_blocks s1 = active_blocks s"
    using release_lists_stacks [OF bo] by blast
  have "set (active_blocks s1) \<subseteq> dom (mp_blocks s1)"
    using lo s1(2,5) dom by (auto simp: mp_lists_ok_def restrict_map_def)
  moreover have "distinct (active_blocks s1)" using lo s1(5) by (simp add: mp_lists_ok_def)
  ultimately obtain s2 where s2: "release_all (active_blocks s1) s1 = Some s2"
    "mp_blocks s2 = mp_blocks s1 |` (- set (active_blocks s1))" "slabs s2 = slabs s1"
    using release_all_blocks [OF s1(3)] by blast
  have "mp_blocks s2 p = None" for p
  proof (cases "p \<in> dom (mp_blocks s)")
    case True
    then have "p \<in> set (active_blocks s) \<or> (\<exists>i < SLAB_COUNT. p \<in> set (frees i))"
      using lo by (simp add: mp_lists_ok_def)
    then show ?thesis using s1(2,5) s2(2) by (auto simp: restrict_map_def)
  next
    case False
    then show ?thesis using s1(2) s2(2) by (auto simp: restrict_map_def)
  qed
  then show ?thesis
    using out s1(1,4) s2(1,3) by (simp add: mem_pool_destroy_def fun_eq_iff)
qed

section \<open>The demonstration\<close>

text \<open>Reading a C string: the bytes up to the terminating zero.\<close>

definition mp_read_string :: "nat \<times> nat \<Rightarrow> mp_state \<Rightarrow> uchar list option" where
  "mp_read_string q s = do {
     buf \<leftarrow> mp_buffers s (fst q);
     let bs = drop (snd q) buf;
     if 0 \<in> set bs then Some (takeWhile (\<lambda>c. c \<noteq> 0) bs) else None
   }"

definition bytes_of :: "string \<Rightarrow> uchar list" where
  "bytes_of = map (\<lambda>c. of_nat (of_char c))"

text \<open>An \<open>int\<close> of four bytes, the low byte first.\<close>

definition int_bytes :: "nat \<Rightarrow> uchar list" where
  "int_bytes n = map (\<lambda>k. of_nat (n div 256 ^ k mod 256)) [0..<4]"

text \<open>
  The string that is printed, and what \<open>mem_pool_destroy\<close> prints.  The ten writes to \<open>b\<close> of
  the loop are the fold over 0 to 9.
\<close>

definition main_mp :: "mp_env \<Rightarrow> mp_env \<Rightarrow> mp_env \<Rightarrow> (uchar list \<times> mp_msg list) option" where
  "main_mp env1 env2 env3 = do {
     let s0 = mem_pool_init mp_start;
     (s1, a') \<leftarrow> mem_pool_alloc env1 100 s0;
     a \<leftarrow> a';
     s2 \<leftarrow> mp_store a 0 (bytes_of ''hello world'' @ [0]) s1;
     shown \<leftarrow> mp_read_string a s2;
     (s3, b') \<leftarrow> mem_pool_alloc env2 2048 s2;
     b \<leftarrow> b';
     s4 \<leftarrow> fold (\<lambda>i r. Option.bind r (mp_store b (4 * i) (int_bytes (i * i)))) [0..<10] (Some s3);
     (s5, leak) \<leftarrow> mem_pool_alloc env3 200 s4;
     (s6, msgs1) \<leftarrow> mem_pool_free (Some a) s5;
     (s7, msgs2) \<leftarrow> mem_pool_free (Some b) s6;
     (s8, out) \<leftarrow> mem_pool_destroy s7;
     Some (shown, msgs1 @ msgs2 @ out)
   }"

text \<open>The first allocation from a fresh pool, for the examples below.\<close>

definition env0 :: mp_env where
  "env0 = \<lparr>calloc_ok = True, malloc_bytes = Some (\<lambda>_. 0), realloc_ok = True, call_frames = []\<rparr>"

lemma env0_ok: "env_ok env0"
  by (simp add: env_ok_def env0_def)

lemma alloc_first:
  assumes "unat sz + 2 * GUARD_SIZE < 2 ^ 64"
  shows "\<exists>s b buf. mem_pool_alloc env0 sz (mem_pool_init mp_start) = Some (s, Some (0, GUARD_SIZE))
    \<and> mp_rep s (\<lambda>_. []) \<and> 0 \<in> set (active_blocks s) \<and> mp_blocks s 0 = Some b \<and> mp_size b = sz
    \<and> mp_buffers s 0 = Some buf \<and> length buf = unat sz + 2 * GUARD_SIZE"
proof -
  have "case slab_index sz of None \<Rightarrow> True | Some i \<Rightarrow> ([] :: nat list) = []" by (cases "slab_index sz") simp_all
  from alloc_creates [OF mp_rep_init env0_ok assms this] obtain buf where
    buf: "mem_pool_alloc env0 sz (mem_pool_init mp_start) =
      Some (created (mem_pool_init mp_start) sz buf (take MAX_BACKTRACE (call_frames env0))
        (new_capacity (mem_pool_init mp_start)), Some (mp_fresh (mem_pool_init mp_start), GUARD_SIZE))"
    "length buf = unat sz + 2 * GUARD_SIZE" by blast
  have "mp_fresh (mem_pool_init mp_start) = 0" by (simp add: mem_pool_init_def mp_start_def)
  with buf created_rep [OF mp_rep_init buf(2)] show ?thesis
    by (auto simp: active_created) (auto simp: created_def)
qed

section \<open>Properties\<close>

text \<open>
  From a fresh pool, a client that stores only inside the blocks it holds may allocate and
  free in any way, double frees and wild frees included: every call has a result, the pool stays
  consistent, and the only message is that an invalid free was detected; no block is ever handed
  out twice.
\<close>

theorem mp_careful_clients_safe:
  assumes "mp_careful rs (mem_pool_init mp_start)"
  shows "\<exists>s' msgs frees. mp_run rs (mem_pool_init mp_start) = Some (s', msgs) \<and> mp_rep s' frees
    \<and> all_guarded s' \<and> set msgs \<subseteq> {Invalid_or_double_free}"
proof (rule careful_run [OF mp_rep_init _ assms])
  show "all_guarded (mem_pool_init mp_start)"
    by (simp add: all_guarded_def mem_pool_init_def mp_start_def)
qed

text \<open>
  Writing past a block is noticed: when a client holds a block and stores bytes from its
  end on, the first of them not the guard value, the free of the block reports the overflow, and
  it reports it with the block's size.
\<close>

theorem mem_pool_free_detects_overflow:
  assumes "mp_rep s frees" and "p \<in> set (active_blocks s)" and "mp_blocks s p = Some b"
    and "unat (mp_size b) \<le> off" and "off < unat (mp_size b) + GUARD_SIZE" and "bs \<noteq> []"
    and "hd bs \<noteq> GUARD_VAL" and "mp_store (p, GUARD_SIZE) off bs s = Some s1"
  shows "\<exists>s2. mem_pool_free (Some (p, GUARD_SIZE)) s1 = Some (s2, [Buffer_overflow_detected (mp_size b)])
    \<and> mem_pool_free (Some (p, GUARD_SIZE)) s2 = Some (s2, [Invalid_or_double_free])"
proof -
  from mp_rep_block [OF assms(1,2)] assms(3) obtain buf where
    buf: "mp_buffers s p = Some buf" "length buf = unat (mp_size b) + 2 * GUARD_SIZE" by auto
  with assms(8) obtain buf' where w: "write_bytes buf (GUARD_SIZE + off) bs = Some buf'"
    and s1: "s1 = s\<lparr>mp_buffers := (mp_buffers s)(p \<mapsto> buf')\<rparr>"
    by (auto simp: mp_store_def split: Option.bind_splits)
  have rep1: "mp_rep s1 frees"
    using mp_rep_store [OF assms(1) buf(1) length_write_bytes [OF w]] s1 by simp
  have "check_guard buf' (GUARD_SIZE + unat (mp_size b)) = Some False"
    by (rule check_guard_hit [OF w]) (use assms(4-7) buf(2) in simp_all)
  then have "\<not> guards_intact s1 p" using s1 assms(3) by (simp add: guards_intact_def)
  moreover have "p \<in> set (active_blocks s1)" "mp_blocks s1 p = Some b" using s1 assms(2,3) by simp_all
  ultimately have f: "mem_pool_free (Some (p, GUARD_SIZE)) s1 =
      Some (freed_mp s1 p b, [Buffer_overflow_detected (mp_size b)])"
    using free_result [OF rep1] by simp
  have "mem_pool_free (Some (p, GUARD_SIZE)) (freed_mp s1 p b) =
      Some (freed_mp s1 p b, [Invalid_or_double_free])"
    using free_not_active [OF freed_rep [OF rep1 \<open>p \<in> set (active_blocks s1)\<close> \<open>mp_blocks s1 p = _\<close>]]
      freed_active [OF rep1 \<open>p \<in> set (active_blocks s1)\<close>, of b] by simp
  with f show ?thesis by blast
qed

theorem mem_pool_free_detects_overflow_witness:
  "\<exists>s s1 s2. mem_pool_alloc env0 2 (mem_pool_init mp_start) = Some (s, Some (0, GUARD_SIZE))
    \<and> mp_store (0, GUARD_SIZE) 2 [7] s = Some s1
    \<and> mem_pool_free (Some (0, GUARD_SIZE)) s1 = Some (s2, [Buffer_overflow_detected 2])
    \<and> mem_pool_free (Some (0, GUARD_SIZE)) s2 = Some (s2, [Invalid_or_double_free])"
proof -
  obtain s b buf where s: "mem_pool_alloc env0 2 (mem_pool_init mp_start) = Some (s, Some (0, GUARD_SIZE))"
    "mp_rep s (\<lambda>_. [])" "0 \<in> set (active_blocks s)" "mp_blocks s 0 = Some b" "mp_size b = 2"
    "mp_buffers s 0 = Some buf" "length buf = unat (2 :: size_t) + 2 * GUARD_SIZE"
    using alloc_first [of 2] by (auto simp: GUARD_SIZE_def)
  then obtain s1 where s1: "mp_store (0, GUARD_SIZE) 2 [7] s = Some s1"
    by (simp add: mp_store_def write_bytes_def GUARD_SIZE_def)
  have "\<exists>s2. mem_pool_free (Some (0, GUARD_SIZE)) s1 = Some (s2, [Buffer_overflow_detected (mp_size b)])
      \<and> mem_pool_free (Some (0, GUARD_SIZE)) s2 = Some (s2, [Invalid_or_double_free])"
    by (rule mem_pool_free_detects_overflow [OF s(2-4) _ _ _ _ s1])
      (simp_all add: s(5) GUARD_SIZE_def GUARD_VAL_def)
  with s(1,5) s1 show ?thesis by auto
qed

text \<open>
  The recorded size of a block that is handed out again is the size of its first request:
  after a block of \<open>n\<close> bytes was given back, a larger request of the same size class returns
  this very block, still of \<open>n\<close> bytes, and a client that uses all the bytes it asked for
  overwrites the guard zone.
\<close>

theorem mem_pool_alloc_returns_short_block:
  assumes "mp_rep s frees" and "p \<in> set (active_blocks s)" and "mp_blocks s p = Some b"
    and "mem_pool_free (Some (p, GUARD_SIZE)) s = Some (s1, msgs)"
    and "slab_index m = slab_index (mp_size b)" and "slab_index m \<noteq> None" and "env_ok env"
  shows "\<exists>s2 b2. mem_pool_alloc env m s1 = Some (s2, Some (p, GUARD_SIZE))
    \<and> mp_blocks s2 p = Some b2 \<and> mp_size b2 = mp_size b
    \<and> (\<exists>buf. mp_buffers s2 p = Some buf \<and> length buf = unat (mp_size b) + 2 * GUARD_SIZE)"
proof -
  obtain i where i: "slab_index m = Some i" "slab_index (mp_size b) = Some i" using assms(5,6) by auto
  have s1: "s1 = freed_mp s p b" using free_result [OF assms(1-3)] assms(4) by simp
  have rep1: "mp_rep s1 (frees(i := p # frees i))"
    using freed_rep [OF assms(1-3)] s1 i by simp
  from alloc_reuses [OF rep1 assms(7) i(1)] obtain b1 where
    b1: "mp_blocks s1 p = Some b1" "mem_pool_alloc env m s1 =
      Some (reused s1 i p b1 (take MAX_BACKTRACE (call_frames env)) (new_capacity s1), Some (p, GUARD_SIZE))"
    by auto
  have "mp_size b1 = mp_size b" using b1(1) s1 i assms(3) by (auto simp: freed_mp_def given_back_def)
  moreover have "\<exists>buf. mp_buffers s1 p = Some buf \<and> length buf = unat (mp_size b1) + 2 * GUARD_SIZE"
    using rep1 b1(1) by (auto simp: mp_rep_def mp_blocks_ok_def)
  ultimately show ?thesis using b1 by (auto simp: reused_def)
qed

theorem mem_pool_alloc_returns_short_block_witness:
  "\<exists>s s1 msgs s2 b2. mem_pool_alloc env0 100 (mem_pool_init mp_start) = Some (s, Some (0, GUARD_SIZE))
    \<and> mem_pool_free (Some (0, GUARD_SIZE)) s = Some (s1, msgs)
    \<and> mem_pool_alloc env0 120 s1 = Some (s2, Some (0, GUARD_SIZE))
    \<and> mp_blocks s2 0 = Some b2 \<and> mp_size b2 = 100
    \<and> (\<exists>buf. mp_buffers s2 0 = Some buf \<and> length buf = unat (100 :: size_t) + 2 * GUARD_SIZE)"
proof -
  obtain s b where s: "mem_pool_alloc env0 100 (mem_pool_init mp_start) = Some (s, Some (0, GUARD_SIZE))"
    "mp_rep s (\<lambda>_. [])" "0 \<in> set (active_blocks s)" "mp_blocks s 0 = Some b" "mp_size b = 100"
    using alloc_first [of 100] by (auto simp: GUARD_SIZE_def)
  obtain s1 msgs where s1: "mem_pool_free (Some (0, GUARD_SIZE)) s = Some (s1, msgs)"
    using free_result [OF s(2-4)] by blast
  have "slab_index 120 = slab_index (mp_size b)" "slab_index 120 \<noteq> None"
    by (simp_all add: s(5) slab_index_cases)
  from mem_pool_alloc_returns_short_block [OF s(2-4) s1 this env0_ok] s(1,5) s1 show ?thesis by auto
qed

text \<open>
  The statistics: in every consistent state the \<open>total\<close> column counts the blocks of a
  class and the \<open>in-use\<close> column is the number in use minus \<open>total\<close> (modulo 2 to the 64), so it
  is never the number in use while the class has blocks, and the \<open>free\<close> column counts the
  waiting blocks and all blocks of the class together.
\<close>

theorem mem_pool_stats_columns:
  assumes "mp_rep s frees"
  shows "\<forall>i < SLAB_COUNT. \<exists>used. used = card {p \<in> set (active_blocks s). class_of s p = Some i}
    \<and> mem_pool_dump_stats s ! i =
        Slab_line (chunk_size (slabs s ! i)) (of_nat (used + length (frees i)))
          (of_nat used - of_nat (used + length (frees i)))
          (of_nat (length (frees i) + (used + length (frees i))))"
proof (intro allI impI)
  fix i assume i: "i < SLAB_COUNT"
  with assms have "length (slabs s) = SLAB_COUNT"
    "slab_total (slabs s ! i) =
      of_nat (card {p \<in> set (active_blocks s). class_of s p = Some i} + length (frees i))"
    "slab_in_use (slabs s ! i) = - of_nat (length (frees i))"
    by (simp_all add: mp_rep_def mp_lists_ok_def mp_count_ok_def)
  with i show "\<exists>used. used = card {p \<in> set (active_blocks s). class_of s p = Some i}
    \<and> mem_pool_dump_stats s ! i =
        Slab_line (chunk_size (slabs s ! i)) (of_nat (used + length (frees i)))
          (of_nat used - of_nat (used + length (frees i)))
          (of_nat (length (frees i) + (used + length (frees i))))"
    by (simp add: mem_pool_dump_stats_def algebra_simps)
qed

theorem mem_pool_stats_columns_witness:
  "\<exists>s. mem_pool_alloc env0 100 (mem_pool_init mp_start) = Some (s, Some (0, GUARD_SIZE))
    \<and> mem_pool_dump_stats s ! 2 = Slab_line 128 1 0 1"
proof -
  obtain s b where s: "mem_pool_alloc env0 100 (mem_pool_init mp_start) = Some (s, Some (0, GUARD_SIZE))"
    "mp_rep s (\<lambda>_. [])" "mp_blocks s 0 = Some b" "mp_size b = 100"
    using alloc_first [of 100] by (auto simp: GUARD_SIZE_def)
  have "active_blocks s = [0] \<and> chunk_size (slabs s ! 2) = 128"
    using s(1) by (auto simp: mem_pool_alloc_def slab_index_cases new_block_def env0_def push_active_def
        mem_pool_init_def mp_start_def SLAB_COUNT_def SLAB_SIZES_def Let_def
        split: Option.bind_splits if_splits)
  moreover have "{p \<in> {0}. class_of s p = Some 2} = {0}"
    using s(3,4) by (auto simp: class_of_def slab_index_cases)
  ultimately show ?thesis
    using mem_pool_stats_columns [OF s(2), rule_format, of 2] s(1) by (simp add: SLAB_COUNT_def)
qed

text \<open>
  \<open>mem_pool_destroy\<close> always returns, reports each unfreed block, and frees every block;
  but it leaves the free lists of the size classes as they were, so the next allocation from a
  class that had waiting blocks dereferences freed memory.
\<close>

theorem mem_pool_destroy_dangles:
  assumes "mp_rep s frees"
  shows "\<exists>s' out. mem_pool_destroy s = Some (s', mem_pool_dump_stats s @ out)
    \<and> mem_pool_dump_leaks s = Some out \<and> mp_blocks s' = Map.empty \<and> active_blocks s' = []
    \<and> (\<forall>env sz i. slab_index sz = Some i \<and> frees i \<noteq> [] \<longrightarrow> mem_pool_alloc env sz s' = None)"
proof -
  from destroy_result [OF assms] obtain s' out where
    d: "mem_pool_destroy s = Some (s', mem_pool_dump_stats s @ out)" "mem_pool_dump_leaks s = Some out"
    "mp_blocks s' = Map.empty" "slabs s' = slabs s" "active_blocks s' = []" by blast
  have "mem_pool_alloc env sz s' = None" if i: "slab_index sz = Some i" "frees i \<noteq> []" for env sz i
  proof -
    obtain p ps where "frees i = p # ps" using i(2) by (cases "frees i") auto
    moreover have "stack (mp_nx s) (slab_free (slabs s ! i)) (frees i)"
      using assms slab_index_less [OF i(1)] by (simp add: mp_rep_def mp_lists_ok_def)
    ultimately have "slab_free (slabs s' ! i) = Some p" using d(4) by simp
    then show ?thesis using i(1) d(3) by (simp add: mem_pool_alloc_def reuse_block_def)
  qed
  with d show ?thesis by blast
qed

text \<open>
  C9: From a fresh pool, a client that stores only inside the blocks it holds may allocate and
  free in any way, double frees and wild frees included: every call has a result, the pool stays
  consistent, and the only message is that an invalid free was detected; no block is ever handed
  out twice.  Then \<open>mem_pool_destroy\<close> returns, reports each block not freed and frees every
  block; but it leaves the free lists of the size classes as they were, so the next allocation
  from a class that had waiting blocks dereferences freed memory.
\<close>

theorem mem_pool_life:
  assumes "mp_careful rs (mem_pool_init mp_start)"
  shows "\<exists>s msgs frees. mp_run rs (mem_pool_init mp_start) = Some (s, msgs) \<and> mp_rep s frees
    \<and> all_guarded s \<and> set msgs \<subseteq> {Invalid_or_double_free}
    \<and> (\<exists>s' out. mem_pool_destroy s = Some (s', mem_pool_dump_stats s @ out)
        \<and> mem_pool_dump_leaks s = Some out \<and> mp_blocks s' = Map.empty \<and> active_blocks s' = []
        \<and> (\<forall>env sz i. slab_index sz = Some i \<and> frees i \<noteq> [] \<longrightarrow> mem_pool_alloc env sz s' = None))"
proof -
  obtain s msgs frees where s: "mp_run rs (mem_pool_init mp_start) = Some (s, msgs)" "mp_rep s frees"
    "all_guarded s" "set msgs \<subseteq> {Invalid_or_double_free}"
    using mp_careful_clients_safe [OF assms] by blast
  with mem_pool_destroy_dangles [OF s(2)] show ?thesis by blast
qed

theorem mem_pool_life_witness:
  "\<exists>s msgs s' out. mp_run [Alloc_mp \<lparr>calloc_ok = True, malloc_bytes = Some (\<lambda>_. 0), realloc_ok = True,
        call_frames = []\<rparr> 3, Free_mp (7, 16), Free_mp (0, 16), Free_mp (0, 16)]
      (mem_pool_init mp_start) = Some (s, msgs)
    \<and> all_guarded s \<and> set msgs \<subseteq> {Invalid_or_double_free}
    \<and> mem_pool_destroy s = Some (s', out) \<and> active_blocks s' = []"
proof -
  have "mp_careful [Alloc_mp \<lparr>calloc_ok = True, malloc_bytes = Some (\<lambda>_. 0), realloc_ok = True,
        call_frames = []\<rparr> 3, Free_mp (7, 16), Free_mp (0, 16), Free_mp (0, 16)] (mem_pool_init mp_start)"
    by (simp add: env_ok_def GUARD_SIZE_def split: option.split)
  from mem_pool_life [OF this] show ?thesis by (elim exE conjE) (intro exI conjI)
qed

end
