(* ===== verification/PoolPhases.thy ===== *)
theory PoolPhases
  imports Prelude
begin

text \<open>
  The two block pools with separate critical sections (versions two and three of the memory
  pool) seen from the threads that use them: the contract of the five phases of an allocation
  and a free, the worker threads of the demonstration programs as a step relation over those
  phases, and what the contract gives for every interleaving of them.
\<close>

section \<open>Where a block is\<close>

text \<open>
  \<open>Raw z\<close>: taken, its header not yet written, for \<open>z\<close> bytes; \<open>Ready\<close>: written, not yet
  listed; \<open>Listed\<close>: in use, on the active list; \<open>Out\<close>: taken off that list; \<open>Waiting i\<close>: on the
  free list of class \<open>i\<close>; \<open>Nowhere\<close>: no block.
\<close>

datatype place = Nowhere | Waiting nat | Raw size_t | Ready | Listed | Out

definition spare :: "place \<Rightarrow> bool" where
  "spare x \<longleftrightarrow> x = Nowhere \<or> (\<exists>i. x = Waiting i)"

lemma spare_simps [simp]:
  "spare Nowhere" "spare (Waiting i)" "\<not> spare (Raw z)" "\<not> spare Ready" "\<not> spare Listed" "\<not> spare Out"
  by (simp_all add: spare_def)

section \<open>The worker threads\<close>

text \<open>
  \<open>thread_func\<close> of the demonstrations: \<open>ALLOCS\<close> times, allocate between 1 and 1024 bytes and
  free them.  The argument \<open>n\<close> is the loop counter.
\<close>

definition ALLOCS :: nat where
  "ALLOCS = 1000"

definition THREADS :: nat where
  "THREADS = 4"

datatype worker =
  Idle nat
| Popped nat nat size_t
| Filled nat nat
| Holding nat nat
| Unlinked nat nat

text \<open>One phase of one worker; \<open>pop\<close> and its companions are the critical sections of a pool.\<close>

inductive worker_step ::
  "('e \<Rightarrow> size_t \<Rightarrow> 's \<Rightarrow> ('s \<times> ptr \<times> size_t) option) \<Rightarrow>
   ('e \<Rightarrow> size_t \<Rightarrow> string option \<Rightarrow> nat \<Rightarrow> 's \<Rightarrow> 's option) \<Rightarrow> (nat \<Rightarrow> 's \<Rightarrow> 's option) \<Rightarrow>
   (nat \<Rightarrow> 's \<Rightarrow> ('a + 's) option) \<Rightarrow> (nat \<Rightarrow> 's \<Rightarrow> 's option) \<Rightarrow>
   's \<times> worker list \<Rightarrow> 's \<times> worker list \<Rightarrow> bool"
  for pop fill push unlink ret where
  step_pop: "t < length ws \<Longrightarrow> ws ! t = Idle n \<Longrightarrow> n < ALLOCS \<Longrightarrow> 1 \<le> sz \<Longrightarrow> sz \<le> 1024 \<Longrightarrow>
    pop env sz s = Some (s', Some b, z) \<Longrightarrow>
    worker_step pop fill push unlink ret (s, ws) (s', ws[t := Popped n b z])"
| step_no_memory: "t < length ws \<Longrightarrow> ws ! t = Idle n \<Longrightarrow> n < ALLOCS \<Longrightarrow> 1 \<le> sz \<Longrightarrow> sz \<le> 1024 \<Longrightarrow>
    pop env sz s = Some (s', None, z) \<Longrightarrow>
    worker_step pop fill push unlink ret (s, ws) (s', ws[t := Idle (n + 1)])"
| step_fill: "t < length ws \<Longrightarrow> ws ! t = Popped n b z \<Longrightarrow>
    fill env z (Some ''worker'') b s = Some s' \<Longrightarrow>
    worker_step pop fill push unlink ret (s, ws) (s', ws[t := Filled n b])"
| step_push: "t < length ws \<Longrightarrow> ws ! t = Filled n b \<Longrightarrow> push b s = Some s' \<Longrightarrow>
    worker_step pop fill push unlink ret (s, ws) (s', ws[t := Holding n b])"
| step_unlink: "t < length ws \<Longrightarrow> ws ! t = Holding n b \<Longrightarrow> unlink b s = Some (Inr s') \<Longrightarrow>
    worker_step pop fill push unlink ret (s, ws) (s', ws[t := Unlinked n b])"
| step_ret: "t < length ws \<Longrightarrow> ws ! t = Unlinked n b \<Longrightarrow> ret b s = Some s' \<Longrightarrow>
    worker_step pop fill push unlink ret (s, ws) (s', ws[t := Idle (n + 1)])"

inductive_cases worker_stepE [elim]: "worker_step pop fill push unlink ret (s, ws) (s', ws')"

text \<open>A worker whose next phase has a defined result that is not an abort.\<close>

definition worker_safe ::
  "('e \<Rightarrow> size_t \<Rightarrow> 's \<Rightarrow> ('s \<times> ptr \<times> size_t) option) \<Rightarrow>
   ('e \<Rightarrow> size_t \<Rightarrow> string option \<Rightarrow> nat \<Rightarrow> 's \<Rightarrow> 's option) \<Rightarrow> (nat \<Rightarrow> 's \<Rightarrow> 's option) \<Rightarrow>
   (nat \<Rightarrow> 's \<Rightarrow> ('a + 's) option) \<Rightarrow> (nat \<Rightarrow> 's \<Rightarrow> 's option) \<Rightarrow> 's \<Rightarrow> worker \<Rightarrow> bool" where
  "worker_safe pop fill push unlink ret s w =
     (case w of
        Idle n \<Rightarrow> \<forall>env sz. sz \<le> 1024 \<longrightarrow> pop env sz s \<noteq> None
      | Popped n b z \<Rightarrow> \<forall>env. fill env z (Some ''worker'') b s \<noteq> None
      | Filled n b \<Rightarrow> push b s \<noteq> None
      | Holding n b \<Rightarrow> \<exists>s'. unlink b s = Some (Inr s')
      | Unlinked n b \<Rightarrow> ret b s \<noteq> None)"

text \<open>The phases a worker still has to go through.\<close>

definition work_left :: "worker \<Rightarrow> nat" where
  "work_left w =
     (case w of
        Idle n \<Rightarrow> 5 * (ALLOCS - n)
      | Popped n b z \<Rightarrow> 5 * (ALLOCS - n - 1) + 4
      | Filled n b \<Rightarrow> 5 * (ALLOCS - n - 1) + 3
      | Holding n b \<Rightarrow> 5 * (ALLOCS - n - 1) + 2
      | Unlinked n b \<Rightarrow> 5 * (ALLOCS - n - 1) + 1)"

definition total_work :: "worker list \<Rightarrow> nat" where
  "total_work ws = (\<Sum>w\<leftarrow>ws. work_left w)"

lemma total_work_update:
  "t < length ws \<Longrightarrow> total_work (ws[t := w]) + work_left (ws ! t) = total_work ws + work_left w"
  by (induction ws arbitrary: t) (auto simp: total_work_def split: nat.split)

lemma worker_step_work:
  assumes "worker_step pop fill push unlink ret (s, ws) (s', ws')"
  shows "total_work ws' < total_work ws"
proof -
  from assms obtain t w where "t < length ws" "ws' = ws[t := w]" "work_left w < work_left (ws ! t)"
    by cases (auto simp: work_left_def)
  then show ?thesis using total_work_update [of t ws w] by simp
qed

section \<open>The contract\<close>

definition place_of :: "worker \<Rightarrow> (nat \<times> place) option" where
  "place_of w =
     (case w of
        Idle n \<Rightarrow> None
      | Popped n b z \<Rightarrow> Some (b, Raw z)
      | Filled n b \<Rightarrow> Some (b, Ready)
      | Holding n b \<Rightarrow> Some (b, Listed)
      | Unlinked n b \<Rightarrow> Some (b, Out))"

text \<open>
  The workers and the pool agree: each worker's block is where the worker left it, no two
  workers share a block, and every block that is neither waiting nor gone has its worker.
\<close>

definition owns :: "worker list \<Rightarrow> nat \<Rightarrow> (nat \<times> place) option" where
  "owns ws t = (if t < length ws then place_of (ws ! t) else None)"

definition workers_agree :: "(nat \<Rightarrow> place) \<Rightarrow> (nat \<Rightarrow> (nat \<times> place) option) \<Rightarrow> bool" where
  "workers_agree pl f \<longleftrightarrow>
     (\<forall>t b x. f t = Some (b, x) \<longrightarrow> pl b = x \<and> \<not> spare x)
     \<and> (\<forall>t u b x y. f t = Some (b, x) \<longrightarrow> f u = Some (b, y) \<longrightarrow> t = u)
     \<and> (\<forall>b. \<not> spare (pl b) \<longrightarrow> (\<exists>t. f t = Some (b, pl b)))"

lemma owns_update: "t < length ws \<Longrightarrow> owns (ws[t := w]) = (owns ws)(t := place_of w)"
  by (auto simp: owns_def fun_eq_iff)

lemma place_of_simps [simp]:
  "place_of (Idle n) = None" "place_of (Popped n b z) = Some (b, Raw z)"
  "place_of (Filled n b) = Some (b, Ready)" "place_of (Holding n b) = Some (b, Listed)"
  "place_of (Unlinked n b) = Some (b, Out)"
  by (simp_all add: place_of_def)

lemma workers_agreeI:
  "(\<And>t b x. f t = Some (b, x) \<Longrightarrow> pl b = x \<and> \<not> spare x) \<Longrightarrow>
   (\<And>t u b x y. f t = Some (b, x) \<Longrightarrow> f u = Some (b, y) \<Longrightarrow> t = u) \<Longrightarrow>
   (\<And>b. \<not> spare (pl b) \<Longrightarrow> \<exists>t. f t = Some (b, pl b)) \<Longrightarrow> workers_agree pl f"
  unfolding workers_agree_def by blast

lemma workers_agreeD:
  assumes "workers_agree pl f"
  shows "f t = Some (b, x) \<Longrightarrow> pl b = x" "f t = Some (b, x) \<Longrightarrow> \<not> spare x"
    "f t = Some (b, x) \<Longrightarrow> f u = Some (b, y) \<Longrightarrow> t = u"
    "\<not> spare (pl b) \<Longrightarrow> \<exists>t. f t = Some (b, pl b)"
  using assms unfolding workers_agree_def by blast+

text \<open>A worker takes a spare block, moves its block on, or gives it up.\<close>

lemma workers_agree_take:
  assumes "workers_agree pl f" and "f t = None" and "spare (pl b)" and "\<not> spare x"
  shows "workers_agree (pl(b := x)) (f(t := Some (b, x)))"
proof (rule workers_agreeI)
  note ag = workers_agreeD [OF assms(1)]
  have nb: "c \<noteq> b" if "f u = Some (c, y)" for u c y
    using ag(1,2) [OF that] assms(3) by auto
  show "(pl(b := x)) c = y \<and> \<not> spare y" if "(f(t := Some (b, x))) u = Some (c, y)" for u c y
    using that assms(4) nb [of u c y] ag(1,2) [of u c y] by (cases "u = t") auto
  show "u = v" if "(f(t := Some (b, x))) u = Some (c, y)" "(f(t := Some (b, x))) v = Some (c, z)"
    for u v c y z
    using that nb [of u c y] nb [of v c z] ag(3) [of u c y v z]
    by (cases "u = t"; cases "v = t") auto
  show "\<exists>u. (f(t := Some (b, x))) u = Some (c, (pl(b := x)) c)" if "\<not> spare ((pl(b := x)) c)" for c
  proof (cases "c = b")
    case True
    then show ?thesis by (intro exI [of _ t]) simp
  next
    case False
    with that ag(4) [of c] obtain u where "f u = Some (c, pl c)" by auto
    with assms(2) False show ?thesis by (intro exI [of _ u]) auto
  qed
qed

lemma workers_agree_drop:
  assumes "workers_agree pl f" and "f t = Some (b, x)" and "spare y"
  shows "workers_agree (pl(b := y)) (f(t := None))"
proof (rule workers_agreeI)
  note ag = workers_agreeD [OF assms(1)]
  have nb: "c \<noteq> b" if "f u = Some (c, z)" "u \<noteq> t" for u c z
    using ag(3) [OF assms(2), of u z] that by auto
  show "(pl(b := y)) c = z \<and> \<not> spare z" if "(f(t := None)) u = Some (c, z)" for u c z
    using that nb [of u c z] ag(1,2) [of u c z] by (cases "u = t") auto
  show "u = v" if "(f(t := None)) u = Some (c, w)" "(f(t := None)) v = Some (c, z)" for u v c w z
    using that ag(3) [of u c w v z] by (cases "u = t"; cases "v = t") auto
  show "\<exists>u. (f(t := None)) u = Some (c, (pl(b := y)) c)" if "\<not> spare ((pl(b := y)) c)" for c
  proof -
    from that assms(3) have "c \<noteq> b" by auto
    with that ag(4) [of c] obtain u where "f u = Some (c, pl c)" by auto
    with assms(2) \<open>c \<noteq> b\<close> show ?thesis by (intro exI [of _ u]) auto
  qed
qed

lemma workers_agree_move:
  assumes "workers_agree pl f" and "f t = Some (b, x)" and "\<not> spare y"
  shows "workers_agree (pl(b := y)) (f(t := Some (b, y)))"
  using workers_agree_take [OF workers_agree_drop [OF assms(1,2), of Nowhere], of t b y] assms(3)
  by simp

locale pool_phases =
  fixes inv :: "'s \<Rightarrow> (nat \<Rightarrow> place) \<Rightarrow> bool"
    and pop :: "'e \<Rightarrow> size_t \<Rightarrow> 's \<Rightarrow> ('s \<times> ptr \<times> size_t) option"
    and fill :: "'e \<Rightarrow> size_t \<Rightarrow> string option \<Rightarrow> nat \<Rightarrow> 's \<Rightarrow> 's option"
    and push :: "nat \<Rightarrow> 's \<Rightarrow> 's option"
    and unlink :: "nat \<Rightarrow> 's \<Rightarrow> ('a + 's) option"
    and ret :: "nat \<Rightarrow> 's \<Rightarrow> 's option"
  assumes pop_ok: "inv s pl \<Longrightarrow> sz \<le> 1024 \<Longrightarrow>
        \<exists>s' r z. pop env sz s = Some (s', r, z)
          \<and> (case r of None \<Rightarrow> inv s' pl | Some b \<Rightarrow> spare (pl b) \<and> inv s' (pl(b := Raw z)))"
    and fill_ok: "inv s pl \<Longrightarrow> pl b = Raw z \<Longrightarrow>
        \<exists>s'. fill env z label b s = Some s' \<and> inv s' (pl(b := Ready))"
    and push_ok: "inv s pl \<Longrightarrow> pl b = Ready \<Longrightarrow> \<exists>s'. push b s = Some s' \<and> inv s' (pl(b := Listed))"
    and unlink_ok: "inv s pl \<Longrightarrow> pl b = Listed \<Longrightarrow>
        \<exists>s'. unlink b s = Some (Inr s') \<and> inv s' (pl(b := Out))"
    and ret_ok: "inv s pl \<Longrightarrow> pl b = Out \<Longrightarrow>
        \<exists>s' x. ret b s = Some s' \<and> spare x \<and> inv s' (pl(b := x))"
begin

definition workers_inv :: "'s \<Rightarrow> worker list \<Rightarrow> bool" where
  "workers_inv s ws \<longleftrightarrow> (\<exists>pl. inv s pl \<and> workers_agree pl (owns ws))"

lemma workers_inv_safe:
  assumes "workers_inv s ws" and "t < length ws"
  shows "worker_safe pop fill push unlink ret s (ws ! t)"
proof -
  from assms obtain pl where pl: "inv s pl" "workers_agree pl (owns ws)" by (auto simp: workers_inv_def)
  have o: "pl b = x" if "place_of (ws ! t) = Some (b, x)" for b x
    using workers_agreeD(1) [OF pl(2), of t b x] that assms(2) by (simp add: owns_def)
  show ?thesis
  proof (cases "ws ! t")
    case (Idle n)
    then show ?thesis using pop_ok [OF pl(1)] by (fastforce simp: worker_safe_def)
  next
    case (Popped n b z)
    then show ?thesis using fill_ok [OF pl(1), of b z] o by (fastforce simp: worker_safe_def)
  next
    case (Filled n b)
    then show ?thesis using push_ok [OF pl(1), of b] o by (fastforce simp: worker_safe_def)
  next
    case (Holding n b)
    then show ?thesis using unlink_ok [OF pl(1), of b] o by (fastforce simp: worker_safe_def)
  next
    case (Unlinked n b)
    then show ?thesis using ret_ok [OF pl(1), of b] o by (fastforce simp: worker_safe_def)
  qed
qed

lemma workers_inv_step:
  assumes "worker_step pop fill push unlink ret (s, ws) (s', ws')" and "workers_inv s ws"
  shows "workers_inv s' ws'"
proof -
  from assms(2) obtain pl where pl: "inv s pl" "workers_agree pl (owns ws)" by (auto simp: workers_inv_def)
  have o: "pl b = x" if "t < length ws" "place_of (ws ! t) = Some (b, x)" for t b x
    using workers_agreeD(1) [OF pl(2), of t b x] that by (simp add: owns_def)
  have ow: "owns ws t = place_of (ws ! t)" if "t < length ws" for t using that by (simp add: owns_def)
  from assms(1) show ?thesis
  proof cases
    case (step_pop t n sz env b z)
    from pop_ok [OF pl(1) step_pop(6), of env] step_pop(7) have
      b: "spare (pl b)" "inv s' (pl(b := Raw z))" by auto
    have "workers_agree (pl(b := Raw z)) (owns ws')"
      unfolding step_pop(1) owns_update [OF step_pop(2)] place_of_simps
      by (rule workers_agree_take [OF pl(2) _ b(1)]) (simp_all add: ow step_pop)
    with b(2) show ?thesis by (auto simp: workers_inv_def)
  next
    case (step_no_memory t n sz env z)
    from pop_ok [OF pl(1) step_no_memory(6), of env] step_no_memory(7) have "inv s' pl" by auto
    moreover have "(owns ws)(t := None) = owns ws" using step_no_memory by (simp add: ow fun_upd_idem_iff)
    ultimately show ?thesis
      using pl(2) unfolding step_no_memory(1) workers_inv_def owns_update [OF step_no_memory(2)] place_of_simps
      by auto
  next
    case (step_fill t n b z env)
    have b: "pl b = Raw z" using o [OF step_fill(2), of b "Raw z"] step_fill(3) by simp
    from fill_ok [OF pl(1) b] step_fill(4) have i: "inv s' (pl(b := Ready))" by (metis option.inject)
    have "workers_agree (pl(b := Ready)) (owns ws')"
      unfolding step_fill(1) owns_update [OF step_fill(2)] place_of_simps
      by (rule workers_agree_move [OF pl(2), of _ _ "Raw z"]) (simp_all add: ow step_fill)
    with i show ?thesis by (auto simp: workers_inv_def)
  next
    case (step_push t n b)
    have b: "pl b = Ready" using o [OF step_push(2), of b Ready] step_push(3) by simp
    from push_ok [OF pl(1) b] step_push(4) have i: "inv s' (pl(b := Listed))" by (metis option.inject)
    have "workers_agree (pl(b := Listed)) (owns ws')"
      unfolding step_push(1) owns_update [OF step_push(2)] place_of_simps
      by (rule workers_agree_move [OF pl(2), of _ _ Ready]) (simp_all add: ow step_push)
    with i show ?thesis by (auto simp: workers_inv_def)
  next
    case (step_unlink t n b)
    have b: "pl b = Listed" using o [OF step_unlink(2), of b Listed] step_unlink(3) by simp
    from unlink_ok [OF pl(1) b] step_unlink(4) have i: "inv s' (pl(b := Out))" by auto
    have "workers_agree (pl(b := Out)) (owns ws')"
      unfolding step_unlink(1) owns_update [OF step_unlink(2)] place_of_simps
      by (rule workers_agree_move [OF pl(2), of _ _ Listed]) (simp_all add: ow step_unlink)
    with i show ?thesis by (auto simp: workers_inv_def)
  next
    case (step_ret t n b)
    have b: "pl b = Out" using o [OF step_ret(2), of b Out] step_ret(3) by simp
    from ret_ok [OF pl(1) b] step_ret(4) obtain x where i: "spare x" "inv s' (pl(b := x))" by auto
    have "workers_agree (pl(b := x)) (owns ws')"
      unfolding step_ret(1) owns_update [OF step_ret(2)] place_of_simps
      by (rule workers_agree_drop [OF pl(2), of _ _ Out]) (simp_all add: ow step_ret i(1))
    with i(2) show ?thesis by (auto simp: workers_inv_def)
  qed
qed

text \<open>Workers that start in a pool where nothing is in use never go wrong.\<close>

lemma workers_inv_start:
  "inv s pl \<Longrightarrow> \<forall>b. spare (pl b) \<Longrightarrow> workers_inv s (replicate k (Idle 0))"
  unfolding workers_inv_def by (intro exI [of _ pl]) (auto simp: workers_agree_def owns_def)

lemma workers_reachable:
  assumes "(worker_step pop fill push unlink ret)\<^sup>*\<^sup>* (s, ws) (s', ws')" and "workers_inv s ws"
  shows "workers_inv s' ws' \<and> (\<forall>t < length ws'. worker_safe pop fill push unlink ret s' (ws' ! t))"
proof -
  have "workers_inv (fst y) (snd y)" if "(worker_step pop fill push unlink ret)\<^sup>*\<^sup>* (s, ws) y" for y
    using that
  proof (induction rule: rtranclp_induct)
    case base
    then show ?case using assms(2) by simp
  next
    case (step y z)
    then show ?case using workers_inv_step by (cases y, cases z) fastforce
  qed
  from this [OF assms(1)] show ?thesis using workers_inv_safe by auto
qed

text \<open>When no worker can go on, all have finished, and no block is in use.\<close>

lemma workers_stuck:
  assumes "workers_inv s ws" and "\<And>y. \<not> worker_step pop fill push unlink ret (s, ws) y" and "w \<in> set ws"
  shows "\<exists>n \<ge> ALLOCS. w = Idle n"
proof -
  from assms(3) obtain t where t: "t < length ws" "ws ! t = w" by (auto simp: in_set_conv_nth)
  have safe: "worker_safe pop fill push unlink ret s w" using workers_inv_safe [OF assms(1) t(1)] t(2) by simp
  show ?thesis
  proof (cases w)
    case (Idle n)
    have "\<not> n < ALLOCS"
    proof
      assume n: "n < ALLOCS"
      from safe Idle have "pop undefined 1 s \<noteq> None" by (simp add: worker_safe_def)
      then obtain s' r z where p: "pop undefined 1 s = Some (s', r, z)" by auto
      show False
      proof (cases r)
        case None
        have "worker_step pop fill push unlink ret (s, ws) (s', ws[t := Idle (n + 1)])"
          by (rule step_no_memory [where env = undefined and z = z and sz = 1, OF t(1) _ n]) (simp_all add: t(2) Idle p None)
        with assms(2) show ?thesis by blast
      next
        case (Some b)
        have "worker_step pop fill push unlink ret (s, ws) (s', ws[t := Popped n b z])"
          by (rule step_pop [where env = undefined and sz = 1, OF t(1) _ n]) (simp_all add: t(2) Idle p Some)
        with assms(2) show ?thesis by blast
      qed
    qed
    with Idle show ?thesis by simp
  next
    case (Popped n b z)
    with safe have "fill undefined z (Some ''worker'') b s \<noteq> None" by (simp add: worker_safe_def)
    then obtain s' where "fill undefined z (Some ''worker'') b s = Some s'" by blast
    then have "worker_step pop fill push unlink ret (s, ws) (s', ws[t := Filled n b])"
      by (intro step_fill [where env = undefined and z = z, OF t(1)]) (simp_all add: t(2) Popped)
    with assms(2) show ?thesis by blast
  next
    case (Filled n b)
    with safe have "push b s \<noteq> None" by (simp add: worker_safe_def)
    then obtain s' where "push b s = Some s'" by blast
    then have "worker_step pop fill push unlink ret (s, ws) (s', ws[t := Holding n b])"
      by (intro step_push [OF t(1)]) (simp_all add: t(2) Filled)
    with assms(2) show ?thesis by blast
  next
    case (Holding n b)
    with safe have "\<exists>s'. unlink b s = Some (Inr s')" by (simp add: worker_safe_def)
    then obtain s' where "unlink b s = Some (Inr s')" by blast
    then have "worker_step pop fill push unlink ret (s, ws) (s', ws[t := Unlinked n b])"
      by (intro step_unlink [OF t(1)]) (simp_all add: t(2) Holding)
    with assms(2) show ?thesis by blast
  next
    case (Unlinked n b)
    with safe have "ret b s \<noteq> None" by (simp add: worker_safe_def)
    then obtain s' where "ret b s = Some s'" by blast
    then have "worker_step pop fill push unlink ret (s, ws) (s', ws[t := Idle (n + 1)])"
      by (intro step_ret [OF t(1)]) (simp_all add: t(2) Unlinked)
    with assms(2) show ?thesis by blast
  qed
qed

lemma workers_done:
  assumes "workers_inv s ws" and "\<forall>w \<in> set ws. \<exists>n. w = Idle n"
  shows "\<exists>pl. inv s pl \<and> (\<forall>b. spare (pl b))"
proof -
  have "\<exists>n. ws ! t = Idle n" if "t < length ws" for t using assms(2) that by (metis nth_mem)
  then have "owns ws t = None" for t by (fastforce simp: owns_def)
  with assms(1) show ?thesis by (fastforce simp: workers_inv_def workers_agree_def)
qed

end

text \<open>However the workers are scheduled, they finish within five phases per round.\<close>

lemma worker_steps_bound:
  assumes "(worker_step pop fill push unlink ret ^^ k) (s, ws) (s', ws')"
  shows "k + total_work ws' \<le> total_work ws"
  using assms
proof (induction k arbitrary: s' ws')
  case 0
  then show ?case by simp
next
  case (Suc k)
  then obtain t vs where "(worker_step pop fill push unlink ret ^^ k) (s, ws) (t, vs)"
    "worker_step pop fill push unlink ret (t, vs) (s', ws')" by (auto elim!: relpowp_Suc_E)
  with Suc.IH worker_step_work show ?case by fastforce
qed

lemma worker_runs_end:
  "\<exists>k s' ws'. (worker_step pop fill push unlink ret ^^ k) (s, ws) (s', ws')
     \<and> (\<forall>y. \<not> worker_step pop fill push unlink ret (s', ws') y)"
proof (induction "total_work ws" arbitrary: s ws rule: less_induct)
  case less
  show ?case
  proof (cases "\<exists>t vs. worker_step pop fill push unlink ret (s, ws) (t, vs)")
    case True
    then obtain t vs where st: "worker_step pop fill push unlink ret (s, ws) (t, vs)" by blast
    from less [OF worker_step_work [OF st], of t] obtain k s' ws' where
      k: "(worker_step pop fill push unlink ret ^^ k) (t, vs) (s', ws')"
      "\<forall>y. \<not> worker_step pop fill push unlink ret (s', ws') y" by blast
    from relpowp_Suc_I2 [where P = "worker_step pop fill push unlink ret", OF st k(1)] k(2)
    show ?thesis by blast
  next
    case False
    then have "\<forall>y. \<not> worker_step pop fill push unlink ret (s, ws) y" by simp
    then show ?thesis by (intro exI [of _ 0] exI [of _ s] exI [of _ ws]) simp
  qed
qed

lemma total_work_start: "total_work (replicate k (Idle 0)) = 5 * ALLOCS * k"
  by (induction k) (simp_all add: total_work_def work_left_def)

end
