(* ===== verification/MemPoolUpgrade.thy ===== *)
theory MemPoolUpgrade
  imports PointerList PoolPhases
begin

text \<open>
  The second memory pool (\<open>15.memory_allocation/2.mem_pool_c/2.upgrade\<close>): each block is one
  buffer of the C library with a header in front of the user's bytes; a block carries a guard
  word in its header and one at the end of its bytes, blocks in use hang in one list, free ones
  in a list per size class.  The operations take their locks for parts of their bodies only, so
  every critical section is a definition of its own: the steps of \<open>mem_pool_alloc_label\<close> are
  \<open>alloc_pop\<close>, \<open>alloc_fill\<close> and \<open>alloc_push\<close>, those of \<open>mem_pool_free\<close> are \<open>free_unlink\<close> and
  \<open>free_return\<close>.
\<close>

section \<open>Data\<close>

definition PROTECT_MAGIC :: uint64_t where
  "PROTECT_MAGIC = 0xDEADC0DEDEADC0DE"

definition TAIL_MAGIC :: uint64_t where
  "TAIL_MAGIC = 0xCAFEBABECAFEBABE"

definition MAX_CALLSTACK :: nat where
  "MAX_CALLSTACK = 16"

definition MAX_LABEL_LEN :: nat where
  "MAX_LABEL_LEN = 32"

definition MAX_SLAB_CLASSES :: nat where
  "MAX_SLAB_CLASSES = 32"

definition SLAB_MIN_SIZE :: size_t where
  "SLAB_MIN_SIZE = 8"

definition SLAB_MAX_SIZE :: size_t where
  "SLAB_MAX_SIZE = 8192"

text \<open>
  A block is named by a number, and so is the pointer to its user's bytes, which lies at the
  fixed distance \<open>sizeof(MemBlock)\<close> behind the header; \<open>payload\<close> holds the bytes from there to
  the end of the buffer.  The label is the string up to its terminating zero.
\<close>

record MemBlock =
  mb_size :: size_t
  mb_freed :: bool
  mb_label :: string
  mb_real :: nat
  mb_next :: ptr
  mb_frames :: "nat list"
  mb_time :: nat
  guard_head :: uint64_t
  payload :: "uchar list"

definition sizeof_MemBlock :: size_t where
  "sizeof_MemBlock = 216"

record SlabClass =
  block_size :: size_t
  class_free :: ptr

record mpu_state =
  slab_sizes :: "size_t list"
  slab_class_count :: nat
  slab_classes :: "SlabClass list"
  active_list :: ptr
  debug_mode :: bool
  protect_mode :: bool
  mpu_mem :: "nat \<rightharpoonup> MemBlock"
  mpu_fresh :: nat

text \<open>
  What the C library answers during an allocation: the bytes of the buffer that \<open>malloc\<close> gives
  (if it gives one), the time, and the frames \<open>backtrace\<close> finds.
\<close>

record mpu_env =
  heap_bytes :: "(nat \<Rightarrow> uchar) option"
  now :: nat
  stack_frames :: "nat list"

text \<open>The messages before \<open>abort()\<close>.\<close>

datatype abort_reason = Double_free nat | Buffer_underrun nat string | Buffer_overflow nat string

section \<open>Operations\<close>

definition mpu_start :: mpu_state where
  "mpu_start = \<lparr>
     slab_sizes = replicate MAX_SLAB_CLASSES 0, slab_class_count = 0,
     slab_classes = replicate MAX_SLAB_CLASSES \<lparr>block_size = 0, class_free = None\<rparr>,
     active_list = None, debug_mode = False, protect_mode = True, mpu_mem = Map.empty, mpu_fresh = 0\<rparr>"

function init_slab_loop :: "nat \<Rightarrow> size_t \<Rightarrow> mpu_state \<Rightarrow> mpu_state" where
  "init_slab_loop i sz s =
     (if i < MAX_SLAB_CLASSES \<and> sz \<le> SLAB_MAX_SIZE
      then init_slab_loop (i + 1) (sz * 2)
             (s\<lparr>slab_sizes := (slab_sizes s)[i := sz],
                slab_classes := (slab_classes s)[i := (slab_classes s ! i)\<lparr>block_size := sz\<rparr>],
                slab_class_count := slab_class_count s + 1\<rparr>)
      else s)"
  by pat_completeness auto
termination
  by (relation "measure (\<lambda>(i, sz, s). MAX_SLAB_CLASSES - i)") auto

definition mpu_init :: "mpu_state \<Rightarrow> mpu_state" where
  "mpu_init s = init_slab_loop 0 SLAB_MIN_SIZE s"

text \<open>Outside the array the loop reads foreign memory: no result.\<close>

function find_slab_loop :: "mpu_state \<Rightarrow> size_t \<Rightarrow> nat \<Rightarrow> ptr option" where
  "find_slab_loop s sz i =
     (if i < slab_class_count s
      then if i < length (slab_sizes s)
           then if sz \<le> slab_sizes s ! i then Some (Some i) else find_slab_loop s sz (i + 1)
           else None
      else Some None)"
  by pat_completeness auto
termination
  by (relation "measure (\<lambda>(s, sz, i). slab_class_count s - i)") auto

definition find_slab_index :: "size_t \<Rightarrow> mpu_state \<Rightarrow> ptr option" where
  "find_slab_index sz s = find_slab_loop s sz 0"

definition mpu_set_debug :: "int \<Rightarrow> mpu_state \<Rightarrow> mpu_state" where
  "mpu_set_debug enabled s = s\<lparr>debug_mode := (enabled \<noteq> 0)\<rparr>"

definition mpu_set_protection :: "int \<Rightarrow> mpu_state \<Rightarrow> mpu_state" where
  "mpu_set_protection enabled s = s\<lparr>protect_mode := (enabled \<noteq> 0)\<rparr>"

text \<open>A word of eight bytes as it lies in memory, the low byte first.\<close>

definition le64 :: "uint64_t \<Rightarrow> uchar list" where
  "le64 w = map (\<lambda>k. ucast (drop_bit (8 * k) w)) [0..<8]"

text \<open>The two ways to a block: from the list of its class, or a new buffer.\<close>

definition pop_class :: "nat \<Rightarrow> nat \<Rightarrow> mpu_state \<Rightarrow> mpu_state option" where
  "pop_class i b s =
     map_option (\<lambda>blk. s\<lparr>slab_classes := (slab_classes s)[i := (slab_classes s ! i)\<lparr>class_free := mb_next blk\<rparr>]\<rparr>)
       (mpu_mem s b)"

definition new_buffer :: "mpu_env \<Rightarrow> size_t \<Rightarrow> mpu_state \<Rightarrow> (mpu_state \<times> ptr) option" where
  "new_buffer env total_size s =
     (case heap_bytes env of
        None \<Rightarrow> Some (s, None)
      | Some junk \<Rightarrow>
          if total_size \<ge> sizeof_MemBlock
          then Some (s\<lparr>mpu_mem := (mpu_mem s)(mpu_fresh s \<mapsto>
                         \<lparr>mb_size = 0, mb_freed = False, mb_label = [], mb_real = 0, mb_next = None,
                          mb_frames = [], mb_time = 0, guard_head = 0,
                          payload = map junk [0..<unat (total_size - sizeof_MemBlock)]\<rparr>),
                       mpu_fresh := mpu_fresh s + 1\<rparr>, Some (mpu_fresh s))
          else None)"

definition alloc_pop :: "mpu_env \<Rightarrow> size_t \<Rightarrow> mpu_state \<Rightarrow> (mpu_state \<times> ptr \<times> size_t) option" where
  "alloc_pop env sz s = do {
     idx \<leftarrow> find_slab_index sz s;
     let actual_size = (case idx of Some i \<Rightarrow> block_size (slab_classes s ! i) | None \<Rightarrow> sz);
     let total_size = sizeof_MemBlock + actual_size + (if protect_mode s then 8 else 0);
     (s1, raw) \<leftarrow> (case idx of
                    None \<Rightarrow> new_buffer env total_size s
                  | Some i \<Rightarrow> (case class_free (slab_classes s ! i) of
                       Some b \<Rightarrow> map_option (\<lambda>s1. (s1, Some b)) (pop_class i b s)
                     | None \<Rightarrow> new_buffer env total_size s));
     Some (s1, raw, actual_size)
   }"

definition copy_label :: "string option \<Rightarrow> string" where
  "copy_label label = take (MAX_LABEL_LEN - 1) (case label of Some l \<Rightarrow> l | None \<Rightarrow> ''unknown'')"

definition alloc_fill ::
  "mpu_env \<Rightarrow> size_t \<Rightarrow> string option \<Rightarrow> nat \<Rightarrow> mpu_state \<Rightarrow> mpu_state option" where
  "alloc_fill env actual_size label raw s = do {
     blk \<leftarrow> mpu_mem s raw;
     let blk1 = blk\<lparr>mb_size := actual_size, mb_real := raw, mb_freed := False, mb_time := now env,
                    mb_frames := (if debug_mode s then take MAX_CALLSTACK (stack_frames env) else []),
                    guard_head := (if protect_mode s then PROTECT_MAGIC else 0),
                    mb_label := copy_label label\<rparr>;
     bytes \<leftarrow> (if protect_mode s
              then if unat actual_size < 8 then None
                   else write_bytes (payload blk1) (unat actual_size - 8) (le64 TAIL_MAGIC)
              else Some (payload blk1));
     Some (s\<lparr>mpu_mem := (mpu_mem s)(raw \<mapsto> blk1\<lparr>payload := bytes\<rparr>)\<rparr>)
   }"

definition alloc_push :: "nat \<Rightarrow> mpu_state \<Rightarrow> mpu_state option" where
  "alloc_push raw s =
     map_option (\<lambda>blk. s\<lparr>mpu_mem := (mpu_mem s)(raw \<mapsto> blk\<lparr>mb_next := active_list s\<rparr>),
                          active_list := Some raw\<rparr>) (mpu_mem s raw)"

definition mem_pool_alloc_label ::
  "mpu_env \<Rightarrow> size_t \<Rightarrow> string option \<Rightarrow> mpu_state \<Rightarrow> (mpu_state \<times> ptr) option" where
  "mem_pool_alloc_label env sz label s = do {
     (s1, raw, actual_size) \<leftarrow> alloc_pop env sz s;
     (case raw of
        None \<Rightarrow> Some (s1, None)
      | Some b \<Rightarrow> do {
          s2 \<leftarrow> alloc_fill env actual_size label b s1;
          s3 \<leftarrow> alloc_push b s2;
          Some (s3, Some b)
        })
   }"

definition mpu_alloc :: "mpu_env \<Rightarrow> size_t \<Rightarrow> mpu_state \<Rightarrow> (mpu_state \<times> ptr) option" where
  "mpu_alloc env sz s = mem_pool_alloc_label env sz None s"

text \<open>
  The search with a pointer to the link: \<open>prev\<close> is the block whose \<open>next\<close> is the link, none
  for \<open>active_list\<close> itself.
\<close>

partial_function (option) unlink_active ::
  "(nat \<rightharpoonup> MemBlock) \<Rightarrow> ptr \<Rightarrow> ptr \<Rightarrow> ptr \<Rightarrow> nat \<Rightarrow> ((nat \<rightharpoonup> MemBlock) \<times> ptr) option" where
  "unlink_active m head prev cur b =
     (case cur of
        None \<Rightarrow> Some (m, head)
      | Some c \<Rightarrow> Option.bind (m c) (\<lambda>cb.
          if c = b
          then case prev of
                 None \<Rightarrow> Some (m, mb_next cb)
               | Some q \<Rightarrow> map_option (\<lambda>qb. (m(q \<mapsto> qb\<lparr>mb_next := mb_next cb\<rparr>), head)) (m q)
          else unlink_active m head (Some c) (mb_next cb) b))"

definition free_unlink :: "nat \<Rightarrow> mpu_state \<Rightarrow> (abort_reason + mpu_state) option" where
  "free_unlink b s = do {
     blk \<leftarrow> mpu_mem s b;
     if mb_freed blk then Some (Inl (Double_free b))
     else if protect_mode s \<and> guard_head blk \<noteq> PROTECT_MAGIC
     then Some (Inl (Buffer_underrun b (mb_label blk)))
     else do {
       tail_ok \<leftarrow> (if protect_mode s
                  then if unat (mb_size blk) < 8 then None
                       else map_option (\<lambda>t. t = le64 TAIL_MAGIC)
                              (read_bytes (payload blk) (unat (mb_size blk) - 8) 8)
                  else Some True);
       if \<not> tail_ok then Some (Inl (Buffer_overflow b (mb_label blk)))
       else do {
         let m1 = (mpu_mem s)(b \<mapsto> blk\<lparr>mb_freed := True\<rparr>);
         (m2, head) \<leftarrow> unlink_active m1 (active_list s) None (active_list s) b;
         Some (Inr (s\<lparr>mpu_mem := m2, active_list := head\<rparr>))
       }
     }
   }"

definition free_return :: "nat \<Rightarrow> mpu_state \<Rightarrow> mpu_state option" where
  "free_return b s = do {
     blk \<leftarrow> mpu_mem s b;
     idx \<leftarrow> find_slab_index (mb_size blk) s;
     (case idx of
        Some i \<Rightarrow>
          Some (s\<lparr>mpu_mem := (mpu_mem s)(b \<mapsto> blk\<lparr>mb_next := class_free (slab_classes s ! i)\<rparr>),
                  slab_classes := (slab_classes s)[i := (slab_classes s ! i)\<lparr>class_free := Some b\<rparr>]\<rparr>)
      | None \<Rightarrow> Some (s\<lparr>mpu_mem := (mpu_mem s)(mb_real blk := None)\<rparr>))
   }"

definition mpu_free :: "ptr \<Rightarrow> mpu_state \<Rightarrow> (abort_reason + mpu_state) option" where
  "mpu_free pt s =
     (case pt of
        None \<Rightarrow> Some (Inr s)
      | Some b \<Rightarrow> do {
          r \<leftarrow> free_unlink b s;
          (case r of
             Inl why \<Rightarrow> Some (Inl why)
           | Inr s1 \<Rightarrow> map_option Inr (free_return b s1))
        })"

text \<open>The walks over the active list that print it: count and bytes, and the leak lines.\<close>

partial_function (option) stats_loop :: "(nat \<rightharpoonup> MemBlock) \<Rightarrow> ptr \<Rightarrow> nat \<Rightarrow> size_t \<Rightarrow> (nat \<times> size_t) option" where
  "stats_loop m cur n bytes =
     (case cur of
        None \<Rightarrow> Some (n, bytes)
      | Some c \<Rightarrow> Option.bind (m c) (\<lambda>blk.
          if mb_freed blk then stats_loop m (mb_next blk) n bytes
          else stats_loop m (mb_next blk) (n + 1) (bytes + mb_size blk)))"

definition mpu_dump_stats :: "mpu_state \<Rightarrow> (nat \<times> size_t) option" where
  "mpu_dump_stats s = stats_loop (mpu_mem s) (active_list s) 0 0"

datatype leak_line = Leak_line nat size_t string nat "nat list"

partial_function (option) leaks_loop :: "bool \<Rightarrow> (nat \<rightharpoonup> MemBlock) \<Rightarrow> ptr \<Rightarrow> leak_line list option" where
  "leaks_loop dbg m cur =
     (case cur of
        None \<Rightarrow> Some []
      | Some c \<Rightarrow> Option.bind (m c) (\<lambda>blk.
          Option.bind (leaks_loop dbg m (mb_next blk)) (\<lambda>out.
            Some ((if mb_freed blk then []
                   else [Leak_line c (mb_size blk) (mb_label blk) (mb_time blk)
                           (if dbg then mb_frames blk else [])]) @ out))))"

text \<open>The empty result is printed as "No memory leaks detected".\<close>

definition mpu_dump_leaks :: "mpu_state \<Rightarrow> leak_line list option" where
  "mpu_dump_leaks s = leaks_loop (debug_mode s) (mpu_mem s) (active_list s)"

partial_function (option) release_chain :: "ptr \<Rightarrow> (nat \<rightharpoonup> MemBlock) \<Rightarrow> (nat \<rightharpoonup> MemBlock) option" where
  "release_chain cur m =
     (case cur of
        None \<Rightarrow> Some m
      | Some c \<Rightarrow> Option.bind (m c) (\<lambda>blk. release_chain (mb_next blk) (m(mb_real blk := None))))"

fun release_chains :: "ptr list \<Rightarrow> (nat \<rightharpoonup> MemBlock) \<Rightarrow> (nat \<rightharpoonup> MemBlock) option" where
  "release_chains [] m = Some m"
| "release_chains (c # cs) m = Option.bind (release_chain c m) (release_chains cs)"

definition mpu_destroy :: "mpu_state \<Rightarrow> mpu_state option" where
  "mpu_destroy s = do {
     m1 \<leftarrow> release_chains (map class_free (take (slab_class_count s) (slab_classes s))) (mpu_mem s);
     m2 \<leftarrow> release_chain (active_list s) m1;
     Some (s\<lparr>mpu_mem := m2, active_list := None\<rparr>)
   }"

text \<open>A client's store through a pointer it holds.\<close>

definition mpu_store :: "nat \<Rightarrow> nat \<Rightarrow> uchar list \<Rightarrow> mpu_state \<Rightarrow> mpu_state option" where
  "mpu_store b off bs s = do {
     blk \<leftarrow> mpu_mem s b;
     bytes \<leftarrow> write_bytes (payload blk) off bs;
     Some (s\<lparr>mpu_mem := (mpu_mem s)(b \<mapsto> blk\<lparr>payload := bytes\<rparr>)\<rparr>)
   }"

declare init_slab_loop.simps [simp del] find_slab_loop.simps [simp del]

section \<open>Size classes\<close>

definition class_sizes :: "size_t list" where
  "class_sizes = [8, 16, 32, 64, 128, 256, 512, 1024, 2048, 4096, 8192]"

definition tables_ok :: "mpu_state \<Rightarrow> bool" where
  "tables_ok s \<longleftrightarrow> slab_class_count s = length class_sizes
     \<and> length (slab_sizes s) = MAX_SLAB_CLASSES \<and> take (length class_sizes) (slab_sizes s) = class_sizes
     \<and> length (slab_classes s) = MAX_SLAB_CLASSES
     \<and> map block_size (take (length class_sizes) (slab_classes s)) = class_sizes"

text \<open>The class of a size: the first limit that is large enough.\<close>

definition class_index :: "size_t \<Rightarrow> ptr" where
  "class_index sz =
     List.find (\<lambda>i. sz \<le> class_sizes ! i) [0..<length class_sizes]"


lemma length_class_sizes: "length class_sizes = 11"
  by (simp add: class_sizes_def)

lemma tables_ok_init: "tables_ok (mpu_init mpu_start)"
  by (simp add: tables_ok_def mpu_init_def mpu_start_def init_slab_loop.simps class_sizes_def
      MAX_SLAB_CLASSES_def SLAB_MIN_SIZE_def SLAB_MAX_SIZE_def)

lemma class_index_cases:
  "class_index sz =
     (if sz \<le> 8 then Some 0 else if sz \<le> 16 then Some 1 else if sz \<le> 32 then Some 2
      else if sz \<le> 64 then Some 3 else if sz \<le> 128 then Some 4 else if sz \<le> 256 then Some 5
      else if sz \<le> 512 then Some 6 else if sz \<le> 1024 then Some 7 else if sz \<le> 2048 then Some 8
      else if sz \<le> 4096 then Some 9 else if sz \<le> 8192 then Some 10 else None)"
  by (simp add: class_index_def class_sizes_def upt_conv_Cons)

lemma find_slab_loop_tables:
  assumes "tables_ok s" and "i \<le> 11"
  shows "find_slab_loop s sz i = Some (List.find (\<lambda>i. sz \<le> class_sizes ! i) [i..<11])"
  using assms(2)
proof (induction "11 - i" arbitrary: i)
  case 0
  with assms(1) show ?case
    by (simp add: find_slab_loop.simps tables_ok_def length_class_sizes)
next
  case (Suc k)
  then have i: "i < 11" by simp
  have c: "slab_class_count s = 11" "length (slab_sizes s) = 32"
    using assms(1) by (simp_all add: tables_ok_def length_class_sizes MAX_SLAB_CLASSES_def)
  have "take 11 (slab_sizes s) ! i = class_sizes ! i"
    using assms(1) by (simp add: tables_ok_def length_class_sizes)
  then have "slab_sizes s ! i = class_sizes ! i" using i by simp
  then show ?case
    using Suc.hyps(1) [of "i + 1"] Suc.hyps(2) i c
    by (simp add: find_slab_loop.simps [of s sz i] upt_conv_Cons)
qed

lemma find_slab_index_tables: "tables_ok s \<Longrightarrow> find_slab_index sz s = Some (class_index sz)"
  by (simp add: find_slab_index_def find_slab_loop_tables class_index_def length_class_sizes)

section \<open>Invariant\<close>

definition proper_size :: "size_t \<Rightarrow> bool" where
  "proper_size z \<longleftrightarrow> 8 \<le> z \<and> (\<forall>i. class_index z = Some i \<longrightarrow> class_sizes ! i = z)"

definition fits :: "size_t \<Rightarrow> MemBlock \<Rightarrow> bool" where
  "fits z b \<longleftrightarrow> proper_size z \<and> unat z \<le> length (payload b)"

text \<open>A block as its user may give it back: not freed, with both guard words when they count.\<close>

definition tail_intact :: "MemBlock \<Rightarrow> bool" where
  "tail_intact b \<longleftrightarrow> read_bytes (payload b) (unat (mb_size b) - 8) 8 = Some (le64 TAIL_MAGIC)"

definition guarded :: "bool \<Rightarrow> MemBlock \<Rightarrow> bool" where
  "guarded protect b \<longleftrightarrow> \<not> mb_freed b \<and> fits (mb_size b) b
     \<and> (protect \<longrightarrow> guard_head b = PROTECT_MAGIC \<and> tail_intact b)"

definition block_ok :: "bool \<Rightarrow> place \<Rightarrow> nat \<Rightarrow> MemBlock \<Rightarrow> bool" where
  "block_ok protect x p b =
     (case x of
        Nowhere \<Rightarrow> False
      | Waiting i \<Rightarrow> i < length class_sizes \<and> fits (class_sizes ! i) b \<and> mb_freed b \<and> mb_real b = p
      | Raw z \<Rightarrow> fits z b
      | Ready \<Rightarrow> guarded protect b \<and> mb_real b = p
      | Listed \<Rightarrow> guarded protect b \<and> mb_real b = p
      | Out \<Rightarrow> fits (mb_size b) b \<and> mb_freed b \<and> mb_real b = p)"

definition nx_of :: "(nat \<rightharpoonup> MemBlock) \<Rightarrow> nat \<rightharpoonup> ptr" where
  "nx_of m = (\<lambda>p. map_option mb_next (m p))"

definition lists_at :: "(nat \<rightharpoonup> MemBlock) \<Rightarrow> ptr \<Rightarrow> nat set \<Rightarrow> bool" where
  "lists_at m c S \<longleftrightarrow> (\<exists>ps. stack (nx_of m) c ps \<and> set ps = S)"

definition mpu_inv :: "mpu_state \<Rightarrow> (nat \<Rightarrow> place) \<Rightarrow> bool" where
  "mpu_inv s pl \<longleftrightarrow> tables_ok s
     \<and> lists_at (mpu_mem s) (active_list s) {p. pl p = Listed}
     \<and> (\<forall>i < length class_sizes. lists_at (mpu_mem s) (class_free (slab_classes s ! i)) {p. pl p = Waiting i})
     \<and> (\<forall>p. pl p = Nowhere \<longleftrightarrow> mpu_mem s p = None)
     \<and> (\<forall>p b. mpu_mem s p = Some b \<longrightarrow> p < mpu_fresh s \<and> block_ok (protect_mode s) (pl p) p b)"

lemma nx_of_upd: "nx_of (m(p \<mapsto> b)) = (nx_of m)(p \<mapsto> mb_next b)"
  by (auto simp: nx_of_def)

lemma lists_at_same: "lists_at m c S \<Longrightarrow> (\<And>p. p \<in> S \<Longrightarrow> nx_of m' p = nx_of m p) \<Longrightarrow> lists_at m' c S"
proof -
  assume a: "lists_at m c S" and same: "\<And>p. p \<in> S \<Longrightarrow> nx_of m' p = nx_of m p"
  then obtain ps where ps: "stack (nx_of m) c ps" "set ps = S" by (auto simp: lists_at_def)
  then have "stack (nx_of m') c ps" using stack_same [of ps "nx_of m'" "nx_of m" c] same by simp
  with ps(2) show ?thesis unfolding lists_at_def by blast
qed

lemma lists_at_write:
  assumes "lists_at m c S" and "p \<notin> S \<or> (\<exists>b. m p = Some b \<and> mb_next b' = mb_next b)"
  shows "lists_at (m(p \<mapsto> b')) c S"
  by (rule lists_at_same [OF assms(1)]) (use assms(2) in \<open>auto simp: nx_of_def\<close>)

lemma lists_at_drop:
  assumes "lists_at m c S" and "p \<notin> S"
  shows "lists_at (m(p := None)) c S"
  by (rule lists_at_same [OF assms(1)]) (use assms(2) in \<open>auto simp: nx_of_def\<close>)

lemma lists_at_push:
  "lists_at m c S \<Longrightarrow> p \<notin> S \<Longrightarrow> mb_next b = c \<Longrightarrow> lists_at (m(p \<mapsto> b)) (Some p) (insert p S)"
proof -
  assume a: "lists_at m c S" "p \<notin> S" "mb_next b = c"
  then obtain ps where "stack (nx_of m) c ps" "set ps = S" by (auto simp: lists_at_def)
  with a have "stack (nx_of (m(p \<mapsto> b))) (Some p) (p # ps)" "set (p # ps) = insert p S"
    by (simp_all add: nx_of_upd)
  then show ?thesis unfolding lists_at_def by blast
qed

lemma lists_at_pop:
  "lists_at m (Some p) S \<Longrightarrow> m p = Some b \<Longrightarrow> p \<in> S \<and> lists_at m (mb_next b) (S - {p})"
proof -
  assume a: "lists_at m (Some p) S" "m p = Some b"
  then obtain ps where ps: "stack (nx_of m) (Some p) ps" "set ps = S" by (auto simp: lists_at_def)
  then obtain qs where "ps = p # qs" "stack (nx_of m) (mb_next b) qs"
    using a(2) by (auto simp: stack_Some nx_of_def)
  moreover from this have "p \<notin> set qs" using stack_distinct [OF ps(1)] by simp
  ultimately show ?thesis using ps(2) by (auto simp: lists_at_def)
qed

lemma lists_at_head: "lists_at m (Some p) S \<Longrightarrow> p \<in> S"
proof -
  assume "lists_at m (Some p) S"
  then obtain ps where "stack (nx_of m) (Some p) ps" "set ps = S" unfolding lists_at_def by blast
  moreover from this(1) have "p \<in> set ps" by (auto simp: stack_Some)
  ultimately show ?thesis by simp
qed

lemma lists_at_empty: "lists_at m None S \<Longrightarrow> S = {}"
  by (auto simp: lists_at_def)

lemma all_less_11:
  "(\<forall>j < 11. P j) \<longleftrightarrow> P 0 \<and> P (Suc 0) \<and> P 2 \<and> P 3 \<and> P 4 \<and> P 5 \<and> P 6 \<and> P 7 \<and> P 8 \<and> P 9 \<and> P (10 :: nat)"
  by (simp add: numeral_eq_Suc All_less_Suc2)

lemma proper_size_class: "i < length class_sizes \<Longrightarrow> proper_size (class_sizes ! i)"
proof -
  have "\<forall>j < 11. proper_size (class_sizes ! j)"
    by (simp add: all_less_11 proper_size_def class_sizes_def class_index_cases)
  then show "i < length class_sizes \<Longrightarrow> proper_size (class_sizes ! i)" by (simp add: length_class_sizes)
qed

lemma class_sizes_le: "i < length class_sizes \<Longrightarrow> class_sizes ! i \<le> 8192"
proof -
  have "\<forall>j < 11. class_sizes ! j \<le> 8192" by (simp add: all_less_11 class_sizes_def)
  then show "i < length class_sizes \<Longrightarrow> class_sizes ! i \<le> 8192" by (simp add: length_class_sizes)
qed

lemma class_index_class: "i < length class_sizes \<Longrightarrow> class_index (class_sizes ! i) = Some i"
proof -
  have "\<forall>j < 11. class_index (class_sizes ! j) = Some j"
    by (simp add: all_less_11 class_sizes_def class_index_cases)
  then show "i < length class_sizes \<Longrightarrow> ?thesis" by (simp add: length_class_sizes)
qed

lemma class_index_proper: "class_index sz = Some i \<Longrightarrow> i < length class_sizes \<and> sz \<le> class_sizes ! i"
  by (auto simp: class_index_cases class_sizes_def split: if_splits)

lemma block_size_tables:
  "tables_ok s \<Longrightarrow> i < length class_sizes \<Longrightarrow> block_size (slab_classes s ! i) = class_sizes ! i"
proof -
  assume a: "tables_ok s" "i < length class_sizes"
  then have "map block_size (take (length class_sizes) (slab_classes s)) ! i = class_sizes ! i"
    by (simp add: tables_ok_def)
  moreover have "i < length (slab_classes s)"
    using a by (simp add: tables_ok_def length_class_sizes MAX_SLAB_CLASSES_def)
  ultimately show ?thesis using a(2) by simp
qed

lemma mpu_inv_init: "mpu_inv (mpu_init mpu_start) (\<lambda>_. Nowhere)"
proof -
  have "mpu_mem (mpu_init mpu_start) = Map.empty \<and> active_list (mpu_init mpu_start) = None
      \<and> (\<forall>i < 11. class_free (slab_classes (mpu_init mpu_start) ! i) = None)"
    by (simp add: mpu_init_def mpu_start_def init_slab_loop.simps MAX_SLAB_CLASSES_def
        SLAB_MIN_SIZE_def SLAB_MAX_SIZE_def all_less_11)
  then show ?thesis
    using tables_ok_init by (simp add: mpu_inv_def lists_at_def length_class_sizes)
qed

lemma mpu_invD:
  assumes "mpu_inv s pl"
  shows "tables_ok s" "lists_at (mpu_mem s) (active_list s) {p. pl p = Listed}"
    "i < length class_sizes \<Longrightarrow> lists_at (mpu_mem s) (class_free (slab_classes s ! i)) {p. pl p = Waiting i}"
    "pl p = Nowhere \<longleftrightarrow> mpu_mem s p = None"
    "mpu_mem s p = Some b \<Longrightarrow> p < mpu_fresh s"
    "mpu_mem s p = Some b \<Longrightarrow> block_ok (protect_mode s) (pl p) p b"
  using assms unfolding mpu_inv_def by blast+

lemma mpu_invI:
  "tables_ok s \<Longrightarrow> lists_at (mpu_mem s) (active_list s) {p. pl p = Listed} \<Longrightarrow>
   (\<And>i. i < length class_sizes \<Longrightarrow>
      lists_at (mpu_mem s) (class_free (slab_classes s ! i)) {p. pl p = Waiting i}) \<Longrightarrow>
   (\<And>p. pl p = Nowhere \<longleftrightarrow> mpu_mem s p = None) \<Longrightarrow>
   (\<And>p b. mpu_mem s p = Some b \<Longrightarrow> p < mpu_fresh s \<and> block_ok (protect_mode s) (pl p) p b) \<Longrightarrow>
   mpu_inv s pl"
  unfolding mpu_inv_def by blast

text \<open>The block that is in a given place.\<close>

lemma mpu_inv_block:
  assumes "mpu_inv s pl" and "pl p = x" and "x \<noteq> Nowhere"
  shows "\<exists>b. mpu_mem s p = Some b \<and> p < mpu_fresh s \<and> block_ok (protect_mode s) x p b"
proof -
  have "mpu_mem s p \<noteq> None" using mpu_invD(4) [OF assms(1), of p] assms(2,3) by auto
  then obtain b where "mpu_mem s p = Some b" by blast
  with mpu_invD(5,6) [OF assms(1) this] assms(2) show ?thesis by blast
qed

text \<open>Lists when one block moves from one place to another.\<close>

lemma lists_at_elsewhere:
  assumes "lists_at m c {p. pl p = y}" and "pl b \<noteq> y" and "x \<noteq> y"
  shows "lists_at m c {p. (pl(b := x)) p = y}"
proof -
  have "{p. (pl(b := x)) p = y} = {p. pl p = y}" using assms(2,3) by auto
  with assms(1) show ?thesis by simp
qed

lemma lists_at_left:
  assumes "lists_at m c ({p. pl p = y} - {b})" and "x \<noteq> y"
  shows "lists_at m c {p. (pl(b := x)) p = y}"
proof -
  have "{p. (pl(b := x)) p = y} = {p. pl p = y} - {b}" using assms(2) by auto
  with assms(1) show ?thesis by simp
qed

lemma lists_at_joined:
  assumes "lists_at m c (insert b {p. pl p = y})"
  shows "lists_at m c {p. (pl(b := y)) p = y}"
proof -
  have "{p. (pl(b := y)) p = y} = insert b {p. pl p = y}" by auto
  with assms show ?thesis by simp
qed

text \<open>
  A step that rewrites one block and moves it to a place on no list (from one on no list): the
  common part of \<open>alloc_fill\<close> and of the last phase for large blocks.
\<close>

definition unlisted :: "place \<Rightarrow> bool" where
  "unlisted x \<longleftrightarrow> x \<noteq> Listed \<and> (\<forall>i. x \<noteq> Waiting i)"

lemma mpu_inv_rewrite:
  assumes inv: "mpu_inv s pl" and b: "mpu_mem s p = Some b" and x: "unlisted (pl p)" "unlisted y" "y \<noteq> Nowhere"
    and ok: "block_ok (protect_mode s) y p b'"
  shows "mpu_inv (s\<lparr>mpu_mem := (mpu_mem s)(p \<mapsto> b')\<rparr>) (pl(p := y))"
proof (rule mpu_invI)
  let ?s = "s\<lparr>mpu_mem := (mpu_mem s)(p \<mapsto> b')\<rparr>"
  note i = mpu_invD [OF inv]
  show "tables_ok ?s" using i(1) by (simp add: tables_ok_def)
  show "lists_at (mpu_mem ?s) (active_list ?s) {q. (pl(p := y)) q = Listed}"
    using lists_at_write [OF i(2), of p b'] x by (intro lists_at_elsewhere) (simp_all add: unlisted_def)
  show "lists_at (mpu_mem ?s) (class_free (slab_classes ?s ! j)) {q. (pl(p := y)) q = Waiting j}"
    if "j < length class_sizes" for j
    using lists_at_write [OF i(3) [OF that], of p b'] x
    by (intro lists_at_elsewhere) (simp_all add: unlisted_def)
  show "(pl(p := y)) q = Nowhere \<longleftrightarrow> mpu_mem ?s q = None" for q using i(4) [of q] x(3) by simp
  show "q < mpu_fresh ?s \<and> block_ok (protect_mode ?s) ((pl(p := y)) q) q c" if "mpu_mem ?s q = Some c" for q c
    using that i(5,6) [of q c] i(5) [OF b] ok by (cases "q = p") auto
qed

section \<open>The phases keep the invariant\<close>

lemma tables_ok_free:
  "tables_ok s \<Longrightarrow> tables_ok (s\<lparr>slab_classes := (slab_classes s)[i := (slab_classes s ! i)\<lparr>class_free := x\<rparr>]\<rparr>)"
proof -
  let ?cs = "(slab_classes s)[i := (slab_classes s ! i)\<lparr>class_free := x\<rparr>]"
  have "block_size (?cs ! k) = block_size (slab_classes s ! k)" for k
    by (cases "k = i"; cases "i < length (slab_classes s)") (simp_all add: list_update_beyond)
  then have "map block_size (take n ?cs) = map block_size (take n (slab_classes s))" for n
    by (intro nth_equalityI) simp_all
  then show "tables_ok s \<Longrightarrow> ?thesis" by (simp add: tables_ok_def)
qed

lemma class_free_upd:
  "tables_ok s \<Longrightarrow> j < length class_sizes \<Longrightarrow>
     class_free ((slab_classes s)[i := (slab_classes s ! i)\<lparr>class_free := x\<rparr>] ! j) =
       (if j = i then x else class_free (slab_classes s ! j))"
  by (auto simp: tables_ok_def length_class_sizes MAX_SLAB_CLASSES_def nth_list_update)

lemma pop_class_ok:
  assumes inv: "mpu_inv s pl" and i: "i < length class_sizes" and f: "class_free (slab_classes s ! i) = Some p"
  shows "\<exists>s'. pop_class i p s = Some s' \<and> pl p = Waiting i \<and> mpu_inv s' (pl(p := Raw (class_sizes ! i)))"
proof -
  note iv = mpu_invD [OF inv]
  from iv(3) [OF i] f have "lists_at (mpu_mem s) (Some p) {p. pl p = Waiting i}" by simp
  moreover from lists_at_head [OF this] have w: "pl p = Waiting i" by simp
  moreover obtain b where b: "mpu_mem s p = Some b" "p < mpu_fresh s" "block_ok (protect_mode s) (Waiting i) p b"
    using mpu_inv_block [OF inv w] by blast
  ultimately have rest: "lists_at (mpu_mem s) (mb_next b) ({p. pl p = Waiting i} - {p})"
    using lists_at_pop by blast
  let ?s = "s\<lparr>slab_classes := (slab_classes s)[i := (slab_classes s ! i)\<lparr>class_free := mb_next b\<rparr>]\<rparr>"
  have "mpu_inv ?s (pl(p := Raw (class_sizes ! i)))"
  proof (rule mpu_invI)
    show "tables_ok ?s" using iv(1) by (rule tables_ok_free)
    show "lists_at (mpu_mem ?s) (active_list ?s) {q. (pl(p := Raw (class_sizes ! i))) q = Listed}"
      using iv(2) w by (intro lists_at_elsewhere) simp_all
    show "lists_at (mpu_mem ?s) (class_free (slab_classes ?s ! j)) {q. (pl(p := Raw (class_sizes ! i))) q = Waiting j}"
      if "j < length class_sizes" for j
    proof (cases "j = i")
      case True
      with rest show ?thesis using class_free_upd [OF iv(1) that] by (intro lists_at_left) simp_all
    next
      case False
      with iv(3) [OF that] w show ?thesis
        using class_free_upd [OF iv(1) that] by (intro lists_at_elsewhere) simp_all
    qed
    show "(pl(p := Raw (class_sizes ! i))) q = Nowhere \<longleftrightarrow> mpu_mem ?s q = None" for q
      using iv(4) [of q] b(1) by simp
    show "q < mpu_fresh ?s \<and> block_ok (protect_mode ?s) ((pl(p := Raw (class_sizes ! i))) q) q c"
      if "mpu_mem ?s q = Some c" for q c
      using that iv(5,6) [of q c] b by (cases "q = p") (auto simp: block_ok_def)
  qed
  then show ?thesis using b(1) w by (simp add: pop_class_def)
qed

lemma new_buffer_ok:
  assumes inv: "mpu_inv s pl" and z: "proper_size z"
    and total: "total_size = sizeof_MemBlock + z + e" "e = 0 \<or> e = 8" "z \<le> 8192"
  shows "\<exists>s' r. new_buffer env total_size s = Some (s', r)
    \<and> (case r of None \<Rightarrow> s' = s | Some p \<Rightarrow> pl p = Nowhere \<and> mpu_inv s' (pl(p := Raw z)))"
proof (cases "heap_bytes env")
  case None
  then show ?thesis by (simp add: new_buffer_def)
next
  case (Some junk)
  have nz: "unat z \<le> 8192" using total(3) by (simp add: word_le_nat_alt)
  have ge: "total_size \<ge> sizeof_MemBlock" and len: "unat z \<le> unat (total_size - sizeof_MemBlock)"
    using total nz by (auto simp: sizeof_MemBlock_def word_le_nat_alt unat_word_ariths)
  let ?p = "mpu_fresh s"
  let ?b = "\<lparr>mb_size = 0, mb_freed = False, mb_label = [], mb_real = 0, mb_next = None, mb_frames = [],
      mb_time = 0, guard_head = 0, payload = map junk [0..<unat (total_size - sizeof_MemBlock)]\<rparr>"
  let ?s = "s\<lparr>mpu_mem := (mpu_mem s)(?p \<mapsto> ?b), mpu_fresh := ?p + 1\<rparr>"
  note iv = mpu_invD [OF inv]
  have fr: "mpu_mem s ?p = None" using iv(5) [of ?p] by (cases "mpu_mem s ?p") auto
  then have n: "pl ?p = Nowhere" using iv(4) by simp
  have "mpu_inv ?s (pl(?p := Raw z))"
  proof (rule mpu_invI)
    show "tables_ok ?s" using iv(1) by (simp add: tables_ok_def)
    show "lists_at (mpu_mem ?s) (active_list ?s) {q. (pl(?p := Raw z)) q = Listed}"
      using lists_at_write [OF iv(2)] n by (intro lists_at_elsewhere) simp_all
    show "lists_at (mpu_mem ?s) (class_free (slab_classes ?s ! j)) {q. (pl(?p := Raw z)) q = Waiting j}"
      if "j < length class_sizes" for j
      using lists_at_write [OF iv(3) [OF that]] n by (intro lists_at_elsewhere) simp_all
    show "(pl(?p := Raw z)) q = Nowhere \<longleftrightarrow> mpu_mem ?s q = None" for q using iv(4) [of q] by simp
    show "q < mpu_fresh ?s \<and> block_ok (protect_mode ?s) ((pl(?p := Raw z)) q) q c"
      if "mpu_mem ?s q = Some c" for q c
      using that iv(5,6) [of q c] z len by (cases "q = ?p") (auto simp: block_ok_def fits_def)
  qed
  then show ?thesis using Some ge n by (simp add: new_buffer_def)
qed

lemma alloc_pop_ok:
  assumes inv: "mpu_inv s pl" and sz: "sz \<le> 8192"
  shows "\<exists>s' r z. alloc_pop env sz s = Some (s', r, z) \<and> sz \<le> z
    \<and> (case r of None \<Rightarrow> mpu_inv s' pl | Some b \<Rightarrow> spare (pl b) \<and> mpu_inv s' (pl(b := Raw z)))"
proof -
  note iv = mpu_invD [OF inv]
  from sz have "class_index sz \<noteq> None" by (simp add: class_index_cases)
  then obtain i where i: "class_index sz = Some i" by blast
  from class_index_proper [OF i] have i11: "i < length class_sizes" and le: "sz \<le> class_sizes ! i" by simp_all
  have bs: "block_size (slab_classes s ! i) = class_sizes ! i" by (rule block_size_tables [OF iv(1) i11])
  have le8: "class_sizes ! i \<le> 8192" using i11 by (rule class_sizes_le)
  show ?thesis
  proof (cases "class_free (slab_classes s ! i)")
    case (Some p)
    from pop_class_ok [OF inv i11 Some] obtain s' where
      "pop_class i p s = Some s'" "pl p = Waiting i" "mpu_inv s' (pl(p := Raw (class_sizes ! i)))" by blast
    then show ?thesis
      using Some i le bs find_slab_index_tables [OF iv(1), of sz]
      by (simp add: alloc_pop_def Let_def)
  next
    case None
    let ?t = "sizeof_MemBlock + class_sizes ! i + (if protect_mode s then 8 else 0)"
    have "(if protect_mode s then 8 else 0 :: size_t) = 0 \<or> (if protect_mode s then 8 else 0 :: size_t) = 8"
      by simp
    from new_buffer_ok [OF inv proper_size_class [OF i11] refl this le8, of env]
    obtain s' r where r: "new_buffer env ?t s = Some (s', r)"
      "case r of None \<Rightarrow> s' = s | Some p \<Rightarrow> pl p = Nowhere \<and> mpu_inv s' (pl(p := Raw (class_sizes ! i)))"
      by blast
    then show ?thesis
      using None i le bs find_slab_index_tables [OF iv(1), of sz] inv
      by (auto simp: alloc_pop_def Let_def split: option.splits)
  qed
qed

lemma le64_length [simp]: "length (le64 w) = 8"
  by (simp add: le64_def)

lemma alloc_fill_ok:
  assumes inv: "mpu_inv s pl" and r: "pl b = Raw z"
  shows "\<exists>s'. alloc_fill env z label b s = Some s' \<and> mpu_inv s' (pl(b := Ready))"
proof -
  from mpu_inv_block [OF inv r] obtain blk where
    blk: "mpu_mem s b = Some blk" "fits z blk" by (auto simp: block_ok_def)
  then have z: "8 \<le> unat z" "unat z \<le> length (payload blk)"
    by (auto simp: fits_def proper_size_def word_le_nat_alt)
  let ?blk = "blk\<lparr>mb_size := z, mb_real := b, mb_freed := False, mb_time := now env,
       mb_frames := (if debug_mode s then take MAX_CALLSTACK (stack_frames env) else []),
       guard_head := (if protect_mode s then PROTECT_MAGIC else 0), mb_label := copy_label label\<rparr>"
  obtain bytes where bytes: "write_bytes (payload blk) (unat z - 8) (le64 TAIL_MAGIC) = Some bytes"
    using z by (auto simp: write_bytes_def)
  let ?bytes = "if protect_mode s then bytes else payload blk"
  have "length ?bytes = length (payload blk)" using length_write_bytes [OF bytes] by simp
  moreover have "protect_mode s \<Longrightarrow> read_bytes ?bytes (unat z - 8) 8 = Some (le64 TAIL_MAGIC)"
    using read_write_same [OF bytes] by simp
  ultimately have "block_ok (protect_mode s) Ready b (?blk\<lparr>payload := ?bytes\<rparr>)"
    using blk(2) by (auto simp: block_ok_def guarded_def fits_def tail_intact_def)
  from mpu_inv_rewrite [OF inv blk(1) _ _ _ this] r
  have "mpu_inv (s\<lparr>mpu_mem := (mpu_mem s)(b \<mapsto> ?blk\<lparr>payload := ?bytes\<rparr>)\<rparr>) (pl(b := Ready))"
    by (simp add: unlisted_def)
  moreover have "alloc_fill env z label b s =
      Some (s\<lparr>mpu_mem := (mpu_mem s)(b \<mapsto> ?blk\<lparr>payload := ?bytes\<rparr>)\<rparr>)"
    using blk(1) bytes z(1) by (simp add: alloc_fill_def Let_def)
  ultimately show ?thesis by blast
qed

lemma alloc_push_ok:
  assumes inv: "mpu_inv s pl" and r: "pl b = Ready"
  shows "\<exists>s'. alloc_push b s = Some s' \<and> mpu_inv s' (pl(b := Listed))"
proof -
  note iv = mpu_invD [OF inv]
  from mpu_inv_block [OF inv r] obtain blk where
    blk: "mpu_mem s b = Some blk" "b < mpu_fresh s" "block_ok (protect_mode s) Ready b blk" by auto
  let ?blk = "blk\<lparr>mb_next := active_list s\<rparr>"
  let ?s = "s\<lparr>mpu_mem := (mpu_mem s)(b \<mapsto> ?blk), active_list := Some b\<rparr>"
  have ok: "block_ok (protect_mode s) Listed b ?blk"
    using blk(3) by (auto simp: block_ok_def guarded_def fits_def tail_intact_def)
  have "mpu_inv ?s (pl(b := Listed))"
  proof (rule mpu_invI)
    show "tables_ok ?s" using iv(1) by (simp add: tables_ok_def)
    show "lists_at (mpu_mem ?s) (active_list ?s) {q. (pl(b := Listed)) q = Listed}"
      using lists_at_push [OF iv(2), of b ?blk] r by (intro lists_at_joined) simp
    show "lists_at (mpu_mem ?s) (class_free (slab_classes ?s ! j)) {q. (pl(b := Listed)) q = Waiting j}"
      if "j < length class_sizes" for j
      using lists_at_write [OF iv(3) [OF that]] r by (intro lists_at_elsewhere) simp_all
    show "(pl(b := Listed)) q = Nowhere \<longleftrightarrow> mpu_mem ?s q = None" for q using iv(4) [of q] by simp
    show "q < mpu_fresh ?s \<and> block_ok (protect_mode ?s) ((pl(b := Listed)) q) q c"
      if "mpu_mem ?s q = Some c" for q c
      using that iv(5,6) [of q c] blk(2) ok by (cases "q = b") auto
  qed
  moreover have "alloc_push b s = Some ?s" using blk(1) by (simp add: alloc_push_def)
  ultimately show ?thesis by blast
qed

text \<open>
  The search for the link: \<open>as\<close> are the blocks behind it, the last of them is \<open>prev\<close>.
\<close>

lemma unlink_active_found:
  "stack (nx_of m) cur (as @ b # cs) \<Longrightarrow> b \<notin> set as \<Longrightarrow>
     (case prev of None \<Rightarrow> True | Some q \<Rightarrow> \<exists>qb. m q = Some qb) \<Longrightarrow>
     \<exists>bb. m b = Some bb \<and> stack (nx_of m) (mb_next bb) cs
       \<and> unlink_active m head prev cur b =
           (case (if as = [] then prev else Some (last as)) of
              None \<Rightarrow> Some (m, mb_next bb)
            | Some q \<Rightarrow> map_option (\<lambda>qb. (m(q \<mapsto> qb\<lparr>mb_next := mb_next bb\<rparr>), head)) (m q))"
proof (induction as arbitrary: cur prev)
  case Nil
  then obtain bb where "cur = Some b" "m b = Some bb" "stack (nx_of m) (mb_next bb) cs"
    by (auto simp: nx_of_def)
  then show ?case by (subst unlink_active.simps) simp
next
  case (Cons a as)
  then obtain ab where ab: "cur = Some a" "m a = Some ab" "stack (nx_of m) (mb_next ab) (as @ b # cs)"
    by (auto simp: nx_of_def)
  have "unlink_active m head prev cur b = unlink_active m head (Some a) (mb_next ab) b"
    using ab(1,2) Cons.prems(2) by (subst unlink_active.simps) simp
  then show ?case using Cons.IH [OF ab(3), of "Some a"] Cons.prems(2) ab(2)
    by (cases "as = []") auto
qed

lemma lists_at_unlink:
  assumes l: "lists_at m head S" and p: "p \<in> S"
  shows "\<exists>m' head'. unlink_active m head None head p = Some (m', head') \<and> lists_at m' head' (S - {p})
    \<and> (\<forall>q. m' q = m q \<or> (q \<in> S \<and> (\<exists>qb x. m q = Some qb \<and> m' q = Some (qb\<lparr>mb_next := x\<rparr>))))"
proof -
  from l obtain ps where ps: "stack (nx_of m) head ps" "set ps = S" by (auto simp: lists_at_def)
  with p obtain as cs where sp: "ps = as @ p # cs" by (meson split_list)
  have d: "distinct ps" by (rule stack_distinct [OF ps(1)])
  from unlink_active_found [OF ps(1) [unfolded sp], of None head] d sp obtain pb where
    pb: "m p = Some pb" "stack (nx_of m) (mb_next pb) cs" and
    u: "unlink_active m head None head p =
         (case (if as = [] then None else Some (last as)) of
              None \<Rightarrow> Some (m, mb_next pb)
            | Some q \<Rightarrow> map_option (\<lambda>qb. (m(q \<mapsto> qb\<lparr>mb_next := mb_next pb\<rparr>), head)) (m q))"
    by auto
  show ?thesis
  proof (cases as rule: rev_cases)
    case Nil
    then have "set cs = S - {p}" using d sp ps(2) by auto
    with pb(2) have "lists_at m (mb_next pb) (S - {p})" unfolding lists_at_def by blast
    with u Nil show ?thesis by auto
  next
    case (snoc bs q)
    with ps(1) sp have st: "stack (nx_of m) head (bs @ q # p # cs)" by simp
    then obtain qb where qb: "m q = Some qb"
      using stack_dom [OF st] by (auto simp: nx_of_def)
    let ?m = "m(q \<mapsto> qb\<lparr>mb_next := mb_next pb\<rparr>)"
    have "distinct (bs @ q # p # cs)" using d sp snoc by simp
    then have "stack (nx_of ?m) head (bs @ q # cs)"
      using stack_skip [OF st] pb(1) by (simp add: nx_of_upd) (simp add: nx_of_def)
    moreover have "set (bs @ q # cs) = S - {p}" using d sp snoc ps(2) by auto
    ultimately have "lists_at ?m head (S - {p})" unfolding lists_at_def by blast
    moreover have "q \<in> S" using ps(2) sp snoc by auto
    ultimately show ?thesis using u snoc qb by auto
  qed
qed

lemma block_ok_next [simp]: "block_ok prot x p (b\<lparr>mb_next := n\<rparr>) = block_ok prot x p b"
  by (auto simp: block_ok_def guarded_def fits_def tail_intact_def split: place.split)

lemma free_unlink_ok:
  assumes inv: "mpu_inv s pl" and r: "pl b = Listed"
  shows "\<exists>s'. free_unlink b s = Some (Inr s') \<and> mpu_inv s' (pl(b := Out))"
proof -
  note iv = mpu_invD [OF inv]
  from mpu_inv_block [OF inv r] obtain blk where
    blk: "mpu_mem s b = Some blk" "b < mpu_fresh s" "guarded (protect_mode s) blk" "mb_real blk = b"
    by (auto simp: block_ok_def)
  let ?blk = "blk\<lparr>mb_freed := True\<rparr>"
  let ?m1 = "(mpu_mem s)(b \<mapsto> ?blk)"
  have "lists_at ?m1 (active_list s) {p. pl p = Listed}"
    by (rule lists_at_write [OF iv(2)]) (use blk(1) in auto)
  from lists_at_unlink [OF this, of b] r obtain m2 head where
    u: "unlink_active ?m1 (active_list s) None (active_list s) b = Some (m2, head)"
    "lists_at m2 head ({p. pl p = Listed} - {b})"
    and m2: "\<And>q. m2 q = ?m1 q \<or> (pl q = Listed
      \<and> (\<exists>qb x. ?m1 q = Some qb \<and> m2 q = Some (qb\<lparr>mb_next := x\<rparr>)))" by auto
  let ?s = "s\<lparr>mpu_mem := m2, active_list := head\<rparr>"
  have okb: "block_ok (protect_mode s) Out b ?blk"
    using blk(3,4) by (simp add: block_ok_def guarded_def fits_def)
  have dom: "m2 q = None \<longleftrightarrow> ?m1 q = None" for q using m2 [of q] by auto
  have cell: "\<exists>c' x. ?m1 q = Some c' \<and> (c = c' \<or> c = c'\<lparr>mb_next := x\<rparr>)" if "m2 q = Some c" for q c
    using m2 [of q] that by (auto split: if_splits) metis
  have "mpu_inv ?s (pl(b := Out))"
  proof (rule mpu_invI)
    show "tables_ok ?s" using iv(1) by (simp add: tables_ok_def)
    show "lists_at (mpu_mem ?s) (active_list ?s) {q. (pl(b := Out)) q = Listed}"
      using u(2) by (intro lists_at_left) simp_all
    show "lists_at (mpu_mem ?s) (class_free (slab_classes ?s ! j)) {q. (pl(b := Out)) q = Waiting j}"
      if "j < length class_sizes" for j
    proof -
      have "nx_of m2 q = nx_of (mpu_mem s) q" if "q \<in> {p. pl p = Waiting j}" for q
        using m2 [of q] that r by (auto simp: nx_of_def)
      from lists_at_same [OF iv(3) [OF that] this] r show ?thesis
        by (intro lists_at_elsewhere) simp_all
    qed
    show "(pl(b := Out)) q = Nowhere \<longleftrightarrow> mpu_mem ?s q = None" for q
      using iv(4) [of q] dom [of q] by simp
    show "q < mpu_fresh ?s \<and> block_ok (protect_mode ?s) ((pl(b := Out)) q) q c"
      if "mpu_mem ?s q = Some c" for q c
    proof -
      from that cell [of q c] obtain c' x where c': "?m1 q = Some c'" "c = c' \<or> c = c'\<lparr>mb_next := x\<rparr>"
        by auto
      then have "block_ok (protect_mode s) ((pl(b := Out)) q) q c'"
        using iv(6) [of q c'] okb by (cases "q = b") auto
      moreover have "q < mpu_fresh s" using c'(1) iv(5) [of q c'] blk(2) by (cases "q = b") auto
      ultimately show ?thesis using c'(2) by auto
    qed
  qed
  moreover have "free_unlink b s = Some (Inr ?s)"
  proof -
    have "8 \<le> unat (mb_size blk)"
      using blk(3) by (auto simp: guarded_def fits_def proper_size_def word_le_nat_alt)
    then show ?thesis using blk(1,3) u(1)
      by (cases "protect_mode s") (simp_all add: free_unlink_def guarded_def tail_intact_def Let_def)
  qed
  ultimately show ?thesis by blast
qed

lemma free_return_ok:
  assumes inv: "mpu_inv s pl" and r: "pl b = Out"
  shows "\<exists>s' x. free_return b s = Some s' \<and> spare x \<and> mpu_inv s' (pl(b := x))"
proof -
  note iv = mpu_invD [OF inv]
  from mpu_inv_block [OF inv r] obtain blk where
    blk: "mpu_mem s b = Some blk" "b < mpu_fresh s" "fits (mb_size blk) blk" "mb_real blk = b"
    "mb_freed blk"
    by (auto simp: block_ok_def)
  note fi = find_slab_index_tables [OF iv(1), of "mb_size blk"]
  show ?thesis
  proof (cases "class_index (mb_size blk)")
    case None
    let ?s = "s\<lparr>mpu_mem := (mpu_mem s)(b := None)\<rparr>"
    have "mpu_inv ?s (pl(b := Nowhere))"
    proof (rule mpu_invI)
      show "tables_ok ?s" using iv(1) by (simp add: tables_ok_def)
      show "lists_at (mpu_mem ?s) (active_list ?s) {q. (pl(b := Nowhere)) q = Listed}"
        using lists_at_drop [OF iv(2)] r by (intro lists_at_elsewhere) simp_all
      show "lists_at (mpu_mem ?s) (class_free (slab_classes ?s ! j)) {q. (pl(b := Nowhere)) q = Waiting j}"
        if "j < length class_sizes" for j
        using lists_at_drop [OF iv(3) [OF that]] r by (intro lists_at_elsewhere) simp_all
      show "(pl(b := Nowhere)) q = Nowhere \<longleftrightarrow> mpu_mem ?s q = None" for q using iv(4) [of q] by simp
      show "q < mpu_fresh ?s \<and> block_ok (protect_mode ?s) ((pl(b := Nowhere)) q) q c"
        if "mpu_mem ?s q = Some c" for q c
        using that iv(5,6) [of q c] by (cases "q = b") auto
    qed
    moreover have "free_return b s = Some ?s" using blk(1,4) fi None by (simp add: free_return_def)
    ultimately show ?thesis by (metis spare_simps(1))
  next
    case (Some i)
    have i: "i < length class_sizes" using class_index_proper [OF Some] by simp
    let ?blk = "blk\<lparr>mb_next := class_free (slab_classes s ! i)\<rparr>"
    let ?s = "s\<lparr>mpu_mem := (mpu_mem s)(b \<mapsto> ?blk),
      slab_classes := (slab_classes s)[i := (slab_classes s ! i)\<lparr>class_free := Some b\<rparr>]\<rparr>"
    have okb: "block_ok (protect_mode s) (Waiting i) b ?blk"
      using blk(3-5) i Some by (auto simp: block_ok_def fits_def proper_size_def)
    have "mpu_inv ?s (pl(b := Waiting i))"
    proof (rule mpu_invI)
      show "tables_ok ?s" using tables_ok_free [OF iv(1), of i "Some b"] by (simp add: tables_ok_def)
      show "lists_at (mpu_mem ?s) (active_list ?s) {q. (pl(b := Waiting i)) q = Listed}"
        using lists_at_write [OF iv(2), of b ?blk] r by (intro lists_at_elsewhere) simp_all
      show "lists_at (mpu_mem ?s) (class_free (slab_classes ?s ! j)) {q. (pl(b := Waiting i)) q = Waiting j}"
        if j: "j < length class_sizes" for j
      proof (cases "j = i")
        case True
        with lists_at_push [OF iv(3) [OF i], of b ?blk] r class_free_upd [OF iv(1) i, of i "Some b"]
        show ?thesis by (simp only: True) (intro lists_at_joined, simp)
      next
        case False
        with lists_at_write [OF iv(3) [OF j], of b ?blk] r class_free_upd [OF iv(1) j, of i "Some b"]
        show ?thesis by (intro lists_at_elsewhere) simp_all
      qed
      show "(pl(b := Waiting i)) q = Nowhere \<longleftrightarrow> mpu_mem ?s q = None" for q using iv(4) [of q] by simp
      show "q < mpu_fresh ?s \<and> block_ok (protect_mode ?s) ((pl(b := Waiting i)) q) q c"
        if "mpu_mem ?s q = Some c" for q c
        using that iv(5,6) [of q c] blk(2) okb by (cases "q = b") auto
    qed
    moreover have "free_return b s = Some ?s" using blk(1) fi Some by (simp add: free_return_def)
    ultimately show ?thesis by (metis spare_simps(2))
  qed
qed

section \<open>The contract\<close>

interpretation mpu: pool_phases mpu_inv alloc_pop alloc_fill alloc_push free_unlink free_return
proof (unfold_locales, goal_cases)
  case (1 s pl sz env)
  then have "sz \<le> 8192" by (simp add: word_le_nat_alt)
  from alloc_pop_ok [OF 1(1) this] show ?case by blast
next
  case (2 s pl b z env label)
  then show ?case by (rule alloc_fill_ok)
next
  case (3 s pl b)
  then show ?case by (rule alloc_push_ok)
next
  case (4 s pl b)
  then show ?case by (rule free_unlink_ok)
next
  case (5 s pl b)
  then show ?case by (rule free_return_ok)
qed

section \<open>Printing and destruction\<close>

lemma stats_loop_stack:
  "stack (nx_of m) cur ps \<Longrightarrow> \<forall>p \<in> set ps. \<exists>b. m p = Some b \<and> \<not> mb_freed b \<Longrightarrow>
     stats_loop m cur n bytes = Some (n + length ps, bytes + (\<Sum>p\<leftarrow>ps. mb_size (the (m p))))"
proof (induction ps arbitrary: cur n bytes)
  case Nil
  then show ?case by (subst stats_loop.simps) simp
next
  case (Cons p ps)
  then obtain b where b: "cur = Some p" "m p = Some b" "stack (nx_of m) (mb_next b) ps" "\<not> mb_freed b"
    by (auto simp: nx_of_def)
  then have "stats_loop m cur n bytes = stats_loop m (mb_next b) (n + 1) (bytes + mb_size b)"
    by (subst stats_loop.simps) simp
  also have "\<dots> = Some (n + 1 + length ps, bytes + mb_size b + (\<Sum>p\<leftarrow>ps. mb_size (the (m p))))"
    by (rule Cons.IH [OF b(3)]) (use Cons.prems(2) in simp)
  finally show ?case using b(2) by (simp add: add.assoc)
qed

lemma release_chain_stack:
  "stack (nx_of m) cur ps \<Longrightarrow> \<forall>p \<in> set ps. \<exists>b. m p = Some b \<and> mb_real b = p \<Longrightarrow>
     release_chain cur m = Some (m |` (- set ps))"
proof (induction ps arbitrary: cur m)
  case Nil
  then show ?case by (subst release_chain.simps) (simp add: restrict_map_def)
next
  case (Cons p ps)
  then obtain b where b: "cur = Some p" "m p = Some b" "stack (nx_of m) (mb_next b) ps" "mb_real b = p"
    by (auto simp: nx_of_def)
  have np: "p \<notin> set ps" using stack_distinct [OF Cons.prems(1)] by simp
  have "release_chain cur m = release_chain (mb_next b) (m(p := None))"
    using b by (subst release_chain.simps) simp
  also have "\<dots> = Some ((m(p := None)) |` (- set ps))"
  proof (rule Cons.IH)
    show "stack (nx_of (m(p := None))) (mb_next b) ps"
      by (rule stack_same [THEN iffD1, OF _ b(3)]) (use np in \<open>auto simp: nx_of_def\<close>)
    show "\<forall>q \<in> set ps. \<exists>b. (m(p := None)) q = Some b \<and> mb_real b = q"
      using Cons.prems(2) np by auto
  qed
  also have "(m(p := None)) |` (- set ps) = m |` (- set (p # ps))"
    by (auto simp: restrict_map_def fun_eq_iff)
  finally show ?case .
qed

text \<open>Blocks in lists that do not share any: the lists of \<open>release_chains\<close> one after the other.\<close>

lemma release_chains_stacks:
  "\<forall>(c, S) \<in> set cS. lists_at m c S \<and> (\<forall>p \<in> S. \<exists>b. m p = Some b \<and> mb_real b = p) \<Longrightarrow>
     (\<And>i j. i < length cS \<Longrightarrow> j < length cS \<Longrightarrow> i \<noteq> j \<Longrightarrow> snd (cS ! i) \<inter> snd (cS ! j) = {}) \<Longrightarrow>
     release_chains (map fst cS) m = Some (m |` (- (\<Union>cs \<in> set cS. snd cs)))"
proof (induction cS arbitrary: m)
  case Nil
  then show ?case by simp
next
  case (Cons cs cS)
  obtain c S where cs: "cs = (c, S)" by (cases cs)
  from Cons.prems(1) cs obtain ps where ps: "stack (nx_of m) c ps" "set ps = S"
    "\<forall>p \<in> set ps. \<exists>b. m p = Some b \<and> mb_real b = p" by (auto simp: lists_at_def)
  have r: "release_chain c m = Some (m |` (- S))" using release_chain_stack [OF ps(1,3)] ps(2) by simp
  have apart: "S \<inter> T = {}" if "(d, T) \<in> set cS" for d T
  proof -
    from that obtain j where "j < length cS" "cS ! j = (d, T)" by (auto simp: in_set_conv_nth)
    then show ?thesis using Cons.prems(2) [of 0 "Suc j"] cs by simp
  qed
  have "release_chains (map fst cS) (m |` (- S)) = Some ((m |` (- S)) |` (- (\<Union>cs \<in> set cS. snd cs)))"
  proof (rule Cons.IH)
    show "\<forall>(d, T) \<in> set cS. lists_at (m |` (- S)) d T
        \<and> (\<forall>p \<in> T. \<exists>b. (m |` (- S)) p = Some b \<and> mb_real b = p)"
    proof (intro ballI, clarify, intro conjI)
      fix d T assume dT: "(d, T) \<in> set cS"
      with Cons.prems(1) have l: "lists_at m d T" "\<forall>p \<in> T. \<exists>b. m p = Some b \<and> mb_real b = p" by auto
      show "lists_at (m |` (- S)) d T"
        by (rule lists_at_same [OF l(1)]) (use apart [OF dT] in \<open>auto simp: nx_of_def restrict_map_def\<close>)
      show "\<forall>p \<in> T. \<exists>b. (m |` (- S)) p = Some b \<and> mb_real b = p"
        using l(2) apart [OF dT] by (auto simp: restrict_map_def)
    qed
    show "snd (cS ! i) \<inter> snd (cS ! j) = {}" if "i < length cS" "j < length cS" "i \<noteq> j" for i j
      using Cons.prems(2) [of "Suc i" "Suc j"] that by simp
  qed
  moreover have "(m |` (- S)) |` (- (\<Union>cs \<in> set cS. snd cs)) = m |` (- (\<Union>cs \<in> set (cs # cS). snd cs))"
    using cs by (auto simp: restrict_map_def fun_eq_iff)
  ultimately show ?case using r cs by simp
qed

text \<open>A pool with nothing in use: the statistics, the leak report, and the destruction.\<close>

lemma idle_pool_inactive:
  assumes inv: "mpu_inv s pl" and idle: "\<forall>b. spare (pl b)"
  shows "active_list s = None"
proof -
  have "pl p \<noteq> Listed" for p using idle by (metis spare_simps(5))
  then have "{p. pl p = Listed} = {}" by simp
  with mpu_invD(2) [OF inv] show ?thesis by (auto simp: lists_at_def)
qed

lemma idle_pool:
  assumes inv: "mpu_inv s pl" and idle: "\<forall>b. spare (pl b)"
  shows "mpu_dump_stats s = Some (0, 0)" "mpu_dump_leaks s = Some []"
    "\<exists>s'. mpu_destroy s = Some s' \<and> mpu_mem s' = Map.empty"
proof -
  note iv = mpu_invD [OF inv]
  note a = idle_pool_inactive [OF inv idle]
  then show "mpu_dump_stats s = Some (0, 0)" "mpu_dump_leaks s = Some []"
    by (simp_all add: mpu_dump_stats_def mpu_dump_leaks_def stats_loop.simps leaks_loop.simps)
  let ?cS = "map (\<lambda>i. (class_free (slab_classes s ! i), {p. pl p = Waiting i})) [0..<length class_sizes]"
  have "slab_class_count s = length class_sizes" "length class_sizes \<le> length (slab_classes s)"
    using iv(1) by (simp_all add: tables_ok_def length_class_sizes MAX_SLAB_CLASSES_def)
  then have "map class_free (take (slab_class_count s) (slab_classes s)) = map fst ?cS"
    by (intro nth_equalityI) simp_all
  moreover have "release_chains (map fst ?cS) (mpu_mem s) =
      Some (mpu_mem s |` (- (\<Union>cs \<in> set ?cS. snd cs)))"
  proof (rule release_chains_stacks)
    show "\<forall>(c, S) \<in> set ?cS. lists_at (mpu_mem s) c S
        \<and> (\<forall>p \<in> S. \<exists>b. mpu_mem s p = Some b \<and> mb_real b = p)"
    proof (clarify, intro conjI ballI)
      fix c S assume "(c, S) \<in> set ?cS"
      then obtain i where i: "i < length class_sizes" "c = class_free (slab_classes s ! i)"
        "S = {p. pl p = Waiting i}" by auto
      show "lists_at (mpu_mem s) c S" using iv(3) [OF i(1)] i(2,3) by simp
      fix p assume "p \<in> S"
      then have "pl p = Waiting i" using i(3) by simp
      from mpu_inv_block [OF inv this] show "\<exists>b. mpu_mem s p = Some b \<and> mb_real b = p"
        by (auto simp: block_ok_def)
    qed
    show "snd (?cS ! i) \<inter> snd (?cS ! j) = {}" if "i < length ?cS" "j < length ?cS" "i \<noteq> j" for i j
      using that by auto
  qed
  moreover have "mpu_mem s |` (- (\<Union>cs \<in> set ?cS. snd cs)) = Map.empty"
  proof
    fix p
    show "(mpu_mem s |` (- (\<Union>cs \<in> set ?cS. snd cs))) p = None"
    proof (cases "mpu_mem s p")
      case None
      then show ?thesis by (simp add: restrict_map_def)
    next
      case (Some b)
      then have "pl p \<noteq> Nowhere" using iv(4) [of p] by simp
      then obtain i where i: "pl p = Waiting i" using idle by (auto simp: spare_def)
      then have "i < length class_sizes" using iv(6) [OF Some] by (simp add: block_ok_def)
      with i show ?thesis by (auto simp: restrict_map_def)
    qed
  qed
  ultimately show "\<exists>s'. mpu_destroy s = Some s' \<and> mpu_mem s' = Map.empty"
    using a by (simp add: mpu_destroy_def release_chain.simps)
qed

section \<open>The demonstration program\<close>

text \<open>The state when \<open>main\<close> starts its threads, and its threads.\<close>

definition mpu_main_start :: "mpu_state \<times> worker list" where
  "mpu_main_start =
     (mpu_set_protection 1 (mpu_set_debug 1 (mpu_init mpu_start)), replicate THREADS (Idle 0))"

lemma protect_mode_init: "protect_mode (mpu_init mpu_start)"
proof -
  have "protect_mode (init_slab_loop i sz s) = protect_mode s" for i sz s
    by (induction i sz s rule: init_slab_loop.induct) (subst init_slab_loop.simps, simp)
  then show ?thesis by (simp add: mpu_init_def mpu_start_def)
qed

lemma mpu_main_inv: "mpu_inv (fst mpu_main_start) (\<lambda>_. Nowhere)"
proof -
  show ?thesis
    using mpu_inv_init protect_mode_init by (auto simp: mpu_main_start_def mpu_inv_def tables_ok_def mpu_set_protection_def
        mpu_set_debug_def)
qed

abbreviation mpu_step :: "mpu_state \<times> worker list \<Rightarrow> mpu_state \<times> worker list \<Rightarrow> bool" where
  "mpu_step \<equiv> worker_step alloc_pop alloc_fill alloc_push free_unlink free_return"

lemma mpu_main_workers: "mpu.workers_inv (fst mpu_main_start) (snd mpu_main_start)"
  using mpu.workers_inv_start [OF mpu_main_inv] by (simp add: mpu_main_start_def)

section \<open>One allocation and what can go wrong with it\<close>

text \<open>The three phases in a row: the block is in use, has the size of its class and its label.\<close>

lemma alloc_pop_env:
  assumes "mpu_inv s pl" and "class_index sz = Some i" and "alloc_pop env sz s = Some (s', r, z)"
  shows "z = class_sizes ! i" "protect_mode s' = protect_mode s" "debug_mode s' = debug_mode s"
  using assms(3) find_slab_index_tables [OF mpu_invD(1) [OF assms(1)], of sz] assms(2)
    block_size_tables [OF mpu_invD(1) [OF assms(1)]] class_index_proper [OF assms(2)]
  by (auto simp: alloc_pop_def Let_def new_buffer_def pop_class_def
      split: option.splits if_splits bind_splits)

lemma alloc_label_result:
  assumes inv: "mpu_inv s pl" and sz: "sz \<le> 8192"
    and al: "mem_pool_alloc_label env sz label s = Some (s1, Some b)"
  shows "\<exists>i blk pl'. class_index sz = Some i \<and> mpu_inv s1 pl' \<and> pl' b = Listed
    \<and> mpu_mem s1 b = Some blk \<and> mb_size blk = class_sizes ! i \<and> mb_label blk = copy_label label
    \<and> guard_head blk = (if protect_mode s then PROTECT_MAGIC else 0) \<and> protect_mode s1 = protect_mode s"
proof -
  from sz have "class_index sz \<noteq> None" by (simp add: class_index_cases)
  then obtain i where i: "class_index sz = Some i" by blast
  from alloc_pop_ok [OF inv sz, of env] obtain s2 r z where
    pop: "alloc_pop env sz s = Some (s2, r, z)" "\<And>b. r = Some b \<Longrightarrow> mpu_inv s2 (pl(b := Raw z))"
    by fastforce
  from al pop(1) have r: "r = Some b"
    by (auto simp: mem_pool_alloc_label_def split: option.splits bind_splits)
  note p = alloc_pop_env [OF inv i pop(1)]
  from pop(2) [OF r] have iv2: "mpu_inv s2 (pl(b := Raw z))" .
  from alloc_fill_ok [OF iv2, of b z env label] obtain s3 where
    fill: "alloc_fill env z label b s2 = Some s3" "mpu_inv s3 (pl(b := Ready))" by auto
  from alloc_push_ok [OF fill(2), of b] obtain s4 where
    push: "alloc_push b s3 = Some s4" "mpu_inv s4 (pl(b := Listed))" by auto
  from al pop(1) fill(1) push(1) r have s1: "s1 = s4" by (simp add: mem_pool_alloc_label_def)
  from fill(1) obtain blk where "mpu_mem s3 b = Some blk" "mb_size blk = z" "mb_label blk = copy_label label"
    "guard_head blk = (if protect_mode s2 then PROTECT_MAGIC else 0)" "protect_mode s3 = protect_mode s2"
    by (auto simp: alloc_fill_def Let_def split: bind_splits if_splits)
  with push(1) p i push(2) s1 show ?thesis
    by (intro exI [of _ i] exI [of _ "blk\<lparr>mb_next := active_list s3\<rparr>"] exI [of _ "pl(b := Listed)"])
      (auto simp: alloc_push_def)
qed

lemma write_bytes_differ:
  assumes w: "write_bytes buf off bs = Some buf'" and i: "i < length bs" "o' \<le> off + i" "off + i < o' + n"
    and d: "bs ! i \<noteq> xs ! (off + i - o')"
  shows "read_bytes buf' o' n \<noteq> Some xs"
proof
  assume r: "read_bytes buf' o' n = Some xs"
  then have "o' + n \<le> length buf'" "xs = take n (drop o' buf')" by (auto simp: read_bytes_def split: if_splits)
  then have "xs ! (off + i - o') = buf' ! (off + i)" using i by simp
  moreover have "off + i < length buf"
    using w i(1) by (auto simp: write_bytes_def split: if_splits)
  ultimately show False using d nth_write_bytes [OF w, of "off + i"] i(1) by simp
qed


section \<open>Properties\<close>

text \<open>
  However the four threads of the demonstration are interleaved, phase by phase, and
  whatever the C library answers, no thread ever aborts or touches memory that is not a block:
  in every reachable state the next phase of every thread has a result, and it is not one of
  the aborts of \<open>mem_pool_free\<close>.
\<close>

theorem mpu_workers_never_abort:
  assumes "mpu_step\<^sup>*\<^sup>* mpu_main_start (s, ws)" and "t < length ws"
  shows "worker_safe alloc_pop alloc_fill alloc_push free_unlink free_return s (ws ! t)"
  using mpu.workers_reachable [of "fst mpu_main_start" "snd mpu_main_start"] mpu_main_workers assms
  by simp

text \<open>A step the demonstration can take: the first thread finds no memory.\<close>

definition mpu_no_memory :: mpu_env where
  "mpu_no_memory = \<lparr>heap_bytes = None, now = 0, stack_frames = []\<rparr>"

lemma mpu_first_step:
  "\<exists>s. mpu_step mpu_main_start (s, (replicate THREADS (Idle 0))[0 := Idle (0 + 1)])"
proof -
  have f: "class_free (slab_classes (fst mpu_main_start) ! i) = None" if "i < length class_sizes" for i
  proof -
    from mpu_invD(3) [OF mpu_main_inv that] have "lists_at (mpu_mem (fst mpu_main_start))
      (class_free (slab_classes (fst mpu_main_start) ! i)) {}" by simp
    then show ?thesis by (auto simp: lists_at_def)
  qed
  have "class_index 100 = Some 4" by (simp add: class_index_cases)
  then have p: "\<exists>z. alloc_pop mpu_no_memory 100 (fst mpu_main_start) = Some (fst mpu_main_start, None, z)"
    using find_slab_index_tables [OF mpu_invD(1) [OF mpu_main_inv], of 100] f [of 4]
    by (simp add: alloc_pop_def Let_def new_buffer_def mpu_no_memory_def length_class_sizes)
  then obtain z where z: "alloc_pop mpu_no_memory 100 (fst mpu_main_start) = Some (fst mpu_main_start, None, z)" ..
  have "mpu_step (fst mpu_main_start, snd mpu_main_start)
      (fst mpu_main_start, (replicate THREADS (Idle 0))[0 := Idle (0 + 1)])"
    using step_no_memory [where pop = alloc_pop and env = mpu_no_memory and sz = 100 and z = z and t = 0
        and n = 0 and ws = "replicate THREADS (Idle 0)", OF _ _ _ _ _ z]
    by (simp add: mpu_main_start_def THREADS_def ALLOCS_def)
  then show ?thesis by (metis prod.collapse)
qed

lemma mpu_workers_never_abort_witness:
  "\<exists>s ws. mpu_step\<^sup>*\<^sup>* mpu_main_start (s, ws) \<and> ws ! 0 = Idle 1
     \<and> worker_safe alloc_pop alloc_fill alloc_push free_unlink free_return s (ws ! 0)"
proof -
  obtain s where st: "mpu_step mpu_main_start (s, (replicate THREADS (Idle 0))[0 := Idle (0 + 1)])"
    using mpu_first_step by blast
  let ?ws = "(replicate THREADS (Idle 0))[0 := Idle (0 + 1)]"
  have "mpu_step\<^sup>*\<^sup>* mpu_main_start (s, ?ws)" using st by (rule r_into_rtranclp)
  moreover from mpu_workers_never_abort [OF this, of 0] have
    "worker_safe alloc_pop alloc_fill alloc_push free_unlink free_return s (?ws ! 0)"
    by (simp add: THREADS_def)
  ultimately show ?thesis by (intro exI [of _ s] exI [of _ ?ws]) (simp add: THREADS_def)
qed

text \<open>
  The threads of the demonstration finish: an execution has at most five phases for each of
  the 4000 rounds, it stops only when every thread has made all its rounds, and then \<open>main\<close>
  prints no block in use and no leak and its \<open>mem_pool_destroy\<close> gives every block back.
\<close>

theorem mpu_workers_finish:
  assumes "(mpu_step ^^ k) mpu_main_start (s, ws)"
  shows "k \<le> 5 * ALLOCS * THREADS
    \<and> ((\<forall>y. \<not> mpu_step (s, ws) y) \<longrightarrow>
        (\<forall>w \<in> set ws. \<exists>n \<ge> ALLOCS. w = Idle n) \<and> mpu_dump_stats s = Some (0, 0)
        \<and> mpu_dump_leaks s = Some [] \<and> (\<exists>s'. mpu_destroy s = Some s' \<and> mpu_mem s' = Map.empty))"
proof -
  have st: "mpu_main_start = (fst mpu_main_start, replicate THREADS (Idle 0))" by (simp add: mpu_main_start_def)
  with worker_steps_bound [where s = "fst mpu_main_start" and ws = "replicate THREADS (Idle 0)"] assms
  have "k + total_work ws \<le> total_work (replicate THREADS (Idle 0))" by metis
  then have bound: "k \<le> 5 * ALLOCS * THREADS" by (simp add: total_work_start)
  have "mpu_step\<^sup>*\<^sup>* mpu_main_start (s, ws)" using assms by (rule relpowp_imp_rtranclp)
  then have iv: "mpu.workers_inv s ws"
    using mpu.workers_reachable [of "fst mpu_main_start" "snd mpu_main_start" s ws] mpu_main_workers by simp
  have "(\<forall>w \<in> set ws. \<exists>n \<ge> ALLOCS. w = Idle n) \<and> mpu_dump_stats s = Some (0, 0)
      \<and> mpu_dump_leaks s = Some [] \<and> (\<exists>s'. mpu_destroy s = Some s' \<and> mpu_mem s' = Map.empty)"
    if stuck: "\<forall>y. \<not> mpu_step (s, ws) y"
  proof -
    have idle: "\<exists>n \<ge> ALLOCS. w = Idle n" if "w \<in> set ws" for w
      using mpu.workers_stuck [OF iv _ that] stuck by blast
    then obtain pl where "mpu_inv s pl" "\<forall>b. spare (pl b)" using mpu.workers_done [OF iv] by blast
    from idle_pool [OF this] idle show ?thesis by blast
  qed
  with bound show ?thesis by blast
qed

text \<open>
  A store inside the bytes a client asked for, which changes a byte among the last eight of
  its block's size class, makes the free of the block abort as a buffer overflow: the guard word
  lies inside the user's bytes.
\<close>

theorem mpu_tail_store_aborts:
  assumes "mpu_inv s pl" and "protect_mode s" and "sz \<le> 8192" and "class_index sz = Some i"
    and "mem_pool_alloc_label env sz label s = Some (s1, Some b)"
    and "off + length bs \<le> unat sz" and "k < length bs" and "unat (class_sizes ! i) - 8 \<le> off + k"
    and "bs ! k \<noteq> le64 TAIL_MAGIC ! (off + k - (unat (class_sizes ! i) - 8))"
  shows "\<exists>s2. mpu_store b off bs s1 = Some s2
    \<and> mpu_free (Some b) s2 = Some (Inl (Buffer_overflow b (copy_label label)))"
proof -
  from alloc_label_result [OF assms(1,3,5)] assms(2,4) obtain blk pl' where
    blk: "mpu_inv s1 pl'" "pl' b = Listed" "mpu_mem s1 b = Some blk" "mb_size blk = class_sizes ! i"
    "mb_label blk = copy_label label" "guard_head blk = PROTECT_MAGIC" "protect_mode s1" by auto
  from mpu_inv_block [OF blk(1,2)] blk(3) have ok: "guarded True blk" using blk(7) by (simp add: block_ok_def)
  from class_index_proper [OF assms(4)] have z: "unat sz \<le> unat (class_sizes ! i)" by (simp add: word_le_nat_alt)
  have z8: "8 \<le> unat (class_sizes ! i)" and len: "unat (class_sizes ! i) \<le> length (payload blk)"
    using ok blk(4) by (auto simp: guarded_def fits_def proper_size_def word_le_nat_alt)
  obtain bytes where w: "write_bytes (payload blk) off bs = Some bytes"
    using assms(6) z len by (auto simp: write_bytes_def)
  have d: "read_bytes bytes (unat (class_sizes ! i) - 8) 8 \<noteq> Some (le64 TAIL_MAGIC)"
    by (rule write_bytes_differ [OF w assms(7,8) _ assms(9)]) (use assms(6,7) z z8 in arith)
  obtain r where r: "read_bytes bytes (unat (class_sizes ! i) - 8) 8 = Some r"
    using len z8 length_write_bytes [OF w] by (auto simp: read_bytes_def)
  let ?s = "s1\<lparr>mpu_mem := (mpu_mem s1)(b \<mapsto> blk\<lparr>payload := bytes\<rparr>)\<rparr>"
  have "mpu_store b off bs s1 = Some ?s" using blk(3) w by (simp add: mpu_store_def)
  moreover have "mpu_free (Some b) ?s = Some (Inl (Buffer_overflow b (copy_label label)))"
    using ok blk(4-7) r d z8 by (simp add: mpu_free_def free_unlink_def guarded_def)
  ultimately show ?thesis by blast
qed

lemma mpu_free_ok:
  assumes "mpu_inv s pl" and "pl b = Listed"
  shows "\<exists>s' pl'. mpu_free (Some b) s = Some (Inr s') \<and> mpu_inv s' pl'"
proof -
  from free_unlink_ok [OF assms] obtain s1 where
    u: "free_unlink b s = Some (Inr s1)" "mpu_inv s1 (pl(b := Out))" by blast
  from free_return_ok [OF u(2), of b] obtain s2 x where "free_return b s1 = Some s2" "mpu_inv s2 (pl(b := Out, b := x))"
    by auto
  with u(1) show ?thesis by (simp add: mpu_free_def) blast
qed

lemma free_unlink_size:
  assumes "mpu_inv s pl" and "pl b = Listed" and "mpu_mem s b = Some blk" and "free_unlink b s = Some (Inr s1)"
  shows "\<exists>x. mpu_mem s1 b = Some (blk\<lparr>mb_freed := True, mb_next := x\<rparr>)"
proof -
  let ?m1 = "(mpu_mem s)(b \<mapsto> blk\<lparr>mb_freed := True\<rparr>)"
  have "lists_at ?m1 (active_list s) {p. pl p = Listed}"
    by (rule lists_at_write [OF mpu_invD(2) [OF assms(1)]]) (use assms(3) in auto)
  from lists_at_unlink [OF this, of b] assms(2) obtain m2 head where
    u: "unlink_active ?m1 (active_list s) None (active_list s) b = Some (m2, head)"
    and "\<forall>q. m2 q = ?m1 q \<or> (pl q = Listed \<and> (\<exists>qb x. ?m1 q = Some qb \<and> m2 q = Some (qb\<lparr>mb_next := x\<rparr>)))"
    by auto
  then have "m2 b = ?m1 b \<or> (\<exists>qb x. ?m1 b = Some qb \<and> m2 b = Some (qb\<lparr>mb_next := x\<rparr>))" by blast
  then have "\<exists>x. m2 b = Some (blk\<lparr>mb_freed := True, mb_next := x\<rparr>)"
    by (elim disjE exE conjE) (cases blk, auto)+
  moreover have "mpu_mem s1 = m2"
    using assms(3,4) u by (auto simp: free_unlink_def Let_def split: if_splits bind_splits)
  ultimately show ?thesis by simp
qed

text \<open>A free of a block of a class leaves it, marked, at the head of the list of its class.\<close>

lemma free_block_waits:
  assumes "mpu_inv s pl" and "pl b = Listed" and "mpu_mem s b = Some blk" and "class_index (mb_size blk) = Some i"
  shows "\<exists>s' pl' b'. mpu_free (Some b) s = Some (Inr s') \<and> mpu_inv s' pl' \<and> mpu_mem s' b = Some b'
    \<and> mb_freed b' \<and> class_free (slab_classes s' ! i) = Some b"
proof -
  from free_unlink_ok [OF assms(1,2)] obtain s1 where
    u: "free_unlink b s = Some (Inr s1)" "mpu_inv s1 (pl(b := Out))" by blast
  from free_unlink_size [OF assms(1-3) u(1)] obtain x where
    x: "mpu_mem s1 b = Some (blk\<lparr>mb_freed := True, mb_next := x\<rparr>)" by blast
  have i: "i < length (slab_classes s1)"
    using class_index_proper [OF assms(4)] mpu_invD(1) [OF u(2)]
    by (simp add: tables_ok_def length_class_sizes MAX_SLAB_CLASSES_def)
  from mpu_free_ok [OF assms(1,2)] obtain s2 pl2 where
    f: "mpu_free (Some b) s = Some (Inr s2)" "mpu_inv s2 pl2" by blast
  from f(1) u(1) x assms(4) find_slab_index_tables [OF mpu_invD(1) [OF u(2)], of "mb_size blk"] i
  have "\<exists>b'. mpu_mem s2 b = Some b' \<and> mb_freed b' \<and> class_free (slab_classes s2 ! i) = Some b"
    by (auto simp: mpu_free_def free_return_def)
  with f show ?thesis by blast
qed

lemma alloc_label_reuses:
  assumes inv: "mpu_inv s pl" and sz: "sz \<le> 8192" and i: "class_index sz = Some i"
    and f: "class_free (slab_classes s ! i) = Some b"
  shows "\<exists>s1. mem_pool_alloc_label env sz label s = Some (s1, Some b)"
proof -
  from alloc_pop_ok [OF inv sz, of env] obtain s2 r z where
    pop: "alloc_pop env sz s = Some (s2, r, z)" "\<And>b. r = Some b \<Longrightarrow> mpu_inv s2 (pl(b := Raw z))"
    by fastforce
  have b: "r = Some b"
    using pop(1) f i find_slab_index_tables [OF mpu_invD(1) [OF inv], of sz]
    by (auto simp: alloc_pop_def Let_def split: bind_splits)
  from alloc_fill_ok [OF pop(2) [OF b], of b z env label] obtain s3 where
    fill: "alloc_fill env z label b s2 = Some s3" "mpu_inv s3 (pl(b := Ready))" by auto
  from alloc_push_ok [OF fill(2), of b] obtain s4 where "alloc_push b s3 = Some s4" by auto
  with pop(1) fill(1) b show ?thesis by (simp add: mem_pool_alloc_label_def)
qed

text \<open>With memory left, an allocation succeeds.\<close>

lemma alloc_label_succeeds:
  assumes inv: "mpu_inv s pl" and sz: "sz \<le> 8192" and env: "heap_bytes env = Some junk"
  shows "\<exists>s1 b. mem_pool_alloc_label env sz label s = Some (s1, Some b)"
proof -
  from alloc_pop_ok [OF inv sz, of env] obtain s2 r z where
    pop: "alloc_pop env sz s = Some (s2, r, z)" "\<And>b. r = Some b \<Longrightarrow> mpu_inv s2 (pl(b := Raw z))"
    by fastforce
  have "r \<noteq> None"
    using pop(1) env by (auto simp: alloc_pop_def Let_def new_buffer_def split: option.splits bind_splits if_splits)
  then obtain b where b: "r = Some b" by blast
  from alloc_fill_ok [OF pop(2) [OF b], of b z env label] obtain s3 where
    fill: "alloc_fill env z label b s2 = Some s3" "mpu_inv s3 (pl(b := Ready))" by auto
  from alloc_push_ok [OF fill(2), of b] obtain s4 where "alloc_push b s3 = Some s4" by auto
  with pop(1) fill(1) b show ?thesis by (simp add: mem_pool_alloc_label_def)
qed

definition mpu_some_memory :: mpu_env where
  "mpu_some_memory = \<lparr>heap_bytes = Some (\<lambda>_. 0), now = 0, stack_frames = []\<rparr>"

lemma mpu_tail_store_aborts_witness:
  "\<exists>s1 s2 b. mem_pool_alloc_label mpu_some_memory 8 (Some ''a'') (mpu_init mpu_start) = Some (s1, Some b)
     \<and> mpu_store b 0 [1, 2, 3, 4, 5, 6, 7, 8] s1 = Some s2
     \<and> mpu_free (Some b) s2 = Some (Inl (Buffer_overflow b ''a''))"
proof -
  have "heap_bytes mpu_some_memory = Some (\<lambda>_. 0)" by (simp add: mpu_some_memory_def)
  from alloc_label_succeeds [OF mpu_inv_init _ this, of 8 "Some ''a''"] obtain s1 b where
    al: "mem_pool_alloc_label mpu_some_memory 8 (Some ''a'') (mpu_init mpu_start) = Some (s1, Some b)" by auto
  have "\<exists>s2. mpu_store b 0 [1, 2, 3, 4, 5, 6, 7, 8] s1 = Some s2
      \<and> mpu_free (Some b) s2 = Some (Inl (Buffer_overflow b (copy_label (Some ''a''))))"
    by (rule mpu_tail_store_aborts [OF mpu_inv_init _ _ _ al, where off = 0 and k = 0 and i = 0])
      (simp_all add: protect_mode_init class_index_cases class_sizes_def le64_def TAIL_MAGIC_def upt_conv_Cons)
  with al show ?thesis by (auto simp: copy_label_def MAX_LABEL_LEN_def)
qed

text \<open>
  A block allocated while protection was off is reported as a buffer underrun, and the
  program aborted, when it is freed after protection was switched on: the guard word of its
  header was never written.
\<close>

theorem mpu_protection_switch_aborts:
  assumes "mpu_inv s pl" and "\<not> protect_mode s" and "sz \<le> 8192" and "enabled \<noteq> 0"
    and "mem_pool_alloc_label env sz label s = Some (s1, Some b)"
  shows "mpu_free (Some b) (mpu_set_protection enabled s1) =
    Some (Inl (Buffer_underrun b (copy_label label)))"
proof -
  from alloc_label_result [OF assms(1,3,5)] assms(2) obtain blk pl' where
    blk: "mpu_inv s1 pl'" "pl' b = Listed" "mpu_mem s1 b = Some blk" "mb_label blk = copy_label label"
    "guard_head blk = 0" by auto
  from mpu_inv_block [OF blk(1,2)] blk(3) have "\<not> mb_freed blk" by (simp add: block_ok_def guarded_def)
  with blk(3-5) assms(4) show ?thesis
    by (simp add: mpu_free_def free_unlink_def mpu_set_protection_def PROTECT_MAGIC_def)
qed

lemma mpu_inv_switch_off:
  assumes "mpu_inv s pl"
  shows "mpu_inv (mpu_set_protection 0 s) pl"
proof -
  have "block_ok False x p b" if "block_ok pr x p b" for pr x p b
    using that by (auto simp: block_ok_def guarded_def split: place.splits)
  then have "block_ok False (pl p) p b" if "mpu_mem s p = Some b" for p b
    using mpu_invD(6) [OF assms that] by blast
  with assms show ?thesis by (simp add: mpu_inv_def mpu_set_protection_def tables_ok_def)
qed

lemma mpu_protection_switch_aborts_witness:
  "\<exists>s1 b. mem_pool_alloc_label mpu_some_memory 100 None (mpu_set_protection 0 (mpu_init mpu_start)) = Some (s1, Some b)
     \<and> mpu_free (Some b) (mpu_set_protection 1 s1) = Some (Inl (Buffer_underrun b ''unknown''))"
proof -
  note iv = mpu_inv_switch_off [OF mpu_inv_init]
  have "heap_bytes mpu_some_memory = Some (\<lambda>_. 0)" by (simp add: mpu_some_memory_def)
  from alloc_label_succeeds [OF iv _ this, of 100 None] obtain s1 b where
    al: "mem_pool_alloc_label mpu_some_memory 100 None (mpu_set_protection 0 (mpu_init mpu_start)) = Some (s1, Some b)"
    by auto
  have "mpu_free (Some b) (mpu_set_protection 1 s1) = Some (Inl (Buffer_underrun b (copy_label None)))"
    by (rule mpu_protection_switch_aborts [OF iv _ _ _ al]) (simp_all add: mpu_set_protection_def)
  with al show ?thesis by (auto simp: copy_label_def MAX_LABEL_LEN_def)
qed

text \<open>
  A block of a size class is freed without complaint; freeing it again is reported as a
  double free; but the next allocation of its class hands out the same block, after which the
  stale pointer frees the block of its new owner unnoticed.
\<close>

theorem mpu_double_free_window:
  assumes "mpu_inv s pl" and "sz \<le> 8192" and "sz' \<le> 8192" and "class_index sz' = class_index sz"
    and "mem_pool_alloc_label env sz label s = Some (s1, Some b)"
  shows "\<exists>s2 s3 s4. mpu_free (Some b) s1 = Some (Inr s2)
    \<and> mpu_free (Some b) s2 = Some (Inl (Double_free b))
    \<and> mem_pool_alloc_label env' sz' label' s2 = Some (s3, Some b)
    \<and> mpu_free (Some b) s3 = Some (Inr s4)"
proof -
  from alloc_label_result [OF assms(1,2,5)] obtain i blk pl' where
    blk: "class_index sz = Some i" "mpu_inv s1 pl'" "pl' b = Listed" "mpu_mem s1 b = Some blk"
    "mb_size blk = class_sizes ! i" by auto
  then have "class_index (mb_size blk) = Some i" using class_index_proper class_index_class by simp
  from free_block_waits [OF blk(2-4) this] obtain s2 pl2 b2 where
    s2: "mpu_free (Some b) s1 = Some (Inr s2)" "mpu_inv s2 pl2" "mpu_mem s2 b = Some b2" "mb_freed b2"
    "class_free (slab_classes s2 ! i) = Some b" by auto
  have "mpu_free (Some b) s2 = Some (Inl (Double_free b))"
    using s2(3,4) by (simp add: mpu_free_def free_unlink_def)
  moreover obtain s3 where s3: "mem_pool_alloc_label env' sz' label' s2 = Some (s3, Some b)"
    using alloc_label_reuses [OF s2(2) assms(3) _ s2(5)] assms(4) blk(1) by auto
  moreover from alloc_label_result [OF s2(2) assms(3) s3] obtain pl3 where
    "mpu_inv s3 pl3" "pl3 b = Listed" by blast
  from mpu_free_ok [OF this] obtain s4 where "mpu_free (Some b) s3 = Some (Inr s4)" by blast
  ultimately show ?thesis using s2(1) by blast
qed

lemma mpu_double_free_window_witness:
  "\<exists>s1 s2 s3 s4 b. mem_pool_alloc_label mpu_some_memory 100 (Some ''a'') (mpu_init mpu_start) = Some (s1, Some b)
     \<and> mpu_free (Some b) s1 = Some (Inr s2) \<and> mpu_free (Some b) s2 = Some (Inl (Double_free b))
     \<and> mem_pool_alloc_label mpu_some_memory 128 (Some ''b'') s2 = Some (s3, Some b)
     \<and> mpu_free (Some b) s3 = Some (Inr s4)"
proof -
  have "heap_bytes mpu_some_memory = Some (\<lambda>_. 0)" by (simp add: mpu_some_memory_def)
  from alloc_label_succeeds [OF mpu_inv_init _ this, of 100 "Some ''a''"] obtain s1 b where
    al: "mem_pool_alloc_label mpu_some_memory 100 (Some ''a'') (mpu_init mpu_start) = Some (s1, Some b)" by auto
  have "class_index 128 = class_index 100" by (simp add: class_index_cases)
  from mpu_double_free_window [OF mpu_inv_init _ _ this al, of mpu_some_memory "Some ''b''"] al
  show ?thesis by auto
qed

end
