(* ===== verification/MemPoolServer.thy ===== *)
theory MemPoolServer
  imports MemPoolUpgrade
begin

text \<open>
  The third memory pool (\<open>15.memory_allocation/2.mem_pool_c/3.m_mem_pool\<close>): the second one with
  its global variables gathered in one object, made by a constructor before \<open>main\<close> and released
  by a destructor after it.  Every operation is shown to do to the object what the operation of
  the second version does to the variables, so that the contract of the phases, and with it the
  safety of the threads, carries over.
\<close>

section \<open>Data\<close>

text \<open>
  The block and the size class are declared as in the second version, and so are the records
  here.  \<open>mp_srv\<close> is \<open>NULL\<close>, points to the object, or to memory that was released.
\<close>

type_synonym mem_blk = MemBlock

type_synonym slab_class = SlabClass

record mem_pool_srv =
  slab_cls_cnt :: nat
  slabs_of :: "slab_class list"
  srv_active_list :: ptr
  srv_debug_mode :: bool
  srv_protect_mode :: bool

datatype srv_pointer = Srv_null | Srv mem_pool_srv | Srv_released

record mps_state =
  mp_srv :: srv_pointer
  mps_mem :: "nat \<rightharpoonup> mem_blk"
  mps_fresh :: nat

definition mps_start :: mps_state where
  "mps_start = \<lparr>mp_srv = Srv_null, mps_mem = Map.empty, mps_fresh = 0\<rparr>"

text \<open>Reading and changing the object; through any other pointer there is no result.\<close>

definition the_srv :: "mps_state \<Rightarrow> mem_pool_srv option" where
  "the_srv s = (case mp_srv s of Srv v \<Rightarrow> Some v | _ \<Rightarrow> None)"

section \<open>Operations\<close>

function mps_init_loop :: "nat \<Rightarrow> size_t \<Rightarrow> mem_pool_srv \<Rightarrow> mem_pool_srv" where
  "mps_init_loop i sz v =
     (if i < MAX_SLAB_CLASSES \<and> sz \<le> SLAB_MAX_SIZE
      then mps_init_loop (i + 1) (sz * 2)
             (v\<lparr>slabs_of := (slabs_of v)[i := (slabs_of v ! i)\<lparr>block_size := sz\<rparr>],
                slab_cls_cnt := slab_cls_cnt v + 1\<rparr>)
      else v)"
  by pat_completeness auto
termination
  by (relation "measure (\<lambda>(i, sz, v). MAX_SLAB_CLASSES - i)") auto

declare mps_init_loop.simps [simp del]

text \<open>\<open>calloc\<close> may fail; its result is not looked at.\<close>

definition mps_init :: "bool \<Rightarrow> mps_state \<Rightarrow> mps_state option" where
  "mps_init memory s =
     (if memory
      then Some (s\<lparr>mp_srv := Srv (mps_init_loop 0 SLAB_MIN_SIZE
        \<lparr>slab_cls_cnt = 0, slabs_of = replicate MAX_SLAB_CLASSES \<lparr>block_size = 0, class_free = None\<rparr>,
         srv_active_list = None, srv_debug_mode = False, srv_protect_mode = True\<rparr>)\<rparr>)
      else None)"

function mps_find_loop :: "mem_pool_srv \<Rightarrow> size_t \<Rightarrow> nat \<Rightarrow> ptr option" where
  "mps_find_loop v sz i =
     (if i < slab_cls_cnt v
      then if i < length (slabs_of v)
           then if sz \<le> block_size (slabs_of v ! i) then Some (Some i) else mps_find_loop v sz (i + 1)
           else None
      else Some None)"
  by pat_completeness auto
termination
  by (relation "measure (\<lambda>(v, sz, i). slab_cls_cnt v - i)") auto

declare mps_find_loop.simps [simp del]

definition mps_find_slab_index :: "size_t \<Rightarrow> mps_state \<Rightarrow> ptr option" where
  "mps_find_slab_index sz s = Option.bind (the_srv s) (\<lambda>v. mps_find_loop v sz 0)"

definition mps_set_debug :: "int \<Rightarrow> mps_state \<Rightarrow> mps_state option" where
  "mps_set_debug enabled s =
     map_option (\<lambda>v. s\<lparr>mp_srv := Srv (v\<lparr>srv_debug_mode := (enabled \<noteq> 0)\<rparr>)\<rparr>) (the_srv s)"

definition mps_set_protection :: "int \<Rightarrow> mps_state \<Rightarrow> mps_state option" where
  "mps_set_protection enabled s =
     map_option (\<lambda>v. s\<lparr>mp_srv := Srv (v\<lparr>srv_protect_mode := (enabled \<noteq> 0)\<rparr>)\<rparr>) (the_srv s)"

definition mps_malloc :: "mpu_env \<Rightarrow> size_t \<Rightarrow> mps_state \<Rightarrow> (mps_state \<times> ptr) option" where
  "mps_malloc env total_size s =
     (case heap_bytes env of
        None \<Rightarrow> Some (s, None)
      | Some junk \<Rightarrow>
          if total_size \<ge> sizeof_MemBlock
          then Some (s\<lparr>mps_mem := (mps_mem s)(mps_fresh s \<mapsto>
                         \<lparr>mb_size = 0, mb_freed = False, mb_label = [], mb_real = 0, mb_next = None,
                          mb_frames = [], mb_time = 0, guard_head = 0,
                          payload = map junk [0..<unat (total_size - sizeof_MemBlock)]\<rparr>),
                       mps_fresh := mps_fresh s + 1\<rparr>, Some (mps_fresh s))
          else None)"

definition mps_alloc_pop :: "mpu_env \<Rightarrow> size_t \<Rightarrow> mps_state \<Rightarrow> (mps_state \<times> ptr \<times> size_t) option" where
  "mps_alloc_pop env sz s = do {
     v \<leftarrow> the_srv s;
     idx \<leftarrow> mps_find_slab_index sz s;
     let actual_size = (case idx of Some i \<Rightarrow> block_size (slabs_of v ! i) | None \<Rightarrow> sz);
     let total_size = sizeof_MemBlock + actual_size + (if srv_protect_mode v then 8 else 0);
     (s1, raw) \<leftarrow> (case idx of
                    None \<Rightarrow> Some (s, None)
                  | Some i \<Rightarrow> (case class_free (slabs_of v ! i) of
                       None \<Rightarrow> Some (s, None)
                     | Some tmp \<Rightarrow> map_option (\<lambda>blk. (s\<lparr>mp_srv := Srv (v\<lparr>slabs_of :=
                           (slabs_of v)[i := (slabs_of v ! i)\<lparr>class_free := mb_next blk\<rparr>]\<rparr>)\<rparr>, Some tmp))
                         (mps_mem s tmp)));
     (s2, raw2) \<leftarrow> (case raw of None \<Rightarrow> mps_malloc env total_size s1 | Some b \<Rightarrow> Some (s1, Some b));
     Some (s2, raw2, actual_size)
   }"

definition mps_alloc_fill ::
  "mpu_env \<Rightarrow> size_t \<Rightarrow> string option \<Rightarrow> nat \<Rightarrow> mps_state \<Rightarrow> mps_state option" where
  "mps_alloc_fill env actual_size label raw s = do {
     v \<leftarrow> the_srv s;
     blk \<leftarrow> mps_mem s raw;
     let blk1 = blk\<lparr>mb_size := actual_size, mb_real := raw, mb_freed := False, mb_time := now env,
                    mb_frames := [], guard_head := (if srv_protect_mode v then PROTECT_MAGIC else 0),
                    mb_label := copy_label label\<rparr>;
     let blk2 = (if srv_debug_mode v
                 then blk1\<lparr>mb_frames := take MAX_CALLSTACK (stack_frames env)\<rparr> else blk1);
     bytes \<leftarrow> (if srv_protect_mode v
              then if unat actual_size < 8 then None
                   else write_bytes (payload blk2) (unat actual_size - 8) (le64 TAIL_MAGIC)
              else Some (payload blk2));
     Some (s\<lparr>mps_mem := (mps_mem s)(raw \<mapsto> blk2\<lparr>payload := bytes\<rparr>)\<rparr>)
   }"

definition mps_alloc_push :: "nat \<Rightarrow> mps_state \<Rightarrow> mps_state option" where
  "mps_alloc_push raw s = do {
     v \<leftarrow> the_srv s;
     blk \<leftarrow> mps_mem s raw;
     Some (s\<lparr>mps_mem := (mps_mem s)(raw \<mapsto> blk\<lparr>mb_next := srv_active_list v\<rparr>),
             mp_srv := Srv (v\<lparr>srv_active_list := Some raw\<rparr>)\<rparr>)
   }"

definition mps_alloc_label ::
  "mpu_env \<Rightarrow> size_t \<Rightarrow> string option \<Rightarrow> mps_state \<Rightarrow> (mps_state \<times> ptr) option" where
  "mps_alloc_label env sz label s = do {
     (s1, raw, actual_size) \<leftarrow> mps_alloc_pop env sz s;
     (case raw of
        None \<Rightarrow> Some (s1, None)
      | Some b \<Rightarrow> do {
          s2 \<leftarrow> mps_alloc_fill env actual_size label b s1;
          s3 \<leftarrow> mps_alloc_push b s2;
          Some (s3, Some b)
        })
   }"

definition mps_alloc :: "mpu_env \<Rightarrow> size_t \<Rightarrow> mps_state \<Rightarrow> (mps_state \<times> ptr) option" where
  "mps_alloc env sz s = mps_alloc_label env sz None s"

text \<open>The search for the link to a block is the loop of the second version, \<open>unlink_active\<close>.\<close>

definition mps_free_unlink :: "nat \<Rightarrow> mps_state \<Rightarrow> (abort_reason + mps_state) option" where
  "mps_free_unlink b s = do {
     v \<leftarrow> the_srv s;
     blk \<leftarrow> mps_mem s b;
     if mb_freed blk then Some (Inl (Double_free b))
     else if srv_protect_mode v \<and> guard_head blk \<noteq> PROTECT_MAGIC
     then Some (Inl (Buffer_underrun b (mb_label blk)))
     else do {
       tail_ok \<leftarrow> (if srv_protect_mode v
                  then if unat (mb_size blk) < 8 then None
                       else map_option (\<lambda>t. t = le64 TAIL_MAGIC)
                              (read_bytes (payload blk) (unat (mb_size blk) - 8) 8)
                  else Some True);
       if \<not> tail_ok then Some (Inl (Buffer_overflow b (mb_label blk)))
       else do {
         let m1 = (mps_mem s)(b \<mapsto> blk\<lparr>mb_freed := True\<rparr>);
         (m2, head) \<leftarrow> unlink_active m1 (srv_active_list v) None (srv_active_list v) b;
         Some (Inr (s\<lparr>mps_mem := m2, mp_srv := Srv (v\<lparr>srv_active_list := head\<rparr>)\<rparr>))
       }
     }
   }"

definition mps_free_return :: "nat \<Rightarrow> mps_state \<Rightarrow> mps_state option" where
  "mps_free_return b s = do {
     v \<leftarrow> the_srv s;
     blk \<leftarrow> mps_mem s b;
     idx \<leftarrow> mps_find_slab_index (mb_size blk) s;
     (case idx of
        Some i \<Rightarrow>
          Some (s\<lparr>mps_mem := (mps_mem s)(b \<mapsto> blk\<lparr>mb_next := class_free (slabs_of v ! i)\<rparr>),
                  mp_srv := Srv (v\<lparr>slabs_of :=
                    (slabs_of v)[i := (slabs_of v ! i)\<lparr>class_free := Some b\<rparr>]\<rparr>)\<rparr>)
      | None \<Rightarrow> Some (s\<lparr>mps_mem := (mps_mem s)(mb_real blk := None)\<rparr>))
   }"

definition mps_free :: "ptr \<Rightarrow> mps_state \<Rightarrow> (abort_reason + mps_state) option" where
  "mps_free pt s =
     (case pt of
        None \<Rightarrow> Some (Inr s)
      | Some b \<Rightarrow> do {
          r \<leftarrow> mps_free_unlink b s;
          (case r of
             Inl why \<Rightarrow> Some (Inl why)
           | Inr s1 \<Rightarrow> map_option Inr (mps_free_return b s1))
        })"

text \<open>The walks that print the active list are those of the second version.\<close>

definition mps_dump_stats :: "mps_state \<Rightarrow> (nat \<times> size_t) option" where
  "mps_dump_stats s = Option.bind (the_srv s) (\<lambda>v. stats_loop (mps_mem s) (srv_active_list v) 0 0)"

definition mps_dump_leaks :: "mps_state \<Rightarrow> leak_line list option" where
  "mps_dump_leaks s = Option.bind (the_srv s)
     (\<lambda>v. leaks_loop (srv_debug_mode v) (mps_mem s) (srv_active_list v))"

text \<open>
  The destructor prints the leaks, if a block is in use, before it releases the blocks and the
  object; \<open>mp_srv\<close> keeps its value.
\<close>

definition mps_destroy :: "mps_state \<Rightarrow> (mps_state \<times> leak_line list) option" where
  "mps_destroy s = do {
     v \<leftarrow> the_srv s;
     m1 \<leftarrow> release_chains (map class_free (take (slab_cls_cnt v) (slabs_of v))) (mps_mem s);
     out \<leftarrow> (case srv_active_list v of
              None \<Rightarrow> Some []
            | Some c \<Rightarrow> leaks_loop (srv_debug_mode v) m1 (srv_active_list v));
     m2 \<leftarrow> release_chain (srv_active_list v) m1;
     Some (s\<lparr>mps_mem := m2, mp_srv := Srv_released\<rparr>, out)
   }"

section \<open>The object and the variables\<close>

text \<open>The object of the third version stands for the variables of the second.\<close>

definition mps_up :: "mps_state \<Rightarrow> mpu_state \<Rightarrow> bool" where
  "mps_up s t \<longleftrightarrow> (\<exists>v. mp_srv s = Srv v \<and> t =
     \<lparr>slab_sizes = map block_size (slabs_of v), slab_class_count = slab_cls_cnt v,
      slab_classes = slabs_of v, active_list = srv_active_list v, debug_mode = srv_debug_mode v,
      protect_mode = srv_protect_mode v, mpu_mem = mps_mem s, mpu_fresh = mps_fresh s\<rparr>)"

lemma mps_upE:
  assumes "mps_up s t"
  obtains v where "mp_srv s = Srv v" "the_srv s = Some v"
    "t = \<lparr>slab_sizes = map block_size (slabs_of v), slab_class_count = slab_cls_cnt v,
      slab_classes = slabs_of v, active_list = srv_active_list v, debug_mode = srv_debug_mode v,
      protect_mode = srv_protect_mode v, mpu_mem = mps_mem s, mpu_fresh = mps_fresh s\<rparr>"
  using assms by (auto simp: mps_up_def the_srv_def)

lemma sizes_stay [simp]:
  "map block_size (cs[i := (cs ! i)\<lparr>class_free := x\<rparr>]) = map block_size cs"
proof (rule nth_equalityI)
  show "map block_size (cs[i := (cs ! i)\<lparr>class_free := x\<rparr>]) ! j = map block_size cs ! j"
    if "j < length (map block_size (cs[i := (cs ! i)\<lparr>class_free := x\<rparr>]))" for j
    using that by (cases "j = i") simp_all
qed simp

lemma find_loop_up:
  "slab_sizes t = map block_size (slabs_of v) \<Longrightarrow> slab_class_count t = slab_cls_cnt v \<Longrightarrow>
     mps_find_loop v sz i = find_slab_loop t sz i"
proof (induction v sz i rule: mps_find_loop.induct)
  case (1 v sz i)
  then show ?case by (simp add: mps_find_loop.simps [of v sz i] find_slab_loop.simps [of t sz i])
qed

lemma find_up: "mps_up s t \<Longrightarrow> mps_find_slab_index sz s = find_slab_index sz t"
  by (elim mps_upE) (simp add: mps_find_slab_index_def find_slab_index_def find_loop_up)

lemma malloc_up:
  assumes "mps_up s t"
  shows "rel_option (rel_prod mps_up (=)) (mps_malloc env n s) (new_buffer env n t)"
  using assms by (elim mps_upE) (auto simp: mps_malloc_def new_buffer_def mps_up_def split: option.split)

lemma alloc_pop_up:
  assumes "mps_up s t"
  shows "rel_option (rel_prod mps_up (=)) (mps_alloc_pop env sz s) (alloc_pop env sz t)"
proof -
  from assms obtain v where v: "mp_srv s = Srv v" "the_srv s = Some v" and
    t: "t = \<lparr>slab_sizes = map block_size (slabs_of v), slab_class_count = slab_cls_cnt v,
      slab_classes = slabs_of v, active_list = srv_active_list v, debug_mode = srv_debug_mode v,
      protect_mode = srv_protect_mode v, mpu_mem = mps_mem s, mpu_fresh = mps_fresh s\<rparr>" by (rule mps_upE)
  have tv: "slab_classes t = slabs_of v" "protect_mode t = srv_protect_mode v" "mpu_mem t = mps_mem s"
    using t by simp_all
  have buffer: "rel_option (rel_prod mps_up (=))
      (Option.bind (mps_malloc env n s) (\<lambda>(s2, r). Some (s2, r, z)))
      (Option.bind (new_buffer env n t) (\<lambda>(s2, r). Some (s2, r, z)))" for n and z :: size_t
    using malloc_up [OF assms, of env n]
    by (cases "mps_malloc env n s"; cases "new_buffer env n t") (auto simp: rel_prod_conv split: prod.splits)
  show ?thesis
  proof (cases "find_slab_index sz t")
    case None
    then show ?thesis using v by (simp add: mps_alloc_pop_def alloc_pop_def find_up [OF assms])
  next
    case (Some idx)
    note fi = this
    show ?thesis
    proof (cases idx)
      case None
      then show ?thesis using fi v tv buffer
        by (simp add: mps_alloc_pop_def alloc_pop_def find_up [OF assms] Let_def)
    next
      case i: (Some i)
      show ?thesis
      proof (cases "class_free (slabs_of v ! i)")
        case None
        then show ?thesis using fi i v tv buffer
          by (simp add: mps_alloc_pop_def alloc_pop_def find_up [OF assms] Let_def)
      next
        case (Some b)
        then show ?thesis using fi i v tv t
          by (cases "mps_mem s b")
            (simp_all add: mps_alloc_pop_def alloc_pop_def find_up [OF assms] Let_def pop_class_def mps_up_def)
      qed
    qed
  qed
qed

lemma alloc_fill_up:
  assumes "mps_up s t"
  shows "rel_option mps_up (mps_alloc_fill env z label b s) (alloc_fill env z label b t)"
  using assms
  by (elim mps_upE, cases "mps_mem s b")
    (auto simp: mps_alloc_fill_def alloc_fill_def Let_def mps_up_def split: bind_split)

lemma alloc_push_up:
  assumes "mps_up s t"
  shows "rel_option mps_up (mps_alloc_push b s) (alloc_push b t)"
  using assms
  by (elim mps_upE, cases "mps_mem s b") (auto simp: mps_alloc_push_def alloc_push_def mps_up_def)

lemma free_unlink_up:
  assumes "mps_up s t"
  shows "rel_option (rel_sum (=) mps_up) (mps_free_unlink b s) (free_unlink b t)"
  using assms
  by (elim mps_upE, cases "mps_mem s b")
    (auto simp: mps_free_unlink_def free_unlink_def Let_def mps_up_def split: bind_split)

lemma free_return_up:
  assumes "mps_up s t"
  shows "rel_option mps_up (mps_free_return b s) (free_return b t)"
proof -
  from assms obtain v where v: "mp_srv s = Srv v" "the_srv s = Some v" and
    t: "t = \<lparr>slab_sizes = map block_size (slabs_of v), slab_class_count = slab_cls_cnt v,
      slab_classes = slabs_of v, active_list = srv_active_list v, debug_mode = srv_debug_mode v,
      protect_mode = srv_protect_mode v, mpu_mem = mps_mem s, mpu_fresh = mps_fresh s\<rparr>" by (rule mps_upE)
  show ?thesis
  proof (cases "mps_mem s b")
    case None
    then show ?thesis using v t by (simp add: mps_free_return_def free_return_def)
  next
    case (Some blk)
    then show ?thesis
      using v t find_up [OF assms, of "mb_size blk"]
      by (cases "find_slab_index (mb_size blk) t")
        (auto simp: mps_free_return_def free_return_def mps_up_def split: option.split)
  qed
qed

section \<open>The contract\<close>

definition mps_inv :: "mps_state \<Rightarrow> (nat \<Rightarrow> place) \<Rightarrow> bool" where
  "mps_inv s pl \<longleftrightarrow> (\<exists>t. mps_up s t \<and> mpu_inv t pl)"

interpretation mps: pool_phases mps_inv mps_alloc_pop mps_alloc_fill mps_alloc_push mps_free_unlink mps_free_return
proof (unfold_locales, goal_cases)
  case (1 s pl sz env)
  then obtain t where t: "mps_up s t" "mpu_inv t pl" by (auto simp: mps_inv_def)
  from mpu.pop_ok [OF t(2) 1(2), of env] obtain t' r z where
    p: "alloc_pop env sz t = Some (t', r, z)"
    "case r of None \<Rightarrow> mpu_inv t' pl | Some b \<Rightarrow> spare (pl b) \<and> mpu_inv t' (pl(b := Raw z))" by blast
  from alloc_pop_up [OF t(1), of env sz] p(1) obtain s' where
    "mps_alloc_pop env sz s = Some (s', r, z)" "mps_up s' t'"
    by (auto simp: option_rel_Some2 rel_prod_conv split: prod.splits)
  with p(2) show ?case by (auto simp: mps_inv_def split: option.splits)
next
  case (2 s pl b z env label)
  then obtain t where t: "mps_up s t" "mpu_inv t pl" by (auto simp: mps_inv_def)
  from mpu.fill_ok [OF t(2) 2(2), of env label] alloc_fill_up [OF t(1), of env z label b] show ?case
    by (fastforce simp: option_rel_Some2 mps_inv_def)
next
  case (3 s pl b)
  then obtain t where t: "mps_up s t" "mpu_inv t pl" by (auto simp: mps_inv_def)
  from mpu.push_ok [OF t(2) 3(2)] alloc_push_up [OF t(1), of b] show ?case
    by (fastforce simp: option_rel_Some2 mps_inv_def)
next
  case (4 s pl b)
  then obtain t where t: "mps_up s t" "mpu_inv t pl" by (auto simp: mps_inv_def)
  from mpu.unlink_ok [OF t(2) 4(2)] free_unlink_up [OF t(1), of b] show ?case
    by (fastforce simp: option_rel_Some2 mps_inv_def rel_sum.simps)
next
  case (5 s pl b)
  then obtain t where t: "mps_up s t" "mpu_inv t pl" by (auto simp: mps_inv_def)
  from mpu.ret_ok [OF t(2) 5(2)] free_return_up [OF t(1), of b] show ?case
    by (fastforce simp: option_rel_Some2 mps_inv_def)
qed

section \<open>The demonstration program\<close>

text \<open>The state and the threads when \<open>main\<close> has started them; the constructor ran before.\<close>

definition mps_main_start :: "bool \<Rightarrow> (mps_state \<times> worker list) option" where
  "mps_main_start memory = do {
     s \<leftarrow> mps_init memory mps_start;
     s1 \<leftarrow> mps_set_debug 1 s;
     s2 \<leftarrow> mps_set_protection 1 s1;
     Some (s2, replicate THREADS (Idle 0))
   }"

abbreviation mps_step :: "mps_state \<times> worker list \<Rightarrow> mps_state \<times> worker list \<Rightarrow> bool" where
  "mps_step \<equiv> worker_step mps_alloc_pop mps_alloc_fill mps_alloc_push mps_free_unlink mps_free_return"

lemma mps_init_up: "\<exists>s. mps_init True mps_start = Some s \<and> mps_up s (mpu_init mpu_start)"
  by (simp add: mps_init_def mps_start_def mps_up_def mpu_init_def mpu_start_def mps_init_loop.simps
      init_slab_loop.simps MAX_SLAB_CLASSES_def SLAB_MIN_SIZE_def SLAB_MAX_SIZE_def)

lemma mps_set_up:
  "mps_up s t \<Longrightarrow> \<exists>s'. mps_set_debug e s = Some s' \<and> mps_up s' (mpu_set_debug e t)"
  "mps_up s t \<Longrightarrow> \<exists>s'. mps_set_protection e s = Some s' \<and> mps_up s' (mpu_set_protection e t)"
  by (auto simp: mps_up_def the_srv_def mps_set_debug_def mps_set_protection_def mpu_set_debug_def
      mpu_set_protection_def)

lemma mps_main_up:
  "\<exists>s. mps_main_start True = Some (s, replicate THREADS (Idle 0)) \<and> mps_up s (fst mpu_main_start)"
  using mps_init_up mps_set_up(1) [of _ "mpu_init mpu_start" 1]
    mps_set_up(2) [of _ "mpu_set_debug 1 (mpu_init mpu_start)" 1]
  by (fastforce simp: mps_main_start_def mpu_main_start_def)

lemma mps_main_workers:
  assumes "mps_main_start memory = Some (s, ws)"
  shows "mps.workers_inv s ws" "ws = replicate THREADS (Idle 0)"
proof -
  have "memory" using assms by (auto simp: mps_main_start_def mps_init_def split: if_splits)
  with mps_main_up assms have s: "mps_up s (fst mpu_main_start)" "ws = replicate THREADS (Idle 0)" by auto
  then have "mps_inv s (\<lambda>_. Nowhere)" using mpu_main_inv unfolding mps_inv_def by blast
  then show "mps.workers_inv s ws" using mps.workers_inv_start s(2) by simp
  show "ws = replicate THREADS (Idle 0)" by (rule s(2))
qed

text \<open>A pool with nothing in use, destroyed.\<close>

lemma mps_idle_pool:
  assumes "mps_inv s pl" and "\<forall>b. spare (pl b)"
  shows "mps_dump_stats s = Some (0, 0)
    \<and> (\<exists>s'. mps_destroy s = Some (s', []) \<and> mps_mem s' = Map.empty)"
proof -
  from assms(1) obtain t where t: "mps_up s t" "mpu_inv t pl" by (auto simp: mps_inv_def)
  from t(1) obtain v where v: "mp_srv s = Srv v" "the_srv s = Some v" and
    tv: "t = \<lparr>slab_sizes = map block_size (slabs_of v), slab_class_count = slab_cls_cnt v,
      slab_classes = slabs_of v, active_list = srv_active_list v, debug_mode = srv_debug_mode v,
      protect_mode = srv_protect_mode v, mpu_mem = mps_mem s, mpu_fresh = mps_fresh s\<rparr>" by (rule mps_upE)
  note ip = idle_pool [OF t(2) assms(2)]
  have a: "srv_active_list v = None" using idle_pool_inactive [OF t(2) assms(2)] tv by simp
  from ip(3) obtain t' where "mpu_destroy t = Some t'" "mpu_mem t' = Map.empty" by blast
  with v a tv have "\<exists>s'. mps_destroy s = Some (s', []) \<and> mps_mem s' = Map.empty"
    by (auto simp: mps_destroy_def mpu_destroy_def split: bind_splits)
  moreover have "mps_dump_stats s = Some (0, 0)"
    using ip(1) v(2) tv by (simp add: mps_dump_stats_def mpu_dump_stats_def)
  ultimately show ?thesis by blast
qed

section \<open>Properties\<close>

text \<open>
  C3: the third version does to its object what the second does to its variables: allocation,
  free, the switches, the statistics and the leak report, called in states that correspond,
  give equal results and states that correspond again, aborts and lack of a result included.
\<close>

theorem mps_refines_upgrade:
  assumes "mps_up s t"
  shows "rel_option (rel_prod mps_up (=)) (mps_alloc_label env sz label s) (mem_pool_alloc_label env sz label t)
    \<and> rel_option (rel_sum (=) mps_up) (mps_free p s) (mpu_free p t)
    \<and> (\<exists>s'. mps_set_protection e s = Some s' \<and> mps_up s' (mpu_set_protection e t))
    \<and> (\<exists>s'. mps_set_debug e s = Some s' \<and> mps_up s' (mpu_set_debug e t))
    \<and> mps_dump_stats s = mpu_dump_stats t \<and> mps_dump_leaks s = mpu_dump_leaks t"
proof (intro conjI)
  have fp: "rel_option (rel_prod mps_up (=))
      (Option.bind (mps_alloc_fill env z label b s1)
        (\<lambda>s2. Option.bind (mps_alloc_push b s2) (\<lambda>s3. Some (s3, Some b))))
      (Option.bind (alloc_fill env z label b t1)
        (\<lambda>s2. Option.bind (alloc_push b s2) (\<lambda>s3. Some (s3, Some b))))" if up: "mps_up s1 t1" for s1 t1 z b
  proof (cases "alloc_fill env z label b t1")
    case None
    with alloc_fill_up [OF up, of env z label b] show ?thesis by simp
  next
    case (Some t2)
    with alloc_fill_up [OF up, of env z label b] obtain s2 where
      s2: "mps_alloc_fill env z label b s1 = Some s2" "mps_up s2 t2" by (auto simp: option_rel_Some2)
    with Some alloc_push_up [OF s2(2), of b] show ?thesis
      by (cases "alloc_push b t2") (auto simp: option_rel_Some2)
  qed
  show "rel_option (rel_prod mps_up (=)) (mps_alloc_label env sz label s) (mem_pool_alloc_label env sz label t)"
  proof (cases "alloc_pop env sz t")
    case None
    with alloc_pop_up [OF assms, of env sz] show ?thesis
      by (simp add: mps_alloc_label_def mem_pool_alloc_label_def)
  next
    case (Some x)
    with alloc_pop_up [OF assms, of env sz] obtain s1 t1 b z where
      x: "mps_alloc_pop env sz s = Some (s1, b, z)" "x = (t1, b, z)" "mps_up s1 t1"
      by (cases x) (auto simp: option_rel_Some2 rel_prod_conv split: prod.splits)
    with Some fp [OF x(3)] show ?thesis
      by (cases b) (simp_all add: mps_alloc_label_def mem_pool_alloc_label_def)
  qed
  show "rel_option (rel_sum (=) mps_up) (mps_free p s) (mpu_free p t)"
  proof (cases p)
    case None
    with assms show ?thesis by (simp add: mps_free_def mpu_free_def)
  next
    case (Some b)
    show ?thesis
      using free_unlink_up [OF assms, of b] free_return_up Some
      by (cases "mps_free_unlink b s"; cases "free_unlink b t")
        (auto simp: mps_free_def mpu_free_def rel_sum.simps option.rel_map)
  qed
  show "mps_dump_stats s = mpu_dump_stats t"
    using assms by (elim mps_upE) (simp add: mps_dump_stats_def mpu_dump_stats_def)
  show "mps_dump_leaks s = mpu_dump_leaks t"
    using assms by (elim mps_upE) (simp add: mps_dump_leaks_def mpu_dump_leaks_def)
qed (use mps_set_up [OF assms] in blast)+

lemma mps_refines_upgrade_witness:
  "\<exists>s s1 t1 b. mps_init True mps_start = Some s
     \<and> mps_alloc_label mpu_some_memory 100 None s = Some (s1, Some b) \<and> mps_up s1 t1
     \<and> mem_pool_alloc_label mpu_some_memory 100 None (mpu_init mpu_start) = Some (t1, Some b)"
proof -
  obtain s where s: "mps_init True mps_start = Some s" "mps_up s (mpu_init mpu_start)" using mps_init_up by blast
  have "heap_bytes mpu_some_memory = Some (\<lambda>_. 0)" by (simp add: mpu_some_memory_def)
  from alloc_label_succeeds [OF mpu_inv_init _ this, of 100 None] obtain t1 b where
    al: "mem_pool_alloc_label mpu_some_memory 100 None (mpu_init mpu_start) = Some (t1, Some b)" by auto
  from mps_refines_upgrade [OF s(2), of mpu_some_memory 100 None] al obtain s1 where
    "mps_alloc_label mpu_some_memory 100 None s = Some (s1, Some b)" "mps_up s1 t1"
    by (auto simp: option_rel_Some2 rel_prod_conv split: prod.splits)
  with s(1) al show ?thesis by blast
qed

text \<open>
  The threads of the third demonstration never abort and never leave the blocks, however
  they are interleaved; they stop within five phases for each of the 4000 rounds and only when
  every thread is done, and then the statistics show nothing in use, and the destructor reports
  no leak and releases every block.
\<close>

theorem mps_workers_finish:
  assumes "mps_main_start memory = Some (s0, ws0)" and "(mps_step ^^ k) (s0, ws0) (s, ws)"
  shows "k \<le> 5 * ALLOCS * THREADS
    \<and> (\<forall>t < length ws. worker_safe mps_alloc_pop mps_alloc_fill mps_alloc_push mps_free_unlink mps_free_return s (ws ! t))
    \<and> ((\<forall>y. \<not> mps_step (s, ws) y) \<longrightarrow>
        (\<forall>w \<in> set ws. \<exists>n \<ge> ALLOCS. w = Idle n) \<and> mps_dump_stats s = Some (0, 0)
        \<and> (\<exists>s'. mps_destroy s = Some (s', []) \<and> mps_mem s' = Map.empty))"
proof -
  note start = mps_main_workers [OF assms(1)]
  from worker_steps_bound [OF assms(2)] have bound: "k \<le> 5 * ALLOCS * THREADS"
    by (simp add: start(2) total_work_start)
  from relpowp_imp_rtranclp [OF assms(2)] have reach:
    "mps.workers_inv s ws"
    "\<forall>t < length ws. worker_safe mps_alloc_pop mps_alloc_fill mps_alloc_push mps_free_unlink mps_free_return s (ws ! t)"
    using mps.workers_reachable start(1) by blast+
  have "(\<forall>w \<in> set ws. \<exists>n \<ge> ALLOCS. w = Idle n) \<and> mps_dump_stats s = Some (0, 0)
        \<and> (\<exists>s'. mps_destroy s = Some (s', []) \<and> mps_mem s' = Map.empty)"
    if stuck: "\<forall>y. \<not> mps_step (s, ws) y"
  proof -
    have idle: "\<exists>n \<ge> ALLOCS. w = Idle n" if "w \<in> set ws" for w
      using mps.workers_stuck [OF reach(1) _ that] stuck by blast
    then obtain pl where "mps_inv s pl" "\<forall>b. spare (pl b)" using mps.workers_done [OF reach(1)] by blast
    from mps_idle_pool [OF this] idle show ?thesis by blast
  qed
  with bound reach(2) show ?thesis by blast
qed

text \<open>
  C10: The threads of the second and of the third demonstration finish, however they are interleaved:
  an execution has at most five phases for each of the 4000 rounds, no phase aborts or leaves the
  blocks, and it stops only when every thread has made all its rounds.  Then the statistics show
  nothing in use, there is no leak, and \<open>mem_pool_destroy\<close> gives every block back.
\<close>

theorem pool_workers_finish:
  assumes "(mpu_step ^^ k) mpu_main_start (s, ws)"
    and "mps_main_start memory = Some (s0, ws0)" and "(mps_step ^^ l) (s0, ws0) (s3, ws3)"
  shows "(k \<le> 5 * ALLOCS * THREADS)
    \<and> (l \<le> 5 * ALLOCS * THREADS)
    \<and> (\<forall>t < length ws. worker_safe alloc_pop alloc_fill alloc_push free_unlink free_return s (ws ! t))
    \<and> (\<forall>t < length ws3. worker_safe mps_alloc_pop mps_alloc_fill mps_alloc_push mps_free_unlink mps_free_return s3 (ws3 ! t))
    \<and> ((\<forall>y. \<not> mpu_step (s, ws) y) \<longrightarrow>
        (\<forall>w \<in> set ws. \<exists>n \<ge> ALLOCS. w = Idle n) \<and> mpu_dump_stats s = Some (0, 0)
        \<and> mpu_dump_leaks s = Some [] \<and> (\<exists>s'. mpu_destroy s = Some s' \<and> mpu_mem s' = Map.empty))
    \<and> ((\<forall>y. \<not> mps_step (s3, ws3) y) \<longrightarrow>
        (\<forall>w \<in> set ws3. \<exists>n \<ge> ALLOCS. w = Idle n) \<and> mps_dump_stats s3 = Some (0, 0)
        \<and> (\<exists>s'. mps_destroy s3 = Some (s', []) \<and> mps_mem s' = Map.empty))"
proof -
  note u = mpu_workers_finish [OF assms(1)]
  have c3: "\<forall>t < length ws. worker_safe alloc_pop alloc_fill alloc_push free_unlink free_return s (ws ! t)"
    using mpu_workers_never_abort [OF relpowp_imp_rtranclp [OF assms(1)]] by blast
  have c1: "k \<le> 5 * ALLOCS * THREADS" and c5: "(\<forall>y. \<not> mpu_step (s, ws) y) \<longrightarrow>
        (\<forall>w \<in> set ws. \<exists>n \<ge> ALLOCS. w = Idle n) \<and> mpu_dump_stats s = Some (0, 0)
        \<and> mpu_dump_leaks s = Some [] \<and> (\<exists>s'. mpu_destroy s = Some s' \<and> mpu_mem s' = Map.empty)"
    using u by blast+
  show ?thesis using c1 c3 c5 mps_workers_finish [OF assms(2,3)] by blast
qed

lemma pool_workers_finish_witness:
  "\<exists>k s ws. (mpu_step ^^ k) mpu_main_start (s, ws) \<and> k \<le> 20000 \<and> mpu_dump_stats s = Some (0, 0)
   \<and> (\<exists>l s0 ws0 s3 ws3. mps_main_start True = Some (s0, ws0) \<and> (mps_step ^^ l) (s0, ws0) (s3, ws3)
     \<and> l \<le> 20000 \<and> (\<forall>y. \<not> mps_step (s3, ws3) y) \<and> (\<exists>s'. mps_destroy s3 = Some (s', [])))"
proof -
  obtain k s ws where k: "(mpu_step ^^ k) mpu_main_start (s, ws)" "\<forall>y. \<not> mpu_step (s, ws) y"
    using worker_runs_end [of alloc_pop alloc_fill alloc_push free_unlink free_return "fst mpu_main_start"
        "snd mpu_main_start"] by (metis prod.collapse)
  obtain s0 where s0: "mps_main_start True = Some (s0, replicate THREADS (Idle 0))" using mps_main_up by blast
  obtain l s3 ws3 where l: "(mps_step ^^ l) (s0, replicate THREADS (Idle 0)) (s3, ws3)" "\<forall>y. \<not> mps_step (s3, ws3) y"
    using worker_runs_end [of mps_alloc_pop mps_alloc_fill mps_alloc_push mps_free_unlink mps_free_return s0]
    by blast
  note p = pool_workers_finish [OF k(1) s0 l(1)]
  have "k \<le> 20000" "l \<le> 20000" using p by (simp_all add: ALLOCS_def THREADS_def)
  moreover have "mpu_dump_stats s = Some (0, 0)" "\<exists>s'. mps_destroy s3 = Some (s', [])" using p k(2) l(2) by blast+
  ultimately show ?thesis using k(1) s0 l by blast
qed

end
