(* ===== verification/SlabPool.thy ===== *)
theory SlabPool
  imports Prelude "HOL-Library.Word" "HOL-Library.Multiset"
begin

text \<open>
  The pool of \<open>3.mem_pool_cxx\<close>: slabs of free blocks by size class, a map of the blocks in use, and
  16 guard bytes before and behind the bytes of the user.  A chunk of \<open>malloc\<close> is the list of its
  bytes, found by a number that stands for its address, and an access outside a chunk is an error.
  A block belongs to the map or to one free list and to nothing else, so it is kept there itself,
  without the pointer to it.
\<close>

section \<open>Data\<close>

abbreviation (input) GUARD_PATTERN :: "8 word" where "GUARD_PATTERN \<equiv> 0xAB"
abbreviation (input) GUARD_SIZE :: nat where "GUARD_SIZE \<equiv> 16"

record Block =
  real_ptr :: nat
  blk_size :: nat

record Slab_cxx =
  chunk_size :: nat
  free_list :: "Block list"
  total_blocks :: "64 word"
  allocated_blocks :: "64 word"

datatype slab_message =
  Invalid_pointer
| Corruption_detected
| Leak_detected nat

record slab_pool =
  slabs :: "Slab_cxx list"
  active_blocks :: "(nat \<times> Block) list"
  chunks :: "nat \<Rightarrow> 8 word list option"
  next_chunk :: nat
  messages :: "slab_message list"

datatype slab_error = Null_access | Out_of_bounds | No_chunk

definition slab_sizes :: "nat list" where
  "slab_sizes = [32, 64, 128, 256, 512, 1024, 2048, 4096]"

text \<open>The constructor.\<close>

definition MemoryPool :: slab_pool where
  "MemoryPool = \<lparr>slabs = map (\<lambda>s. \<lparr>chunk_size = s, free_list = [], total_blocks = 0,
       allocated_blocks = 0\<rparr>) slab_sizes,
     active_blocks = [], chunks = (\<lambda>_. None), next_chunk = 1, messages = []\<rparr>"

section \<open>Bytes and guards\<close>

text \<open>\<open>memset\<close> and a read of some bytes of a chunk.\<close>

definition memset_at ::
  "nat \<Rightarrow> nat \<Rightarrow> 8 word \<Rightarrow> nat \<Rightarrow> (nat \<Rightarrow> 8 word list option) \<Rightarrow> slab_error + (nat \<Rightarrow> 8 word list option)"
where
  "memset_at c off v n h = (case h c of
     None \<Rightarrow> Inl No_chunk
   | Some bs \<Rightarrow>
       if off + n \<le> length bs
       then Inr (h(c \<mapsto> take off bs @ replicate n v @ drop (off + n) bs))
       else Inl Out_of_bounds)"

definition read_at :: "nat \<Rightarrow> nat \<Rightarrow> nat \<Rightarrow> (nat \<Rightarrow> 8 word list option) \<Rightarrow> slab_error + 8 word list" where
  "read_at c off n h = (case h c of
     None \<Rightarrow> Inl No_chunk
   | Some bs \<Rightarrow> if off + n \<le> length bs then Inr (take n (drop off bs)) else Inl Out_of_bounds)"

definition setGuard ::
  "nat \<Rightarrow> nat \<Rightarrow> (nat \<Rightarrow> 8 word list option) \<Rightarrow> slab_error + (nat \<Rightarrow> 8 word list option)" where
  "setGuard c off h = memset_at c off GUARD_PATTERN GUARD_SIZE h"

definition checkGuard :: "nat \<Rightarrow> nat \<Rightarrow> (nat \<Rightarrow> 8 word list option) \<Rightarrow> slab_error + bool" where
  "checkGuard c off h = (case read_at c off GUARD_SIZE h of
     Inl e \<Rightarrow> Inl e
   | Inr bs \<Rightarrow> Inr (list_all (\<lambda>b. b = GUARD_PATTERN) bs))"

section \<open>Operations\<close>

text \<open>The first slab whose chunks are large enough; \<open>None\<close> is the result \<open>-1\<close>.\<close>

fun findSlabIndex :: "nat \<Rightarrow> Slab_cxx list \<Rightarrow> nat option" where
  "findSlabIndex n [] = None"
| "findSlabIndex n (s # ss) =
     (if n \<le> chunk_size s then Some 0 else map_option Suc (findSlabIndex n ss))"

definition set_active :: "nat \<Rightarrow> Block \<Rightarrow> (nat \<times> Block) list \<Rightarrow> (nat \<times> Block) list" where
  "set_active u b xs = (u, b) # filter (\<lambda>(k, _). k \<noteq> u) xs"

text \<open>
  Where the block comes from: the front of the free list of its slab, or a new chunk of the size
  with both guards, in the arithmetic of \<open>size_t\<close>.  \<open>room\<close> is the most \<open>malloc\<close> gives; without it the
  block has a null pointer, which \<open>setGuard\<close> then writes to.  The bytes of a new chunk are uninitialised
  in the code; zeros stand for them here, as nothing reads a byte of a chunk that was not written: the
  pool reads guards only, and those it has set.
\<close>

definition take_block :: "nat \<Rightarrow> nat \<Rightarrow> slab_pool \<Rightarrow> slab_error + (Block \<times> slab_pool)" where
  "take_block room n p = (case findSlabIndex n (slabs p) of
     Some i \<Rightarrow> (case free_list (slabs p ! i) of
         b # bs \<Rightarrow> Inr (b, p\<lparr>slabs := (slabs p)[i := (slabs p ! i)\<lparr>free_list := bs,
                         allocated_blocks := allocated_blocks (slabs p ! i) + 1\<rparr>]\<rparr>)
       | [] \<Rightarrow>
           if room < (n + 2 * GUARD_SIZE) mod 2 ^ 64 then Inl Null_access
           else Inr (\<lparr>real_ptr = next_chunk p, blk_size = n\<rparr>,
                  p\<lparr>chunks := (chunks p)(next_chunk p \<mapsto> replicate ((n + 2 * GUARD_SIZE) mod 2 ^ 64) 0),
                    next_chunk := Suc (next_chunk p),
                    slabs := (slabs p)[i := (slabs p ! i)\<lparr>total_blocks := total_blocks (slabs p ! i) + 1\<rparr>]\<rparr>))
   | None \<Rightarrow>
       if room < (n + 2 * GUARD_SIZE) mod 2 ^ 64 then Inl Null_access
       else Inr (\<lparr>real_ptr = next_chunk p, blk_size = n\<rparr>,
              p\<lparr>chunks := (chunks p)(next_chunk p \<mapsto> replicate ((n + 2 * GUARD_SIZE) mod 2 ^ 64) 0),
                next_chunk := Suc (next_chunk p)\<rparr>))"

text \<open>
  The user pointer of a chunk is \<open>GUARD_SIZE\<close> behind its start; it is named by the chunk.  The
  backtrace is left out.
\<close>

definition allocate :: "nat \<Rightarrow> nat \<Rightarrow> slab_pool \<Rightarrow> slab_error + (nat \<times> slab_pool)" where
  "allocate room n p = (case take_block room n p of
     Inl e \<Rightarrow> Inl e
   | Inr (b, q) \<Rightarrow>
       (case setGuard (real_ptr b) 0 (chunks q) of
          Inl e \<Rightarrow> Inl e
        | Inr h1 \<Rightarrow>
            (case setGuard (real_ptr b) (GUARD_SIZE + n) h1 of
               Inl e \<Rightarrow> Inl e
             | Inr h2 \<Rightarrow>
                 Inr (real_ptr b, q\<lparr>chunks := h2,
                   active_blocks := set_active (real_ptr b) (b\<lparr>blk_size := n\<rparr>) (active_blocks q)\<rparr>))))"

text \<open>\<open>None\<close> is the null pointer; the guard behind the bytes is looked at only if the one before is intact.\<close>

definition give_back :: "Block \<Rightarrow> slab_pool \<Rightarrow> slab_pool" where
  "give_back b p = (case findSlabIndex (blk_size b) (slabs p) of
     Some i \<Rightarrow> p\<lparr>slabs := (slabs p)[i := (slabs p ! i)\<lparr>free_list := free_list (slabs p ! i) @ [b],
                allocated_blocks := allocated_blocks (slabs p ! i) - 1\<rparr>]\<rparr>
   | None \<Rightarrow> p\<lparr>chunks := (chunks p)(real_ptr b := None)\<rparr>)"

definition deallocate :: "nat option \<Rightarrow> slab_pool \<Rightarrow> slab_error + slab_pool" where
  "deallocate ptr p = (case ptr of
     None \<Rightarrow> Inr p
   | Some u \<Rightarrow>
       (case map_of (active_blocks p) u of
          None \<Rightarrow> Inr (p\<lparr>messages := messages p @ [Invalid_pointer]\<rparr>)
        | Some b \<Rightarrow>
            (case checkGuard (real_ptr b) 0 (chunks p) of
               Inl e \<Rightarrow> Inl e
             | Inr front \<Rightarrow>
                 (case (if front then checkGuard (real_ptr b) (GUARD_SIZE + blk_size b) (chunks p) else Inr False) of
                    Inl e \<Rightarrow> Inl e
                  | Inr intact \<Rightarrow>
                      Inr (give_back b
                        (p\<lparr>messages := messages p @ (if intact then [] else [Corruption_detected]),
                           active_blocks := filter (\<lambda>(k, _). k \<noteq> u) (active_blocks p)\<rparr>))))))"

definition dumpLeaks :: "slab_pool \<Rightarrow> slab_pool" where
  "dumpLeaks p = p\<lparr>messages := messages p @ map (\<lambda>(_, b). Leak_detected (blk_size b)) (active_blocks p)\<rparr>"

definition dumpSlabStats :: "slab_pool \<Rightarrow> (nat \<times> 64 word \<times> 64 word \<times> nat) list" where
  "dumpSlabStats p = map (\<lambda>s. (chunk_size s, total_blocks s, allocated_blocks s,
     length (free_list s))) (slabs p)"

definition all_blocks :: "slab_pool \<Rightarrow> Block list" where
  "all_blocks p = map snd (active_blocks p) @ concat (map free_list (slabs p))"

text \<open>The destructor, after its two dumps, frees the chunks of all blocks.\<close>

definition destroy :: "slab_pool \<Rightarrow> nat \<Rightarrow> 8 word list option" where
  "destroy p = foldl (\<lambda>h b. h(real_ptr b := None)) (chunks (dumpLeaks p)) (all_blocks p)"

text \<open>A write of the user, at an offset from its pointer; and the allocator of the containers.\<close>

definition write_user :: "nat \<Rightarrow> nat \<Rightarrow> 8 word \<Rightarrow> slab_pool \<Rightarrow> slab_error + slab_pool" where
  "write_user u off v p = (case memset_at u (GUARD_SIZE + off) v 1 (chunks p) of
     Inl e \<Rightarrow> Inl e | Inr h \<Rightarrow> Inr (p\<lparr>chunks := h\<rparr>))"

definition pa_allocate :: "nat \<Rightarrow> nat \<Rightarrow> nat \<Rightarrow> slab_pool \<Rightarrow> slab_error + (nat \<times> slab_pool)" where
  "pa_allocate room sizeof_T n p = allocate room ((n * sizeof_T) mod 2 ^ 64) p"

definition pa_deallocate :: "nat option \<Rightarrow> nat \<Rightarrow> slab_pool \<Rightarrow> slab_error + slab_pool" where
  "pa_deallocate ptr n p = deallocate ptr p"

section \<open>A block that is reused for a larger request\<close>

text \<open>
  \<open>slab_run\<close> does a list of operations; it stops at the first error.
\<close>

datatype slab_op =
  Allocate nat
| Deallocate "nat option"
| Write_user nat nat "8 word"

fun slab_step :: "nat \<Rightarrow> slab_op \<Rightarrow> slab_pool \<Rightarrow> slab_error + slab_pool" where
  "slab_step room (Allocate n) p = map_sum id snd (allocate room n p)"
| "slab_step room (Deallocate ptr) p = deallocate ptr p"
| "slab_step room (Write_user u off v) p = write_user u off v p"

fun slab_run :: "nat \<Rightarrow> slab_op list \<Rightarrow> slab_pool \<Rightarrow> slab_error + slab_pool" where
  "slab_run room [] p = Inr p"
| "slab_run room (a # ops) p = (case slab_step room a p of
     Inl e \<Rightarrow> Inl e | Inr q \<Rightarrow> slab_run room ops q)"

lemmas slab_code = MemoryPool_def slab_sizes_def allocate_def take_block_def setGuard_def memset_at_def
  set_active_def deallocate_def checkGuard_def read_at_def give_back_def dumpSlabStats_def

section \<open>Requests of the sizes of the slabs\<close>

text \<open>
  A request that is exactly the size of a slab, or above all of them and such that the guards fit
  into \<open>size_t\<close>: then a reused block has the size of the request.
\<close>

definition good_size :: "nat \<Rightarrow> bool" where
  "good_size n \<longleftrightarrow> n \<in> set slab_sizes \<or> 4096 < n \<and> n + 32 < 2 ^ 64"

definition guarded :: "nat \<Rightarrow> 8 word list \<Rightarrow> bool" where
  "guarded n bs \<longleftrightarrow> length bs = n + 32 \<and> take 16 bs = replicate 16 GUARD_PATTERN
     \<and> drop (16 + n) bs = replicate 16 GUARD_PATTERN"

abbreviation ids :: "slab_pool \<Rightarrow> nat list" where
  "ids p \<equiv> map real_ptr (all_blocks p)"

definition active_ok :: "slab_pool \<Rightarrow> bool" where
  "active_ok p \<longleftrightarrow> (\<forall>(u, b) \<in> set (active_blocks p). u = real_ptr b \<and> good_size (blk_size b)
     \<and> (\<exists>bs. chunks p u = Some bs \<and> guarded (blk_size b) bs))"

definition free_ok :: "slab_pool \<Rightarrow> bool" where
  "free_ok p \<longleftrightarrow> (\<forall>s \<in> set (slabs p). \<forall>b \<in> set (free_list s). blk_size b = chunk_size s
     \<and> (\<exists>bs. chunks p (real_ptr b) = Some bs \<and> length bs = blk_size b + 32))"

definition slab_inv :: "slab_pool \<Rightarrow> bool" where
  "slab_inv p \<longleftrightarrow> map chunk_size (slabs p) = slab_sizes \<and> distinct (ids p)
     \<and> dom (chunks p) = set (ids p) \<and> (\<forall>c \<in> set (ids p). c < next_chunk p)
     \<and> active_ok p \<and> free_ok p \<and> Corruption_detected \<notin> set (messages p)"

lemma slab_inv_start: "slab_inv MemoryPool"
  by (simp add: slab_inv_def MemoryPool_def slab_sizes_def all_blocks_def active_ok_def free_ok_def)

lemma good_size_total: "good_size n \<Longrightarrow> (n + 2 * 16) mod 2 ^ 64 = n + 32"
  by (auto simp: good_size_def slab_sizes_def)

lemma slab_sizes_le: "n \<in> set slab_sizes \<Longrightarrow> n \<le> 4096"
  by (auto simp: slab_sizes_def)

lemma findSlabIndex_exact:
  assumes "map chunk_size ss = slab_sizes" "n \<in> set slab_sizes"
  obtains i where "findSlabIndex n ss = Some i" "i < length ss" "chunk_size (ss ! i) = n"
proof -
  have "sorted_wrt (<) (map chunk_size ss)" by (simp add: assms(1) slab_sizes_def)
  moreover have "n \<in> chunk_size ` set ss" using assms by (metis list.set_map)
  ultimately have "\<exists>i. findSlabIndex n ss = Some i \<and> i < length ss \<and> chunk_size (ss ! i) = n"
    by (induction ss) force+
  then show thesis using that by blast
qed

lemma findSlabIndex_large:
  "map chunk_size ss = slab_sizes \<Longrightarrow> 4096 < n \<Longrightarrow> findSlabIndex n ss = None"
proof -
  have "\<forall>s \<in> set ss. chunk_size s < n \<Longrightarrow> findSlabIndex n ss = None" by (induction ss) auto
  moreover assume "map chunk_size ss = slab_sizes" "4096 < n"
  then have "\<forall>s \<in> set ss. chunk_size s < n"
    by (metis (no_types, lifting) image_eqI list.set_map slab_sizes_le order.strict_trans1)
  ultimately show ?thesis by blast
qed

lemma set_guards:
  assumes "h c = Some bs" "length bs = n + 32"
  shows "\<exists>h1 bs2. setGuard c 0 h = Inr h1 \<and> setGuard c (16 + n) h1 = Inr (h(c \<mapsto> bs2)) \<and> guarded n bs2"
proof -
  let ?g = "replicate 16 GUARD_PATTERN"
  let ?bs1 = "?g @ drop 16 bs"
  let ?bs2 = "take (16 + n) ?bs1 @ ?g"
  have "setGuard c 0 h = Inr (h(c \<mapsto> ?bs1))"
    using assms by (simp add: setGuard_def memset_at_def)
  moreover have "setGuard c (16 + n) (h(c \<mapsto> ?bs1)) = Inr (h(c \<mapsto> ?bs2))"
    using assms by (simp add: setGuard_def memset_at_def)
  moreover have "guarded n ?bs2" using assms by (simp add: guarded_def)
  ultimately show ?thesis by blast
qed

lemma check_guards:
  assumes "h c = Some bs" "guarded n bs"
  shows "checkGuard c 0 h = Inr True" "checkGuard c (16 + n) h = Inr True"
  using assms by (simp_all add: checkGuard_def read_at_def guarded_def)

lemma mset_concat_update:
  "i < length xs \<Longrightarrow>
     mset (concat (map f (xs[i := y]))) + mset (f (xs ! i)) = mset (concat (map f xs)) + mset (f y)"
proof (induction xs arbitrary: i)
  case (Cons x xs)
  show ?case
  proof (cases i)
    case 0
    then show ?thesis by (simp add: ac_simps)
  next
    case (Suc j)
    with Cons.prems Cons.IH [of j] show ?thesis by (simp add: ac_simps)
  qed
qed simp

lemma ids_mset:
  assumes "mset (ids q) = mset (ids p)"
  shows "distinct (ids q) = distinct (ids p)" "set (ids q) = set (ids p)"
  using assms mset_eq_imp_distinct_iff mset_eq_setD by blast+

lemma active_key:
  assumes "active_ok p" "distinct (ids p)"
  shows "distinct (map fst (active_blocks p))"
proof -
  have "map fst (active_blocks p) = map real_ptr (map snd (active_blocks p))"
    using assms(1) by (auto simp: active_ok_def)
  moreover have "distinct (map real_ptr (map snd (active_blocks p)))"
    using assms(2) by (simp only: all_blocks_def map_append distinct_append)
  ultimately show ?thesis by (simp only:)
qed

lemma free_okD:
  assumes "free_ok p" "s \<in> set (slabs p)" "b \<in> set (free_list s)"
  shows "blk_size b = chunk_size s"
    "\<exists>bs. chunks p (real_ptr b) = Some bs \<and> length bs = chunk_size s + 32"
  using assms unfolding free_ok_def by (blast, metis)

text \<open>
  The state between \<open>take_block\<close> and the guards: \<open>b\<close> belongs neither to the map nor to a free list.
\<close>

definition taken :: "slab_pool \<Rightarrow> nat \<Rightarrow> Block \<Rightarrow> slab_pool \<Rightarrow> bool" where
  "taken p n b q \<longleftrightarrow> active_blocks q = active_blocks p \<and> messages q = messages p
     \<and> map chunk_size (slabs q) = slab_sizes
     \<and> distinct (real_ptr b # ids q) \<and> dom (chunks q) = set (real_ptr b # ids q)
     \<and> (\<forall>c \<in> set (real_ptr b # ids q). c < next_chunk q)
     \<and> (\<forall>u \<in> fst ` set (active_blocks p). chunks q u = chunks p u)
     \<and> (\<exists>bs. chunks q (real_ptr b) = Some bs \<and> length bs = n + 32) \<and> free_ok q"

lemma active_okD:
  assumes "active_ok p" "(u, b) \<in> set (active_blocks p)"
  shows "u = real_ptr b" "good_size (blk_size b)"
    "\<exists>bs. chunks p u = Some bs \<and> guarded (blk_size b) bs"
  using assms unfolding active_ok_def by blast+

lemma active_ids:
  assumes "active_ok p"
  shows "fst ` set (active_blocks p) \<subseteq> set (ids p)"
proof
  fix u assume "u \<in> fst ` set (active_blocks p)"
  then obtain b where ub: "(u, b) \<in> set (active_blocks p)" by auto
  then have "snd (u, b) \<in> snd ` set (active_blocks p)" by (rule imageI)
  then have "b \<in> set (all_blocks p)" by (simp add: all_blocks_def)
  with active_okD(1) [OF assms ub] show "u \<in> set (ids p)" by simp
qed

lemma slab_invD:
  assumes "slab_inv p"
  shows "map chunk_size (slabs p) = slab_sizes" "distinct (ids p)" "dom (chunks p) = set (ids p)"
    "c \<in> set (ids p) \<Longrightarrow> c < next_chunk p" "active_ok p" "free_ok p"
    "Corruption_detected \<notin> set (messages p)"
  using assms unfolding slab_inv_def by blast+

lemma takenI:
  assumes "active_blocks q = active_blocks p" "messages q = messages p"
    "map chunk_size (slabs q) = slab_sizes" "real_ptr b \<notin> set (ids q)" "distinct (ids q)"
    "dom (chunks q) = insert (real_ptr b) (set (ids q))"
    "real_ptr b < next_chunk q" "\<And>c. c \<in> set (ids q) \<Longrightarrow> c < next_chunk q"
    "\<And>u. u \<in> fst ` set (active_blocks p) \<Longrightarrow> chunks q u = chunks p u"
    "chunks q (real_ptr b) = Some bs" "length bs = n + 32" "free_ok q"
  shows "taken p n b q"
  unfolding taken_def distinct.simps list.set
  by (intro conjI ballI exI [of _ bs]; (elim insertE)?) (use assms in \<open>simp_all only: not_False_eq_True\<close>)

lemma free_ok_same:
  assumes ok: "free_ok p" and sizes: "map chunk_size sl = map chunk_size (slabs p)"
    and sub: "\<And>i. i < length sl \<Longrightarrow> set (free_list (sl ! i)) \<subseteq> set (free_list (slabs p ! i))"
    and chunks: "\<And>s b. s \<in> set (slabs p) \<Longrightarrow> b \<in> set (free_list s) \<Longrightarrow>
      chunks q (real_ptr b) = chunks p (real_ptr b)"
    and q: "slabs q = sl"
  shows "free_ok q"
  unfolding free_ok_def
proof (intro ballI)
  fix s b assume s: "s \<in> set (slabs q)" and b: "b \<in> set (free_list s)"
  then obtain i where i: "i < length sl" "s = sl ! i" by (auto simp: q in_set_conv_nth)
  have len: "length sl = length (slabs p)" using sizes map_eq_imp_length_eq by blast
  have cs: "chunk_size s = chunk_size (slabs p ! i)"
    using sizes i len by (metis nth_map)
  have b': "b \<in> set (free_list (slabs p ! i))" using sub [OF i(1)] b i(2) by blast
  have mem: "slabs p ! i \<in> set (slabs p)" using i len by simp
  from free_okD [OF ok mem b'] cs chunks [OF mem b']
  show "blk_size b = chunk_size s
      \<and> (\<exists>bs. chunks q (real_ptr b) = Some bs \<and> length bs = blk_size b + 32)"
    by auto
qed

lemma taken_fresh:
  assumes inv: "slab_inv p" and sl: "map chunk_size sl = slab_sizes"
    "map free_list sl = map free_list (slabs p)"
  shows "taken p n \<lparr>real_ptr = next_chunk p, blk_size = n\<rparr>
    (p\<lparr>chunks := (chunks p)(next_chunk p \<mapsto> replicate (n + 32) 0),
       next_chunk := Suc (next_chunk p), slabs := sl\<rparr>)" (is "taken p n ?b ?q")
proof -
  note D = slab_invD [OF inv]
  have ids: "ids ?q = ids p" using sl by (simp add: all_blocks_def)
  have new: "next_chunk p \<notin> set (ids p)" using D(4) by blast
  then have none: "next_chunk p \<notin> dom (chunks p)" by (simp only: D(3) not_False_eq_True)
  have fr: "free_ok ?q"
  proof (rule free_ok_same [OF D(6), where sl = sl])
    show "map chunk_size sl = map chunk_size (slabs p)" by (simp only: sl D(1))
    show "set (free_list (sl ! i)) \<subseteq> set (free_list (slabs p ! i))" if "i < length sl" for i
      using that sl(2) by (metis length_map nth_map order_refl)
    show "chunks ?q (real_ptr b) = chunks p (real_ptr b)"
      if "s \<in> set (slabs p)" "b \<in> set (free_list s)" for s b
      using free_okD(2) [OF D(6) that] none by auto
  qed simp
  show ?thesis
  proof (rule takenI [where bs = "replicate (n + 32) 0"])
    show "map chunk_size (slabs ?q) = slab_sizes" using sl by simp
    show "real_ptr ?b \<notin> set (ids ?q)" unfolding ids using new by simp
    show "distinct (ids ?q)" unfolding ids by (rule D(2))
    show "dom (chunks ?q) = insert (real_ptr ?b) (set (ids ?q))" unfolding ids by (simp add: D(3))
    show "c < next_chunk ?q" if "c \<in> set (ids ?q)" for c
      using that D(4) unfolding ids by (simp add: less_SucI)
    show "chunks ?q u = chunks p u" if "u \<in> fst ` set (active_blocks p)" for u
      using that active_ids [OF D(5)] new by auto
  qed (simp_all add: fr)
qed

lemma map_update_same:
  assumes "i < length xs" "f y = f (xs ! i)"
  shows "map f (xs[i := y]) = map f xs"
proof -
  have "map f (xs[i := y]) = (map f xs)[i := map f xs ! i]"
    using assms by (simp add: map_update)
  then show ?thesis by simp
qed

lemma ids_update:
  assumes "i < length (slabs p)" "active_blocks q = active_blocks p"
    "slabs q = (slabs p)[i := s]" "mset (free_list s) + X = mset (free_list (slabs p ! i)) + Y"
  shows "mset (ids q) + image_mset real_ptr X = mset (ids p) + image_mset real_ptr Y"
proof -
  let ?F = "\<lambda>ss. mset (concat (map free_list ss))"
  have "?F (slabs q) + mset (free_list (slabs p ! i)) = ?F (slabs p) + mset (free_list s)"
    unfolding assms(3) by (rule mset_concat_update [OF assms(1)])
  then have "?F (slabs q) + mset (free_list (slabs p ! i)) + X
      = ?F (slabs p) + (mset (free_list (slabs p ! i)) + Y)"
    by (simp only: assms(4)[symmetric] add.assoc)
  then have "?F (slabs q) + X = ?F (slabs p) + Y" by (simp add: ac_simps)
  then have "image_mset real_ptr (?F (slabs q) + X) = image_mset real_ptr (?F (slabs p) + Y)"
    by (simp only:)
  then show ?thesis by (simp add: all_blocks_def assms(2) ac_simps)
qed

lemma taken_reuse:
  assumes inv: "slab_inv p" and i: "i < length (slabs p)" and n: "chunk_size (slabs p ! i) = n"
    and fl: "free_list (slabs p ! i) = b # bs"
  shows "taken p n b (p\<lparr>slabs := (slabs p)[i := (slabs p ! i)\<lparr>free_list := bs,
                         allocated_blocks := allocated_blocks (slabs p ! i) + 1\<rparr>]\<rparr>)"
    (is "taken p n b ?q")
proof -
  note D = slab_invD [OF inv]
  let ?s = "(slabs p ! i)\<lparr>free_list := bs, allocated_blocks := allocated_blocks (slabs p ! i) + 1\<rparr>"
  have "mset (ids ?q) + image_mset real_ptr {# b #} = mset (ids p) + image_mset real_ptr ({#} :: Block multiset)"
    by (rule ids_update [OF i, where s = ?s]) (simp_all add: fl)
  then have "mset (real_ptr b # ids ?q) = mset (ids p)" by (simp only: mset.simps) simp
  then have ids: "distinct (real_ptr b # ids ?q)" "set (real_ptr b # ids ?q) = set (ids p)"
    using D(2) mset_eq_imp_distinct_iff mset_eq_setD by blast+
  have fr: "free_ok ?q"
  proof (rule free_ok_same [OF D(6), where sl = "(slabs p)[i := ?s]"])
    show "map chunk_size ((slabs p)[i := ?s]) = map chunk_size (slabs p)"
      by (rule map_update_same [OF i]) simp
    show "set (free_list ((slabs p)[i := ?s] ! j)) \<subseteq> set (free_list (slabs p ! j))"
      if "j < length ((slabs p)[i := ?s])" for j
      using that i fl by (cases "j = i") auto
  qed simp_all
  obtain cs where cs: "chunks p (real_ptr b) = Some cs" "length cs = n + 32"
    using free_okD(2) [OF D(6) nth_mem [OF i], of b] fl n by auto
  show ?thesis
  proof (rule takenI [where bs = cs])
    show "map chunk_size (slabs ?q) = slab_sizes"
      using map_update_same [OF i, of chunk_size ?s] D(1) by simp
    show "real_ptr b \<notin> set (ids ?q)" "distinct (ids ?q)" using ids(1) by (simp_all only: distinct.simps not_False_eq_True)
    show "dom (chunks ?q) = insert (real_ptr b) (set (ids ?q))"
      using D(3) ids(2) by (simp only: list.set) simp
    have "real_ptr b \<in> set (ids p)" by (metis ids(2) list.set_intros(1))
    then show "real_ptr b < next_chunk ?q" using D(4) by simp
    show "c < next_chunk ?q" if "c \<in> set (ids ?q)" for c
    proof -
      have "c \<in> set (ids p)" by (metis that ids(2) list.set_intros(2))
      then show ?thesis using D(4) by simp
    qed
  qed (simp_all add: cs fr)
qed

text \<open>A request of a good size succeeds when \<open>malloc\<close> has room for it.\<close>

lemma take_block_ok:
  assumes inv: "slab_inv p" and n: "good_size n" and room: "n + 32 \<le> room"
  shows "\<exists>b q. take_block room n p = Inr (b, q) \<and> taken p n b q"
proof -
  note D = slab_invD [OF inv]
  have total: "(n + 2 * 16) mod 2 ^ 64 = n + 32" by (rule good_size_total [OF n])
  show ?thesis
  proof (cases "n \<in> set slab_sizes")
    case True
    obtain i where i: "findSlabIndex n (slabs p) = Some i" "i < length (slabs p)"
      "chunk_size (slabs p ! i) = n"
      by (rule findSlabIndex_exact [OF D(1) True])
    show ?thesis
    proof (cases "free_list (slabs p ! i)")
      case Nil
      let ?s = "(slabs p ! i)\<lparr>total_blocks := total_blocks (slabs p ! i) + 1\<rparr>"
      have "taken p n \<lparr>real_ptr = next_chunk p, blk_size = n\<rparr>
        (p\<lparr>chunks := (chunks p)(next_chunk p \<mapsto> replicate (n + 32) 0),
           next_chunk := Suc (next_chunk p), slabs := (slabs p)[i := ?s]\<rparr>)"
        by (rule taken_fresh [OF inv])
          (simp_all add: map_update_same [OF i(2), of _ ?s] D(1))
      with Nil i room total show ?thesis by (simp add: take_block_def)
    next
      case (Cons b bs)
      from taken_reuse [OF inv i(2,3) Cons] Cons i show ?thesis by (simp add: take_block_def)
    qed
  next
    case False
    with n have "findSlabIndex n (slabs p) = None"
      by (intro findSlabIndex_large [OF D(1)]) (simp add: good_size_def)
    moreover have "taken p n \<lparr>real_ptr = next_chunk p, blk_size = n\<rparr>
        (p\<lparr>chunks := (chunks p)(next_chunk p \<mapsto> replicate (n + 32) 0),
           next_chunk := Suc (next_chunk p), slabs := slabs p\<rparr>)"
      by (rule taken_fresh [OF inv]) (simp_all add: D(1))
    ultimately show ?thesis using room total by (simp add: take_block_def)
  qed
qed

lemma allocate_ok:
  assumes inv: "slab_inv p" and n: "good_size n" and room: "n + 32 \<le> room"
  shows "\<exists>u q. allocate room n p = Inr (u, q) \<and> slab_inv q \<and> u \<notin> fst ` set (active_blocks p)"
proof -
  obtain b r where tb: "take_block room n p = Inr (b, r)" and tk: "taken p n b r"
    using take_block_ok [OF assms] by blast
  from tk obtain bs where bs: "chunks r (real_ptr b) = Some bs" "length bs = n + 32"
    unfolding taken_def by blast
  obtain h1 bs2 where g: "setGuard (real_ptr b) 0 (chunks r) = Inr h1"
    "setGuard (real_ptr b) (16 + n) h1 = Inr ((chunks r)(real_ptr b \<mapsto> bs2))" "guarded n bs2"
    using set_guards [of "chunks r" "real_ptr b", OF bs] by blast
  let ?b = "b\<lparr>blk_size := n\<rparr>"
  let ?q = "r\<lparr>chunks := (chunks r)(real_ptr b \<mapsto> bs2),
     active_blocks := set_active (real_ptr b) ?b (active_blocks r)\<rparr>"
  have run: "allocate room n p = Inr (real_ptr b, ?q)"
    using tb g by (simp add: allocate_def)
  from tk have T: "active_blocks r = active_blocks p" "messages r = messages p"
    "map chunk_size (slabs r) = slab_sizes" "real_ptr b \<notin> set (ids r)" "distinct (ids r)"
    "dom (chunks r) = insert (real_ptr b) (set (ids r))" "real_ptr b < next_chunk r" "free_ok r"
    unfolding taken_def distinct.simps list.set by blast+
  from tk have T': "c \<in> set (ids r) \<Longrightarrow> c < next_chunk r"
    "u \<in> fst ` set (active_blocks p) \<Longrightarrow> chunks r u = chunks p u" for c u
    unfolding taken_def list.set by blast+
  have "fst ` set (active_blocks p) \<subseteq> set (ids r)"
  proof
    fix u assume "u \<in> fst ` set (active_blocks p)"
    then obtain b' where ub: "(u, b') \<in> set (active_blocks p)" by auto
    then have "b' \<in> set (all_blocks r)" by (force simp: all_blocks_def T(1))
    with active_okD(1) [OF slab_invD(5) [OF inv] ub] show "u \<in> set (ids r)" by simp
  qed
  with T(4) have new: "real_ptr b \<notin> fst ` set (active_blocks p)" by blast
  have act: "active_blocks ?q = (real_ptr b, ?b) # active_blocks p"
    using new T(1) by (force simp: set_active_def filter_id_conv)
  have ids: "ids ?q = real_ptr b # ids r" by (simp add: all_blocks_def act T(1) [symmetric])
  have "active_ok ?q"
    unfolding active_ok_def act
  proof (clarify)
    fix u b' assume "(u, b') \<in> set ((real_ptr b, ?b) # active_blocks p)"
    then consider "u = real_ptr b" "b' = ?b" | "(u, b') \<in> set (active_blocks p)" by auto
    then show "u = real_ptr b' \<and> good_size (blk_size b')
        \<and> (\<exists>bs. chunks ?q u = Some bs \<and> guarded (blk_size b') bs)"
    proof cases
      case 1
      with n g(3) show ?thesis by simp
    next
      case 2
      then have u: "u \<in> fst ` set (active_blocks p)" by force
      with new have "u \<noteq> real_ptr b" by blast
      with T'(2) [OF u] have "chunks ?q u = chunks p u" by simp
      with active_okD [OF slab_invD(5) [OF inv] 2] show ?thesis by simp
    qed
  qed
  moreover have "free_ok ?q"
  proof (rule free_ok_same [OF T(8)])
    fix s b' assume "s \<in> set (slabs r)" "b' \<in> set (free_list s)"
    then have "b' \<in> set (all_blocks r)" by (auto simp: all_blocks_def)
    then have "real_ptr b' \<in> set (ids r)" by simp
    with T(4) have "real_ptr b' \<noteq> real_ptr b" by metis
    then show "chunks ?q (real_ptr b') = chunks r (real_ptr b')" by simp
  qed simp_all
  moreover have "distinct (ids ?q)" unfolding ids using T(4,5) by simp
  moreover have "dom (chunks ?q) = set (ids ?q)" unfolding ids using T(6) by auto
  moreover have "\<forall>c \<in> set (ids ?q). c < next_chunk ?q" unfolding ids using T(7) T'(1) by auto
  moreover have "Corruption_detected \<notin> set (messages ?q)" using T(2) slab_invD(7) [OF inv] by simp
  ultimately have "slab_inv ?q" unfolding slab_inv_def using T(3) by simp
  with run new show ?thesis by blast
qed

text \<open>A write of the user inside its bytes keeps the guards.\<close>

lemma write_user_ok:
  assumes inv: "slab_inv p" and u: "map_of (active_blocks p) u = Some b" and off: "off < blk_size b"
  shows "\<exists>q. write_user u off v p = Inr q \<and> slab_inv q"
proof -
  note D = slab_invD [OF inv]
  have ub: "(u, b) \<in> set (active_blocks p)" using u by (rule map_of_SomeD)
  obtain bs where bs: "chunks p u = Some bs" "guarded (blk_size b) bs"
    using active_okD(3) [OF D(5) ub] by blast
  let ?bs = "take (16 + off) bs @ replicate 1 v @ drop (16 + off + 1) bs"
  let ?q = "p\<lparr>chunks := (chunks p)(u \<mapsto> ?bs)\<rparr>"
  have run: "write_user u off v p = Inr ?q"
    using bs off by (simp add: write_user_def memset_at_def guarded_def)
  have g: "guarded (blk_size b) ?bs"
  proof -
    obtain k where k: "blk_size b = off + Suc k" using off less_imp_Suc_add [of off] by auto
    have "drop (Suc k) (v # drop (17 + off) bs) = drop (16 + blk_size b) bs"
      by (simp add: k ac_simps)
    with bs(2) show ?thesis by (simp add: guarded_def k min_def)
  qed
  have ids: "ids ?q = ids p" by (simp add: all_blocks_def)
  have key: "distinct (map fst (active_blocks p))" by (rule active_key [OF D(5,2)])
  have "active_ok ?q"
    unfolding active_ok_def
  proof (clarify)
    fix c b' assume "(c, b') \<in> set (active_blocks ?q)"
    then have cb: "(c, b') \<in> set (active_blocks p)" by simp
    show "c = real_ptr b' \<and> good_size (blk_size b')
        \<and> (\<exists>bs. chunks ?q c = Some bs \<and> guarded (blk_size b') bs)"
    proof (cases "c = u")
      case True
      with cb ub key have "b' = b" by (metis eq_key_imp_eq_value)
      with True g active_okD [OF D(5) cb] show ?thesis by simp
    next
      case False
      with active_okD [OF D(5) cb] show ?thesis by simp
    qed
  qed
  moreover have "free_ok ?q"
  proof (rule free_ok_same [OF D(6)])
    fix s b' assume s: "s \<in> set (slabs p)" "b' \<in> set (free_list s)"
    have "u \<in> set (map real_ptr (map snd (active_blocks p)))"
      using active_okD(1) [OF D(5) ub] ub by force
    moreover have "real_ptr b' \<in> set (map real_ptr (concat (map free_list (slabs p))))"
      using s by auto
    ultimately have "real_ptr b' \<noteq> u"
      using D(2) unfolding all_blocks_def map_append distinct_append by blast
    then show "chunks ?q (real_ptr b') = chunks p (real_ptr b')" by simp
  qed simp_all
  moreover have "dom (chunks ?q) = set (ids ?q)" unfolding ids using D(3) bs(1) by auto
  ultimately have "slab_inv ?q" unfolding slab_inv_def ids using D by simp
  with run show ?thesis by blast
qed

lemma mset_remove_key:
  assumes "distinct (map fst xs)" "(u, b) \<in> set xs"
  shows "mset (map snd xs) = {# b #} + mset (map snd (filter (\<lambda>(k, _). k \<noteq> u) xs))"
  using assms
proof (induction xs)
  case (Cons x xs)
  obtain k c where x: "x = (k, c)" by (cases x)
  show ?case
  proof (cases "k = u")
    case True
    then have "u \<notin> fst ` set xs" using Cons.prems(1) x by simp
    then have "filter (\<lambda>(k, _). k \<noteq> u) xs = xs" "c = b"
      using Cons.prems(2) x True by (force simp: filter_id_conv)+
    with True x show ?thesis by simp
  next
    case False
    with Cons x show ?thesis by auto
  qed
qed simp

text \<open>
  The state while \<open>deallocate\<close> has taken the block out of the map and not yet given it back.
\<close>

lemma free_ok_append:
  assumes ok: "free_ok p" and i: "i < length (slabs p)"
    and s: "chunk_size s = chunk_size (slabs p ! i)" "free_list s = free_list (slabs p ! i) @ [b]"
    and b: "blk_size b = chunk_size s" "chunks p (real_ptr b) = Some bs" "length bs = blk_size b + 32"
    and q: "slabs q = (slabs p)[i := s]" "chunks q = chunks p"
  shows "free_ok q"
  unfolding free_ok_def
proof (intro ballI)
  fix s' b' assume s': "s' \<in> set (slabs q)" and b': "b' \<in> set (free_list s')"
  then consider "s' \<in> set (slabs p)" | "s' = s"
    using q(1) set_update_subset_insert [of "slabs p" i s] by auto
  then show "blk_size b' = chunk_size s'
      \<and> (\<exists>bs. chunks q (real_ptr b') = Some bs \<and> length bs = blk_size b' + 32)"
  proof cases
    case 1
    with free_okD [OF ok 1 b'] q(2) show ?thesis by simp
  next
    case 2
    show ?thesis
    proof (cases "b' = b")
      case True
      with 2 b q(2) show ?thesis by simp
    next
      case False
      with 2 b' s have "b' \<in> set (free_list (slabs p ! i))" by simp
      with free_okD [OF ok nth_mem [OF i], of b'] 2 s q(2) show ?thesis by simp
    qed
  qed
qed

lemma slab_inv_message:
  assumes inv: "slab_inv p" and m: "Corruption_detected \<notin> set m"
  shows "slab_inv (p\<lparr>messages := m\<rparr>)"
proof -
  let ?q = "p\<lparr>messages := m\<rparr>"
  have "all_blocks ?q = all_blocks p" by (simp add: all_blocks_def)
  moreover have "active_ok ?q = active_ok p" by (simp add: active_ok_def)
  moreover have "free_ok ?q = free_ok p" unfolding free_ok_def by simp
  ultimately show ?thesis unfolding slab_inv_def using slab_invD [OF inv] m by simp
qed

lemma active_ok_subset:
  assumes "active_ok p" "set (active_blocks q) \<subseteq> set (active_blocks p)"
    "\<And>u b. (u, b) \<in> set (active_blocks q) \<Longrightarrow> chunks q u = chunks p u"
  shows "active_ok q"
  unfolding active_ok_def
proof (clarify)
  fix u b assume ub: "(u, b) \<in> set (active_blocks q)"
  with assms(2) have "(u, b) \<in> set (active_blocks p)" by blast
  from active_okD [OF assms(1) this] assms(3) [OF ub]
  show "u = real_ptr b \<and> good_size (blk_size b)
      \<and> (\<exists>bs. chunks q u = Some bs \<and> guarded (blk_size b) bs)" by simp
qed

text \<open>A block taken out of the map.\<close>

definition without :: "nat \<Rightarrow> slab_pool \<Rightarrow> slab_pool" where
  "without u p = p\<lparr>active_blocks := filter (\<lambda>(k, _). k \<noteq> u) (active_blocks p)\<rparr>"

lemma without_simps [simp]:
  "slabs (without u p) = slabs p" "chunks (without u p) = chunks p"
  "next_chunk (without u p) = next_chunk p" "messages (without u p) = messages p"
  "active_blocks (without u p) = filter (\<lambda>(k, _). k \<noteq> u) (active_blocks p)"
  by (simp_all add: without_def)

lemma without_ids:
  assumes inv: "slab_inv p" and ub: "(u, b) \<in> set (active_blocks p)"
  shows "u = real_ptr b" "distinct (u # ids (without u p))" "set (ids p) = set (u # ids (without u p))"
proof -
  note D = slab_invD [OF inv]
  show ur: "u = real_ptr b" by (rule active_okD(1) [OF D(5) ub])
  have "mset (all_blocks p) = {# b #} + mset (all_blocks (without u p))"
    using mset_remove_key [OF active_key [OF D(5,2)] ub] by (simp add: all_blocks_def ac_simps)
  then have "mset (ids p) = mset (u # ids (without u p))" by (simp add: ur)
  then show "distinct (u # ids (without u p))" "set (ids p) = set (u # ids (without u p))"
    using D(2) mset_eq_imp_distinct_iff mset_eq_setD by blast+
qed

lemma give_back_to_malloc:
  assumes inv: "slab_inv p" and ub: "(u, b) \<in> set (active_blocks p)"
  shows "slab_inv ((without u p)\<lparr>chunks := (chunks p)(real_ptr b := None)\<rparr>)" (is "slab_inv ?q")
proof -
  note D = slab_invD [OF inv] and W = without_ids [OF inv ub]
  have iq: "ids ?q = ids (without u p)" by (simp add: all_blocks_def)
  have new: "u \<notin> set (ids (without u p))" using W(2) by (simp only: distinct.simps not_False_eq_True)
  have "active_ok ?q"
    by (rule active_ok_subset [OF D(5)]) (auto simp: W(1) [symmetric])
  moreover have "free_ok ?q"
  proof (rule free_ok_same [OF D(6)])
    fix s b' assume "s \<in> set (slabs p)" "b' \<in> set (free_list s)"
    then have "b' \<in> set (all_blocks (without u p))" by (auto simp: all_blocks_def)
    then have "real_ptr b' \<in> set (ids (without u p))" by simp
    with new have "real_ptr b' \<noteq> u" by metis
    then show "chunks ?q (real_ptr b') = chunks p (real_ptr b')" by (simp add: W(1))
  qed simp_all
  moreover have "distinct (ids ?q)" unfolding iq using W(2) by (simp only: distinct.simps)
  moreover have "dom (chunks ?q) = set (ids ?q)"
  proof -
    have "dom (chunks ?q) = dom (chunks p) - {u}" by (simp add: W(1))
    also have "\<dots> = set (ids (without u p))" unfolding D(3) W(3) using new by simp
    finally show ?thesis unfolding iq .
  qed
  moreover have "c < next_chunk ?q" if "c \<in> set (ids ?q)" for c
  proof -
    have "c \<in> set (ids p)" using that unfolding iq W(3) by (metis list.set_intros(2))
    then show ?thesis using D(4) by simp
  qed
  ultimately show ?thesis unfolding slab_inv_def using D(1,7) by simp
qed

lemma give_back_to_slab:
  assumes inv: "slab_inv p" and ub: "(u, b) \<in> set (active_blocks p)"
    and i: "i < length (slabs p)" "chunk_size (slabs p ! i) = blk_size b"
    and s: "chunk_size s = blk_size b" "free_list s = free_list (slabs p ! i) @ [b]"
  shows "slab_inv ((without u p)\<lparr>slabs := (slabs p)[i := s]\<rparr>)" (is "slab_inv ?q")
proof -
  note D = slab_invD [OF inv] and W = without_ids [OF inv ub]
  obtain bs where bs: "chunks p u = Some bs" "guarded (blk_size b) bs"
    using active_okD(3) [OF D(5) ub] by blast
  have "mset (ids ?q) + image_mset real_ptr ({#} :: Block multiset)
      = mset (ids (without u p)) + image_mset real_ptr {# b #}"
    by (rule ids_update [where s = s and i = i]) (simp_all add: i s)
  then have "mset (ids ?q) = mset (u # ids (without u p))" by (simp add: W(1))
  then have iq: "distinct (ids ?q)" "set (ids ?q) = set (ids p)"
    using W mset_eq_imp_distinct_iff mset_eq_setD by metis+
  have "active_ok ?q" by (rule active_ok_subset [OF D(5)]) auto
  moreover have "free_ok ?q"
    by (rule free_ok_append [OF D(6) i(1), where s = s and b = b and bs = bs])
      (use bs i s in \<open>simp_all add: guarded_def W(1) [symmetric]\<close>)
  moreover have "map chunk_size (slabs ?q) = slab_sizes"
    using map_update_same [OF i(1), of chunk_size s] D(1) i(2) s(1) by simp
  moreover have "dom (chunks ?q) = set (ids ?q)" unfolding iq(2) using D(3) by simp
  moreover have "c < next_chunk ?q" if "c \<in> set (ids ?q)" for c
    using D(4) [of c] that unfolding iq(2) by simp
  ultimately show ?thesis unfolding slab_inv_def using iq(1) D(7) by simp
qed

lemma give_back_ok:
  assumes inv: "slab_inv p" and ub: "(u, b) \<in> set (active_blocks p)"
  shows "slab_inv (give_back b (without u p))"
proof (cases "findSlabIndex (blk_size b) (slabs p)")
  case None
  with give_back_to_malloc [OF inv ub] show ?thesis by (simp add: give_back_def)
next
  case (Some i)
  note D = slab_invD [OF inv]
  have "blk_size b \<in> set slab_sizes"
    using findSlabIndex_large [OF D(1), of "blk_size b"] active_okD(2) [OF D(5) ub] Some
    by (auto simp: good_size_def)
  then obtain i' where "findSlabIndex (blk_size b) (slabs p) = Some i'"
    "i' < length (slabs p)" "chunk_size (slabs p ! i') = blk_size b"
    by (rule findSlabIndex_exact [OF D(1)])
  with Some have i: "i < length (slabs p)" "chunk_size (slabs p ! i) = blk_size b" by auto
  show ?thesis
    using give_back_to_slab [OF inv ub i, of "(slabs p ! i)\<lparr>free_list := free_list (slabs p ! i) @ [b],
                allocated_blocks := allocated_blocks (slabs p ! i) - 1\<rparr>"] Some i(2)
    by (simp add: give_back_def)
qed

lemma deallocate_ok:
  assumes inv: "slab_inv p"
  shows "\<exists>q. deallocate ptr p = Inr q \<and> slab_inv q"
proof (cases ptr)
  case None
  with inv show ?thesis by (simp add: deallocate_def)
next
  case (Some u)
  note D = slab_invD [OF inv]
  show ?thesis
  proof (cases "map_of (active_blocks p) u")
    case None
    have "slab_inv (p\<lparr>messages := messages p @ [Invalid_pointer]\<rparr>)"
      by (rule slab_inv_message [OF inv]) (simp add: D(7))
    with None Some show ?thesis by (simp add: deallocate_def)
  next
    case (Some b)
    then have ub: "(u, b) \<in> set (active_blocks p)" by (rule map_of_SomeD)
    obtain bs where bs: "chunks p u = Some bs" "guarded (blk_size b) bs"
      using active_okD(3) [OF D(5) ub] by blast
    have "deallocate ptr p = Inr (give_back b (without u p))"
      using Some \<open>ptr = Some u\<close> check_guards [of "chunks p" u, OF bs]
        active_okD(1) [OF D(5) ub, symmetric]
      by (simp add: deallocate_def without_def)
    with give_back_ok [OF inv ub] show ?thesis by blast
  qed
qed

section \<open>Properties\<close>

text \<open>
  The operations a well-behaved user does in a state: requests of good sizes, any call of
  \<open>deallocate\<close>, and writes inside the bytes of a block in use.
\<close>

fun good_op :: "nat \<Rightarrow> slab_pool \<Rightarrow> slab_op \<Rightarrow> bool" where
  "good_op room p (Allocate n) \<longleftrightarrow> good_size n \<and> n + 32 \<le> room"
| "good_op room p (Deallocate ptr) \<longleftrightarrow> True"
| "good_op room p (Write_user u off v) \<longleftrightarrow>
     (case map_of (active_blocks p) u of None \<Rightarrow> False | Some b \<Rightarrow> off < blk_size b)"

fun good_ops :: "nat \<Rightarrow> slab_op list \<Rightarrow> slab_pool \<Rightarrow> bool" where
  "good_ops room [] p \<longleftrightarrow> True"
| "good_ops room (a # ops) p \<longleftrightarrow> good_op room p a \<and>
     (case slab_step room a p of Inl e \<Rightarrow> True | Inr q \<Rightarrow> good_ops room ops q)"

lemma slab_step_ok:
  assumes "slab_inv p" "good_op room p a"
  shows "\<exists>q. slab_step room a p = Inr q \<and> slab_inv q"
proof (cases a)
  case (Allocate n)
  with allocate_ok [OF assms(1), of n room] assms(2) show ?thesis by auto
next
  case (Deallocate ptr)
  with deallocate_ok [OF assms(1)] show ?thesis by simp
next
  case (Write_user u off v)
  with write_user_ok [OF assms(1)] assms(2) show ?thesis by (auto split: option.splits)
qed

lemma slab_run_ok:
  "slab_inv p \<Longrightarrow> good_ops room ops p \<Longrightarrow> \<exists>q. slab_run room ops p = Inr q \<and> slab_inv q"
proof (induction ops arbitrary: p)
  case (Cons a ops)
  from slab_step_ok [of p room a] Cons.prems obtain q
    where q: "slab_step room a p = Inr q" "slab_inv q" by auto
  with Cons.prems Cons.IH [of q] show ?case by auto
qed simp

lemma foldl_free:
  "foldl (\<lambda>h b. h(real_ptr b := None)) h bs x = (if x \<in> real_ptr ` set bs then None else h x)"
  by (induction bs arbitrary: h) auto

lemma destroy_empty: "slab_inv p \<Longrightarrow> destroy p c = None"
  using slab_invD(3) [of p] by (auto simp: destroy_def foldl_free dumpLeaks_def)

text \<open>
  C15: as long as every request has the size of a slab, or is above all of them, no run of the pool
  writes outside a chunk, whatever is freed, twice or not at all; every block in use has its own
  chunk with room for its bytes and both guards, its guards are whole (so no corruption is
  reported), and the destructor frees every chunk.
\<close>

theorem slab_pool_safe:
  assumes "good_ops room ops MemoryPool"
  shows "\<exists>p. slab_run room ops MemoryPool = Inr p
    \<and> distinct (map fst (active_blocks p))
    \<and> (\<forall>(u, b) \<in> set (active_blocks p). \<exists>bs. chunks p u = Some bs \<and> guarded (blk_size b) bs)
    \<and> Corruption_detected \<notin> set (messages p)
    \<and> (\<forall>c. destroy p c = None)"
proof -
  obtain p where p: "slab_run room ops MemoryPool = Inr p" and inv: "slab_inv p"
    using slab_run_ok [OF slab_inv_start assms] by blast
  note D = slab_invD [OF inv]
  have "\<forall>(u, b) \<in> set (active_blocks p). \<exists>bs. chunks p u = Some bs \<and> guarded (blk_size b) bs"
    using active_okD(3) [OF D(5)] by blast
  with p active_key [OF D(5,2)] D(7) destroy_empty [OF inv] show ?thesis by blast
qed

theorem slab_pool_safe_witness:
  "\<exists>p. slab_run 5000 [Allocate 32, Allocate 64, Write_user 1 31 7, Deallocate (Some 1),
       Deallocate (Some 1), Allocate 32] MemoryPool = Inr p
     \<and> Invalid_pointer \<in> set (messages p) \<and> Corruption_detected \<notin> set (messages p)
     \<and> (\<forall>c. destroy p c = None)"
proof -
  have good: "good_ops 5000 [Allocate 32, Allocate 64, Write_user 1 31 7, Deallocate (Some 1),
       Deallocate (Some 1), Allocate 32] MemoryPool"
    by (simp add: slab_code good_size_def write_user_def)
  obtain p where p: "slab_run 5000 [Allocate 32, Allocate 64, Write_user 1 31 7, Deallocate (Some 1),
       Deallocate (Some 1), Allocate 32] MemoryPool = Inr p"
    "Corruption_detected \<notin> set (messages p)" "\<forall>c. destroy p c = None"
    using slab_pool_safe [OF good] by blast
  have "map_sum id messages (slab_run 5000 [Allocate 32, Allocate 64, Write_user 1 31 7,
       Deallocate (Some 1), Deallocate (Some 1), Allocate 32] MemoryPool) = Inr [Invalid_pointer]"
    by (simp add: slab_code write_user_def)
  with p show ?thesis by simp
qed

text \<open>
  With other sizes the pool writes outside its chunks: a block made for one byte is put into
  the list of the slab of 32 and handed out again for a request of 32 bytes, and the guard behind
  them is written past the end of its chunk.  Further, a chunk taken from \<open>malloc\<close> is not counted as
  allocated, but counted off when it is freed, so the count of the slab becomes \<open>2^64 - 1\<close>; a write
  one byte past the end is reported when the block is freed; and as sizes are added modulo \<open>2^64\<close>, a
  request of \<open>2^64 - 17\<close> bytes is given a chunk of 15 bytes, which does not hold the first guard.
\<close>

theorem slab_pool_reuse_overflows:
  "slab_run 5000 [Allocate 1, Deallocate (Some 1), Allocate 32] MemoryPool = Inl Out_of_bounds
   \<and> map_sum id (\<lambda>p. dumpSlabStats p ! 0)
       (slab_run 5000 [Allocate 32, Deallocate (Some 1)] MemoryPool) = Inr (32, 1, -1, 1)
   \<and> map_sum id messages
       (slab_run 5000 [Allocate 32, Write_user 1 32 0, Deallocate (Some 1)] MemoryPool)
         = Inr [Corruption_detected]
   \<and> map_sum id snd (pa_allocate 5000 1 (2 ^ 64 - 17) MemoryPool) = Inl Out_of_bounds"
  by (intro conjI) (simp_all add: slab_code write_user_def pa_allocate_def)

end
