(* ===== verification/Blackbox.thy ===== *)
theory Blackbox
  imports Prelude "HOL-Library.Signed_Division"
begin

text \<open>
  The error log of \<open>3.tools/8.blackbox\<close>: a ring of a hundred entries in one C object, saved to a
  file after every entry and read back at the start.  The object is modelled down to its bytes,
  because the file holds them.
\<close>

section \<open>Data\<close>

definition MAX_LOG_COUNT :: int where
  "MAX_LOG_COUNT = 100"

text \<open>
  An \<open>ErrorCode\<close> is a 32-bit integer; \<open>log_pad\<close> are the four bytes that align the entries.
\<close>

type_synonym ErrorCode = "32 word"

definition ERR_NONE :: ErrorCode where "ERR_NONE = 0"
definition ERR_MEMORY_ALLOCATION :: ErrorCode where "ERR_MEMORY_ALLOCATION = 1001"
definition ERR_SENSOR_DISCONNECTED :: ErrorCode where "ERR_SENSOR_DISCONNECTED = 1002"
definition ERR_UNEXPECTED_REBOOT :: ErrorCode where "ERR_UNEXPECTED_REBOOT = 1003"
definition ERR_FILE_IO_FAILURE :: ErrorCode where "ERR_FILE_IO_FAILURE = 1004"
definition ERR_OVER_TEMPERATURE :: ErrorCode where "ERR_OVER_TEMPERATURE = 1005"

record ErrorLog =
  timestamp :: "64 word"
  error_code :: ErrorCode
  description :: "uchar list"
  log_pad :: "uchar list"

record BlackBox =
  bb_start :: "32 word"
  bb_count :: "32 word"
  bb_logs :: "ErrorLog list"

text \<open>The file: its bytes, when it exists.\<close>

type_synonym log_file = "uchar list option"

section \<open>The bytes of the object\<close>

definition log_image :: "ErrorLog \<Rightarrow> uchar list" where
  "log_image l = le_bytes 8 (timestamp l) @ le_bytes 4 (error_code l) @ description l @ log_pad l"

definition box_image :: "BlackBox \<Rightarrow> uchar list" where
  "box_image b = le_bytes 4 (bb_start b) @ le_bytes 4 (bb_count b) @ concat (map log_image (bb_logs b))"

definition log_of_bytes :: "uchar list \<Rightarrow> ErrorLog" where
  "log_of_bytes bs = \<lparr>timestamp = of_le (take 8 bs), error_code = of_le (take 4 (drop 8 bs)),
     description = take 256 (drop 12 bs), log_pad = drop 268 bs\<rparr>"

fun logs_of_bytes :: "nat \<Rightarrow> uchar list \<Rightarrow> ErrorLog list" where
  "logs_of_bytes 0 bs = []"
| "logs_of_bytes (Suc n) bs = log_of_bytes (take 272 bs) # logs_of_bytes n (drop 272 bs)"

definition box_of_bytes :: "uchar list \<Rightarrow> BlackBox" where
  "box_of_bytes bs = \<lparr>bb_start = of_le (take 4 bs), bb_count = of_le (take 4 (drop 4 bs)),
     bb_logs = logs_of_bytes (nat MAX_LOG_COUNT) (drop 8 bs)\<rparr>"

definition sizeof_BlackBox :: nat where
  "sizeof_BlackBox = 8 + nat MAX_LOG_COUNT * 272"

section \<open>Operations\<close>

text \<open>\<open>int\<close> arithmetic: a sum that leaves 32 bits is undefined, \<open>%\<close> truncates.\<close>

definition int_sum :: "int \<Rightarrow> int \<Rightarrow> int option" where
  "int_sum x y = (if - (2 ^ 31) \<le> x + y \<and> x + y < 2 ^ 31 then Some (x + y) else None)"

text \<open>\<open>opens\<close>: whether \<open>fopen\<close> succeeds.\<close>

definition blackbox_save_to_file :: "bool \<Rightarrow> BlackBox \<Rightarrow> log_file \<Rightarrow> log_file" where
  "blackbox_save_to_file opens box file = (if opens then Some (box_image box) else file)"

text \<open>\<open>fread\<close> stores the bytes there are over the object, at most its size.\<close>

definition blackbox_load_from_file :: "bool \<Rightarrow> BlackBox \<Rightarrow> log_file \<Rightarrow> BlackBox" where
  "blackbox_load_from_file opens box file =
     (case file of
        None \<Rightarrow> box
      | Some bs \<Rightarrow>
          if opens
          then let got = take sizeof_BlackBox bs
               in box_of_bytes (got @ drop (length got) (box_image box))
          else box)"

definition blackbox_init :: "bool \<Rightarrow> BlackBox \<Rightarrow> log_file \<Rightarrow> BlackBox" where
  "blackbox_init opens box file = blackbox_load_from_file opens (box\<lparr>bb_start := 0, bb_count := 0\<rparr>) file"

text \<open>\<open>strncpy\<close> of 255 characters, padded with zeros, and the closing zero.\<close>

definition copy_description :: "uchar list \<Rightarrow> uchar list" where
  "copy_description src = (let c = take 255 src in c @ replicate (255 - length c) 0 @ [0])"

text \<open>An index outside the array has no result.\<close>

definition blackbox_log ::
  "bool \<Rightarrow> 64 word \<Rightarrow> ErrorCode \<Rightarrow> uchar list \<Rightarrow> BlackBox \<times> log_file \<Rightarrow> (BlackBox \<times> log_file) option" where
  "blackbox_log opens now code descr st = do {
     let (box, file) = st;
     sum \<leftarrow> int_sum (sint (bb_start box)) (sint (bb_count box));
     let idx = sum smod MAX_LOG_COUNT;
     box1 \<leftarrow> (if sint (bb_count box) = MAX_LOG_COUNT
             then map_option (\<lambda>n. box\<lparr>bb_start := word_of_int (n smod MAX_LOG_COUNT)\<rparr>)
                    (int_sum (sint (bb_start box)) 1)
             else map_option (\<lambda>n. box\<lparr>bb_count := word_of_int n\<rparr>) (int_sum (sint (bb_count box)) 1));
     if idx < 0 then None
     else do {
       let i = nat idx;
       let entry = (bb_logs box1 ! i)\<lparr>timestamp := now, error_code := code, description := copy_description descr\<rparr>;
       let box2 = box1\<lparr>bb_logs := (bb_logs box1)[i := entry]\<rparr>;
       Some (box2, blackbox_save_to_file opens box2 file)
     }
   }"

definition error_code_to_string :: "ErrorCode \<Rightarrow> string" where
  "error_code_to_string code =
     (if code = ERR_NONE then ''No Error''
      else if code = ERR_MEMORY_ALLOCATION then ''Memory Allocation Failed''
      else if code = ERR_SENSOR_DISCONNECTED then ''Sensor Disconnected''
      else if code = ERR_UNEXPECTED_REBOOT then ''Unexpected Reboot''
      else if code = ERR_FILE_IO_FAILURE then ''File I/O Failure''
      else if code = ERR_OVER_TEMPERATURE then ''Over Temperature''
      else ''Unknown Error'')"

text \<open>One printed line: its number, the time, the code with its text, and the description.\<close>

datatype export_line = Export_line nat "64 word" ErrorCode string "uchar list"

text \<open>A C string in an array: up to its first zero, which must be there.\<close>

definition c_string :: "uchar list \<Rightarrow> uchar list option" where
  "c_string bs = (if 0 \<in> set bs then Some (takeWhile (\<lambda>c. c \<noteq> 0) bs) else None)"

function export_loop :: "BlackBox \<Rightarrow> int \<Rightarrow> export_line list option" where
  "export_loop box i =
     (if i < sint (bb_count box)
      then do {
        sum \<leftarrow> int_sum (sint (bb_start box)) i;
        let idx = sum smod MAX_LOG_COUNT;
        if idx < 0 then None
        else do {
          let e = bb_logs box ! nat idx;
          txt \<leftarrow> c_string (description e);
          out \<leftarrow> export_loop box (i + 1);
          Some (Export_line (nat (i + 1)) (timestamp e) (error_code e)
                  (error_code_to_string (error_code e)) txt # out)
        }
      }
      else Some [])"
  by pat_completeness auto
termination
  by (relation "measure (\<lambda>(box, i). nat (sint (bb_count box) - i))") auto

declare export_loop.simps [simp del]

definition blackbox_export :: "BlackBox \<Rightarrow> export_line list option" where
  "blackbox_export box = export_loop box 0"

definition blackbox_clear :: "BlackBox \<Rightarrow> BlackBox \<times> log_file" where
  "blackbox_clear box = (box\<lparr>bb_start := 0, bb_count := 0\<rparr>, None)"

text \<open>One call of \<open>blackbox_log\<close>: whether the save opens its file, the time, the code, the text.\<close>

record log_call =
  save_opens :: bool
  call_time :: "64 word"
  call_code :: ErrorCode
  call_text :: "uchar list"

fun log_calls :: "log_call list \<Rightarrow> BlackBox \<times> log_file \<Rightarrow> (BlackBox \<times> log_file) option" where
  "log_calls [] st = Some st"
| "log_calls (e # es) st =
     Option.bind (blackbox_log (save_opens e) (call_time e) (call_code e) (call_text e) st) (log_calls es)"

definition text_bytes :: "string \<Rightarrow> uchar list" where
  "text_bytes s = map (\<lambda>c. word_of_nat (of_char c)) s"

definition blackbox_main ::
  "bool \<Rightarrow> (nat \<Rightarrow> bool \<times> 64 word) \<Rightarrow> BlackBox \<Rightarrow> log_file \<Rightarrow> (export_line list \<times> log_file) option" where
  "blackbox_main opens env box file = do {
     let call = (\<lambda>k code s. \<lparr>save_opens = fst (env k), call_time = snd (env k), call_code = code, call_text = text_bytes s\<rparr>);
     (box1, file1) \<leftarrow> log_calls
       [call 0 1001 ''Memory allocation failed'', call 1 1002 ''Sensor disconnected'', call 2 1003 ''Unexpected reboot'']
       (blackbox_init opens box file, file);
     out \<leftarrow> blackbox_export box1;
     Some (out, file1)
   }"

section \<open>Rings\<close>

text \<open>The \<open>c\<close> entries of the ring in \<open>xs\<close> that starts at \<open>s\<close>.\<close>

definition ring :: "'a list \<Rightarrow> nat \<Rightarrow> nat \<Rightarrow> 'a list" where
  "ring xs s c = map (\<lambda>i. xs ! ((s + i) mod length xs)) [0..<c]"

lemma length_ring [simp]: "length (ring xs s c) = c"
  by (simp add: ring_def)

lemma nth_ring: "i < c \<Longrightarrow> ring xs s c ! i = xs ! ((s + i) mod length xs)"
  by (simp add: ring_def)

lemma ring_slots:
  assumes "i < j" and "j < n" and "(s + i) mod n = (s + j) mod (n :: nat)"
  shows False
proof -
  have "(s + j - (s + i)) mod n = 0" using assms by (intro mod_eq_dvd_iff_nat [THEN iffD1, THEN dvd_imp_mod_0]) auto
  with assms(1,2) show False by simp
qed

lemma ring_push:
  assumes "c < length xs"
  shows "ring (xs[(s + c) mod length xs := x]) s (Suc c) = ring xs s c @ [x]"
proof (rule nth_equalityI)
  fix i assume "i < length (ring (xs[(s + c) mod length xs := x]) s (Suc c))"
  then have i: "i < Suc c" by simp
  have m: "(s + c) mod length xs < length xs" using assms by (intro mod_less_divisor) linarith
  show "ring (xs[(s + c) mod length xs := x]) s (Suc c) ! i = (ring xs s c @ [x]) ! i"
  proof (cases "i = c")
    case True
    then show ?thesis using m by (simp add: nth_ring nth_append)
  next
    case False
    with i have "i < c" by simp
    with ring_slots [of i c "length xs" s] assms have "(s + c) mod length xs \<noteq> (s + i) mod length xs" by auto
    with \<open>i < c\<close> i show ?thesis by (simp add: nth_ring nth_append)
  qed
qed simp

lemma ring_full:
  assumes "s < length xs"
  shows "ring (xs[s := x]) ((s + 1) mod length xs) (length xs) = tl (ring xs s (length xs)) @ [x]"
proof (rule nth_equalityI)
  let ?n = "length xs"
  show "length (ring (xs[s := x]) ((s + 1) mod ?n) ?n) = length (tl (ring xs s ?n) @ [x])"
    using assms by simp
  fix i assume "i < length (ring (xs[s := x]) ((s + 1) mod ?n) ?n)"
  then have i: "i < ?n" by simp
  have slot: "((s + 1) mod ?n + i) mod ?n = (s + Suc i) mod ?n" by (simp add: mod_simps)
  show "ring (xs[s := x]) ((s + 1) mod ?n) ?n ! i = (tl (ring xs s ?n) @ [x]) ! i"
  proof (cases "Suc i = ?n")
    case True
    then have "(s + Suc i) mod ?n = s" using assms by simp
    moreover have "\<not> i < ?n - Suc 0" "i - (?n - Suc 0) = 0" using True by simp_all
    ultimately show ?thesis using slot i assms by (simp add: nth_ring nth_append)
  next
    case False
    with i have "Suc i < ?n" by simp
    moreover from this ring_slots [of 0 "Suc i" ?n s] assms have "s \<noteq> (s + Suc i) mod ?n" by auto
    moreover have "i < ?n - Suc 0" using \<open>Suc i < ?n\<close> by simp
    ultimately show ?thesis using slot i assms by (simp add: nth_ring nth_append nth_tl)
  qed
qed

section \<open>What the box holds\<close>

definition log_ok :: "ErrorLog \<Rightarrow> bool" where
  "log_ok l \<longleftrightarrow> length (description l) = 256 \<and> length (log_pad l) = 4"

definition box_ok :: "BlackBox \<Rightarrow> bool" where
  "box_ok b \<longleftrightarrow> length (bb_logs b) = nat MAX_LOG_COUNT \<and> (\<forall>l \<in> set (bb_logs b). log_ok l)"

definition ring_ok :: "BlackBox \<Rightarrow> bool" where
  "ring_ok b \<longleftrightarrow> box_ok b \<and> 0 \<le> sint (bb_start b) \<and> sint (bb_start b) < MAX_LOG_COUNT
     \<and> 0 \<le> sint (bb_count b) \<and> sint (bb_count b) \<le> MAX_LOG_COUNT"

definition contents :: "BlackBox \<Rightarrow> ErrorLog list" where
  "contents b = ring (bb_logs b) (nat (sint (bb_start b))) (nat (sint (bb_count b)))"

lemma smod_pos: "0 \<le> x \<Longrightarrow> x smod MAX_LOG_COUNT = x mod MAX_LOG_COUNT"
  by (simp add: smod_int_alt_def sgn_if MAX_LOG_COUNT_def)

text \<open>The file holds the object: writing it and reading it back gives the object again.\<close>

lemma length_log_image: "log_ok l \<Longrightarrow> length (log_image l) = 272"
  by (simp add: log_image_def log_ok_def)

lemma log_of_image: "log_ok l \<Longrightarrow> log_of_bytes (log_image l) = l"
  by (cases l) (simp add: log_of_bytes_def log_image_def log_ok_def of_le_bytes)

lemma logs_of_image:
  "\<forall>l \<in> set ls. log_ok l \<Longrightarrow> logs_of_bytes (length ls) (concat (map log_image ls)) = ls"
  by (induction ls) (simp_all add: length_log_image log_of_image)

lemma length_logs_image: "\<forall>l \<in> set ls. log_ok l \<Longrightarrow> length (concat (map log_image ls)) = length ls * 272"
  by (induction ls) (simp_all add: length_log_image)

lemma length_box_image: "box_ok b \<Longrightarrow> length (box_image b) = sizeof_BlackBox"
  by (simp add: box_image_def box_ok_def length_logs_image sizeof_BlackBox_def)

lemma box_of_image: "box_ok b \<Longrightarrow> box_of_bytes (box_image b) = b"
  using logs_of_image [of "bb_logs b"]
  by (cases b) (simp add: box_of_bytes_def box_image_def box_ok_def of_le_bytes)

lemma load_saved:
  "box_ok box \<Longrightarrow> box_ok b \<Longrightarrow> blackbox_load_from_file True box (Some (box_image b)) = b"
  by (simp add: blackbox_load_from_file_def length_box_image box_of_image)

section \<open>Logging\<close>

text \<open>What a call leaves in its slot; the padding is not written.\<close>

definition entry_of :: "log_call \<Rightarrow> uchar list \<Rightarrow> ErrorLog" where
  "entry_of e pad = \<lparr>timestamp = call_time e, error_code = call_code e,
     description = copy_description (call_text e), log_pad = pad\<rparr>"

definition entry_view :: "ErrorLog \<Rightarrow> 64 word \<times> ErrorCode \<times> uchar list" where
  "entry_view l = (timestamp l, error_code l, description l)"

definition call_view :: "log_call \<Rightarrow> 64 word \<times> ErrorCode \<times> uchar list" where
  "call_view e = (call_time e, call_code e, copy_description (call_text e))"

lemma length_copy_description [simp]: "length (copy_description src) = 256"
  by (simp add: copy_description_def Let_def)

lemma sint_small: "0 \<le> n \<Longrightarrow> n \<le> MAX_LOG_COUNT \<Longrightarrow> sint (word_of_int n :: 32 word) = n"
  by (simp add: MAX_LOG_COUNT_def signed_take_bit_int_eq_self sint_sbintrunc')

lemma blackbox_log_ok:
  assumes ok: "ring_ok box"
  shows "\<exists>box'. blackbox_log opens now code descr (box, file) =
      Some (box', if opens then Some (box_image box') else file) \<and> ring_ok box'
    \<and> map entry_view (contents box') =
        lastn 100 (map entry_view (contents box) @ [(now, code, copy_description descr)])"
proof -
  define s c where "s = nat (sint (bb_start box))" and "c = nat (sint (bb_count box))"
  have s: "sint (bb_start box) = int s" "s < 100" and c: "sint (bb_count box) = int c" "c \<le> 100"
    using ok by (auto simp: s_def c_def ring_ok_def MAX_LOG_COUNT_def)
  have n: "length (bb_logs box) = 100" using ok by (simp add: ring_ok_def box_ok_def MAX_LOG_COUNT_def)
  have sum: "int_sum (sint (bb_start box)) (sint (bb_count box)) = Some (int (s + c))"
    using s c by (simp add: int_sum_def)
  have idx: "int (s + c) smod MAX_LOG_COUNT = int ((s + c) mod 100)"
    using smod_pos [of "int (s + c)"] by (simp add: MAX_LOG_COUNT_def zmod_int)
  let ?i = "(s + c) mod 100"
  let ?e = "(bb_logs box ! ?i)\<lparr>timestamp := now, error_code := code, description := copy_description descr\<rparr>"
  have i: "?i < length (bb_logs box)" using n by simp
  then have "log_ok (bb_logs box ! ?i)" using ok by (auto simp: ring_ok_def box_ok_def)
  then have e: "log_ok ?e" "entry_view ?e = (now, code, copy_description descr)"
    by (simp_all add: log_ok_def entry_view_def)
  have logs: "\<forall>l \<in> set ((bb_logs box)[?i := ?e]). log_ok l"
    using ok e(1) by (auto simp: ring_ok_def box_ok_def dest!: set_update_subset_insert [THEN subsetD])
  have cont: "contents box = ring (bb_logs box) s c" by (simp add: contents_def s_def c_def)
  show ?thesis
  proof (cases "c = 100")
    case True
    let ?box = "box\<lparr>bb_start := word_of_int ((int s + 1) mod 100), bb_logs := (bb_logs box)[?i := ?e]\<rparr>"
    have ns: "sint (bb_start ?box) = int ((s + 1) mod 100)"
      by (simp add: sint_small MAX_LOG_COUNT_def zmod_int algebra_simps)
    have next_start: "(int s + 1) smod 100 = (int s + 1) mod 100"
      using smod_pos [of "int s + 1"] by (simp add: MAX_LOG_COUNT_def)
    have slot: "?i = s" using True s(2) by simp
    have "contents ?box = ring ((bb_logs box)[s := ?e]) ((s + 1) mod 100) 100"
      using ns c True slot by (simp add: contents_def)
    also have "\<dots> = tl (contents box) @ [?e]"
      using ring_full [of s "bb_logs box" ?e] n s(2) True cont by simp
    finally have "map entry_view (contents ?box) = tl (map entry_view (contents box)) @ [entry_view ?e]"
      by (simp add: map_tl)
    moreover have "ring_ok ?box"
      using ns logs n c True by (simp add: ring_ok_def box_ok_def MAX_LOG_COUNT_def)
    moreover have "blackbox_log opens now code descr (box, file) =
        Some (?box, if opens then Some (box_image ?box) else file)"
      using sum idx s True c next_start
      by (simp add: blackbox_log_def Let_def int_sum_def blackbox_save_to_file_def MAX_LOG_COUNT_def)
    ultimately show ?thesis using e(2) True cont by (intro exI [of _ ?box]) (simp add: lastn_snoc)
  next
    case False
    then have c100: "c < 100" using c(2) by simp
    let ?box = "box\<lparr>bb_count := word_of_int (int c + 1), bb_logs := (bb_logs box)[?i := ?e]\<rparr>"
    have nc: "sint (bb_count ?box) = int (Suc c)"
      using c100 sint_small [of "int c + 1"] by (simp add: MAX_LOG_COUNT_def)
    have "contents ?box = contents box @ [?e]"
      using ring_push [of c "bb_logs box" s ?e] nc s c100 n
      by (simp add: contents_def cont c nat_add_distrib)
    moreover have "ring_ok ?box"
      using nc logs n c100 s by (simp add: ring_ok_def box_ok_def MAX_LOG_COUNT_def)
    moreover have "blackbox_log opens now code descr (box, file) =
        Some (?box, if opens then Some (box_image ?box) else file)"
      using sum idx s c c100
      by (simp add: blackbox_log_def Let_def int_sum_def blackbox_save_to_file_def MAX_LOG_COUNT_def)
    ultimately show ?thesis using e(2) c100 cont by (intro exI [of _ ?box]) simp
  qed
qed

lemma log_calls_ok:
  assumes "ring_ok box"
  shows "\<exists>box' file'. log_calls es (box, file) = Some (box', file') \<and> ring_ok box'
    \<and> map entry_view (contents box') = lastn 100 (map entry_view (contents box) @ map call_view es)
    \<and> (es \<noteq> [] \<longrightarrow> save_opens (last es) \<longrightarrow> file' = Some (box_image box'))"
  using assms
proof (induction es arbitrary: box "file")
  case Nil
  have "length (contents box) \<le> 100"
    using Nil by (simp add: contents_def ring_ok_def MAX_LOG_COUNT_def nat_le_iff)
  with Nil show ?case by simp
next
  case (Cons e es)
  from blackbox_log_ok [OF Cons.prems, of "save_opens e" "call_time e" "call_code e" "call_text e" "file"]
  obtain box1 where b1: "blackbox_log (save_opens e) (call_time e) (call_code e) (call_text e) (box, file) =
      Some (box1, if save_opens e then Some (box_image box1) else file)" "ring_ok box1"
    "map entry_view (contents box1) = lastn 100 (map entry_view (contents box) @ [call_view e])"
    by (auto simp: call_view_def)
  let ?f = "if save_opens e then Some (box_image box1) else file"
  from Cons.IH [OF b1(2), of ?f] obtain box2 file2 where
    b2: "log_calls es (box1, ?f) = Some (box2, file2)" "ring_ok box2"
    "map entry_view (contents box2) = lastn 100 (map entry_view (contents box1) @ map call_view es)"
    "es \<noteq> [] \<longrightarrow> save_opens (last es) \<longrightarrow> file2 = Some (box_image box2)" by blast
  have "map entry_view (contents box2) = lastn 100 (map entry_view (contents box) @ map call_view (e # es))"
    using b2(3) b1(3) by (simp add: lastn_lastn_append)
  moreover have "file2 = Some (box_image box2)" if "save_opens (last (e # es))"
    using b2(1,4) that by (cases es) auto
  ultimately show ?case using b1(1) b2(1,2) by auto
qed

lemma takeWhile_copy: "0 \<notin> set src \<Longrightarrow> takeWhile (\<lambda>c. c \<noteq> 0) (copy_description src) = take 255 src"
proof -
  assume z: "0 \<notin> set src"
  let ?c = "take 255 src"
  have "copy_description src = ?c @ replicate (Suc (255 - length ?c)) 0"
    by (simp add: copy_description_def Let_def replicate_append_same)
  moreover have "\<forall>c \<in> set ?c. c \<noteq> 0" using z by (auto dest: in_set_takeD)
  ultimately show ?thesis by (simp add: takeWhile_append2)
qed

section \<open>Export\<close>

text \<open>The line printed for entry number \<open>i\<close> of the box.\<close>

definition line_of :: "nat \<Rightarrow> 64 word \<times> ErrorCode \<times> uchar list \<Rightarrow> export_line" where
  "line_of i v = (case v of (ts, code, d) \<Rightarrow>
     Export_line i ts code (error_code_to_string code) (takeWhile (\<lambda>c. c \<noteq> 0) d))"

lemma export_loop_ok:
  assumes ok: "ring_ok box" and z: "\<forall>l \<in> set (contents box). 0 \<in> set (description l)"
    and i: "i \<le> length (contents box)"
  shows "export_loop box (int i) =
    Some (map (\<lambda>k. line_of (k + 1) (entry_view (contents box ! k))) [i..<length (contents box)])"
  using i
proof (induction "length (contents box) - i" arbitrary: i)
  case 0
  then have "\<not> int i < sint (bb_count box)" by (simp add: contents_def nat_le_iff)
  with 0 show ?case by (subst export_loop.simps) simp
next
  case (Suc k)
  define s where "s = nat (sint (bb_start box))"
  have s: "sint (bb_start box) = int s" "s < 100" using ok by (auto simp: s_def ring_ok_def MAX_LOG_COUNT_def)
  have n: "length (bb_logs box) = 100" using ok by (simp add: ring_ok_def box_ok_def MAX_LOG_COUNT_def)
  have i: "i < length (contents box)" using Suc.hyps(2) by simp
  then have lt: "int i < sint (bb_count box)" and i100: "i < 100"
    using ok by (auto simp: contents_def ring_ok_def MAX_LOG_COUNT_def)
  have idx: "(int s + int i) smod MAX_LOG_COUNT = int ((s + i) mod 100)"
    using smod_pos [of "int (s + i)"] by (simp add: MAX_LOG_COUNT_def zmod_int)
  have e: "bb_logs box ! ((s + i) mod 100) = contents box ! i"
    using i n by (simp add: contents_def nth_ring s_def)
  have str: "c_string (description (contents box ! i)) = Some (takeWhile (\<lambda>c. c \<noteq> 0) (description (contents box ! i)))"
    using z i by (simp add: c_string_def)
  have "export_loop box (int (Suc i)) =
      Some (map (\<lambda>k. line_of (k + 1) (entry_view (contents box ! k))) [Suc i..<length (contents box)])"
    by (rule Suc.hyps(1)) (use Suc.hyps(2) i in simp_all)
  then show ?case
    using lt s i100 idx e str i
    by (subst export_loop.simps)
      (simp add: Let_def int_sum_def upt_conv_Cons line_of_def entry_view_def add.commute nat_add_distrib)
qed

text \<open>Any sequence of calls, and the export after it.\<close>

lemma logged_and_exported:
  assumes "box_ok garbage" and "box_ok garbage'" and "\<forall>e \<in> set es. 0 \<notin> set (call_text e)"
  shows "\<exists>box file. log_calls es (blackbox_init opens garbage None, None) = Some (box, file)
    \<and> (let ls = lastn 100 es in blackbox_export box =
        Some (map (\<lambda>k. Export_line (k + 1) (call_time (ls ! k)) (call_code (ls ! k))
                (error_code_to_string (call_code (ls ! k))) (take 255 (call_text (ls ! k)))) [0..<length ls]))
    \<and> (es \<noteq> [] \<and> save_opens (last es) \<longrightarrow> blackbox_init True garbage' file = box)"
proof -
  let ?b0 = "blackbox_init opens garbage None"
  have b0: "ring_ok ?b0" "contents ?b0 = []"
    using assms(1)
    by (simp_all add: ring_ok_def box_ok_def blackbox_init_def blackbox_load_from_file_def contents_def
        MAX_LOG_COUNT_def ring_def)
  from log_calls_ok [OF b0(1), of es None] b0(2) obtain box f where
    b: "log_calls es (?b0, None) = Some (box, f)" "ring_ok box"
    "map entry_view (contents box) = lastn 100 (map call_view es)"
    "es \<noteq> [] \<longrightarrow> save_opens (last es) \<longrightarrow> f = Some (box_image box)" by auto
  let ?ls = "lastn 100 es"
  have view: "map entry_view (contents box) = map call_view ?ls" using b(3) by (simp add: lastn_def drop_map)
  then have len: "length (contents box) = length ?ls" by (metis length_map)
  have nth: "entry_view (contents box ! k) = call_view (?ls ! k)" if "k < length ?ls" for k
    using view that len by (metis nth_map)
  have mem: "?ls ! k \<in> set es" if "k < length ?ls" for k
    using that by (auto simp: lastn_def intro: in_set_dropD [OF nth_mem])
  have z: "\<forall>l \<in> set (contents box). 0 \<in> set (description l)"
  proof
    fix l assume "l \<in> set (contents box)"
    then obtain k where "k < length ?ls" "l = contents box ! k" using len by (metis in_set_conv_nth)
    with nth [of k] have "description l = copy_description (call_text (?ls ! k))"
      by (simp add: entry_view_def call_view_def)
    then show "0 \<in> set (description l)" by (simp add: copy_description_def Let_def)
  qed
  have "line_of (k + 1) (entry_view (contents box ! k)) =
      Export_line (k + 1) (call_time (?ls ! k)) (call_code (?ls ! k))
        (error_code_to_string (call_code (?ls ! k))) (take 255 (call_text (?ls ! k)))" if "k < length ?ls" for k
    using nth [OF that] assms(3) mem [OF that]
    by (simp add: line_of_def call_view_def takeWhile_copy)
  then have "blackbox_export box =
        Some (map (\<lambda>k. Export_line (k + 1) (call_time (?ls ! k)) (call_code (?ls ! k))
                (error_code_to_string (call_code (?ls ! k))) (take 255 (call_text (?ls ! k)))) [0..<length ?ls])"
    using export_loop_ok [OF b(2) z, of 0] len by (simp add: blackbox_export_def)
  moreover have "blackbox_init True garbage' f = box" if "es \<noteq> []" "save_opens (last es)"
  proof -
    have "box_ok (garbage'\<lparr>bb_start := 0, bb_count := 0\<rparr>)" using assms(2) by (simp add: box_ok_def)
    moreover have "box_ok box" using b(2) by (simp add: ring_ok_def)
    ultimately show ?thesis using b(4) that by (simp add: blackbox_init_def load_saved)
  qed
  ultimately show ?thesis using b(1) by (auto simp: Let_def)
qed

lemma three_texts: "0 \<notin> set (text_bytes ''Memory allocation failed'')"
    "0 \<notin> set (text_bytes ''Sensor disconnected'')" "0 \<notin> set (text_bytes ''Unexpected reboot'')"
  by (simp_all add: text_bytes_def of_char_def)

lemma blackbox_main_prints:
  assumes "box_ok garbage"
  shows "\<exists>file. blackbox_main opens env garbage None = Some
    ([Export_line 1 (snd (env 0)) 1001 ''Memory Allocation Failed'' (text_bytes ''Memory allocation failed''),
      Export_line 2 (snd (env 1)) 1002 ''Sensor Disconnected'' (text_bytes ''Sensor disconnected''),
      Export_line 3 (snd (env 2)) 1003 ''Unexpected Reboot'' (text_bytes ''Unexpected reboot'')], file)"
proof -
  let ?call = "\<lambda>k code s. \<lparr>save_opens = fst (env k), call_time = snd (env k), call_code = code, call_text = text_bytes s\<rparr>"
  let ?es = "[?call 0 1001 ''Memory allocation failed'', ?call 1 1002 ''Sensor disconnected'',
    ?call 2 1003 ''Unexpected reboot'']"
  have z: "\<forall>e \<in> set ?es. 0 \<notin> set (call_text e)" using three_texts by simp
  have short: "length (text_bytes ''Memory allocation failed'') \<le> 255"
      "length (text_bytes ''Sensor disconnected'') \<le> 255" "length (text_bytes ''Unexpected reboot'') \<le> 255"
    by (simp_all add: text_bytes_def)
  from logged_and_exported [OF assms assms z, of opens] obtain box f where
    b: "log_calls ?es (blackbox_init opens garbage None, None) = Some (box, f)"
    "let ls = lastn 100 ?es in blackbox_export box =
        Some (map (\<lambda>k. Export_line (k + 1) (call_time (ls ! k)) (call_code (ls ! k))
                (error_code_to_string (call_code (ls ! k))) (take 255 (call_text (ls ! k)))) [0..<length ls])"
    by blast
  have "lastn 100 ?es = ?es" by (simp add: lastn_def)
  with b(2) have "blackbox_export box = Some
    ([Export_line 1 (snd (env 0)) 1001 ''Memory Allocation Failed'' (text_bytes ''Memory allocation failed''),
      Export_line 2 (snd (env 1)) 1002 ''Sensor Disconnected'' (text_bytes ''Sensor disconnected''),
      Export_line 3 (snd (env 2)) 1003 ''Unexpected Reboot'' (text_bytes ''Unexpected reboot'')])"
    using short by (simp add: Let_def upt_conv_Cons error_code_to_string_def ERR_NONE_def
        ERR_MEMORY_ALLOCATION_def ERR_SENSOR_DISCONNECTED_def ERR_UNEXPECTED_REBOOT_def)
  with b(1) show ?thesis
    by (intro exI [of _ f]) (simp add: blackbox_main_def Let_def del: log_calls.simps)
qed

text \<open>After \<open>blackbox_clear\<close> nothing is printed, and a restart finds no file.\<close>

lemma blackbox_clear_prints_nothing:
  "blackbox_clear box = (box', file) \<Longrightarrow> blackbox_export box' = Some [] \<and> file = None"
  by (auto simp: blackbox_clear_def blackbox_export_def export_loop.simps [of _ 0])

section \<open>Properties\<close>

text \<open>
  C11: from a machine without a log file, whatever the memory of the box held, any sequence of
  log calls succeeds, and the export then prints exactly the last hundred of them, oldest first,
  numbered from 1, each with its time, its code and text, and the first 255 characters of its
  description; when the last save opened its file, a restart that loads it, into any memory,
  gives the same box.
\<close>

theorem blackbox_keeps_last_100:
  assumes "box_ok garbage" and "box_ok garbage'" and "\<forall>e \<in> set es. 0 \<notin> set (call_text e)"
  shows "\<exists>box file. log_calls es (blackbox_init opens garbage None, None) = Some (box, file)
    \<and> (let ls = lastn 100 es in blackbox_export box =
        Some (map (\<lambda>k. Export_line (k + 1) (call_time (ls ! k)) (call_code (ls ! k))
                (error_code_to_string (call_code (ls ! k))) (take 255 (call_text (ls ! k)))) [0..<length ls]))
    \<and> (es \<noteq> [] \<and> save_opens (last es) \<longrightarrow> blackbox_init True garbage' file = box)"
  by (rule logged_and_exported [OF assms])

definition zero_log :: ErrorLog where
  "zero_log = \<lparr>timestamp = 0, error_code = 0, description = replicate 256 0, log_pad = replicate 4 0\<rparr>"

definition zero_box :: BlackBox where
  "zero_box = \<lparr>bb_start = 0, bb_count = 0, bb_logs = replicate (nat MAX_LOG_COUNT) zero_log\<rparr>"

lemma zero_box_ok: "box_ok zero_box"
  unfolding box_ok_def zero_box_def zero_log_def log_ok_def
  by (simp only: BlackBox.simps ErrorLog.simps length_replicate set_replicate_conv_if) simp

definition three_calls :: "log_call list" where
  "three_calls =
     [\<lparr>save_opens = True, call_time = 5, call_code = 1001, call_text = [77]\<rparr>,
      \<lparr>save_opens = False, call_time = 6, call_code = 7, call_text = [78, 79]\<rparr>,
      \<lparr>save_opens = True, call_time = 7, call_code = 0, call_text = []\<rparr>]"

lemma blackbox_keeps_last_100_witness:
  "\<exists>box f. log_calls three_calls (blackbox_init False zero_box None, None) = Some (box, f)
    \<and> blackbox_export box = Some [Export_line 1 5 1001 ''Memory Allocation Failed'' [77],
        Export_line 2 6 7 ''Unknown Error'' [78, 79], Export_line 3 7 0 ''No Error'' []]
    \<and> blackbox_init True zero_box f = box"
proof -
  have "\<forall>e \<in> set three_calls. 0 \<notin> set (call_text e)" by (simp add: three_calls_def)
  from blackbox_keeps_last_100 [OF zero_box_ok zero_box_ok this, of False] obtain box f where
    "log_calls three_calls (blackbox_init False zero_box None, None) = Some (box, f)"
    "let ls = lastn 100 three_calls in blackbox_export box =
        Some (map (\<lambda>k. Export_line (k + 1) (call_time (ls ! k)) (call_code (ls ! k))
                (error_code_to_string (call_code (ls ! k))) (take 255 (call_text (ls ! k)))) [0..<length ls])"
    "three_calls \<noteq> [] \<and> save_opens (last three_calls) \<longrightarrow> blackbox_init True zero_box f = box"
    by blast
  then show ?thesis
    by (intro exI [of _ box] exI [of _ f])
      (simp add: three_calls_def Let_def upt_conv_Cons error_code_to_string_def ERR_NONE_def
        ERR_MEMORY_ALLOCATION_def ERR_SENSOR_DISCONNECTED_def ERR_UNEXPECTED_REBOOT_def
        ERR_FILE_IO_FAILURE_def ERR_OVER_TEMPERATURE_def)
qed

text \<open>
  The file is trusted: a file of the right size whose two counters add up to a negative
  number that is not a multiple of 100 is loaded as it is, and the next log call writes outside
  the array, so it has no result.
\<close>

theorem blackbox_trusts_file:
  assumes "box_ok bad" and "box_ok garbage"
    and "sint (bb_start bad) + sint (bb_count bad) < 0"
    and "\<not> MAX_LOG_COUNT dvd sint (bb_start bad) + sint (bb_count bad)"
  shows "blackbox_init True garbage (Some (box_image bad)) = bad
    \<and> blackbox_log opens now code descr (bad, Some (box_image bad)) = None"
proof
  have "box_ok (garbage\<lparr>bb_start := 0, bb_count := 0\<rparr>)" using assms(2) by (simp add: box_ok_def)
  then show "blackbox_init True garbage (Some (box_image bad)) = bad"
    using assms(1) by (simp add: blackbox_init_def load_saved)
  let ?x = "sint (bb_start bad) + sint (bb_count bad)"
  have "(- ?x) mod MAX_LOG_COUNT \<noteq> 0" using assms(4) by (simp only: mod_eq_0_iff_dvd dvd_minus_iff not_False_eq_True)
  moreover have "0 \<le> (- ?x) mod MAX_LOG_COUNT" by (simp add: MAX_LOG_COUNT_def)
  moreover have "?x smod MAX_LOG_COUNT = - ((- ?x) mod MAX_LOG_COUNT)"
    using assms(3) by (simp add: smod_int_alt_def MAX_LOG_COUNT_def)
  ultimately have "?x smod MAX_LOG_COUNT < 0" by linarith
  then show "blackbox_log opens now code descr (bad, Some (box_image bad)) = None"
    by (simp add: blackbox_log_def int_sum_def Let_def split: bind_split)
qed

lemma blackbox_trusts_file_witness:
  "blackbox_log True 0 1001 [] (zero_box\<lparr>bb_count := - 1\<rparr>, Some (box_image (zero_box\<lparr>bb_count := - 1\<rparr>))) = None"
proof -
  have "box_ok (zero_box\<lparr>bb_count := - 1\<rparr>)" using zero_box_ok by (simp add: box_ok_def)
  from blackbox_trusts_file [OF this zero_box_ok] show ?thesis
    by (simp add: zero_box_def MAX_LOG_COUNT_def)
qed

end
