(* ===== verification/ConfigFile.thy ===== *)
theory ConfigFile
  imports Prelude
begin

text \<open>
  The configuration file demonstration (\<open>7.file_dir_opt/rw_cfg.c\<close>): writing a file of
  \<open>key = value\<close> lines, reading it with \<open>fgets\<close>, trimming and typing the values, and searching it
  for a key with \<open>strtok_r\<close>.  A C string is the list of its characters in front of the closing
  zero; a file is the list of its characters.
\<close>

section \<open>Characters and C library functions\<close>

abbreviation newline :: char where
  "newline \<equiv> CHR 0x0A"

abbreviation equals_sign :: char where
  "equals_sign \<equiv> CHR ''=''"

definition c_str :: "string \<Rightarrow> string" where
  "c_str buf = takeWhile (\<lambda>c. c \<noteq> CHR 0x00) buf"

text \<open>\<open>isspace\<close> and \<open>tolower\<close> of the C locale.\<close>

definition isspace :: "char \<Rightarrow> bool" where
  "isspace c \<longleftrightarrow> c = CHR '' '' \<or> c = CHR 0x09 \<or> c = CHR 0x0A \<or> c = CHR 0x0B \<or> c = CHR 0x0C \<or> c = CHR 0x0D"

definition tolower :: "char \<Rightarrow> char" where
  "tolower c = (let n = of_char c :: nat in if 65 \<le> n \<and> n \<le> 90 then char_of (n + 32) else c)"

text \<open>\<open>fgets\<close>: at most \<open>n\<close> characters, up to and with the first newline.\<close>

fun take_line :: "nat \<Rightarrow> string \<Rightarrow> string \<times> string" where
  "take_line 0 cs = ([], cs)"
| "take_line (Suc n) [] = ([], [])"
| "take_line (Suc n) (c # cs) =
     (if c = newline then ([c], cs) else let (l, r) = take_line n cs in (c # l, r))"

definition fgets :: "nat \<Rightarrow> string \<Rightarrow> (string \<times> string) option" where
  "fgets n cs = (if cs = [] then None else Some (take_line n cs))"

text \<open>
  \<open>atoi\<close>: blanks, a sign, and the digits that follow; a number that is no \<open>int\<close> is undefined.
\<close>

definition is_digit :: "char \<Rightarrow> bool" where
  "is_digit c \<longleftrightarrow> 48 \<le> (of_char c :: nat) \<and> (of_char c :: nat) \<le> 57"

definition digits_value :: "string \<Rightarrow> int" where
  "digits_value ds = foldl (\<lambda>n d. n * 10 + (of_char d - 48)) 0 ds"

definition atoi :: "string \<Rightarrow> int option" where
  "atoi s =
     (let t = dropWhile isspace s;
          neg = (t \<noteq> [] \<and> hd t = CHR ''-'');
          u = (if t \<noteq> [] \<and> (hd t = CHR ''-'' \<or> hd t = CHR ''+'') then tl t else t);
          v = digits_value (takeWhile is_digit u);
          n = (if neg then - v else v)
      in if - (2 ^ 31) \<le> n \<and> n < 2 ^ 31 then Some n else None)"

text \<open>One call of \<open>strtok_r\<close> with the delimiter \<open>=\<close>: the token, and where the next call starts.\<close>

definition strtok_eq :: "string \<Rightarrow> (string \<times> string) option" where
  "strtok_eq s =
     (let t = dropWhile (\<lambda>c. c = equals_sign) s
      in if t = [] then None
         else Some (takeWhile (\<lambda>c. c \<noteq> equals_sign) t, tl (dropWhile (\<lambda>c. c \<noteq> equals_sign) t)))"

section \<open>Operations\<close>

text \<open>The file \<open>write_config_file\<close> writes, when it can be created.\<close>

definition config_text :: string where
  "config_text =
     ''# Sample configuration file'' @ [newline] @
     ''server_ip = 192.168.1.100'' @ [newline] @
     ''server_port = 8080'' @ [newline] @
     ''timeout = 30'' @ [newline] @
     ''debug_mode = true'' @ [newline] @
     ''username = admin'' @ [newline] @
     ''welcome_message = Hello, World!'' @ [newline]"

definition write_config_file :: "bool \<Rightarrow> string \<Rightarrow> (string \<rightharpoonup> string) \<Rightarrow> (string \<rightharpoonup> string)" where
  "write_config_file creates name files = (if creates then files(name \<mapsto> config_text) else files)"

text \<open>\<open>trim_string\<close> with its two pointers as indices.\<close>

fun skip_spaces :: "string \<Rightarrow> nat" where
  "skip_spaces [] = 0"
| "skip_spaces (c # cs) = (if isspace c then Suc (skip_spaces cs) else 0)"

function trim_end :: "string \<Rightarrow> int \<Rightarrow> int \<Rightarrow> int" where
  "trim_end str start e = (if e > start \<and> isspace (str ! nat e) then trim_end str start (e - 1) else e)"
  by pat_completeness auto
termination
  by (relation "measure (\<lambda>(str, start, e). nat (e - start))") auto

declare trim_end.simps [simp del]

definition trim_string :: "string \<Rightarrow> string" where
  "trim_string str =
     (let start = skip_spaces str;
          e = trim_end str (int start) (int (length str) - 1)
      in take (nat (e - int start + 1)) (drop start str))"

definition to_lowercase :: "string \<Rightarrow> string" where
  "to_lowercase str = map tolower str"

definition parse_bool :: "string \<Rightarrow> bool" where
  "parse_bool value =
     (let temp = trim_string (to_lowercase (take 15 value))
      in temp = ''true'' \<or> temp = ''1'' \<or> temp = ''yes'')"

text \<open>What \<open>read_config_file\<close> prints.\<close>

datatype config_line =
  Warn_format nat
| Warn_empty_key nat
| Config_number string int
| Config_bool string string bool
| Config_string string string

definition read_line :: "nat \<Rightarrow> string \<Rightarrow> config_line list option" where
  "read_line line_num buf =
     (let line = c_str buf
      in if line \<noteq> [] \<and> (hd line = CHR ''#'' \<or> hd line = newline) then Some []
         else
           let line1 = takeWhile (\<lambda>c. c \<noteq> newline) line
           in if equals_sign \<notin> set line1 then Some [Warn_format line_num]
              else
                let key = trim_string (takeWhile (\<lambda>c. c \<noteq> equals_sign) line1);
                    value = trim_string (tl (dropWhile (\<lambda>c. c \<noteq> equals_sign) line1))
                in if key = [] then Some [Warn_empty_key line_num]
                   else if key = ''server_port'' \<or> key = ''timeout''
                   then map_option (\<lambda>num. [Config_number key num]) (atoi value)
                   else if key = ''debug_mode'' then Some [Config_bool key value (parse_bool value)]
                   else Some [Config_string key value])"

lemma take_line_shorter: "take_line (Suc n) (c # cs) = (l, r) \<Longrightarrow> length r < length (c # cs)"
proof -
  have "length (snd (take_line n cs)) \<le> length cs" for n cs
    by (induction n cs rule: take_line.induct) (auto simp: split_beta)
  then show "take_line (Suc n) (c # cs) = (l, r) \<Longrightarrow> ?thesis"
    by (auto simp: split_beta less_Suc_eq_le split: if_splits)
qed

lemma fgets_shorter: "fgets (Suc n) cs = Some (l, r) \<Longrightarrow> length r < length cs"
  by (cases cs) (auto simp: fgets_def simp del: take_line.simps dest: take_line_shorter)

function read_loop :: "nat \<Rightarrow> string \<Rightarrow> config_line list option" where
  "read_loop line_num cs =
     (case fgets 255 cs of
        None \<Rightarrow> Some []
      | Some (l, r) \<Rightarrow>
          Option.bind (read_line (line_num + 1) l) (\<lambda>out.
            map_option (\<lambda>rest. out @ rest) (read_loop (line_num + 1) r)))"
  by pat_completeness auto
termination
  by (relation "measure (\<lambda>(line_num, cs). length cs)") (auto dest: fgets_shorter [of 254, simplified])

declare read_loop.simps [simp del]

text \<open>The result \<^term>\<open>Some None\<close>: the file could not be opened.\<close>

definition read_config_file :: "bool \<Rightarrow> string \<Rightarrow> (string \<rightharpoonup> string) \<Rightarrow> config_line list option option" where
  "read_config_file opens name files =
     (case (if opens then files name else None) of
        None \<Rightarrow> Some None
      | Some cs \<Rightarrow> map_option Some (read_loop 0 cs))"

definition search_line :: "string \<Rightarrow> string \<Rightarrow> (string \<times> string) list" where
  "search_line search_key buf =
     (let line = c_str buf
      in if line \<noteq> [] \<and> (hd line = CHR ''#'' \<or> hd line = newline) then []
         else case strtok_eq line of
                None \<Rightarrow> []
              | Some (k, saveptr) \<Rightarrow>
                  let key = trim_string k
                  in if key = search_key
                     then case strtok_eq saveptr of
                            None \<Rightarrow> []
                          | Some (v, _) \<Rightarrow> [(key, trim_string v)]
                     else [])"

function search_loop :: "string \<Rightarrow> string \<Rightarrow> (string \<times> string) list" where
  "search_loop search_key cs =
     (case fgets 255 cs of
        None \<Rightarrow> []
      | Some (l, r) \<Rightarrow> search_line search_key l @ search_loop search_key r)"
  by pat_completeness auto
termination
  by (relation "measure (\<lambda>(search_key, cs). length cs)") (auto dest: fgets_shorter [of 254, simplified])

declare search_loop.simps [simp del]

datatype search_result =
  No_key_entered
| Open_failed
| Found "(string \<times> string) list"
| Not_found string

text \<open>Without any input \<open>search_key\<close> stays uninitialised: no result.\<close>

definition search_config :: "bool \<Rightarrow> string \<Rightarrow> string \<Rightarrow> (string \<rightharpoonup> string) \<Rightarrow> search_result option" where
  "search_config opens name stdin files =
     map_option (\<lambda>(l, _).
       let search_key = trim_string (c_str l)
       in if search_key = [] then No_key_entered
          else case (if opens then files name else None) of
                 None \<Rightarrow> Open_failed
               | Some cs \<Rightarrow> (let out = search_loop search_key cs
                            in if out = [] then Not_found search_key else Found out))
       (fgets 99 stdin)"

definition cfg_main ::
  "string \<Rightarrow> (string \<rightharpoonup> string) \<Rightarrow> (config_line list option \<times> search_result \<times> (string \<rightharpoonup> string)) option" where
  "cfg_main stdin files = do {
     let files1 = write_config_file True ''config.cfg'' files;
     out \<leftarrow> read_config_file True ''config.cfg'' files1;
     found \<leftarrow> search_config True ''config.cfg'' stdin files1;
     Some (out, found, files1)
   }"

section \<open>Trimming\<close>

text \<open>The reference: the string without the blanks at both ends.\<close>

definition strip_end :: "string \<Rightarrow> string" where
  "strip_end s = rev (dropWhile isspace (rev s))"

definition strip :: "string \<Rightarrow> string" where
  "strip s = strip_end (dropWhile isspace s)"

lemma strip_end_snoc: "strip_end (s @ [c]) = (if isspace c then strip_end s else s @ [c])"
  by (simp add: strip_end_def)

lemma strip_end_Nil [simp]: "strip_end [] = []"
  by (simp add: strip_end_def)

lemma skip_spaces_drop: "drop (skip_spaces s) s = dropWhile isspace s"
  by (induction s) auto

lemma skip_spaces_le: "skip_spaces s \<le> length s"
  by (induction s) auto

lemma strip_end_prefix: "\<exists>t. s = strip_end s @ t"
proof (induction s rule: rev_induct)
  case Nil
  then show ?case by simp
next
  case (snoc c s)
  then obtain t where "s = strip_end s @ t" ..
  then show ?case by (metis append.assoc append_Nil2 strip_end_snoc)
qed

lemma trim_end_prefix:
  assumes "k < length s - n" and "n \<le> length s" and "\<not> isspace (s ! n)"
  shows "trim_end s (int n) (int n + int k) = int n + int (length (strip_end (take (Suc k) (drop n s)))) - 1"
  using assms(1)
proof (induction k)
  case 0
  have "take (Suc 0) (drop n s) = [s ! n]" using 0 by (simp add: take_Suc_conv_app_nth)
  then show ?case
    using assms(3) by (subst trim_end.simps) (simp add: strip_end_def)
next
  case (Suc k)
  have t: "take (Suc (Suc k)) (drop n s) = take (Suc k) (drop n s) @ [s ! (n + Suc k)]"
    using Suc.prems by (subst take_Suc_conv_app_nth) simp_all
  have i: "nat (int n + int (Suc k)) = n + Suc k" by simp
  show ?case
  proof (cases "isspace (s ! (n + Suc k))")
    case True
    have "trim_end s (int n) (int n + int (Suc k)) = trim_end s (int n) (int n + int k)"
      using True i by (subst trim_end.simps) simp
    then show ?thesis using Suc True t by (simp add: strip_end_snoc)
  next
    case False
    then show ?thesis
      using i t Suc.prems by (subst trim_end.simps) (simp add: strip_end_snoc)
  qed
qed

lemma take_strip_end: "take (length (strip_end s)) s = strip_end s"
  using strip_end_prefix [of s] by (metis append_eq_conv_conj)

lemma trim_string_strip: "trim_string s = strip s"
proof -
  let ?n = "skip_spaces s" and ?d = "dropWhile isspace s"
  have d: "drop ?n s = ?d" by (rule skip_spaces_drop)
  have len: "length ?d = length s - ?n" using d by (metis length_drop)
  show ?thesis
  proof (cases ?d)
    case Nil
    then show ?thesis by (simp only: trim_string_def strip_def Let_def d strip_end_Nil take_Nil)
  next
    case (Cons c cs)
    have c: "\<not> isspace c" using Cons by (metis hd_dropWhile list.distinct(1) list.sel(1))
    have nth: "s ! ?n = c"
      using d Cons skip_spaces_le [of s] by (metis hd_drop_conv_nth len length_greater_0_conv list.distinct(1) list.sel(1) zero_less_diff)
    have e: "int (length s) - 1 = int ?n + int (length cs)" using len Cons skip_spaces_le [of s] by simp
    have "trim_end s (int ?n) (int (length s) - 1) = int ?n + int (length (strip_end ?d)) - 1"
      using trim_end_prefix [of "length cs" s ?n] c nth len Cons skip_spaces_le [of s] e d by simp
    then have "trim_string s = take (length (strip_end ?d)) ?d"
      by (simp add: trim_string_def Let_def d)
    then show ?thesis by (simp add: take_strip_end strip_def)
  qed
qed

lemma strip_around:
  assumes "\<forall>c \<in> set ws. isspace c" and "\<forall>c \<in> set ws'. isspace c"
  shows "strip (ws @ s @ ws') = strip s"
proof -
  have drop: "dropWhile isspace (us @ s) = dropWhile isspace s" if "\<forall>c \<in> set us. isspace c" for us s
    using that by (induction us) auto
  have "strip_end (s @ us) = strip_end s" if "\<forall>c \<in> set us. isspace c" for us s
    using that drop [of "rev us" "rev s"] by (simp add: strip_end_def)
  moreover have "dropWhile isspace (s @ ws') = dropWhile isspace s @ ws'"
    if "\<exists>c \<in> set s. \<not> isspace c" using that by (auto intro: dropWhile_append1)
  moreover have "dropWhile isspace (s @ ws') = []" "dropWhile isspace s = []" if "\<forall>c \<in> set s. isspace c"
    using that assms(2) by auto
  ultimately show ?thesis using drop [OF assms(1)] assms(2) unfolding strip_def by metis
qed

lemma strip_idem: "strip (strip s) = strip s"
proof -
  have "strip_end (strip_end s) = strip_end s" for s by (simp add: strip_end_def)
  moreover have "dropWhile isspace (strip_end (dropWhile isspace s)) = strip_end (dropWhile isspace s)" for s
  proof (cases "strip_end (dropWhile isspace s)")
    case (Cons c cs)
    then obtain t where "dropWhile isspace s = c # cs @ t"
      using strip_end_prefix [of "dropWhile isspace s"] by auto
    then have "\<not> isspace c" by (metis hd_dropWhile list.distinct(1) list.sel(1))
    with Cons show ?thesis by simp
  qed simp
  ultimately show ?thesis by (simp add: strip_def)
qed

section \<open>Files of items\<close>

text \<open>An item that fits a line and means what it says; and the lines of a list of items.\<close>

definition numeric_key :: "string \<Rightarrow> bool" where
  "numeric_key k \<longleftrightarrow> k = ''server_port'' \<or> k = ''timeout''"

definition item_ok :: "string \<times> string \<Rightarrow> bool" where
  "item_ok kv = (case kv of (k, v) \<Rightarrow>
     k \<noteq> [] \<and> hd k \<noteq> CHR ''#'' \<and> strip k = k \<and> strip v = v \<and> equals_sign \<notin> set k
     \<and> newline \<notin> set k \<and> newline \<notin> set v \<and> CHR 0x00 \<notin> set k \<and> CHR 0x00 \<notin> set v
     \<and> length k + length v \<le> 250 \<and> (numeric_key k \<longrightarrow> atoi v \<noteq> None))"

definition item_text :: "string \<times> string \<Rightarrow> string" where
  "item_text kv = fst kv @ '' = '' @ snd kv @ [newline]"

definition item_line :: "string \<times> string \<Rightarrow> config_line" where
  "item_line kv = (case kv of (k, v) \<Rightarrow>
     if numeric_key k then Config_number k (the (atoi v))
     else if k = ''debug_mode'' then Config_bool k v (parse_bool v)
     else Config_string k v)"

lemma take_line_newline:
  "newline \<notin> set l \<Longrightarrow> length l < n \<Longrightarrow> take_line n (l @ newline # cs) = (l @ [newline], cs)"
proof (induction l arbitrary: n)
  case Nil
  then show ?case by (cases n) auto
next
  case (Cons c l)
  then show ?case by (cases n) (auto simp: Let_def)
qed

lemma item_fgets:
  assumes "item_ok kv"
  shows "fgets 255 (item_text kv @ cs) = Some (item_text kv, cs)"
proof -
  obtain k v where kv: "kv = (k, v)" by (cases kv)
  have "newline \<notin> set (k @ '' = '' @ v)" "length (k @ '' = '' @ v) < 255"
    using assms kv by (auto simp: item_ok_def)
  from take_line_newline [OF this, of cs] show ?thesis
    using kv assms by (simp add: fgets_def item_text_def item_ok_def)
qed

text \<open>Up to a delimiter that has one other character in front of it.\<close>

lemma split_at_delimiter:
  assumes "d \<notin> set xs" and "e \<noteq> d"
  shows "takeWhile (\<lambda>c. c \<noteq> d) (xs @ e # d # ys) = xs @ [e]"
    "dropWhile (\<lambda>c. c \<noteq> d) (xs @ e # d # ys) = d # ys"
  using assms by (induction xs) auto

lemma item_line_parts:
  assumes "item_ok (k, v)"
  shows "c_str (item_text (k, v)) = item_text (k, v)"
    "takeWhile (\<lambda>c. c \<noteq> newline) (item_text (k, v)) = k @ '' = '' @ v"
    "takeWhile (\<lambda>c. c \<noteq> equals_sign) (k @ '' = '' @ v) = k @ '' ''"
    "dropWhile (\<lambda>c. c \<noteq> equals_sign) (k @ '' = '' @ v) = ''= '' @ v"
    "item_text (k, v) \<noteq> []" "hd (item_text (k, v)) = hd k"
proof -
  note ok = assms [unfolded item_ok_def, simplified]
  have all: "(\<And>c. c \<in> set xs \<Longrightarrow> P c) \<Longrightarrow> takeWhile P (xs @ ys) = xs @ takeWhile P ys" for P :: "char \<Rightarrow> bool" and xs ys
    by (rule takeWhile_append2)
  show "c_str (item_text (k, v)) = item_text (k, v)"
    using ok by (auto simp: c_str_def item_text_def intro!: takeWhile_eq_all_conv [THEN iffD2])
  have "newline \<notin> set (k @ '' = '' @ v)" using ok by auto
  then have "takeWhile (\<lambda>c. c \<noteq> newline) ((k @ '' = '' @ v) @ [newline]) = (k @ '' = '' @ v) @ []"
    by (subst all) auto
  then show "takeWhile (\<lambda>c. c \<noteq> newline) (item_text (k, v)) = k @ '' = '' @ v"
    by (simp add: item_text_def)
  show "takeWhile (\<lambda>c. c \<noteq> equals_sign) (k @ '' = '' @ v) = k @ '' ''"
    "dropWhile (\<lambda>c. c \<noteq> equals_sign) (k @ '' = '' @ v) = ''= '' @ v"
    using ok split_at_delimiter [of equals_sign k "CHR '' ''" "'' '' @ v"] by simp_all
  show "item_text (k, v) \<noteq> []" "hd (item_text (k, v)) = hd k"
    using ok by (simp_all add: item_text_def)
qed

lemma item_read:
  assumes "item_ok kv"
  shows "read_line n (item_text kv) = Some [item_line kv]"
proof -
  obtain k v where kv: "kv = (k, v)" by (cases kv)
  note ok = assms [unfolded kv item_ok_def, simplified]
  note parts = item_line_parts [OF assms [unfolded kv]]
  have "strip (k @ '' '') = k" using strip_around [of "[]" "'' ''" k] ok by (simp add: isspace_def)
  moreover have "strip (CHR '' '' # v) = v" using strip_around [of "'' ''" "[]" v] ok by (simp add: isspace_def)
  moreover have "hd k \<noteq> newline" using ok by (metis hd_in_set)
  ultimately show ?thesis
    using ok parts kv
    by (auto simp: read_line_def Let_def trim_string_strip item_line_def numeric_key_def)
qed

lemma item_search:
  assumes "item_ok (k, v)"
  shows "search_line key (item_text (k, v)) =
    (if k = key then [(k, strip (takeWhile (\<lambda>c. c \<noteq> equals_sign) v))] else [])"
proof -
  note ok = assms [unfolded item_ok_def, simplified]
  note parts = item_line_parts [OF assms]
  have nl: "hd k \<noteq> newline" using ok by (metis hd_in_set)
  have key: "strip (k @ '' '') = k" using strip_around [of "[]" "'' ''" k] ok by (simp add: isspace_def)
  have "hd k \<noteq> equals_sign" using ok by (metis hd_in_set)
  then have "dropWhile (\<lambda>c. c = equals_sign) (item_text (k, v)) = item_text (k, v)"
    using ok by (cases k) (simp_all add: item_text_def)
  then have tok: "strtok_eq (item_text (k, v)) = Some (k @ '' '', '' '' @ v @ [newline])"
    using split_at_delimiter [of equals_sign k "CHR '' ''" "'' '' @ v @ [newline]"] ok
    by (simp add: strtok_eq_def item_text_def Let_def)
  let ?v = "takeWhile (\<lambda>c. c \<noteq> equals_sign) v"
  have val: "\<exists>r. strtok_eq ('' '' @ v @ [newline]) = Some (takeWhile (\<lambda>c. c \<noteq> equals_sign) ('' '' @ v @ [newline]), r)"
    by (simp add: strtok_eq_def Let_def)
  have "strip (takeWhile (\<lambda>c. c \<noteq> equals_sign) ('' '' @ v @ [newline])) = strip ?v"
  proof (cases "equals_sign \<in> set v")
    case True
    then have "takeWhile (\<lambda>c. c \<noteq> equals_sign) (v @ [newline]) = ?v" by (auto intro: takeWhile_append1)
    then show ?thesis using strip_around [of "'' ''" "[]" ?v] by (simp add: isspace_def)
  next
    case False
    then have "takeWhile (\<lambda>c. c \<noteq> equals_sign) (v @ [newline]) = v @ [newline]" "?v = v"
      by (auto simp: takeWhile_eq_all_conv)
    then show ?thesis using strip_around [of "'' ''" "[newline]" v]
      by (simp add: isspace_def del: takeWhile_eq_all_conv)
  qed
  with val show ?thesis using ok parts nl tok key
    by (auto simp: search_line_def Let_def trim_string_strip)
qed

lemma read_items:
  "\<forall>kv \<in> set items. item_ok kv \<Longrightarrow>
     read_loop n (concat (map item_text items)) = Some (map item_line items)"
proof (induction items arbitrary: n)
  case Nil
  then show ?case by (subst read_loop.simps) (simp add: fgets_def)
next
  case (Cons kv items)
  then show ?case
    by (subst read_loop.simps) (simp add: item_fgets item_read)
qed

lemma search_items:
  "\<forall>kv \<in> set items. item_ok kv \<Longrightarrow>
     search_loop key (concat (map item_text items)) =
       map (\<lambda>(k, v). (k, strip (takeWhile (\<lambda>c. c \<noteq> equals_sign) v))) (filter (\<lambda>(k, v). k = key) items)"
proof (induction items)
  case Nil
  then show ?case by (subst search_loop.simps) (simp add: fgets_def)
next
  case (Cons kv items)
  then show ?case
    by (subst search_loop.simps) (cases kv, simp add: item_fgets item_search)
qed

text \<open>A key typed in with blanks around it is read without them.\<close>

lemma typed_key:
  assumes "\<forall>c \<in> set ws \<union> set ws'. isspace c \<and> c \<noteq> newline" and "item_ok (key, v)"
    and "length ws + length key + length ws' < 99"
  shows "\<exists>l. fgets 99 (ws @ key @ ws' @ [newline]) = Some (l, []) \<and> trim_string (c_str l) = key \<and> key \<noteq> []"
proof -
  have ok: "key \<noteq> []" "strip key = key" "newline \<notin> set key" "CHR 0x00 \<notin> set key"
    using assms(2) by (simp_all add: item_ok_def)
  let ?l = "ws @ key @ ws'"
  have blank: "\<not> isspace (CHR 0x00)" "isspace newline" by (simp_all add: isspace_def)
  have "CHR 0x00 \<notin> set ws" "CHR 0x00 \<notin> set ws'" "newline \<notin> set ws" "newline \<notin> set ws'"
    using assms(1) blank(1) by blast+
  then have nl: "newline \<notin> set ?l" "CHR 0x00 \<notin> set (?l @ [newline])" using ok by simp_all
  have "take_line 99 (?l @ newline # []) = (?l @ [newline], [])"
    by (rule take_line_newline) (use nl(1) assms(3) in simp_all)
  then have "fgets 99 (?l @ [newline]) = Some (?l @ [newline], [])" by (simp add: fgets_def)
  moreover have "c_str (?l @ [newline]) = ?l @ [newline]"
    unfolding c_str_def takeWhile_eq_all_conv using nl(2) by blast
  moreover have "trim_string (?l @ [newline]) = key"
  proof -
    have "\<forall>c \<in> set ws. isspace c" "\<forall>c \<in> set (ws' @ [newline]). isspace c" using assms(1) blank(2) by auto
    from strip_around [OF this, of key] show ?thesis using ok(2) by (simp add: trim_string_strip)
  qed
  ultimately show ?thesis using ok(1) by auto
qed

text \<open>The file \<open>main\<close> writes: a comment and six items.\<close>

definition main_items :: "(string \<times> string) list" where
  "main_items =
     [(''server_ip'', ''192.168.1.100''), (''server_port'', ''8080''), (''timeout'', ''30''), (''debug_mode'', ''true''),
      (''username'', ''admin''), (''welcome_message'', ''Hello, World!'')]"

lemma main_items_ok: "\<forall>kv \<in> set main_items. item_ok kv"
  by (simp add: main_items_def item_ok_def strip_def strip_end_def isspace_def numeric_key_def atoi_def Let_def
      is_digit_def digits_value_def of_char_def)

abbreviation (input) comment_line :: string where
  "comment_line \<equiv> ''# Sample configuration file'' @ [newline]"

lemma config_text_items: "config_text = comment_line @ concat (map item_text main_items)"
  by (simp add: config_text_def main_items_def item_text_def)

lemma fgets_comment: "28 < n \<Longrightarrow> fgets n (comment_line @ cs) = Some (comment_line, cs)"
  using take_line_newline [of "''# Sample configuration file''" n cs] by (simp add: fgets_def)

lemma c_str_comment: "c_str comment_line = comment_line"
  by (simp add: c_str_def)

lemma read_config_text: "read_loop 0 config_text = Some (map item_line main_items)"
proof -
  have "read_line n comment_line = Some []" for n
    unfolding read_line_def c_str_comment Let_def by simp
  with fgets_comment [of 255 "concat (map item_text main_items)"] read_items [OF main_items_ok, of "0 + 1"]
  show ?thesis unfolding config_text_items by (subst read_loop.simps) simp
qed

lemma search_config_text:
  "search_loop key config_text =
     map (\<lambda>(k, v). (k, strip (takeWhile (\<lambda>c. c \<noteq> equals_sign) v))) (filter (\<lambda>(k, v). k = key) main_items)"
proof -
  have "search_line key comment_line = []"
    unfolding search_line_def c_str_comment Let_def by simp
  with fgets_comment [of 255 "concat (map item_text main_items)"] search_items [OF main_items_ok, of key]
  show ?thesis unfolding config_text_items by (subst search_loop.simps) simp
qed

lemma cfg_main_prints:
  assumes "item_ok (key, v)" and "length key < 99"
  shows "cfg_main (key @ [newline]) files = Some
    (Some [Config_string ''server_ip'' ''192.168.1.100'', Config_number ''server_port'' 8080,
       Config_number ''timeout'' 30, Config_bool ''debug_mode'' ''true'' True,
       Config_string ''username'' ''admin'', Config_string ''welcome_message'' ''Hello, World!''],
     case map_of main_items key of None \<Rightarrow> Not_found key | Some v \<Rightarrow> Found [(key, v)],
     files(''config.cfg'' \<mapsto> config_text))"
proof -
  from typed_key [of "[]" "[]" key v] assms obtain l where
    l: "fgets 99 (key @ [newline]) = Some (l, [])" "trim_string (c_str l) = key" "key \<noteq> []" by auto
  have lines: "map item_line main_items =
      [Config_string ''server_ip'' ''192.168.1.100'', Config_number ''server_port'' 8080,
       Config_number ''timeout'' 30, Config_bool ''debug_mode'' ''true'' True,
       Config_string ''username'' ''admin'', Config_string ''welcome_message'' ''Hello, World!'']"
    by (simp add: main_items_def item_line_def numeric_key_def atoi_def Let_def isspace_def
        is_digit_def digits_value_def of_char_def parse_bool_def trim_string_strip strip_def strip_end_def
        to_lowercase_def tolower_def)
  have found: "(let out = search_loop key config_text in if out = [] then Not_found key else Found out) =
      (case map_of main_items key of None \<Rightarrow> Not_found key | Some v \<Rightarrow> Found [(key, v)])"
    unfolding search_config_text
    by (auto simp: main_items_def Let_def strip_def strip_end_def isspace_def)
  show ?thesis
    using l found by (simp add: cfg_main_def write_config_file_def read_config_file_def search_config_def
        read_config_text lines Let_def cong: if_cong split del: if_split)
qed

section \<open>Properties\<close>

text \<open>
  C12: a file of items, one \<open>key = value\<close> line each, is read back item by item: in order, none
  lost, each key and value as it was, with the type its key demands.  An item has a non-empty key
  without \<open>=\<close> that does not start with \<open>#\<close>, no blanks around key or value, no newline or zero
  inside, at most 250 characters, and a number where the key is numeric; the value may hold \<open>=\<close>.
\<close>

theorem read_config_roundtrip:
  assumes "\<forall>kv \<in> set items. item_ok kv" and "files name = Some (concat (map item_text items))"
  shows "read_config_file True name files = Some (Some (map item_line items))"
  using assms by (simp add: read_config_file_def read_items)

lemma read_config_roundtrip_witness:
  "read_config_file True ''c'' [''c'' \<mapsto> concat (map item_text main_items)] = Some (Some
     [Config_string ''server_ip'' ''192.168.1.100'', Config_number ''server_port'' 8080,
      Config_number ''timeout'' 30, Config_bool ''debug_mode'' ''true'' True,
      Config_string ''username'' ''admin'', Config_string ''welcome_message'' ''Hello, World!''])"
  using read_config_roundtrip [OF main_items_ok, of "[''c'' \<mapsto> concat (map item_text main_items)]" "''c''"]
  by (simp add: main_items_def item_line_def numeric_key_def atoi_def Let_def isspace_def
      is_digit_def digits_value_def of_char_def parse_bool_def trim_string_strip strip_def strip_end_def
      to_lowercase_def tolower_def)

text \<open>
  Searching such a file for a key that is typed in, with blanks around it or not, prints the
  items of this key in their order, and no others; but of a value only the part in front of its
  first \<open>=\<close>, where reading gives the whole value.
\<close>

theorem search_config_finds_items:
  assumes "\<forall>kv \<in> set items. item_ok kv" and "files name = Some (concat (map item_text items))"
    and "\<forall>c \<in> set ws \<union> set ws'. isspace c \<and> c \<noteq> newline" and "item_ok (key, v)"
    and "length ws + length key + length ws' < 99"
  shows "search_config True name (ws @ key @ ws' @ [newline]) files =
    Some (let out = map (\<lambda>(k, v). (k, strip (takeWhile (\<lambda>c. c \<noteq> equals_sign) v))) (filter (\<lambda>(k, v). k = key) items)
          in if out = [] then Not_found key else Found out)"
proof -
  from typed_key [OF assms(3-5)] obtain l where
    "fgets 99 (ws @ key @ ws' @ [newline]) = Some (l, [])" "trim_string (c_str l) = key" "key \<noteq> []" by blast
  then show ?thesis
    using assms(2) search_items [OF assms(1), of key] by (simp add: search_config_def)
qed

definition twice_items :: "(string \<times> string) list" where
  "twice_items = [(''user'', ''a''), (''port'', ''80''), (''user'', ''b = c'')]"

lemma twice_items_ok: "\<forall>kv \<in> set twice_items. item_ok kv"
  by (simp add: twice_items_def item_ok_def strip_def strip_end_def isspace_def numeric_key_def)

lemma search_config_finds_items_witness:
  "search_config True ''c'' ('' user'' @ [newline]) [''c'' \<mapsto> concat (map item_text twice_items)] =
    Some (Found [(''user'', ''a''), (''user'', ''b'')])"
proof -
  have "\<forall>c \<in> set '' '' \<union> set []. isspace c \<and> c \<noteq> newline" by (simp add: isspace_def)
  from search_config_finds_items [OF twice_items_ok _ this, of "[''c'' \<mapsto> concat (map item_text twice_items)]" "''c''" "''user''" "''a''"]
  show ?thesis
    using twice_items_ok by (simp add: twice_items_def strip_def strip_end_def isspace_def)
qed

text \<open>
  \<open>parse_bool\<close> looks at fifteen characters: a value that starts with \<open>true\<close> and at least
  eleven blanks is true whatever follows.
\<close>

theorem parse_bool_truncates:
  assumes "\<forall>c \<in> set ws. isspace c \<and> tolower c = c" and "11 \<le> length ws"
  shows "parse_bool (''true'' @ ws @ rest)"
proof -
  have "take 15 (''true'' @ ws @ rest) = ''true'' @ take 11 ws" using assms(2) by (simp add: numeral_eq_Suc)
  moreover have "to_lowercase (''true'' @ take 11 ws) = ''true'' @ take 11 ws"
  proof -
    have "map tolower (take 11 ws) = take 11 ws" using assms(1) by (auto intro!: map_idI dest: in_set_takeD)
    then show ?thesis by (simp add: to_lowercase_def tolower_def Let_def of_char_def)
  qed
  moreover have "trim_string (''true'' @ take 11 ws) = ''true''"
  proof -
    have "\<forall>c \<in> set (take 11 ws). isspace c" using assms(1) by (auto dest: in_set_takeD)
    from strip_around [of "[]", OF _ this, of "''true''"] show ?thesis
      by (simp add: trim_string_strip strip_def strip_end_def isspace_def)
  qed
  ultimately show ?thesis by (simp only: parse_bool_def Let_def simp_thms)
qed

lemma parse_bool_truncates_witness:
  "parse_bool (''true'' @ replicate 11 (CHR '' '') @ ''is not what is meant'')"
proof -
  have "\<forall>c \<in> set (replicate 11 (CHR '' '')). isspace c \<and> tolower c = c"
    by (simp add: isspace_def tolower_def of_char_def)
  from parse_bool_truncates [OF this] show ?thesis by simp
qed

end
