(* ===== verification/DaemonGuard.thy ===== *)
theory DaemonGuard
  imports ConfigFile "HOL-Library.Multiset" "HOL-Library.Sublist"
begin

text \<open>
  The process supervisor (\<open>3.tools/1.daemon/daemon/daemon_guard.c\<close>): the command line that names
  the workers, becoming a daemon, and the loop that polls every worker once a second and restarts
  those that have ended.  What the kernel answers (\<open>fork\<close>, \<open>waitpid\<close>, \<open>time\<close>) comes as arguments.
\<close>

section \<open>Data\<close>

record Worker =
  command :: string
  w_name :: string
  pid :: int
  max_restarts :: int
  restart_delay :: int
  restart_count :: int
  last_restart :: int

text \<open>
  \<open>workers\<close> is \<open>NULL\<close> at the start, an array, or memory that was released; \<open>worker_count\<close> stays
  what it was when the array is released.
\<close>

datatype worker_array = No_array | Workers "Worker list" | Released_array

record guard_state =
  workers :: worker_array
  worker_count :: nat

definition guard_start :: guard_state where
  "guard_start = \<lparr>workers = No_array, worker_count = 0\<rparr>"

text \<open>How a program ends before it monitors anything.\<close>

datatype guard_exit = Usage | Unknown_parameter string | No_worker | Exit_failure | Exit_parent

section \<open>The command line\<close>

text \<open>
  What a new element of the array holds where \<open>parse_args\<close> does not write: the two fields
  \<open>restart_count\<close> and \<open>last_restart\<close>, by position.
\<close>

type_synonym junk = "nat \<Rightarrow> int \<times> int"

definition new_worker :: "junk \<Rightarrow> nat \<Rightarrow> string \<Rightarrow> Worker" where
  "new_worker junk i cmd = \<lparr>command = cmd, w_name = ''unnamed'', pid = - 1, max_restarts = 3, restart_delay = 1,
     restart_count = fst (junk i), last_restart = snd (junk i)\<rparr>"

text \<open>A change of \<open>workers[worker_count - 1]\<close>: without a worker it is outside the array.\<close>

definition change_last :: "(Worker \<Rightarrow> Worker) \<Rightarrow> Worker list \<Rightarrow> Worker list option" where
  "change_last f ws = (if ws = [] then None else Some (butlast ws @ [f (last ws)]))"

text \<open>
  \<open>parse_args\<close> with its loop over \<open>argv\<close>; the result \<^term>\<open>None\<close> is undefined behaviour, a
  left value an exit.  The capacity of the array is part of the state of the loop.
\<close>

fun parse_loop :: "junk \<Rightarrow> string list \<Rightarrow> nat \<Rightarrow> Worker list \<Rightarrow> (guard_exit + Worker list \<times> nat) option" where
  "parse_loop junk [] cap ws = Some (Inr (ws, cap))"
| "parse_loop junk [a] cap ws =
     (if a = ''--'' then Some (Inr (ws, cap)) else Some (Inl (Unknown_parameter a)))"
| "parse_loop junk (a # b # as) cap ws =
     (if a = ''--cmd''
      then parse_loop junk as (if length ws \<ge> cap then cap * 2 else cap) (ws @ [new_worker junk (length ws) b])
      else if a = ''--name''
      then Option.bind (change_last (\<lambda>w. w\<lparr>w_name := b\<rparr>) ws) (parse_loop junk as cap)
      else if a = ''--max-restarts''
      then Option.bind (atoi b) (\<lambda>n.
             Option.bind (change_last (\<lambda>w. w\<lparr>max_restarts := n\<rparr>) ws) (parse_loop junk as cap))
      else if a = ''--restart-delay''
      then Option.bind (atoi b) (\<lambda>n.
             Option.bind (change_last (\<lambda>w. w\<lparr>restart_delay := n\<rparr>) ws) (parse_loop junk as cap))
      else if a = ''--'' then parse_loop junk (b # as) cap ws
      else Some (Inl (Unknown_parameter a)))"

definition parse_args :: "junk \<Rightarrow> string list \<Rightarrow> (guard_exit + guard_state) option" where
  "parse_args junk argv =
     map_option (map_sum id (\<lambda>(ws, cap). \<lparr>workers = Workers ws, worker_count = length ws\<rparr>))
       (parse_loop junk (tl argv) 2 [])"

section \<open>Starting\<close>

text \<open>The results of \<open>fork\<close> and \<open>setsid\<close> decide who goes on.\<close>

definition daemonize :: "int \<Rightarrow> int \<Rightarrow> (guard_exit + unit)" where
  "daemonize fork_result setsid_result =
     (if fork_result < 0 then Inl Exit_failure
      else if fork_result > 0 then Inl Exit_parent
      else if setsid_result < 0 then Inl Exit_failure
      else Inr ())"

text \<open>Lines the supervisor prints.\<close>

datatype report = Boot string int | Will_restart string int | Gave_up string

text \<open>In the supervisor (the child runs the command and does not come back).\<close>

definition start_worker :: "int \<Rightarrow> int \<Rightarrow> Worker \<Rightarrow> Worker \<times> report list" where
  "start_worker fork_result now w =
     (if fork_result > 0
      then (w\<lparr>pid := fork_result, last_restart := now\<rparr>, [Boot (w_name w) fork_result])
      else (w, []))"

section \<open>Monitoring\<close>

text \<open>
  The answers for one worker in one round: of \<open>waitpid\<close>, of \<open>time\<close>, and, for a restart, of \<open>fork\<close>
  and of \<open>time\<close> in \<open>start_worker\<close>.
\<close>

record poll =
  wait_result :: int
  poll_time :: int
  fork_answer :: int
  boot_time :: int

text \<open>\<open>int\<close> arithmetic on \<open>restart_count\<close>: an overflow is undefined.\<close>

definition poll_worker :: "poll \<Rightarrow> Worker \<Rightarrow> (Worker \<times> report list) option" where
  "poll_worker e w =
     (if wait_result e = pid w
      then do {
        w1 \<leftarrow> (if poll_time e - last_restart w < restart_delay w
              then if restart_count w + 1 < 2 ^ 31 then Some (w\<lparr>restart_count := restart_count w + 1\<rparr>) else None
              else Some (w\<lparr>restart_count := 0\<rparr>));
        if restart_count w1 \<ge> max_restarts w1 then Some (w1, [Gave_up (w_name w1)])
        else (let (w2, out) = start_worker (fork_answer e) (boot_time e) w1
              in Some (w2, Will_restart (w_name w1) (restart_delay w1) # out))
      }
      else Some (w, []))"

fun poll_all :: "poll list \<Rightarrow> Worker list \<Rightarrow> (Worker list \<times> report list) option" where
  "poll_all (e # es) (w # ws) = do {
     (w1, out) \<leftarrow> poll_worker e w;
     (ws1, outs) \<leftarrow> poll_all es ws;
     Some (w1 # ws1, out @ outs)
   }"
| "poll_all _ _ = Some ([], [])"

text \<open>One round of the loop; reading released workers has no result.\<close>

definition monitor_round :: "poll list \<Rightarrow> guard_state \<Rightarrow> (guard_state \<times> report list) option" where
  "monitor_round es s =
     (if worker_count s = 0 then Some (s, [])
      else case workers s of
             Workers ws \<Rightarrow>
               if length ws = worker_count s
               then map_option (\<lambda>(ws1, out). (s\<lparr>workers := Workers ws1\<rparr>, out)) (poll_all es ws)
               else None
           | _ \<Rightarrow> None)"

fun monitor_workers :: "poll list list \<Rightarrow> guard_state \<Rightarrow> (guard_state \<times> report list) option" where
  "monitor_workers [] s = Some (s, [])"
| "monitor_workers (es # rounds) s = do {
     (s1, out) \<leftarrow> monitor_round es s;
     (s2, outs) \<leftarrow> monitor_workers rounds s1;
     Some (s2, out @ outs)
   }"

text \<open>\<open>cleanup\<close>, also the handler of \<open>SIGTERM\<close> and \<open>SIGINT\<close>: the processes it kills.\<close>

definition cleanup :: "guard_state \<Rightarrow> (guard_state \<times> int list) option" where
  "cleanup s =
     (case workers s of
        Workers ws \<Rightarrow> Some (s\<lparr>workers := Released_array\<rparr>, filter (\<lambda>p. p > 0) (map pid ws))
      | No_array \<Rightarrow> if worker_count s = 0 then Some (s\<lparr>workers := Released_array\<rparr>, []) else None
      | Released_array \<Rightarrow> None)"

text \<open>\<open>main\<close> up to the monitoring loop.\<close>

definition guard_main ::
  "junk \<Rightarrow> string list \<Rightarrow> int \<Rightarrow> int \<Rightarrow> (nat \<Rightarrow> int \<times> int) \<Rightarrow> (guard_exit + guard_state \<times> report list) option" where
  "guard_main junk argv fork_result setsid_result boots =
     (if length argv < 2 then Some (Inl Usage)
      else do {
        r \<leftarrow> parse_args junk argv;
        (case r of
           Inl why \<Rightarrow> Some (Inl why)
         | Inr s \<Rightarrow>
             if worker_count s = 0 then Some (Inl No_worker)
             else case daemonize fork_result setsid_result of
                    Inl why \<Rightarrow> Some (Inl why)
                  | Inr _ \<Rightarrow>
                      (case workers s of
                         Workers ws \<Rightarrow>
                           (let started = map (\<lambda>i. start_worker (fst (boots i)) (snd (boots i)) (ws ! i)) [0..<length ws]
                            in Some (Inr (s\<lparr>workers := Workers (map fst started)\<rparr>, concat (map snd started))))
                       | _ \<Rightarrow> None))
      })"

section \<open>Command lines of workers\<close>

text \<open>What a user writes for a worker, every option given.\<close>

record worker_spec =
  spec_cmd :: string
  spec_name :: string
  spec_max :: string
  spec_delay :: string

definition spec_args :: "worker_spec \<Rightarrow> string list" where
  "spec_args w = [''--cmd'', spec_cmd w, ''--name'', spec_name w, ''--max-restarts'', spec_max w,
     ''--restart-delay'', spec_delay w, ''--'']"

definition spec_worker :: "junk \<Rightarrow> nat \<Rightarrow> worker_spec \<Rightarrow> Worker" where
  "spec_worker junk i w = \<lparr>command = spec_cmd w, w_name = spec_name w, pid = - 1,
     max_restarts = the (atoi (spec_max w)), restart_delay = the (atoi (spec_delay w)),
     restart_count = fst (junk i), last_restart = snd (junk i)\<rparr>"

definition spec_ok :: "worker_spec \<Rightarrow> bool" where
  "spec_ok w \<longleftrightarrow> atoi (spec_max w) \<noteq> None \<and> atoi (spec_delay w) \<noteq> None"

lemma change_last_snoc [simp]: "change_last f (ws @ [w]) = Some (ws @ [f w])"
  by (simp add: change_last_def)

lemma parse_separator: "parse_loop junk (''--'' # as) cap ws = parse_loop junk as cap ws"
  by (cases as) simp_all

lemma parse_spec:
  "spec_ok w \<Longrightarrow> parse_loop junk (spec_args w @ as) cap ws =
     parse_loop junk as (if length ws \<ge> cap then cap * 2 else cap) (ws @ [spec_worker junk (length ws) w])"
  by (auto simp: spec_args_def spec_ok_def spec_worker_def new_worker_def parse_separator)

lemma parse_specs:
  "\<forall>w \<in> set specs. spec_ok w \<Longrightarrow> length ws \<le> cap \<Longrightarrow> 0 < cap \<Longrightarrow>
     \<exists>cap'. parse_loop junk (concat (map spec_args specs)) cap ws =
       Some (Inr (ws @ map (\<lambda>i. spec_worker junk (length ws + i) (specs ! i)) [0..<length specs], cap'))
     \<and> length ws + length specs \<le> cap'"
proof (induction specs arbitrary: ws cap)
  case Nil
  then show ?case by simp
next
  case (Cons w specs)
  let ?cap = "if length ws \<ge> cap then cap * 2 else cap" and ?ws = "ws @ [spec_worker junk (length ws) w]"
  have "length ?ws \<le> ?cap" "0 < ?cap" using Cons.prems by auto
  from Cons.IH [OF _ this] Cons.prems(1) obtain cap' where
    "parse_loop junk (concat (map spec_args specs)) ?cap ?ws =
      Some (Inr (?ws @ map (\<lambda>i. spec_worker junk (length ?ws + i) (specs ! i)) [0..<length specs], cap'))"
    "length ?ws + length specs \<le> cap'" by auto
  moreover have "map (\<lambda>i. spec_worker junk (length ws + i) ((w # specs) ! i)) [0..<length (w # specs)] =
      spec_worker junk (length ws) w # map (\<lambda>i. spec_worker junk (length ?ws + i) (specs ! i)) [0..<length specs]"
    by (simp add: upt_conv_Cons map_Suc_upt [symmetric] del: upt_Suc)
  ultimately show ?case using Cons.prems(1) parse_spec [of w junk "concat (map spec_args specs)" cap ws] by simp
qed

lemma parse_args_roundtrip_parts:
  assumes "\<forall>w \<in> set specs. spec_ok w"
  shows "\<exists>s ws. parse_args junk (prog # concat (map spec_args specs)) = Some (Inr s)
    \<and> workers s = Workers ws \<and> worker_count s = length ws \<and> length ws = length specs \<and> (\<forall>w \<in> set ws. pid w = - 1)"
  using parse_specs [OF assms, of "[]" 2 junk] by (auto simp: parse_args_def spec_worker_def)

section \<open>A worker that keeps ending\<close>

text \<open>
  A worker polled as often as it ends: each event has the time of the poll, the answer of \<open>fork\<close>
  and the time of the new start.
\<close>

fun crashes :: "(int \<times> int \<times> int) list \<Rightarrow> Worker \<Rightarrow> (Worker \<times> report list) option" where
  "crashes [] w = Some (w, [])"
| "crashes ((t, f, b) # es) w = do {
     (w1, out) \<leftarrow> poll_worker \<lparr>wait_result = pid w, poll_time = t, fork_answer = f, boot_time = b\<rparr> w;
     (w2, outs) \<leftarrow> crashes es w1;
     Some (w2, out @ outs)
   }"

text \<open>The worker ends within its delay, or not before it, every time; \<open>b\<close> is its last start.\<close>

fun all_fast :: "int \<Rightarrow> int \<Rightarrow> (int \<times> int \<times> int) list \<Rightarrow> bool" where
  "all_fast d b [] = True"
| "all_fast d b ((t, f, b') # es) = (t - b < d \<and> f > 0 \<and> all_fast d b' es)"

fun all_slow :: "int \<Rightarrow> int \<Rightarrow> (int \<times> int \<times> int) list \<Rightarrow> bool" where
  "all_slow d b [] = True"
| "all_slow d b ((t, f, b') # es) = (d \<le> t - b \<and> f > 0 \<and> all_slow d b' es)"

definition restart_report :: "string \<Rightarrow> int \<Rightarrow> int \<times> int \<times> int \<Rightarrow> report list" where
  "restart_report name d e = (case e of (t, f, b) \<Rightarrow> [Will_restart name d, Boot name f])"

lemma crashes_fast:
  assumes "all_fast (restart_delay w) (last_restart w) es" and "0 \<le> restart_count w"
    and "restart_count w + int (length es) = max_restarts w" and "max_restarts w < 2 ^ 31" and "es \<noteq> []"
  shows "\<exists>w'. crashes es w = Some (w', concat (map (restart_report (w_name w) (restart_delay w)) (butlast es))
    @ [Gave_up (w_name w)])"
  using assms
proof (induction es arbitrary: w)
  case Nil
  then show ?case by simp
next
  case (Cons e es)
  obtain t f b where e: "e = (t, f, b)" by (cases e) auto
  from Cons.prems e have fast: "t - last_restart w < restart_delay w" "f > 0" and rest: "all_fast (restart_delay w) b es"
    and small: "restart_count w + 1 < 2 ^ 31" by auto
  show ?case
  proof (cases "es = []")
    case True
    with Cons.prems e fast small show ?thesis by (simp add: poll_worker_def)
  next
    case False
    let ?w = "w\<lparr>restart_count := restart_count w + 1, pid := f, last_restart := b\<rparr>"
    have "restart_count w + 1 < max_restarts w"
      using Cons.prems(3) False by (cases es) auto
    then have "poll_worker \<lparr>wait_result = pid w, poll_time = t, fork_answer = f, boot_time = b\<rparr> w =
        Some (?w, restart_report (w_name w) (restart_delay w) e)"
      using fast small e by (simp add: poll_worker_def start_worker_def restart_report_def Let_def)
    moreover from Cons.IH [of ?w] rest Cons.prems(2-4) False obtain w' where
      "crashes es ?w = Some (w', concat (map (restart_report (w_name w) (restart_delay w)) (butlast es)) @ [Gave_up (w_name w)])"
      by auto
    ultimately show ?thesis using e False by simp
  qed
qed

lemma crashes_slow:
  assumes "all_slow (restart_delay w) (last_restart w) es" and "0 < max_restarts w"
  shows "\<exists>w'. crashes es w = Some (w', concat (map (restart_report (w_name w) (restart_delay w)) es))"
  using assms
proof (induction es arbitrary: w)
  case Nil
  then show ?case by simp
next
  case (Cons e es)
  obtain t f b where e: "e = (t, f, b)" by (cases e) auto
  let ?w = "w\<lparr>restart_count := 0, pid := f, last_restart := b\<rparr>"
  have "poll_worker \<lparr>wait_result = pid w, poll_time = t, fork_answer = f, boot_time = b\<rparr> w =
      Some (?w, restart_report (w_name w) (restart_delay w) e)"
    using Cons.prems e by (simp add: poll_worker_def start_worker_def restart_report_def Let_def)
  moreover from Cons.IH [of ?w] Cons.prems e obtain w' where
    "crashes es ?w = Some (w', concat (map (restart_report (w_name w) (restart_delay w)) es))" by auto
  ultimately show ?case using e by simp
qed

section \<open>The supervisor as a whole\<close>

text \<open>What monitoring leaves as it is.\<close>

definition same_job :: "Worker \<Rightarrow> Worker \<Rightarrow> bool" where
  "same_job w w' \<longleftrightarrow> command w' = command w \<and> w_name w' = w_name w
     \<and> max_restarts w' = max_restarts w \<and> restart_delay w' = restart_delay w"

definition restarts_below :: "int \<Rightarrow> Worker list \<Rightarrow> bool" where
  "restarts_below n ws \<longleftrightarrow> (\<forall>w \<in> set ws. 0 \<le> restart_count w \<and> restart_count w < n)"

lemma same_job_refl: "list_all2 same_job ws ws"
  by (simp add: list_all2_refl same_job_def)

lemma same_job_trans: "same_job a b \<Longrightarrow> same_job b c \<Longrightarrow> same_job a c"
  by (simp add: same_job_def)

lemma same_jobs_trans: "list_all2 same_job as bs \<Longrightarrow> list_all2 same_job bs cs \<Longrightarrow> list_all2 same_job as cs"
  using list_all2_trans [of same_job same_job same_job as bs cs] same_job_trans by blast

text \<open>
  The lines about one worker, from which the process it runs in can be read off: that of the last
  \<open>boot\<close>, and none (the \<open>-1\<close> of \<open>parse_args\<close>) if there is no such line.
\<close>

fun last_boot :: "int \<Rightarrow> report list \<Rightarrow> int" where
  "last_boot p [] = p"
| "last_boot p (Boot name q # log) = last_boot q log"
| "last_boot p (r # log) = last_boot p log"

fun report_name :: "report \<Rightarrow> string" where
  "report_name (Boot name q) = name"
| "report_name (Will_restart name d) = name"
| "report_name (Gave_up name) = name"

definition log_of :: "report list \<Rightarrow> Worker \<Rightarrow> bool" where
  "log_of log w \<longleftrightarrow> pid w = last_boot (- 1) log \<and> (\<forall>r \<in> set log. report_name r = w_name w)"

lemma last_boot_append [simp]: "last_boot p (log @ log') = last_boot (last_boot p log) log'"
  by (induction p log rule: last_boot.induct) simp_all

lemma start_worker_log:
  "start_worker f t w = (w', out) \<Longrightarrow> log_of log w \<Longrightarrow> log_of (log @ out) w'"
  by (auto simp: start_worker_def log_of_def split: if_splits)

lemma poll_worker_log:
  assumes "poll_worker e w = Some (w', out)" "log_of log w"
  shows "log_of (log @ out) w'"
  using assms by (auto simp: poll_worker_def start_worker_def log_of_def Let_def split: if_splits)

lemma poll_all_log:
  assumes "poll_all es ws = Some (ws', out)" "length es = length ws" "list_all2 log_of logs ws"
  shows "\<exists>outs. length outs = length logs \<and> out = concat outs \<and> list_all2 log_of (map2 (@) logs outs) ws'"
  using assms
proof (induction es ws arbitrary: ws' out logs rule: poll_all.induct)
  case (1 e es w ws)
  from "1.prems"(1) obtain w1 out1 ws1 outs where
    p: "poll_worker e w = Some (w1, out1)" "poll_all es ws = Some (ws1, outs)" "ws' = w1 # ws1" "out = out1 @ outs"
    by (auto simp: bind_eq_Some_conv)
  from "1.prems"(3) obtain log logs1 where l: "logs = log # logs1" "log_of log w" "list_all2 log_of logs1 ws"
    by (auto simp: list_all2_Cons2)
  have len: "length es = length ws" using "1.prems"(2) by simp
  from "1.IH" [OF p(1) _ p(2) len l(3)] obtain outs' where
    "length outs' = length logs1" "outs = concat outs'" "list_all2 log_of (map2 (@) logs1 outs') ws1" by auto
  with poll_worker_log [OF p(1) l(2)] p l show ?case
    by (intro exI [of _ "out1 # outs'"]) simp
qed auto

text \<open>The lines printed are taken apart into those about the single workers, in their order.\<close>

definition taken_apart :: "report list list \<Rightarrow> report list \<Rightarrow> bool" where
  "taken_apart logs out \<longleftrightarrow> mset (concat logs) = mset out \<and> (\<forall>log \<in> set logs. subseq log out)"

lemma mset_concat_map2:
  "length outs = length logs \<Longrightarrow> mset (concat (map2 (@) logs outs)) = mset (concat logs) + mset (concat outs)"
  by (induction logs outs rule: list_induct2') auto

lemma subseq_concat: "l \<in> set ls \<Longrightarrow> subseq l (concat ls)"
  by (induction ls) (auto intro: list_emb_prefix list_emb_append2)

lemma taken_apart_next:
  assumes "taken_apart logs out" "length outs = length logs"
  shows "taken_apart (map2 (@) logs outs) (out @ concat outs)"
proof -
  have "subseq log (out @ concat outs)" if "log \<in> set (map2 (@) logs outs)" for log
  proof -
    from that obtain l1 l2 where l: "log = l1 @ l2" "l1 \<in> set logs" "l2 \<in> set outs"
      by (auto dest: set_zip_leftD set_zip_rightD)
    show ?thesis unfolding l(1)
      by (rule list_emb_append_mono) (use l assms(1) subseq_concat in \<open>auto simp: taken_apart_def\<close>)
  qed
  then show ?thesis using assms by (simp add: taken_apart_def mset_concat_map2)
qed

lemma taken_apart_concat: "taken_apart outs (concat outs)"
  by (simp add: taken_apart_def subseq_concat)

lemma poll_worker_ok:
  assumes "0 \<le> restart_count w" "restart_count w < n" "n < 2 ^ 31"
  shows "\<exists>w' out. poll_worker e w = Some (w', out) \<and> same_job w w'
    \<and> 0 \<le> restart_count w' \<and> restart_count w' < n + 1
    \<and> (restart_count w' \<ge> max_restarts w \<longrightarrow> (\<forall>d. Will_restart (w_name w) d \<notin> set out))"
  using assms by (auto simp: poll_worker_def start_worker_def same_job_def Let_def)

lemma poll_all_ok:
  assumes "restarts_below n ws" "n < 2 ^ 31" "length es = length ws"
  shows "\<exists>ws' out. poll_all es ws = Some (ws', out) \<and> list_all2 same_job ws ws' \<and> restarts_below (n + 1) ws'"
  using assms(3,1)
proof (induction es ws rule: list_induct2)
  case Nil
  then show ?case by (simp add: restarts_below_def)
next
  case (Cons e es w ws)
  then have w: "0 \<le> restart_count w" "restart_count w < n" and rest: "restarts_below n ws"
    by (simp_all add: restarts_below_def)
  from poll_worker_ok [OF w assms(2), of e] obtain w1 out where
    1: "poll_worker e w = Some (w1, out)" "same_job w w1" "0 \<le> restart_count w1" "restart_count w1 < n + 1" by blast
  from Cons.IH [OF rest] obtain ws1 outs where
    2: "poll_all es ws = Some (ws1, outs)" "list_all2 same_job ws ws1" "restarts_below (n + 1) ws1" by blast
  show ?case using 1 2 by (simp add: restarts_below_def)
qed

lemma monitor_workers_ok:
  assumes "workers s = Workers ws" "worker_count s = length ws" "restarts_below n ws"
    "n + int (length rounds) \<le> 2 ^ 31" "\<forall>es \<in> set rounds. length es = length ws"
    "list_all2 log_of logs ws" "taken_apart logs out0"
  shows "\<exists>s' ws' out logs'. monitor_workers rounds s = Some (s', out) \<and> workers s' = Workers ws'
    \<and> worker_count s' = length ws' \<and> list_all2 same_job ws ws'
    \<and> list_all2 log_of logs' ws' \<and> taken_apart logs' (out0 @ out)"
  using assms
proof (induction rounds arbitrary: s ws n logs out0)
  case Nil
  then show ?case using same_job_refl by (auto simp: restarts_below_def)
next
  case (Cons es rounds)
  have n: "n < 2 ^ 31" "length es = length ws" using Cons.prems(4,5) by simp_all
  from poll_all_ok [OF Cons.prems(3) n] obtain ws1 out where
    1: "poll_all es ws = Some (ws1, out)" "list_all2 same_job ws ws1" "restarts_below (n + 1) ws1" by blast
  have len: "length ws1 = length ws" using list_all2_lengthD [OF 1(2)] by simp
  define out1 where "out1 = (if ws = [] then [] else out)"
  have "out1 = out" using 1(1) n(2) by (cases ws) (auto simp: out1_def)
  with poll_all_log [OF 1(1) n(2) Cons.prems(6)] obtain logs1 where
    l: "list_all2 log_of logs1 ws1" "taken_apart logs1 (out0 @ out1)"
    using taken_apart_next [OF Cons.prems(7)] by blast
  define s1 where "s1 = (if ws = [] then s else s\<lparr>workers := Workers ws1\<rparr>)"
  have s1: "monitor_round es s = Some (s1, out1)"
    using 1(1) Cons.prems(1,2) by (simp add: monitor_round_def s1_def out1_def)
  have "workers s1 = Workers ws1" "worker_count s1 = length ws1"
    using Cons.prems(1,2) len by (auto simp: s1_def)
  from Cons.IH [OF this 1(3) _ _ l] Cons.prems(4,5) len obtain s2 ws2 outs logs2 where
    2: "monitor_workers rounds s1 = Some (s2, outs)" "workers s2 = Workers ws2" "worker_count s2 = length ws2"
    "list_all2 same_job ws1 ws2" "list_all2 log_of logs2 ws2"
    "taken_apart logs2 (out0 @ out1 @ outs)" by auto
  then have "monitor_workers (es # rounds) s = Some (s2, out1 @ outs)" using s1 by simp
  then show ?case using 2(2,3,5,6) same_jobs_trans [OF 1(2) 2(4)] by blast
qed

text \<open>\<open>main\<close> reaches its loop with the parsed workers, of which the forks that succeed are recorded.\<close>

lemma guard_main_started:
  assumes "guard_main junk argv fork_result setsid_result boots = Some (Inr (s, out))"
  shows "\<exists>s0 ws0 ws. parse_args junk argv = Some (Inr s0) \<and> workers s0 = Workers ws0 \<and> ws0 \<noteq> []
    \<and> fork_result = 0 \<and> 0 \<le> setsid_result
    \<and> workers s = Workers ws \<and> worker_count s = length ws \<and> list_all2 same_job ws0 ws
    \<and> map restart_count ws = map restart_count ws0
    \<and> ((\<forall>w \<in> set ws0. pid w = - 1) \<longrightarrow>
        (\<exists>logs. list_all2 log_of logs ws \<and> taken_apart logs out))"
proof -
  obtain s0 where s0: "parse_args junk argv = Some (Inr s0)" and two: "\<not> length argv < 2"
    using assms by (auto simp: guard_main_def split: if_splits bind_splits sum.splits)
  then obtain ws0 where w0: "workers s0 = Workers ws0" "worker_count s0 = length ws0"
    by (cases "parse_loop junk (tl argv) 2 []") (auto simp: parse_args_def map_sum_def split: sum.splits)
  have d: "worker_count s0 \<noteq> 0" "daemonize fork_result setsid_result = Inr ()"
    using assms s0 two by (auto simp: guard_main_def split: if_splits sum.splits)
  let ?b = "\<lambda>i. start_worker (fst (boots i)) (snd (boots i)) (ws0 ! i)"
  have "s = s0\<lparr>workers := Workers (map (fst \<circ> ?b) [0..<length ws0])\<rparr>"
    and out: "out = concat (map (snd \<circ> ?b) [0..<length ws0])"
    using assms s0 two w0 d by (simp_all add: guard_main_def Let_def)
  moreover have "list_all2 same_job ws0 (map (fst \<circ> ?b) [0..<length ws0])"
    by (auto simp: list_all2_conv_all_nth start_worker_def same_job_def)
  moreover have "map restart_count (map (fst \<circ> ?b) [0..<length ws0]) = map restart_count ws0"
    by (auto intro: nth_equalityI simp: start_worker_def)
  moreover have "list_all2 log_of (map (snd \<circ> ?b) [0..<length ws0]) (map (fst \<circ> ?b) [0..<length ws0])"
    if "\<forall>w \<in> set ws0. pid w = - 1"
    using that by (auto simp: list_all2_conv_all_nth start_worker_def log_of_def)
  moreover have "taken_apart (map (snd \<circ> ?b) [0..<length ws0]) out" unfolding out by (rule taken_apart_concat)
  ultimately show ?thesis using s0 w0 d
    by (auto simp: daemonize_def split: if_splits)
qed

lemma change_last_all:
  assumes "change_last f ws = Some ws1" "\<And>w. Q w \<Longrightarrow> Q (f w)" "\<forall>w \<in> set ws. Q w"
  shows "\<forall>w \<in> set ws1. Q w"
proof -
  have "ws1 = butlast ws @ [f (last ws)]" "last ws \<in> set ws" "set (butlast ws) \<subseteq> set ws"
    using assms(1) by (auto simp: change_last_def split: if_splits dest: in_set_butlastD)
  with assms(2,3) show ?thesis by auto
qed

text \<open>What no option changes: the restart count of a new worker, and that it is not started.\<close>

definition unstarted :: "(int \<Rightarrow> bool) \<Rightarrow> Worker \<Rightarrow> bool" where
  "unstarted P w \<longleftrightarrow> P (restart_count w) \<and> pid w = - 1"

lemma parse_loop_unstarted:
  "parse_loop junk as cap ws = Some (Inr (ws', cap')) \<Longrightarrow> \<forall>i. P (fst (junk i)) \<Longrightarrow>
     \<forall>w \<in> set ws. unstarted P w \<Longrightarrow> \<forall>w \<in> set ws'. unstarted P w"
proof (induction junk as cap ws rule: parse_loop.induct)
  case (3 junk a b as cap ws)
  note change = change_last_all [where Q = "unstarted P" and ws = ws, OF _ _ "3.prems"(3)]
  consider "a = ''--cmd''" | "a = ''--name''" | "a = ''--max-restarts''" | "a = ''--restart-delay''" | "a = ''--''"
    using "3.prems"(1) by (auto split: if_splits)
  then show ?case
  proof cases
    case 1
    have "\<forall>w \<in> set (ws @ [new_worker junk (length ws) b]). unstarted P w"
      using "3.prems"(2,3) by (simp add: new_worker_def unstarted_def)
    from "3.IH"(1) [OF 1 _ "3.prems"(2) this] show ?thesis using "3.prems"(1) 1 by simp
  next
    case 2
    with "3.prems"(1) obtain ws1 where c: "change_last (w_name_update (\<lambda>_. b)) ws = Some ws1"
      and r: "parse_loop junk as cap ws1 = Some (Inr (ws', cap'))" by (auto simp: bind_eq_Some_conv)
    have "\<forall>w \<in> set ws1. unstarted P w" by (rule change [OF c]) (simp add: unstarted_def)
    with "3.IH"(2) [of ws1] "3.prems"(2) c r 2 show ?thesis by simp
  next
    case 3
    with "3.prems"(1) obtain n ws1 where n: "atoi b = Some n" and c: "change_last (max_restarts_update (\<lambda>_. n)) ws = Some ws1"
      and r: "parse_loop junk as cap ws1 = Some (Inr (ws', cap'))" by (auto simp: bind_eq_Some_conv)
    have "\<forall>w \<in> set ws1. unstarted P w" by (rule change [OF c]) (simp add: unstarted_def)
    with "3.IH"(3) [of n ws1] "3.prems"(2) c r n 3 show ?thesis by simp
  next
    case 4
    with "3.prems"(1) obtain n ws1 where n: "atoi b = Some n" and c: "change_last (restart_delay_update (\<lambda>_. n)) ws = Some ws1"
      and r: "parse_loop junk as cap ws1 = Some (Inr (ws', cap'))" by (auto simp: bind_eq_Some_conv)
    have "\<forall>w \<in> set ws1. unstarted P w" by (rule change [OF c]) (simp add: unstarted_def)
    with "3.IH"(4) [of n ws1] "3.prems"(2) c r n 4 show ?thesis by simp
  next
    case 5
    from "3.IH"(5) [OF _ _ _ _ 5 _ "3.prems"(2,3)] "3.prems"(1) 5 show ?thesis by simp
  qed
qed (auto split: if_splits)

lemma parse_args_unstarted:
  assumes "parse_args junk argv = Some (Inr s)" "workers s = Workers ws" "\<forall>i. 0 \<le> fst (junk i) \<and> fst (junk i) < n"
  shows "restarts_below n ws" "\<forall>w \<in> set ws. pid w = - 1"
  using assms parse_loop_unstarted [of junk "tl argv" 2 "[]" ws _ "\<lambda>k. 0 \<le> k \<and> k < n"]
  by (cases "parse_loop junk (tl argv) 2 []";
      auto simp: parse_args_def map_sum_def restarts_below_def unstarted_def split: sum.splits)+

lemma restarts_below_cong:
  "map restart_count ws = map restart_count ws0 \<Longrightarrow> restarts_below n ws0 \<Longrightarrow> restarts_below n ws"
proof -
  assume eq: "map restart_count ws = map restart_count ws0" and below: "restarts_below n ws0"
  from eq have "restart_count ` set ws = restart_count ` set ws0" by (metis set_map)
  with below show "restarts_below n ws" unfolding restarts_below_def by (metis imageE imageI)
qed

section \<open>Properties\<close>

text \<open>
  A command line that gives each worker its command, name, limit and delay, followed by
  \<open>--\<close>, is parsed into exactly these workers, in order, none of them started; whatever the length,
  the array is large enough.  The two fields of the restart history are left as \<open>malloc\<close> gave them.
\<close>

theorem parse_args_roundtrip:
  assumes "\<forall>w \<in> set specs. spec_ok w"
  shows "parse_args junk (prog # concat (map spec_args specs)) =
      Some (Inr \<lparr>workers = Workers (map (\<lambda>i. spec_worker junk i (specs ! i)) [0..<length specs]),
                 worker_count = length specs\<rparr>)
    \<and> (\<exists>ws cap. parse_loop junk (concat (map spec_args specs)) 2 [] = Some (Inr (ws, cap)) \<and> length ws \<le> cap)"
  using parse_specs [OF assms, of "[]" 2 junk] by (auto simp: parse_args_def)

definition two_specs :: "worker_spec list" where
  "two_specs = [\<lparr>spec_cmd = ''a'', spec_name = ''x'', spec_max = ''5'', spec_delay = ''2''\<rparr>,
     \<lparr>spec_cmd = ''b'', spec_name = ''y'', spec_max = ''1'', spec_delay = ''0''\<rparr>]"

lemma two_specs_ok: "\<forall>w \<in> set two_specs. spec_ok w"
  by (simp add: two_specs_def spec_ok_def atoi_def Let_def isspace_def is_digit_def digits_value_def of_char_def)

lemma parse_args_roundtrip_witness:
  "parse_args (\<lambda>i. (7, 8)) (''guard'' # concat (map spec_args two_specs)) =
     Some (Inr \<lparr>workers = Workers
        [\<lparr>command = ''a'', w_name = ''x'', pid = - 1, max_restarts = 5, restart_delay = 2, restart_count = 7, last_restart = 8\<rparr>,
         \<lparr>command = ''b'', w_name = ''y'', pid = - 1, max_restarts = 1, restart_delay = 0, restart_count = 7, last_restart = 8\<rparr>],
       worker_count = 2\<rparr>)"
  using parse_args_roundtrip [OF two_specs_ok, of "\<lambda>i. (7, 8)" "''guard''"]
  by (simp add: two_specs_def upt_conv_Cons spec_worker_def atoi_def Let_def isspace_def is_digit_def
      digits_value_def of_char_def)

text \<open>
  The restart limit: a worker whose count is 0 and which ends within its delay every time is
  restarted one time less than its limit and then given up; but one that is always found ended
  after its delay or later is restarted for ever.  A worker is polled once a second, so with the
  default delay of one second the limit never applies.
\<close>

theorem restart_limit:
  assumes "restart_count w = 0" and "0 < max_restarts w" and "max_restarts w < 2 ^ 31"
  shows "(all_fast (restart_delay w) (last_restart w) es \<and> int (length es) = max_restarts w \<longrightarrow>
      (\<exists>w'. crashes es w = Some (w', concat (map (restart_report (w_name w) (restart_delay w)) (butlast es))
         @ [Gave_up (w_name w)])))
    \<and> (all_slow (restart_delay w) (last_restart w) es \<longrightarrow>
      (\<exists>w'. crashes es w = Some (w', concat (map (restart_report (w_name w) (restart_delay w)) es))))"
proof (intro conjI impI)
  assume a: "all_fast (restart_delay w) (last_restart w) es \<and> int (length es) = max_restarts w"
  then have "es \<noteq> []" using assms(2) by auto
  with a assms show "\<exists>w'. crashes es w =
      Some (w', concat (map (restart_report (w_name w) (restart_delay w)) (butlast es)) @ [Gave_up (w_name w)])"
    by (intro crashes_fast) simp_all
qed (rule crashes_slow [OF _ assms(2)])

lemma restart_limit_witness:
  "\<exists>w'. crashes [(10, 101, 11), (12, 102, 13), (14, 103, 15)]
      \<lparr>command = ''a'', w_name = ''x'', pid = 100, max_restarts = 3, restart_delay = 5, restart_count = 0, last_restart = 9\<rparr> =
    Some (w', [Will_restart ''x'' 5, Boot ''x'' 101, Will_restart ''x'' 5, Boot ''x'' 102, Gave_up ''x''])"
  using restart_limit [of "\<lparr>command = ''a'', w_name = ''x'', pid = 100, max_restarts = 3, restart_delay = 5,
      restart_count = 0, last_restart = 9\<rparr>" "[(10, 101, 11), (12, 102, 13), (14, 103, 15)]"]
  by (simp add: restart_report_def)

lemma restart_limit_parts:
  "\<forall>w \<in> set ws. restart_count w = 0 \<and> 0 < max_restarts w \<and> max_restarts w < 2 ^ 31 \<longrightarrow>
    (\<forall>es. all_fast (restart_delay w) (last_restart w) es \<and> int (length es) = max_restarts w \<longrightarrow>
      (\<exists>w'. crashes es w = Some (w', concat (map (restart_report (w_name w) (restart_delay w)) (butlast es))
         @ [Gave_up (w_name w)])))
    \<and> (\<forall>es. all_slow (restart_delay w) (last_restart w) es \<longrightarrow>
      (\<exists>w'. crashes es w = Some (w', concat (map (restart_report (w_name w) (restart_delay w)) es))))"
  using restart_limit by blast

text \<open>
  C23: the supervisor as a whole: \<open>main\<close> gets to its loop only in the daemon and with at least one
  parsed worker; from there any number of rounds has a result as long as no restart count can
  overflow, and keeps every worker with its command, name, limit and delay.  The lines printed are
  those about the single workers, and \<open>cleanup\<close> kills, for each worker, exactly the process of the
  last line that says that it was booted, or none if no \<open>fork\<close> for it succeeded; then it releases the
  array, but it is installed as a signal handler and comes back: the next round of the loop, and a
  second signal, use released memory.  Every worker with a limit and a clear history that then ends
  within its delay every time is restarted one time less than its limit and given up, and one that is
  found ended after its delay or later every time is restarted for ever.
\<close>

theorem guard_supervises:
  assumes "guard_main junk argv fork_result setsid_result boots = Some (Inr (s, out))"
    and "\<forall>i. 0 \<le> fst (junk i) \<and> fst (junk i) < n" and "n + int (length rounds) \<le> 2 ^ 31"
    and "\<forall>es \<in> set rounds. length es = worker_count s"
  shows "\<exists>s0 ws0 s' ws' reports logs s''. parse_args junk argv = Some (Inr s0) \<and> workers s0 = Workers ws0 \<and> ws0 \<noteq> []
    \<and> fork_result = 0 \<and> 0 \<le> setsid_result
    \<and> monitor_workers rounds s = Some (s', reports) \<and> workers s' = Workers ws' \<and> list_all2 same_job ws0 ws'
    \<and> taken_apart logs (out @ reports)
    \<and> list_all2 (\<lambda>log w. \<forall>r \<in> set log. report_name r = w_name w) logs ws'
    \<and> cleanup s' = Some (s'', filter (\<lambda>p. p > 0) (map (last_boot (- 1)) logs))
    \<and> (\<forall>es. monitor_round es s'' = None) \<and> cleanup s'' = None
    \<and> (\<forall>w \<in> set ws'. restart_count w = 0 \<and> 0 < max_restarts w \<and> max_restarts w < 2 ^ 31 \<longrightarrow>
        (\<forall>es. all_fast (restart_delay w) (last_restart w) es \<and> int (length es) = max_restarts w \<longrightarrow>
          (\<exists>w'. crashes es w = Some (w', concat (map (restart_report (w_name w) (restart_delay w)) (butlast es))
             @ [Gave_up (w_name w)])))
        \<and> (\<forall>es. all_slow (restart_delay w) (last_restart w) es \<longrightarrow>
          (\<exists>w'. crashes es w = Some (w', concat (map (restart_report (w_name w) (restart_delay w)) es)))))"
proof -
  from guard_main_started [OF assms(1)] obtain s0 ws0 ws where
    p: "parse_args junk argv = Some (Inr s0)" "workers s0 = Workers ws0" "ws0 \<noteq> []" "fork_result = 0"
    "0 \<le> setsid_result" and w: "workers s = Workers ws" "worker_count s = length ws" "list_all2 same_job ws0 ws"
    "map restart_count ws = map restart_count ws0"
    and logs: "(\<forall>w \<in> set ws0. pid w = - 1) \<longrightarrow> (\<exists>logs. list_all2 log_of logs ws \<and> taken_apart logs out)"
    by blast
  note un = parse_args_unstarted [OF p(1,2) assms(2)]
  have below: "restarts_below n ws" by (rule restarts_below_cong [OF w(4) un(1)])
  from logs un(2) obtain logs0 where l0: "list_all2 log_of logs0 ws" "taken_apart logs0 out" by blast
  from monitor_workers_ok [OF w(1,2) below assms(3) _ l0] assms(4) w(2) obtain s' ws' reports logs where
    m: "monitor_workers rounds s = Some (s', reports)" "workers s' = Workers ws'" "worker_count s' = length ws'"
    "list_all2 same_job ws ws'" and l: "list_all2 log_of logs ws'"
    and lines: "taken_apart logs (out @ reports)" by auto
  have jobs: "list_all2 same_job ws0 ws'" by (rule same_jobs_trans [OF w(3) m(4)])
  then have "length ws' \<noteq> 0" using p(3) list_all2_lengthD by fastforce
  moreover have "map pid ws' = map (last_boot (- 1)) logs"
    using l by (auto simp: list_all2_conv_all_nth log_of_def intro!: nth_equalityI)
  ultimately have c: "\<exists>s''. cleanup s' = Some (s'', filter (\<lambda>p. p > 0) (map (last_boot (- 1)) logs))
    \<and> (\<forall>es. monitor_round es s'' = None) \<and> cleanup s'' = None"
    using m(2,3) by (simp add: cleanup_def monitor_round_def)
  have names: "list_all2 (\<lambda>log w. \<forall>r \<in> set log. report_name r = w_name w) logs ws'"
    by (rule list_all2_mono [OF l]) (simp add: log_of_def)
  from c obtain s'' where c: "cleanup s' = Some (s'', filter (\<lambda>p. p > 0) (map (last_boot (- 1)) logs))"
    "\<forall>es. monitor_round es s'' = None" "cleanup s'' = None" by blast
  show ?thesis
    by (intro exI conjI) (fact p m(1,2) jobs lines names c restart_limit_parts)+
qed

definition one_worker_args :: "string list" where
  "one_worker_args = [''guard'', ''--cmd'', ''a'']"

lemma guard_supervises_witness:
  "\<exists>s out s' reports s''. guard_main (\<lambda>_. (0, 0)) one_worker_args 0 1 (\<lambda>_. (100, 5)) = Some (Inr (s, out))
     \<and> monitor_workers [[\<lparr>wait_result = 100, poll_time = 5, fork_answer = 101, boot_time = 6\<rparr>]] s = Some (s', reports)
     \<and> cleanup s' = Some (s'', [101]) \<and> (\<forall>es. monitor_round es s'' = None)"
proof -
  let ?s = "\<lparr>workers = Workers [\<lparr>command = ''a'', w_name = ''unnamed'', pid = 100, max_restarts = 3,
     restart_delay = 1, restart_count = 0, last_restart = 5\<rparr>], worker_count = 1\<rparr>"
  let ?e = "\<lparr>wait_result = 100, poll_time = 5, fork_answer = 101, boot_time = 6\<rparr> :: poll"
  have g: "guard_main (\<lambda>_. (0, 0)) one_worker_args 0 1 (\<lambda>_. (100, 5)) = Some (Inr (?s, [Boot ''unnamed'' 100]))"
    by (simp add: guard_main_def one_worker_args_def parse_args_def daemonize_def start_worker_def
        new_worker_def Let_def)
  let ?s' = "\<lparr>workers = Workers [\<lparr>command = ''a'', w_name = ''unnamed'', pid = 101,
     max_restarts = 3, restart_delay = 1, restart_count = 1, last_restart = 6\<rparr>], worker_count = 1\<rparr>"
  have m: "monitor_workers [[?e]] ?s = Some (?s',
     [Will_restart ''unnamed'' 1, Boot ''unnamed'' 101])"
    by (simp add: monitor_round_def poll_worker_def start_worker_def)
  have h: "\<forall>i. 0 \<le> fst ((\<lambda>_. (0, 0) :: int \<times> int) (i :: nat)) \<and> fst ((\<lambda>_. (0, 0) :: int \<times> int) i) < 1"
    "1 + int (length [[?e]]) \<le> 2 ^ 31" "\<forall>es \<in> set [[?e]]. length es = worker_count ?s" by simp_all
  let ?out = "[Boot ''unnamed'' 100] @ [Will_restart ''unnamed'' 1, Boot ''unnamed'' 101]"
  obtain logs s'' where l: "taken_apart logs ?out" "length logs = 1"
    "cleanup ?s' = Some (s'', filter (\<lambda>p. p > 0) (map (last_boot (- 1)) logs))"
    "\<forall>es. monitor_round es s'' = None"
    using guard_supervises [OF g h] unfolding m by (auto dest: list_all2_lengthD)
  then obtain log where log: "logs = [log]" by (auto simp: length_Suc_conv)
  have "log = [Boot ''unnamed'' 100, Will_restart ''unnamed'' 1, Boot ''unnamed'' 101]"
  proof (rule subseq_same_length)
    have "mset log = mset ?out" using l(1) by (simp add: taken_apart_def log)
    then show "length log = length [Boot ''unnamed'' 100, Will_restart ''unnamed'' 1, Boot ''unnamed'' 101]"
      by (metis append_Cons append_Nil mset_eq_length)
  qed (use l(1) in \<open>simp add: taken_apart_def log\<close>)
  with g m l(3,4) log show ?thesis by auto
qed

end
