(* ===== verification/HexString.thy ===== *)
theory HexString
  imports ConfigFile "HOL-Library.Word"
begin

text \<open>
  \<open>10.convert/conv_str_hex.c\<close>: a string of hexadecimal digits to bytes and back, by way of the
  reversed string.  Buffers are lists of their 64 characters or bytes, and writing past one, or
  reading a string that has no end in its buffer, is an error.
\<close>

unbundle bit_operations_syntax

section \<open>The program\<close>

datatype hex_error = Buffer_overflow | Unterminated

text \<open>The loop of \<open>flip_string\<close>; the second index is one more than \<open>j\<close>.\<close>

fun flip_loop :: "nat \<Rightarrow> nat \<Rightarrow> string \<Rightarrow> string" where
  "flip_loop i n s =
     (if i < n then flip_loop (Suc i) (n - 1) (s[i := s ! (n - 1), n - 1 := s ! i]) else s)"

declare flip_loop.simps [simp del]

definition flip_string :: "string \<Rightarrow> string" where
  "flip_string s = flip_loop 0 (length s) s"

text \<open>\<open>strtol\<close> with base 16: blanks, a sign, \<open>0x\<close>, the digits that follow, and the limits of \<open>long\<close>.\<close>

definition hexval :: "char \<Rightarrow> int option" where
  "hexval c = (let n = of_char c :: int in
     if 48 \<le> n \<and> n \<le> 57 then Some (n - 48)
     else if 97 \<le> n \<and> n \<le> 102 then Some (n - 87)
     else if 65 \<le> n \<and> n \<le> 70 then Some (n - 55)
     else None)"

definition is_hex :: "char \<Rightarrow> bool" where
  "is_hex c \<longleftrightarrow> hexval c \<noteq> None"

definition strtol16 :: "string \<Rightarrow> int" where
  "strtol16 s =
     (let t = dropWhile isspace s;
          neg = (t \<noteq> [] \<and> hd t = CHR ''-'');
          u = (if t \<noteq> [] \<and> (hd t = CHR ''-'' \<or> hd t = CHR ''+'') then tl t else t);
          w = (if 2 < length u \<and> hd u = CHR ''0'' \<and> tolower (u ! 1) = CHR ''x'' \<and> is_hex (u ! 2)
               then drop 2 u else u);
          v = foldl (\<lambda>n c. n * 16 + the (hexval c)) 0 (takeWhile is_hex w)
      in if neg then max (- (2 ^ 63)) (- v) else min (2 ^ 63 - 1) v)"

text \<open>
  One pass of the loop of \<open>convert_str_to_hex\<close>.  \<open>strtol\<close> is given the address of the one character
  \<open>c_tmp\<close>: \<open>behind\<close> is what lies behind it in memory.
\<close>

definition put_nibble :: "string \<Rightarrow> string \<Rightarrow> nat \<Rightarrow> 8 word list \<Rightarrow> 8 word list" where
  "put_nibble behind str i outbuf =
     (let v = of_int (strtol16 (c_str (str ! i # behind))) AND 0xF
      in if i mod 2 = 0 then outbuf[i div 2 := v]
         else outbuf[i div 2 := outbuf ! (i div 2) OR push_bit 4 v])"

definition convert_str_to_hex :: "string \<Rightarrow> string \<Rightarrow> 8 word list \<Rightarrow> hex_error + 8 word list" where
  "convert_str_to_hex behind instr outbuf =
     (if 64 < length instr then Inl Buffer_overflow
      else if length instr = 64 then Inl Unterminated
      else let str = flip_string instr
           in Inr (fold (put_nibble behind str) [0..<length str] outbuf))"

text \<open>\<open>sprintf\<close> of one digit writes it and a zero behind it.\<close>

definition hexchar :: "8 word \<Rightarrow> char" where
  "hexchar b = ''0123456789abcdef'' ! unat b"

definition sprintf_nibble :: "string \<Rightarrow> nat \<Rightarrow> 8 word \<Rightarrow> hex_error + string" where
  "sprintf_nibble out k b =
     (if k + 1 < length out then Inr (out[k := hexchar (b AND 0xF), k + 1 := CHR 0x00])
      else Inl Buffer_overflow)"

fun hex_to_str_loop :: "8 word list \<Rightarrow> nat list \<Rightarrow> string \<Rightarrow> hex_error + string" where
  "hex_to_str_loop inbuf [] out = Inr out"
| "hex_to_str_loop inbuf (i # is) out = (case sprintf_nibble out (i * 2) (inbuf ! i) of
     Inl e \<Rightarrow> Inl e
   | Inr out1 \<Rightarrow> (case sprintf_nibble out1 (i * 2 + 1) (drop_bit 4 (inbuf ! i)) of
        Inl e \<Rightarrow> Inl e
      | Inr out2 \<Rightarrow> hex_to_str_loop inbuf is out2))"

definition terminated :: "string \<Rightarrow> bool" where
  "terminated buf \<longleftrightarrow> CHR 0x00 \<in> set buf"

definition convert_hex_to_str :: "8 word list \<Rightarrow> string \<Rightarrow> nat \<Rightarrow> hex_error + string" where
  "convert_hex_to_str inbuf outstr cnt = (case hex_to_str_loop inbuf [0..<cnt] outstr of
     Inl e \<Rightarrow> Inl e
   | Inr out \<Rightarrow> if terminated out then Inr (flip_string (c_str out)) else Inl Unterminated)"

definition BYTE_IN_STR :: "string \<Rightarrow> nat" where
  "BYTE_IN_STR s = (length s + 1) div 2"

text \<open>
  \<open>main\<close>: the argument is copied without its terminating zero; \<open>instr0\<close>, \<open>buf0\<close> and \<open>outstr0\<close> are what
  the three buffers hold before.  The result is the last line printed.
\<close>

definition read_input :: "string option \<Rightarrow> string \<Rightarrow> string \<Rightarrow> hex_error + string" where
  "read_input arg stdin instr0 = (case arg of
     Some a \<Rightarrow> if length instr0 < length a then Inl Buffer_overflow
               else Inr (a @ drop (length a) instr0)
   | None \<Rightarrow> (case fgets 63 stdin of
        None \<Rightarrow> Inr instr0
      | Some (l, _) \<Rightarrow> Inr (takeWhile (\<lambda>c. c \<noteq> newline) l @ 
             replicate (if newline \<in> set l then 2 else 1) (CHR 0x00) @
             drop (Suc (length l)) instr0)))"

definition hex_main ::
  "string option \<Rightarrow> string \<Rightarrow> string \<Rightarrow> string \<Rightarrow> 8 word list \<Rightarrow> string \<Rightarrow> hex_error + string" where
  "hex_main arg stdin behind instr0 buf0 outstr0 = (case read_input arg stdin instr0 of
     Inl e \<Rightarrow> Inl e
   | Inr buf \<Rightarrow>
       if \<not> terminated buf then Inl Unterminated
       else (case convert_str_to_hex behind (c_str buf) buf0 of
          Inl e \<Rightarrow> Inl e
        | Inr bytes \<Rightarrow> convert_hex_to_str bytes outstr0 (BYTE_IN_STR (c_str buf))))"

section \<open>Reversal\<close>

lemma flip_loop_length: "length (flip_loop i n s) = length s"
  by (induction i n s rule: flip_loop.induct) (subst flip_loop.simps, simp)

lemma flip_loop_nth:
  assumes "n \<le> length s" "k < length s"
  shows "flip_loop i n s ! k = (if i \<le> k \<and> k < n then s ! (i + (n - 1) - k) else s ! k)"
  using assms
proof (induction i n s rule: flip_loop.induct)
  case (1 i n s)
  show ?case
  proof (cases "i < n")
    case False
    then show ?thesis by (auto simp: flip_loop.simps [of i n s])
  next
    case True
    let ?s = "s[i := s ! (n - 1), n - 1 := s ! i]"
    have "flip_loop i n s ! k = flip_loop (Suc i) (n - 1) ?s ! k"
      using True by (simp add: flip_loop.simps [of i n s])
    also have "\<dots> = (if Suc i \<le> k \<and> k < n - 1 then ?s ! (Suc i + (n - 1 - 1) - k) else ?s ! k)"
      using "1.IH" [OF True] "1.prems" by simp
    also have "\<dots> = (if i \<le> k \<and> k < n then s ! (i + (n - 1) - k) else s ! k)"
    proof (cases "Suc i \<le> k \<and> k < n - 1")
      case inner: True
      define m where "m = i + (n - 1) - k"
      from inner have m: "Suc i + (n - 1 - 1) - k = m" "m \<noteq> i" "m \<noteq> n - 1" and k: "i \<le> k" "k < n"
        unfolding m_def by linarith+
      have "?s ! m = s ! m" using m by simp
      with inner k show ?thesis by (simp only: m(1) m_def [symmetric] if_True simp_thms)
    next
      case outer: False
      consider "k = i" | "k = n - 1" | "k \<noteq> i" "k \<noteq> n - 1" by blast
      then show ?thesis
      proof cases
        case 3
        with outer have "\<not> (i \<le> k \<and> k < n)" by linarith
        then show ?thesis using 3 by (simp only: if_not_P [OF outer] if_False) simp
      qed (use True outer "1.prems" in \<open>auto simp: nth_list_update\<close>)
    qed
    finally show ?thesis .
  qed
qed

lemma flip_string_rev: "flip_string s = rev s"
proof (rule nth_equalityI)
  show "length (flip_string s) = length (rev s)" by (simp add: flip_string_def flip_loop_length)
  show "flip_string s ! k = rev s ! k" if "k < length (flip_string s)" for k
    using that by (simp add: flip_string_def flip_loop_length flip_loop_nth rev_nth)
qed

section \<open>One digit\<close>

text \<open>What lies behind \<open>c_tmp\<close> does not go on with the number.\<close>

definition ends_number :: "string \<Rightarrow> bool" where
  "ends_number behind \<longleftrightarrow>
     c_str behind = [] \<or> \<not> is_hex (hd behind) \<and> tolower (hd behind) \<noteq> CHR ''x''"

lemma strtol_one:
  assumes h: "is_hex c" and e: "ends_number behind"
  shows "strtol16 (c_str (c # behind)) = the (hexval c)"
proof -
  obtain v where v: "hexval c = Some v" using h by (auto simp: is_hex_def)
  have v16: "0 \<le> v" "v < 16" using v by (auto simp: hexval_def Let_def split: if_splits)
  have c: "\<not> isspace c" "c \<noteq> CHR ''-''" "c \<noteq> CHR ''+''" "c \<noteq> CHR 0x00"
    using v by (auto simp: hexval_def Let_def isspace_def)
  have cs: "c_str (c # behind) = c # c_str behind" using c by (simp add: c_str_def)
  show ?thesis
  proof (cases "c_str behind")
    case Nil
    with h v v16 c show ?thesis unfolding cs by (simp add: strtol16_def)
  next
    case (Cons d ds)
    then have "d = hd behind" by (cases behind) (auto simp: c_str_def split: if_splits)
    with e Cons have d: "\<not> is_hex d" "tolower d \<noteq> CHR ''x''" by (auto simp: ends_number_def)
    with h v v16 c Cons show ?thesis unfolding cs by (simp add: strtol16_def)
  qed
qed

lemma hexval_range: "hexval c = Some v \<Longrightarrow> 0 \<le> v \<and> v < 16"
  by (auto simp: hexval_def Let_def split: if_splits)

lemma hexchar_table:
  assumes "n < 16"
  shows "hexchar (of_nat n) = char_of (if n < 10 then n + 48 else n + 87)"
proof -
  have "list_all (\<lambda>n. hexchar (of_nat n) = char_of (if n < 10 then n + 48 else n + 87)) [0..<16]"
    by code_simp
  with assms show ?thesis by (simp add: list_all_iff del: upt_rec_numeral)
qed

lemma hexchar_hexval:
  assumes "is_hex c"
  shows "hexchar (of_int (the (hexval c))) = tolower c"
proof -
  define m where "m = (of_char c :: nat)"
  have c: "c = char_of m" by (simp add: m_def)
  have m: "of_char c = int m" by (simp add: m_def of_nat_of_char)
  consider "48 \<le> m" "m \<le> 57" | "97 \<le> m" "m \<le> 102" | "65 \<le> m" "m \<le> 70"
    using assms by (auto simp: is_hex_def hexval_def m Let_def split: if_splits)
  then show ?thesis
  proof cases
    case 1
    then have "the (hexval c) = int (m - 48)" by (simp add: hexval_def m Let_def of_nat_diff)
    then have "hexchar (of_int (the (hexval c))) = char_of (m - 48 + 48)"
      using hexchar_table [of "m - 48"] 1 by (simp only: of_int_of_nat_eq) simp
    with 1 show ?thesis by (simp add: c tolower_def Let_def m_def [symmetric])
  next
    case 2
    then have "the (hexval c) = int (m - 87)" by (simp add: hexval_def m Let_def of_nat_diff)
    then have "hexchar (of_int (the (hexval c))) = char_of (m - 87 + 87)"
      using hexchar_table [of "m - 87"] 2 by (simp only: of_int_of_nat_eq) simp
    with 2 show ?thesis by (simp add: c tolower_def Let_def m_def [symmetric])
  next
    case 3
    then have "the (hexval c) = int (m - 55)" by (simp add: hexval_def m Let_def of_nat_diff)
    then have "hexchar (of_int (the (hexval c))) = char_of (m - 55 + 87)"
      using hexchar_table [of "m - 55"] 3 by (simp only: of_int_of_nat_eq) simp
    moreover have "m - 55 + 87 = m + 32" using 3 by simp
    ultimately show ?thesis using 3 by (simp add: c tolower_def Let_def m_def [symmetric])
  qed
qed

section \<open>The two loops\<close>

definition nibble :: "string \<Rightarrow> nat \<Rightarrow> 8 word" where
  "nibble str k = (if k < length str then of_int (the (hexval (str ! k))) else 0)"

lemma nibble_small:
  assumes "list_all is_hex str"
  shows "nibble str k AND 0xF = nibble str k"
proof (cases "k < length str")
  case True
  then obtain v where v: "hexval (str ! k) = Some v"
    using assms by (auto simp: list_all_length is_hex_def)
  then have "0 \<le> v" "v < 16" using hexval_range by blast+
  then obtain n where n: "v = int n" "n < 16" by (metis nat_less_iff nat_numeral zero_le_imp_eq_int of_nat_less_numeral_iff)
  have "list_all (\<lambda>n. of_nat n AND 0xF = (of_nat n :: 8 word)) [0..<16]" by code_simp
  with n(2) have "of_nat n AND 0xF = (of_nat n :: 8 word)"
    by (simp add: list_all_iff del: upt_rec_numeral)
  with True v n show ?thesis by (simp add: nibble_def)
qed (simp add: nibble_def)

lemma pack_unpack:
  fixes a b :: "8 word"
  assumes "a AND 0xF = a" "b AND 0xF = b"
  shows "(a OR push_bit 4 b) AND 0xF = a" "drop_bit 4 (a OR push_bit 4 b) AND 0xF = b"
proof -
  have m: "(15 :: 8 word) = mask 4" by (simp add: mask_eq_exp_minus_1)
  have a: "bit a n \<Longrightarrow> n < 4" and b: "bit b n \<Longrightarrow> n < 4" for n
    using assms unfolding m by (metis bit_and_iff bit_mask_iff)+
  show "(a OR push_bit 4 b) AND 0xF = a" unfolding m
    by (rule bit_word_eqI) (auto simp: bit_simps dest: a)
  show "drop_bit 4 (a OR push_bit 4 b) AND 0xF = b" unfolding m
    by (rule bit_word_eqI) (auto simp: bit_simps dest: a b)
qed

definition packed :: "string \<Rightarrow> nat \<Rightarrow> nat \<Rightarrow> 8 word" where
  "packed str m k = (if 2 * k + 1 < m then nibble str (2 * k) OR push_bit 4 (nibble str (2 * k + 1))
                     else nibble str (2 * k))"

lemma put_nibble_eq:
  assumes "list_all is_hex str" "ends_number behind" "i < length str"
  shows "put_nibble behind str i out = (if i mod 2 = 0 then out[i div 2 := nibble str i]
     else out[i div 2 := out ! (i div 2) OR push_bit 4 (nibble str i)])"
proof -
  have "is_hex (str ! i)" using assms(1,3) by (simp add: list_all_length)
  then have "of_int (strtol16 (c_str (str ! i # behind))) AND 0xF = nibble str i"
    using assms nibble_small [of str i] by (simp add: strtol_one nibble_def)
  then show ?thesis by (simp add: put_nibble_def)
qed

lemma to_hex_loop:
  assumes "list_all is_hex str" "ends_number behind" "length str \<le> 2 * length out" "m \<le> length str"
  shows "length (fold (put_nibble behind str) [0..<m] out) = length out
    \<and> (\<forall>k. 2 * k < m \<longrightarrow> fold (put_nibble behind str) [0..<m] out ! k = packed str m k)"
  using assms(4)
proof (induction m)
  case (Suc m)
  let ?out = "fold (put_nibble behind str) [0..<m] out"
  have IH: "length ?out = length out" "\<forall>k. 2 * k < m \<longrightarrow> ?out ! k = packed str m k"
    using Suc by simp_all
  have p: "fold (put_nibble behind str) [0..<Suc m] out = put_nibble behind str m ?out" by simp
  note e = put_nibble_eq [OF assms(1,2), of m ?out]
  obtain q where "m = 2 * q \<or> m = 2 * q + 1" by (metis oddE evenE)
  then show ?case
  proof (elim disjE)
    assume m: "m = 2 * q"
    then have f: "fold (put_nibble behind str) [0..<Suc m] out = ?out[q := nibble str m]"
      unfolding p using e Suc.prems by simp
    have q: "q < length out" using m Suc.prems assms(3) by linarith
    have "fold (put_nibble behind str) [0..<Suc m] out ! k = packed str (Suc m) k" if "2 * k < Suc m" for k
    proof (cases "k = q")
      case True
      with q IH(1) m show ?thesis unfolding f by (simp add: packed_def)
    next
      case False
      with that m have k: "2 * k < m" "2 * k + 1 < m" by linarith+
      with False IH show ?thesis unfolding f by (simp add: packed_def)
    qed
    then show ?thesis unfolding f using IH(1) by simp
  next
    assume m: "m = 2 * q + 1"
    then have f: "fold (put_nibble behind str) [0..<Suc m] out
        = ?out[q := ?out ! q OR push_bit 4 (nibble str m)]"
      unfolding p using e Suc.prems by simp
    have q: "q < length out" using m Suc.prems assms(3) by linarith
    have oq: "?out ! q = nibble str (2 * q)" using IH(2) m by (simp add: packed_def)
    have "fold (put_nibble behind str) [0..<Suc m] out ! k = packed str (Suc m) k" if "2 * k < Suc m" for k
    proof (cases "k = q")
      case True
      with q IH(1) m oq show ?thesis unfolding f by (simp add: packed_def)
    next
      case False
      with that m have k: "2 * k < m" "2 * k + 1 < m" by linarith+
      with False IH show ?thesis unfolding f by (simp add: packed_def)
    qed
    then show ?thesis unfolding f using IH(1) by simp
  qed
qed simp

lemma hex_loop_snoc:
  "hex_to_str_loop b (xs @ [i]) out = (case hex_to_str_loop b xs out of
     Inl e \<Rightarrow> Inl e | Inr o1 \<Rightarrow> hex_to_str_loop b [i] o1)"
  by (induction xs arbitrary: out) (auto split: sum.splits)

text \<open>After \<open>n\<close> passes: the two digits of every byte so far, and a zero behind them.\<close>

lemma to_str_loop:
  assumes "2 * n < length out"
  shows "\<exists>o1. hex_to_str_loop b [0..<n] out = Inr o1 \<and> length o1 = length out
    \<and> (0 < n \<longrightarrow> o1 ! (2 * n) = CHR 0x00)
    \<and> (\<forall>k < n. o1 ! (2 * k) = hexchar (b ! k AND 0xF) \<and> o1 ! (2 * k + 1) = hexchar (drop_bit 4 (b ! k) AND 0xF))"
  using assms
proof (induction n)
  case (Suc n)
  then obtain o1 where o1: "hex_to_str_loop b [0..<n] out = Inr o1" "length o1 = length out"
    "\<forall>k < n. o1 ! (2 * k) = hexchar (b ! k AND 0xF) \<and> o1 ! (2 * k + 1) = hexchar (drop_bit 4 (b ! k) AND 0xF)"
    by auto
  let ?o = "o1[2 * n := hexchar (b ! n AND 0xF), 2 * n + 1 := hexchar (drop_bit 4 (b ! n) AND 0xF),
     2 * n + 2 := CHR 0x00]"
  have "hex_to_str_loop b [0..<Suc n] out = Inr ?o"
    using o1 Suc.prems by (simp add: hex_loop_snoc sprintf_nibble_def mult.commute)
  moreover have "\<forall>k < Suc n. ?o ! (2 * k) = hexchar (b ! k AND 0xF)
      \<and> ?o ! (2 * k + 1) = hexchar (drop_bit 4 (b ! k) AND 0xF)"
  proof (intro allI impI)
    fix k assume "k < Suc n"
    then consider "k < n" | "k = n" by linarith
    then show "?o ! (2 * k) = hexchar (b ! k AND 0xF) \<and> ?o ! (2 * k + 1) = hexchar (drop_bit 4 (b ! k) AND 0xF)"
    proof cases
      case 1
      then have "2 * k \<noteq> 2 * n" "2 * k \<noteq> 2 * n + 1" "2 * k \<noteq> 2 * n + 2"
        "2 * k + 1 \<noteq> 2 * n" "2 * k + 1 \<noteq> 2 * n + 1" "2 * k + 1 \<noteq> 2 * n + 2" by linarith+
      with 1 o1(3) show ?thesis by simp
    next
      case 2
      have "2 * n \<noteq> 2 * n + 1" by simp
      with 2 o1(2) Suc.prems show ?thesis by simp
    qed
  qed
  ultimately show ?case using o1(2) Suc.prems by (intro exI [of _ ?o]) simp
qed simp

lemma hexchar_not_zero: "b AND 0xF = b \<Longrightarrow> hexchar b \<noteq> CHR 0x00"
proof -
  assume "b AND 0xF = b"
  then have "unat b < 16"
    using word_and_le1 [of b 15] by (simp add: word_le_nat_alt)
  moreover have "list_all (\<lambda>n. ''0123456789abcdef'' ! n \<noteq> CHR 0x00) [0..<16]" by code_simp
  ultimately show "hexchar b \<noteq> CHR 0x00"
    unfolding hexchar_def by (simp add: list_all_iff del: upt_rec_numeral)
qed

lemma c_str_append: "CHR 0x00 \<notin> set s \<Longrightarrow> c_str (s @ CHR 0x00 # r) = s"
  unfolding c_str_def by (induction s) auto

text \<open>Both conversions together, on the reversed string \<open>str\<close>.\<close>

lemma convert_back:
  assumes hex: "list_all is_hex str" and len: "length str \<le> 2 * length bytes" "str \<noteq> []"
    and pk: "\<forall>k. 2 * k < length str \<longrightarrow> bytes ! k = packed str (length str) k"
    and n: "n = (length str + 1) div 2" "2 * n < length out"
  shows "\<exists>o1. hex_to_str_loop bytes [0..<n] out = Inr o1 \<and> terminated o1
    \<and> c_str o1 = map (\<lambda>k. hexchar (nibble str k)) [0..<2 * n]"
proof -
  obtain o1 where o1: "hex_to_str_loop bytes [0..<n] out = Inr o1" "length o1 = length out"
    "0 < n \<longrightarrow> o1 ! (2 * n) = CHR 0x00"
    and d: "\<forall>k < n. o1 ! (2 * k) = hexchar (bytes ! k AND 0xF)
      \<and> o1 ! (2 * k + 1) = hexchar (drop_bit 4 (bytes ! k) AND 0xF)"
    using to_str_loop [OF n(2), of bytes] by blast
  have n0: "0 < n" using n(1) len(2) by (cases str) auto
  have small: "nibble str k AND 0xF = nibble str k" for k by (rule nibble_small [OF hex])
  have digit: "o1 ! k = hexchar (nibble str k)" if k: "k < 2 * n" for k
  proof -
    define q where "q = k div 2"
    have "q < n" using k n(1) unfolding q_def by linarith
    moreover have "2 * n \<le> length str + 1" unfolding n(1) by simp
    ultimately have q: "q < n" "2 * q < length str" by linarith+
    have b: "bytes ! q = nibble str (2 * q) OR push_bit 4 (nibble str (2 * q + 1))"
      using pk q(2) by (auto simp: packed_def nibble_def)
    have "o1 ! (2 * q) = hexchar (nibble str (2 * q))" "o1 ! (2 * q + 1) = hexchar (nibble str (2 * q + 1))"
      using d q(1) pack_unpack [OF small small, of "2 * q" "2 * q + 1"] unfolding b [symmetric] by simp_all
    moreover have "k = 2 * q \<or> k = 2 * q + 1" unfolding q_def by linarith
    ultimately show ?thesis by auto
  qed
  have split: "o1 = map (\<lambda>k. hexchar (nibble str k)) [0..<2 * n] @ CHR 0x00 # drop (Suc (2 * n)) o1"
  proof -
    have "take (2 * n) o1 = map (\<lambda>k. hexchar (nibble str k)) [0..<2 * n]"
      using digit n(2) o1(2) by (intro nth_equalityI) simp_all
    moreover have "drop (2 * n) o1 = CHR 0x00 # drop (Suc (2 * n)) o1"
      using n(2) n0 o1(2,3) by (metis Cons_nth_drop_Suc)
    ultimately show ?thesis by (metis append_take_drop_id)
  qed
  have "c_str o1 = map (\<lambda>k. hexchar (nibble str k)) [0..<2 * n]"
    by (subst split, rule c_str_append) (use hexchar_not_zero [OF small] in force)
  moreover have "terminated o1" unfolding terminated_def by (subst split) simp
  ultimately show ?thesis using o1(1) by blast
qed

lemma hex_text:
  assumes "list_all is_hex s"
  shows "rev (map (\<lambda>k. hexchar (nibble (rev s) k)) [0..<2 * ((length s + 1) div 2)])
    = (if odd (length s) then ''0'' else []) @ map tolower s"
proof -
  have d: "map (\<lambda>k. hexchar (nibble (rev s) k)) [0..<length s] = map tolower (rev s)"
  proof (rule nth_equalityI)
    fix k assume "k < length (map (\<lambda>k. hexchar (nibble (rev s) k)) [0..<length s])"
    then have k: "k < length s" by simp
    then have "is_hex (rev s ! k)" using assms by (metis length_rev list_all_length list_all_rev)
    with k show "map (\<lambda>k. hexchar (nibble (rev s) k)) [0..<length s] ! k = map tolower (rev s) ! k"
      by (simp add: nibble_def hexchar_hexval)
  qed simp
  show ?thesis
  proof (cases "odd (length s)")
    case True
    then have "2 * ((length s + 1) div 2) = Suc (length s)" by simp
    with True d show ?thesis by (simp add: nibble_def hexchar_def rev_map)
  next
    case False
    then have "2 * ((length s + 1) div 2) = length s" by auto
    with False d show ?thesis by (simp add: rev_map)
  qed
qed

section \<open>Properties\<close>

lemma hex_conversions:
  assumes hex: "list_all is_hex s" and len: "s \<noteq> []" "length s \<le> 62" and e: "ends_number behind"
    and buf: "length buf0 = 64" and out: "length outstr0 = 64"
  shows "\<exists>bytes. convert_str_to_hex behind s buf0 = Inr bytes
    \<and> convert_hex_to_str bytes outstr0 (BYTE_IN_STR s)
      = Inr ((if odd (length s) then ''0'' else []) @ map tolower s)"
proof -
  let ?str = "rev s"
  let ?bytes = "fold (put_nibble behind ?str) [0..<length s] buf0"
  have hr: "list_all is_hex ?str" using hex by simp
  have run: "convert_str_to_hex behind s buf0 = Inr ?bytes"
    using len by (simp add: convert_str_to_hex_def flip_string_rev)
  have L: "length ?bytes = 64 \<and> (\<forall>k. 2 * k < length s \<longrightarrow> ?bytes ! k = packed ?str (length s) k)"
    using to_hex_loop [OF hr e, of buf0 "length s"] len(2) buf by simp
  have "(length s + 1) div 2 < 32" using len(2) by linarith
  then obtain o1 where o1: "hex_to_str_loop ?bytes [0..<(length s + 1) div 2] outstr0 = Inr o1"
    "terminated o1" "c_str o1 = map (\<lambda>k. hexchar (nibble ?str k)) [0..<2 * ((length s + 1) div 2)]"
    using convert_back [OF hr, of ?bytes "(length s + 1) div 2" outstr0] L len out by auto
  have "convert_hex_to_str ?bytes outstr0 (BYTE_IN_STR s)
      = Inr ((if odd (length s) then ''0'' else []) @ map tolower s)"
    using o1 hex_text [OF hex] by (simp add: convert_hex_to_str_def BYTE_IN_STR_def flip_string_rev)
  with run show ?thesis by blast
qed

lemma hex_no_zero: "list_all is_hex s \<Longrightarrow> CHR 0x00 \<notin> set s \<and> newline \<notin> set s"
  by (auto simp: list_all_iff is_hex_def hexval_def)

lemma takeWhile_newline: "newline \<notin> set s \<Longrightarrow> takeWhile (\<lambda>c. c \<noteq> newline) (s @ newline # r) = s"
  by (induction s) auto

text \<open>
  What a character becomes: the lowest digit of the number that \<open>strtol\<close> finds from it on, the memory
  behind \<open>c_tmp\<close> included.
\<close>

definition read_back :: "string \<Rightarrow> char \<Rightarrow> char" where
  "read_back behind c = hexchar (of_int (strtol16 (c_str (c # behind))) AND 0xF)"

lemma hexchar_digit:
  fixes w :: "8 word"
  shows "is_hex (hexchar (w AND 0xF))" "of_int (the (hexval (hexchar (w AND 0xF)))) = w AND 0xF"
    "tolower (hexchar (w AND 0xF)) = hexchar (w AND 0xF)"
proof -
  have "w AND 0xF = take_bit 4 w" by (simp add: take_bit_eq_mask mask_eq_exp_minus_1)
  then have "unat (w AND 0xF) < 16" using take_bit_nat_less_exp [of 4 "unat w"] by (simp add: unsigned_take_bit_eq)
  then obtain n where n: "w AND 0xF = of_nat n" "n < 16" using that [of "unat (w AND 0xF)"] by simp
  have "list_all (\<lambda>n. is_hex (hexchar (of_nat n)) \<and> of_int (the (hexval (hexchar (of_nat n)))) = (of_nat n :: 8 word)
      \<and> tolower (hexchar (of_nat n)) = hexchar (of_nat n)) [0..<16]" by code_simp
  then have "is_hex (hexchar (of_nat n)) \<and> of_int (the (hexval (hexchar (of_nat n)))) = (of_nat n :: 8 word)
      \<and> tolower (hexchar (of_nat n)) = hexchar (of_nat n)"
    using n(2) by (simp add: list_all_iff del: upt_rec_numeral)
  with n(1) show "is_hex (hexchar (w AND 0xF))" "of_int (the (hexval (hexchar (w AND 0xF)))) = w AND 0xF"
    "tolower (hexchar (w AND 0xF)) = hexchar (w AND 0xF)" by simp_all
qed

lemma ends_number_Nil [simp]: "ends_number []"
  by (simp add: ends_number_def c_str_def)

text \<open>So the conversion of any text is that of the digits its characters become.\<close>

lemma put_nibble_read_back:
  assumes "i < length str"
  shows "put_nibble behind str i out = put_nibble [] (map (read_back behind) str) i out"
proof -
  let ?w = "of_int (strtol16 (c_str (str ! i # behind))) :: 8 word"
  have "strtol16 (c_str [read_back behind (str ! i)]) = the (hexval (hexchar (?w AND 0xF)))"
    unfolding read_back_def by (rule strtol_one [OF hexchar_digit(1) ends_number_Nil])
  then have "of_int (strtol16 (c_str [read_back behind (str ! i)])) = ?w AND 0xF"
    by (simp only: hexchar_digit(2))
  then have "of_int (strtol16 (c_str [read_back behind (str ! i)])) AND 0xF = ?w AND 0xF"
    by (simp only: and.assoc and.idem)
  then show ?thesis unfolding put_nibble_def nth_map [OF assms] by (simp only:)
qed

lemma convert_read_back:
  assumes "length s \<le> 62"
  shows "convert_str_to_hex behind s buf0 = convert_str_to_hex [] (map (read_back behind) s) buf0"
proof -
  have "fold (put_nibble behind (rev s)) [0..<length s] buf0
      = fold (put_nibble [] (map (read_back behind) (rev s))) [0..<length s] buf0"
  proof (rule fold_cong [OF refl refl])
    fix i assume "i \<in> set [0..<length s]"
    then have "i < length (rev s)" by simp
    then show "put_nibble behind (rev s) i = put_nibble [] (map (read_back behind) (rev s)) i"
      by (rule ext [OF put_nibble_read_back])
  qed
  then show ?thesis using assms by (simp add: convert_str_to_hex_def flip_string_rev rev_map)
qed

lemma read_back_hex: "is_hex c \<Longrightarrow> ends_number behind \<Longrightarrow> read_back behind c = tolower c"
proof -
  assume c: "is_hex c" and e: "ends_number behind"
  have "nibble [c] 0 AND 0xF = nibble [c] 0" using c by (intro nibble_small) simp
  then show ?thesis using hexchar_hexval [OF c] by (simp add: read_back_def strtol_one [OF c e] nibble_def)
qed

text \<open>
  C19: for every text of one to 62 characters without the character zero, the line read from the input
  (which ends it with a zero itself) or the argument if the old contents of the buffer happen to have a
  zero behind it, the program prints one hexadecimal digit for each character, with a zero in front when
  their number is odd.  The digit is the lowest one of the number that \<open>strtol\<close> finds from the
  character on, in whatever memory lies behind \<open>c_tmp\<close>; when that memory does not go on with a number
  (\<open>ends_number\<close>), a hexadecimal digit comes back in lower case, so the conversion to bytes loses
  nothing.  An argument with no zero behind it in the buffer is read past the end of the buffer.
\<close>

theorem hex_roundtrip:
  assumes "CHR 0x00 \<notin> set s" "s \<noteq> []" "length s \<le> 62"
    and "length instr0 = 64" "length buf0 = 64" "length outstr0 = 64"
  shows "(instr0 ! length s = CHR 0x00 \<longrightarrow> hex_main (Some s) stdin behind instr0 buf0 outstr0
        = Inr ((if odd (length s) then ''0'' else []) @ map (read_back behind) s))
    \<and> (newline \<notin> set s \<longrightarrow> hex_main None (s @ newline # rest) behind instr0 buf0 outstr0
        = Inr ((if odd (length s) then ''0'' else []) @ map (read_back behind) s))
    \<and> (list_all is_hex s \<and> ends_number behind \<longrightarrow> map (read_back behind) s = map tolower s)
    \<and> (CHR 0x00 \<notin> set (drop (length s) instr0) \<longrightarrow>
        hex_main (Some s) stdin behind instr0 buf0 outstr0 = Inl Unterminated)"
proof -
  let ?s = "map (read_back behind) s"
  have hex: "list_all is_hex ?s" by (simp add: list_all_iff read_back_def hexchar_digit(1))
  have low: "map tolower ?s = ?s" by (simp add: read_back_def hexchar_digit(3))
  obtain bytes where b: "convert_str_to_hex behind s buf0 = Inr bytes"
    "convert_hex_to_str bytes outstr0 (BYTE_IN_STR s) = Inr ((if odd (length s) then ''0'' else []) @ ?s)"
    using hex_conversions [OF hex _ _ ends_number_Nil assms(5,6)] assms(2,3)
    unfolding convert_read_back [OF assms(3), of behind] low by (auto simp: BYTE_IN_STR_def)
  have 1: "hex_main (Some s) stdin behind instr0 buf0 outstr0 = Inr ((if odd (length s) then ''0'' else []) @ ?s)"
    if "instr0 ! length s = CHR 0x00"
  proof -
    have "drop (length s) instr0 = CHR 0x00 # drop (Suc (length s)) instr0"
      using assms(3,4) that Cons_nth_drop_Suc [of "length s" instr0] by simp
    then show ?thesis
      using assms(1,3,4) b by (simp add: hex_main_def read_input_def terminated_def c_str_append)
  qed
  have 2: "hex_main None (s @ newline # rest) behind instr0 buf0 outstr0
      = Inr ((if odd (length s) then ''0'' else []) @ ?s)" if nl: "newline \<notin> set s"
  proof -
    have "fgets 63 (s @ newline # rest) = Some (s @ [newline], rest)"
      using take_line_newline [of s 63 rest] nl assms(3) by (simp add: fgets_def)
    then have "read_input None (s @ newline # rest) instr0
        = Inr (s @ CHR 0x00 # CHR 0x00 # drop (Suc (length (s @ [newline]))) instr0)"
      using takeWhile_newline [of s "[]"] nl by (simp add: read_input_def numeral_2_eq_2)
    then show ?thesis using assms(1) b by (simp add: hex_main_def terminated_def c_str_append)
  qed
  have 3: "?s = map tolower s" if "list_all is_hex s \<and> ends_number behind"
    using that by (simp add: list_all_iff read_back_hex)
  have 4: "hex_main (Some s) stdin behind instr0 buf0 outstr0 = Inl Unterminated"
    if "CHR 0x00 \<notin> set (drop (length s) instr0)"
    using that assms(1,3,4) by (simp add: hex_main_def read_input_def terminated_def)
  from 1 2 3 4 show ?thesis by blast
qed

theorem hex_roundtrip_witness:
  "hex_main (Some ''0aF'') [] [] (replicate 64 CHR 0x00) (replicate 64 0) (replicate 64 CHR 0x00)
     = Inr ''00af''"
proof -
  have s: "CHR 0x00 \<notin> set ''0aF''" "''0aF'' \<noteq> []" "length ''0aF'' \<le> 62" by simp_all
  have l: "length (replicate 64 CHR 0x00) = 64" "length (replicate 64 (0 :: 8 word)) = 64"
    "replicate 64 CHR 0x00 ! length ''0aF'' = CHR 0x00" by (simp_all del: replicate_numeral_Cons)
  note h = hex_roundtrip [OF s l(1,2,1), of "[]" "[]"]
  have "map (read_back []) ''0aF'' = map tolower ''0aF''"
    using h [THEN conjunct2, THEN conjunct2, THEN conjunct1] by (simp add: is_hex_def hexval_def)
  moreover have "map tolower ''0aF'' = ''0af''" by code_simp
  ultimately show ?thesis using h [THEN conjunct1] l(3) by simp
qed

lemma sixty_three_digits:
  assumes "length out = 64"
  shows "convert_hex_to_str bytes out 32 = Inl Buffer_overflow"
proof -
  obtain o1 where o1: "hex_to_str_loop bytes [0..<31] out = Inr o1" "length o1 = 64"
    using to_str_loop [of 31 out bytes] assms by auto
  have "[0..<32] = [0..<31] @ [31::nat]" by (simp add: upt_rec)
  then have "hex_to_str_loop bytes [0..<32] out = Inl Buffer_overflow"
    using o1 by (simp only: hex_loop_snoc) (simp add: sprintf_nibble_def)
  then show ?thesis by (simp add: convert_hex_to_str_def)
qed

lemma take_line_all: "newline \<notin> set s \<Longrightarrow> length s \<le> n \<Longrightarrow> take_line n s = (s, [])"
proof (induction s arbitrary: n)
  case Nil
  then show ?case by (cases n) simp_all
next
  case (Cons c s)
  then show ?case by (cases n) auto
qed

lemma takeWhile_no_newline: "newline \<notin> set s \<Longrightarrow> takeWhile (\<lambda>c. c \<noteq> newline) s = s"
  by (induction s) auto

text \<open>
  Outside these limits the program goes wrong: every input line of 63 digits makes the last
  \<open>sprintf\<close> write behind \<open>outstr\<close>; an argument that is not followed by a zero in the buffer has no
  end, and one of more than 64 characters does not fit; for an empty line no digit is written and
  the end of the uninitialised \<open>outstr\<close> is looked for; and a digit that lies behind \<open>c_tmp\<close> in memory is
  read as part of the number.
\<close>

theorem hex_limits:
  assumes "list_all is_hex s" "length s = 63" "length outstr0 = 64"
  shows "hex_main None s behind instr0 buf0 outstr0 = Inl Buffer_overflow
   \<and> hex_main (Some ''ab'') [] behind (replicate 64 CHR ''z'') buf0 outstr0 = Inl Unterminated
   \<and> hex_main (Some (replicate 65 CHR ''a'')) [] behind (replicate 64 CHR 0x00) buf0 outstr0
     = Inl Buffer_overflow
   \<and> hex_main None [newline] behind instr0 buf0 (replicate 64 CHR ''z'') = Inl Unterminated
   \<and> strtol16 (c_str (CHR ''1'' # ''2'')) = 18"
proof (intro conjI)
  note nz = hex_no_zero [OF assms(1)]
  have "s \<noteq> []" using assms(2) by auto
  then have "fgets 63 s = Some (s, [])"
    using take_line_all [of s 63] nz assms(2) by (simp add: fgets_def)
  then have "read_input None s instr0 = Inr (s @ CHR 0x00 # drop (Suc (length s)) instr0)"
    using nz takeWhile_no_newline [of s] by (simp add: read_input_def)
  moreover have "\<exists>bytes. convert_str_to_hex behind s buf0 = Inr bytes"
    using assms(2) by (simp add: convert_str_to_hex_def Let_def)
  ultimately show "hex_main None s behind instr0 buf0 outstr0 = Inl Buffer_overflow"
    using nz sixty_three_digits [OF assms(3)] assms(2)
    by (auto simp: hex_main_def terminated_def c_str_append BYTE_IN_STR_def)
  show "hex_main (Some ''ab'') [] behind (replicate 64 CHR ''z'') buf0 outstr0 = Inl Unterminated"
    by (simp add: hex_main_def read_input_def terminated_def)
  show "hex_main (Some (replicate 65 CHR ''a'')) [] behind (replicate 64 CHR 0x00) buf0 outstr0
      = Inl Buffer_overflow"
    by (simp add: hex_main_def read_input_def)
  have "fgets 63 [newline] = Some ([newline], [])"
    using take_line_newline [of "[]" 63 "[]"] by (simp add: fgets_def)
  then show "hex_main None [newline] behind instr0 buf0 (replicate 64 CHR ''z'') = Inl Unterminated"
    by (simp add: hex_main_def read_input_def terminated_def c_str_def convert_str_to_hex_def
        flip_string_rev BYTE_IN_STR_def convert_hex_to_str_def)
  show "strtol16 (c_str (CHR ''1'' # ''2'')) = 18" by code_simp
qed

theorem hex_limits_witness:
  "hex_main None (replicate 63 CHR ''a'') [] [] (replicate 64 0) (replicate 64 CHR 0x00)
     = Inl Buffer_overflow"
  by (rule conjunct1 [OF hex_limits])
    (simp_all add: is_hex_def hexval_def)

end
