(* ===== verification/FileTools.thy ===== *)
theory FileTools
  imports ConfigFile
begin


section \<open>Making files\<close>












section \<open>The parts of a path\<close>

text \<open>
  \<open>strrchr\<close>: the index of the last occurrence.  \<open>basename\<close> and \<open>dirname\<close> of the library: trailing
  slashes do not count; \<open>dirname\<close> ends the path where the directory ends, in the buffer of its
  argument.
\<close>

fun strrchr :: "string \<Rightarrow> char \<Rightarrow> nat option" where
  "strrchr [] c = None"
| "strrchr (x # xs) c = (case strrchr xs c of
     Some k \<Rightarrow> Some (Suc k) | None \<Rightarrow> if x = c then Some 0 else None)"

abbreviation slash :: char where "slash \<equiv> CHR ''/''"
abbreviation dot :: char where "dot \<equiv> CHR ''.''"

definition strip_slashes :: "string \<Rightarrow> string" where
  "strip_slashes p = rev (dropWhile (\<lambda>c. c = slash) (rev p))"

definition libc_basename :: "string \<Rightarrow> string" where
  "libc_basename p = (if p = [] then ''.'' else if strip_slashes p = [] then ''/''
     else rev (takeWhile (\<lambda>c. c \<noteq> slash) (rev (strip_slashes p))))"

definition libc_dirname :: "string \<Rightarrow> string" where
  "libc_dirname p =
     (if p = [] then ''.'' else if strip_slashes p = [] then ''/''
      else case strrchr (strip_slashes p) slash of
             None \<Rightarrow> ''.''
           | Some k \<Rightarrow> let d = strip_slashes (take k p) in if d = [] then ''/'' else d)"


text \<open>
  \<open>split_path\<close>.  The result has the three buffers, and the size of the block \<open>dir_part\<close> that is
  allocated and never freed.  \<open>dup\<close> is whether \<open>strdup\<close> succeeds; if not, the third buffer stays as
  it is.
\<close>

record path_parts =
  pp_dir :: string
  pp_base :: string
  pp_smp_base :: string
  pp_leaked :: nat

definition cut_suffix :: "string \<Rightarrow> string" where
  "cut_suffix base = (case strrchr base dot of None \<Rightarrow> base | Some k \<Rightarrow> take k base)"

definition split_path :: "bool \<Rightarrow> string \<Rightarrow> string \<Rightarrow> path_parts" where
  "split_path dup path smp0 =
     (let (dir, base, leaked) = (case strrchr path slash of
            None \<Rightarrow> ([dot], path, 0)
          | Some dir_len \<Rightarrow>
              if dir_len = 0 then ([slash], drop (dir_len + 1) path, 0)
              else (take dir_len path, drop (dir_len + 1) path, dir_len + 1))
      in \<lparr>pp_dir = dir, pp_base = base, pp_smp_base = (if dup then cut_suffix base else smp0),
          pp_leaked = leaked\<rparr>)"


section \<open>The last occurrence of a character\<close>

lemma strrchr_None: "strrchr s c = None \<longleftrightarrow> c \<notin> set s"
  by (induction s) (auto split: option.splits)

lemma strrchr_Some:
  assumes "strrchr s c = Some k"
  shows "k < length s" "s = take k s @ c # drop (k + 1) s" "c \<notin> set (drop (k + 1) s)"
  using assms
proof (induction s arbitrary: k)
  case (Cons x xs)
  { case 1 with Cons show ?case by (auto split: option.splits if_splits) }
  { case 2 with Cons show ?case by (auto split: option.splits if_splits) }
  { case 3 with Cons show ?case by (auto split: option.splits if_splits simp: strrchr_None) }
qed simp_all

lemma cut_suffix_parts:
  "(dot \<notin> set base \<and> cut_suffix base = base)
   \<or> (\<exists>ext. base = cut_suffix base @ dot # ext \<and> dot \<notin> set ext)"
proof (cases "strrchr base dot")
  case None
  have "dot \<notin> set base" by (rule iffD1 [OF strrchr_None None])
  moreover have "cut_suffix base = base" by (simp add: cut_suffix_def None)
  ultimately show ?thesis by blast
next
  case (Some k)
  with strrchr_Some [OF Some] show ?thesis by (auto simp: cut_suffix_def)
qed

lemma strip_slashes_id: "p = [] \<or> last p \<noteq> slash \<Longrightarrow> strip_slashes p = p"
  by (cases p rule: rev_cases) (simp_all add: strip_slashes_def)

lemma takeWhile_rev_last:
  assumes "slash \<notin> set r"
  shows "rev (takeWhile (\<lambda>c. c \<noteq> slash) (rev (a @ slash # r))) = r"
proof -
  have "takeWhile (\<lambda>c. c \<noteq> slash) (rev r @ slash # rev a) = rev r"
    using assms by (subst takeWhile_append2) auto
  then show ?thesis by simp
qed

lemma libc_parts:
  assumes "strrchr p slash = Some k" "0 < k" "last p \<noteq> slash" "p ! (k - 1) \<noteq> slash"
  shows "libc_dirname p = take k p" "libc_basename p = drop (k + 1) p"
proof -
  note s = strrchr_Some [OF assms(1)]
  have ne: "p \<noteq> []" using s(1) by auto
  have sp: "strip_slashes p = p" using assms(3) by (simp add: strip_slashes_id)
  have "last (take k p) = p ! (k - 1)"
    using s(1) assms(2) ne by (subst last_conv_nth) simp_all
  then have "strip_slashes (take k p) = take k p"
    using assms(4) by (simp add: strip_slashes_id)
  then show "libc_dirname p = take k p"
    using ne sp assms(1,2) by (simp add: libc_dirname_def)
  have "rev (takeWhile (\<lambda>c. c \<noteq> slash) (rev p)) = drop (k + 1) p"
    by (subst s(2)) (rule takeWhile_rev_last [OF s(3)])
  then show "libc_basename p = drop (k + 1) p" using ne sp by (simp add: libc_basename_def)
qed

section \<open>Properties\<close>

text \<open>
  \<open>split_path\<close> takes a path apart without loss: the base name has no slash, directory, slash
  and base name are the path again (the directory is \<open>.\<close> for a path without slash and \<open>/\<close> where
  the only slash is the first character), the base name is the simple one with its last suffix; it agrees
  with the \<open>dirname\<close> and \<open>basename\<close> of the library where no slash ends the path or doubles the last
  one; and it leaks one byte more than the directory has.
\<close>

theorem split_path_parts:
  assumes "pp = split_path True path smp0"
  shows "slash \<notin> set (pp_base pp)
    \<and> path = (if slash \<notin> set path then pp_base pp
              else (if pp_dir pp = [slash] \<and> hd path = slash \<and> slash \<notin> set (tl path) then []
                    else pp_dir pp) @ slash # pp_base pp)
    \<and> (slash \<notin> set path \<longrightarrow> pp_dir pp = [dot])
    \<and> ((dot \<notin> set (pp_base pp) \<and> pp_smp_base pp = pp_base pp)
        \<or> (\<exists>ext. pp_base pp = pp_smp_base pp @ dot # ext \<and> dot \<notin> set ext))
    \<and> (\<forall>k. strrchr path slash = Some k \<and> 0 < k \<longrightarrow> pp_leaked pp = length (pp_dir pp) + 1
        \<and> (last path \<noteq> slash \<and> path ! (k - 1) \<noteq> slash \<longrightarrow>
             pp_dir pp = libc_dirname path \<and> pp_base pp = libc_basename path))"
proof (cases "strrchr path slash")
  case None
  then have "slash \<notin> set path" by (simp add: strrchr_None)
  with None show ?thesis
    using cut_suffix_parts [of path] by (simp add: assms split_path_def)
next
  case (Some k)
  note s = strrchr_Some [OF Some]
  have mem: "slash \<in> set path" using Some strrchr_None [of path slash] by auto
  let ?base = "drop (k + 1) path"
  show ?thesis
  proof (cases "k = 0")
    case True
    then have path: "path = slash # ?base" using s(2) by simp
    then have "hd path = slash" "tl path = ?base" by (metis list.sel(1), metis list.sel(3))
    with True Some mem s(3) path show ?thesis
      using cut_suffix_parts [of ?base] by (simp add: assms split_path_def) blast
  next
    case False
    have "\<not> (hd path = slash \<and> slash \<notin> set (tl path))"
    proof
      assume a: "hd path = slash \<and> slash \<notin> set (tl path)"
      have "path ! k = slash" using s(1,2) by (metis nth_append_length_plus add_0_right length_take min.absorb4 nth_Cons_0)
      then have "tl path ! (k - 1) = slash" "k - 1 < length (tl path)"
        using False s(1) by (simp_all add: nth_tl)
      with a show False using nth_mem by metis
    qed
    moreover have "length (take k path) = k" using s(1) by simp
    ultimately show ?thesis
      using False Some mem s cut_suffix_parts [of ?base] libc_parts [OF Some]
      by (simp add: assms split_path_def) blast
  qed
qed

theorem split_path_parts_witness:
  "pp_dir (split_path True ''/home/user/file.tar.gz'' []) = libc_dirname ''/home/user/file.tar.gz''
   \<and> pp_smp_base (split_path True ''/home/user/file.tar.gz'' []) = ''file.tar''"
proof -
  have "strrchr ''/home/user/file.tar.gz'' slash = Some 10" by code_simp
  with split_path_parts [OF refl, of "''/home/user/file.tar.gz''" "[]"]
  have "pp_dir (split_path True ''/home/user/file.tar.gz'' []) = libc_dirname ''/home/user/file.tar.gz''"
    by simp
  moreover have "pp_smp_base (split_path True ''/home/user/file.tar.gz'' []) = ''file.tar''" by code_simp
  ultimately show ?thesis by blast
qed









end
