(* ===== verification/DirTree.thy ===== *)
theory DirTree
  imports Prelude "HOL-Library.Sublist" "HOL-Library.AList"
begin

text \<open>
  \<open>7.file_dir_opt/dir.c\<close>: making a directory with all that lead to it, and removing a directory
  with all that is in it.  The file system is a tree of named entries without symbolic links and
  without refusals for lack of permission or space; the entries of a directory are in the order
  in which \<open>readdir\<close> gives them.  Paths are strings, as the code cuts and joins them; the calls walk
  along their components, \<open>.\<close> and \<open>..\<close> among them, within the bounds of Linux on names and paths.
\<close>

section \<open>The file system\<close>

datatype node = File | Dir "(string \<times> node) list"

definition slash :: char where
  "slash = CHR 0x2F"

text \<open>The components of a path, from left to right: the finished ones and the one being read.\<close>

definition next_char :: "string list \<times> string \<Rightarrow> char \<Rightarrow> string list \<times> string" where
  "next_char = (\<lambda>(cs, x) c. if c = slash then (if x = [] then cs else cs @ [x], []) else (cs, x @ [c]))"

definition segments :: "string \<Rightarrow> string list \<times> string" where
  "segments p = foldl next_char ([], []) p"

definition components :: "string \<Rightarrow> string list" where
  "components p = (case segments p of (cs, x) \<Rightarrow> cs @ (if x = [] then [] else [x]))"

definition base :: "string list \<Rightarrow> string \<Rightarrow> string list" where
  "base cwd path = (if path \<noteq> [] \<and> hd path = slash then [] else cwd)"

fun lookup :: "string list \<Rightarrow> node \<Rightarrow> node option" where
  "lookup [] n = Some n"
| "lookup (c # cs) File = None"
| "lookup (c # cs) (Dir es) = Option.bind (map_of es c) (lookup cs)"

fun change :: "string list \<Rightarrow> ((string \<times> node) list \<Rightarrow> (string \<times> node) list) \<Rightarrow> node \<Rightarrow> node" where
  "change cs f File = File"
| "change [] f (Dir es) = Dir (f es)"
| "change (c # cs) f (Dir es) =
     (case map_of es c of None \<Rightarrow> Dir es | Some n \<Rightarrow> Dir (AList.update c (change cs f n) es))"

definition without :: "string \<Rightarrow> (string \<times> node) list \<Rightarrow> (string \<times> node) list" where
  "without c es = filter (\<lambda>(d, n). d \<noteq> c) es"

text \<open>
  The walk along the components of a path, from the root or the working directory: a name longer
  than \<open>NAME_MAX\<close> is refused, \<open>.\<close> and \<open>..\<close> need a directory to be in, and \<open>..\<close> of the root is the root.
  A path has less than \<open>PATH_MAX\<close> characters.
\<close>

fun walk :: "node \<Rightarrow> string list \<Rightarrow> string list \<Rightarrow> string list option" where
  "walk t cs [] = Some cs"
| "walk t cs (c # ds) =
     (if 255 < length c then None
      else if c = ''.'' \<or> c = ''..''
      then case lookup cs t of
             Some (Dir es) \<Rightarrow> walk t (if c = ''.'' then cs else butlast cs) ds
           | _ \<Rightarrow> None
      else walk t (cs @ [c]) ds)"

definition locate :: "node \<Rightarrow> string list \<Rightarrow> string \<Rightarrow> string list option" where
  "locate t cwd p =
     (if p = [] \<or> 4096 \<le> length p then None else walk t (base cwd p) (components p))"

text \<open>The calls of the system: the errors of \<open>mkdir\<close> that the code tells apart, and nothing for a failure.\<close>

datatype mkdir_error = EEXIST | Other_errno

definition mkdir_at :: "string list \<Rightarrow> node \<Rightarrow> mkdir_error + node" where
  "mkdir_at cs t =
     (if cs = [] then Inl EEXIST
      else case lookup (butlast cs) t of
             Some (Dir es) \<Rightarrow>
               if map_of es (last cs) \<noteq> None then Inl EEXIST
               else Inr (change (butlast cs) (\<lambda>es. es @ [(last cs, Dir [])]) t)
           | _ \<Rightarrow> Inl Other_errno)"

definition sys_mkdir :: "string list \<Rightarrow> string \<Rightarrow> node \<Rightarrow> mkdir_error + node" where
  "sys_mkdir cwd p t =
     (case locate t cwd p of None \<Rightarrow> Inl Other_errno | Some cs \<Rightarrow> mkdir_at cs t)"

definition sys_opendir :: "string list \<Rightarrow> string \<Rightarrow> node \<Rightarrow> (string \<times> node) list option" where
  "sys_opendir cwd p t =
     (case locate t cwd p of
        None \<Rightarrow> None
      | Some cs \<Rightarrow> (case lookup cs t of Some (Dir es) \<Rightarrow> Some es | _ \<Rightarrow> None))"

definition sys_unlink :: "string list \<Rightarrow> string \<Rightarrow> node \<Rightarrow> node" where
  "sys_unlink cwd p t =
     (case locate t cwd p of
        None \<Rightarrow> t
      | Some cs \<Rightarrow>
          if cs \<noteq> [] \<and> last p \<noteq> slash \<and> lookup cs t = Some File
          then change (butlast cs) (without (last cs)) t else t)"

text \<open>A directory is not removed under the name \<open>.\<close>; one that is named by \<open>..\<close> is not empty.\<close>

definition sys_rmdir :: "string list \<Rightarrow> string \<Rightarrow> node \<Rightarrow> node" where
  "sys_rmdir cwd p t =
     (case locate t cwd p of
        None \<Rightarrow> t
      | Some cs \<Rightarrow>
          if cs \<noteq> [] \<and> \<not> suffix [''.''] (components p) \<and> lookup cs t = Some (Dir [])
          then change (butlast cs) (without (last cs)) t else t)"

text \<open>What \<open>readdir\<close> gives: names, and whether the type is that of a directory.\<close>

definition readdir :: "(string \<times> node) list \<Rightarrow> (string \<times> bool) list" where
  "readdir es = (''.'', True) # (''..'', True) # map (\<lambda>(d, n). (d, n \<noteq> File)) es"

section \<open>The program\<close>

definition directory_exists :: "string list \<Rightarrow> string \<Rightarrow> node \<Rightarrow> bool" where
  "directory_exists cwd p t =
     (case locate t cwd p of
        None \<Rightarrow> False
      | Some cs \<Rightarrow> (case lookup cs t of Some (Dir es) \<Rightarrow> True | _ \<Rightarrow> False))"

text \<open>The loop over the copy of the path, at position \<open>k\<close>; it stops at the first failure that is not \<open>EEXIST\<close>.\<close>

function create_loop :: "string list \<Rightarrow> string \<Rightarrow> nat \<Rightarrow> node \<Rightarrow> node \<times> bool" where
  "create_loop cwd dir_path k t =
     (if k < length dir_path
      then if dir_path ! k = slash
           then case sys_mkdir cwd (take k dir_path) t of
                  Inl EEXIST \<Rightarrow> create_loop cwd dir_path (k + 1) t
                | Inl Other_errno \<Rightarrow> (t, False)
                | Inr t' \<Rightarrow> create_loop cwd dir_path (k + 1) t'
           else create_loop cwd dir_path (k + 1) t
      else (t, True))"
  by pat_completeness auto
termination
  by (relation "measure (\<lambda>(cwd, dir_path, k, t). length dir_path - k)") auto

declare create_loop.simps [simp del]

text \<open>An empty path has no character at position 1: the loop reads behind the copy.\<close>

definition create_dir_recursive :: "bool \<Rightarrow> string list \<Rightarrow> string \<Rightarrow> node \<Rightarrow> (node \<times> int) option" where
  "create_dir_recursive strdup_ok cwd path t =
     (if \<not> strdup_ok then Some (t, - 1)
      else if path = [] then None
      else case create_loop cwd path 1 t of
             (t1, False) \<Rightarrow> Some (t1, - 1)
           | (t1, True) \<Rightarrow>
               if path = [slash] then Some (t1, 0)
               else case sys_mkdir cwd path t1 of
                      Inl EEXIST \<Rightarrow> Some (t1, 0)
                    | Inl Other_errno \<Rightarrow> Some (t1, - 1)
                    | Inr t2 \<Rightarrow> Some (t2, 0))"

text \<open>
  \<open>rmdir_recursive\<close>: every level holds a directory open, so \<open>opendir\<close> fails when no file
  descriptor is left; their number bounds the recursion.  \<open>full_path\<close> has 1024 characters.
\<close>

definition full_path :: "string \<Rightarrow> string \<Rightarrow> string" where
  "full_path path d_name = take 1023 (path @ [slash] @ d_name)"

primrec rmdir_recursive :: "nat \<Rightarrow> string list \<Rightarrow> string \<Rightarrow> bool \<Rightarrow> node \<Rightarrow> node" where
  "rmdir_recursive 0 = (\<lambda>cwd path remove_top_dir t. t)"
| "rmdir_recursive (Suc fds) = (\<lambda>cwd path remove_top_dir t.
     case sys_opendir cwd path t of
       None \<Rightarrow> t
     | Some es \<Rightarrow>
         let t1 = foldl (\<lambda>t (d_name, is_dir).
               if d_name = ''.'' \<or> d_name = ''..'' then t
               else if is_dir then rmdir_recursive fds cwd (full_path path d_name) True t
               else sys_unlink cwd (full_path path d_name) t) t (readdir es)
         in if remove_top_dir then sys_rmdir cwd path t1 else t1)"

datatype dir_message = Directory_exists | Directory_does_not_exist

definition dir_main :: "nat \<Rightarrow> bool \<Rightarrow> string list \<Rightarrow> node \<Rightarrow> (dir_message \<times> node) option" where
  "dir_main fds strdup_ok cwd t =
     (if directory_exists cwd ''my_directory'' t
      then Some (Directory_exists, rmdir_recursive fds cwd ''my_directory'' True t)
      else map_option (\<lambda>(t1, r). (Directory_does_not_exist, t1))
             (create_dir_recursive strdup_ok cwd ''my_directory/dir1/dir2'' t))"

section \<open>Paths\<close>

text \<open>Paths without \<open>.\<close> and \<open>..\<close> and within the bounds are where their components say.\<close>

definition resolve :: "string list \<Rightarrow> string \<Rightarrow> string list" where
  "resolve cwd p = base cwd p @ components p"

definition plain_name :: "string \<Rightarrow> bool" where
  "plain_name c \<longleftrightarrow> c \<noteq> ''.'' \<and> c \<noteq> ''..'' \<and> length c \<le> 255"

definition plain_path :: "string \<Rightarrow> bool" where
  "plain_path p \<longleftrightarrow> p \<noteq> [] \<and> length p < 4096 \<and> list_all plain_name (components p)"

lemma walk_plain: "list_all plain_name ds \<Longrightarrow> walk t cs ds = Some (cs @ ds)"
  by (induction ds arbitrary: cs) (auto simp: plain_name_def)

lemma locate_plain: "plain_path p \<Longrightarrow> locate t cwd p = Some (resolve cwd p)"
  by (simp add: plain_path_def locate_def resolve_def walk_plain)

lemma plain_nonempty: "plain_path p \<Longrightarrow> p \<noteq> []"
  by (simp add: plain_path_def)

lemma plain_last: "plain_path p \<Longrightarrow> \<not> suffix [''.''] (components p)"
  by (auto simp: plain_path_def plain_name_def suffix_def)

lemma segments_snoc:
  "segments (p @ [c]) = next_char (segments p) c"
  by (simp add: segments_def)

lemma segments_Nil [simp]: "segments [] = ([], [])"
  by (simp add: segments_def)

lemma foldl_name: "slash \<notin> set d \<Longrightarrow> foldl next_char (cs, x) d = (cs, x @ d)"
  by (induction d arbitrary: x) (auto simp: next_char_def)

lemma next_char_simps:
  "next_char (cs, x) slash = (if x = [] then cs else cs @ [x], [])"
  "c \<noteq> slash \<Longrightarrow> next_char (cs, x) c = (cs, x @ [c])"
  by (simp_all add: next_char_def)

lemma components_join:
  assumes "slash \<notin> set d" "d \<noteq> []"
  shows "components (p @ slash # d) = components p @ [d]"
  using assms by (cases "segments p")
    (auto simp: components_def segments_def foldl_name next_char_simps)

lemma resolve_join:
  assumes "slash \<notin> set d" "d \<noteq> []" "p \<noteq> []"
  shows "resolve cwd (p @ slash # d) = resolve cwd p @ [d]"
  using assms by (simp add: resolve_def base_def components_join)

lemma finished_segments: "\<exists>ds. fst (foldl next_char (cs, x) r) = cs @ ds"
proof (induction r arbitrary: cs x)
  case (Cons c r)
  have "\<exists>ds. fst (next_char (cs, x) c) = cs @ ds" by (auto simp: next_char_def)
  then show ?case using Cons.IH [of "fst (next_char (cs, x) c)" "snd (next_char (cs, x) c)"] by auto
qed simp

text \<open>The components in front of a slash stay the first ones of the whole path.\<close>

lemma components_prefix:
  assumes "k < length path" "path ! k = slash"
  shows "prefix (components (take k path)) (components path)"
proof -
  obtain cs x where s: "segments (take k path) = (cs, x)" by (cases "segments (take k path)")
  have path: "path = take k path @ slash # drop (Suc k) path"
    using id_take_nth_drop [OF assms(1)] assms(2) by simp
  have "segments path = foldl next_char (next_char (cs, x) slash) (drop (Suc k) path)"
    by (subst path) (simp add: segments_def s [unfolded segments_def])
  then obtain ds where "fst (segments path) = (if x = [] then cs else cs @ [x]) @ ds"
    using finished_segments [of "if x = [] then cs else cs @ [x]" "[]" "drop (Suc k) path"]
    by (auto simp: next_char_simps)
  then show ?thesis
    by (cases "segments path") (auto simp: components_def s prefix_def)
qed

section \<open>Lookup and change\<close>

lemma lookup_append: "lookup (cs @ ds) t = Option.bind (lookup cs t) (lookup ds)"
  by (induction cs t rule: lookup.induct) (auto split: bind_splits)

lemma lookup_change:
  "lookup cs t = Some (Dir es) \<Longrightarrow> lookup cs (change cs f t) = Some (Dir (f es))"
  by (induction cs t rule: lookup.induct) (auto simp: update_conv bind_eq_Some_conv)

lemma change_change: "change cs f (change cs g t) = change cs (f \<circ> g) t"
  by (induction cs g t rule: change.induct) (auto simp: update_conv split: option.split)

lemma change_same:
  "lookup cs t = Some (Dir es) \<Longrightarrow> f es = es \<Longrightarrow> change cs f t = t"
  by (induction cs t rule: lookup.induct) (auto simp: update_triv bind_eq_Some_conv)

lemma change_id: "change cs (\<lambda>es. es) t = t"
  by (induction cs "\<lambda>es :: (string \<times> node) list. es" t rule: change.induct)
    (auto simp: update_triv split: option.split)

lemma change_append:
  "change (cs @ [c]) g t = change cs (\<lambda>es. case map_of es c of None \<Rightarrow> es
     | Some n \<Rightarrow> AList.update c (change [] g n) es) t"
  by (induction cs g t rule: change.induct) (auto split: option.split)

lemma without_update: "without c (AList.update c n es) = without c es"
  by (induction es) (auto simp: without_def)

text \<open>Removing an entry forgets what was done inside it.\<close>

lemma remove_changed: "change cs (without c) (change (cs @ [c]) g t) = change cs (without c) t"
proof -
  have "without c \<circ> (\<lambda>es. case map_of es c of None \<Rightarrow> es | Some n \<Rightarrow> AList.update c (change [] g n) es)
      = without c"
    by (auto simp: fun_eq_iff without_update split: option.split)
  then show ?thesis by (simp add: change_append change_change)
qed

text \<open>The abstract file system: which paths there are, and which of them are directories.\<close>

definition view :: "node \<Rightarrow> string list \<Rightarrow> bool option" where
  "view t cs = map_option (\<lambda>n. n \<noteq> File) (lookup cs t)"

lemma view_None: "view t cs = None \<longleftrightarrow> lookup cs t = None"
  by (simp add: view_def)

lemma view_Dir: "view t cs = Some True \<longleftrightarrow> (\<exists>es. lookup cs t = Some (Dir es))"
  by (auto simp: view_def) (metis node.exhaust)

lemma view_Cons_Dir:
  "view (Dir es) (c # cs) = (case map_of es c of None \<Rightarrow> None | Some n \<Rightarrow> view n cs)"
  by (simp add: view_def split: option.split)

lemma view_Nil [simp]: "view (Dir es) [] = Some True"
  by (simp add: view_def)

lemma view_empty: "view (Dir []) cs = (if cs = [] then Some True else None)"
  by (cases cs) (simp_all add: view_Cons_Dir)

lemma view_prefix: "view t (cs @ d # ds) \<noteq> None \<Longrightarrow> view t cs = Some True"
  unfolding view_Dir view_None lookup_append
  by (auto simp: bind_eq_Some_conv) (metis lookup.simps(2) node.exhaust option.distinct(1))

lemma view_mkdir:
  "lookup cs t = Some (Dir es) \<Longrightarrow> map_of es c = None \<Longrightarrow>
     view (change cs (\<lambda>es. es @ [(c, Dir [])]) t) = (view t)(cs @ [c] \<mapsto> True)"
proof (induction cs t rule: lookup.induct)
  case (1 n)
  have "view (Dir (es @ [(c, Dir [])])) ds = ((view (Dir es))([c] \<mapsto> True)) ds" for ds
  proof (cases ds)
    case Nil
    then show ?thesis by simp
  next
    case (Cons a as)
    show ?thesis
    proof (cases "a = c")
      case True
      then show ?thesis using "1.prems"(2) Cons
        by (simp add: view_Cons_Dir map_add_def view_empty)
    next
      case False
      then show ?thesis using Cons by (simp add: view_Cons_Dir map_add_def split: option.split)
    qed
  qed
  then show ?case using "1.prems"(1) by auto
next
  case (3 d cs es')
  then obtain n where n: "map_of es' d = Some n" "lookup cs n = Some (Dir es)"
    by (auto simp: bind_eq_Some_conv)
  note IH = "3.IH" [OF n "3.prems"(2)]
  have "view (change (d # cs) (\<lambda>es. es @ [(c, Dir [])]) (Dir es')) ds = ((view (Dir es'))(d # cs @ [c] \<mapsto> True)) ds" for ds
    using n(1) IH by (cases ds) (simp_all add: view_Cons_Dir update_conv split: option.split)
  then show ?case by auto
qed simp

section \<open>Making directories\<close>

lemma mkdir_at_exists: "view t cs \<noteq> None \<Longrightarrow> mkdir_at cs t = Inl EEXIST"
proof (cases cs rule: rev_cases)
  case (snoc q c)
  assume there: "view t cs \<noteq> None"
  then have "view t q = Some True" using view_prefix [of t q c "[]"] snoc by simp
  then obtain es where es: "lookup q t = Some (Dir es)" by (auto simp: view_Dir)
  then have "map_of es c \<noteq> None" using there snoc by (cases "map_of es c") (auto simp: view_def lookup_append)
  with es snoc show ?thesis by (simp add: mkdir_at_def)
qed (simp add: mkdir_at_def)

lemma mkdir_at_new:
  assumes "view t q = Some True" "view t (q @ [c]) = None"
  shows "\<exists>t'. mkdir_at (q @ [c]) t = Inr t' \<and> view t' = (view t)(q @ [c] \<mapsto> True)"
proof -
  from assms(1) obtain es where es: "lookup q t = Some (Dir es)" by (auto simp: view_Dir)
  then have "map_of es c = None"
    using assms(2) by (cases "map_of es c") (auto simp: view_def lookup_append)
  with es view_mkdir [OF es this] show ?thesis by (simp add: mkdir_at_def)
qed

lemma mkdir_at_blocked: "view t q = Some False \<Longrightarrow> mkdir_at (q @ [c]) t = Inl Other_errno"
  by (auto simp: view_def mkdir_at_def)

text \<open>What is there when the directories on the way to \<open>ps\<close> that were missing are added.\<close>

definition with_path :: "string list \<Rightarrow> (string list \<Rightarrow> bool option) \<Rightarrow> string list \<Rightarrow> bool option" where
  "with_path ps v ds = (if v ds \<noteq> None then v ds else if prefix ds ps then Some True else None)"

lemma with_path_there:
  assumes "view t ps \<noteq> None"
  shows "with_path ps (view t) = view t"
proof
  fix ds
  have "view t ds \<noteq> None" if "prefix ds ps"
    using that assms by (metis option.distinct(1) view_prefix prefixE neq_Nil_conv append_Nil2)
  then show "with_path ps (view t) ds = view t ds" by (auto simp: with_path_def)
qed

lemma with_path_snoc:
  "with_path (ps @ [c]) v =
     (if v (ps @ [c]) \<noteq> None then with_path ps v else (with_path ps v)(ps @ [c] \<mapsto> True))"
  by (auto simp: with_path_def fun_eq_iff)

lemma with_path_next: "with_path ps v (ps @ [c]) = v (ps @ [c])"
  by (auto simp: with_path_def prefix_def)

lemma mkdir_extends:
  assumes "view t = with_path ps v" "v ps \<noteq> Some False"
  shows "mkdir_at (ps @ [c]) t = Inl EEXIST \<and> view t = with_path (ps @ [c]) v
    \<or> (\<exists>t'. mkdir_at (ps @ [c]) t = Inr t' \<and> view t' = with_path (ps @ [c]) v)"
proof -
  have parent: "view t ps = Some True" using assms by (auto simp: with_path_def)
  have here: "view t (ps @ [c]) = v (ps @ [c])" using assms(1) by (simp add: with_path_next)
  show ?thesis
  proof (cases "v (ps @ [c])")
    case None
    then show ?thesis
      using mkdir_at_new [OF parent, of c] here assms(1) by (simp add: with_path_snoc)
  next
    case (Some b)
    then show ?thesis
      using mkdir_at_exists [of t "ps @ [c]"] here assms(1) by (simp add: with_path_snoc)
  qed
qed

lemma resolve_take:
  "path \<noteq> [] \<Longrightarrow> 0 < k \<Longrightarrow> resolve cwd (take k path) = base cwd path @ components (take k path)"
  by (cases path; cases k) (simp_all add: resolve_def base_def)

lemma plain_take:
  assumes "plain_path path" "k < length path" "0 < k" "path ! k = slash"
  shows "plain_path (take k path)"
  using assms components_prefix [OF assms(2,4)] by (auto simp: plain_path_def prefix_def)

lemma sys_mkdir_take:
  assumes "plain_path path" "k < length path" "0 < k" "path ! k = slash"
  shows "sys_mkdir cwd (take k path) t = mkdir_at (base cwd path @ components (take k path)) t"
  using assms locate_plain [OF plain_take [OF assms]] plain_nonempty [OF assms(1)]
  by (simp add: sys_mkdir_def resolve_take)

lemma resolve_base: "resolve cwd path = base cwd path @ components path"
  by (simp add: resolve_def base_def)

lemma take_Suc_snoc: "k < length path \<Longrightarrow> segments (take (Suc k) path) = next_char (segments (take k path)) (path ! k)"
  by (simp add: take_Suc_conv_app_nth segments_snoc)

lemma create_loop_makes:
  assumes free: "\<And>ds. strict_prefix ds (resolve cwd path) \<Longrightarrow> view t0 ds \<noteq> Some False"
    and plain: "plain_path path"
  shows "0 < k \<Longrightarrow> k \<le> length path \<Longrightarrow>
    view t = with_path (base cwd path @ fst (segments (take k path))) (view t0) \<Longrightarrow>
    \<exists>t'. create_loop cwd path k t = (t', True)
      \<and> view t' = with_path (base cwd path @ fst (segments path)) (view t0)"
proof (induction "length path - k" arbitrary: k t)
  case 0
  then show ?case by (subst create_loop.simps) simp
next
  case (Suc m)
  then have k: "k < length path" "0 < k" by simp_all
  have m: "m = length path - (k + 1)" "0 < k + 1" "k + 1 \<le> length path" using Suc.hyps(2) by simp_all
  note IH = Suc.hyps(1) [OF m]
  obtain cs x where s: "segments (take k path) = (cs, x)" by (cases "segments (take k path)")
  let ?b = "base cwd path"
  show ?case
  proof (cases "path ! k = slash")
    case False
    then have "fst (segments (take (k + 1) path)) = cs"
      using take_Suc_snoc [OF k(1)] s by (simp add: next_char_simps)
    with IH [of t] Suc.prems(3) s k False show ?thesis by (subst create_loop.simps) simp
  next
    case True
    have next_seg: "fst (segments (take (k + 1) path)) = (if x = [] then cs else cs @ [x])"
      using take_Suc_snoc [OF k(1)] s True by (simp add: next_char_simps)
    note sys = sys_mkdir_take [OF plain k True]
    have comps: "components (take k path) = (if x = [] then cs else cs @ [x])"
      by (simp add: components_def s)
    from components_prefix [OF k(1) True] obtain ds where
      path: "components path = (if x = [] then cs else cs @ [x]) @ ds" by (auto simp: comps prefix_def)
    have t: "view t = with_path (?b @ cs) (view t0)" using Suc.prems(3) s by simp
    have "mkdir_at (?b @ components (take k path)) t = Inl EEXIST
        \<and> view t = with_path (?b @ components (take k path)) (view t0)
      \<or> (\<exists>t'. mkdir_at (?b @ components (take k path)) t = Inr t'
        \<and> view t' = with_path (?b @ components (take k path)) (view t0))"
    proof (cases "x = []")
      case True
      have "view t (?b @ cs) \<noteq> None" by (auto simp: t with_path_def)
      from mkdir_at_exists [OF this] t show ?thesis by (simp add: comps True)
    next
      case False
      then have "strict_prefix (?b @ cs) (resolve cwd path)"
        by (simp add: resolve_base path strict_prefix_def)
      from mkdir_extends [OF t free [OF this], of x] show ?thesis by (simp add: comps False)
    qed
    then show ?thesis
    proof (elim disjE exE conjE)
      assume a: "mkdir_at (?b @ components (take k path)) t = Inl EEXIST"
        "view t = with_path (?b @ components (take k path)) (view t0)"
      from IH [of t] a k True sys next_seg comps show ?thesis by (subst create_loop.simps) simp
    next
      fix t' assume a: "mkdir_at (?b @ components (take k path)) t = Inr t'"
        "view t' = with_path (?b @ components (take k path)) (view t0)"
      from IH [of t'] a k True sys next_seg comps show ?thesis by (subst create_loop.simps) simp
    qed
  qed
qed

lemma segments_first: "path \<noteq> [] \<Longrightarrow> fst (segments (take 1 path)) = []"
  by (cases path) (auto simp: segments_def next_char_def)

lemma create_makes:
  assumes free: "\<And>ds. strict_prefix ds (resolve cwd path) \<Longrightarrow> view t ds \<noteq> Some False"
    and plain: "plain_path path" and cwd: "view t cwd = Some True"
  shows "\<exists>t'. create_dir_recursive True cwd path t = Some (t', 0) \<and> view t' = with_path (resolve cwd path) (view t)"
proof -
  let ?b = "base cwd path"
  note ne = plain_nonempty [OF plain]
  have b: "view t ?b \<noteq> None"
    using cwd by (cases cwd) (auto simp: base_def view_def intro: ccontr)
  have "view t = with_path (?b @ fst (segments (take 1 path))) (view t)"
    using with_path_there [OF b] segments_first [OF ne] by simp
  from create_loop_makes [OF free plain _ _ this] ne obtain t1 where
    loop: "create_loop cwd path 1 t = (t1, True)" and t1: "view t1 = with_path (?b @ fst (segments path)) (view t)"
    by (auto simp: Suc_le_eq)
  obtain cs x where s: "segments path = (cs, x)" by (cases "segments path")
  have R: "resolve cwd path = ?b @ cs @ (if x = [] then [] else [x])"
    by (simp add: resolve_base components_def s)
  have sys: "sys_mkdir cwd path t1 = mkdir_at (resolve cwd path) t1"
    by (simp add: sys_mkdir_def locate_plain [OF plain])
  show ?thesis
  proof (cases "path = [slash]")
    case True
    have "resolve cwd path = []" "cs = []" "?b = []"
      using True s by (simp_all add: resolve_def components_def base_def segments_def next_char_simps)
    then show ?thesis using loop t1 True ne s by (simp add: create_dir_recursive_def)
  next
    case False
    show ?thesis
    proof (cases "x = []")
      case True
      have "view t1 (resolve cwd path) \<noteq> None" by (auto simp: t1 with_path_def R True s)
      from mkdir_at_exists [OF this] show ?thesis
        using loop t1 False ne by (simp add: create_dir_recursive_def sys R True s)
    next
      case x: False
      then have "strict_prefix (?b @ cs) (resolve cwd path)" by (simp add: R strict_prefix_def)
      from mkdir_extends [of t1 "?b @ cs" "view t" x, OF _ free [OF this]] t1 s
      have "mkdir_at (resolve cwd path) t1 = Inl EEXIST \<and> view t1 = with_path (resolve cwd path) (view t)
        \<or> (\<exists>t'. mkdir_at (resolve cwd path) t1 = Inr t' \<and> view t' = with_path (resolve cwd path) (view t))"
        by (simp add: R x)
      then show ?thesis using loop False ne sys by (auto simp: create_dir_recursive_def)
    qed
  qed
qed

text \<open>A file on the way: nothing is made, as all in front of it is there.\<close>

lemma create_loop_blocked:
  assumes blocked: "strict_prefix D (resolve cwd path)" "view t D = Some False" and plain: "plain_path path"
  shows "0 < k \<Longrightarrow> k \<le> length path \<Longrightarrow> prefix (base cwd path @ fst (segments (take k path))) D \<Longrightarrow>
    create_loop cwd path k t = (t, False)
    \<or> create_loop cwd path k t = (t, True) \<and> prefix (base cwd path @ fst (segments path)) D"
proof (induction "length path - k" arbitrary: k)
  case 0
  then show ?case by (subst create_loop.simps) simp
next
  case (Suc m)
  then have k: "k < length path" "0 < k" by simp_all
  have m: "m = length path - (k + 1)" "0 < k + 1" "k + 1 \<le> length path" using Suc.hyps(2) by simp_all
  note IH = Suc.hyps(1) [OF m]
  obtain cs x where s: "segments (take k path) = (cs, x)" by (cases "segments (take k path)")
  let ?b = "base cwd path"
  have pre: "prefix (?b @ cs) D" using Suc.prems(3) s by simp
  show ?case
  proof (cases "path ! k = slash")
    case False
    then have "fst (segments (take (k + 1) path)) = cs"
      using take_Suc_snoc [OF k(1)] s by (simp add: next_char_simps)
    with IH pre k False show ?thesis by (subst (1 2) create_loop.simps) simp
  next
    case True
    have next_seg: "fst (segments (take (k + 1) path)) = components (take k path)"
      using take_Suc_snoc [OF k(1)] s True by (simp add: next_char_simps components_def)
    note sys = sys_mkdir_take [OF plain k True]
    show ?thesis
    proof (cases "prefix (?b @ components (take k path)) D")
      case pre': True
      have "view t (?b @ components (take k path)) \<noteq> None"
        using pre' blocked(2) view_prefix by (metis append_Nil2 neq_Nil_conv option.distinct(1) prefixE)
      from mkdir_at_exists [OF this] IH pre' next_seg k True sys show ?thesis
        by (subst (1 2) create_loop.simps) simp
    next
      case no: False
      have comps: "components (take k path) = cs @ [x]"
        using no pre by (auto simp: components_def s split: if_splits)
      have "prefix (?b @ components (take k path)) (resolve cwd path)"
        using components_prefix [OF k(1) True] by (simp add: resolve_base)
      then have "prefix D (?b @ cs)"
        using no blocked(1) by (auto simp: comps strict_prefix_def dest: prefix_same_cases)
          (metis append_assoc prefix_same_cases prefix_snoc)
      with pre have "D = ?b @ cs" by (simp add: prefix_order.eq_iff)
      with blocked(2) mkdir_at_blocked [of t D x] k True sys comps show ?thesis
        by (subst (1 2) create_loop.simps) simp
    qed
  qed
qed

lemma blocked_at:
  assumes "strict_prefix D (b @ cs @ (if x = [] then [] else [x]))" "prefix (b @ cs) D"
  shows "D = b @ cs" "x \<noteq> []"
proof -
  show x: "x \<noteq> []"
  proof
    assume "x = []"
    with assms show False by (simp add: prefix_order.less_le_not_le)
  qed
  then have "strict_prefix D ((b @ cs) @ [x])" using assms(1) by simp
  then have "prefix D ((b @ cs) @ [x])" "D \<noteq> (b @ cs) @ [x]" unfolding strict_prefix_def by blast+
  then have "prefix D (b @ cs)" using prefix_snoc [of D "b @ cs" x] by blast
  with assms(2) show "D = b @ cs" by (simp add: prefix_order.eq_iff)
qed

lemma create_blocked:
  assumes blocked: "strict_prefix D (resolve cwd path)" "view t D = Some False" and plain: "plain_path path"
    and cwd: "view t cwd = Some True"
  shows "create_dir_recursive True cwd path t = Some (t, - 1)"
proof -
  let ?b = "base cwd path"
  note ne = plain_nonempty [OF plain]
  have b: "view t ?b = Some True"
    using cwd by (cases cwd) (auto simp: base_def view_def)
  have "prefix ?b D"
  proof -
    have "prefix ?b (resolve cwd path)" by (simp add: resolve_base)
    then consider "prefix ?b D" | "strict_prefix D ?b"
      using blocked(1) by (metis prefix_order.less_le prefix_same_cases)
    then show ?thesis
    proof cases
      case 2
      then obtain c ds where "?b = D @ c # ds" by (metis strict_prefixE')
      with b blocked(2) view_prefix [of t D c ds] show ?thesis by simp
    qed
  qed
  then have "prefix (?b @ fst (segments (take 1 path))) D" by (simp only: segments_first [OF ne] append_Nil2)
  from create_loop_blocked [OF blocked plain _ _ this] ne consider "create_loop cwd path 1 t = (t, False)"
    | "create_loop cwd path 1 t = (t, True)" "prefix (?b @ fst (segments path)) D" by (auto simp: Suc_le_eq)
  then show ?thesis
  proof cases
    case 1
    then show ?thesis using ne by (simp add: create_dir_recursive_def)
  next
    case 2
    obtain cs x where s: "segments path = (cs, x)" by (cases "segments path")
    have R: "resolve cwd path = ?b @ cs @ (if x = [] then [] else [x])"
      by (simp add: resolve_base components_def s)
    have D: "D = ?b @ cs" "x \<noteq> []"
      using blocked_at [OF blocked(1) [unfolded R]] 2(2) s by simp_all
    have "resolve cwd path = D @ [x]" using D R by simp
    with mkdir_at_blocked [OF blocked(2), of x] have "sys_mkdir cwd path t = Inl Other_errno"
      by (simp add: sys_mkdir_def locate_plain [OF plain])
    moreover have "path \<noteq> [slash]" using D(2) s by (auto simp: segments_def next_char_simps)
    ultimately show ?thesis using 2(1) ne by (simp add: create_dir_recursive_def)
  qed
qed

section \<open>Removing directories\<close>

text \<open>
  What \<open>rmdir_recursive\<close> can remove: below a path of length \<open>l\<close>, every name is one a directory can
  have, every path fits into \<open>full_path\<close>, and there are descriptors for every level.
\<close>

definition good_name :: "string \<Rightarrow> bool" where
  "good_name d \<longleftrightarrow> d \<noteq> [] \<and> slash \<notin> set d \<and> plain_name d"

primrec removable :: "nat \<Rightarrow> nat \<Rightarrow> (string \<times> node) list \<Rightarrow> bool" where
  "removable 0 = (\<lambda>l es. False)"
| "removable (Suc fds) = (\<lambda>l es. distinct (map fst es) \<and>
     (\<forall>(d, n) \<in> set es. good_name d \<and> l + 1 + length d < 1024 \<and>
        (case n of File \<Rightarrow> True | Dir es' \<Rightarrow> removable fds (l + 1 + length d) es')))"

lemma removableD:
  assumes "removable (Suc fds) l es" "(d, n) \<in> set es"
  shows "good_name d" "l + 1 + length d < 1024" "n = Dir es' \<Longrightarrow> removable fds (l + 1 + length d) es'"
proof -
  have "case (d, n) of (d, n) \<Rightarrow> good_name d \<and> l + 1 + length d < 1024 \<and>
        (case n of File \<Rightarrow> True | Dir es' \<Rightarrow> removable fds (l + 1 + length d) es')"
    using assms by (simp only: removable.simps)
  then show "good_name d" "l + 1 + length d < 1024" "n = Dir es' \<Longrightarrow> removable fds (l + 1 + length d) es'"
    by simp_all
qed

lemma plain_join:
  assumes "plain_path path" "good_name d" "length path + 1 + length d < 1024"
  shows "plain_path (path @ slash # d)"
  using assms by (simp add: plain_path_def good_name_def components_join)

lemma full_path_fits: "length path + 1 + length d < 1024 \<Longrightarrow> full_path path d = path @ slash # d"
  by (simp add: full_path_def)

abbreviation (input) remove_entry :: "nat \<Rightarrow> string list \<Rightarrow> string \<Rightarrow> node \<Rightarrow> string \<times> bool \<Rightarrow> node" where
  "remove_entry fds cwd path \<equiv> (\<lambda>t (d_name, is_dir).
     if d_name = ''.'' \<or> d_name = ''..'' then t
     else if is_dir then rmdir_recursive fds cwd (full_path path d_name) True t
     else sys_unlink cwd (full_path path d_name) t)"

lemma without_first: "d \<notin> fst ` set es \<Longrightarrow> without d ((d, n) # es) = es"
  by (force simp: without_def intro!: filter_True)

lemma rmdir_emptied:
  assumes "lookup cs t = Some (Dir es)" "f es = []" "cs \<noteq> []" "resolve cwd path = cs" "plain_path path"
  shows "sys_rmdir cwd path (change cs f t) = change (butlast cs) (without (last cs)) t"
proof -
  have "lookup cs (change cs f t) = Some (Dir [])" using lookup_change [OF assms(1)] assms(2) by simp
  moreover have "change (butlast cs) (without (last cs)) (change cs f t) = change (butlast cs) (without (last cs)) t"
    using remove_changed [of "butlast cs" "last cs" f t] assms(3) by simp
  ultimately show ?thesis
    using assms(3,4) by (simp add: sys_rmdir_def locate_plain [OF assms(5)] plain_last [OF assms(5)])
qed

lemma remove_loop:
  assumes one: "\<And>d n t. (d, n) \<in> set es \<Longrightarrow> lookup (cs @ [d]) t = Some n \<Longrightarrow>
      r t (d, n \<noteq> File) = change cs (without d) t"
  shows "set es1 \<subseteq> set es \<Longrightarrow> distinct (map fst es1) \<Longrightarrow> lookup cs t = Some (Dir es1) \<Longrightarrow>
    \<exists>f. f es1 = [] \<and> foldl r t (map (\<lambda>(d, n). (d, n \<noteq> File)) es1) = change cs f t"
proof (induction es1 arbitrary: t)
  case Nil
  show ?case using change_id [of cs t] by (intro exI [of _ "\<lambda>es. es"]) simp
next
  case (Cons e es1)
  obtain d n where e: "e = (d, n)" by (cases e)
  have gone: "without d (e # es1) = es1" using without_first [of d es1 n] Cons.prems(2) e by simp
  have at: "lookup (cs @ [d]) t = Some n" using Cons.prems(3) e by (simp add: lookup_append)
  have step: "r t (d, n \<noteq> File) = change cs (without d) t" using one [OF _ at] Cons.prems(1) e by simp
  have "lookup cs (change cs (without d) t) = Some (Dir es1)"
    using lookup_change [OF Cons.prems(3), of "without d"] gone by simp
  from Cons.IH [OF _ _ this] Cons.prems(1,2) obtain f where
    f: "f es1 = []" "foldl r (change cs (without d) t) (map (\<lambda>(d, n). (d, n \<noteq> File)) es1)
      = change cs f (change cs (without d) t)" by auto
  have "foldl r t (map (\<lambda>(d, n). (d, n \<noteq> File)) (e # es1)) = change cs (f \<circ> without d) t"
    by (simp only: e list.map prod.case foldl.simps step f(2) change_change)
  moreover have "(f \<circ> without d) (e # es1) = []" using f(1) gone by simp
  ultimately show ?case by blast
qed

lemma rmdir_removes:
  "lookup (resolve cwd path) t = Some (Dir es) \<Longrightarrow> removable fds (length path) es \<Longrightarrow> plain_path path \<Longrightarrow>
    \<exists>f. f es = [] \<and> rmdir_recursive fds cwd path False t = change (resolve cwd path) f t
      \<and> rmdir_recursive fds cwd path True t = sys_rmdir cwd path (change (resolve cwd path) f t)"
proof (induction fds arbitrary: path t es)
  case 0
  then show ?case by simp
next
  case (Suc fds)
  let ?cs = "resolve cwd path"
  have one: "remove_entry fds cwd path t1 (d, n \<noteq> File) = change ?cs (without d) t1"
    if mem: "(d, n) \<in> set es" and at: "lookup (?cs @ [d]) t1 = Some n" for d n t1
  proof -
    note ok = removableD [OF Suc.prems(2) mem]
    have full: "full_path path d = path @ slash # d" by (rule full_path_fits [OF ok(2)])
    have R: "resolve cwd (full_path path d) = ?cs @ [d]"
      using ok(1) plain_nonempty [OF Suc.prems(3)] by (simp add: full good_name_def resolve_join)
    have plain: "plain_path (full_path path d)"
      using plain_join [OF Suc.prems(3) ok(1,2)] by (simp add: full)
    have dots: "d \<noteq> ''.''" "d \<noteq> ''..''" using ok(1) by (simp_all add: good_name_def plain_name_def)
    show ?thesis
    proof (cases n)
      case File
      have "last (full_path path d) \<noteq> slash"
        using ok(1) last_in_set by (force simp: full good_name_def simp del: last_in_set)
      then have "sys_unlink cwd (full_path path d) t1 = change ?cs (without d) t1"
        using at File by (simp add: sys_unlink_def locate_plain [OF plain] R)
      then show ?thesis using dots File by simp
    next
      case (Dir es')
      have "removable fds (length (full_path path d)) es'" using ok(3) [OF Dir] full by simp
      from Suc.IH [OF _ this plain, of t1] at Dir R obtain f where
        f: "f es' = []" "rmdir_recursive fds cwd (full_path path d) True t1
          = sys_rmdir cwd (full_path path d) (change (?cs @ [d]) f t1)" by auto
      have "sys_rmdir cwd (full_path path d) (change (?cs @ [d]) f t1) = change ?cs (without d) t1"
        using rmdir_emptied [of "?cs @ [d]" t1 es' f cwd "full_path path d"] f(1) R at Dir plain by simp
      then show ?thesis using f(2) dots Dir by simp
    qed
  qed
  have dist: "distinct (map fst es)" using Suc.prems(2) by simp
  from remove_loop [of es ?cs "remove_entry fds cwd path" es t, OF one _ dist Suc.prems(1)] obtain f where
    f: "f es = []" "foldl (remove_entry fds cwd path) t (map (\<lambda>(d, n). (d, n \<noteq> File)) es) = change ?cs f t"
    by blast
  have "foldl (remove_entry fds cwd path) t (readdir es) = change ?cs f t"
    using f(2) by (simp add: readdir_def)
  moreover have "sys_opendir cwd path t = Some es" using Suc.prems(1)
    by (simp add: sys_opendir_def locate_plain [OF Suc.prems(3)])
  ultimately show ?case using f(1) by (intro exI [of _ f]) (simp add: Let_def)
qed

text \<open>A path of 1023 characters is its own \<open>full_path\<close>: nothing in it is removed.\<close>

lemma rmdir_stuck:
  assumes "length path = 1023" "lookup (resolve cwd path) t = Some (Dir es)" "es \<noteq> []" "plain_path path"
  shows "rmdir_recursive fds cwd path b t = t"
proof (induction fds arbitrary: b)
  case 0
  then show ?case by simp
next
  case (Suc fds)
  have full: "full_path path d = path" for d using assms(1) by (simp add: full_path_def)
  have "sys_unlink cwd path t = t" "sys_rmdir cwd path t = t" using assms(2,3)
    by (simp_all add: sys_unlink_def sys_rmdir_def locate_plain [OF assms(4)])
  then have "remove_entry fds cwd path t e = t" for e by (cases e) (simp add: full Suc.IH)
  then have "foldl (remove_entry fds cwd path) t xs = t" for xs by (induction xs) simp_all
  then show ?case using \<open>sys_rmdir cwd path t = t\<close> by (simp add: Let_def split: option.split)
qed

lemma rmdir_recursive_removed:
  assumes "lookup (resolve cwd path) t = Some (Dir es)" "plain_path path" "resolve cwd path \<noteq> []"
    "removable fds (length path) es"
  shows "rmdir_recursive fds cwd path True t =
    change (butlast (resolve cwd path)) (without (last (resolve cwd path))) t"
proof -
  from rmdir_removes [OF assms(1,4,2)] obtain f where
    f: "f es = []" "rmdir_recursive fds cwd path True t = sys_rmdir cwd path (change (resolve cwd path) f t)" by blast
  with rmdir_emptied [of "resolve cwd path" t es f cwd path, OF assms(1) f(1) assms(3) refl assms(2)]
  show ?thesis by simp
qed

section \<open>The demonstration\<close>

text \<open>The loop goes over characters that are no slash.\<close>

lemma create_loop_skip:
  "k \<le> m \<Longrightarrow> m \<le> length path \<Longrightarrow> (\<forall>i. k \<le> i \<and> i < m \<longrightarrow> path ! i \<noteq> slash) \<Longrightarrow>
     create_loop cwd path k t = create_loop cwd path m t"
proof (induction "m - k" arbitrary: k)
  case (Suc n)
  then have "create_loop cwd path (k + 1) t = create_loop cwd path m t" "k < m" by auto
  with Suc.prems show ?case by (subst create_loop.simps) simp
qed simp

lemma create_loop_mkdir:
  "k < length path \<Longrightarrow> path ! k = slash \<Longrightarrow> sys_mkdir cwd (take k path) t = Inr t' \<Longrightarrow>
     create_loop cwd path k t = create_loop cwd path (k + 1) t'"
  by (subst create_loop.simps) simp

definition my_path :: string where
  "my_path = ''my_directory/dir1/dir2''"

lemma my_path_simps:
  "take 12 my_path = ''my_directory''" "take 17 my_path = ''my_directory/dir1''" "length my_path = 22"
  "my_path \<noteq> []" "my_path \<noteq> [slash]" "my_path ! 12 = slash" "my_path ! 17 = slash"
  by (simp_all add: my_path_def slash_def)

lemma upt_all: "list_all P [a..<b] \<Longrightarrow> \<forall>i. a \<le> i \<and> i < b \<longrightarrow> P i"
  by (simp add: list_all_iff)

lemma my_path_chars:
  "\<forall>i. 1 \<le> i \<and> i < 12 \<longrightarrow> my_path ! i \<noteq> slash" "\<forall>i. 13 \<le> i \<and> i < 17 \<longrightarrow> my_path ! i \<noteq> slash"
  "\<forall>i. 18 \<le> i \<and> i < 22 \<longrightarrow> my_path ! i \<noteq> slash"
  by (rule upt_all, simp add: upt_conv_Cons slash_def my_path_def)+

lemma my_path_resolve:
  "resolve cwd ''my_directory'' = cwd @ [''my_directory'']"
  "resolve cwd ''my_directory/dir1'' = cwd @ [''my_directory'', ''dir1'']"
  "resolve cwd my_path = cwd @ [''my_directory'', ''dir1'', ''dir2'']"
  by (simp_all add: resolve_def base_def components_def segments_def next_char_def slash_def my_path_def)

lemma my_path_plain:
  "plain_path ''my_directory''" "plain_path ''my_directory/dir1''" "plain_path my_path"
  by (simp_all add: plain_path_def plain_name_def components_def segments_def next_char_def slash_def my_path_def)

text \<open>Making a directory in one that is there.\<close>

lemma mkdir_in:
  assumes "lookup cs t = Some (Dir es)" "map_of es c = None" "resolve cwd p = cs @ [c]" "plain_path p"
  shows "sys_mkdir cwd p t = Inr (change cs (\<lambda>es. es @ [(c, Dir [])]) t)"
  using assms by (simp add: mkdir_at_def sys_mkdir_def locate_plain)

lemma lookup_snoc: "lookup cs t = Some (Dir es) \<Longrightarrow> lookup (cs @ [c]) t = map_of es c"
  by (simp add: lookup_append) (cases "map_of es c"; simp)

text \<open>The loop on the path of the demonstration: two directories, the third is made after it.\<close>

lemma create_loop_my_path:
  assumes "sys_mkdir cwd ''my_directory'' t = Inr t1" "sys_mkdir cwd ''my_directory/dir1'' t1 = Inr t2"
  shows "create_loop cwd my_path 1 t = (t2, True)"
proof -
  have "create_loop cwd my_path 1 t = create_loop cwd my_path 12 t"
    by (rule create_loop_skip [OF _ _ my_path_chars(1)]) (simp_all add: my_path_simps(3))
  also have "\<dots> = create_loop cwd my_path (12 + 1) t1"
    by (rule create_loop_mkdir) (simp_all add: my_path_simps(1,3,6) assms(1))
  also have "\<dots> = create_loop cwd my_path 17 t1"
    using create_loop_skip [OF _ _ my_path_chars(2), of cwd t1] by (simp add: my_path_simps(3))
  also have "\<dots> = create_loop cwd my_path (17 + 1) t2"
    by (rule create_loop_mkdir) (simp_all add: my_path_simps(2,3,7) assms(2))
  also have "\<dots> = create_loop cwd my_path 22 t2"
    using create_loop_skip [OF _ _ my_path_chars(3), of cwd t2] by (simp add: my_path_simps(3))
  also have "\<dots> = (t2, True)" by (subst create_loop.simps) (simp add: my_path_simps(3))
  finally show ?thesis .
qed

lemma create_my_path:
  assumes "lookup cwd t = Some (Dir es)" "map_of es ''my_directory'' = None"
  shows "\<exists>t3. create_dir_recursive True cwd my_path t = Some (t3, 0)
    \<and> lookup (cwd @ [''my_directory'']) t3 = Some (Dir [(''dir1'', Dir [(''dir2'', Dir [])])])
    \<and> change cwd (without ''my_directory'') t3 = t"
proof -
  let ?f = "\<lambda>es. es @ [(''my_directory'', Dir [])]" and ?g = "\<lambda>es. es @ [(''dir1'', Dir [])]"
    and ?h = "\<lambda>es. es @ [(''dir2'', Dir [])]"
  let ?h' = "\<lambda>es. case map_of es ''dir1'' of None \<Rightarrow> es | Some n \<Rightarrow> AList.update ''dir1'' (change [] ?h n) es"
  define t1 where "t1 = change cwd ?f t"
  define t2 where "t2 = change (cwd @ [''my_directory'']) ?g t1"
  define t3 where "t3 = change ((cwd @ [''my_directory'']) @ [''dir1'']) ?h t2"
  have m1: "sys_mkdir cwd ''my_directory'' t = Inr t1"
    unfolding t1_def by (rule mkdir_in [OF assms]) (simp_all add: my_path_resolve my_path_plain)
  have "lookup cwd t1 = Some (Dir (?f es))" unfolding t1_def by (rule lookup_change [OF assms(1)])
  from lookup_snoc [OF this, of "''my_directory''"] have l1: "lookup (cwd @ [''my_directory'']) t1 = Some (Dir [])"
    using assms(2) by (simp add: map_add_def)
  have m2: "sys_mkdir cwd ''my_directory/dir1'' t1 = Inr t2"
    unfolding t2_def by (rule mkdir_in [OF l1]) (simp_all add: my_path_resolve my_path_plain)
  have l1': "lookup (cwd @ [''my_directory'']) t2 = Some (Dir [(''dir1'', Dir [])])"
    unfolding t2_def using lookup_change [OF l1, of ?g] by simp
  have l2: "lookup ((cwd @ [''my_directory'']) @ [''dir1'']) t2 = Some (Dir [])"
    by (simp only: lookup_snoc [OF l1']) simp
  have m3: "sys_mkdir cwd my_path t2 = Inr t3"
    unfolding t3_def by (rule mkdir_in [OF l2]) (simp_all add: my_path_resolve my_path_plain)
  have t3: "t3 = change (cwd @ [''my_directory'']) ?h' t2" unfolding t3_def by (rule change_append)
  have "lookup (cwd @ [''my_directory'']) t3 = Some (Dir [(''dir1'', Dir [(''dir2'', Dir [])])])"
    unfolding t3 using lookup_change [OF l1', of ?h'] by simp
  moreover have "change cwd (without ''my_directory'') t3 = t"
  proof -
    have "''my_directory'' \<notin> fst ` set es" using assms(2) by (simp add: map_of_eq_None_iff)
    then have "(without ''my_directory'' \<circ> ?f) es = es" by (force simp: without_def intro!: filter_True)
    from change_same [of cwd t es "without ''my_directory'' \<circ> ?f", OF assms(1) this] show ?thesis
      by (simp only: t3 t2_def remove_changed t1_def change_change)
  qed
  moreover have "create_dir_recursive True cwd my_path t = Some (t3, 0)"
    unfolding create_dir_recursive_def create_loop_my_path [OF m1 m2] using m3 by (simp add: my_path_simps(4,5))
  ultimately show ?thesis by blast
qed

section \<open>Properties\<close>

text \<open>
  \<open>create_dir_recursive\<close> refines the addition of a path to a file system seen as a map from
  paths to kinds: when no file is in the way, all directories on the way that were missing are
  there afterwards, and everything else is as before (a file at the very end counts as made);
  when a file is in the way, the result is \<open>-1\<close> and nothing has changed.
\<close>

theorem create_dir_recursive_makes_path:
  assumes "plain_path path" and "view t cwd = Some True"
  shows "(\<exists>D. strict_prefix D (resolve cwd path) \<and> view t D = Some False)
      \<and> create_dir_recursive True cwd path t = Some (t, - 1)
    \<or> (\<forall>D. strict_prefix D (resolve cwd path) \<longrightarrow> view t D \<noteq> Some False)
      \<and> (\<exists>t'. create_dir_recursive True cwd path t = Some (t', 0)
           \<and> view t' = with_path (resolve cwd path) (view t))"
  using create_blocked [OF _ _ assms] create_makes [OF _ assms] by blast

definition small_tree :: node where
  "small_tree = Dir [(''home'', Dir [(''notes'', File)])]"

text \<open>
  \<open>rmdir_recursive\<close> removes exactly the directory it is given, with all that is in it, when
  there are descriptors for its depth and all paths in it are shorter than 1024 characters; of a
  directory whose path has 1023 characters nothing is ever removed.
\<close>

theorem rmdir_recursive_removes:
  assumes "lookup (resolve cwd path) t = Some (Dir es)" and "plain_path path" and "resolve cwd path \<noteq> []"
  shows "(removable fds (length path) es \<longrightarrow> rmdir_recursive fds cwd path True t =
        change (butlast (resolve cwd path)) (without (last (resolve cwd path))) t)
    \<and> (length path = 1023 \<and> es \<noteq> [] \<longrightarrow> rmdir_recursive fds cwd path True t = t)"
  using rmdir_recursive_removed [OF assms] rmdir_stuck [OF _ assms(1) _ assms(2)] by blast

text \<open>
  The demonstration run twice: where there was no \<open>my_directory\<close>, the first run makes it and
  the second one gives back the file system there was, down to the order of the entries.
\<close>

theorem dir_main_twice:
  assumes "lookup cwd t = Some (Dir es)" and "map_of es ''my_directory'' = None" and "3 \<le> fds"
  shows "\<exists>t'. dir_main fds True cwd t = Some (Directory_does_not_exist, t')
    \<and> lookup (cwd @ [''my_directory'', ''dir1'', ''dir2'']) t' = Some (Dir [])
    \<and> dir_main fds True cwd t' = Some (Directory_exists, t)"
proof -
  from create_my_path [OF assms(1,2)] obtain t' where
    t': "create_dir_recursive True cwd my_path t = Some (t', 0)"
    "lookup (cwd @ [''my_directory'']) t' = Some (Dir [(''dir1'', Dir [(''dir2'', Dir [])])])"
    "change cwd (without ''my_directory'') t' = t" by blast
  have "lookup (cwd @ [''my_directory'']) t = None" using assms(2) by (simp add: lookup_snoc [OF assms(1)])
  then have 1: "dir_main fds True cwd t = Some (Directory_does_not_exist, t')"
    using t'(1) by (simp add: dir_main_def directory_exists_def locate_plain my_path_plain my_path_resolve my_path_def)
  obtain n where n: "fds = Suc (Suc (Suc n))"
    using assms(3) by (metis add_2_eq_Suc less_eqE numeral_3_eq_3 plus_nat.simps(2))
  have "removable fds (length ''my_directory'') [(''dir1'', Dir [(''dir2'', Dir [])])]"
    by (simp add: n good_name_def plain_name_def slash_def)
  from rmdir_recursive_removed [OF _ my_path_plain(1) _ this] t'(2,3)
  have 2: "rmdir_recursive fds cwd ''my_directory'' True t' = t" by (simp add: my_path_resolve)
  have "lookup ((cwd @ [''my_directory'']) @ [''dir1'', ''dir2'']) t' = Some (Dir [])"
    by (simp only: lookup_append [of "cwd @ [''my_directory'']"] t'(2)) simp
  with 1 2 t'(2) show ?thesis by (simp add: dir_main_def directory_exists_def locate_plain my_path_plain my_path_resolve)
qed

lemma dir_main_twice_witness:
  "\<exists>t'. dir_main 1000 True [''home''] small_tree = Some (Directory_does_not_exist, t')
    \<and> dir_main 1000 True [''home''] t' = Some (Directory_exists, small_tree)"
  using dir_main_twice [of "[''home'']" small_tree "[(''notes'', File)]" 1000] by (auto simp: small_tree_def)

text \<open>
  C21: Making and removing directories, named by paths of less than 4096 characters whose components
  have at most 255 and are neither \<open>.\<close> nor \<open>..\<close> (\<open>plain_path\<close>; the model's calls walk those too, and
  refuse what is too long, but the statement is not about them).  \<open>create_dir_recursive\<close> refines the addition of a path to a file
  system seen as a map from paths to kinds: when no file is in the way, all directories on the way
  that were missing are there afterwards, and everything else is as before (a file at the very end
  counts as made); when a file is in the way, the result is \<open>-1\<close> and nothing has changed.
  \<open>rmdir_recursive\<close> removes exactly the directory it is given, with all that is in it, when there are
  descriptors for its depth and all paths in it are shorter than 1024 characters and their names plain;
  of a directory whose path has 1023 characters nothing is ever removed.  The program run twice gives back
  the file system there was, when there was no \<open>my_directory\<close>.
\<close>

theorem directories_made_and_removed:
  assumes "plain_path path" and "view t cwd = Some True"
    and "lookup (resolve cwd' dir) t' = Some (Dir es)" and "plain_path dir" and "resolve cwd' dir \<noteq> []"
  shows "((\<exists>D. strict_prefix D (resolve cwd path) \<and> view t D = Some False)
      \<and> create_dir_recursive True cwd path t = Some (t, - 1)
    \<or> (\<forall>D. strict_prefix D (resolve cwd path) \<longrightarrow> view t D \<noteq> Some False)
      \<and> (\<exists>u. create_dir_recursive True cwd path t = Some (u, 0)
           \<and> view u = with_path (resolve cwd path) (view t)))
    \<and> (removable fds (length dir) es \<longrightarrow> rmdir_recursive fds cwd' dir True t' =
        change (butlast (resolve cwd' dir)) (without (last (resolve cwd' dir))) t')
    \<and> (length dir = 1023 \<and> es \<noteq> [] \<longrightarrow> rmdir_recursive fds cwd' dir True t' = t')
    \<and> (lookup cwd t = Some (Dir entries) \<and> map_of entries ''my_directory'' = None \<and> 3 \<le> fds \<longrightarrow>
      (\<exists>u. dir_main fds True cwd t = Some (Directory_does_not_exist, u)
        \<and> lookup (cwd @ [''my_directory'', ''dir1'', ''dir2'']) u = Some (Dir [])
        \<and> dir_main fds True cwd u = Some (Directory_exists, t)))"
  using create_dir_recursive_makes_path [OF assms(1,2)] rmdir_recursive_removes [OF assms(3-5)]
    dir_main_twice [of cwd t entries fds] by blast

theorem directories_made_and_removed_witness:
  "(\<exists>t'. create_dir_recursive True [''home''] ''a//b/'' small_tree = Some (t', 0)
     \<and> view t' [''home'', ''a'', ''b''] = Some True \<and> view t' [''home'', ''notes''] = Some False)
   \<and> rmdir_recursive 2 [] ''home'' True (Dir [(''a'', File), (''home'', Dir [(''notes'', File), (''x'', Dir [])])])
     = Dir [(''a'', File)]"
proof -
  let ?t = "Dir [(''a'', File), (''home'', Dir [(''notes'', File), (''x'', Dir [])])]"
  have S: "resolve [] ''home'' = [''home'']" by code_simp
  have l: "lookup (resolve [] ''home'') ?t = Some (Dir [(''notes'', File), (''x'', Dir [])])" by (simp add: S)
  have m: "removable 2 (length ''home'') [(''notes'', File), (''x'', Dir [])]"
    by (simp add: numeral_2_eq_2 good_name_def plain_name_def slash_def)
  have v: "view small_tree [''home''] = Some True" by (simp add: small_tree_def view_def)
  have R: "resolve [''home''] ''a//b/'' = [''home'', ''a'', ''b'']" by code_simp
  have w: "view small_tree D \<noteq> Some False" if "strict_prefix D [''home'', ''a'', ''b'']" for D
  proof -
    have "D \<in> {[], [''home''], [''home'', ''a'']}"
      using that by (auto simp: strict_prefix_def prefix_Cons)
    then show ?thesis by (auto simp: small_tree_def view_def)
  qed
  have "plain_path ''a//b/''" and h: "plain_path ''home''" "resolve [] ''home'' \<noteq> []"
    by code_simp+
  note d = directories_made_and_removed [OF this(1) v l h]
  from d [THEN conjunct1] w obtain t' where "create_dir_recursive True [''home''] ''a//b/'' small_tree = Some (t', 0)"
    "view t' = with_path [''home'', ''a'', ''b''] (view small_tree)"
    by (auto simp: R)
  moreover have "rmdir_recursive 2 [] ''home'' True ?t = Dir [(''a'', File)]" using d [THEN conjunct2, THEN conjunct1] m by (simp add: S without_def)
  ultimately show ?thesis by (simp add: with_path_def small_tree_def view_Cons_Dir view_def [of File "[]"])
qed

end
