(* ===== verification/Decimal.thy ===== *)
theory Decimal
  imports ConfigFile
begin

text \<open>
  Numbers as \<open>printf\<close> writes them: \<open>%d\<close>, and \<open>%0<w>d\<close> with zeros in front.  What \<open>atoi\<close> reads of such a
  text is the number again.
\<close>

section \<open>Digits\<close>

definition digit :: "nat \<Rightarrow> char" where
  "digit d = char_of (48 + d)"

fun decimal :: "nat \<Rightarrow> string" where
  "decimal n = (if n < 10 then [digit n] else decimal (n div 10) @ [digit (n mod 10)])"

declare decimal.simps [simp del]

definition padded :: "nat \<Rightarrow> nat \<Rightarrow> string" where
  "padded w n = replicate (w - length (decimal n)) (CHR ''0'') @ decimal n"

text \<open>\<open>%d\<close>, and \<open>%0<w>d\<close>, where a sign counts for the width.\<close>

definition print_int :: "int \<Rightarrow> string" where
  "print_int i = (if i < 0 then CHR ''-'' # decimal (nat (- i)) else decimal (nat i))"

definition padded_int :: "nat \<Rightarrow> int \<Rightarrow> string" where
  "padded_int w i = (if i < 0 then CHR ''-'' # padded (w - 1) (nat (- i)) else padded w (nat i))"

section \<open>Reading what was printed\<close>

lemma of_char_digit: "d < 10 \<Longrightarrow> (of_char (digit d) :: nat) = 48 + d"
  by (simp add: digit_def of_char_of)

lemma of_char_digit_int: "d < 10 \<Longrightarrow> (of_char (digit d) :: int) = 48 + int d"
proof -
  assume "d < 10"
  have "(of_char (digit d) :: int) = int (of_char (digit d))" by (simp only: of_nat_of_char)
  then show ?thesis using \<open>d < 10\<close> by (simp add: of_char_digit)
qed

lemma is_digit_digit [simp]: "d < 10 \<Longrightarrow> is_digit (digit d)"
  by (simp add: is_digit_def of_char_digit)

lemma is_digit_zero [simp]: "is_digit (CHR ''0'')"
  by (simp add: is_digit_def)

lemma decimal_digits: "c \<in> set (decimal n) \<Longrightarrow> is_digit c"
  by (induction n rule: decimal.induct) (subst (asm) (2) decimal.simps, auto split: if_splits)

lemma decimal_nonempty [simp]: "decimal n \<noteq> []"
  by (subst decimal.simps) simp

lemma padded_digits: "c \<in> set (padded w n) \<Longrightarrow> is_digit c"
  by (auto simp: padded_def dest: decimal_digits)

lemma digits_value_snoc: "digits_value (ds @ [d]) = digits_value ds * 10 + (of_char d - 48)"
  by (simp add: digits_value_def)

lemma digits_value_decimal: "digits_value (decimal n) = int n"
proof (induction n rule: decimal.induct)
  case (1 n)
  show ?case
  proof (cases "n < 10")
    case True
    then show ?thesis by (subst decimal.simps) (simp add: digits_value_def of_char_digit_int)
  next
    case False
    then show ?thesis using 1
      by (subst decimal.simps) (simp add: digits_value_snoc of_char_digit_int zdiv_int zmod_int)
  qed
qed

lemma digits_value_zeros: "digits_value (replicate k (CHR ''0'') @ ds) = digits_value ds"
  by (induction k) (simp_all add: digits_value_def)

lemma digits_value_padded: "digits_value (padded w n) = int n"
  by (simp add: padded_def digits_value_zeros digits_value_decimal)

lemma decimal_inj: "decimal m = decimal n \<longleftrightarrow> m = n"
  using digits_value_decimal by (metis of_nat_eq_iff)

lemma length_decimal: "n < 10 ^ w \<Longrightarrow> 0 < w \<Longrightarrow> length (decimal n) \<le> w"
proof (induction w arbitrary: n)
  case (Suc w)
  show ?case
  proof (cases "n < 10")
    case True
    then show ?thesis by (subst decimal.simps) simp
  next
    case False
    then have "0 < w" using Suc.prems(1) by (cases w) auto
    moreover have "n div 10 < 10 ^ w" using Suc.prems(1) by (simp add: less_mult_imp_div_less mult.commute)
    ultimately have "length (decimal (n div 10)) \<le> w" by (intro Suc.IH)
    then show ?thesis using False by (subst decimal.simps) simp
  qed
qed simp

lemma length_padded: "n < 10 ^ w \<Longrightarrow> 0 < w \<Longrightarrow> length (padded w n) = w"
  using length_decimal [of n w] by (simp add: padded_def)

lemma length_decimal_ge: "10 ^ w \<le> n \<Longrightarrow> w < length (decimal n)"
proof (induction w arbitrary: n)
  case (Suc w)
  then have n: "\<not> n < 10" by (metis le_trans not_le numeral_One one_le_numeral one_le_power power_Suc mult_le_mono mult.right_neutral nat_mult_le_cancel_disj)
  moreover have "10 ^ w \<le> n div 10" using Suc.prems by (simp add: less_eq_div_iff_mult_less_eq mult.commute)
  then have "w < length (decimal (n div 10))" by (rule Suc.IH)
  ultimately show ?case by (subst decimal.simps) simp
qed simp

lemma decimal_exact: "10 ^ w \<le> n \<Longrightarrow> n < 10 ^ Suc w \<Longrightarrow> length (decimal n) = Suc w"
  using length_decimal_ge [of w n] length_decimal [of n "Suc w"] by simp

lemma decimal_no_space: "c \<in> set (decimal n) \<Longrightarrow> \<not> isspace c \<and> c \<noteq> CHR ''-'' \<and> c \<noteq> CHR ''+''"
  using decimal_digits [of c n] by (auto simp: is_digit_def isspace_def)

text \<open>\<open>atoi\<close> and its kin for numbers of \<open>Suc b\<close> bits.\<close>

definition ato :: "nat \<Rightarrow> string \<Rightarrow> int option" where
  "ato b s =
     (let t = dropWhile isspace s;
          neg = (t \<noteq> [] \<and> hd t = CHR ''-'');
          u = (if t \<noteq> [] \<and> (hd t = CHR ''-'' \<or> hd t = CHR ''+'') then tl t else t);
          v = digits_value (takeWhile is_digit u);
          n = (if neg then - v else v)
      in if - (2 ^ b) \<le> n \<and> n < 2 ^ b then Some n else None)"

definition atoll :: "string \<Rightarrow> int option" where
  "atoll = ato 63"

lemma atoi_ato: "atoi s = ato 31 s"
  by (simp add: atoi_def ato_def)

lemma ato_print_int:
  assumes "- (2 ^ b) \<le> i" and "i < 2 ^ b" and "tail = [] \<or> \<not> is_digit (hd tail)"
  shows "ato b (print_int i @ tail) = Some i"
proof -
  obtain c cs where d: "decimal (nat \<bar>i\<bar>) = c # cs" by (meson decimal_nonempty list.exhaust)
  then have "c \<in> set (decimal (nat \<bar>i\<bar>))" by simp
  note c = decimal_no_space [OF this]
  have w: "takeWhile is_digit (decimal (nat \<bar>i\<bar>) @ tail) = decimal (nat \<bar>i\<bar>)"
    using assms(3) decimal_digits by (cases tail) (auto simp: takeWhile_append takeWhile_eq_all_conv)
  show ?thesis
  proof (cases "i < 0")
    case True
    then have "print_int i @ tail = CHR ''-'' # decimal (nat \<bar>i\<bar>) @ tail" by (simp add: print_int_def)
    moreover have "\<not> isspace (CHR ''-'')" by (simp add: isspace_def)
    ultimately show ?thesis using True w assms(1,2) by (simp add: ato_def Let_def digits_value_decimal)
  next
    case False
    then have p: "print_int i @ tail = decimal (nat \<bar>i\<bar>) @ tail" by (simp add: print_int_def)
    have "dropWhile isspace (decimal (nat \<bar>i\<bar>) @ tail) = decimal (nat \<bar>i\<bar>) @ tail"
      "hd (decimal (nat \<bar>i\<bar>) @ tail) = c" using c by (simp_all add: d)
    then show ?thesis unfolding p using False w c assms(1,2) by (simp add: ato_def Let_def digits_value_decimal)
  qed
qed

lemma atoi_print_int:
  "- (2 ^ 31) \<le> i \<Longrightarrow> i < 2 ^ 31 \<Longrightarrow> tail = [] \<or> \<not> is_digit (hd tail) \<Longrightarrow> atoi (print_int i @ tail) = Some i"
  unfolding atoi_ato by (rule ato_print_int)

lemma atoll_print_int:
  "- (2 ^ 63) \<le> i \<Longrightarrow> i < 2 ^ 63 \<Longrightarrow> tail = [] \<or> \<not> is_digit (hd tail) \<Longrightarrow> atoll (print_int i @ tail) = Some i"
  unfolding atoll_def by (rule ato_print_int)

end
