(* ===== verification/OptionParsing.thy ===== *)
theory OptionParsing
  imports Decimal "HOL-Library.Sublist"
begin

text \<open>
  \<open>1.getopt/getopt.c\<close> and \<open>getopt_long.c\<close>: the loops over the options of a command line.  The
  functions \<open>getopt\<close> and \<open>getopt_long\<close> of the C library are modelled after the documentation of
  the GNU implementation, without \<open>POSIXLY_CORRECT\<close>: options and operands may be mixed, and the
  operands end up behind the options in their order.  The arguments are those behind the name
  of the program.
\<close>

section \<open>The library\<close>

datatype arg_spec = No_argument | Required_argument

text \<open>A long option: its name, whether it has an argument, and the character it stands for.\<close>

type_synonym long_option = "string \<times> arg_spec \<times> char"

text \<open>
  Where the scan is: the arguments not yet scanned, the rest of an argument with several
  short options, the operands passed over, and the two variables for the caller.
\<close>

record getopt_state =
  unscanned :: "string list"
  nextchar :: string
  passed :: "string list"
  optarg :: "string option"
  long_idx :: nat

definition getopt_start :: "string list \<Rightarrow> getopt_state" where
  "getopt_start args = \<lparr>unscanned = args, nextchar = [], passed = [], optarg = None, long_idx = 0\<rparr>"

text \<open>What lies at \<open>optind\<close> and behind when all options have been scanned.\<close>

definition operands :: "getopt_state \<Rightarrow> string list" where
  "operands g = passed g @ unscanned g"

fun short_spec :: "string \<Rightarrow> char \<Rightarrow> arg_spec option" where
  "short_spec [] c = None"
| "short_spec (a # as) c =
     (if a = c \<and> c \<noteq> CHR '':''
      then Some (if as \<noteq> [] \<and> hd as = CHR '':'' then Required_argument else No_argument)
      else short_spec as c)"

text \<open>An option in \<open>nextchar\<close>; \<open>?\<close> for an unknown option or a missing argument.\<close>

definition short_option :: "string \<Rightarrow> getopt_state \<Rightarrow> char \<times> getopt_state" where
  "short_option optstring g =
     (let c = hd (nextchar g); cs = tl (nextchar g)
      in case short_spec optstring c of
           None \<Rightarrow> (CHR ''?'', g\<lparr>nextchar := cs\<rparr>)
         | Some No_argument \<Rightarrow> (c, g\<lparr>nextchar := cs\<rparr>)
         | Some Required_argument \<Rightarrow>
             (if cs \<noteq> [] then (c, g\<lparr>nextchar := [], optarg := Some cs\<rparr>)
              else (case unscanned g of
                      [] \<Rightarrow> (CHR ''?'', g\<lparr>nextchar := []\<rparr>)
                    | a # as \<Rightarrow> (c, g\<lparr>nextchar := [], unscanned := as, optarg := Some a\<rparr>))))"

text \<open>The exact name, or the only one that starts with what is given.\<close>

definition long_find :: "long_option list \<Rightarrow> string \<Rightarrow> nat option" where
  "long_find opts name =
     (case filter (\<lambda>i. fst (opts ! i) = name) [0..<length opts] of
        i # is \<Rightarrow> Some i
      | [] \<Rightarrow> (case filter (\<lambda>i. prefix name (fst (opts ! i))) [0..<length opts] of
                 [i] \<Rightarrow> Some i | _ \<Rightarrow> None))"

definition long_option :: "long_option list \<Rightarrow> string \<Rightarrow> getopt_state \<Rightarrow> char \<times> getopt_state" where
  "long_option opts body g =
     (let given = dropWhile (\<lambda>c. c \<noteq> equals_sign) body
      in case long_find opts (takeWhile (\<lambda>c. c \<noteq> equals_sign) body) of
           None \<Rightarrow> (CHR ''?'', g)
         | Some i \<Rightarrow>
             (case opts ! i of (name, spec, val) \<Rightarrow>
                if given \<noteq> []
                then if spec = Required_argument then (val, g\<lparr>optarg := Some (tl given), long_idx := i\<rparr>)
                     else (CHR ''?'', g)
                else if spec = Required_argument
                then case unscanned g of
                       [] \<Rightarrow> (CHR ''?'', g)
                     | a # as \<Rightarrow> (val, g\<lparr>unscanned := as, optarg := Some a, long_idx := i\<rparr>)
                else (val, g\<lparr>long_idx := i\<rparr>)))"

definition is_operand :: "string \<Rightarrow> bool" where
  "is_operand a \<longleftrightarrow> a = [] \<or> hd a \<noteq> CHR ''-'' \<or> tl a = []"

text \<open>The next option, or nothing at the end (\<open>-1\<close>); \<open>getopt\<close> is called without long options.\<close>

definition getopt_long :: "string \<Rightarrow> long_option list option \<Rightarrow> getopt_state \<Rightarrow> char option \<times> getopt_state" where
  "getopt_long optstring opts g0 =
     (let g = g0\<lparr>optarg := None, passed := passed g0 @ (if nextchar g0 = [] then takeWhile is_operand (unscanned g0) else []),
                unscanned := (if nextchar g0 = [] then dropWhile is_operand (unscanned g0) else unscanned g0)\<rparr>
      in if nextchar g \<noteq> [] then map_prod Some id (short_option optstring g)
         else case unscanned g of
                [] \<Rightarrow> (None, g)
              | a # as \<Rightarrow>
                  if a = ''--'' then (None, g\<lparr>unscanned := as\<rparr>)
                  else if opts \<noteq> None \<and> prefix ''--'' a
                  then map_prod Some id (long_option (the opts) (drop 2 a) (g\<lparr>unscanned := as\<rparr>))
                  else map_prod Some id (short_option optstring (g\<lparr>unscanned := as, nextchar := tl a\<rparr>)))"

text \<open>A call that finds an option leaves less to scan: the loops of the programs end.\<close>

definition to_scan :: "getopt_state \<Rightarrow> nat" where
  "to_scan g = length (nextchar g) + sum_list (map (\<lambda>a. length a + 1) (unscanned g))"

lemma short_option_scans: "nextchar g \<noteq> [] \<Longrightarrow> to_scan (snd (short_option optstring g)) < to_scan g"
  by (cases "nextchar g")
    (auto simp: short_option_def to_scan_def Let_def split: option.splits arg_spec.splits list.splits)

lemma long_option_scans: "to_scan (snd (long_option opts body g)) \<le> to_scan g"
  by (auto simp: long_option_def to_scan_def Let_def split: option.splits list.splits prod.splits)

lemma sum_dropWhile: "sum_list (map f (dropWhile P xs)) \<le> (sum_list (map f xs) :: nat)"
  by (induction xs) auto

lemma map_prod_snd: "map_prod f id x = (y, z) \<Longrightarrow> z = snd x"
  by (cases x) simp

lemma getopt_long_scans:
  assumes "getopt_long optstring opts g = (Some opt, g')"
  shows "to_scan g' < to_scan g"
proof (cases "nextchar g = []")
  case False
  then show ?thesis
    using assms short_option_scans [of "g\<lparr>optarg := None, passed := passed g, unscanned := unscanned g\<rparr>" optstring]
    by (cases "short_option optstring (g\<lparr>optarg := None\<rparr>)") (auto simp: getopt_long_def Let_def to_scan_def)
next
  case True
  let ?g = "g\<lparr>optarg := None, passed := passed g @ takeWhile is_operand (unscanned g),
    unscanned := dropWhile is_operand (unscanned g)\<rparr>"
  have less: "to_scan ?g \<le> to_scan g" using True sum_dropWhile by (simp add: to_scan_def)
  obtain a as where a: "dropWhile is_operand (unscanned g) = a # as" "a \<noteq> ''--''"
    using assms True by (auto simp: getopt_long_def Let_def split: list.splits if_splits)
  have opt: "\<not> is_operand a" using a(1) by (metis dropWhile_eq_Cons_conv)
  then have tl: "tl a \<noteq> []" "a \<noteq> []" by (auto simp: is_operand_def)
  show ?thesis
  proof (cases "opts \<noteq> None \<and> prefix ''--'' a")
    case 1: True
    then have "g' = snd (long_option (the opts) (drop 2 a) (?g\<lparr>unscanned := as\<rparr>))"
      using assms True a by (intro map_prod_snd [of Some _ "Some opt"]) (auto simp: getopt_long_def Let_def)
    then have "to_scan g' \<le> to_scan (?g\<lparr>unscanned := as\<rparr>)" using long_option_scans by simp
    moreover have "to_scan (?g\<lparr>unscanned := as\<rparr>) < to_scan ?g" using True a by (simp add: to_scan_def)
    ultimately show ?thesis using less by simp
  next
    case 2: False
    then have "g' = snd (short_option optstring (?g\<lparr>unscanned := as, nextchar := tl a\<rparr>))"
      using assms True a by (intro map_prod_snd [of Some _ "Some opt"]) (auto simp: getopt_long_def Let_def)
    then have "to_scan g' < to_scan (?g\<lparr>unscanned := as, nextchar := tl a\<rparr>)" using short_option_scans tl by simp
    moreover have "to_scan (?g\<lparr>unscanned := as, nextchar := tl a\<rparr>) \<le> to_scan ?g"
      using True a tl by (cases a) (simp_all add: to_scan_def)
    ultimately show ?thesis using less by simp
  qed
qed

section \<open>The program with long options\<close>

record cmd_paras =
  en_init :: int
  en_clean :: int
  output_file :: "string option"
  verbose :: int

datatype stream = Stdout | Stderr

text \<open>How a run of the options ends: with the usage printed and an exit code, aborted, or with a result.\<close>

datatype 'a ends = Usage stream int | Abort | Returns 'a

definition long_opts :: "long_option list" where
  "long_opts =
    [(''help'', No_argument, CHR ''h''), (''init'', No_argument, CHR 0x00), (''clean'', No_argument, CHR 0x00),
     (''output'', Required_argument, CHR ''o''), (''verbose'', Required_argument, CHR ''v'')]"

function proc_paras_loop :: "cmd_paras \<Rightarrow> getopt_state \<Rightarrow> (cmd_paras \<times> getopt_state) ends" where
  "proc_paras_loop p g =
     (case getopt_long ''ho:v'' (Some long_opts) g of
        (None, g') \<Rightarrow> Returns (p, g')
      | (Some opt, g') \<Rightarrow>
          if opt = CHR ''h'' then Usage Stdout 0
          else if opt = CHR 0x00 then
            (let cur_opt_name = fst (long_opts ! long_idx g')
             in if cur_opt_name = ''init'' then proc_paras_loop (p\<lparr>en_init := 1\<rparr>) g'
                else if cur_opt_name = ''clean'' then proc_paras_loop (p\<lparr>en_clean := 1\<rparr>) g'
                else proc_paras_loop p g')
          else if opt = CHR ''o'' then proc_paras_loop (p\<lparr>output_file := optarg g'\<rparr>) g'
          else if opt = CHR ''v'' then proc_paras_loop (p\<lparr>verbose := 1\<rparr>) g'
          else if opt = CHR ''?'' then Usage Stderr 1
          else Abort)"
  by pat_completeness auto
termination
  by (relation "measure (\<lambda>(p, g). to_scan g)") (auto dest: getopt_long_scans [OF sym])

declare proc_paras_loop.simps [simp del]

text \<open>What is printed behind the loop: the four parameters, the operands only when verbose.\<close>

datatype shown = Shown int int string "string list"

definition proc_paras_long :: "string list \<Rightarrow> cmd_paras \<Rightarrow> shown ends" where
  "proc_paras_long args p =
     (case proc_paras_loop p (getopt_start args) of
        Usage s e \<Rightarrow> Usage s e
      | Abort \<Rightarrow> Abort
      | Returns (p', g) \<Rightarrow>
          (case output_file p' of
             None \<Rightarrow> Usage Stderr 1
           | Some name \<Rightarrow> Returns (Shown (en_init p') (en_clean p') name (if verbose p' \<noteq> 0 then operands g else []))))"

definition getopt_long_main :: "string list \<Rightarrow> shown ends" where
  "getopt_long_main args = proc_paras_long args \<lparr>en_init = 0, en_clean = 0, output_file = None, verbose = 0\<rparr>"

section \<open>The program with short options\<close>

record cmdParas =
  ver :: int
  output_fname :: "string option"

text \<open>\<^term>\<open>None\<close> is an \<open>atoi\<close> of a number that is no \<open>int\<close>.\<close>

function proc_short_loop :: "cmdParas \<Rightarrow> getopt_state \<Rightarrow> cmdParas ends option" where
  "proc_short_loop p g =
     (case getopt_long ''hv:o:'' None g of
        (None, g') \<Rightarrow> Some (Returns p)
      | (Some opt, g') \<Rightarrow>
          if opt = CHR ''h'' then Some (Usage Stdout 0)
          else if opt = CHR ''v'' then
            (case atoi (the (optarg g')) of
               None \<Rightarrow> None
             | Some n \<Rightarrow> proc_short_loop (p\<lparr>ver := n\<rparr>) g')
          else if opt = CHR ''o'' then proc_short_loop (p\<lparr>output_fname := optarg g'\<rparr>) g'
          else if opt = CHR ''?'' then Some (Usage Stdout 0)
          else Some Abort)"
  by pat_completeness auto
termination
  by (relation "measure (\<lambda>(p, g). to_scan g)") (auto dest: getopt_long_scans [OF sym])

declare proc_short_loop.simps [simp del]

text \<open>The program prints both parameters; without \<open>-o\<close> the second one is a null pointer.\<close>

definition getopt_main :: "string list \<Rightarrow> (int \<times> string) ends option" where
  "getopt_main args =
     (case proc_short_loop \<lparr>ver = 0, output_fname = None\<rparr> (getopt_start args) of
        None \<Rightarrow> None
      | Some (Usage s e) \<Rightarrow> Some (Usage s e)
      | Some Abort \<Rightarrow> Some Abort
      | Some (Returns p) \<Rightarrow> (case output_fname p of None \<Rightarrow> None | Some name \<Rightarrow> Some (Returns (ver p, name))))"

section \<open>Calls of the library\<close>

text \<open>Between arguments, and inside one with short options.\<close>

definition inside :: "string \<Rightarrow> string list \<Rightarrow> string list \<Rightarrow> getopt_state \<Rightarrow> bool" where
  "inside cs ps as g \<longleftrightarrow> nextchar g = cs \<and> passed g = ps \<and> unscanned g = as"

lemma inside_start: "inside [] [] args (getopt_start args)"
  by (simp add: inside_def getopt_start_def)

lemma operand_passed:
  assumes "inside [] ps (a # as) g" "is_operand a"
  shows "\<exists>g'. inside [] (ps @ [a]) as g' \<and> getopt_long optstring opts g = getopt_long optstring opts g'"
proof (intro exI conjI)
  let ?g = "g\<lparr>passed := ps @ [a], unscanned := as\<rparr>"
  show "inside [] (ps @ [a]) as ?g" using assms(1) by (simp add: inside_def)
  have "(g\<lparr>optarg := None, passed := P, unscanned := U\<rparr>) = ?g\<lparr>optarg := None, passed := P, unscanned := U\<rparr>" for P U
    by (cases g) simp
  then show "getopt_long optstring opts g = getopt_long optstring opts ?g"
    using assms unfolding getopt_long_def inside_def by simp
qed

lemma cluster_entered:
  assumes "inside [] ps ((CHR ''-'' # cs) # as) g" "cs \<noteq> []" "opts = None \<and> cs \<noteq> ''-'' \<or> hd cs \<noteq> CHR ''-''"
  shows "\<exists>g'. inside cs ps as g' \<and> getopt_long optstring opts g = getopt_long optstring opts g'"
proof (intro exI conjI)
  let ?a = "CHR ''-'' # cs"
  let ?g = "g\<lparr>nextchar := cs, unscanned := as\<rparr>"
  show "inside cs ps as ?g" using assms(1) by (simp add: inside_def)
  have a: "\<not> is_operand ?a" "?a \<noteq> ''--''" "\<not> (opts \<noteq> None \<and> prefix ''--'' ?a)"
    using assms(2,3) by (cases cs; auto simp: is_operand_def)+
  have same: "g\<lparr>optarg := None, passed := P, unscanned := as, nextchar := cs\<rparr> =
      ?g\<lparr>optarg := None, passed := P, unscanned := as\<rparr>"
    and twice: "g\<lparr>optarg := None, passed := P, unscanned := U, unscanned := as, nextchar := cs\<rparr> =
      g\<lparr>optarg := None, passed := P, unscanned := as, nextchar := cs\<rparr>" for P U
    by (cases g; simp)+
  have "getopt_long optstring opts g =
      map_prod Some id (short_option optstring (g\<lparr>optarg := None, passed := ps, unscanned := as, nextchar := cs\<rparr>))"
    using assms(1) a unfolding getopt_long_def inside_def by (auto simp: Let_def)
  moreover have "getopt_long optstring opts ?g =
      map_prod Some id (short_option optstring (?g\<lparr>optarg := None, passed := ps, unscanned := as\<rparr>))"
    using assms(1,2) unfolding getopt_long_def inside_def by (simp add: Let_def)
  ultimately show "getopt_long optstring opts g = getopt_long optstring opts ?g" by (simp only: same)
qed

lemma short_flag:
  assumes "inside (c # cs) ps as g" "short_spec optstring c = Some No_argument"
  shows "\<exists>g'. inside cs ps as g' \<and> getopt_long optstring opts g = (Some c, g')"
  using assms unfolding getopt_long_def inside_def by (simp add: short_option_def Let_def)

lemma short_attached:
  assumes "inside (c # cs) ps as g" "short_spec optstring c = Some Required_argument" "cs \<noteq> []"
  shows "\<exists>g'. inside [] ps as g' \<and> optarg g' = Some cs \<and> getopt_long optstring opts g = (Some c, g')"
  using assms unfolding getopt_long_def inside_def by (simp add: short_option_def Let_def)

lemma short_next:
  assumes "inside [c] ps (a # as) g" "short_spec optstring c = Some Required_argument"
  shows "\<exists>g'. inside [] ps as g' \<and> optarg g' = Some a \<and> getopt_long optstring opts g = (Some c, g')"
  using assms unfolding getopt_long_def inside_def by (simp add: short_option_def Let_def)

lemma short_missing:
  assumes "inside [c] ps [] g" "short_spec optstring c = Some Required_argument"
  shows "fst (getopt_long optstring opts g) = Some (CHR ''?'')"
  using assms unfolding getopt_long_def inside_def by (simp add: short_option_def Let_def)

lemma short_unknown:
  assumes "inside (c # cs) ps as g" "short_spec optstring c = None"
  shows "fst (getopt_long optstring opts g) = Some (CHR ''?'')"
  using assms unfolding getopt_long_def inside_def by (simp add: short_option_def Let_def)

lemma long_called:
  assumes "inside [] ps ((''--'' @ body) # as) g" "body \<noteq> []"
  shows "\<exists>g'. inside [] ps as g' \<and> getopt_long optstring (Some opts) g = map_prod Some id (long_option opts body g')"
proof (intro exI conjI)
  let ?g = "g\<lparr>optarg := None, passed := ps, unscanned := as\<rparr>"
  show "inside [] ps as ?g" using assms(1) by (simp add: inside_def)
  have "\<not> is_operand (''--'' @ body)" by (simp add: is_operand_def)
  moreover have "g\<lparr>optarg := None, passed := ps, unscanned := U, unscanned := as\<rparr> = ?g" for U by (cases g) simp
  ultimately show "getopt_long optstring (Some opts) g = map_prod Some id (long_option opts body ?g)"
    using assms unfolding getopt_long_def inside_def by (simp add: Let_def)
qed

lemma scan_ends:
  assumes "inside [] ps as g" "as = [] \<or> as = ''--'' # rest"
  shows "\<exists>g'. getopt_long optstring opts g = (None, g') \<and> operands g' = ps @ tl as"
  using assms unfolding getopt_long_def inside_def by (auto simp: Let_def operands_def is_operand_def)

text \<open>The options of the first program, by any initial part of their names.\<close>

lemma long_find_opts:
  assumes "i < 5" "0 < n"
  shows "long_find long_opts (take n (fst (long_opts ! i))) = Some i"
proof -
  have all: "\<forall>i \<in> set [0..<5]. \<forall>n \<in> set [1..<8]. long_find long_opts (take n (fst (long_opts ! i))) = Some i" by code_simp
  have "\<forall>i \<in> set [0..<5]. length (fst (long_opts ! i)) \<le> 7" by code_simp
  then have "length (fst (long_opts ! i)) \<le> 7" using assms(1) by simp
  then have "take n (fst (long_opts ! i)) = take (min n 7) (fst (long_opts ! i))"
    by (simp add: min_def)
  moreover have "i \<in> set [0..<5]" "min n 7 \<in> set [1..<8]" using assms by auto
  ultimately show ?thesis using all by metis
qed

lemma names_plain: "i < 5 \<Longrightarrow> takeWhile (\<lambda>c. c \<noteq> equals_sign) (take n (fst (long_opts ! i)) @ rest)
    = take n (fst (long_opts ! i)) @ takeWhile (\<lambda>c. c \<noteq> equals_sign) rest"
  "i < 5 \<Longrightarrow> dropWhile (\<lambda>c. c \<noteq> equals_sign) (take n (fst (long_opts ! i)) @ rest) = dropWhile (\<lambda>c. c \<noteq> equals_sign) rest"
proof -
  assume i: "i < 5"
  have "\<forall>i \<in> set [0..<5]. list_all (\<lambda>c. c \<noteq> equals_sign) (fst (long_opts ! i))" by code_simp
  then have "\<forall>c \<in> set (fst (long_opts ! i)). c \<noteq> equals_sign" using i by (simp add: list_all_iff)
  then have "\<forall>c \<in> set (take n (fst (long_opts ! i))). c \<noteq> equals_sign" by (meson in_set_takeD)
  then show "takeWhile (\<lambda>c. c \<noteq> equals_sign) (take n (fst (long_opts ! i)) @ rest)
      = take n (fst (long_opts ! i)) @ takeWhile (\<lambda>c. c \<noteq> equals_sign) rest"
    "dropWhile (\<lambda>c. c \<noteq> equals_sign) (take n (fst (long_opts ! i)) @ rest) = dropWhile (\<lambda>c. c \<noteq> equals_sign) rest"
    by (simp_all add: takeWhile_append2 dropWhile_append2)
qed

section \<open>Command lines of the first program\<close>

text \<open>
  What can be written: the long options by an initial part of their names, with the argument
  behind an equals sign or in the next place; the short ones, with any number of \<open>v\<close> in front;
  and operands.
\<close>

datatype item =
  Init nat
| Clean nat
| Output nat string
| Output_next nat string
| Verbose nat string
| Verbose_next nat string
| V_flags nat
| V_output nat string
| V_output_next nat string
| Operand string

fun spell :: "item \<Rightarrow> string list" where
  "spell (Init n) = [''--'' @ take n ''init'']"
| "spell (Clean n) = [''--'' @ take n ''clean'']"
| "spell (Output n f) = [''--'' @ take n ''output'' @ ''='' @ f]"
| "spell (Output_next n f) = [''--'' @ take n ''output'', f]"
| "spell (Verbose n x) = [''--'' @ take n ''verbose'' @ ''='' @ x]"
| "spell (Verbose_next n x) = [''--'' @ take n ''verbose'', x]"
| "spell (V_flags n) = [''-'' @ replicate n CHR ''v'']"
| "spell (V_output n f) = [''-'' @ replicate n CHR ''v'' @ ''o'' @ f]"
| "spell (V_output_next n f) = [''-'' @ replicate n CHR ''v'' @ ''o'', f]"
| "spell (Operand a) = [a]"

fun spelling_ok :: "item \<Rightarrow> bool" where
  "spelling_ok (V_output n f) \<longleftrightarrow> f \<noteq> []"
| "spelling_ok (V_output_next n f) \<longleftrightarrow> True"
| "spelling_ok (Operand a) \<longleftrightarrow> is_operand a"
| "spelling_ok (Init n) \<longleftrightarrow> 0 < n"
| "spelling_ok (Clean n) \<longleftrightarrow> 0 < n"
| "spelling_ok (Output n f) \<longleftrightarrow> 0 < n"
| "spelling_ok (Output_next n f) \<longleftrightarrow> 0 < n"
| "spelling_ok (Verbose n x) \<longleftrightarrow> 0 < n"
| "spelling_ok (Verbose_next n x) \<longleftrightarrow> 0 < n"
| "spelling_ok (V_flags n) \<longleftrightarrow> 0 < n"

definition be_verbose :: "nat \<Rightarrow> cmd_paras \<Rightarrow> cmd_paras" where
  "be_verbose n p = (if 0 < n then p\<lparr>verbose := 1\<rparr> else p)"

fun effect :: "item \<Rightarrow> cmd_paras \<Rightarrow> cmd_paras" where
  "effect (Init n) p = p\<lparr>en_init := 1\<rparr>"
| "effect (Clean n) p = p\<lparr>en_clean := 1\<rparr>"
| "effect (Output n f) p = p\<lparr>output_file := Some f\<rparr>"
| "effect (Output_next n f) p = p\<lparr>output_file := Some f\<rparr>"
| "effect (Verbose n x) p = p\<lparr>verbose := 1\<rparr>"
| "effect (Verbose_next n x) p = p\<lparr>verbose := 1\<rparr>"
| "effect (V_flags n) p = be_verbose n p"
| "effect (V_output n f) p = (be_verbose n p)\<lparr>output_file := Some f\<rparr>"
| "effect (V_output_next n f) p = (be_verbose n p)\<lparr>output_file := Some f\<rparr>"
| "effect (Operand a) p = p"

fun operand_of :: "item \<Rightarrow> string list" where
  "operand_of (Operand a) = [a]"
| "operand_of _ = []"

text \<open>The loop takes one step for one call.\<close>

lemma loop_steps:
  "getopt_long ''ho:v'' (Some long_opts) g = (Some (CHR ''v''), g') \<Longrightarrow>
     proc_paras_loop p g = proc_paras_loop (p\<lparr>verbose := 1\<rparr>) g'"
  "getopt_long ''ho:v'' (Some long_opts) g = (Some (CHR ''o''), g') \<Longrightarrow>
     proc_paras_loop p g = proc_paras_loop (p\<lparr>output_file := optarg g'\<rparr>) g'"
  "getopt_long ''ho:v'' (Some long_opts) g = (Some (CHR 0x00), g') \<Longrightarrow> long_idx g' = Suc 0 \<Longrightarrow>
     proc_paras_loop p g = proc_paras_loop (p\<lparr>en_init := 1\<rparr>) g'"
  "getopt_long ''ho:v'' (Some long_opts) g = (Some (CHR 0x00), g') \<Longrightarrow> long_idx g' = 2 \<Longrightarrow>
     proc_paras_loop p g = proc_paras_loop (p\<lparr>en_clean := 1\<rparr>) g'"
  "fst (getopt_long ''ho:v'' (Some long_opts) g) = Some (CHR ''?'') \<Longrightarrow> proc_paras_loop p g = Usage Stderr 1"
  "fst (getopt_long ''ho:v'' (Some long_opts) g) = Some (CHR ''h'') \<Longrightarrow> proc_paras_loop p g = Usage Stdout 0"
  "getopt_long ''ho:v'' (Some long_opts) g = (None, g') \<Longrightarrow> proc_paras_loop p g = Returns (p, g')"
  by (subst proc_paras_loop.simps; auto simp: long_opts_def split: prod.splits)+

lemma loop_same:
  "getopt_long ''ho:v'' (Some long_opts) g = getopt_long ''ho:v'' (Some long_opts) g' \<Longrightarrow>
     proc_paras_loop p g = proc_paras_loop p g'"
  by (subst (1 2) proc_paras_loop.simps) simp

lemma specs:
  "short_spec ''ho:v'' CHR ''v'' = Some No_argument" "short_spec ''ho:v'' CHR ''h'' = Some No_argument"
  "short_spec ''ho:v'' CHR ''o'' = Some Required_argument"
  by simp_all

lemma flags_taken:
  "inside (replicate n CHR ''v'' @ cs) ps as g \<Longrightarrow>
     \<exists>g'. inside cs ps as g' \<and> proc_paras_loop p g = proc_paras_loop (be_verbose n p) g'"
proof (induction n arbitrary: g p)
  case 0
  then show ?case by (auto simp: be_verbose_def)
next
  case (Suc n)
  then obtain g1 where g1: "inside (replicate n CHR ''v'' @ cs) ps as g1"
    "getopt_long ''ho:v'' (Some long_opts) g = (Some (CHR ''v''), g1)"
    using short_flag [OF _ specs(1)] by fastforce
  from Suc.IH [OF g1(1)] obtain g2 where "inside cs ps as g2"
    "proc_paras_loop (p\<lparr>verbose := 1\<rparr>) g1 = proc_paras_loop (be_verbose n (p\<lparr>verbose := 1\<rparr>)) g2" by blast
  moreover have "be_verbose n (p\<lparr>verbose := 1\<rparr>) = be_verbose (Suc n) p" by (simp add: be_verbose_def)
  ultimately show ?case using loop_steps(1) [OF g1(2)] by metis
qed

lemma cluster_taken:
  assumes "inside [] ps ((''-'' @ replicate n CHR ''v'' @ cs) # as) g" "0 < n \<or> cs \<noteq> []" "cs \<noteq> [] \<longrightarrow> hd cs \<noteq> CHR ''-''"
  shows "\<exists>g'. inside cs ps as g' \<and> proc_paras_loop p g = proc_paras_loop (be_verbose n p) g'"
proof -
  let ?cs = "replicate n CHR ''v'' @ cs"
  have start: "?cs \<noteq> []" "hd ?cs \<noteq> CHR ''-''" using assms(2,3) by (cases n; simp)+
  have "inside [] ps ((CHR ''-'' # ?cs) # as) g" using assms(1) by simp
  from cluster_entered [OF this start(1), of "Some long_opts" "''ho:v''"] start(2) obtain g1
    where g1: "inside ?cs ps as g1" "getopt_long ''ho:v'' (Some long_opts) g = getopt_long ''ho:v'' (Some long_opts) g1"
    by blast
  from flags_taken [OF g1(1), of p] loop_same [OF g1(2), of p] show ?thesis by simp
qed

text \<open>The call for a long option, by its place in the table.\<close>

lemma long_taken:
  assumes "inside [] ps ((''--'' @ take n (fst (long_opts ! i)) @ given) # as) g" "i < 5" "0 < n"
    and "given = [] \<or> hd given = equals_sign"
  shows "\<exists>g'. inside [] ps as g' \<and> getopt_long optstring (Some long_opts) g = map_prod Some id
    (case long_opts ! i of (name, spec, val) \<Rightarrow>
       if given \<noteq> []
       then if spec = Required_argument then (val, g'\<lparr>optarg := Some (tl given), long_idx := i\<rparr>) else (CHR ''?'', g')
       else if spec = Required_argument
       then case as of [] \<Rightarrow> (CHR ''?'', g')
            | a # rest \<Rightarrow> (val, g'\<lparr>unscanned := rest, optarg := Some a, long_idx := i\<rparr>)
       else (val, g'\<lparr>long_idx := i\<rparr>))"
proof -
  let ?body = "take n (fst (long_opts ! i)) @ given"
  have "\<forall>i \<in> set [0..<5]. fst (long_opts ! i) \<noteq> []" by code_simp
  then have "?body \<noteq> []" using assms(2,3) by simp
  with long_called [OF assms(1)] obtain g' where g': "inside [] ps as g'"
    "getopt_long optstring (Some long_opts) g = map_prod Some id (long_option long_opts ?body g')" by blast
  have un: "as = unscanned g'" using g'(1) by (simp add: inside_def)
  have "takeWhile (\<lambda>c. c \<noteq> equals_sign) given = []" "dropWhile (\<lambda>c. c \<noteq> equals_sign) given = given"
    using assms(4) by (cases given; auto)+
  then have "long_option long_opts ?body g' = (case long_opts ! i of (name, spec, val) \<Rightarrow>
       if given \<noteq> []
       then if spec = Required_argument then (val, g'\<lparr>optarg := Some (tl given), long_idx := i\<rparr>) else (CHR ''?'', g')
       else if spec = Required_argument
       then case as of [] \<Rightarrow> (CHR ''?'', g')
            | a # rest \<Rightarrow> (val, g'\<lparr>unscanned := rest, optarg := Some a, long_idx := i\<rparr>)
       else (val, g'\<lparr>long_idx := i\<rparr>))"
    unfolding un by (simp add: long_option_def names_plain [OF assms(2)] long_find_opts [OF assms(2,3)])
  from g'(2) [unfolded this] show ?thesis by (intro exI [of _ g'] conjI g'(1))
qed

lemma table:
  "long_opts ! 0 = (''help'', No_argument, CHR ''h'')" "long_opts ! Suc 0 = (''init'', No_argument, CHR 0x00)"
  "long_opts ! 2 = (''clean'', No_argument, CHR 0x00)" "long_opts ! 3 = (''output'', Required_argument, CHR ''o'')"
  "long_opts ! 4 = (''verbose'', Required_argument, CHR ''v'')"
  by (simp_all add: long_opts_def)

text \<open>One item: what it does to the parameters, and the operand it leaves.\<close>

lemma item_taken:
  assumes "inside [] ps (spell x @ as) g" "spelling_ok x"
  shows "\<exists>g'. inside [] (ps @ operand_of x) as g' \<and> proc_paras_loop p g = proc_paras_loop (effect x p) g'"
proof (cases x)
  case (Init n)
  then obtain g' where "inside [] ps as g'"
    "getopt_long ''ho:v'' (Some long_opts) g = (Some (CHR 0x00), g'\<lparr>long_idx := Suc 0\<rparr>)"
    using long_taken [of ps n 1 "[]" as g] assms by (auto simp: table)
  from this(1) loop_steps(3) [OF this(2)] show ?thesis
    by (intro exI [of _ "g'\<lparr>long_idx := Suc 0\<rparr>"]) (simp add: Init inside_def)
next
  case (Clean n)
  then obtain g' where "inside [] ps as g'"
    "getopt_long ''ho:v'' (Some long_opts) g = (Some (CHR 0x00), g'\<lparr>long_idx := 2\<rparr>)"
    using long_taken [of ps n 2 "[]" as g] assms by (auto simp: table)
  from this(1) loop_steps(4) [OF this(2)] show ?thesis
    by (intro exI [of _ "g'\<lparr>long_idx := 2\<rparr>"]) (simp add: Clean inside_def)
next
  case (Output n f)
  then obtain g' where "inside [] ps as g'"
    "getopt_long ''ho:v'' (Some long_opts) g = (Some (CHR ''o''), g'\<lparr>optarg := Some f, long_idx := 3\<rparr>)"
    using long_taken [of ps n 3 "''='' @ f" as g] assms by (auto simp: table)
  from this(1) loop_steps(2) [OF this(2)] show ?thesis
    by (intro exI [of _ "g'\<lparr>optarg := Some f, long_idx := 3\<rparr>"]) (simp add: Output inside_def)
next
  case (Output_next n f)
  then obtain g' where "inside [] ps (f # as) g'"
    "getopt_long ''ho:v'' (Some long_opts) g = (Some (CHR ''o''), g'\<lparr>unscanned := as, optarg := Some f, long_idx := 3\<rparr>)"
    using long_taken [of ps n 3 "[]" "f # as" g] assms by (auto simp: table)
  from this(1) loop_steps(2) [OF this(2)] show ?thesis
    by (intro exI [of _ "g'\<lparr>unscanned := as, optarg := Some f, long_idx := 3\<rparr>"]) (simp add: Output_next inside_def)
next
  case (Verbose n y)
  then obtain g' where "inside [] ps as g'"
    "getopt_long ''ho:v'' (Some long_opts) g = (Some (CHR ''v''), g'\<lparr>optarg := Some y, long_idx := 4\<rparr>)"
    using long_taken [of ps n 4 "''='' @ y" as g] assms by (auto simp: table)
  from this(1) loop_steps(1) [OF this(2)] show ?thesis
    by (intro exI [of _ "g'\<lparr>optarg := Some y, long_idx := 4\<rparr>"]) (simp add: Verbose inside_def)
next
  case (Verbose_next n y)
  then obtain g' where "inside [] ps (y # as) g'"
    "getopt_long ''ho:v'' (Some long_opts) g = (Some (CHR ''v''), g'\<lparr>unscanned := as, optarg := Some y, long_idx := 4\<rparr>)"
    using long_taken [of ps n 4 "[]" "y # as" g] assms by (auto simp: table)
  from this(1) loop_steps(1) [OF this(2)] show ?thesis
    by (intro exI [of _ "g'\<lparr>unscanned := as, optarg := Some y, long_idx := 4\<rparr>"]) (simp add: Verbose_next inside_def)
next
  case (V_flags n)
  then show ?thesis using cluster_taken [of ps n "[]" as g p] assms by auto
next
  case (V_output n f)
  then obtain g1 where g1: "inside (CHR ''o'' # f) ps as g1" "proc_paras_loop p g = proc_paras_loop (be_verbose n p) g1"
    using cluster_taken [of ps n "CHR ''o'' # f" as g p] assms by auto
  from short_attached [OF g1(1) specs(3)] assms(2) V_output obtain g2 where "inside [] ps as g2" "optarg g2 = Some f"
    "getopt_long ''ho:v'' (Some long_opts) g1 = (Some (CHR ''o''), g2)" by fastforce
  with g1(2) loop_steps(2) [OF this(3), of "be_verbose n p"] show ?thesis by (auto simp: V_output)
next
  case (V_output_next n f)
  then obtain g1 where g1: "inside [CHR ''o''] ps (f # as) g1" "proc_paras_loop p g = proc_paras_loop (be_verbose n p) g1"
    using cluster_taken [of ps n "[CHR ''o'']" "f # as" g p] assms by auto
  from short_next [OF g1(1) specs(3)] obtain g2 where "inside [] ps as g2" "optarg g2 = Some f"
    "getopt_long ''ho:v'' (Some long_opts) g1 = (Some (CHR ''o''), g2)" by blast
  with g1(2) loop_steps(2) [OF this(3), of "be_verbose n p"] show ?thesis by (auto simp: V_output_next)
next
  case (Operand a)
  then obtain g' where "inside [] (ps @ [a]) as g'"
    "getopt_long ''ho:v'' (Some long_opts) g = getopt_long ''ho:v'' (Some long_opts) g'"
    using operand_passed [of ps a as g] assms by auto
  with loop_same [OF this(2)] show ?thesis by (auto simp: Operand)
qed

lemma items_taken:
  "inside [] ps (concat (map spell xs) @ as) g \<Longrightarrow> \<forall>x \<in> set xs. spelling_ok x \<Longrightarrow>
     \<exists>g'. inside [] (ps @ concat (map operand_of xs)) as g'
       \<and> proc_paras_loop p g = proc_paras_loop (fold effect xs p) g'"
proof (induction xs arbitrary: ps g p)
  case Nil
  then show ?case by auto
next
  case (Cons x xs)
  from item_taken [of ps x "concat (map spell xs) @ as" g p] Cons.prems obtain g1
    where g1: "inside [] (ps @ operand_of x) (concat (map spell xs) @ as) g1"
      "proc_paras_loop p g = proc_paras_loop (effect x p) g1" by auto
  from Cons.IH [OF g1(1), of "effect x p"] Cons.prems(2) g1(2) show ?case by auto
qed

section \<open>Command lines that end with the usage\<close>

text \<open>
  An unknown short option behind some \<open>v\<close>, a short or long option without its argument (at the
  end of the line), an unknown long option, an argument for an option that has none, and the
  two ways to ask for help.
\<close>

datatype trouble =
  Unknown_short nat char string
| Missing_short nat
| Unknown_long string
| Not_wanted nat nat string
| Missing_long nat nat
| Help_short nat string
| Help_long nat

fun spell_trouble :: "trouble \<Rightarrow> string list" where
  "spell_trouble (Unknown_short n c cs) = [''-'' @ replicate n CHR ''v'' @ c # cs]"
| "spell_trouble (Missing_short n) = [''-'' @ replicate n CHR ''v'' @ ''o'']"
| "spell_trouble (Unknown_long body) = [''--'' @ body]"
| "spell_trouble (Not_wanted i n x) = [''--'' @ take n (fst (long_opts ! i)) @ ''='' @ x]"
| "spell_trouble (Missing_long i n) = [''--'' @ take n (fst (long_opts ! i))]"
| "spell_trouble (Help_short n cs) = [''-'' @ replicate n CHR ''v'' @ ''h'' @ cs]"
| "spell_trouble (Help_long n) = [''--'' @ take n ''help'']"

definition names_none :: "string \<Rightarrow> bool" where
  "names_none body \<longleftrightarrow> list_all (\<lambda>opt. \<not> prefix (takeWhile (\<lambda>c. c \<noteq> equals_sign) body) (fst opt)) long_opts"

fun trouble_ok :: "trouble \<Rightarrow> bool" where
  "trouble_ok (Unknown_short n c cs) \<longleftrightarrow> c \<notin> set ''hov-''"
| "trouble_ok (Unknown_long body) \<longleftrightarrow> names_none body"
| "trouble_ok (Not_wanted i n x) \<longleftrightarrow> i < 3 \<and> 0 < n"
| "trouble_ok (Missing_long i n) \<longleftrightarrow> (i = 3 \<or> i = 4) \<and> 0 < n"
| "trouble_ok (Help_long n) \<longleftrightarrow> 0 < n"
| "trouble_ok _ \<longleftrightarrow> True"

fun at_end :: "trouble \<Rightarrow> bool" where
  "at_end (Missing_short n) \<longleftrightarrow> True"
| "at_end (Missing_long i n) \<longleftrightarrow> True"
| "at_end _ \<longleftrightarrow> False"

fun usage_of :: "trouble \<Rightarrow> 'a ends" where
  "usage_of (Help_short n cs) = Usage Stdout 0"
| "usage_of (Help_long n) = Usage Stdout 0"
| "usage_of _ = Usage Stderr 1"

lemma find_none: "names_none body \<Longrightarrow> long_find long_opts (takeWhile (\<lambda>c. c \<noteq> equals_sign) body) = None \<and> body \<noteq> []"
proof -
  assume n: "names_none body"
  let ?name = "takeWhile (\<lambda>c. c \<noteq> equals_sign) body"
  have "\<not> prefix ?name (fst (long_opts ! i))" if "i < length long_opts" for i
    using n that by (simp add: names_none_def list_all_length)
  then have "filter (\<lambda>i. prefix ?name (fst (long_opts ! i))) [0..<length long_opts] = []"
    "filter (\<lambda>i. fst (long_opts ! i) = ?name) [0..<length long_opts] = []"
    by (auto simp: filter_empty_conv) (metis prefix_order.order_refl)
  moreover have "body \<noteq> []" using n by (auto simp: names_none_def long_opts_def)
  ultimately show ?thesis by (simp add: long_find_def)
qed

lemma trouble_ends:
  assumes "inside [] ps (spell_trouble u @ as) g" "trouble_ok u" "at_end u \<longrightarrow> as = []"
  shows "proc_paras_loop p g = usage_of u"
proof (cases u)
  case (Unknown_short n c cs)
  then obtain g1 where g1: "inside (c # cs) ps as g1" "proc_paras_loop p g = proc_paras_loop (be_verbose n p) g1"
    using cluster_taken [of ps n "c # cs" as g p] assms by auto
  have "short_spec ''ho:v'' c = None" using assms(2) Unknown_short by auto
  from loop_steps(5) [OF short_unknown [OF g1(1) this]] g1(2) show ?thesis by (simp add: Unknown_short)
next
  case (Missing_short n)
  then obtain g1 where g1: "inside [CHR ''o''] ps [] g1" "proc_paras_loop p g = proc_paras_loop (be_verbose n p) g1"
    using cluster_taken [of ps n "[CHR ''o'']" as g p] assms by auto
  from loop_steps(5) [OF short_missing [OF g1(1) specs(3)]] g1(2) show ?thesis by (simp add: Missing_short)
next
  case (Unknown_long body)
  then have "long_find long_opts (takeWhile (\<lambda>c. c \<noteq> equals_sign) body) = None" "body \<noteq> []"
    using find_none assms(2) by simp_all
  with long_called [of ps body as g "''ho:v''" long_opts] assms(1) Unknown_long
  have "fst (getopt_long ''ho:v'' (Some long_opts) g) = Some (CHR ''?'')" by (auto simp: long_option_def)
  from loop_steps(5) [OF this] show ?thesis by (simp add: Unknown_long)
next
  case (Not_wanted i n x)
  then have i: "i < 5" "0 < n" using assms(2) by simp_all
  have "i = 0 \<or> i = Suc 0 \<or> i = 2" using assms(2) Not_wanted by auto
  then have "fst (snd (long_opts ! i)) = No_argument" using table by auto
  then obtain g' where "getopt_long ''ho:v'' (Some long_opts) g = (Some (CHR ''?''), g')"
    using long_taken [OF _ i, of ps "''='' @ x" as g "''ho:v''"] assms(1) Not_wanted by (cases "long_opts ! i") auto
  then show ?thesis using loop_steps(5) [of g p] by (simp add: Not_wanted)
next
  case (Missing_long i n)
  then have i: "i < 5" "0 < n" using assms(2) by auto
  have "fst (snd (long_opts ! i)) = Required_argument" using assms(2) Missing_long table by auto
  then obtain g' where "getopt_long ''ho:v'' (Some long_opts) g = (Some (CHR ''?''), g')"
    using long_taken [OF _ i, of ps "[]" "[]" g "''ho:v''"] assms(1,3) Missing_long by (cases "long_opts ! i") auto
  then show ?thesis using loop_steps(5) [of g p] by (simp add: Missing_long)
next
  case (Help_short n cs)
  then obtain g1 where g1: "inside (CHR ''h'' # cs) ps as g1" "proc_paras_loop p g = proc_paras_loop (be_verbose n p) g1"
    using cluster_taken [of ps n "CHR ''h'' # cs" as g p] assms by auto
  from short_flag [OF g1(1) specs(2), of "Some long_opts"] have "fst (getopt_long ''ho:v'' (Some long_opts) g1) = Some (CHR ''h'')" by fastforce
  from loop_steps(6) [OF this] g1(2) show ?thesis by (simp add: Help_short)
next
  case (Help_long n)
  then obtain g' where "getopt_long ''ho:v'' (Some long_opts) g = (Some (CHR ''h''), g')"
    using long_taken [of ps n 0 "[]" as g "''ho:v''"] assms by (auto simp: table)
  then show ?thesis using loop_steps(6) [of g p] by (simp add: Help_long)
qed

section \<open>Command lines of the second program\<close>

text \<open>A number as it is printed, which \<open>atoi\<close> reads.\<close>

lemma atoi_printed: "- (2 ^ 31) \<le> v \<Longrightarrow> v < 2 ^ 31 \<Longrightarrow> atoi (print_int v) = Some v"
  using atoi_print_int [of v "[]"] by simp

lemma print_int_nonempty: "print_int v \<noteq> []"
  by (simp add: print_int_def)

datatype s_item = Version int | Version_next int | Name string | Name_next string | Plain string

fun s_spell :: "s_item \<Rightarrow> string list" where
  "s_spell (Version v) = [''-v'' @ print_int v]"
| "s_spell (Version_next v) = [''-v'', print_int v]"
| "s_spell (Name f) = [''-o'' @ f]"
| "s_spell (Name_next f) = [''-o'', f]"
| "s_spell (Plain a) = [a]"

fun s_ok :: "s_item \<Rightarrow> bool" where
  "s_ok (Version v) \<longleftrightarrow> - (2 ^ 31) \<le> v \<and> v < 2 ^ 31"
| "s_ok (Version_next v) \<longleftrightarrow> - (2 ^ 31) \<le> v \<and> v < 2 ^ 31"
| "s_ok (Name f) \<longleftrightarrow> f \<noteq> []"
| "s_ok (Name_next f) \<longleftrightarrow> True"
| "s_ok (Plain a) \<longleftrightarrow> is_operand a"

fun s_effect :: "s_item \<Rightarrow> cmdParas \<Rightarrow> cmdParas" where
  "s_effect (Version v) p = p\<lparr>ver := v\<rparr>"
| "s_effect (Version_next v) p = p\<lparr>ver := v\<rparr>"
| "s_effect (Name f) p = p\<lparr>output_fname := Some f\<rparr>"
| "s_effect (Name_next f) p = p\<lparr>output_fname := Some f\<rparr>"
| "s_effect (Plain a) p = p"

lemma s_loop_steps:
  "getopt_long ''hv:o:'' None g = (Some (CHR ''v''), g') \<Longrightarrow> optarg g' = Some (print_int v) \<Longrightarrow>
     - (2 ^ 31) \<le> v \<Longrightarrow> v < 2 ^ 31 \<Longrightarrow> proc_short_loop p g = proc_short_loop (p\<lparr>ver := v\<rparr>) g'"
  "getopt_long ''hv:o:'' None g = (Some (CHR ''o''), g') \<Longrightarrow>
     proc_short_loop p g = proc_short_loop (p\<lparr>output_fname := optarg g'\<rparr>) g'"
  "getopt_long ''hv:o:'' None g = (None, g') \<Longrightarrow> proc_short_loop p g = Some (Returns p)"
  by (subst proc_short_loop.simps; simp add: atoi_printed)+

lemma s_loop_same:
  "getopt_long ''hv:o:'' None g = getopt_long ''hv:o:'' None g' \<Longrightarrow> proc_short_loop p g = proc_short_loop p g'"
  by (subst (1 2) proc_short_loop.simps) simp

lemma s_specs:
  "short_spec ''hv:o:'' CHR ''v'' = Some Required_argument" "short_spec ''hv:o:'' CHR ''o'' = Some Required_argument"
  by simp_all

lemma s_option_taken:
  assumes "inside [] ps ((''-'' @ c # cs) # as) g" "short_spec ''hv:o:'' c = Some Required_argument" "c \<noteq> CHR ''-''"
  shows "cs \<noteq> [] \<Longrightarrow> \<exists>g'. inside [] ps as g' \<and> optarg g' = Some cs \<and> getopt_long ''hv:o:'' None g = (Some c, g')"
    "cs = [] \<Longrightarrow> as = a # rest \<Longrightarrow> \<exists>g'. inside [] ps rest g' \<and> optarg g' = Some a
      \<and> getopt_long ''hv:o:'' None g = (Some c, g')"
proof -
  obtain g1 where g1: "inside (c # cs) ps as g1" "getopt_long ''hv:o:'' None g = getopt_long ''hv:o:'' None g1"
    using cluster_entered [of ps "c # cs" as g None] assms(1,3) by auto
  show "\<exists>g'. inside [] ps as g' \<and> optarg g' = Some cs \<and> getopt_long ''hv:o:'' None g = (Some c, g')" if "cs \<noteq> []"
    using short_attached [OF g1(1) assms(2) that, of None] unfolding g1(2) .
  show "\<exists>g'. inside [] ps rest g' \<and> optarg g' = Some a \<and> getopt_long ''hv:o:'' None g = (Some c, g')"
    if "cs = []" "as = a # rest"
    using short_next [OF g1(1) [unfolded that] assms(2), of None] unfolding g1(2) .
qed

lemma s_item_taken:
  assumes "inside [] ps (s_spell x @ as) g" "s_ok x"
  shows "\<exists>ps' g'. inside [] ps' as g' \<and> proc_short_loop p g = proc_short_loop (s_effect x p) g'"
proof (cases x)
  case (Version v)
  then have "inside [] ps ((''-'' @ CHR ''v'' # print_int v) # as) g" using assms(1) by simp
  from s_option_taken(1) [OF this s_specs(1) _ print_int_nonempty]
  obtain g' where "inside [] ps as g'" "optarg g' = Some (print_int v)" "getopt_long ''hv:o:'' None g = (Some CHR ''v'', g')"
    by auto
  then show ?thesis using s_loop_steps(1) [of g g' v p] assms(2) Version by auto
next
  case (Version_next v)
  then have "inside [] ps ((''-'' @ CHR ''v'' # []) # print_int v # as) g" using assms(1) by simp
  from s_option_taken(2) [OF this s_specs(1) _ refl refl]
  obtain g' where "inside [] ps as g'" "optarg g' = Some (print_int v)" "getopt_long ''hv:o:'' None g = (Some CHR ''v'', g')"
    by auto
  then show ?thesis using s_loop_steps(1) [of g g' v p] assms(2) Version_next by auto
next
  case (Name f)
  then have f: "inside [] ps ((''-'' @ CHR ''o'' # f) # as) g" "f \<noteq> []" using assms by simp_all
  from s_option_taken(1) [OF f(1) s_specs(2) _ f(2)]
  obtain g' where "inside [] ps as g'" "optarg g' = Some f" "getopt_long ''hv:o:'' None g = (Some CHR ''o'', g')" by auto
  then show ?thesis using s_loop_steps(2) [of g g' p] Name by auto
next
  case (Name_next f)
  then have "inside [] ps ((''-'' @ CHR ''o'' # []) # f # as) g" using assms(1) by simp
  from s_option_taken(2) [OF this s_specs(2) _ refl refl]
  obtain g' where "inside [] ps as g'" "optarg g' = Some f" "getopt_long ''hv:o:'' None g = (Some CHR ''o'', g')" by auto
  then show ?thesis using s_loop_steps(2) [of g g' p] Name_next by auto
next
  case (Plain a)
  then obtain g' where "inside [] (ps @ [a]) as g'" "getopt_long ''hv:o:'' None g = getopt_long ''hv:o:'' None g'"
    using operand_passed [of ps a as g "''hv:o:''" None] assms by auto
  then show ?thesis using s_loop_same [of g g' p] Plain by auto
qed

lemma s_items_taken:
  "inside [] ps (concat (map s_spell xs)) g \<Longrightarrow> \<forall>x \<in> set xs. s_ok x \<Longrightarrow>
     proc_short_loop p g = Some (Returns (fold s_effect xs p))"
proof (induction xs arbitrary: ps g p)
  case Nil
  then have "\<exists>g'. getopt_long ''hv:o:'' None g = (None, g')" using scan_ends [of ps "[]" g "[]" "''hv:o:''" None] by auto
  then show ?case using s_loop_steps(3) by auto
next
  case (Cons x xs)
  from s_item_taken [of ps x "concat (map s_spell xs)" g p] Cons.prems obtain ps' g'
    where "inside [] ps' (concat (map s_spell xs)) g'" "proc_short_loop p g = proc_short_loop (s_effect x p) g'" by auto
  with Cons.IH [OF this(1), of "s_effect x p"] Cons.prems(2) show ?case by simp
qed

section \<open>Properties\<close>

lemma items_parsed:
  assumes "\<forall>x \<in> set xs. spelling_ok x" and "tail = [] \<or> tail = ''--'' # rest"
  shows "getopt_long_main (concat (map spell xs) @ tail) =
    (let p = fold effect xs \<lparr>en_init = 0, en_clean = 0, output_file = None, verbose = 0\<rparr>
     in case output_file p of
          None \<Rightarrow> Usage Stderr 1
        | Some name \<Rightarrow> Returns (Shown (en_init p) (en_clean p) name
            (if verbose p \<noteq> 0 then concat (map operand_of xs) @ tl tail else [])))"
proof -
  let ?p = "\<lparr>en_init = 0, en_clean = 0, output_file = None, verbose = 0\<rparr>"
  obtain g1 where g1: "inside [] (concat (map operand_of xs)) tail g1"
    "proc_paras_loop ?p (getopt_start (concat (map spell xs) @ tail)) = proc_paras_loop (fold effect xs ?p) g1"
    using items_taken [OF inside_start assms(1), of tail ?p] by auto
  obtain g2 where g2: "getopt_long ''ho:v'' (Some long_opts) g1 = (None, g2)"
    "operands g2 = concat (map operand_of xs) @ tl tail"
    using scan_ends [OF g1(1) assms(2), of "''ho:v''" "Some long_opts"] by blast
  show ?thesis
    using g1(2) loop_steps(7) [OF g2(1), of "fold effect xs ?p"] g2(2)
    by (simp add: getopt_long_main_def proc_paras_long_def Let_def split: option.split)
qed

lemma trouble_rejected:
  assumes "\<forall>x \<in> set xs. spelling_ok x" and "trouble_ok u" and "at_end u \<longrightarrow> as = []"
  shows "getopt_long_main (concat (map spell xs) @ spell_trouble u @ as) = usage_of u"
proof -
  let ?p = "\<lparr>en_init = 0, en_clean = 0, output_file = None, verbose = 0\<rparr>"
  obtain g1 where g1: "inside [] (concat (map operand_of xs)) (spell_trouble u @ as) g1"
    "proc_paras_loop ?p (getopt_start (concat (map spell xs) @ spell_trouble u @ as)) = proc_paras_loop (fold effect xs ?p) g1"
    using items_taken [OF inside_start assms(1), of "spell_trouble u @ as" ?p] by auto
  then have "proc_paras_loop ?p (getopt_start (concat (map spell xs) @ spell_trouble u @ as)) = usage_of u"
    using trouble_ends [OF g1(1) assms(2,3)] by simp
  then show ?thesis by (cases u) (simp_all add: getopt_long_main_def proc_paras_long_def)
qed

text \<open>
  Any mixture of options, in any spelling, and operands is parsed as if the options came
  first, one after the other, and the operands behind them: the last output file counts,
  flags once set stay set, and the operands, those behind \<open>--\<close> included, keep their order;
  without an output file the usage is printed.  At the first mistake (an option that is not known,
  an argument that is missing or not wanted) or request for help the program prints the usage
  and ends, whatever follows.  So \<open>--verbose\<close> at the end of the line is a mistake, as its entry in the
  table wants an argument, though \<open>-v\<close> has none.
\<close>

theorem getopt_long_parses:
  assumes "\<forall>x \<in> set xs. spelling_ok x" and "tail = [] \<or> tail = ''--'' # rest"
    and "trouble_ok u" and "at_end u \<longrightarrow> as = []"
  shows "getopt_long_main (concat (map spell xs) @ tail) =
    (let p = fold effect xs \<lparr>en_init = 0, en_clean = 0, output_file = None, verbose = 0\<rparr>
     in case output_file p of
          None \<Rightarrow> Usage Stderr 1
        | Some name \<Rightarrow> Returns (Shown (en_init p) (en_clean p) name
            (if verbose p \<noteq> 0 then concat (map operand_of xs) @ tl tail else [])))
    \<and> getopt_long_main (concat (map spell xs) @ spell_trouble u @ as) = usage_of u"
  using items_parsed [OF assms(1,2)] trouble_rejected [OF assms(1,3,4)] by blast

text \<open>
  \<open>getopt.c\<close> gives back the last version number and the last file name of its command line,
  however the options and operands are mixed and the arguments attached; without a file name
  it prints a null pointer, which is undefined.
\<close>

theorem getopt_roundtrip:
  assumes "\<forall>x \<in> set xs. s_ok x"
  shows "getopt_main (concat (map s_spell xs)) =
    (let p = fold s_effect xs \<lparr>ver = 0, output_fname = None\<rparr>
     in case output_fname p of None \<Rightarrow> None | Some name \<Rightarrow> Some (Returns (ver p, name)))"
  using s_items_taken [OF inside_start assms] by (simp add: getopt_main_def Let_def)

text \<open>
  C20: Both option programs.  In \<open>getopt_long.c\<close> any mixture of options, in any spelling, and operands is
  parsed as if the options came first, one after the other, and the operands behind them: the last
  output file counts, flags once set stay set, and the operands, those behind \<open>--\<close> included, keep
  their order; without an output file the usage is printed.  At the first mistake (an option that is
  not known, an argument that is missing or not wanted) or request for help it prints the usage
  and ends, whatever follows.  So \<open>--verbose\<close> at the end of the line is a mistake, as its entry in the
  table wants an argument, though \<open>-v\<close> has none.  \<open>getopt.c\<close> gives back the last version number and
  the last file name of its command line; without a file name it prints a null pointer.
\<close>

theorem command_lines_parsed:
  assumes "\<forall>x \<in> set xs. spelling_ok x" and "tail = [] \<or> tail = ''--'' # rest"
    and "trouble_ok u" and "at_end u \<longrightarrow> as = []" and "\<forall>x \<in> set ys. s_ok x"
  shows "(getopt_long_main (concat (map spell xs) @ tail) =
    (let p = fold effect xs \<lparr>en_init = 0, en_clean = 0, output_file = None, verbose = 0\<rparr>
     in case output_file p of
          None \<Rightarrow> Usage Stderr 1
        | Some name \<Rightarrow> Returns (Shown (en_init p) (en_clean p) name
            (if verbose p \<noteq> 0 then concat (map operand_of xs) @ tl tail else []))))
    \<and> (getopt_long_main (concat (map spell xs) @ spell_trouble u @ as) = usage_of u)
    \<and> (getopt_main (concat (map s_spell ys)) =
    (let p = fold s_effect ys \<lparr>ver = 0, output_fname = None\<rparr>
     in case output_fname p of None \<Rightarrow> None | Some name \<Rightarrow> Some (Returns (ver p, name))))"
  using getopt_long_parses [OF assms(1-4)] getopt_roundtrip [OF assms(5)] by blast

theorem command_lines_parsed_witness:
  "getopt_long_main [''in1'', ''--out=a'', ''-vv'', ''-'', ''--i'', ''-ob'', ''--'', ''-v''] =
     Returns (Shown 1 0 ''b'' [''in1'', ''-'', ''-v''])
   \<and> getopt_long_main [''in1'', ''--out=a'', ''-vv'', ''-'', ''--i'', ''-ob'', ''--verbose''] = Usage Stderr 1
   \<and> getopt_main [''-v'', print_int 12, ''in'', ''-omoutput.txt'', ''-v'' @ print_int (- 3)] = Some (Returns (- 3, ''moutput.txt''))"
proof -
  let ?xs = "[Operand ''in1'', Output 3 ''a'', V_flags 2, Operand ''-'', Init 1, V_output 0 ''b'']"
  let ?ys = "[Version_next 12, Plain ''in'', Name ''moutput.txt'', Version (- 3)]"
  have x: "\<forall>x \<in> set ?xs. spelling_ok x" and y: "\<forall>x \<in> set ?ys. s_ok x" by (simp_all add: is_operand_def)
  have s: "concat (map spell ?xs) = [''in1'', ''--out=a'', ''-vv'', ''-'', ''--i'', ''-ob'']" by code_simp
  have u: "trouble_ok (Missing_long 4 7)" "at_end (Missing_long 4 7) \<longrightarrow> [] = ([] :: string list)" by (simp_all add: table)
  note p = command_lines_parsed [OF x disjI2 [OF refl] u y]
  show ?thesis using p [of "[''-v'']"] s by (simp add: be_verbose_def table)
qed

end
