(* ===== verification/ThreadPool.thy ===== *)
theory ThreadPool
  imports PointerList
begin

text \<open>
  The thread pool of \<open>3.Thread/5.thread_pool/1.thread_pool.c\<close>: a linked list of tasks under a
  lock, threads that take tasks from it and wait on a condition variable when there are none, and
  a main thread that adds tasks and destroys the pool.  Every step of a thread between two points
  where another thread can see it is one action; the lock and the set of waiting threads are part
  of the state.
\<close>

section \<open>Data\<close>

text \<open>
  \<open>process\<close> and its argument are named by numbers; \<open>pool\<close> is the object \<open>CThread_pool\<close>, whose
  mutex holds the number of the thread that has it.
\<close>

record CThread_worker =
  process :: nat
  task_arg :: nat
  w_next :: ptr

record CThread_pool =
  queue_lock :: "nat option"
  queue_head :: ptr
  max_thread_num :: nat
  cur_queue_size :: int
  shutdown :: bool

text \<open>
  Where a thread is in \<open>thread_routine\<close>: about to lock, at the condition of the loop, about to
  wait, waiting, woken and about to lock again, behind the loop, running a task, or gone.
\<close>

datatype thread_pc =
  At_lock
| Checking
| Going_to_wait
| Sleeping_on_cond
| Woken
| Leaving
| Running nat
| Exited

text \<open>
  Where the main thread is: adding the tasks, about to signal after one, in \<open>sleep\<close>, then in the
  parts of \<open>pool_destroy\<close>.
\<close>

datatype main_pc =
  Adding "(nat \<times> nat) list"
| Signalling "(nat \<times> nat) list"
| In_sleep
| Broadcasting
| Joining nat
| Freeing
| Finished

text \<open>\<open>pool\<close> is \<open>NULL\<close> (\<open>None\<close>) before \<open>pool_init\<close> and after \<open>pool_destroy\<close>.\<close>

record tp_state =
  pool :: "CThread_pool option"
  nodes :: "nat \<rightharpoonup> CThread_worker"
  next_node :: nat
  threads :: "thread_pc list"
  main_at :: main_pc
  taken :: "(nat \<times> nat) list"

text \<open>An action is blocked, goes wrong (a failed \<open>assert\<close> or a bad pointer), or is done.\<close>

datatype 's outcome = Blocked | Fault | Done 's

section \<open>Operations\<close>

definition pool_init :: "nat \<Rightarrow> (nat \<times> nat) list \<Rightarrow> tp_state" where
  "pool_init n ts =
     \<lparr>pool = Some \<lparr>queue_lock = None, queue_head = None, max_thread_num = n, cur_queue_size = 0,
                   shutdown = False\<rparr>,
      nodes = Map.empty, next_node = 0, threads = replicate n At_lock, main_at = Adding ts, taken = []\<rparr>"

text \<open>The walk to the last node.\<close>

partial_function (option) last_member :: "(nat \<rightharpoonup> CThread_worker) \<Rightarrow> nat \<Rightarrow> nat option" where
  "last_member m p = Option.bind (m p)
     (\<lambda>w. case w_next w of None \<Rightarrow> Some p | Some q \<Rightarrow> last_member m q)"

text \<open>The critical section of \<open>pool_add_worker\<close>.\<close>

definition pool_add_worker :: "nat \<times> nat \<Rightarrow> CThread_pool \<Rightarrow> tp_state \<Rightarrow> tp_state option" where
  "pool_add_worker task p s = do {
     let new = next_node s;
     let m1 = (nodes s)(new \<mapsto> \<lparr>process = fst task, task_arg = snd task, w_next = None\<rparr>);
     (m2, head) \<leftarrow> (case queue_head p of
                     Some h \<Rightarrow> do {
                       l \<leftarrow> last_member (nodes s) h;
                       w \<leftarrow> m1 l;
                       Some (m1(l \<mapsto> w\<lparr>w_next := Some new\<rparr>), Some h)
                     }
                   | None \<Rightarrow> Some (m1, Some new));
     Some (s\<lparr>nodes := m2, next_node := new + 1,
             pool := Some (p\<lparr>queue_head := head, cur_queue_size := cur_queue_size p + 1\<rparr>)\<rparr>)
   }"

definition set_pc :: "nat \<Rightarrow> thread_pc \<Rightarrow> tp_state \<Rightarrow> tp_state" where
  "set_pc t pc s = s\<lparr>threads := (threads s)[t := pc]\<rparr>"

definition set_pool :: "CThread_pool \<Rightarrow> tp_state \<Rightarrow> tp_state" where
  "set_pool p s = s\<lparr>pool := Some p\<rparr>"

text \<open>The next action of thread \<open>t\<close> in \<open>thread_routine\<close>.\<close>

definition thread_routine :: "nat \<Rightarrow> tp_state \<Rightarrow> tp_state outcome" where
  "thread_routine t s =
     (case threads s ! t of
        Exited \<Rightarrow> Blocked
      | Sleeping_on_cond \<Rightarrow> Blocked
      | Running a \<Rightarrow>
          (case nodes s a of
             None \<Rightarrow> Fault
           | Some w \<Rightarrow> Done (set_pc t At_lock (s\<lparr>nodes := (nodes s)(a := None)\<rparr>)))
      | pc \<Rightarrow>
          (case pool s of
             None \<Rightarrow> Fault
           | Some p \<Rightarrow>
              (case pc of
                 At_lock \<Rightarrow> if queue_lock p = None then Done (set_pc t Checking (set_pool (p\<lparr>queue_lock := Some t\<rparr>) s)) else Blocked
               | Woken \<Rightarrow> if queue_lock p = None then Done (set_pc t Checking (set_pool (p\<lparr>queue_lock := Some t\<rparr>) s)) else Blocked
               | Checking \<Rightarrow> Done (set_pc t (if cur_queue_size p = 0 \<and> \<not> shutdown p then Going_to_wait else Leaving) s)
               | Going_to_wait \<Rightarrow> Done (set_pc t Sleeping_on_cond (set_pool (p\<lparr>queue_lock := None\<rparr>) s))
               | _ \<Rightarrow>
                  if shutdown p then Done (set_pc t Exited (set_pool (p\<lparr>queue_lock := None\<rparr>) s))
                  else if cur_queue_size p = 0 then Fault
                  else (case queue_head p of
                          None \<Rightarrow> Fault
                        | Some a \<Rightarrow>
                           (case nodes s a of
                              None \<Rightarrow> Fault
                            | Some w \<Rightarrow> Done (set_pc t (Running a)
                                (set_pool (p\<lparr>cur_queue_size := cur_queue_size p - 1, queue_head := w_next w, queue_lock := None\<rparr>)
                                  (s\<lparr>taken := taken s @ [(process w, task_arg w)]\<rparr>)))))))) "

text \<open>Freeing the tasks that were never taken.\<close>

partial_function (option) free_queue :: "(nat \<rightharpoonup> CThread_worker) \<Rightarrow> ptr \<Rightarrow> (nat \<rightharpoonup> CThread_worker) option" where
  "free_queue m h =
     (case h of
        None \<Rightarrow> Some m
      | Some a \<Rightarrow> Option.bind (m a) (\<lambda>w. free_queue (m(a := None)) (w_next w)))"

definition wake :: "thread_pc \<Rightarrow> thread_pc" where
  "wake pc = (if pc = Sleeping_on_cond then Woken else pc)"

text \<open>
  The next action of the main thread, which runs \<open>main\<close> and the functions it calls; \<open>t\<close> is the
  thread a signal wakes, when it waits.
\<close>

definition main_thread :: "nat \<Rightarrow> tp_state \<Rightarrow> tp_state outcome" where
  "main_thread t s =
     (case pool s of
        None \<Rightarrow> (if main_at s = Finished then Blocked else Fault)
      | Some p \<Rightarrow>
         (case main_at s of
            Adding [] \<Rightarrow> Done (s\<lparr>main_at := In_sleep\<rparr>)
          | Adding (x # ts) \<Rightarrow>
              if queue_lock p \<noteq> None then Blocked
              else (case pool_add_worker x p s of
                      None \<Rightarrow> Fault
                    | Some s1 \<Rightarrow> Done (s1\<lparr>main_at := Signalling ts\<rparr>))
          | Signalling ts \<Rightarrow>
              if Sleeping_on_cond \<in> set (threads s)
              then if t < length (threads s) \<and> threads s ! t = Sleeping_on_cond
                   then Done (set_pc t Woken (s\<lparr>main_at := Adding ts\<rparr>)) else Blocked
              else Done (s\<lparr>main_at := Adding ts\<rparr>)
          | In_sleep \<Rightarrow>
              if shutdown p then Done (s\<lparr>main_at := Finished\<rparr>)
              else Done (set_pool (p\<lparr>shutdown := True\<rparr>) (s\<lparr>main_at := Broadcasting\<rparr>))
          | Broadcasting \<Rightarrow> Done (s\<lparr>threads := map wake (threads s), main_at := Joining 0\<rparr>)
          | Joining i \<Rightarrow>
              if i < max_thread_num p
              then if threads s ! i = Exited then Done (s\<lparr>main_at := Joining (i + 1)\<rparr>) else Blocked
              else Done (s\<lparr>main_at := Freeing\<rparr>)
          | Freeing \<Rightarrow>
              (case free_queue (nodes s) (queue_head p) of
                 None \<Rightarrow> Fault
               | Some m \<Rightarrow> Done (s\<lparr>nodes := m, pool := None, main_at := Finished\<rparr>))
          | Finished \<Rightarrow> Blocked))"

text \<open>One step of the program, and a wakeup without a reason, which POSIX allows at any time.\<close>

inductive tp_step :: "tp_state \<Rightarrow> tp_state \<Rightarrow> bool" where
  step_thread: "t < length (threads s) \<Longrightarrow> thread_routine t s = Done s' \<Longrightarrow> tp_step s s'"
| step_main: "main_thread t s = Done s' \<Longrightarrow> tp_step s s'"

inductive spurious :: "tp_state \<Rightarrow> tp_state \<Rightarrow> bool" where
  step_spurious: "t < length (threads s) \<Longrightarrow> threads s ! t = Sleeping_on_cond \<Longrightarrow>
    spurious s (set_pc t Woken s)"

abbreviation tp_moves :: "tp_state \<Rightarrow> tp_state \<Rightarrow> bool" where
  "tp_moves \<equiv> (\<lambda>s s'. tp_step s s' \<or> spurious s s')\<^sup>*\<^sup>*"

section \<open>Invariant\<close>

definition next_of :: "(nat \<rightharpoonup> CThread_worker) \<Rightarrow> nat \<rightharpoonup> ptr" where
  "next_of m = (\<lambda>a. map_option w_next (m a))"

definition task_at :: "(nat \<rightharpoonup> CThread_worker) \<Rightarrow> nat \<Rightarrow> nat \<times> nat" where
  "task_at m a = (case m a of Some w \<Rightarrow> (process w, task_arg w) | None \<Rightarrow> (0, 0))"

definition has_lock :: "thread_pc \<Rightarrow> bool" where
  "has_lock pc \<longleftrightarrow> pc = Checking \<or> pc = Going_to_wait \<or> pc = Leaving"

text \<open>The tasks the main thread has still to add.\<close>

definition to_add :: "main_pc \<Rightarrow> (nat \<times> nat) list" where
  "to_add mp = (case mp of Adding ts \<Rightarrow> ts | Signalling ts \<Rightarrow> ts | _ \<Rightarrow> [])"

definition stopping :: "main_pc \<Rightarrow> bool" where
  "stopping mp \<longleftrightarrow> (case mp of Broadcasting \<Rightarrow> True | Joining i \<Rightarrow> True | Freeing \<Rightarrow> True | Finished \<Rightarrow> True | _ \<Rightarrow> False)"

text \<open>How many threads the main thread knows to have exited.\<close>

definition joined :: "nat \<Rightarrow> main_pc \<Rightarrow> nat" where
  "joined n mp = (case mp of Joining i \<Rightarrow> i | Freeing \<Rightarrow> n | Finished \<Rightarrow> n | _ \<Rightarrow> 0)"

text \<open>Which thread runs the task in which node, and which thread has the lock.\<close>

definition run_of :: "thread_pc \<Rightarrow> ptr" where
  "run_of pc = (case pc of Running a \<Rightarrow> Some a | _ \<Rightarrow> None)"

definition running :: "thread_pc list \<Rightarrow> nat \<Rightarrow> ptr" where
  "running xs t = (if t < length xs then run_of (xs ! t) else None)"

definition holder :: "thread_pc list \<Rightarrow> nat \<Rightarrow> bool" where
  "holder xs t \<longleftrightarrow> t < length xs \<and> has_lock (xs ! t)"

text \<open>The queue \<open>as\<close> and the tasks being run are in different nodes, and there are no others.\<close>

definition queue_inv :: "(nat \<rightharpoonup> CThread_worker) \<Rightarrow> ptr \<Rightarrow> (nat \<Rightarrow> ptr) \<Rightarrow> nat \<Rightarrow> nat list \<Rightarrow> bool" where
  "queue_inv m h f fresh as \<longleftrightarrow> stack (next_of m) h as
     \<and> (\<forall>t a. f t = Some a \<longrightarrow> m a \<noteq> None \<and> a \<notin> set as)
     \<and> (\<forall>t u a. f t = Some a \<longrightarrow> f u = Some a \<longrightarrow> t = u)
     \<and> (\<forall>a. m a \<noteq> None \<longrightarrow> a < fresh \<and> (a \<in> set as \<or> (\<exists>t. f t = Some a)))"

definition queue_ok :: "CThread_pool \<Rightarrow> tp_state \<Rightarrow> nat list \<Rightarrow> bool" where
  "queue_ok p s as \<longleftrightarrow> cur_queue_size p = int (length as)
     \<and> queue_inv (nodes s) (queue_head p) (running (threads s)) (next_node s) as"

definition locks_ok :: "CThread_pool \<Rightarrow> tp_state \<Rightarrow> bool" where
  "locks_ok p s \<longleftrightarrow> (\<forall>t. holder (threads s) t \<longleftrightarrow> queue_lock p = Some t)"

definition progress_ok :: "CThread_pool \<Rightarrow> tp_state \<Rightarrow> bool" where
  "progress_ok p s \<longleftrightarrow>
     (Going_to_wait \<in> set (threads s) \<longrightarrow> cur_queue_size p = 0)
     \<and> (Leaving \<in> set (threads s) \<longrightarrow> shutdown p \<or> cur_queue_size p \<noteq> 0)
     \<and> (Exited \<in> set (threads s) \<longrightarrow> shutdown p)
     \<and> (cur_queue_size p \<noteq> 0 \<longrightarrow> (\<exists>ts. main_at s = Signalling ts)
          \<or> (\<exists>pc \<in> set (threads s). pc \<noteq> Sleeping_on_cond) \<or> threads s = [])"

definition main_ok :: "CThread_pool \<Rightarrow> tp_state \<Rightarrow> bool" where
  "main_ok p s \<longleftrightarrow> length (threads s) = max_thread_num p \<and> shutdown p = stopping (main_at s)
     \<and> main_at s \<noteq> Finished
     \<and> (\<forall>i < joined (max_thread_num p) (main_at s). i < max_thread_num p \<longrightarrow> threads s ! i = Exited)"

definition pool_inv :: "(nat \<times> nat) list \<Rightarrow> CThread_pool \<Rightarrow> tp_state \<Rightarrow> nat list \<Rightarrow> bool" where
  "pool_inv ts p s as \<longleftrightarrow> queue_ok p s as \<and> locks_ok p s \<and> progress_ok p s \<and> main_ok p s
     \<and> ts = taken s @ map (task_at (nodes s)) as @ to_add (main_at s)"

definition tp_inv :: "(nat \<times> nat) list \<Rightarrow> tp_state \<Rightarrow> bool" where
  "tp_inv ts s \<longleftrightarrow>
     (case pool s of
        None \<Rightarrow> main_at s = Finished \<and> nodes s = Map.empty \<and> (\<forall>pc \<in> set (threads s). pc = Exited)
          \<and> (\<exists>rest. ts = taken s @ rest)
      | Some p \<Rightarrow> \<exists>as. pool_inv ts p s as)"

lemma running_update: "t < length xs \<Longrightarrow> running (xs[t := pc]) = (running xs)(t := run_of pc)"
  by (auto simp: running_def fun_eq_iff)

lemma running_same: "t < length xs \<Longrightarrow> run_of pc = run_of (xs ! t) \<Longrightarrow> running (xs[t := pc]) = running xs"
  by (simp add: running_update) (simp add: running_def fun_eq_iff)

lemma holder_update: "t < length xs \<Longrightarrow> holder (xs[t := pc]) u = (if u = t then has_lock pc else holder xs u)"
  by (auto simp: holder_def)

lemma run_of_simps [simp]:
  "run_of At_lock = None" "run_of Checking = None" "run_of Going_to_wait = None"
  "run_of Sleeping_on_cond = None" "run_of Woken = None" "run_of Leaving = None"
  "run_of Exited = None" "run_of (Running a) = Some a"
  by (simp_all add: run_of_def)

lemma has_lock_simps [simp]:
  "\<not> has_lock At_lock" "has_lock Checking" "has_lock Going_to_wait" "\<not> has_lock Sleeping_on_cond"
  "\<not> has_lock Woken" "has_lock Leaving" "\<not> has_lock Exited" "\<not> has_lock (Running a)"
  by (simp_all add: has_lock_def)

lemma task_at_other: "a \<noteq> b \<Longrightarrow> task_at (m(b := x)) a = task_at m a"
  by (simp add: task_at_def)

lemma queue_invD:
  assumes "queue_inv m h f fresh as"
  shows "stack (next_of m) h as" "f t = Some a \<Longrightarrow> m a \<noteq> None" "f t = Some a \<Longrightarrow> a \<notin> set as"
    "f t = Some a \<Longrightarrow> f u = Some a \<Longrightarrow> t = u" "m a \<noteq> None \<Longrightarrow> a < fresh"
    "m a \<noteq> None \<Longrightarrow> a \<in> set as \<or> (\<exists>t. f t = Some a)"
  using assms unfolding queue_inv_def by blast+

lemma queue_inv_take:
  assumes q: "queue_inv m (Some a) f fresh as" and t: "f t = None"
  shows "\<exists>w bs. m a = Some w \<and> as = a # bs \<and> queue_inv m (w_next w) (f(t := Some a)) fresh bs"
proof -
  note qd = queue_invD [OF q]
  from qd(1) obtain w bs where w: "m a = Some w" "as = a # bs" "stack (next_of m) (w_next w) bs"
    by (auto simp: stack_Some next_of_def)
  have d: "a \<notin> set bs" using stack_distinct [OF qd(1)] w(2) by simp
  have out: "f u \<noteq> Some a" for u using qd(3) [of u a] w(2) by auto
  have "queue_inv m (w_next w) (f(t := Some a)) fresh bs"
    unfolding queue_inv_def
  proof (intro conjI allI impI)
    show "m b \<noteq> None" if "(f(t := Some a)) u = Some b" for u b
      using that w(1) qd(2) [of u b] by (cases "u = t") auto
    show "b \<notin> set bs" if "(f(t := Some a)) u = Some b" for u b
      using that d w(2) qd(3) [of u b] by (cases "u = t") auto
    show "u = v" if "(f(t := Some a)) u = Some b" "(f(t := Some a)) v = Some b" for u v b
      using that out qd(4) [of u b v] by (cases "u = t"; cases "v = t") auto
    show "b < fresh" if "m b \<noteq> None" for b using qd(5) that .
    show "b \<in> set bs \<or> (\<exists>u. (f(t := Some a)) u = Some b)" if m: "m b \<noteq> None" for b
    proof (cases "b = a")
      case True
      then show ?thesis by (intro disjI2 exI [of _ t]) simp
    next
      case False
      from qd(6) [OF m] show ?thesis
      proof
        assume "b \<in> set as"
        with False w(2) show ?thesis by simp
      next
        assume "\<exists>u. f u = Some b"
        then obtain u where "f u = Some b" ..
        with t have "(f(t := Some a)) u = Some b" by (cases "u = t") auto
        then show ?thesis by blast
      qed
    qed
  qed (rule w(3))
  with w(1,2) show ?thesis by blast
qed

lemma next_of_upd: "next_of (m(a \<mapsto> w)) = (next_of m)(a \<mapsto> w_next w)"
  by (auto simp: next_of_def)

lemma queue_inv_done:
  assumes q: "queue_inv m h f fresh as" and t: "f t = Some a"
  shows "queue_inv (m(a := None)) h (f(t := None)) fresh as"
proof -
  note qd = queue_invD [OF q]
  have a: "a \<notin> set as" using qd(3) [OF t] .
  have out: "b \<noteq> a" if "f u = Some b" "u \<noteq> t" for u b using qd(4) [OF t, of u] that by auto
  show ?thesis
    unfolding queue_inv_def
  proof (intro conjI allI impI)
    show "stack (next_of (m(a := None))) h as"
      by (rule stack_same [THEN iffD1, OF _ qd(1)]) (use a in \<open>auto simp: next_of_def\<close>)
    show "(m(a := None)) b \<noteq> None" if "(f(t := None)) u = Some b" for u b
      using that out [of u b] qd(2) [of u b] by (cases "u = t") auto
    show "b \<notin> set as" if "(f(t := None)) u = Some b" for u b
      using that qd(3) [of u b] by (cases "u = t") auto
    show "u = v" if "(f(t := None)) u = Some b" "(f(t := None)) v = Some b" for u v b
      using that qd(4) [of u b v] by (cases "u = t"; cases "v = t") auto
    show "b < fresh" if "(m(a := None)) b \<noteq> None" for b using qd(5) [of b] that by (cases "b = a") auto
    show "b \<in> set as \<or> (\<exists>u. (f(t := None)) u = Some b)" if m: "(m(a := None)) b \<noteq> None" for b
    proof -
      from m have b: "b \<noteq> a" "m b \<noteq> None" by (auto split: if_splits)
      from qd(6) [OF b(2)] show ?thesis
      proof
        assume "\<exists>u. f u = Some b"
        then obtain u where "f u = Some b" ..
        with t b(1) have "(f(t := None)) u = Some b" by (cases "u = t") auto
        then show ?thesis by blast
      qed blast
    qed
  qed
qed

lemma last_member_stack:
  "stack (next_of m) (Some h) (as @ [l]) \<Longrightarrow> last_member m h = Some l"
proof (induction as arbitrary: h)
  case Nil
  then show ?case by (subst last_member.simps) (auto simp: next_of_def)
next
  case (Cons a as)
  then obtain w where w: "h = a" "m a = Some w" "stack (next_of m) (w_next w) (as @ [l])"
    by (auto simp: next_of_def)
  then obtain b where b: "w_next w = Some b" by (cases "w_next w") auto
  with w Cons.IH [of b] show ?case by (subst last_member.simps) simp
qed

text \<open>The new node becomes the last of the queue, and nothing else changes.\<close>

lemma pool_add_worker_ok:
  assumes q: "queue_ok p s as"
  shows "\<exists>s' p'. pool_add_worker x p s = Some s' \<and> pool s' = Some p' \<and> queue_ok p' s' (as @ [next_node s])
    \<and> map (task_at (nodes s')) (as @ [next_node s]) = map (task_at (nodes s)) as @ [x]
    \<and> threads s' = threads s \<and> main_at s' = main_at s \<and> taken s' = taken s
    \<and> p' = p\<lparr>queue_head := queue_head p', cur_queue_size := cur_queue_size p + 1\<rparr>"
proof -
  let ?n = "next_node s" and ?m = "nodes s" and ?f = "running (threads s)"
  let ?w = "\<lparr>process = fst x, task_arg = snd x, w_next = None\<rparr>"
  from q have qi: "queue_inv ?m (queue_head p) ?f ?n as" and len: "cur_queue_size p = int (length as)"
    by (simp_all add: queue_ok_def)
  note qd = queue_invD [OF qi]
  have fresh: "?m ?n = None" using qd(5) [of ?n] by (cases "?m ?n") auto
  have as: "?n \<notin> set as" using stack_dom [OF qd(1)] fresh by (auto simp: next_of_def)
  have run: "?f t \<noteq> Some ?n" for t using qd(2) [of t ?n] fresh by auto
  define m2 h2 where "m2 = (if as = [] then ?m(?n \<mapsto> ?w)
      else ?m(?n \<mapsto> ?w, last as \<mapsto> (the (?m (last as)))\<lparr>w_next := Some ?n\<rparr>))"
    and "h2 = (if as = [] then Some ?n else queue_head p)"
  let ?p = "p\<lparr>queue_head := h2, cur_queue_size := cur_queue_size p + 1\<rparr>"
  let ?s = "s\<lparr>nodes := m2, next_node := ?n + 1, pool := Some ?p\<rparr>"
  have add: "pool_add_worker x p s = Some ?s \<and> stack (next_of m2) h2 (as @ [?n])
      \<and> (\<forall>a. m2 a = None \<longleftrightarrow> (a \<noteq> ?n \<and> ?m a = None)) \<and> task_at m2 ?n = x \<and> (\<forall>a \<in> set as. task_at m2 a = task_at ?m a)"
  proof (cases as rule: rev_cases)
    case Nil
    with qd(1) have "queue_head p = None" by simp
    with Nil show ?thesis
      by (simp add: pool_add_worker_def m2_def h2_def next_of_def task_at_def Let_def)
  next
    case (snoc bs l)
    with qd(1) obtain h where h: "queue_head p = Some h" by (cases "queue_head p") auto
    have st: "stack (next_of ?m) (Some h) (bs @ [l])" using qd(1) snoc h by simp
    from stack_dom [OF st] obtain w where w: "?m l = Some w" by (auto simp: next_of_def)
    have m2: "m2 = ?m(?n \<mapsto> ?w, l \<mapsto> w\<lparr>w_next := Some ?n\<rparr>)" "h2 = Some h"
      using snoc w h by (simp_all add: m2_def h2_def)
    have nl: "l \<noteq> ?n" using as snoc by auto
    have d: "distinct (bs @ [l])" by (rule stack_distinct [OF st])
    have "stack (next_of m2) (Some h) ((bs @ [l]) @ [?n])"
      using stack_snoc [OF st, of ?n] nl as snoc by (simp add: m2 next_of_upd fun_upd_twist)
    moreover have "\<forall>a \<in> set as. task_at m2 a = task_at ?m a"
      using as w by (auto simp: m2 task_at_def)
    moreover have "pool_add_worker x p s = Some ?s"
      using h last_member_stack [OF st] w nl by (simp add: pool_add_worker_def m2 Let_def)
    ultimately show ?thesis using snoc nl w by (auto simp: m2 task_at_def)
  qed
  then have q2: "queue_inv m2 h2 ?f (?n + 1) (as @ [?n])"
    unfolding queue_inv_def
  proof (intro conjI allI impI)
    show "m2 a \<noteq> None" if "?f t = Some a" for t a using that qd(2) [OF that] add by auto
    show "a \<notin> set (as @ [?n])" if "?f t = Some a" for t a using qd(3) [OF that] run [of t] that by auto
    show "t = u" if "?f t = Some a" "?f u = Some a" for t u a using qd(4) that .
    show "a < ?n + 1" if "m2 a \<noteq> None" for a using that add qd(5) [of a] by (cases "a = ?n") auto
    show "a \<in> set (as @ [?n]) \<or> (\<exists>t. ?f t = Some a)" if "m2 a \<noteq> None" for a
      using that add qd(6) [of a] by (cases "a = ?n") auto
  qed blast
  have "queue_ok ?p ?s (as @ [?n])" using q2 len by (simp add: queue_ok_def)
  moreover have "map (task_at (nodes ?s)) (as @ [?n]) = map (task_at ?m) as @ [x]" using add by simp
  ultimately show ?thesis using add by (intro exI [of _ ?s] exI [of _ ?p]) simp
qed

section \<open>Threads\<close>

lemma task_at_same: "\<forall>a \<in> set as. m' a = m a \<Longrightarrow> map (task_at m') as = map (task_at m) as"
  by (simp add: task_at_def)

lemma exited_update: "xs ! i = Exited \<Longrightarrow> xs ! t \<noteq> Exited \<Longrightarrow> xs[t := pc] ! i = Exited"
  by (cases "i = t") auto

text \<open>A thread that moves on and takes or gives back the lock, or neither.\<close>

lemma pool_inv_move:
  assumes inv: "pool_inv ts p s as" and t: "t < length (threads s)"
    and run: "run_of (threads s ! t) = None" "run_of pc = None"
    and not_exited: "threads s ! t \<noteq> Exited"
    and lock: "\<And>u. l = Some u \<longleftrightarrow> (if u = t then has_lock pc else queue_lock p = Some u)"
    and pc: "pc = Going_to_wait \<Longrightarrow> cur_queue_size p = 0"
      "pc = Leaving \<Longrightarrow> shutdown p \<or> cur_queue_size p \<noteq> 0" "pc = Exited \<Longrightarrow> shutdown p"
      "pc = Sleeping_on_cond \<Longrightarrow> cur_queue_size p = 0"
  shows "pool_inv ts (p\<lparr>queue_lock := l\<rparr>) (set_pc t pc (set_pool (p\<lparr>queue_lock := l\<rparr>) s)) as"
proof -
  let ?p = "p\<lparr>queue_lock := l\<rparr>"
  let ?s = "set_pc t pc (set_pool ?p s)"
  have sub: "set (threads ?s) \<subseteq> insert pc (set (threads s))" "pc \<in> set (threads ?s)"
    using t by (auto simp: set_pc_def set_pool_def set_update_memI dest: set_update_subset_insert [THEN subsetD])
  have same: "running ((threads s)[t := pc]) = running (threads s)" using running_same [OF t] run by simp
  have "queue_ok ?p ?s as"
    using inv same by (simp add: pool_inv_def queue_ok_def set_pc_def set_pool_def)
  moreover have "locks_ok ?p ?s"
    using inv t lock by (auto simp: pool_inv_def locks_ok_def set_pc_def set_pool_def holder_update)
  moreover have "progress_ok ?p ?s"
    using inv sub pc unfolding pool_inv_def progress_ok_def
    by (auto simp: set_pc_def set_pool_def)
  moreover have "main_ok ?p ?s"
    using inv not_exited by (auto simp: pool_inv_def main_ok_def set_pc_def set_pool_def intro: exited_update)
  ultimately show ?thesis using inv by (simp add: pool_inv_def set_pc_def set_pool_def)
qed

lemma pool_inv_lock:
  "pool_inv ts p s as \<Longrightarrow> t < length (threads s) \<Longrightarrow> has_lock (threads s ! t) \<Longrightarrow> queue_lock p = Some t"
  unfolding pool_inv_def locks_ok_def holder_def by blast

text \<open>A thread takes the first task.\<close>

lemma pool_inv_take:
  assumes inv: "pool_inv ts p s as" and t: "t < length (threads s)" "threads s ! t = Leaving"
    and go: "\<not> shutdown p"
  shows "cur_queue_size p \<noteq> 0 \<and> (\<exists>a w bs. queue_head p = Some a \<and> nodes s a = Some w
    \<and> pool_inv ts (p\<lparr>cur_queue_size := cur_queue_size p - 1, queue_head := w_next w, queue_lock := None\<rparr>)
        (set_pc t (Running a) (set_pool (p\<lparr>cur_queue_size := cur_queue_size p - 1, queue_head := w_next w, queue_lock := None\<rparr>)
          (s\<lparr>taken := taken s @ [(process w, task_arg w)]\<rparr>))) bs)"
proof -
  from t have mem: "Leaving \<in> set (threads s)" by (metis nth_mem)
  with inv go have size: "cur_queue_size p \<noteq> 0" by (auto simp: pool_inv_def progress_ok_def)
  from inv have q: "queue_inv (nodes s) (queue_head p) (running (threads s)) (next_node s) as"
    "cur_queue_size p = int (length as)" by (simp_all add: pool_inv_def queue_ok_def)
  from size q have "as \<noteq> []" by auto
  then obtain a where a: "queue_head p = Some a" using queue_invD(1) [OF q(1)] by (cases as) auto
  have idle: "running (threads s) t = None" using t by (simp add: running_def)
  from queue_inv_take [OF q(1) [unfolded a] idle] obtain w bs where
    w: "nodes s a = Some w" "as = a # bs"
    "queue_inv (nodes s) (w_next w) ((running (threads s))(t := Some a)) (next_node s) bs" by blast
  let ?p = "p\<lparr>cur_queue_size := cur_queue_size p - 1, queue_head := w_next w, queue_lock := None\<rparr>"
  let ?s = "set_pc t (Running a) (set_pool ?p (s\<lparr>taken := taken s @ [(process w, task_arg w)]\<rparr>))"
  have lock: "queue_lock p = Some t" using pool_inv_lock [OF inv t(1)] t(2) by simp
  have mem': "Running a \<in> set (threads ?s)" using t(1) by (simp add: set_pc_def set_pool_def set_update_memI)
  have only: "threads s ! u \<noteq> Going_to_wait \<and> threads s ! u \<noteq> Leaving" if "u < length (threads s)" "u \<noteq> t" for u
    using pool_inv_lock [OF inv that(1)] lock that(2) by (auto simp: has_lock_def)
  have "queue_ok ?p ?s bs"
    using w(2,3) q(2) t(1) by (simp add: queue_ok_def set_pc_def set_pool_def running_update)
  moreover have "locks_ok ?p ?s"
    using inv t(1) lock by (auto simp: pool_inv_def locks_ok_def set_pc_def set_pool_def holder_update)
  moreover have "progress_ok ?p ?s"
  proof -
    have "Going_to_wait \<notin> set (threads ?s)" "Leaving \<notin> set (threads ?s)"
      using only t(1) by (auto simp: set_pc_def set_pool_def in_set_conv_nth nth_list_update)
    moreover have "Exited \<notin> set (threads ?s)"
      using inv go by (auto simp: pool_inv_def progress_ok_def set_pc_def set_pool_def dest!: set_update_subset_insert [THEN subsetD])
    ultimately show ?thesis using mem' by (auto simp: progress_ok_def)
  qed
  moreover have "main_ok ?p ?s"
    using inv t by (auto simp: pool_inv_def main_ok_def set_pc_def set_pool_def intro: exited_update)
  moreover have "ts = taken ?s @ map (task_at (nodes ?s)) bs @ to_add (main_at ?s)"
    using inv w(1,2) by (simp add: pool_inv_def set_pc_def set_pool_def task_at_def)
  ultimately show ?thesis using size a w(1) unfolding pool_inv_def by blast
qed

text \<open>A thread finishes its task.\<close>

lemma pool_inv_finish:
  assumes inv: "pool_inv ts p s as" and t: "t < length (threads s)" "threads s ! t = Running a"
  shows "nodes s a \<noteq> None
    \<and> pool_inv ts p (set_pc t At_lock (s\<lparr>nodes := (nodes s)(a := None)\<rparr>)) as"
proof -
  from inv have q: "queue_inv (nodes s) (queue_head p) (running (threads s)) (next_node s) as"
    "cur_queue_size p = int (length as)" by (simp_all add: pool_inv_def queue_ok_def)
  have run: "running (threads s) t = Some a" using t by (simp add: running_def)
  let ?s = "set_pc t At_lock (s\<lparr>nodes := (nodes s)(a := None)\<rparr>)"
  have a: "a \<notin> set as" using queue_invD(3) [OF q(1) run] .
  have "holder (threads s) t \<longleftrightarrow> queue_lock p = Some t"
    using inv unfolding pool_inv_def locks_ok_def by blast
  then have free: "queue_lock p \<noteq> Some t" using t by (simp add: holder_def)
  have mem: "At_lock \<in> set (threads ?s)" using t(1) by (simp add: set_pc_def set_update_memI)
  have sub: "set (threads ?s) \<subseteq> insert At_lock (set (threads s))"
    by (auto simp: set_pc_def dest: set_update_subset_insert [THEN subsetD])
  have "queue_ok p ?s as"
    using queue_inv_done [OF q(1) run] q(2) t(1) by (simp add: queue_ok_def set_pc_def running_update)
  moreover have "locks_ok p ?s"
    using inv t free by (auto simp: pool_inv_def locks_ok_def set_pc_def holder_update)
  moreover have "progress_ok p ?s"
    using inv sub mem unfolding pool_inv_def progress_ok_def by auto
  moreover have "main_ok p ?s"
    using inv t by (auto simp: pool_inv_def main_ok_def set_pc_def intro: exited_update)
  moreover have "map (task_at (nodes ?s)) as = map (task_at (nodes s)) as"
    using a by (intro task_at_same) (auto simp: set_pc_def)
  ultimately show ?thesis
    using inv queue_invD(2) [OF q(1) run] by (simp add: pool_inv_def set_pc_def)
qed

lemma pool_after [simp]: "pool (set_pc t pc s) = pool s" "pool (set_pool p s) = Some p"
  by (simp_all add: set_pc_def set_pool_def)

lemma tp_invI: "pool s = Some p \<Longrightarrow> pool_inv ts p s as \<Longrightarrow> tp_inv ts s"
  by (auto simp: tp_inv_def)

lemma thread_routine_ok:
  assumes inv: "tp_inv ts s" and t: "t < length (threads s)"
  shows "thread_routine t s \<noteq> Fault" "thread_routine t s = Done s' \<Longrightarrow> tp_inv ts s'"
proof -
  have both: "thread_routine t s \<noteq> Fault \<and> (\<forall>s'. thread_routine t s = Done s' \<longrightarrow> tp_inv ts s')"
  proof (cases "pool s")
    case None
    with inv t have "threads s ! t = Exited" by (simp add: tp_inv_def)
    then show ?thesis by (simp add: thread_routine_def)
  next
    case (Some p)
    with inv obtain as where as: "pool_inv ts p s as" by (auto simp: tp_inv_def)
    note move = pool_inv_move [OF as t]
    note lock = pool_inv_lock [OF as t]
    have mem: "threads s ! t \<in> set (threads s)" using t by simp
    show ?thesis
    proof (cases "threads s ! t")
      case At_lock
      have "pool_inv ts (p\<lparr>queue_lock := Some t\<rparr>) (set_pc t Checking (set_pool (p\<lparr>queue_lock := Some t\<rparr>) s)) as"
        if "queue_lock p = None"
        by (rule move) (use that At_lock in auto)
      with At_lock Some show ?thesis by (auto simp: thread_routine_def tp_inv_def)
    next
      case Woken
      have "pool_inv ts (p\<lparr>queue_lock := Some t\<rparr>) (set_pc t Checking (set_pool (p\<lparr>queue_lock := Some t\<rparr>) s)) as"
        if "queue_lock p = None"
        by (rule move) (use that Woken in auto)
      with Woken Some show ?thesis by (auto simp: thread_routine_def tp_inv_def)
    next
      case Checking
      have "pool_inv ts p (set_pc t (if cur_queue_size p = 0 \<and> \<not> shutdown p then Going_to_wait else Leaving) s) as"
      proof -
        have "pool_inv ts (p\<lparr>queue_lock := queue_lock p\<rparr>)
            (set_pc t (if cur_queue_size p = 0 \<and> \<not> shutdown p then Going_to_wait else Leaving)
              (set_pool (p\<lparr>queue_lock := queue_lock p\<rparr>) s)) as"
          by (rule move) (use lock Checking in \<open>auto split: if_splits\<close>)
        moreover have "set_pool p s = s" using Some by (simp add: set_pool_def)
        ultimately show ?thesis by simp
      qed
      with Checking Some show ?thesis by (auto simp: thread_routine_def tp_inv_def)
    next
      case Going_to_wait
      have empty: "cur_queue_size p = 0" using Going_to_wait mem as by (simp add: pool_inv_def progress_ok_def)
      have "pool_inv ts (p\<lparr>queue_lock := None\<rparr>)
          (set_pc t Sleeping_on_cond (set_pool (p\<lparr>queue_lock := None\<rparr>) s)) as"
        by (rule move) (use lock Going_to_wait empty in auto)
      with Going_to_wait show ?thesis using Some by (auto simp: thread_routine_def tp_inv_def)
    next
      case Sleeping_on_cond
      then show ?thesis by (simp add: thread_routine_def)
    next
      case Leaving
      show ?thesis
      proof (cases "shutdown p")
        case True
        have "pool_inv ts (p\<lparr>queue_lock := None\<rparr>) (set_pc t Exited (set_pool (p\<lparr>queue_lock := None\<rparr>) s)) as"
          by (rule move) (use lock Leaving True in auto)
        with Leaving True Some show ?thesis by (auto simp: thread_routine_def tp_inv_def)
      next
        case False
        from pool_inv_take [OF as t Leaving False] obtain a w bs where
          "cur_queue_size p \<noteq> 0" "queue_head p = Some a" "nodes s a = Some w"
          "pool_inv ts (p\<lparr>cur_queue_size := cur_queue_size p - 1, queue_head := w_next w, queue_lock := None\<rparr>)
            (set_pc t (Running a) (set_pool (p\<lparr>cur_queue_size := cur_queue_size p - 1, queue_head := w_next w, queue_lock := None\<rparr>)
              (s\<lparr>taken := taken s @ [(process w, task_arg w)]\<rparr>))) bs" by blast
        with Leaving False Some show ?thesis by (auto simp: thread_routine_def tp_inv_def)
      qed
    next
      case (Running a)
      with pool_inv_finish [OF as t Running] Some show ?thesis
        by (auto simp: thread_routine_def intro!: tp_invI)
    next
      case Exited
      then show ?thesis by (simp add: thread_routine_def)
    qed
  qed
  then show "thread_routine t s \<noteq> Fault" "thread_routine t s = Done s' \<Longrightarrow> tp_inv ts s'" by simp_all
qed

section \<open>The main thread\<close>

lemma pool_inv_main:
  assumes inv: "pool_inv ts p s as" and mp: "to_add mp = to_add (main_at s)" "stopping mp = stopping (main_at s)"
    "mp \<noteq> Finished" "\<And>i. i < joined (max_thread_num p) mp \<Longrightarrow> i < max_thread_num p \<Longrightarrow> threads s ! i = Exited"
    and sig: "\<And>us. main_at s = Signalling us \<Longrightarrow> cur_queue_size p \<noteq> 0 \<Longrightarrow>
      (\<exists>pc \<in> set (threads s). pc \<noteq> Sleeping_on_cond) \<or> threads s = []"
  shows "pool_inv ts p (s\<lparr>main_at := mp\<rparr>) as"
  using assms unfolding pool_inv_def queue_ok_def locks_ok_def progress_ok_def main_ok_def by auto

text \<open>A waiting thread is woken, by a signal or for no reason.\<close>

lemma pool_inv_wake:
  assumes inv: "pool_inv ts p s as" and t: "t < length (threads s)" "threads s ! t = Sleeping_on_cond"
    and pl: "pool s = Some p"
  shows "pool_inv ts p (set_pc t Woken s) as"
proof -
  have "holder (threads s) t \<longleftrightarrow> queue_lock p = Some t"
    using inv unfolding pool_inv_def locks_ok_def by blast
  then have free: "queue_lock p \<noteq> Some t" using t by (simp add: holder_def)
  have "pool_inv ts (p\<lparr>queue_lock := queue_lock p\<rparr>) (set_pc t Woken (set_pool (p\<lparr>queue_lock := queue_lock p\<rparr>) s)) as"
    by (rule pool_inv_move [OF inv t(1)]) (use t free in auto)
  moreover have "set_pool p s = s" using pl by (simp add: set_pool_def)
  ultimately show ?thesis by simp
qed

lemma pool_inv_broadcast:
  assumes inv: "pool_inv ts p s as" and m: "main_at s = Broadcasting"
  shows "pool_inv ts p (s\<lparr>threads := map wake (threads s), main_at := Joining 0\<rparr>) as"
proof -
  let ?s = "s\<lparr>threads := map wake (threads s), main_at := Joining 0\<rparr>"
  have "run_of (wake pc) = run_of pc" "has_lock (wake pc) = has_lock pc" for pc by (simp_all add: wake_def)
  then have same: "running (threads ?s) = running (threads s)" "holder (threads ?s) = holder (threads s)"
    by (auto simp: running_def holder_def fun_eq_iff)
  have "wake pc \<noteq> Sleeping_on_cond" for pc by (simp add: wake_def)
  then have up: "\<forall>pc \<in> set (threads ?s). pc \<noteq> Sleeping_on_cond" by auto
  have mem: "pc \<in> set (threads s)" if "pc \<in> set (threads ?s)" "pc \<noteq> Woken" for pc
    using that by (auto simp: wake_def split: if_splits)
  from inv have iv: "queue_ok p s as" "locks_ok p s" "progress_ok p s" "main_ok p s"
    "ts = taken s @ map (task_at (nodes s)) as @ to_add (main_at s)" by (simp_all add: pool_inv_def)
  have "queue_ok p ?s as" using iv(1) same by (simp add: queue_ok_def)
  moreover have "locks_ok p ?s" using iv(2) same by (simp add: locks_ok_def)
  moreover have "progress_ok p ?s"
    unfolding progress_ok_def
  proof (intro conjI impI)
    show "cur_queue_size p = 0" if "Going_to_wait \<in> set (threads ?s)"
      using mem [OF that] iv(3) by (simp add: progress_ok_def)
    show "shutdown p \<or> cur_queue_size p \<noteq> 0" if "Leaving \<in> set (threads ?s)"
      using mem [OF that] iv(3) by (simp add: progress_ok_def)
    show "shutdown p" if "Exited \<in> set (threads ?s)"
      using mem [OF that] iv(3) by (simp add: progress_ok_def)
    show "(\<exists>us. main_at ?s = Signalling us) \<or> (\<exists>pc \<in> set (threads ?s). pc \<noteq> Sleeping_on_cond) \<or> threads ?s = []"
      using up by (cases "threads ?s") auto
  qed
  moreover have "main_ok p ?s" using iv(4) m by (simp add: main_ok_def stopping_def joined_def)
  ultimately show ?thesis using iv(5) m by (simp add: pool_inv_def to_add_def)
qed

lemma free_queue_ok:
  "stack (next_of m) h as \<Longrightarrow> free_queue m h = Some (m |` (- set as))"
proof (induction as arbitrary: h m)
  case Nil
  then show ?case by (subst free_queue.simps) (simp add: restrict_map_def)
next
  case (Cons a as)
  then obtain w where w: "h = Some a" "m a = Some w" "stack (next_of m) (w_next w) as"
    by (auto simp: next_of_def)
  have a: "a \<notin> set as" using stack_distinct [OF Cons.prems] by simp
  have "stack (next_of (m(a := None))) (w_next w) as"
    by (rule stack_same [THEN iffD1, OF _ w(3)]) (use a in \<open>auto simp: next_of_def\<close>)
  from Cons.IH [OF this] have "free_queue (m(a := None)) (w_next w) = Some ((m(a := None)) |` (- set as))" .
  moreover have "(m(a := None)) |` (- set as) = m |` (- set (a # as))"
    by (auto simp: restrict_map_def fun_eq_iff)
  ultimately show ?case using w(1,2) by (subst free_queue.simps) simp
qed

lemma main_thread_ok:
  assumes inv: "tp_inv ts s"
  shows "main_thread t s \<noteq> Fault" "main_thread t s = Done s' \<Longrightarrow> tp_inv ts s'"
proof -
  have both: "main_thread t s \<noteq> Fault \<and> (\<forall>s'. main_thread t s = Done s' \<longrightarrow> tp_inv ts s')"
  proof (cases "pool s")
    case None
    with inv show ?thesis by (simp add: main_thread_def tp_inv_def)
  next
    case (Some p)
    with inv obtain as where as: "pool_inv ts p s as" by (auto simp: tp_inv_def)
    note main = pool_inv_main [OF as]
    have keep: "tp_inv ts (s\<lparr>main_at := mp\<rparr>)" if "pool_inv ts p (s\<lparr>main_at := mp\<rparr>) as" for mp
      using that Some by (auto simp: tp_inv_def)
    show ?thesis
    proof (cases "main_at s")
      case (Adding us)
      show ?thesis
      proof (cases us)
        case Nil
        have "pool_inv ts p (s\<lparr>main_at := In_sleep\<rparr>) as"
          by (rule main) (use Adding Nil in \<open>simp_all add: to_add_def stopping_def joined_def\<close>)
        with keep Adding Nil Some show ?thesis by (simp add: main_thread_def)
      next
        case (Cons x vs)
        show ?thesis
        proof (cases "queue_lock p")
          case None
          from as have q: "queue_ok p s as" by (simp add: pool_inv_def)
          from pool_add_worker_ok [OF q, of x] obtain s1 p1 where
            s1: "pool_add_worker x p s = Some s1" "pool s1 = Some p1" "queue_ok p1 s1 (as @ [next_node s])"
            "map (task_at (nodes s1)) (as @ [next_node s]) = map (task_at (nodes s)) as @ [x]"
            "threads s1 = threads s" "main_at s1 = main_at s" "taken s1 = taken s" and
            p1: "p1 = p\<lparr>queue_head := queue_head p1, cur_queue_size := cur_queue_size p + 1\<rparr>" by blast
          from p1 have p1f: "queue_lock p1 = queue_lock p" "max_thread_num p1 = max_thread_num p"
            "shutdown p1 = shutdown p" "cur_queue_size p1 = cur_queue_size p + 1"
            by (metis CThread_pool.select_convs CThread_pool.surjective CThread_pool.update_convs)+
          have nohold: "\<not> holder (threads s) u" for u using as None by (simp add: pool_inv_def locks_ok_def)
          then have "Going_to_wait \<notin> set (threads s)"
            by (metis has_lock_simps(3) holder_def in_set_conv_nth)
          moreover have "cur_queue_size p \<ge> 0" using q by (simp add: queue_ok_def)
          ultimately have "pool_inv ts p1 (s1\<lparr>main_at := Signalling vs\<rparr>) (as @ [next_node s])"
            using as s1 p1f Adding Cons
            by (auto simp: pool_inv_def queue_ok_def locks_ok_def progress_ok_def main_ok_def to_add_def
                stopping_def joined_def)
          then show ?thesis using s1(1,2) Adding Cons None Some by (auto simp: main_thread_def tp_inv_def)
        next
          case (Some u)
          then show ?thesis using Adding Cons \<open>pool s = Some p\<close> by (simp add: main_thread_def)
        qed
      qed
    next
      case (Signalling us)
      show ?thesis
      proof (cases "Sleeping_on_cond \<in> set (threads s)")
        case True
        show ?thesis
        proof (cases "t < length (threads s) \<and> threads s ! t = Sleeping_on_cond")
          case t: True
          have "pool_inv ts p (set_pc t Woken s) as" using pool_inv_wake [OF as _ _ Some] t by simp
          moreover have "Woken \<in> set (threads (set_pc t Woken s))"
            using t by (simp add: set_pc_def set_update_memI)
          ultimately have "pool_inv ts p ((set_pc t Woken s)\<lparr>main_at := Adding us\<rparr>) as"
            by (intro pool_inv_main)
              (use Signalling in \<open>auto simp: to_add_def stopping_def joined_def set_pc_def\<close>)
          moreover have "set_pc t Woken (s\<lparr>main_at := Adding us\<rparr>) = (set_pc t Woken s)\<lparr>main_at := Adding us\<rparr>"
            by (simp add: set_pc_def)
          ultimately show ?thesis using Signalling True t Some
            by (simp add: main_thread_def tp_invI)
        next
          case False
          with Signalling True Some show ?thesis by (auto simp: main_thread_def)
        qed
      next
        case False
        have "pool_inv ts p (s\<lparr>main_at := Adding us\<rparr>) as"
        proof (rule main)
          show "(\<exists>pc \<in> set (threads s). pc \<noteq> Sleeping_on_cond) \<or> threads s = []"
            using False by (cases "threads s") auto
        qed (use Signalling in \<open>simp_all add: to_add_def stopping_def joined_def\<close>)
        with keep Signalling False Some show ?thesis by (simp add: main_thread_def)
      qed
    next
      case In_sleep
      with as have "\<not> shutdown p" by (simp add: pool_inv_def main_ok_def stopping_def)
      moreover have "pool_inv ts (p\<lparr>shutdown := True\<rparr>) (set_pool (p\<lparr>shutdown := True\<rparr>) (s\<lparr>main_at := Broadcasting\<rparr>)) as"
        using as In_sleep
        by (auto simp: pool_inv_def queue_ok_def locks_ok_def progress_ok_def main_ok_def set_pool_def
            to_add_def stopping_def joined_def)
      ultimately show ?thesis using In_sleep Some by (auto simp: main_thread_def tp_inv_def)
    next
      case Broadcasting
      with pool_inv_broadcast [OF as] Some show ?thesis by (auto simp: main_thread_def tp_inv_def)
    next
      case (Joining i)
      have ex: "\<And>j. j < i \<Longrightarrow> j < max_thread_num p \<Longrightarrow> threads s ! j = Exited"
        using as Joining by (simp add: pool_inv_def main_ok_def joined_def)
      have "pool_inv ts p (s\<lparr>main_at := Joining (i + 1)\<rparr>) as" if "threads s ! i = Exited"
        by (rule main) (use Joining ex that in \<open>auto simp: to_add_def stopping_def joined_def less_Suc_eq\<close>)
      moreover have "pool_inv ts p (s\<lparr>main_at := Freeing\<rparr>) as" if "\<not> i < max_thread_num p"
        by (rule main) (use Joining ex that in \<open>auto simp: to_add_def stopping_def joined_def\<close>)
      ultimately show ?thesis using keep Joining Some by (simp add: main_thread_def)
    next
      case Freeing
      have ex: "pc = Exited" if "pc \<in> set (threads s)" for pc
        using as Freeing that by (auto simp: pool_inv_def main_ok_def joined_def in_set_conv_nth)
      from as have q: "queue_inv (nodes s) (queue_head p) (running (threads s)) (next_node s) as"
        by (simp add: pool_inv_def queue_ok_def)
      have "running (threads s) u = None" for u
      proof (cases "u < length (threads s)")
        case True
        then have "threads s ! u = Exited" using ex by simp
        then show ?thesis by (simp add: running_def)
      qed (simp add: running_def)
      then have mem: "a \<in> set as" if "nodes s a \<noteq> None" for a using queue_invD(6) [OF q that] by simp
      have "nodes s |` (- set as) = Map.empty"
      proof
        fix a show "(nodes s |` (- set as)) a = None"
          using mem [of a] by (cases "a \<in> set as"; cases "nodes s a") (auto simp: restrict_map_def)
      qed
      then have "free_queue (nodes s) (queue_head p) = Some Map.empty"
        using free_queue_ok [OF queue_invD(1) [OF q]] by simp
      moreover have "\<exists>rest. ts = taken s @ rest" using as by (auto simp: pool_inv_def)
      ultimately show ?thesis using Freeing Some ex by (auto simp: main_thread_def tp_inv_def)
    next
      case Finished
      with as show ?thesis by (simp add: pool_inv_def main_ok_def)
    qed
  qed
  then show "main_thread t s \<noteq> Fault" "main_thread t s = Done s' \<Longrightarrow> tp_inv ts s'" by simp_all
qed

section \<open>Reachable states\<close>

lemma tp_inv_init: "tp_inv ts (pool_init n ts)"
proof -
  have "\<not> has_lock At_lock" by simp
  then show ?thesis
    by (auto simp: tp_inv_def pool_init_def pool_inv_def queue_ok_def queue_inv_def locks_ok_def progress_ok_def
        main_ok_def to_add_def stopping_def joined_def running_def holder_def)
qed

lemma tp_inv_moves:
  assumes "tp_moves s s'" and "tp_inv ts s"
  shows "tp_inv ts s'"
  using assms
proof (induction rule: rtranclp_induct)
  case base
  then show ?case by simp
next
  case (step u v)
  then have inv: "tp_inv ts u" by simp
  from step.hyps(2) show ?case
  proof
    assume "tp_step u v"
    then show ?thesis using thread_routine_ok(2) [OF inv] main_thread_ok(2) [OF inv] by cases auto
  next
    assume "spurious u v"
    then obtain t where t: "t < length (threads u)" "threads u ! t = Sleeping_on_cond" "v = set_pc t Woken u"
      by cases auto
    then have "Sleeping_on_cond \<in> set (threads u)" by (metis nth_mem)
    then obtain p where p: "pool u = Some p"
      using inv by (cases "pool u") (auto simp: tp_inv_def)
    with inv obtain as where "pool_inv ts p u as" by (auto simp: tp_inv_def)
    from pool_inv_wake [OF this t(1,2) p] t(3) p show ?thesis by (simp add: tp_invI)
  qed
qed

lemma tp_moves_length: "tp_moves (pool_init n ts) s \<Longrightarrow> length (threads s) = n"
proof (induction rule: rtranclp_induct)
  case base
  then show ?case by (simp add: pool_init_def)
next
  case (step u v)
  from step.hyps(2) have "length (threads v) = length (threads u)"
  proof
    assume "tp_step u v"
    then show ?thesis
    proof cases
      case (step_thread t)
      then show ?thesis
        by (auto simp: thread_routine_def set_pc_def set_pool_def
            split: thread_pc.splits option.splits if_splits)
    next
      case (step_main t)
      then show ?thesis
        by (auto simp: main_thread_def set_pc_def set_pool_def pool_add_worker_def Let_def
            split: main_pc.splits option.splits if_splits list.splits bind_splits)
    qed
  next
    assume "spurious u v"
    then show ?thesis by cases (simp add: set_pc_def)
  qed
  with step.IH show ?case by simp
qed

text \<open>The main thread waits for a thread that sleeps.\<close>

definition stuck_join :: "nat \<Rightarrow> tp_state \<Rightarrow> bool" where
  "stuck_join t s \<longleftrightarrow> t < length (threads s) \<and> threads s ! t = Sleeping_on_cond
     \<and> (\<exists>p i. pool s = Some p \<and> main_at s = Joining i \<and> i \<le> t \<and> t < max_thread_num p)"

lemma stuck_join_step:
  assumes "tp_step u v" and "stuck_join t u"
  shows "stuck_join t v"
  using assms(1)
proof cases
  case (step_thread r)
  have "r \<noteq> t" using step_thread assms(2) by (auto simp: stuck_join_def thread_routine_def)
  with step_thread assms(2) show ?thesis
    by (auto simp: stuck_join_def thread_routine_def set_pc_def set_pool_def
        split: thread_pc.splits option.splits if_splits)
next
  case (step_main r)
  with assms(2) show ?thesis
    by (auto simp: stuck_join_def main_thread_def split: if_splits) (metis Suc_leI le_neq_implies_less thread_pc.distinct)+
qed

section \<open>Properties\<close>

text \<open>
  C4: however the threads are scheduled, spurious wakeups included, no assertion fails and no
  pointer is bad; the tasks are taken in the order in which they were added; and when the pool is
  destroyed every task's node has been freed.
\<close>

theorem thread_pool_safe:
  assumes "tp_moves (pool_init n ts) s"
  shows "main_thread t s \<noteq> Fault \<and> (\<forall>u < length (threads s). thread_routine u s \<noteq> Fault)
    \<and> (\<exists>rest. ts = taken s @ rest) \<and> (pool s = None \<longrightarrow> nodes s = Map.empty)"
proof -
  have inv: "tp_inv ts s" by (rule tp_inv_moves [OF assms tp_inv_init])
  moreover from inv have "(\<exists>rest. ts = taken s @ rest) \<and> (pool s = None \<longrightarrow> nodes s = Map.empty)"
    by (cases "pool s") (auto simp: tp_inv_def pool_inv_def)
  ultimately show ?thesis using thread_routine_ok(1) [OF inv] main_thread_ok(1) [OF inv] by blast
qed

lemma one_step_in: "thread_routine t s = Done s' \<Longrightarrow> t < length (threads s) \<Longrightarrow> tp_moves s0 s \<Longrightarrow> tp_moves s0 s'"
  by (erule rtranclp.rtrancl_into_rtrancl) (blast intro: step_thread)

lemma main_step_in: "main_thread t s = Done s' \<Longrightarrow> tp_moves s0 s \<Longrightarrow> tp_moves s0 s'"
  by (erule rtranclp.rtrancl_into_rtrancl) (blast intro: step_main)

text \<open>A run of a pool with one thread and one task: main adds it, the thread takes it.\<close>

definition tp_example :: "(nat \<Rightarrow> tp_state \<Rightarrow> tp_state outcome) list \<Rightarrow> tp_state \<Rightarrow> tp_state" where
  "tp_example acts s = fold (\<lambda>a s. case a 0 s of Done s' \<Rightarrow> s' | _ \<Rightarrow> s) acts s"

lemma tp_example_moves:
  "set acts \<subseteq> {thread_routine, main_thread} \<Longrightarrow> threads s \<noteq> [] \<Longrightarrow> tp_moves s0 s \<Longrightarrow>
     length (threads (tp_example acts s)) = length (threads s) \<and> tp_moves s0 (tp_example acts s)"
proof (induction acts arbitrary: s)
  case Nil
  then show ?case by (simp add: tp_example_def)
next
  case (Cons a acts)
  have len: "length (threads s') = length (threads s)" if "a 0 s = Done s'" for s'
  proof -
    from Cons.prems(1) that have "thread_routine 0 s = Done s' \<or> main_thread 0 s = Done s'" by auto
    then show ?thesis
      by (auto simp: thread_routine_def main_thread_def set_pc_def set_pool_def pool_add_worker_def Let_def
          split: thread_pc.splits main_pc.splits option.splits if_splits list.splits bind_splits)
  qed
  show ?case
  proof (cases "a 0 s")
    case (Done s')
    have "tp_moves s0 s'"
      using Cons.prems Done one_step_in [of 0 s s' s0] main_step_in [of 0 s s' s0] by auto
    moreover have "threads s' \<noteq> []" using len [OF Done] Cons.prems(2) by auto
    ultimately show ?thesis using Cons.IH [of s'] Cons.prems(1) Done len [OF Done] by (simp add: tp_example_def)
  qed (use Cons in \<open>simp_all add: tp_example_def\<close>)
qed

lemmas tp_evaluate = tp_example_def pool_init_def thread_routine_def main_thread_def pool_add_worker_def
  set_pc_def set_pool_def Let_def

lemma thread_pool_safe_witness:
  "\<exists>s. tp_moves (pool_init 1 [(7, 3)]) s \<and> taken s = [(7, 3)] \<and> main_thread 0 s \<noteq> Fault \<and> thread_routine 0 s \<noteq> Fault"
proof -
  let ?acts = "[main_thread, main_thread, thread_routine, thread_routine, thread_routine]"
  let ?s = "tp_example ?acts (pool_init 1 [(7, 3)])"
  have moves: "tp_moves (pool_init 1 [(7, 3)]) ?s"
    using tp_example_moves [of ?acts "pool_init 1 [(7, 3)]" "pool_init 1 [(7, 3)]"] by (simp add: pool_init_def)
  have "taken ?s = [(7, 3)]" "length (threads ?s) = 1" by (simp_all add: tp_evaluate)
  with thread_pool_safe [OF moves, of 0] moves show ?thesis by (intro exI [of _ ?s]) simp
qed

text \<open>
  C5: no task is stranded: when the main thread sleeps in front of the destruction and no
  thread can move, every task has been taken and finished, the queue is empty and its count is 0,
  and all threads wait for more.
\<close>

theorem thread_pool_no_task_stranded:
  assumes "0 < n" and "tp_moves (pool_init n ts) s" and "main_at s = In_sleep"
    and "\<forall>u < length (threads s). thread_routine u s = Blocked"
  shows "taken s = ts \<and> nodes s = Map.empty \<and> (\<exists>p. pool s = Some p \<and> cur_queue_size p = 0 \<and> queue_head p = None)
    \<and> (\<forall>pc \<in> set (threads s). pc = Sleeping_on_cond)"
proof -
  have inv: "tp_inv ts s" by (rule tp_inv_moves [OF assms(2) tp_inv_init])
  with assms(3) obtain p as where p: "pool s = Some p" "pool_inv ts p s as"
    by (cases "pool s") (auto simp: tp_inv_def)
  have len: "length (threads s) = n" by (rule tp_moves_length [OF assms(2)])
  have nohold: "\<not> has_lock (threads s ! u)" if "u < length (threads s)" for u
  proof -
    have "thread_routine u s = Blocked" using assms(4) that by simp
    then show ?thesis
      using p(1) by (cases "threads s ! u") (simp_all add: thread_routine_def split: if_splits option.splits)
  qed
  have free: "queue_lock p = None"
  proof (cases "queue_lock p")
    case (Some u)
    then have "holder (threads s) u" using p(2) by (simp add: pool_inv_def locks_ok_def)
    with nohold [of u] show ?thesis by (simp add: holder_def)
  qed
  have go: "\<not> shutdown p" using p(2) assms(3) by (simp add: pool_inv_def main_ok_def stopping_def)
  have sleep: "pc = Sleeping_on_cond" if "pc \<in> set (threads s)" for pc
  proof -
    from that obtain u where u: "u < length (threads s)" "threads s ! u = pc" by (auto simp: in_set_conv_nth)
    have "pc \<noteq> Exited" using p(2) go that by (auto simp: pool_inv_def progress_ok_def)
    moreover have "thread_routine u s = Blocked" using assms(4) u(1) by simp
    ultimately show ?thesis
      using u(2) p(1) free nohold [OF u(1)]
      by (cases pc) (simp_all add: thread_routine_def split: option.splits)
  qed
  have size: "cur_queue_size p = 0"
    using p(2) sleep assms(1,3) len by (auto simp: pool_inv_def progress_ok_def)
  from p(2) have q: "queue_inv (nodes s) (queue_head p) (running (threads s)) (next_node s) as"
    "cur_queue_size p = int (length as)" by (simp_all add: pool_inv_def queue_ok_def)
  have as: "as = []" using size q(2) by simp
  have "running (threads s) u = None" for u
    using sleep [OF nth_mem, of u] by (simp add: running_def)
  then have "nodes s a = None" for a
    using queue_invD(6) [OF q(1), of a] as by (cases "nodes s a") auto
  moreover have "queue_head p = None" using queue_invD(1) [OF q(1)] as by simp
  moreover have "taken s = ts" using p(2) as assms(3) by (simp add: pool_inv_def to_add_def)
  ultimately show ?thesis using size p(1) sleep by auto
qed

lemma thread_pool_no_task_stranded_witness:
  "\<exists>s. tp_moves (pool_init 1 [(7, 3)]) s \<and> main_at s = In_sleep \<and> taken s = [(7, 3)] \<and> nodes s = Map.empty"
proof -
  let ?acts = "[main_thread, main_thread, main_thread, thread_routine, thread_routine, thread_routine, thread_routine,
      thread_routine, thread_routine, thread_routine]"
  let ?s = "tp_example ?acts (pool_init 1 [(7, 3)])"
  have moves: "tp_moves (pool_init 1 [(7, 3)]) ?s"
    using tp_example_moves [of ?acts "pool_init 1 [(7, 3)]" "pool_init 1 [(7, 3)]"] by (simp add: pool_init_def)
  have "main_at ?s = In_sleep" "\<forall>u < length (threads ?s). thread_routine u ?s = Blocked"
    by (simp_all add: tp_evaluate)
  from thread_pool_no_task_stranded [OF _ moves this] show ?thesis
    using moves by (intro exI [of _ ?s]) (simp add: tp_evaluate)
qed

text \<open>
  The destruction can lose its wakeup: \<open>pool_destroy\<close> sets \<open>shutdown\<close> and broadcasts without
  the lock, so a thread that has just found the queue empty, with \<open>shutdown\<close> still unset, goes to
  sleep after the broadcast; from then on it sleeps forever, unless it wakes without a reason, and
  \<open>pool_destroy\<close> never returns from joining it.
\<close>

theorem thread_pool_lost_wakeup:
  assumes "tp_moves (pool_init n ts) s" and "main_at s = In_sleep" and "t < n" and "threads s ! t = Going_to_wait"
  shows "\<exists>s'. (tp_step ^^ 3) s s' \<and> (\<forall>s''. tp_step\<^sup>*\<^sup>* s' s'' \<longrightarrow>
    threads s'' ! t = Sleeping_on_cond \<and> main_at s'' \<noteq> Finished)"
proof -
  have inv: "tp_inv ts s" by (rule tp_inv_moves [OF assms(1) tp_inv_init])
  with assms(2) obtain p as where p: "pool s = Some p" "pool_inv ts p s as"
    by (cases "pool s") (auto simp: tp_inv_def)
  have len: "length (threads s) = n" by (rule tp_moves_length [OF assms(1)])
  have max: "max_thread_num p = n" using p(2) len by (simp add: pool_inv_def main_ok_def)
  have go: "\<not> shutdown p" using p(2) assms(2) by (simp add: pool_inv_def main_ok_def stopping_def)
  let ?p1 = "p\<lparr>shutdown := True\<rparr>"
  let ?s1 = "set_pool ?p1 (s\<lparr>main_at := Broadcasting\<rparr>)"
  let ?s2 = "?s1\<lparr>threads := map wake (threads ?s1), main_at := Joining 0\<rparr>"
  let ?s3 = "set_pc t Sleeping_on_cond (set_pool (?p1\<lparr>queue_lock := None\<rparr>) ?s2)"
  have "tp_step s ?s1" using p(1) assms(2) go by (intro step_main [of 0]) (simp add: main_thread_def)
  moreover have "tp_step ?s1 ?s2" by (intro step_main [of 0]) (simp add: main_thread_def set_pool_def)
  moreover have "tp_step ?s2 ?s3"
    by (intro step_thread [of t])
      (use assms(3,4) len in \<open>simp_all add: thread_routine_def set_pool_def wake_def\<close>)
  ultimately have three: "(tp_step ^^ 3) s ?s3" by (auto simp: numeral_3_eq_3)
  have "stuck_join t s''" if "tp_step\<^sup>*\<^sup>* ?s3 s''" for s''
    using that
  proof (induction rule: rtranclp_induct)
    case base
    show ?case using assms(3) len max
      by (simp add: stuck_join_def set_pc_def set_pool_def)
  next
    case (step u v)
    from step.hyps(2) step.IH show ?case by (rule stuck_join_step)
  qed
  moreover have "threads s'' ! t = Sleeping_on_cond \<and> main_at s'' \<noteq> Finished" if "stuck_join t s''" for s''
    using that by (auto simp: stuck_join_def)
  ultimately have "\<forall>s''. tp_step\<^sup>*\<^sup>* ?s3 s'' \<longrightarrow> threads s'' ! t = Sleeping_on_cond \<and> main_at s'' \<noteq> Finished"
    by blast
  with three show ?thesis by blast
qed

lemma thread_pool_lost_wakeup_witness:
  "\<exists>s s'. tp_moves (pool_init 1 []) s \<and> (tp_step ^^ 3) s s'
     \<and> (\<forall>s''. tp_step\<^sup>*\<^sup>* s' s'' \<longrightarrow> threads s'' ! 0 = Sleeping_on_cond \<and> main_at s'' \<noteq> Finished)"
proof -
  let ?acts = "[main_thread, thread_routine, thread_routine]"
  let ?s = "tp_example ?acts (pool_init 1 [])"
  have moves: "tp_moves (pool_init 1 []) ?s"
    using tp_example_moves [of ?acts "pool_init 1 []" "pool_init 1 []"] by (simp add: pool_init_def)
  have "main_at ?s = In_sleep" "threads ?s ! 0 = Going_to_wait" by (simp_all add: tp_evaluate)
  from thread_pool_lost_wakeup [OF moves this(1) _ this(2)] moves show ?thesis by auto
qed

end
