(* ===== verification/PoolWorkers.thy ===== *)
theory PoolWorkers
  imports Prelude
begin

text \<open>
  What the two thread pools in C++ share: worker threads at positions of their loop, a mutex that
  one of them or the main thread holds, tasks numbered in the order in which they are submitted,
  and the account of which of them are queued, being run, or done.
\<close>

section \<open>Threads at positions\<close>

datatype thread_id = Main | Worker nat

text \<open>What each worker has at its position, if anything.\<close>

definition slots :: "('pc \<Rightarrow> 'a option) \<Rightarrow> 'pc list \<Rightarrow> nat \<Rightarrow> 'a option" where
  "slots f ws t = (if t < length ws then f (ws ! t) else None)"

lemma slots_update: "t < length ws \<Longrightarrow> slots f (ws[t := pc]) = (slots f ws)(t := f pc)"
  by (auto simp: slots_def fun_eq_iff)

lemma slots_same: "t < length ws \<Longrightarrow> f pc = f (ws ! t) \<Longrightarrow> slots f (ws[t := pc]) = slots f ws"
  by (simp add: slots_update) (simp add: slots_def fun_eq_iff)

lemma slots_map: "(\<And>pc. f (g pc) = f pc) \<Longrightarrow> slots f (map g ws) = slots f ws"
  by (simp add: slots_def fun_eq_iff)

lemma slots_SomeD: "slots f ws t = Some a \<Longrightarrow> t < length ws \<and> f (ws ! t) = Some a"
  by (auto simp: slots_def split: if_splits)

text \<open>The mutex is held by the thread at a position inside the critical section, and by no other.\<close>

definition lock_ok :: "('pc \<Rightarrow> bool) \<Rightarrow> 'pc list \<Rightarrow> bool \<Rightarrow> thread_id option \<Rightarrow> bool" where
  "lock_ok hl ws in_main m \<longleftrightarrow>
     (\<forall>t. t < length ws \<and> hl (ws ! t) \<longleftrightarrow> m = Some (Worker t)) \<and> (in_main \<longleftrightarrow> m = Some Main)"

lemma lock_okD:
  "lock_ok hl ws b m \<Longrightarrow> t < length ws \<Longrightarrow> hl (ws ! t) \<Longrightarrow> m = Some (Worker t)"
  "lock_ok hl ws b m \<Longrightarrow> b \<Longrightarrow> m = Some Main"
  "lock_ok hl ws b (Some (Worker t)) \<Longrightarrow> t < length ws \<and> hl (ws ! t)"
  "lock_ok hl ws b (Some Main) \<Longrightarrow> b"
  by (auto simp: lock_ok_def)

lemma lock_ok_other:
  "lock_ok hl ws b m \<Longrightarrow> t < length ws \<Longrightarrow> hl (ws ! t) \<Longrightarrow> u < length ws \<Longrightarrow> u \<noteq> t \<Longrightarrow> \<not> hl (ws ! u)"
  using lock_okD(1) [of hl ws b m t] lock_okD(1) [of hl ws b m u] by auto

lemma lock_ok_keep:
  "lock_ok hl ws b m \<Longrightarrow> t < length ws \<Longrightarrow> hl pc = hl (ws ! t) \<Longrightarrow> lock_ok hl (ws[t := pc]) b m"
  by (auto simp: lock_ok_def nth_list_update)

lemma lock_ok_take:
  "lock_ok hl ws b None \<Longrightarrow> t < length ws \<Longrightarrow> hl pc \<Longrightarrow> lock_ok hl (ws[t := pc]) b (Some (Worker t))"
  by (auto simp: lock_ok_def nth_list_update)

lemma lock_ok_drop:
  "lock_ok hl ws b m \<Longrightarrow> t < length ws \<Longrightarrow> hl (ws ! t) \<Longrightarrow> \<not> hl pc \<Longrightarrow> lock_ok hl (ws[t := pc]) b None"
proof -
  assume l: "lock_ok hl ws b m" and t: "t < length ws" "hl (ws ! t)" and pc: "\<not> hl pc"
  have "\<not> hl (ws[t := pc] ! u)" if "u < length ws" for u
    using lock_ok_other [OF l t that] pc t(1) by (cases "u = t") simp_all
  moreover have "\<not> b" using l lock_okD(1) [OF l t] by (simp add: lock_ok_def)
  ultimately show ?thesis by (simp add: lock_ok_def)
qed

lemma lock_ok_map: "(\<And>pc. hl (g pc) = hl pc) \<Longrightarrow> lock_ok hl (map g ws) b m = lock_ok hl ws b m"
  by (simp add: lock_ok_def cong: conj_cong)

lemma lock_ok_main:
  "lock_ok hl ws b None \<Longrightarrow> lock_ok hl ws True (Some Main)"
  "lock_ok hl ws True m \<Longrightarrow> lock_ok hl ws False None"
  by (auto simp: lock_ok_def)

text \<open>A worker at a position of some kind.\<close>

definition some_at :: "('pc \<Rightarrow> bool) \<Rightarrow> 'pc list \<Rightarrow> bool" where
  "some_at P ws \<longleftrightarrow> (\<exists>t < length ws. P (ws ! t))"

lemma some_at_update: "t < length ws \<Longrightarrow> P pc \<Longrightarrow> some_at P (ws[t := pc])"
  by (auto simp: some_at_def intro: exI [of _ t])

lemma some_at_keep:
  "some_at P ws \<Longrightarrow> t < length ws \<Longrightarrow> P pc \<or> \<not> P (ws ! t) \<Longrightarrow> some_at P (ws[t := pc])"
  by (auto simp: some_at_def nth_list_update)

lemma some_at_map: "some_at P ws \<Longrightarrow> (\<And>pc. P pc \<Longrightarrow> P (g pc)) \<Longrightarrow> some_at P (map g ws)"
  by (auto simp: some_at_def)

section \<open>The account of the tasks\<close>

text \<open>
  Of the tasks below \<open>k\<close>, the ones in \<open>d\<close> are done and the others are each run by one worker; the
  tasks from \<open>k\<close> on have not been started.
\<close>

definition accounts :: "nat \<Rightarrow> (nat \<Rightarrow> nat option) \<Rightarrow> nat set \<Rightarrow> bool" where
  "accounts k r d \<longleftrightarrow>
     (\<forall>t a. r t = Some a \<longrightarrow> a < k \<and> a \<notin> d)
     \<and> (\<forall>t u a. r t = Some a \<longrightarrow> r u = Some a \<longrightarrow> t = u)
     \<and> (\<forall>a < k. a \<in> d \<or> (\<exists>t. r t = Some a)) \<and> d \<subseteq> {..<k}"

lemma accountsD:
  assumes "accounts k r d"
  shows "r t = Some a \<Longrightarrow> a < k" "r t = Some a \<Longrightarrow> a \<notin> d" "r t = Some a \<Longrightarrow> r u = Some a \<Longrightarrow> t = u"
    "a < k \<Longrightarrow> a \<notin> d \<Longrightarrow> \<exists>t. r t = Some a" "a \<in> d \<Longrightarrow> a < k"
  using assms unfolding accounts_def by blast+

lemma accounts_start: "accounts 0 (\<lambda>_. None) {}"
  by (simp add: accounts_def)

lemma accounts_take:
  assumes "accounts k r d" "r t = None"
  shows "accounts (k + 1) (r(t := Some k)) d"
  unfolding accounts_def
proof (intro conjI allI impI)
  note A = accountsD [OF assms(1)]
  show "a < k + 1" "a \<notin> d" if "(r(t := Some k)) u = Some a" for u a
    using that A(1,2) [of u a] A(5) [of k] by (auto split: if_splits)
  show "u = v" if "(r(t := Some k)) u = Some a" "(r(t := Some k)) v = Some a" for u v a
    using that A(3) [of u a v] A(1) [of u a] A(1) [of v a] by (auto split: if_splits)
  show "a \<in> d \<or> (\<exists>u. (r(t := Some k)) u = Some a)" if "a < k + 1" for a
  proof (cases "a = k")
    case True
    then show ?thesis by (intro disjI2 exI [of _ t]) simp
  next
    case False
    then show ?thesis using that A(4) [of a] assms(2) by (metis Suc_eq_plus1 fun_upd_other less_SucE option.distinct(1))
  qed
  show "d \<subseteq> {..<k + 1}" using A(5) by (auto simp: less_Suc_eq)
qed

lemma accounts_finish:
  assumes "accounts k r d" "r t = Some a"
  shows "accounts k (r(t := None)) (insert a d)"
  unfolding accounts_def
proof (intro conjI allI impI)
  note A = accountsD [OF assms(1)]
  show "b < k" "b \<notin> insert a d" if "(r(t := None)) u = Some b" for u b
    using that A(1,2) [of u b] A(3) [OF assms(2), of u] by (auto split: if_splits)
  show "u = v" if "(r(t := None)) u = Some b" "(r(t := None)) v = Some b" for u v b
    using that A(3) [of u b v] by (auto split: if_splits)
  show "b \<in> insert a d \<or> (\<exists>u. (r(t := None)) u = Some b)" if "b < k" for b
  proof (cases "b = a")
    case False
    then show ?thesis using A(4) [OF that] assms(2) by (metis fun_upd_other insertCI option.inject)
  qed simp
  show "insert a d \<subseteq> {..<k}" using A(1) [OF assms(2)] A(5) by auto
qed

text \<open>Nothing queued: every task is done or being run.\<close>

lemma accounts_pending: "accounts k r d \<Longrightarrow> a \<notin> d \<Longrightarrow> a < k \<Longrightarrow> \<exists>t. r t = Some a"
  by (rule accountsD(4))

section \<open>Text printed by several threads\<close>

text \<open>What is sent to \<open>std::cout\<close> by one \<open><<\<close>.\<close>

datatype piece = Str string | Num int | Newline

text \<open>What one of them printed, in order.\<close>

definition text_of :: "'w \<Rightarrow> ('w \<times> 'p) list \<Rightarrow> 'p list" where
  "text_of w out = map snd (filter (\<lambda>e. fst e = w) out)"

lemma text_of_simps [simp]:
  "text_of w [] = []"
  "text_of w (out @ [(v, p)]) = (if v = w then text_of w out @ [p] else text_of w out)"
  by (simp_all add: text_of_def)

section \<open>The queue\<close>

text \<open>
  The queue holds the tasks that have been submitted and not taken, in their order; the others are
  done or run by one worker each, and the futures of those that are done hold their results.
\<close>

definition queue_ok :: "('pc \<Rightarrow> nat option) \<Rightarrow> (nat \<Rightarrow> 'r) \<Rightarrow> nat list \<Rightarrow> 'pc list \<Rightarrow> (nat \<Rightarrow> 'r option) \<Rightarrow> nat \<Rightarrow> bool" where
  "queue_ok it res q ws fut n \<longleftrightarrow> (\<exists>k \<le> n. q = [k..<n] \<and> accounts k (slots it ws) {a. fut a \<noteq> None})
     \<and> (\<forall>a v. fut a = Some v \<longrightarrow> v = res a)"

lemma queue_okE:
  assumes "queue_ok it res q ws fut n"
  obtains k where "k \<le> n" "q = [k..<n]" "accounts k (slots it ws) {a. fut a \<noteq> None}"
    "\<forall>a v. fut a = Some v \<longrightarrow> v = res a"
  using assms by (auto simp: queue_ok_def)

lemma queue_ok_start: "(\<And>t. t < length ws \<Longrightarrow> it (ws ! t) = None) \<Longrightarrow> queue_ok it res [] ws (\<lambda>_. None) 0"
proof -
  assume none: "\<And>t. t < length ws \<Longrightarrow> it (ws ! t) = None"
  have "slots it ws = (\<lambda>_. None)" using none by (simp add: slots_def fun_eq_iff)
  then show ?thesis by (simp add: queue_ok_def accounts_start)
qed

lemma queue_ok_same:
  "queue_ok it res q ws fut n \<Longrightarrow> t < length ws \<Longrightarrow> it pc = it (ws ! t) \<Longrightarrow> queue_ok it res q (ws[t := pc]) fut n"
  by (simp add: queue_ok_def slots_same)

lemma queue_ok_map: "(\<And>pc. it (g pc) = it pc) \<Longrightarrow> queue_ok it res q (map g ws) fut n = queue_ok it res q ws fut n"
  by (simp add: queue_ok_def slots_map)

lemma queue_ok_take:
  assumes "queue_ok it res q ws fut n" "q \<noteq> []" "t < length ws" "it (ws ! t) = None" "it pc = Some (hd q)"
  shows "queue_ok it res (tl q) (ws[t := pc]) fut n"
  using assms(1)
proof (rule queue_okE)
  fix k assume k: "k \<le> n" "q = [k..<n]" "accounts k (slots it ws) {a. fut a \<noteq> None}"
    "\<forall>a v. fut a = Some v \<longrightarrow> v = res a"
  have less: "k < n" using assms(2) k(2) by simp
  then have q: "hd q = k" "tl q = [k + 1..<n]" using k(2) by (simp_all add: upt_conv_Cons)
  have "slots it ws t = None" using assms(3,4) by (simp add: slots_def)
  from accounts_take [OF k(3) this] have "accounts (k + 1) (slots it (ws[t := pc])) {a. fut a \<noteq> None}"
    by (simp add: slots_update [OF assms(3)] assms(5) q(1))
  then show ?thesis
    unfolding queue_ok_def q(2) using less k(4) by (intro conjI exI [of _ "k + 1"]) simp_all
qed

lemma queue_ok_finish:
  assumes "queue_ok it res q ws fut n" "t < length ws" "it (ws ! t) = Some i" "it pc = None"
  shows "queue_ok it res q (ws[t := pc]) (fut(i := Some (res i))) n"
  using assms(1)
proof (rule queue_okE)
  fix k assume k: "k \<le> n" "q = [k..<n]" "accounts k (slots it ws) {a. fut a \<noteq> None}"
    "\<forall>a v. fut a = Some v \<longrightarrow> v = res a"
  have "slots it ws t = Some i" using assms(2,3) by (simp add: slots_def)
  from accounts_finish [OF k(3) this]
  have "accounts k (slots it (ws[t := pc])) (insert i {a. fut a \<noteq> None})"
    by (simp add: slots_update [OF assms(2)] assms(4))
  moreover have dones: "{a. (fut(i := Some (res i))) a \<noteq> None} = insert i {a. fut a \<noteq> None}" by auto
  ultimately show ?thesis
    unfolding queue_ok_def dones using k(1,2,4) by (intro conjI exI [of _ k]) auto
qed

lemma queue_ok_submit: "queue_ok it res q ws fut n \<Longrightarrow> queue_ok it res (q @ [n]) ws fut (Suc n)"
  by (auto simp: queue_ok_def)

lemma queue_ok_running:
  assumes "queue_ok it res q ws fut n" "t < length ws" "it (ws ! t) = Some i"
  shows "fut i = None" "i \<notin> set q" "i < n"
    "\<And>u. u < length ws \<Longrightarrow> it (ws ! u) = Some i \<Longrightarrow> u = t"
proof -
  obtain k where k: "k \<le> n" "q = [k..<n]" "accounts k (slots it ws) {a. fut a \<noteq> None}"
    using queue_okE [OF assms(1)] by metis
  have r: "slots it ws t = Some i" using assms(2,3) by (simp add: slots_def)
  from accountsD(1,2) [OF k(3) r] k(1,2) show "fut i = None" "i \<notin> set q" "i < n" by auto
  show "u = t" if "u < length ws" "it (ws ! u) = Some i" for u
  proof -
    have "slots it ws u = Some i" using that by (simp add: slots_def)
    with accountsD(3) [OF k(3)] r show ?thesis by blast
  qed
qed

lemma queue_ok_result: "queue_ok it res q ws fut n \<Longrightarrow> fut i = Some v \<Longrightarrow> v = res i"
  by (auto simp: queue_ok_def)

text \<open>Where a task can be; and nothing is queued when the last task is done.\<close>

lemma queue_ok_where:
  assumes "queue_ok it res q ws fut n"
  shows "n \<le> i \<or> i \<in> set q \<or> (\<exists>t < length ws. it (ws ! t) = Some i) \<or> fut i \<noteq> None"
proof -
  obtain k where k: "k \<le> n" "q = [k..<n]" "accounts k (slots it ws) {a. fut a \<noteq> None}"
    using queue_okE [OF assms] by metis
  have "\<exists>t < length ws. it (ws ! t) = Some i" if "i < k" "fut i = None"
    using accounts_pending [OF k(3) _ that(1)] that(2) by (auto dest: slots_SomeD)
  with k(1,2) show ?thesis by (cases "i < k") auto
qed

lemma queue_ok_last:
  assumes "queue_ok it res q ws fut (Suc n)" "fut n \<noteq> None"
  shows "q = []"
proof -
  obtain k where k: "k \<le> Suc n" "q = [k..<Suc n]" "accounts k (slots it ws) {a. fut a \<noteq> None}"
    using queue_okE [OF assms(1)] by metis
  have "n < k" using accountsD(5) [OF k(3), of n] assms(2) by simp
  with k(2) show ?thesis by simp
qed

section \<open>What the tasks print\<close>

text \<open>A worker in a task has said \<open>sd\<close> of its position; a task that is done has printed its \<open>line\<close>.\<close>

definition texts_ok :: "('pc \<Rightarrow> nat option) \<Rightarrow> ('pc \<Rightarrow> 'p list) \<Rightarrow> (nat \<Rightarrow> 'p list) \<Rightarrow> (nat option \<times> 'p) list \<Rightarrow>
    nat list \<Rightarrow> 'pc list \<Rightarrow> (nat \<Rightarrow> 'r option) \<Rightarrow> nat \<Rightarrow> bool" where
  "texts_ok it sd line out q ws fut n \<longleftrightarrow>
     (\<forall>t < length ws. \<forall>i. it (ws ! t) = Some i \<longrightarrow> text_of (Some i) out = sd (ws ! t))
     \<and> (\<forall>i. fut i \<noteq> None \<longrightarrow> text_of (Some i) out = line i)
     \<and> (\<forall>i. i \<in> set q \<or> n \<le> i \<longrightarrow> text_of (Some i) out = [])"

lemma texts_ok_move:
  "texts_ok it sd line out q ws fut n \<Longrightarrow> it pc = None \<Longrightarrow> texts_ok it sd line out q (ws[t := pc]) fut n"
  by (cases "t < length ws") (auto simp: texts_ok_def nth_list_update list_update_beyond not_less)

lemma texts_ok_map:
  "texts_ok it sd line out q ws fut n \<Longrightarrow> (\<And>pc. it (g pc) = it pc) \<Longrightarrow> (\<And>pc. sd (g pc) = sd pc) \<Longrightarrow>
     texts_ok it sd line out q (map g ws) fut n"
  by (simp add: texts_ok_def)

lemma texts_ok_take:
  assumes "texts_ok it sd line out q ws fut n" "q \<noteq> []" "it pc = Some (hd q)" "sd pc = []"
  shows "texts_ok it sd line out (tl q) (ws[t := pc]) fut n"
proof (cases "t < length ws")
  case True
  then show ?thesis using assms unfolding texts_ok_def
    by (auto simp: nth_list_update dest: list.set_sel(2))
qed (use assms in \<open>auto simp: texts_ok_def list_update_beyond not_less dest: list.set_sel(2)\<close>)

lemma texts_ok_print:
  assumes texts: "texts_ok it sd line out q ws fut n" and queue: "queue_ok it res q ws fut n"
    and t: "t < length ws" "it (ws ! t) = Some i" and pc: "it pc = Some i" "sd pc = sd (ws ! t) @ [p]"
  shows "texts_ok it sd line (out @ [(Some i, p)]) q (ws[t := pc]) fut n"
proof -
  note R = queue_ok_running [OF queue t]
  have "text_of (Some j) (out @ [(Some i, p)]) = sd (ws[t := pc] ! u)"
    if "u < length ws" "it (ws[t := pc] ! u) = Some j" for u j
  proof (cases "u = t")
    case True
    then show ?thesis using that t pc texts by (auto simp: texts_ok_def)
  next
    case False
    then have "it (ws ! u) = Some j" using that by simp
    moreover from this have "j \<noteq> i" using R(4) [OF that(1)] False by auto
    ultimately show ?thesis using that(1) False texts by (auto simp: texts_ok_def)
  qed
  moreover have "i \<notin> set q" "i < n" "fut i = None" by (rule R)+
  ultimately show ?thesis using texts by (auto simp: texts_ok_def)
qed

text \<open>A step of a task that prints nothing.\<close>

lemma texts_ok_silent:
  "texts_ok it sd line out q ws fut n \<Longrightarrow> t < length ws \<Longrightarrow> it pc = it (ws ! t) \<Longrightarrow> sd pc = sd (ws ! t) \<Longrightarrow>
     texts_ok it sd line out q (ws[t := pc]) fut n"
  by (auto simp: texts_ok_def nth_list_update)

lemma texts_ok_finish:
  assumes "texts_ok it sd line out q ws fut n" "t < length ws" "it (ws ! t) = Some i" "sd (ws ! t) = line i"
    "it pc = None"
  shows "texts_ok it sd line out q (ws[t := pc]) (fut(i := Some v)) n"
  using texts_ok_move [OF assms(1,5), of t] assms(1-4) by (auto simp: texts_ok_def)

lemma texts_ok_main:
  "texts_ok it sd line out q ws fut n \<Longrightarrow> texts_ok it sd line (out @ [(None, p)]) q ws fut n"
  by (simp add: texts_ok_def)

lemma texts_ok_submit: "texts_ok it sd line out q ws fut n \<Longrightarrow> texts_ok it sd line out (q @ [n]) ws fut (Suc n)"
  by (auto simp: texts_ok_def)

text \<open>So a task has printed an initial part of its line at any time.\<close>

lemma texts_ok_partial:
  assumes "texts_ok it sd line out q ws fut n" "queue_ok it res q ws fut n"
    and "\<And>t i. t < length ws \<Longrightarrow> it (ws ! t) = Some i \<Longrightarrow> \<exists>m. sd (ws ! t) = take m (line i)"
  shows "\<exists>m. text_of (Some i) out = take m (line i)"
proof -
  consider "n \<le> i \<or> i \<in> set q" | "fut i \<noteq> None" | t where "t < length ws" "it (ws ! t) = Some i"
    using queue_ok_where [OF assms(2), of i] by blast
  then show ?thesis
  proof cases
    case 1
    then have "text_of (Some i) out = take 0 (line i)" using assms(1) by (auto simp: texts_ok_def)
    then show ?thesis by blast
  next
    case 2
    then have "text_of (Some i) out = take (length (line i)) (line i)" using assms(1) by (auto simp: texts_ok_def)
    then show ?thesis by blast
  next
    case 3
    then have "text_of (Some i) out = sd (ws ! t)" using assms(1) by (auto simp: texts_ok_def)
    then show ?thesis using assms(3) [OF 3] by simp
  qed
qed

end
