(* ===== verification/FuturePool.thy ===== *)
theory FuturePool
  imports PoolWorkers
begin

text \<open>
  \<open>3.Thread/5.thread_pool/3.ThreadPool_CXX\<close>: a pool whose \<open>enqueue\<close> returns a future.  Its workers
  wait on a condition variable with the predicate that the pool is stopped or there is a task; the
  destructor stops the pool and joins them.  The program submits eight tasks that print and return
  a square, and prints the eight results.  A step is what a thread does between two points at
  which another can see it; a waiter can wake without a signal.
\<close>

section \<open>The program\<close>

abbreviation (input) THREADS :: nat where "THREADS \<equiv> 4"
abbreviation (input) TASKS :: nat where "TASKS \<equiv> 8"

text \<open>
  Where a worker is: not yet started, about to lock, at the predicate, asleep, woken and about to
  lock again, behind the wait with the lock, in its task (after so many pieces of its text), or gone.
\<close>

datatype fp_worker_pc =
  Not_started
| Wants_lock
| At_predicate
| Asleep
| Woken
| Has_waited
| In_task nat nat
| Returned

text \<open>
  Where \<open>main\<close> is: in the constructor of the pool, in \<open>enqueue\<close> of a task (about to lock, with the
  lock, about to notify), at the future of a task or behind it, at the end of the line, in the
  destructor (about to lock, with the lock, about to notify, joining), or at its end.
\<close>

datatype fp_main_pc =
  Constructs nat
| Enqueues nat
| Emplaces nat
| Notifies nat
| Gets nat
| Got nat
| Ends_line
| Destructs
| Stops
| Notifies_all
| Joins nat
| Done
| Thrown

record future_pool =
  tasks :: "nat list"
  queue_mutex :: "thread_id option"
  stop :: bool
  workers :: "fp_worker_pc list"
  futures :: "nat \<Rightarrow> int option"
  printed :: "(nat option \<times> piece) list"
  main_at :: fp_main_pc

definition fp_start :: future_pool where
  "fp_start = \<lparr>tasks = [], queue_mutex = None, stop = False, workers = replicate THREADS Not_started,
     futures = (\<lambda>_. None), printed = [], main_at = Constructs 0\<rparr>"

text \<open>The lambda of a task: what it prints, piece by piece, and what it returns.\<close>

definition task_text :: "nat \<Rightarrow> piece list" where
  "task_text i = [Str ''hello '', Num (int i), Newline, Str ''world '', Num (int i), Newline]"

definition task_result :: "nat \<Rightarrow> int" where
  "task_result i = int i * int i"

definition fp_go :: "nat \<Rightarrow> fp_worker_pc \<Rightarrow> future_pool \<Rightarrow> future_pool" where
  "fp_go t pc s = s\<lparr>workers := (workers s)[t := pc]\<rparr>"

text \<open>A worker of the constructor; the move of the task out of the queue ends with the lock given back.\<close>

definition fp_worker_step :: "nat \<Rightarrow> future_pool \<Rightarrow> future_pool option" where
  "fp_worker_step t s = (case workers s ! t of
     Wants_lock \<Rightarrow>
       if queue_mutex s = None then Some (fp_go t At_predicate (s\<lparr>queue_mutex := Some (Worker t)\<rparr>)) else None
   | At_predicate \<Rightarrow>
       if stop s \<or> tasks s \<noteq> [] then Some (fp_go t Has_waited s)
       else Some (fp_go t Asleep (s\<lparr>queue_mutex := None\<rparr>))
   | Woken \<Rightarrow>
       if queue_mutex s = None then Some (fp_go t At_predicate (s\<lparr>queue_mutex := Some (Worker t)\<rparr>)) else None
   | Has_waited \<Rightarrow>
       if stop s \<and> tasks s = [] then Some (fp_go t Returned (s\<lparr>queue_mutex := None\<rparr>))
       else Some (fp_go t (In_task (hd (tasks s)) 0) (s\<lparr>tasks := tl (tasks s), queue_mutex := None\<rparr>))
   | In_task i k \<Rightarrow>
       if k < length (task_text i)
       then Some (fp_go t (In_task i (k + 1)) (s\<lparr>printed := printed s @ [(Some i, task_text i ! k)]\<rparr>))
       else Some (fp_go t Wants_lock (s\<lparr>futures := (futures s)(i := Some (task_result i))\<rparr>))
   | _ \<Rightarrow> None)"

definition fp_wake :: "fp_worker_pc \<Rightarrow> fp_worker_pc" where
  "fp_wake pc = (if pc = Asleep then Woken else pc)"

definition after_enqueue :: "nat \<Rightarrow> fp_main_pc" where
  "after_enqueue i = (if i + 1 < TASKS then Enqueues (i + 1) else Gets 0)"

text \<open>The next step of \<open>main\<close>; \<open>w\<close> is the worker that \<open>notify_one\<close> wakes, when one sleeps.\<close>

definition fp_main_step :: "nat \<Rightarrow> future_pool \<Rightarrow> future_pool option" where
  "fp_main_step w s = (case main_at s of
     Constructs i \<Rightarrow>
       if i < THREADS then Some (fp_go i Wants_lock (s\<lparr>main_at := Constructs (i + 1)\<rparr>))
       else Some (s\<lparr>main_at := Enqueues 0\<rparr>)
   | Enqueues i \<Rightarrow>
       if queue_mutex s = None then Some (s\<lparr>queue_mutex := Some Main, main_at := Emplaces i\<rparr>) else None
   | Emplaces i \<Rightarrow>
       if stop s then Some (s\<lparr>queue_mutex := None, main_at := Thrown\<rparr>)
       else Some (s\<lparr>tasks := tasks s @ [i], queue_mutex := None, main_at := Notifies i\<rparr>)
   | Notifies i \<Rightarrow>
       if w < length (workers s) \<and> workers s ! w = Asleep
       then Some (fp_go w Woken (s\<lparr>main_at := after_enqueue i\<rparr>))
       else if Asleep \<notin> set (workers s) then Some (s\<lparr>main_at := after_enqueue i\<rparr>)
       else None
   | Gets i \<Rightarrow>
       (case futures s i of
          None \<Rightarrow> None
        | Some v \<Rightarrow> Some (s\<lparr>printed := printed s @ [(None, Num v)], main_at := Got i\<rparr>))
   | Got i \<Rightarrow> Some (s\<lparr>printed := printed s @ [(None, Str '' '')],
       main_at := (if i + 1 < TASKS then Gets (i + 1) else Ends_line)\<rparr>)
   | Ends_line \<Rightarrow> Some (s\<lparr>printed := printed s @ [(None, Newline)], main_at := Destructs\<rparr>)
   | Destructs \<Rightarrow>
       if queue_mutex s = None then Some (s\<lparr>queue_mutex := Some Main, main_at := Stops\<rparr>) else None
   | Stops \<Rightarrow> Some (s\<lparr>stop := True, queue_mutex := None, main_at := Notifies_all\<rparr>)
   | Notifies_all \<Rightarrow> Some (s\<lparr>workers := map fp_wake (workers s), main_at := Joins 0\<rparr>)
   | Joins i \<Rightarrow>
       if i < length (workers s)
       then if workers s ! i = Returned then Some (s\<lparr>main_at := Joins (i + 1)\<rparr>) else None
       else Some (s\<lparr>main_at := Done\<rparr>)
   | Done \<Rightarrow> None
   | Thrown \<Rightarrow> None)"

datatype fp_action = Worker_runs nat | Main_runs nat | Spurious nat

fun fp_step :: "fp_action \<Rightarrow> future_pool \<Rightarrow> future_pool option" where
  "fp_step (Worker_runs t) s = (if t < length (workers s) then fp_worker_step t s else None)"
| "fp_step (Main_runs w) s = fp_main_step w s"
| "fp_step (Spurious t) s =
     (if t < length (workers s) \<and> workers s ! t = Asleep then Some (fp_go t Woken s) else None)"

fun fp_run :: "fp_action list \<Rightarrow> future_pool \<Rightarrow> future_pool option" where
  "fp_run [] s = Some s"
| "fp_run (a # as) s = Option.bind (fp_step a s) (fp_run as)"

section \<open>The invariant\<close>

definition has_lock :: "fp_worker_pc \<Rightarrow> bool" where
  "has_lock pc \<longleftrightarrow> pc = At_predicate \<or> pc = Has_waited"

definition main_locked :: "fp_main_pc \<Rightarrow> bool" where
  "main_locked mp \<longleftrightarrow> (case mp of Emplaces i \<Rightarrow> True | Stops \<Rightarrow> True | _ \<Rightarrow> False)"

definition in_task :: "fp_worker_pc \<Rightarrow> nat option" where
  "in_task pc = (case pc of In_task i k \<Rightarrow> Some i | _ \<Rightarrow> None)"

definition awake :: "fp_worker_pc \<Rightarrow> bool" where
  "awake pc \<longleftrightarrow> pc \<noteq> Asleep \<and> pc \<noteq> Not_started \<and> pc \<noteq> Returned"

text \<open>How many tasks have been submitted, futures read, workers joined; and what \<open>main\<close> has printed.\<close>

definition submitted :: "fp_main_pc \<Rightarrow> nat" where
  "submitted mp = (case mp of Constructs i \<Rightarrow> 0 | Enqueues i \<Rightarrow> i | Emplaces i \<Rightarrow> i | Notifies i \<Rightarrow> i + 1
     | _ \<Rightarrow> TASKS)"

definition collected :: "fp_main_pc \<Rightarrow> nat" where
  "collected mp = (case mp of Constructs i \<Rightarrow> 0 | Enqueues i \<Rightarrow> 0 | Emplaces i \<Rightarrow> 0 | Notifies i \<Rightarrow> 0
     | Gets i \<Rightarrow> i | Got i \<Rightarrow> i + 1 | _ \<Rightarrow> TASKS)"

definition joined :: "fp_main_pc \<Rightarrow> nat" where
  "joined mp = (case mp of Joins i \<Rightarrow> i | Done \<Rightarrow> THREADS | _ \<Rightarrow> 0)"

definition stopping :: "fp_main_pc \<Rightarrow> bool" where
  "stopping mp \<longleftrightarrow> (case mp of Notifies_all \<Rightarrow> True | Joins i \<Rightarrow> True | Done \<Rightarrow> True | _ \<Rightarrow> False)"

definition results_text :: "nat \<Rightarrow> piece list" where
  "results_text n = concat (map (\<lambda>i. [Num (task_result i), Str '' '']) [0..<n])"

definition main_text :: "fp_main_pc \<Rightarrow> piece list" where
  "main_text mp = (case mp of Gets i \<Rightarrow> results_text i
     | Got i \<Rightarrow> results_text i @ [Num (task_result i)]
     | Ends_line \<Rightarrow> results_text TASKS
     | Destructs \<Rightarrow> results_text TASKS @ [Newline] | Stops \<Rightarrow> results_text TASKS @ [Newline]
     | Notifies_all \<Rightarrow> results_text TASKS @ [Newline] | Joins i \<Rightarrow> results_text TASKS @ [Newline]
     | Done \<Rightarrow> results_text TASKS @ [Newline] | _ \<Rightarrow> [])"

definition main_within :: "fp_main_pc \<Rightarrow> bool" where
  "main_within mp \<longleftrightarrow> (case mp of Constructs i \<Rightarrow> i \<le> THREADS | Enqueues i \<Rightarrow> i < TASKS | Emplaces i \<Rightarrow> i < TASKS
     | Notifies i \<Rightarrow> i < TASKS | Gets i \<Rightarrow> i < TASKS | Got i \<Rightarrow> i < TASKS | Joins i \<Rightarrow> i \<le> THREADS
     | Thrown \<Rightarrow> False | _ \<Rightarrow> True)"

definition started_ok :: "fp_worker_pc list \<Rightarrow> fp_main_pc \<Rightarrow> bool" where
  "started_ok ws mp \<longleftrightarrow> length ws = THREADS
     \<and> (\<forall>t < THREADS. ws ! t = Not_started \<longleftrightarrow> (\<exists>i \<le> t. mp = Constructs i))"

abbreviation tasks_ok :: "nat list \<Rightarrow> fp_worker_pc list \<Rightarrow> (nat \<Rightarrow> int option) \<Rightarrow> nat \<Rightarrow> bool" where
  "tasks_ok \<equiv> queue_ok in_task task_result"

definition places_ok :: "fp_worker_pc list \<Rightarrow> nat list \<Rightarrow> bool \<Rightarrow> bool" where
  "places_ok ws q st \<longleftrightarrow> (\<forall>t < length ws. (ws ! t = Has_waited \<longrightarrow> st \<or> q \<noteq> []) \<and> (ws ! t = Returned \<longrightarrow> st)
     \<and> (\<forall>i k. ws ! t = In_task i k \<longrightarrow> k \<le> 6))"

definition wake_ok :: "fp_worker_pc list \<Rightarrow> nat list \<Rightarrow> bool \<Rightarrow> fp_main_pc \<Rightarrow> bool" where
  "wake_ok ws q st mp \<longleftrightarrow>
     (q \<noteq> [] \<longrightarrow> (\<exists>i. mp = Notifies i) \<or> some_at awake ws)
     \<and> (st \<longrightarrow> mp = Notifies_all \<or> \<not> some_at (\<lambda>pc. pc = Asleep) ws)"

definition main_ok :: "fp_main_pc \<Rightarrow> bool \<Rightarrow> fp_worker_pc list \<Rightarrow> (nat \<Rightarrow> int option) \<Rightarrow> bool" where
  "main_ok mp st ws fut \<longleftrightarrow> main_within mp \<and> st = stopping mp
     \<and> (\<forall>i < collected mp. fut i \<noteq> None) \<and> (\<forall>i < joined mp. ws ! i = Returned)"

definition sent :: "fp_worker_pc \<Rightarrow> piece list" where
  "sent pc = (case pc of In_task i k \<Rightarrow> take k (task_text i) | _ \<Rightarrow> [])"

definition text_ok :: "(nat option \<times> piece) list \<Rightarrow> fp_worker_pc list \<Rightarrow> nat list \<Rightarrow> (nat \<Rightarrow> int option) \<Rightarrow> fp_main_pc \<Rightarrow> bool" where
  "text_ok out ws q fut mp \<longleftrightarrow> text_of None out = main_text mp
     \<and> texts_ok in_task sent task_text out q ws fut (submitted mp)"

definition fp_inv :: "future_pool \<Rightarrow> bool" where
  "fp_inv s \<longleftrightarrow> started_ok (workers s) (main_at s)
     \<and> lock_ok has_lock (workers s) (main_locked (main_at s)) (queue_mutex s)
     \<and> tasks_ok (tasks s) (workers s) (futures s) (submitted (main_at s))
     \<and> places_ok (workers s) (tasks s) (stop s)
     \<and> wake_ok (workers s) (tasks s) (stop s) (main_at s)
     \<and> main_ok (main_at s) (stop s) (workers s) (futures s)
     \<and> text_ok (printed s) (workers s) (tasks s) (futures s) (main_at s)"

lemma fp_go_simps [simp]:
  "workers (fp_go t pc s) = (workers s)[t := pc]" "tasks (fp_go t pc s) = tasks s" "stop (fp_go t pc s) = stop s"
  "queue_mutex (fp_go t pc s) = queue_mutex s" "futures (fp_go t pc s) = futures s"
  "printed (fp_go t pc s) = printed s" "main_at (fp_go t pc s) = main_at s"
  by (simp_all add: fp_go_def)

lemma fp_invD:
  assumes "fp_inv s"
  shows "started_ok (workers s) (main_at s)"
    "lock_ok has_lock (workers s) (main_locked (main_at s)) (queue_mutex s)"
    "tasks_ok (tasks s) (workers s) (futures s) (submitted (main_at s))"
    "places_ok (workers s) (tasks s) (stop s)"
    "wake_ok (workers s) (tasks s) (stop s) (main_at s)"
    "main_ok (main_at s) (stop s) (workers s) (futures s)"
    "text_ok (printed s) (workers s) (tasks s) (futures s) (main_at s)"
    "length (workers s) = THREADS"
  using assms by (simp_all add: fp_inv_def started_ok_def)

lemma fp_inv_start: "fp_inv fp_start"
proof -
  define ws where "ws = workers fp_start"
  have rest: "tasks fp_start = []" "queue_mutex fp_start = None" "stop fp_start = False"
    "futures fp_start = (\<lambda>_. None)" "printed fp_start = []" "main_at fp_start = Constructs 0"
    by (simp_all add: fp_start_def)
  have len: "length ws = 4" unfolding ws_def fp_start_def by (simp only: future_pool.simps length_replicate)
  have ws: "ws ! t = Not_started" if "t < 4" for t
    unfolding ws_def fp_start_def using that by (simp only: future_pool.simps nth_replicate)
  have "tasks_ok [] ws (\<lambda>_. None) 0" using len ws by (intro queue_ok_start) (simp add: in_task_def)
  moreover have "texts_ok in_task sent task_text [] [] ws (\<lambda>_. None) 0"
    using len ws by (simp add: texts_ok_def in_task_def)
  ultimately show ?thesis
    using len ws unfolding fp_inv_def rest ws_def [symmetric]
    by (auto simp: started_ok_def lock_ok_def has_lock_def main_locked_def
        submitted_def places_ok_def wake_ok_def main_ok_def main_within_def stopping_def
        collected_def joined_def text_ok_def main_text_def)
qed

section \<open>Moves of a worker\<close>

lemma fp_invI:
  "started_ok (workers s) (main_at s) \<Longrightarrow>
   lock_ok has_lock (workers s) (main_locked (main_at s)) (queue_mutex s) \<Longrightarrow>
   tasks_ok (tasks s) (workers s) (futures s) (submitted (main_at s)) \<Longrightarrow>
   places_ok (workers s) (tasks s) (stop s) \<Longrightarrow>
   wake_ok (workers s) (tasks s) (stop s) (main_at s) \<Longrightarrow>
   main_ok (main_at s) (stop s) (workers s) (futures s) \<Longrightarrow>
   text_ok (printed s) (workers s) (tasks s) (futures s) (main_at s) \<Longrightarrow> fp_inv s"
  by (simp add: fp_inv_def)

lemma started_move:
  "started_ok ws mp \<Longrightarrow> t < length ws \<Longrightarrow> ws ! t \<noteq> Not_started \<Longrightarrow> pc \<noteq> Not_started \<Longrightarrow> started_ok (ws[t := pc]) mp"
  by (auto simp: started_ok_def nth_list_update)

lemma places_move:
  "places_ok ws q st \<Longrightarrow> \<forall>i k. pc = In_task i k \<longrightarrow> k \<le> 6 \<Longrightarrow> pc = Has_waited \<longrightarrow> st \<or> q \<noteq> [] \<Longrightarrow> pc = Returned \<longrightarrow> st \<Longrightarrow> places_ok (ws[t := pc]) q st"
  by (cases "t < length ws") (auto simp: places_ok_def nth_list_update)

lemma wake_move:
  assumes "wake_ok ws q st mp" "t < length ws" "awake pc \<or> q = []" "pc = Asleep \<longrightarrow> \<not> st"
  shows "wake_ok (ws[t := pc]) q st mp"
proof -
  have "some_at awake (ws[t := pc])" if "q \<noteq> []"
    using some_at_update [of t ws awake pc] assms(2,3) that by simp
  moreover have "\<not> some_at (\<lambda>pc. pc = Asleep) (ws[t := pc])" if "st" "\<not> some_at (\<lambda>pc. pc = Asleep) ws"
    using that assms(2,4) by (auto simp: some_at_def nth_list_update)
  ultimately show ?thesis using assms(1) by (auto simp: wake_ok_def)
qed

lemma main_ok_move:
  "main_ok mp st ws fut \<Longrightarrow> ws ! t \<noteq> Returned \<Longrightarrow> main_ok mp st (ws[t := pc]) fut"
  by (cases "t < length ws") (auto simp: main_ok_def nth_list_update list_update_beyond not_less)

lemma in_task_simps [simp]:
  "in_task Not_started = None" "in_task Wants_lock = None" "in_task At_predicate = None" "in_task Asleep = None"
  "in_task Woken = None" "in_task Has_waited = None" "in_task Returned = None" "in_task (In_task i k) = Some i"
  by (simp_all add: in_task_def)

lemma fp_has_lock_simps [simp]:
  "\<not> has_lock Not_started" "\<not> has_lock Wants_lock" "has_lock At_predicate" "\<not> has_lock Asleep"
  "\<not> has_lock Woken" "has_lock Has_waited" "\<not> has_lock Returned" "\<not> has_lock (In_task i k)"
  by (simp_all add: has_lock_def)

lemma awake_simps [simp]:
  "\<not> awake Not_started" "awake Wants_lock" "awake At_predicate" "\<not> awake Asleep"
  "awake Woken" "awake Has_waited" "\<not> awake Returned" "awake (In_task i k)"
  by (simp_all add: awake_def)

lemma text_move:
  "text_ok out ws q fut mp \<Longrightarrow> in_task pc = None \<Longrightarrow> text_ok out (ws[t := pc]) q fut mp"
  by (simp add: text_ok_def texts_ok_move)

lemma worker_moves:
  assumes inv: "fp_inv s" and t: "t < length (workers s)"
    and at: "workers s ! t \<noteq> Not_started" "workers s ! t \<noteq> Returned" "in_task (workers s ! t) = None"
    and pc: "pc \<noteq> Not_started" "in_task pc = None" "pc = Has_waited \<longrightarrow> stop s \<or> tasks s \<noteq> []"
      "pc = Returned \<longrightarrow> stop s" "awake pc \<or> tasks s = []" "pc = Asleep \<longrightarrow> \<not> stop s"
    and lock: "lock_ok has_lock ((workers s)[t := pc]) (main_locked (main_at s)) m"
  shows "fp_inv (fp_go t pc (s\<lparr>queue_mutex := m\<rparr>))"
proof -
  note I = fp_invD [OF inv]
  have at_most: "\<forall>i k. pc = In_task i k \<longrightarrow> k \<le> 6" using pc(2) by auto
  show ?thesis
    by (rule fp_invI) (simp_all add: started_move [OF I(1) t at(1) pc(1)] lock queue_ok_same [OF I(3) t] at pc
        places_move [OF I(4) at_most pc(3,4)] wake_move [OF I(5) t pc(5,6)] main_ok_move [OF I(6) at(2)]
        text_move [OF I(7)])
qed

text \<open>A worker takes the first task: the lock is held, so nobody else is behind the wait.\<close>

lemma worker_takes:
  assumes inv: "fp_inv s" and t: "t < length (workers s)" and at: "workers s ! t = Has_waited"
    and some: "tasks s \<noteq> []"
  shows "fp_inv (fp_go t (In_task (hd (tasks s)) 0) (s\<lparr>tasks := tl (tasks s), queue_mutex := None\<rparr>))"
proof -
  note I = fp_invD [OF inv]
  let ?ws = "(workers s)[t := In_task (hd (tasks s)) 0]"
  have queue: "tasks_ok (tl (tasks s)) ?ws (futures s) (submitted (main_at s))"
    by (rule queue_ok_take [OF I(3) some t]) (simp_all add: at)
  have mutex: "lock_ok has_lock ?ws (main_locked (main_at s)) None"
    by (rule lock_ok_drop [OF I(2) t]) (simp_all add: at)
  have alone: "?ws ! u \<noteq> Has_waited" if "u < length (workers s)" for u
    using that t lock_ok_other [OF I(2) t, of u] at by (cases "u = t") auto
  then have places: "places_ok ?ws (tl (tasks s)) (stop s)"
    using I(4) t by (auto simp: places_ok_def nth_list_update)
  have wk: "wake_ok ?ws (tl (tasks s)) (stop s) (main_at s)"
    using wake_move [OF I(5) t, of "In_task (hd (tasks s)) 0"] some_at_update [OF t, of awake "In_task (hd (tasks s)) 0"]
    by (auto simp: wake_ok_def)
  have texts: "text_ok (printed s) ?ws (tl (tasks s)) (futures s) (main_at s)"
    using I(7) texts_ok_take [of in_task sent task_text "printed s" "tasks s" "workers s" "futures s"] some
    by (simp add: text_ok_def sent_def)
  show ?thesis
    by (rule fp_invI) (simp_all add: started_move [OF I(1) t] at mutex queue places wk texts
        main_ok_move [OF I(6)])
qed

text \<open>A worker prints a piece of its task, or finishes it.\<close>

lemma length_task_text [simp]: "length (task_text i) = 6"
  by (simp add: task_text_def)

lemma worker_prints:
  assumes inv: "fp_inv s" and t: "t < length (workers s)" and at: "workers s ! t = In_task i k" and k: "k < 6"
  shows "fp_inv (fp_go t (In_task i (Suc k)) (s\<lparr>printed := printed s @ [(Some i, task_text i ! k)]\<rparr>))"
proof -
  note I = fp_invD [OF inv]
  let ?ws = "(workers s)[t := In_task i (Suc k)]"
  have mutex: "lock_ok has_lock ?ws (main_locked (main_at s)) (queue_mutex s)"
    by (rule lock_ok_keep [OF I(2) t]) (simp add: at)
  have "sent (In_task i (Suc k)) = sent (workers s ! t) @ [task_text i ! k]"
    using k by (simp add: at sent_def take_Suc_conv_app_nth)
  then have "texts_ok in_task sent task_text (printed s @ [(Some i, task_text i ! k)]) (tasks s) ?ws (futures s)
      (submitted (main_at s))"
    using I(7) by (intro texts_ok_print [OF _ I(3) t]) (simp_all add: at text_ok_def)
  then have texts: "text_ok (printed s @ [(Some i, task_text i ! k)]) ?ws (tasks s) (futures s) (main_at s)"
    using I(7) by (simp add: text_ok_def)
  show ?thesis
    using k by (intro fp_invI) (simp_all add: started_move [OF I(1) t] at mutex queue_ok_same [OF I(3) t] texts
        places_move [OF I(4)] wake_move [OF I(5) t] main_ok_move [OF I(6)])
qed

lemma worker_finishes:
  assumes inv: "fp_inv s" and t: "t < length (workers s)" and at: "workers s ! t = In_task i k" and k: "\<not> k < 6"
  shows "fp_inv (fp_go t Wants_lock (s\<lparr>futures := (futures s)(i := Some (task_result i))\<rparr>))"
proof -
  note I = fp_invD [OF inv]
  let ?ws = "(workers s)[t := Wants_lock]" and ?f = "(futures s)(i := Some (task_result i))"
  have mutex: "lock_ok has_lock ?ws (main_locked (main_at s)) (queue_mutex s)"
    by (rule lock_ok_keep [OF I(2) t]) (simp add: at)
  have texts: "text_ok (printed s) ?ws (tasks s) ?f (main_at s)"
    using I(7) texts_ok_finish [of in_task sent task_text "printed s" "tasks s" "workers s" "futures s" _ t i Wants_lock] t k
    by (simp add: text_ok_def at sent_def)
  have main: "main_ok (main_at s) (stop s) ?ws ?f"
    using main_ok_move [OF I(6), of t Wants_lock] at by (auto simp: main_ok_def)
  show ?thesis
    by (rule fp_invI) (simp_all add: started_move [OF I(1) t] at mutex queue_ok_finish [OF I(3) t] texts
        places_move [OF I(4)] wake_move [OF I(5) t] main)
qed

lemma fp_worker_step_inv:
  assumes inv: "fp_inv s" and t: "t < length (workers s)" and step: "fp_worker_step t s = Some s'"
  shows "fp_inv s'"
proof -
  note I = fp_invD [OF inv]
  note move = worker_moves [OF inv t]
  consider "workers s ! t = Wants_lock \<or> workers s ! t = Woken" | "workers s ! t = At_predicate"
    | "workers s ! t = Has_waited" | i k where "workers s ! t = In_task i k"
    using step by (cases "workers s ! t") (auto simp: fp_worker_step_def)
  then show ?thesis
  proof cases
    case 1
    then have s': "s' = fp_go t At_predicate (s\<lparr>queue_mutex := Some (Worker t)\<rparr>)" "queue_mutex s = None"
      using step by (auto simp: fp_worker_step_def split: if_splits)
    have "lock_ok has_lock ((workers s)[t := At_predicate]) (main_locked (main_at s)) (Some (Worker t))"
      using lock_ok_take [OF I(2) [unfolded s'(2)] t] by simp
    with move [of At_predicate] 1 show ?thesis unfolding s'(1) by auto
  next
    case 2
    show ?thesis
    proof (cases "stop s \<or> tasks s \<noteq> []")
      case True
      have "lock_ok has_lock ((workers s)[t := Has_waited]) (main_locked (main_at s)) (queue_mutex s)"
        using lock_ok_keep [OF I(2) t, of Has_waited] 2 by simp
      from move [OF _ _ _ _ _ _ _ _ _ this] 2 True have "fp_inv (fp_go t Has_waited (s\<lparr>queue_mutex := queue_mutex s\<rparr>))" by simp
      moreover have "s' = fp_go t Has_waited s" using step 2 True by (simp add: fp_worker_step_def)
      ultimately show ?thesis by simp
    next
      case False
      have "lock_ok has_lock ((workers s)[t := Asleep]) (main_locked (main_at s)) None"
        using lock_ok_drop [OF I(2) t, of Asleep] 2 by simp
      from move [OF _ _ _ _ _ _ _ _ _ this] 2 False show ?thesis using step by (auto simp: fp_worker_step_def)
    qed
  next
    case 3
    show ?thesis
    proof (cases "stop s \<and> tasks s = []")
      case True
      have "lock_ok has_lock ((workers s)[t := Returned]) (main_locked (main_at s)) None"
        using lock_ok_drop [OF I(2) t, of Returned] 3 by simp
      from move [OF _ _ _ _ _ _ _ _ _ this] 3 True show ?thesis using step by (simp add: fp_worker_step_def)
    next
      case False
      then have "tasks s \<noteq> []" using I(4) 3 t by (auto simp: places_ok_def)
      from worker_takes [OF inv t 3 this] show ?thesis using step 3 False by (auto simp: fp_worker_step_def)
    qed
  next
    case 4
    then show ?thesis
      using worker_prints [OF inv t 4] worker_finishes [OF inv t 4] step
      by (cases "k < 6") (simp_all add: fp_worker_step_def)
  qed
qed

section \<open>Moves of main\<close>

lemmas mp_defs = main_locked_def submitted_def collected_def joined_def stopping_def main_text_def main_within_def

lemma main_moves:
  assumes inv: "fp_inv s" and "started_ok (workers s) mp"
    and "lock_ok has_lock (workers s) (main_locked mp) m"
    and "submitted mp = submitted (main_at s)" and "wake_ok (workers s) (tasks s) (stop s) mp"
    and "main_ok mp (stop s) (workers s) (futures s)"
    and "text_of None out = main_text mp" and "out = printed s \<or> (\<exists>p. out = printed s @ [(None, p)])"
  shows "fp_inv (s\<lparr>printed := out, queue_mutex := m, main_at := mp\<rparr>)"
proof -
  note I = fp_invD [OF inv]
  have "text_ok out (workers s) (tasks s) (futures s) mp"
    using I(7) assms(4,7,8) texts_ok_main by (auto simp: text_ok_def)
  then show ?thesis using I assms by (intro fp_invI) simp_all
qed

lemma started_after:
  "started_ok ws mp0 \<Longrightarrow> (\<And>i. mp0 \<noteq> Constructs i) \<Longrightarrow> (\<And>i. mp \<noteq> Constructs i) \<Longrightarrow> started_ok ws mp"
  by (simp add: started_ok_def)

lemma wake_after:
  "wake_ok ws q st mp0 \<Longrightarrow> (\<And>i. mp0 \<noteq> Notifies i) \<Longrightarrow> mp0 \<noteq> Notifies_all \<Longrightarrow> wake_ok ws q st mp"
  by (simp add: wake_ok_def)

lemma text_at_main:
  "text_ok out ws q fut mp0 \<Longrightarrow> main_text mp = main_text mp0 \<Longrightarrow> submitted mp = submitted mp0 \<Longrightarrow>
     text_ok out ws q fut mp"
  by (simp add: text_ok_def)

lemma go_main: "fp_go w pc (s\<lparr>main_at := mp\<rparr>) = (fp_go w pc s)\<lparr>main_at := mp\<rparr>"
  by (cases s) (simp add: fp_go_def)

lemma main_constructs:
  assumes inv: "fp_inv s" and mp: "main_at s = Constructs i" and i: "i < THREADS"
  shows "fp_inv (fp_go i Wants_lock (s\<lparr>main_at := Constructs (i + 1)\<rparr>))"
proof -
  note I = fp_invD [OF inv]
  have len: "i < length (workers s)" using I(8) i by simp
  have at: "workers s ! i = Not_started" using I(1) mp i by (auto simp: started_ok_def)
  have tasks: "tasks_ok (tasks s) ((workers s)[i := Wants_lock]) (futures s) 0"
    using queue_ok_same [OF I(3) len, of Wants_lock] at mp by (simp add: submitted_def)
  have "started_ok ((workers s)[i := Wants_lock]) (Constructs (i + 1))"
    using I(1) mp i by (auto simp: started_ok_def nth_list_update)
  moreover have "lock_ok has_lock ((workers s)[i := Wants_lock]) False (queue_mutex s)"
    using lock_ok_keep [OF I(2) len, of Wants_lock] at mp by (simp add: main_locked_def)
  moreover have "wake_ok ((workers s)[i := Wants_lock]) (tasks s) (stop s) (Constructs (i + 1))"
    using wake_move [OF I(5) len, of Wants_lock] mp by (simp add: wake_ok_def)
  moreover have "main_ok (Constructs (i + 1)) (stop s) ((workers s)[i := Wants_lock]) (futures s)"
    using I(6) mp i by (simp add: main_ok_def mp_defs)
  moreover have "text_ok (printed s) ((workers s)[i := Wants_lock]) (tasks s) (futures s) (Constructs (i + 1))"
    by (rule text_at_main [OF text_move [OF I(7)]]) (simp_all add: mp mp_defs)
  ultimately show ?thesis
    using tasks places_move [OF I(4), of Wants_lock i]
    by (intro fp_invI) (simp_all add: mp_defs)
qed

lemma main_emplaces:
  assumes inv: "fp_inv s" and mp: "main_at s = Emplaces i"
  shows "\<not> stop s" "fp_inv (s\<lparr>tasks := tasks s @ [i], queue_mutex := None, main_at := Notifies i\<rparr>)"
proof -
  note I = fp_invD [OF inv]
  show st: "\<not> stop s" using I(6) mp by (simp add: main_ok_def stopping_def)
  have tasks: "tasks_ok (tasks s @ [i]) (workers s) (futures s) (i + 1)"
    using queue_ok_submit I(3) mp by (simp add: submitted_def)
  have "lock_ok has_lock (workers s) False None"
    using lock_ok_main(2) [of has_lock "workers s" "queue_mutex s"] I(2) mp by (simp add: main_locked_def)
  moreover have "started_ok (workers s) (Notifies i)" using I(1) mp by (simp add: started_ok_def)
  moreover have "places_ok (workers s) (tasks s @ [i]) (stop s)" using I(4) by (simp add: places_ok_def)
  moreover have "wake_ok (workers s) (tasks s @ [i]) (stop s) (Notifies i)" using st by (simp add: wake_ok_def)
  moreover have "main_ok (Notifies i) (stop s) (workers s) (futures s)" using I(6) mp by (simp add: main_ok_def mp_defs)
  moreover have "text_ok (printed s) (workers s) (tasks s @ [i]) (futures s) (Notifies i)"
    using I(7) mp texts_ok_submit [of in_task sent task_text "printed s" "tasks s" "workers s" "futures s" i]
    by (simp add: text_ok_def mp_defs)
  ultimately show "fp_inv (s\<lparr>tasks := tasks s @ [i], queue_mutex := None, main_at := Notifies i\<rparr>)"
    using tasks by (intro fp_invI) (simp_all add: mp_defs)
qed

lemma worker_woken:
  assumes inv: "fp_inv s" and t: "t < length (workers s)" and at: "workers s ! t = Asleep"
  shows "fp_inv (fp_go t Woken s)"
proof -
  note I = fp_invD [OF inv]
  have "lock_ok has_lock ((workers s)[t := Woken]) (main_locked (main_at s)) (queue_mutex s)"
    using lock_ok_keep [OF I(2) t, of Woken] at by simp
  from worker_moves [OF inv t _ _ _ _ _ _ _ _ _ this] at
  have "fp_inv (fp_go t Woken (s\<lparr>queue_mutex := queue_mutex s\<rparr>))" by simp
  then show ?thesis by simp
qed

text \<open>Behind \<open>notify_one\<close>: somebody is awake.\<close>

lemma all_started:
  assumes "started_ok ws mp" "\<And>i. mp \<noteq> Constructs i" "t < length ws"
  shows "ws ! t \<noteq> Not_started"
  using assms by (auto simp: started_ok_def)

lemma not_returned: "places_ok ws q False \<Longrightarrow> t < length ws \<Longrightarrow> ws ! t \<noteq> Returned"
  by (auto simp: places_ok_def)

lemma after_enqueue_simps:
  "after_enqueue i \<noteq> Constructs j" "\<not> main_locked (after_enqueue i)" "i < TASKS \<Longrightarrow> submitted (after_enqueue i) = i + 1"
  "collected (after_enqueue i) = 0" "joined (after_enqueue i) = 0" "\<not> stopping (after_enqueue i)"
  "main_within (after_enqueue i)" "main_text (after_enqueue i) = []"
  by (auto simp: after_enqueue_def mp_defs results_text_def)

lemma main_notified:
  assumes inv: "fp_inv s" and mp: "main_at s = Notifies i" and awake: "some_at awake (workers s)"
  shows "fp_inv (s\<lparr>main_at := after_enqueue i\<rparr>)"
proof -
  note I = fp_invD [OF inv]
  have i: "i < TASKS" "\<not> stop s" using I(6) mp by (simp_all add: main_ok_def mp_defs)
  have "fp_inv (s\<lparr>printed := printed s, queue_mutex := queue_mutex s, main_at := after_enqueue i\<rparr>)"
  proof (rule main_moves [OF inv])
    show "started_ok (workers s) (after_enqueue i)"
      using I(1) mp after_enqueue_simps(1) by (simp add: started_ok_def)
    show "lock_ok has_lock (workers s) (main_locked (after_enqueue i)) (queue_mutex s)"
      using I(2) after_enqueue_simps(2) [of i] by (simp add: mp main_locked_def [of "Notifies i"])
    show "submitted (after_enqueue i) = submitted (main_at s)"
      using mp i by (simp add: after_enqueue_simps submitted_def [of "Notifies i"])
    show "wake_ok (workers s) (tasks s) (stop s) (after_enqueue i)" using awake i by (simp add: wake_ok_def)
    show "main_ok (after_enqueue i) (stop s) (workers s) (futures s)"
      using i by (simp add: main_ok_def after_enqueue_simps)
    show "text_of None (printed s) = main_text (after_enqueue i)"
      using I(7) mp by (simp add: text_ok_def after_enqueue_simps main_text_def [of "Notifies i"])
  qed simp
  then show ?thesis by simp
qed

lemma main_notifies:
  assumes inv: "fp_inv s" and mp: "main_at s = Notifies i" and step: "fp_main_step w s = Some s'"
  shows "fp_inv s'"
proof (cases "w < length (workers s) \<and> workers s ! w = Asleep")
  case True
  then have s': "s' = (fp_go w Woken s)\<lparr>main_at := after_enqueue i\<rparr>"
    using step mp by (simp add: fp_main_step_def go_main)
  have "fp_inv (fp_go w Woken s)" using worker_woken [OF inv] True by simp
  moreover have "some_at awake (workers (fp_go w Woken s))" using some_at_update [of w "workers s" awake Woken] True by simp
  ultimately show ?thesis unfolding s' using main_notified [of "fp_go w Woken s" i] mp by simp
next
  case False
  then have s': "s' = s\<lparr>main_at := after_enqueue i\<rparr>" and none: "Asleep \<notin> set (workers s)"
    using step mp by (auto simp: fp_main_step_def split: if_splits)
  note I = fp_invD [OF inv]
  have 0: "0 < length (workers s)" using I(8) by simp
  have "\<not> stop s" using I(6) mp by (simp add: main_ok_def stopping_def)
  then have "workers s ! 0 \<noteq> Returned" using not_returned [of "workers s" "tasks s" 0] I(4) 0 by simp
  moreover have "workers s ! 0 \<noteq> Not_started" using all_started [OF I(1) _ 0] mp by simp
  moreover have "workers s ! 0 \<noteq> Asleep" using none 0 nth_mem by fastforce
  ultimately have "some_at awake (workers s)" using 0 unfolding some_at_def awake_def by blast
  then show ?thesis unfolding s' by (rule main_notified [OF inv mp])
qed

lemma results_text_Suc: "results_text (Suc n) = results_text n @ [Num (task_result n), Str '' '']"
  by (simp add: results_text_def)

lemma main_stops:
  assumes inv: "fp_inv s" and mp: "main_at s = Stops"
  shows "fp_inv (s\<lparr>stop := True, queue_mutex := None, main_at := Notifies_all\<rparr>)"
proof -
  note I = fp_invD [OF inv]
  have "tasks s = []"
    using queue_ok_last [of in_task task_result "tasks s" "workers s" "futures s" 7] I(3,6) mp
    by (simp add: main_ok_def mp_defs)
  then have "wake_ok (workers s) (tasks s) True Notifies_all" by (simp add: wake_ok_def)
  moreover have "lock_ok has_lock (workers s) False None"
    using lock_ok_main(2) [of has_lock "workers s" "queue_mutex s"] I(2) mp by (simp add: main_locked_def)
  moreover have "places_ok (workers s) (tasks s) True" using I(4) by (simp add: places_ok_def)
  moreover have "started_ok (workers s) Notifies_all" using I(1) mp by (simp add: started_ok_def)
  moreover have "main_ok Notifies_all True (workers s) (futures s)" using I(6) mp by (simp add: main_ok_def mp_defs)
  moreover have "text_ok (printed s) (workers s) (tasks s) (futures s) Notifies_all"
    by (rule text_at_main [OF I(7)]) (simp_all add: mp mp_defs)
  moreover have "tasks_ok (tasks s) (workers s) (futures s) 8" using I(3) mp by (simp add: submitted_def)
  ultimately show ?thesis by (intro fp_invI) (simp_all add: mp_defs)
qed

lemma wake_simps:
  "has_lock (fp_wake pc) = has_lock pc" "in_task (fp_wake pc) = in_task pc" "fp_wake pc \<noteq> Asleep"
  "fp_wake pc = Not_started \<longleftrightarrow> pc = Not_started" "fp_wake pc = Has_waited \<longleftrightarrow> pc = Has_waited"
  "fp_wake pc = Returned \<longleftrightarrow> pc = Returned" "fp_wake pc = In_task i k \<longleftrightarrow> pc = In_task i k"
  "awake pc \<Longrightarrow> awake (fp_wake pc)" "sent (fp_wake pc) = sent pc"
  by (auto simp: fp_wake_def sent_def)

lemma main_notifies_all:
  assumes inv: "fp_inv s" and mp: "main_at s = Notifies_all"
  shows "fp_inv (s\<lparr>workers := map fp_wake (workers s), main_at := Joins 0\<rparr>)"
proof -
  note I = fp_invD [OF inv]
  let ?ws = "map fp_wake (workers s)"
  have "started_ok ?ws (Joins 0)" using I(1) mp by (simp add: started_ok_def wake_simps)
  moreover have "lock_ok has_lock ?ws False (queue_mutex s)"
    using I(2) mp by (simp add: lock_ok_map wake_simps main_locked_def)
  moreover have "tasks_ok (tasks s) ?ws (futures s) 8"
    using I(3) mp by (simp add: queue_ok_map wake_simps submitted_def)
  moreover have "places_ok ?ws (tasks s) (stop s)" using I(4) by (simp add: places_ok_def wake_simps)
  moreover have "wake_ok ?ws (tasks s) (stop s) (Joins 0)"
  proof -
    have "\<not> some_at (\<lambda>pc. pc = Asleep) ?ws" by (simp add: some_at_def wake_simps)
    moreover have "some_at awake ?ws" if "some_at awake (workers s)"
      by (rule some_at_map [OF that wake_simps(8)])
    ultimately show ?thesis using I(5) mp by (auto simp: wake_ok_def)
  qed
  moreover have "main_ok (Joins 0) (stop s) ?ws (futures s)" using I(6) mp by (simp add: main_ok_def mp_defs)
  moreover have "text_ok (printed s) ?ws (tasks s) (futures s) (Joins 0)"
  proof -
    have "texts_ok in_task sent task_text (printed s) (tasks s) (workers s) (futures s) 8"
      "text_of None (printed s) = main_text (Joins 0)"
      using I(7) mp by (simp_all add: text_ok_def mp_defs)
    from texts_ok_map [OF this(1) wake_simps(2,9)] this(2) show ?thesis by (simp add: text_ok_def submitted_def)
  qed
  ultimately show ?thesis by (intro fp_invI) (simp_all add: mp_defs)
qed

text \<open>Where \<open>main\<close> only moves on, locks, or prints.\<close>

lemma main_goes_on:
  assumes inv: "fp_inv s" and mp: "main_at s = mp0" "\<And>i. mp0 \<noteq> Notifies i" "mp0 \<noteq> Notifies_all"
    and new: "\<And>i. mp \<noteq> Constructs i" "(\<exists>i. mp0 = Constructs i) \<Longrightarrow> \<forall>t < THREADS. workers s ! t \<noteq> Not_started"
    and lock: "main_locked mp = main_locked mp0 \<and> m = queue_mutex s
      \<or> queue_mutex s = None \<and> m = Some Main \<and> main_locked mp"
    and rest: "submitted mp = submitted mp0" "main_ok mp (stop s) (workers s) (futures s)"
      "text_of None out = main_text mp" "out = printed s \<or> (\<exists>p. out = printed s @ [(None, p)])"
  shows "fp_inv (s\<lparr>printed := out, queue_mutex := m, main_at := mp\<rparr>)"
proof (rule main_moves [OF inv])
  note I = fp_invD [OF inv]
  show "started_ok (workers s) mp" using I(1) mp(1) new by (auto simp: started_ok_def)
  show "lock_ok has_lock (workers s) (main_locked mp) m"
    using lock I(2) mp(1) lock_ok_main(1) by auto
  show "submitted mp = submitted (main_at s)" using rest(1) mp(1) by simp
  show "wake_ok (workers s) (tasks s) (stop s) mp" using I(5) mp by (simp add: wake_ok_def)
qed (use rest in simp_all)

lemma fp_main_step_inv:
  assumes inv: "fp_inv s" and step: "fp_main_step w s = Some s'"
  shows "fp_inv s'"
proof -
  note I = fp_invD [OF inv]
  have M: "main_within (main_at s)" "stop s = stopping (main_at s)"
    "\<forall>i < collected (main_at s). futures s i \<noteq> None" "\<forall>i < joined (main_at s). workers s ! i = Returned"
    using I(6) by (simp_all add: main_ok_def)
  have out: "text_of None (printed s) = main_text (main_at s)" using I(7) by (simp add: text_ok_def)
  note on = main_goes_on [OF inv]
  show ?thesis
  proof (cases "main_at s")
    case (Constructs i)
    show ?thesis
    proof (cases "i < 4")
      case True
      then show ?thesis using main_constructs [OF inv Constructs] step Constructs by (simp add: fp_main_step_def)
    next
      case False
      have ws: "\<forall>t < 4. workers s ! t \<noteq> Not_started"
        using I(1) Constructs False by (auto simp: started_ok_def)
      have "fp_inv (s\<lparr>printed := printed s, queue_mutex := queue_mutex s, main_at := Enqueues 0\<rparr>)"
        by (rule on [OF Constructs]) (use M out Constructs ws in \<open>simp_all add: main_ok_def mp_defs\<close>)
      then show ?thesis using step Constructs False by (simp add: fp_main_step_def)
    qed
  next
    case (Enqueues i)
    then have m: "queue_mutex s = None" "s' = s\<lparr>queue_mutex := Some Main, main_at := Emplaces i\<rparr>"
      using step by (simp_all add: fp_main_step_def split: if_splits)
    have "fp_inv (s\<lparr>printed := printed s, queue_mutex := Some Main, main_at := Emplaces i\<rparr>)"
      by (rule on [OF Enqueues]) (use M out Enqueues m in \<open>simp_all add: main_ok_def mp_defs\<close>)
    then show ?thesis by (simp add: m)
  next
    case (Emplaces i)
    then show ?thesis using main_emplaces [OF inv Emplaces] step by (simp add: fp_main_step_def)
  next
    case (Notifies i)
    then show ?thesis using main_notifies [OF inv Notifies step] by simp
  next
    case (Gets i)
    then obtain v where v: "futures s i = Some v"
      "s' = s\<lparr>printed := printed s @ [(None, Num v)], main_at := Got i\<rparr>"
      using step by (auto simp: fp_main_step_def split: option.splits)
    have "v = task_result i" by (rule queue_ok_result [OF I(3) v(1)])
    then have "fp_inv (s\<lparr>printed := printed s @ [(None, Num v)], queue_mutex := queue_mutex s, main_at := Got i\<rparr>)"
      by (intro on [OF Gets]) (use M out Gets v(1) in \<open>auto simp: main_ok_def mp_defs less_Suc_eq\<close>)
    then show ?thesis by (simp add: v(2))
  next
    case (Got i)
    let ?mp = "if i + 1 < 8 then Gets (i + 1) else Ends_line"
    have "fp_inv (s\<lparr>printed := printed s @ [(None, Str '' '')], queue_mutex := queue_mutex s, main_at := ?mp\<rparr>)"
    proof (intro on [OF Got])
      show "main_ok ?mp (stop s) (workers s) (futures s)" using M Got by (auto simp: main_ok_def mp_defs)
      have "i = 7" if "\<not> i + 1 < 8" using that M(1) Got by (simp add: main_within_def)
      then show "text_of None (printed s @ [(None, Str '' '')]) = main_text ?mp"
        using out Got by (auto simp: main_text_def results_text_Suc) (simp add: numeral_eq_Suc results_text_Suc)
    qed (auto simp: mp_defs)
    then show ?thesis using step Got by (simp add: fp_main_step_def)
  next
    case Ends_line
    have "fp_inv (s\<lparr>printed := printed s @ [(None, Newline)], queue_mutex := queue_mutex s, main_at := Destructs\<rparr>)"
      by (intro on [OF Ends_line]) (use M out Ends_line in \<open>auto simp: main_ok_def mp_defs\<close>)
    then show ?thesis using step Ends_line by (simp add: fp_main_step_def)
  next
    case Destructs
    then have m: "queue_mutex s = None" "s' = s\<lparr>queue_mutex := Some Main, main_at := Stops\<rparr>"
      using step by (simp_all add: fp_main_step_def split: if_splits)
    have "fp_inv (s\<lparr>printed := printed s, queue_mutex := Some Main, main_at := Stops\<rparr>)"
      by (intro on [OF Destructs]) (use M out Destructs m in \<open>simp_all add: main_ok_def mp_defs\<close>)
    then show ?thesis by (simp add: m)
  next
    case Stops
    then show ?thesis using main_stops [OF inv Stops] step by (simp add: fp_main_step_def)
  next
    case Notifies_all
    then show ?thesis using main_notifies_all [OF inv Notifies_all] step by (simp add: fp_main_step_def)
  next
    case (Joins i)
    let ?mp = "if i < 4 then Joins (i + 1) else Done"
    have s': "s' = s\<lparr>main_at := ?mp\<rparr>" "i < 4 \<longrightarrow> workers s ! i = Returned"
      using step Joins I(8) by (auto simp: fp_main_step_def split: if_splits)
    have "fp_inv (s\<lparr>printed := printed s, queue_mutex := queue_mutex s, main_at := ?mp\<rparr>)"
      by (intro on [OF Joins]) (use M out Joins s'(2) in \<open>auto simp: main_ok_def mp_defs less_Suc_eq\<close>)
    then show ?thesis by (simp add: s'(1))
  next
    case Done
    then show ?thesis using step by (simp add: fp_main_step_def)
  next
    case Thrown
    then show ?thesis using step by (simp add: fp_main_step_def)
  qed
qed

lemma fp_step_inv: "fp_inv s \<Longrightarrow> fp_step a s = Some s' \<Longrightarrow> fp_inv s'"
  by (cases a) (auto split: if_splits intro: fp_worker_step_inv fp_main_step_inv worker_woken)

lemma fp_run_inv: "fp_run as s = Some s' \<Longrightarrow> fp_inv s \<Longrightarrow> fp_inv s'"
proof (induction as arbitrary: s)
  case (Cons a as)
  then obtain s1 where "fp_step a s = Some s1" "fp_run as s1 = Some s'"
    by (auto simp: bind_eq_Some_conv)
  then show ?case using Cons.IH [of s1] Cons.prems(2) fp_step_inv by blast
qed simp

section \<open>No deadlock\<close>

text \<open>No thread can go on; a wakeup without a signal is no way out.\<close>

definition fp_stuck :: "future_pool \<Rightarrow> bool" where
  "fp_stuck s \<longleftrightarrow> (\<forall>t. fp_step (Worker_runs t) s = None) \<and> (\<forall>w. fp_step (Main_runs w) s = None)"

lemma stuck_worker:
  assumes "fp_stuck s" "t < length (workers s)"
  shows "workers s ! t \<in> {Not_started, Asleep, Returned} \<or> workers s ! t \<in> {Wants_lock, Woken} \<and> queue_mutex s \<noteq> None"
proof -
  have "fp_step (Worker_runs t) s = None" using assms(1) by (simp add: fp_stuck_def)
  then have "fp_worker_step t s = None" using assms(2) by simp
  then show ?thesis by (auto simp: fp_worker_step_def split: fp_worker_pc.splits if_splits)
qed

lemma stuck_main: "fp_stuck s \<Longrightarrow> fp_main_step w s = None"
  by (simp add: fp_stuck_def)

lemma stuck_unlocked:
  assumes inv: "fp_inv s" and stuck: "fp_stuck s"
  shows "queue_mutex s = None"
proof (cases "queue_mutex s")
  case (Some h)
  note I = fp_invD [OF inv]
  show ?thesis
  proof (cases h)
    case Main
    then have "main_locked (main_at s)" using lock_okD(4) I(2) Some by metis
    then show ?thesis using stuck_main [OF stuck, of 0]
      by (auto simp: main_locked_def fp_main_step_def split: fp_main_pc.splits if_splits)
  next
    case (Worker t)
    then have "t < length (workers s)" "has_lock (workers s ! t)"
      using lock_okD(3) [of has_lock "workers s" "main_locked (main_at s)" t] I(2) Some by simp_all
    then show ?thesis using stuck_worker [OF stuck, of t] by auto
  qed
qed

lemma stuck_done:
  assumes inv: "fp_inv s" and stuck: "fp_stuck s"
  shows "main_at s = Done"
proof -
  note I = fp_invD [OF inv]
  have M: "main_within (main_at s)" "stop s = stopping (main_at s)" using I(6) by (simp_all add: main_ok_def)
  note free = stuck_unlocked [OF inv stuck]
  note no = stuck_main [OF stuck]
  have at: "workers s ! t \<in> {Not_started, Asleep, Returned}" if "t < 4" for t
    using stuck_worker [OF stuck, of t] that free I(8) by auto
  have "\<not> awake (workers s ! t)" if "t < 4" for t using at [OF that] by auto
  then have asleep: "\<not> some_at awake (workers s)" using I(8) by (simp add: some_at_def)
  show ?thesis
  proof (cases "main_at s")
    case (Constructs i)
    then show ?thesis using no [of 0] by (cases "i < 4") (simp_all add: fp_main_step_def)
  next
    case (Enqueues i)
    then show ?thesis using no [of 0] free by (simp add: fp_main_step_def)
  next
    case (Emplaces i)
    then show ?thesis using no [of 0] by (cases "stop s") (simp_all add: fp_main_step_def)
  next
    case (Notifies i)
    show ?thesis
    proof (cases "Asleep \<in> set (workers s)")
      case True
      then obtain w where "w < length (workers s)" "workers s ! w = Asleep" by (metis in_set_conv_nth)
      then show ?thesis using no [of w] Notifies by (simp add: fp_main_step_def)
    next
      case False
      have "0 < length (workers s)" by (simp only: I(8))
      then have "workers s ! 0 \<in> set (workers s)" by (rule nth_mem)
      with False have "workers s ! 0 \<noteq> Asleep" by metis
      then show ?thesis using no [of 0] Notifies False by (simp add: fp_main_step_def)
    qed
  next
    case (Gets i)
    then have i: "i < 8" "futures s i = None"
      using M(1) no [of 0] by (auto simp: main_within_def fp_main_step_def split: option.splits)
    have quiet: "\<not> awake (workers s ! t) \<and> in_task (workers s ! t) = None" if "t < 4" for t using at [OF that] by auto
    have "tasks s = []" using I(5) asleep Gets by (simp add: wake_ok_def)
    then show ?thesis
      using queue_ok_where [OF I(3), of i] i quiet I(8) Gets by (auto simp: submitted_def)
  next
    case (Got i)
    then show ?thesis using no [of 0] by (simp add: fp_main_step_def)
  next
    case Ends_line
    then show ?thesis using no [of 0] by (simp add: fp_main_step_def)
  next
    case Destructs
    then show ?thesis using no [of 0] free by (simp add: fp_main_step_def)
  next
    case Stops
    then show ?thesis using no [of 0] by (simp add: fp_main_step_def)
  next
    case Notifies_all
    then show ?thesis using no [of 0] by (simp add: fp_main_step_def)
  next
    case (Joins i)
    have none: "\<not> some_at (\<lambda>pc. pc = Asleep) (workers s)" using I(5) M(2) Joins by (simp add: wake_ok_def stopping_def)
    have "workers s ! t = Returned" if "t < 4" for t
    proof -
      have "workers s ! t \<noteq> Not_started" using all_started [OF I(1), of t] Joins that I(8) by simp
      moreover have "workers s ! t \<noteq> Asleep" using none that I(8) by (auto simp: some_at_def)
      ultimately show ?thesis using at [OF that] by simp
    qed
    then show ?thesis using no [of 0] Joins I(8) by (cases "i < 4") (simp_all add: fp_main_step_def)
  next
    case Done
    then show ?thesis .
  next
    case Thrown
    then show ?thesis using M(1) by (simp add: main_within_def)
  qed
qed

text \<open>What has been printed at any time.\<close>

lemma results_text_take: "n \<le> m \<Longrightarrow> results_text n = take (2 * n) (results_text m)"
proof (induction m)
  case 0
  then show ?case by (simp add: results_text_def)
next
  case (Suc m)
  have len: "length (results_text m) = 2 * m" for m by (induction m) (simp_all add: results_text_Suc results_text_def)
  show ?case
  proof (cases "n = Suc m")
    case True
    then show ?thesis using len [of n] by simp
  next
    case False
    then show ?thesis using Suc len [of m] by (simp add: results_text_Suc)
  qed
qed

lemma main_text_partial:
  assumes "main_within mp"
  shows "\<exists>n. main_text mp = take n (results_text TASKS @ [Newline])"
proof -
  have len: "length (results_text 8) = 16" by (simp add: results_text_def upt_conv_Cons)
  have part: "\<exists>m. take n (results_text 8) = take m (results_text 8 @ [Newline])" for n
    using len by (intro exI [of _ "min n 16"]) (cases "n \<le> 16"; simp add: min_def)
  have whole: "results_text 8 @ [Newline] = take 17 (results_text 8 @ [Newline])" using len by simp
  have got: "results_text i @ [Num (task_result i)] = take (2 * i + 1) (results_text 8)" if "i < 8" for i
  proof -
    have l: "length (results_text i) = 2 * i" by (induction i) (simp_all add: results_text_Suc results_text_def)
    have "results_text i @ [Num (task_result i)] = take (2 * i + 1) (results_text (Suc i))"
      by (simp add: results_text_Suc l)
    also have "\<dots> = take (2 * i + 1) (results_text 8)"
      using results_text_take [of "Suc i" 8] that by (simp add: min_def)
    finally show ?thesis .
  qed
  have start: "\<exists>n. [] = take n (results_text 8 @ [Newline])" by (intro exI [of _ 0]) simp
  have all: "\<exists>n. results_text 8 @ [Newline] = take n (results_text 8 @ [Newline])" using whole by blast
  have sixteen: "\<exists>n. results_text 8 = take n (results_text 8 @ [Newline])" using part [of 16] len by simp
  show ?thesis
  proof (cases mp)
    case (Gets i)
    then have "results_text i = take (2 * i) (results_text 8)"
      using assms results_text_take [of i 8] by (simp add: main_within_def)
    then show ?thesis using part [of "2 * i"] Gets by (simp only: main_text_def fp_main_pc.case)
  next
    case (Got i)
    then show ?thesis
      using assms got [of i] part [of "2 * i + 1"] by (simp only: main_text_def fp_main_pc.case main_within_def)
  qed (simp_all only: main_text_def fp_main_pc.case start all sixteen)
qed

section \<open>Properties\<close>

text \<open>
  In every interleaving, wakeups without a signal included, no \<open>enqueue\<close> finds the pool stopped;
  a future that is set holds the square of its task; the text of each task, and the line of
  results, are printed in order and at most once; and no task is in the queue and run, or run twice.
\<close>

theorem future_pool_safe:
  assumes "fp_run as fp_start = Some s"
  shows "main_at s \<noteq> Thrown \<and> (\<forall>i v. futures s i = Some v \<longrightarrow> v = int i * int i)
    \<and> (\<exists>n. text_of (Some i) (printed s) = take n (task_text i))
    \<and> (\<exists>n. text_of None (printed s) = take n (results_text TASKS @ [Newline]))
    \<and> (\<forall>t j k. t < length (workers s) \<and> workers s ! t = In_task j k \<longrightarrow> j \<notin> set (tasks s)
         \<and> (\<forall>u l. u < length (workers s) \<and> workers s ! u = In_task j l \<longrightarrow> u = t))"
proof -
  have inv: "fp_inv s" by (rule fp_run_inv [OF assms fp_inv_start])
  note I = fp_invD [OF inv]
  have "main_at s \<noteq> Thrown" using I(6) by (auto simp: main_ok_def main_within_def)
  moreover have "\<forall>i v. futures s i = Some v \<longrightarrow> v = int i * int i"
    using queue_ok_result [OF I(3)] by (auto simp: task_result_def)
  moreover have "\<exists>n. text_of (Some i) (printed s) = take n (task_text i)"
  proof (rule texts_ok_partial [OF _ I(3)])
    show "texts_ok in_task sent task_text (printed s) (tasks s) (workers s) (futures s) (submitted (main_at s))"
      using I(7) by (simp add: text_ok_def)
    show "\<exists>m. sent (workers s ! t) = take m (task_text j)" if "in_task (workers s ! t) = Some j" for t j
      using that by (cases "workers s ! t") (auto simp: sent_def)
  qed
  moreover have "\<exists>n. text_of None (printed s) = take n (results_text TASKS @ [Newline])"
    using main_text_partial [of "main_at s"] I(6,7) by (auto simp: main_ok_def text_ok_def)
  moreover have "j \<notin> set (tasks s) \<and> (\<forall>u l. u < length (workers s) \<and> workers s ! u = In_task j l \<longrightarrow> u = t)"
    if "t < length (workers s)" "workers s ! t = In_task j k" for t j k
    using queue_ok_running [OF I(3) that(1), of j] that(2) by auto
  ultimately show ?thesis by blast
qed

text \<open>
  For the examples: \<open>main\<close> starts the workers, the second one falls asleep, and \<open>main\<close> submits the
  tasks, which wakes it; the first one runs them all.  Then \<open>main\<close> prints the results and stops the
  pool, and the workers return.
\<close>

definition tasks_run :: "fp_action list" where
  "tasks_run = replicate 5 (Main_runs 1) @ [Worker_runs 1, Worker_runs 1] @ concat (replicate 8 (replicate 3 (Main_runs 1)))
     @ concat (replicate 8 (replicate 10 (Worker_runs 0)))"

definition whole_run :: "fp_action list" where
  "whole_run = tasks_run @ replicate 20 (Main_runs 1)
     @ concat (map (\<lambda>t. replicate 3 (Worker_runs t)) [0..<4]) @ replicate 5 (Main_runs 1)"

text \<open>The run of the first actions, up to the middle of the first task.\<close>

theorem future_pool_safe_witness:
  "\<exists>s. fp_run (take 38 tasks_run) fp_start = Some s \<and> main_at s = Gets 0 \<and> workers s ! 0 = In_task 0 4
     \<and> tasks s = [1..<8] \<and> main_at s \<noteq> Thrown"
proof -
  have "map_option (\<lambda>s. (main_at s, workers s, tasks s)) (fp_run (take 38 tasks_run) fp_start)
    = Some (Gets 0, [In_task 0 4, Woken, Wants_lock, Wants_lock], [1..<8])" by code_simp
  then obtain s where s: "fp_run (take 38 tasks_run) fp_start = Some s" "main_at s = Gets 0"
    "workers s = [In_task 0 4, Woken, Wants_lock, Wants_lock]" "tasks s = [1..<8]" by auto
  with future_pool_safe [OF s(1)] show ?thesis by auto
qed

text \<open>
  C6: There is no deadlock: when no thread can go on, and a wakeup without a signal is no way out,
  then \<open>main\<close> is done and has printed the eight squares, every task has printed its text and every
  worker has returned.
\<close>

theorem future_pool_completes:
  assumes "fp_run as fp_start = Some s" and "fp_stuck s"
  shows "main_at s = Done \<and> text_of None (printed s) = results_text TASKS @ [Newline]
    \<and> (\<forall>i < TASKS. text_of (Some i) (printed s) = task_text i) \<and> tasks s = []
    \<and> (\<forall>t < THREADS. workers s ! t = Returned)"
proof -
  have inv: "fp_inv s" by (rule fp_run_inv [OF assms(1) fp_inv_start])
  note I = fp_invD [OF inv]
  have d: "main_at s = Done" by (rule stuck_done [OF inv assms(2)])
  have "\<forall>i < 8. futures s i \<noteq> None" "\<forall>t < 4. workers s ! t = Returned"
    using I(6) d by (simp_all add: main_ok_def mp_defs)
  moreover from this(1) have "tasks s = []"
    using queue_ok_last [of in_task task_result "tasks s" "workers s" "futures s" 7] I(3) d by (simp add: submitted_def)
  ultimately show ?thesis using d I(7) by (simp add: text_ok_def texts_ok_def main_text_def)
qed

text \<open>The whole program: nothing is left to do at its end.\<close>

theorem future_pool_completes_witness:
  "\<exists>s. fp_run whole_run fp_start = Some s \<and> main_at s = Done \<and> tasks s = []
     \<and> text_of (Some 2) (printed s) = [Str ''hello '', Num 2, Newline, Str ''world '', Num 2, Newline]"
proof -
  have "map_option (\<lambda>s. (main_at s, workers s)) (fp_run whole_run fp_start)
    = Some (Done, [Returned, Returned, Returned, Returned])" by code_simp
  then obtain s where s: "fp_run whole_run fp_start = Some s" "main_at s = Done"
    "workers s = [Returned, Returned, Returned, Returned]" by auto
  have "fp_worker_step t s = None" if "t < 4" for t
  proof -
    have "t \<in> {0, 1, 2, 3}" using that by auto
    then have "workers s ! t = Returned" using s(3) by auto
    then show ?thesis by (simp add: fp_worker_step_def)
  qed
  then have "fp_stuck s" using s(2,3) by (simp add: fp_stuck_def fp_main_step_def)
  with future_pool_completes [OF s(1)] have "\<forall>i < 8. text_of (Some i) (printed s) = task_text i" "tasks s = []" by simp_all
  then show ?thesis using s(1,2) by (simp add: task_text_def)
qed

end
