(* ===== verification/CxxThreadPool.thy ===== *)
theory CxxThreadPool
  imports PoolWorkers
begin

text \<open>
  \<open>3.Thread/5.thread_pool/2.thread_pool_CXX\<close>: a pool with a queue that has a mutex of its own.  A
  worker that finds the queue empty waits once, without a predicate, and then takes what there is;
  \<open>submit\<close> and \<open>shutdown\<close> notify without the mutex that belongs to the condition variable.  The
  program submits twenty multiplications, waits for the results of two and shuts the pool down.
  A step is what a thread does between two points at which another can see it; each operation of
  the queue is one step, as its mutex is held throughout.  A waiter can wake without a signal.
\<close>

section \<open>The program\<close>

datatype cp_function = Multiply | Multiply_output | Multiply_return

datatype cp_result = Void | Int_result int

text \<open>What \<open>main\<close> submits, in its order.\<close>

definition cp_tasks :: "(cp_function \<times> int \<times> int) list" where
  "cp_tasks = concat (map (\<lambda>i. map (\<lambda>j. (Multiply, int i, int j)) [1..<10]) [1..<3])
     @ [(Multiply_output, 5, 6), (Multiply_return, 5, 3)]"

definition cp_line :: "int \<Rightarrow> int \<Rightarrow> int \<Rightarrow> piece list" where
  "cp_line a b r = [Num a, Str '' * '', Num b, Str '' = '', Num r, Newline]"

definition main_line :: "int \<Rightarrow> piece list" where
  "main_line r = [Str ''Last operation result is equals to '', Num r, Newline]"

text \<open>
  Where a worker is: not yet started, at the test of \<open>m_shutdown\<close>, about to lock, at the test of the
  queue, in front of the wait (with the lock), asleep, woken and about to lock again, at
  \<open>dequeue\<close>, in a task (before the product is computed, or about to send the next piece), or gone.
\<close>

datatype cp_worker_pc =
  Not_running
| Tests
| Locks
| Checks
| Waits
| Asleep
| Woken
| Dequeues
| Calls nat nat
| Ended

text \<open>
  Where \<open>main\<close> is: in \<open>init\<close>, in \<open>submit\<close> of a task (about to enqueue, about to notify), at the
  future of a task, in the line about its result, or in \<open>shutdown\<close>.
\<close>

datatype cp_main_pc =
  Inits nat
| Submits nat
| Notifies nat
| Gets nat
| Says nat nat
| Shuts_down
| Notifies_all
| Joins nat
| Done

record cxx_pool =
  m_shutdown :: bool
  m_queue :: "nat list"
  m_threads :: "cp_worker_pc list"
  m_conditional_mutex :: "thread_id option"
  cp_futures :: "nat \<Rightarrow> cp_result option"
  output_ref :: int
  main_res :: int
  cp_printed :: "(nat option \<times> piece) list"
  cp_main_at :: cp_main_pc

text \<open>The two variables of \<open>main\<close> are not initialised: they start with any value.\<close>

definition cp_start :: "int \<Rightarrow> int \<Rightarrow> cxx_pool" where
  "cp_start g h = \<lparr>m_shutdown = False, m_queue = [], m_threads = replicate 3 Not_running,
     m_conditional_mutex = None, cp_futures = (\<lambda>_. None), output_ref = g, main_res = h,
     cp_printed = [], cp_main_at = Inits 0\<rparr>"

definition cp_go :: "nat \<Rightarrow> cp_worker_pc \<Rightarrow> cxx_pool \<Rightarrow> cxx_pool" where
  "cp_go t pc s = s\<lparr>m_threads := (m_threads s)[t := pc]\<rparr>"

text \<open>The queue: each operation holds its mutex from its first to its last line.\<close>

definition sq_empty :: "'a list \<Rightarrow> bool" where
  [simp]: "sq_empty q \<longleftrightarrow> q = []"

definition sq_enqueue :: "'a \<Rightarrow> 'a list \<Rightarrow> 'a list" where
  [simp]: "sq_enqueue t q = q @ [t]"

definition sq_dequeue :: "'a list \<Rightarrow> ('a \<times> 'a list) option" where
  [simp]: "sq_dequeue q = (case q of [] \<Rightarrow> None | t # q' \<Rightarrow> Some (t, q'))"

text \<open>A step of a task that has been called; the last one sets its future.\<close>

definition cp_call :: "nat \<Rightarrow> nat \<Rightarrow> nat \<Rightarrow> cxx_pool \<Rightarrow> cxx_pool" where
  "cp_call t k j s = (case cp_tasks ! k of (f, a, b) \<Rightarrow>
     if j = 0 then cp_go t (Calls k 1) (if f = Multiply_output then s\<lparr>output_ref := a * b\<rparr> else s)
     else if j \<le> 6
     then cp_go t (Calls k (j + 1)) (s\<lparr>cp_printed := cp_printed s
       @ [(Some k, cp_line a b (if f = Multiply_output then output_ref s else a * b) ! (j - 1))]\<rparr>)
     else cp_go t Tests (s\<lparr>cp_futures := (cp_futures s)
       (k := Some (if f = Multiply_return then Int_result (a * b) else Void))\<rparr>))"

definition cp_worker_step :: "nat \<Rightarrow> cxx_pool \<Rightarrow> cxx_pool option" where
  "cp_worker_step t s = (case m_threads s ! t of
     Tests \<Rightarrow> Some (cp_go t (if m_shutdown s then Ended else Locks) s)
   | Locks \<Rightarrow>
       if m_conditional_mutex s = None
       then Some (cp_go t Checks (s\<lparr>m_conditional_mutex := Some (Worker t)\<rparr>)) else None
   | Checks \<Rightarrow> Some (cp_go t (if sq_empty (m_queue s) then Waits else Dequeues) s)
   | Waits \<Rightarrow> Some (cp_go t Asleep (s\<lparr>m_conditional_mutex := None\<rparr>))
   | Woken \<Rightarrow>
       if m_conditional_mutex s = None
       then Some (cp_go t Dequeues (s\<lparr>m_conditional_mutex := Some (Worker t)\<rparr>)) else None
   | Dequeues \<Rightarrow>
       (case sq_dequeue (m_queue s) of
          None \<Rightarrow> Some (cp_go t Tests (s\<lparr>m_conditional_mutex := None\<rparr>))
        | Some (k, q) \<Rightarrow> Some (cp_go t (Calls k 0) (s\<lparr>m_queue := q, m_conditional_mutex := None\<rparr>)))
   | Calls k j \<Rightarrow> Some (cp_call t k j s)
   | _ \<Rightarrow> None)"

definition cp_wake :: "cp_worker_pc \<Rightarrow> cp_worker_pc" where
  "cp_wake pc = (if pc = Asleep then Woken else pc)"

definition after_submit :: "nat \<Rightarrow> cp_main_pc" where
  "after_submit k = (if k < 18 then Submits (k + 1) else Gets k)"

text \<open>
  \<open>init\<close>; \<open>submit\<close>, which enqueues and then wakes the worker \<open>w\<close>, when one sleeps; and \<open>shutdown\<close>, which
  sets the flag, wakes the workers and joins one after the other (they are joinable once).
\<close>

definition cp_init :: "nat \<Rightarrow> cxx_pool \<Rightarrow> cxx_pool" where
  "cp_init i s =
     (if i < length (m_threads s) then cp_go i Tests (s\<lparr>cp_main_at := Inits (i + 1)\<rparr>)
      else s\<lparr>cp_main_at := Submits 0\<rparr>)"

definition cp_enqueue :: "nat \<Rightarrow> cxx_pool \<Rightarrow> cxx_pool" where
  "cp_enqueue k s = s\<lparr>m_queue := sq_enqueue k (m_queue s), cp_main_at := Notifies k\<rparr>"

definition cp_notify_one :: "nat \<Rightarrow> nat \<Rightarrow> cxx_pool \<Rightarrow> cxx_pool option" where
  "cp_notify_one w k s =
     (if w < length (m_threads s) \<and> m_threads s ! w = Asleep
      then Some (cp_go w Woken (s\<lparr>cp_main_at := after_submit k\<rparr>))
      else if Asleep \<notin> set (m_threads s) then Some (s\<lparr>cp_main_at := after_submit k\<rparr>)
      else None)"

definition cp_shutdown :: "cxx_pool \<Rightarrow> cxx_pool option" where
  "cp_shutdown s = (case cp_main_at s of
     Shuts_down \<Rightarrow> Some (s\<lparr>m_shutdown := True, cp_main_at := Notifies_all\<rparr>)
   | Notifies_all \<Rightarrow> Some (s\<lparr>m_threads := map cp_wake (m_threads s), cp_main_at := Joins 0\<rparr>)
   | Joins i \<Rightarrow>
       if i < length (m_threads s)
       then if m_threads s ! i = Ended then Some (s\<lparr>cp_main_at := Joins (i + 1)\<rparr>) else None
       else Some (s\<lparr>cp_main_at := Done\<rparr>)
   | _ \<Rightarrow> None)"

text \<open>The next step of \<open>main\<close>.\<close>

definition cp_main_step :: "nat \<Rightarrow> cxx_pool \<Rightarrow> cxx_pool option" where
  "cp_main_step w s = (case cp_main_at s of
     Inits i \<Rightarrow> Some (cp_init i s)
   | Submits k \<Rightarrow> Some (cp_enqueue k s)
   | Notifies k \<Rightarrow> cp_notify_one w k s
   | Gets k \<Rightarrow>
       (case cp_futures s k of
          None \<Rightarrow> None
        | Some Void \<Rightarrow> Some (s\<lparr>cp_main_at := Says k 0\<rparr>)
        | Some (Int_result v) \<Rightarrow> Some (s\<lparr>main_res := v, cp_main_at := Says k 0\<rparr>))
   | Says k j \<Rightarrow>
       Some (s\<lparr>cp_printed := cp_printed s
           @ [(None, main_line (if k = 18 then output_ref s else main_res s) ! j)],
         cp_main_at := (if j < 2 then Says k (j + 1) else if k = 18 then Submits 19 else Shuts_down)\<rparr>)
   | _ \<Rightarrow> cp_shutdown s)"

lemmas cp_main_steps = cp_main_step_def cp_init_def cp_enqueue_def cp_notify_one_def cp_shutdown_def

datatype cp_action = Worker_runs nat | Main_runs nat | Spurious nat

fun cp_step :: "cp_action \<Rightarrow> cxx_pool \<Rightarrow> cxx_pool option" where
  "cp_step (Worker_runs t) s = (if t < length (m_threads s) then cp_worker_step t s else None)"
| "cp_step (Main_runs w) s = cp_main_step w s"
| "cp_step (Spurious t) s =
     (if t < length (m_threads s) \<and> m_threads s ! t = Asleep then Some (cp_go t Woken s) else None)"

fun cp_run :: "cp_action list \<Rightarrow> cxx_pool \<Rightarrow> cxx_pool option" where
  "cp_run [] s = Some s"
| "cp_run (a # as) s = Option.bind (cp_step a s) (cp_run as)"

section \<open>The invariant\<close>

definition cp_has_lock :: "cp_worker_pc \<Rightarrow> bool" where
  "cp_has_lock pc \<longleftrightarrow> pc = Checks \<or> pc = Waits \<or> pc = Dequeues"

definition called :: "cp_worker_pc \<Rightarrow> nat option" where
  "called pc = (case pc of Calls k j \<Rightarrow> Some k | _ \<Rightarrow> None)"

text \<open>A worker that will look into the queue before it sleeps.\<close>

definition looking :: "cp_worker_pc \<Rightarrow> bool" where
  "looking pc \<longleftrightarrow> pc \<notin> {Not_running, Waits, Asleep, Ended}"

text \<open>The text of a task, the part of it that has been sent, and its result.\<close>

definition cp_text :: "nat \<Rightarrow> piece list" where
  "cp_text k = (case cp_tasks ! k of (f, a, b) \<Rightarrow> cp_line a b (a * b))"

definition cp_sent :: "cp_worker_pc \<Rightarrow> piece list" where
  "cp_sent pc = (case pc of Calls k j \<Rightarrow> take (j - 1) (cp_text k) | _ \<Rightarrow> [])"

definition cp_result_of :: "nat \<Rightarrow> cp_result" where
  "cp_result_of k = (case cp_tasks ! k of (f, a, b) \<Rightarrow> if f = Multiply_return then Int_result (a * b) else Void)"

text \<open>
  How many tasks have been submitted, up to which one the futures have been waited for, how many
  workers have been joined, and what \<open>main\<close> has printed.
\<close>

definition cp_submitted :: "cp_main_pc \<Rightarrow> nat" where
  "cp_submitted mp = (case mp of Inits i \<Rightarrow> 0 | Submits k \<Rightarrow> k | Notifies k \<Rightarrow> k + 1 | Gets k \<Rightarrow> k + 1
     | Says k j \<Rightarrow> k + 1 | _ \<Rightarrow> 20)"

definition cp_waited :: "cp_main_pc \<Rightarrow> nat" where
  "cp_waited mp = (case mp of Inits i \<Rightarrow> 0 | Submits k \<Rightarrow> k | Notifies k \<Rightarrow> k | Gets k \<Rightarrow> k
     | Says k j \<Rightarrow> k + 1 | _ \<Rightarrow> 20)"

definition cp_joined :: "cp_main_pc \<Rightarrow> nat" where
  "cp_joined mp = (case mp of Joins i \<Rightarrow> i | Done \<Rightarrow> 3 | _ \<Rightarrow> 0)"

definition cp_stopping :: "cp_main_pc \<Rightarrow> bool" where
  "cp_stopping mp \<longleftrightarrow> (case mp of Notifies_all \<Rightarrow> True | Joins i \<Rightarrow> True | Done \<Rightarrow> True | _ \<Rightarrow> False)"

definition before :: "nat \<Rightarrow> piece list" where
  "before k = (if k = 19 then main_line 30 else [])"

definition cp_main_text :: "cp_main_pc \<Rightarrow> piece list" where
  "cp_main_text mp = (case mp of Inits i \<Rightarrow> [] | Submits k \<Rightarrow> before k | Notifies k \<Rightarrow> before k | Gets k \<Rightarrow> before k
     | Says k j \<Rightarrow> before k @ take j (main_line (if k = 18 then 30 else 15))
     | _ \<Rightarrow> main_line 30 @ main_line 15)"

definition cp_within :: "cp_main_pc \<Rightarrow> bool" where
  "cp_within mp \<longleftrightarrow> (case mp of Inits i \<Rightarrow> i \<le> 3 | Submits k \<Rightarrow> k \<le> 19 | Notifies k \<Rightarrow> k \<le> 19
     | Gets k \<Rightarrow> k = 18 \<or> k = 19 | Says k j \<Rightarrow> (k = 18 \<or> k = 19) \<and> j < 3 | Joins i \<Rightarrow> i \<le> 3 | _ \<Rightarrow> True)"

definition threads_ok :: "cp_worker_pc list \<Rightarrow> cp_main_pc \<Rightarrow> bool" where
  "threads_ok ws mp \<longleftrightarrow> length ws = 3 \<and> (\<forall>t < 3. ws ! t = Not_running \<longleftrightarrow> (\<exists>i \<le> t. mp = Inits i))"

definition positions_ok :: "cp_worker_pc list \<Rightarrow> bool \<Rightarrow> int \<Rightarrow> (nat \<Rightarrow> cp_result option) \<Rightarrow> bool" where
  "positions_ok ws st ref fut \<longleftrightarrow> (\<forall>t < length ws. (ws ! t = Ended \<longrightarrow> st)
       \<and> (\<forall>k j. ws ! t = Calls k j \<longrightarrow> j \<le> 7 \<and> (k = 18 \<and> 0 < j \<longrightarrow> ref = 30)))
     \<and> (fut 18 \<noteq> None \<longrightarrow> ref = 30)"

definition looked_after :: "cp_worker_pc list \<Rightarrow> nat list \<Rightarrow> cp_main_pc \<Rightarrow> bool" where
  "looked_after ws q mp \<longleftrightarrow> q \<noteq> [] \<longrightarrow> (\<exists>k. mp = Notifies k) \<or> some_at looking ws"

definition cp_main_ok :: "cp_main_pc \<Rightarrow> bool \<Rightarrow> cp_worker_pc list \<Rightarrow> (nat \<Rightarrow> cp_result option) \<Rightarrow> int \<Rightarrow> piece list \<Rightarrow> bool" where
  "cp_main_ok mp st ws fut r out \<longleftrightarrow> cp_within mp \<and> st = cp_stopping mp
     \<and> (\<forall>i. 18 \<le> i \<and> i < cp_waited mp \<longrightarrow> fut i \<noteq> None) \<and> (\<forall>i < cp_joined mp. ws ! i = Ended)
     \<and> out = cp_main_text mp \<and> ((\<exists>j. mp = Says 19 j) \<longrightarrow> r = 15)"

definition cp_inv :: "cxx_pool \<Rightarrow> bool" where
  "cp_inv s \<longleftrightarrow> threads_ok (m_threads s) (cp_main_at s)
     \<and> lock_ok cp_has_lock (m_threads s) False (m_conditional_mutex s)
     \<and> queue_ok called cp_result_of (m_queue s) (m_threads s) (cp_futures s) (cp_submitted (cp_main_at s))
     \<and> texts_ok called cp_sent cp_text (cp_printed s) (m_queue s) (m_threads s) (cp_futures s) (cp_submitted (cp_main_at s))
     \<and> positions_ok (m_threads s) (m_shutdown s) (output_ref s) (cp_futures s)
     \<and> looked_after (m_threads s) (m_queue s) (cp_main_at s)
     \<and> cp_main_ok (cp_main_at s) (m_shutdown s) (m_threads s) (cp_futures s) (main_res s) (text_of None (cp_printed s))"

lemma cp_go_simps [simp]:
  "m_threads (cp_go t pc s) = (m_threads s)[t := pc]" "m_queue (cp_go t pc s) = m_queue s"
  "m_shutdown (cp_go t pc s) = m_shutdown s" "m_conditional_mutex (cp_go t pc s) = m_conditional_mutex s"
  "cp_futures (cp_go t pc s) = cp_futures s" "output_ref (cp_go t pc s) = output_ref s"
  "main_res (cp_go t pc s) = main_res s" "cp_printed (cp_go t pc s) = cp_printed s"
  "cp_main_at (cp_go t pc s) = cp_main_at s"
  by (simp_all add: cp_go_def)

lemma cp_invD:
  assumes "cp_inv s"
  shows "threads_ok (m_threads s) (cp_main_at s)"
    "lock_ok cp_has_lock (m_threads s) False (m_conditional_mutex s)"
    "queue_ok called cp_result_of (m_queue s) (m_threads s) (cp_futures s) (cp_submitted (cp_main_at s))"
    "texts_ok called cp_sent cp_text (cp_printed s) (m_queue s) (m_threads s) (cp_futures s) (cp_submitted (cp_main_at s))"
    "positions_ok (m_threads s) (m_shutdown s) (output_ref s) (cp_futures s)"
    "looked_after (m_threads s) (m_queue s) (cp_main_at s)"
    "cp_main_ok (cp_main_at s) (m_shutdown s) (m_threads s) (cp_futures s) (main_res s) (text_of None (cp_printed s))"
    "length (m_threads s) = 3"
  using assms by (simp_all add: cp_inv_def threads_ok_def)

lemma cp_invI:
  "threads_ok (m_threads s) (cp_main_at s) \<Longrightarrow>
   lock_ok cp_has_lock (m_threads s) False (m_conditional_mutex s) \<Longrightarrow>
   queue_ok called cp_result_of (m_queue s) (m_threads s) (cp_futures s) (cp_submitted (cp_main_at s)) \<Longrightarrow>
   texts_ok called cp_sent cp_text (cp_printed s) (m_queue s) (m_threads s) (cp_futures s) (cp_submitted (cp_main_at s)) \<Longrightarrow>
   positions_ok (m_threads s) (m_shutdown s) (output_ref s) (cp_futures s) \<Longrightarrow>
   looked_after (m_threads s) (m_queue s) (cp_main_at s) \<Longrightarrow>
   cp_main_ok (cp_main_at s) (m_shutdown s) (m_threads s) (cp_futures s) (main_res s) (text_of None (cp_printed s)) \<Longrightarrow>
   cp_inv s"
  by (simp add: cp_inv_def)

lemmas cp_main_defs = cp_submitted_def cp_waited_def cp_joined_def cp_stopping_def cp_main_text_def cp_within_def

lemma called_simps [simp]:
  "called Not_running = None" "called Tests = None" "called Locks = None" "called Checks = None"
  "called Waits = None" "called Asleep = None" "called Woken = None" "called Dequeues = None"
  "called Ended = None" "called (Calls k j) = Some k"
  by (simp_all add: called_def)

lemma cp_has_lock_simps [simp]:
  "\<not> cp_has_lock Not_running" "\<not> cp_has_lock Tests" "\<not> cp_has_lock Locks" "cp_has_lock Checks"
  "cp_has_lock Waits" "\<not> cp_has_lock Asleep" "\<not> cp_has_lock Woken" "cp_has_lock Dequeues"
  "\<not> cp_has_lock Ended" "\<not> cp_has_lock (Calls k j)"
  by (simp_all add: cp_has_lock_def)

lemma looking_simps [simp]:
  "\<not> looking Not_running" "looking Tests" "looking Locks" "looking Checks" "\<not> looking Waits"
  "\<not> looking Asleep" "looking Woken" "looking Dequeues" "\<not> looking Ended" "looking (Calls k j)"
  by (simp_all add: looking_def)

lemma cp_inv_start: "cp_inv (cp_start g h)"
proof -
  define ws where "ws = m_threads (cp_start g h)"
  have len: "length ws = 3" unfolding ws_def cp_start_def by (simp only: cxx_pool.simps length_replicate)
  have ws: "ws ! t = Not_running" if "t < 3" for t
    unfolding ws_def cp_start_def using that by (simp only: cxx_pool.simps nth_replicate)
  have rest: "m_queue (cp_start g h) = []" "m_shutdown (cp_start g h) = False"
    "m_conditional_mutex (cp_start g h) = None" "cp_futures (cp_start g h) = (\<lambda>_. None)"
    "cp_printed (cp_start g h) = []" "cp_main_at (cp_start g h) = Inits 0"
    by (simp_all add: cp_start_def)
  have "threads_ok ws (Inits 0)" using len ws by (auto simp: threads_ok_def)
  moreover have "lock_ok cp_has_lock ws False None" using len ws by (simp add: lock_ok_def)
  moreover have "queue_ok called cp_result_of [] ws (\<lambda>_. None) 0" using len ws by (intro queue_ok_start) simp
  moreover have "texts_ok called cp_sent cp_text [] [] ws (\<lambda>_. None) 0" using len ws by (simp add: texts_ok_def)
  moreover have "positions_ok ws False ref (\<lambda>_. None)" for ref using len ws by (simp add: positions_ok_def)
  ultimately show ?thesis
    unfolding cp_inv_def rest ws_def [symmetric]
    by (simp add: looked_after_def cp_main_ok_def cp_main_defs)
qed

section \<open>Moves of a worker\<close>

lemma threads_move:
  "threads_ok ws mp \<Longrightarrow> t < length ws \<Longrightarrow> ws ! t \<noteq> Not_running \<Longrightarrow> pc \<noteq> Not_running \<Longrightarrow> threads_ok (ws[t := pc]) mp"
  by (auto simp: threads_ok_def nth_list_update)

lemma positions_move:
  "positions_ok ws st ref fut \<Longrightarrow> pc = Ended \<longrightarrow> st \<Longrightarrow> called pc = None \<Longrightarrow> positions_ok (ws[t := pc]) st ref fut"
  by (cases "t < length ws") (auto simp: positions_ok_def nth_list_update)

lemma looked_move:
  assumes "looked_after ws q mp" "t < length ws" "looking pc \<or> \<not> looking (ws ! t) \<or> q = []"
  shows "looked_after (ws[t := pc]) q mp"
  using assms some_at_keep [of looking ws t pc] by (auto simp: looked_after_def)

lemma cp_main_move:
  "cp_main_ok mp st ws fut r out \<Longrightarrow> ws ! t \<noteq> Ended \<Longrightarrow> cp_main_ok mp st (ws[t := pc]) fut r out"
  by (cases "t < length ws") (auto simp: cp_main_ok_def nth_list_update list_update_beyond not_less)

lemma cp_worker_moves:
  assumes inv: "cp_inv s" and t: "t < length (m_threads s)"
    and at: "m_threads s ! t \<noteq> Not_running" "m_threads s ! t \<noteq> Ended" "called (m_threads s ! t) = None"
    and pc: "pc \<noteq> Not_running" "called pc = None" "pc = Ended \<longrightarrow> m_shutdown s"
      "looking pc \<or> \<not> looking (m_threads s ! t) \<or> m_queue s = []"
    and lock: "lock_ok cp_has_lock ((m_threads s)[t := pc]) False m"
  shows "cp_inv (cp_go t pc (s\<lparr>m_conditional_mutex := m\<rparr>))"
proof -
  note I = cp_invD [OF inv]
  show ?thesis
    by (rule cp_invI) (simp_all add: threads_move [OF I(1) t at(1) pc(1)] lock
        queue_ok_same [OF I(3) t] at pc texts_ok_move [OF I(4)] positions_move [OF I(5) pc(3,2)]
        looked_move [OF I(6) t pc(4)] cp_main_move [OF I(7) at(2)])
qed

text \<open>When the pool is shut down the queue is empty: the last task was waited for.\<close>

lemma shut_down_empty:
  assumes inv: "cp_inv s" and st: "m_shutdown s"
  shows "m_queue s = []"
proof -
  note I = cp_invD [OF inv]
  have "cp_submitted (cp_main_at s) = Suc 19" "cp_waited (cp_main_at s) = 20"
    using I(7) st by (auto simp: cp_main_ok_def cp_main_defs split: cp_main_pc.splits)
  moreover from this have "cp_futures s 19 \<noteq> None" using I(7) by (auto simp: cp_main_ok_def)
  ultimately show ?thesis using queue_ok_last [of called cp_result_of "m_queue s" "m_threads s" "cp_futures s" 19] I(3) by simp
qed

lemma cp_worker_takes:
  assumes inv: "cp_inv s" and t: "t < length (m_threads s)" and at: "m_threads s ! t = Dequeues"
    and q: "m_queue s = k # q"
  shows "cp_inv (cp_go t (Calls k 0) (s\<lparr>m_queue := q, m_conditional_mutex := None\<rparr>))"
proof -
  note I = cp_invD [OF inv]
  let ?ws = "(m_threads s)[t := Calls k 0]"
  have "lock_ok cp_has_lock ?ws False None" using lock_ok_drop [OF I(2) t, of "Calls k 0"] at by simp
  moreover have "queue_ok called cp_result_of q ?ws (cp_futures s) (cp_submitted (cp_main_at s))"
    using queue_ok_take [OF I(3) _ t, of "Calls k 0"] at q by simp
  moreover have "texts_ok called cp_sent cp_text (cp_printed s) q ?ws (cp_futures s) (cp_submitted (cp_main_at s))"
    using texts_ok_take [OF I(4), of "Calls k 0"] q by (simp add: cp_sent_def)
  moreover have "positions_ok ?ws (m_shutdown s) (output_ref s) (cp_futures s)"
    using I(5) t by (auto simp: positions_ok_def nth_list_update)
  moreover have "looked_after ?ws q (cp_main_at s)"
    using some_at_update [OF t, of looking "Calls k 0"] by (simp add: looked_after_def)
  ultimately show ?thesis
    by (intro cp_invI) (simp_all add: threads_move [OF I(1) t] at cp_main_move [OF I(7)])
qed

section \<open>Moves in a task\<close>

lemma task_18: "cp_tasks ! 18 = (Multiply_output, 5, 6)"
  by code_simp

lemma task_19: "cp_tasks ! 19 = (Multiply_return, 5, 3)"
  by code_simp

lemma length_cp_text [simp]: "length (cp_text k) = 6"
  by (simp add: cp_text_def cp_line_def split: prod.split)

text \<open>Only the task 18 has an output parameter.\<close>

lemma only_output: "k < 20 \<Longrightarrow> cp_tasks ! k = (Multiply_output, a, b) \<Longrightarrow> k = 18"
proof -
  assume k: "k < 20" and at: "cp_tasks ! k = (Multiply_output, a, b)"
  have "map fst cp_tasks = replicate 18 Multiply @ [Multiply_output, Multiply_return]" by code_simp
  moreover have "length cp_tasks = 20" by code_simp
  ultimately have "(replicate 18 Multiply @ [Multiply_output, Multiply_return]) ! k = Multiply_output"
    using k at nth_map [of k cp_tasks fst] by simp
  then have "\<not> k < 18" by (auto simp only: nth_append nth_replicate length_replicate if_P cp_function.distinct)
  moreover have "k \<noteq> 19" using at task_19 by auto
  ultimately show ?thesis using k by simp
qed

text \<open>A step of a task that leaves the task's text as it is, or sends its next piece.\<close>

lemma cp_call_goes_on:
  assumes inv: "cp_inv s" and t: "t < length (m_threads s)" and at: "m_threads s ! t = Calls k j"
    and j: "j < 7" and ref: "ref = (if k = 18 then 30 else output_ref s)"
    and texts: "texts_ok called cp_sent cp_text out (m_queue s) ((m_threads s)[t := Calls k (Suc j)]) (cp_futures s)
      (cp_submitted (cp_main_at s))" "text_of None out = text_of None (cp_printed s)"
  shows "cp_inv (cp_go t (Calls k (Suc j)) (s\<lparr>output_ref := ref, cp_printed := out\<rparr>))"
proof -
  note I = cp_invD [OF inv]
  let ?ws = "(m_threads s)[t := Calls k (Suc j)]"
  have "lock_ok cp_has_lock ?ws False (m_conditional_mutex s)" by (rule lock_ok_keep [OF I(2) t]) (simp add: at)
  moreover have "positions_ok ?ws (m_shutdown s) ref (cp_futures s)"
    using I(5) t j ref by (auto simp: positions_ok_def nth_list_update)
  ultimately show ?thesis
    using texts looked_move [OF I(6) t] cp_main_move [OF I(7)] at
    by (intro cp_invI) (simp_all add: threads_move [OF I(1) t] queue_ok_same [OF I(3) t])
qed

lemma cp_call_inv:
  assumes inv: "cp_inv s" and t: "t < length (m_threads s)" and at: "m_threads s ! t = Calls k j"
  shows "cp_inv (cp_call t k j s)"
proof -
  note I = cp_invD [OF inv]
  have k: "k < 20" "cp_futures s k = None"
  proof -
    have "cp_submitted (cp_main_at s) \<le> 20"
      using I(7) by (auto simp: cp_main_ok_def cp_main_defs split: cp_main_pc.splits)
    then show "k < 20" "cp_futures s k = None" using queue_ok_running [OF I(3) t, of k] at by simp_all
  qed
  have pos: "j \<le> 7" "k = 18 \<Longrightarrow> 0 < j \<Longrightarrow> output_ref s = 30" using I(5) t at by (auto simp: positions_ok_def)
  obtain f a b where task: "cp_tasks ! k = (f, a, b)" by (cases "cp_tasks ! k") auto
  have out: "f = Multiply_output \<longleftrightarrow> k = 18" "k = 18 \<Longrightarrow> a * b = 30"
    using only_output [OF k(1)] task task_18 by (auto simp: task_18)
  consider "j = 0" | "0 < j" "j \<le> 6" | "j = 7" using pos(1) by linarith
  then show ?thesis
  proof cases
    case 1
    have "texts_ok called cp_sent cp_text (cp_printed s) (m_queue s) ((m_threads s)[t := Calls k (Suc j)])
        (cp_futures s) (cp_submitted (cp_main_at s))"
      by (rule texts_ok_silent [OF I(4) t]) (simp_all add: at 1 cp_sent_def)
    from cp_call_goes_on [OF inv t at _ refl this] 1
    have "cp_inv (cp_go t (Calls k 1) (s\<lparr>output_ref := if k = 18 then 30 else output_ref s, cp_printed := cp_printed s\<rparr>))"
      by simp
    then show ?thesis using 1 out by (simp add: cp_call_def task split: if_splits)
  next
    case 2
    let ?p = "cp_text k ! (j - 1)"
    have p: "cp_line a b (if f = Multiply_output then output_ref s else a * b) ! (j - 1) = ?p"
      using pos(2) 2 out by (simp add: cp_text_def task)
    have "cp_sent (Calls k (Suc j)) = cp_sent (m_threads s ! t) @ [?p]"
      using 2 take_Suc_conv_app_nth [of "j - 1" "cp_text k"] by (simp add: at cp_sent_def)
    then have "texts_ok called cp_sent cp_text (cp_printed s @ [(Some k, ?p)]) (m_queue s)
        ((m_threads s)[t := Calls k (Suc j)]) (cp_futures s) (cp_submitted (cp_main_at s))"
      by (intro texts_ok_print [OF I(4,3) t]) (simp_all add: at)
    from cp_call_goes_on [OF inv t at _ refl this] 2
    have "cp_inv (cp_go t (Calls k (Suc j)) (s\<lparr>output_ref := if k = 18 then 30 else output_ref s,
        cp_printed := cp_printed s @ [(Some k, ?p)]\<rparr>))" by simp
    moreover have "(if k = 18 then 30 else output_ref s) = output_ref s" using pos(2) 2 by simp
    ultimately have "cp_inv (cp_go t (Calls k (Suc j)) (s\<lparr>output_ref := output_ref s,
        cp_printed := cp_printed s @ [(Some k, ?p)]\<rparr>))" by (simp only:)
    moreover have "s\<lparr>output_ref := output_ref s, cp_printed := out\<rparr> = s\<lparr>cp_printed := out\<rparr>" for out by (cases s) simp
    moreover have "cp_call t k j s = cp_go t (Calls k (Suc j)) (s\<lparr>cp_printed := cp_printed s @ [(Some k, ?p)]\<rparr>)"
      using 2 p by (simp add: cp_call_def task)
    ultimately show ?thesis by (simp only:)
  next
    case 3
    let ?ws = "(m_threads s)[t := Tests]"
    let ?f = "(cp_futures s)(k := Some (cp_result_of k))"
    have call: "cp_call t k j s = cp_go t Tests (s\<lparr>cp_futures := ?f\<rparr>)"
      using 3 by (simp add: cp_call_def cp_result_of_def task)
    have "lock_ok cp_has_lock ?ws False (m_conditional_mutex s)" by (rule lock_ok_keep [OF I(2) t]) (simp add: at)
    moreover have "queue_ok called cp_result_of (m_queue s) ?ws ?f (cp_submitted (cp_main_at s))"
      by (rule queue_ok_finish [OF I(3) t]) (simp_all add: at)
    moreover have "texts_ok called cp_sent cp_text (cp_printed s) (m_queue s) ?ws ?f (cp_submitted (cp_main_at s))"
      by (rule texts_ok_finish [OF I(4) t]) (simp_all add: at cp_sent_def 3)
    moreover have "positions_ok ?ws (m_shutdown s) (output_ref s) ?f"
      using I(5) t pos 3 by (auto simp: positions_ok_def nth_list_update)
    moreover have "cp_main_ok (cp_main_at s) (m_shutdown s) ?ws ?f (main_res s) (text_of None (cp_printed s))"
      using cp_main_move [OF I(7), of t Tests] at by (auto simp: cp_main_ok_def)
    ultimately show ?thesis
      unfolding call
      by (intro cp_invI) (simp_all add: threads_move [OF I(1) t] at looked_move [OF I(6) t])
  qed
qed

lemma cp_worker_step_inv:
  assumes inv: "cp_inv s" and t: "t < length (m_threads s)" and step: "cp_worker_step t s = Some s'"
  shows "cp_inv s'"
proof -
  note I = cp_invD [OF inv]
  note move = cp_worker_moves [OF inv t]
  have same: "s\<lparr>m_conditional_mutex := m_conditional_mutex s\<rparr> = s" by simp
  show ?thesis
  proof (cases "m_threads s ! t")
    case Tests
    let ?pc = "if m_shutdown s then Ended else Locks"
    have "lock_ok cp_has_lock ((m_threads s)[t := ?pc]) False (m_conditional_mutex s)"
      by (rule lock_ok_keep [OF I(2) t]) (simp add: Tests)
    from move [OF _ _ _ _ _ _ _ this] Tests shut_down_empty [OF inv]
    have "cp_inv (cp_go t ?pc (s\<lparr>m_conditional_mutex := m_conditional_mutex s\<rparr>))" by simp
    then show ?thesis using step Tests by (simp add: cp_worker_step_def)
  next
    case Locks
    then have s': "s' = cp_go t Checks (s\<lparr>m_conditional_mutex := Some (Worker t)\<rparr>)" "m_conditional_mutex s = None"
      using step by (auto simp: cp_worker_step_def split: if_splits)
    have "lock_ok cp_has_lock ((m_threads s)[t := Checks]) False (Some (Worker t))"
      using lock_ok_take [OF I(2) [unfolded s'(2)] t] by simp
    from move [OF _ _ _ _ _ _ _ this] Locks show ?thesis unfolding s'(1) by simp
  next
    case Checks
    let ?pc = "if m_queue s = [] then Waits else Dequeues"
    have "lock_ok cp_has_lock ((m_threads s)[t := ?pc]) False (m_conditional_mutex s)"
      by (rule lock_ok_keep [OF I(2) t]) (simp add: Checks)
    from move [OF _ _ _ _ _ _ _ this] Checks
    have "cp_inv (cp_go t ?pc (s\<lparr>m_conditional_mutex := m_conditional_mutex s\<rparr>))" by simp
    then show ?thesis using step Checks by (simp add: cp_worker_step_def)
  next
    case Waits
    have "lock_ok cp_has_lock ((m_threads s)[t := Asleep]) False None"
      using lock_ok_drop [OF I(2) t, of Asleep] Waits by simp
    from move [OF _ _ _ _ _ _ _ this] Waits show ?thesis using step by (simp add: cp_worker_step_def)
  next
    case Woken
    then have s': "s' = cp_go t Dequeues (s\<lparr>m_conditional_mutex := Some (Worker t)\<rparr>)" "m_conditional_mutex s = None"
      using step by (auto simp: cp_worker_step_def split: if_splits)
    have "lock_ok cp_has_lock ((m_threads s)[t := Dequeues]) False (Some (Worker t))"
      using lock_ok_take [OF I(2) [unfolded s'(2)] t] by simp
    from move [OF _ _ _ _ _ _ _ this] Woken show ?thesis unfolding s'(1) by simp
  next
    case Dequeues
    show ?thesis
    proof (cases "m_queue s")
      case Nil
      have "lock_ok cp_has_lock ((m_threads s)[t := Tests]) False None"
        using lock_ok_drop [OF I(2) t, of Tests] Dequeues by simp
      from move [OF _ _ _ _ _ _ _ this] Dequeues show ?thesis using step Nil by (simp add: cp_worker_step_def)
    next
      case (Cons k q)
      then show ?thesis using cp_worker_takes [OF inv t Dequeues Cons] step Dequeues by (simp add: cp_worker_step_def)
    qed
  next
    case (Calls k j)
    then show ?thesis using cp_call_inv [OF inv t Calls] step by (simp add: cp_worker_step_def)
  qed (use step in \<open>simp_all add: cp_worker_step_def\<close>)
qed

lemma cp_woken:
  assumes inv: "cp_inv s" and t: "t < length (m_threads s)" and at: "m_threads s ! t = Asleep"
  shows "cp_inv (cp_go t Woken s)"
proof -
  note I = cp_invD [OF inv]
  have "lock_ok cp_has_lock ((m_threads s)[t := Woken]) False (m_conditional_mutex s)"
    using lock_ok_keep [OF I(2) t, of Woken] at by simp
  from cp_worker_moves [OF inv t _ _ _ _ _ _ _ this] at
  have "cp_inv (cp_go t Woken (s\<lparr>m_conditional_mutex := m_conditional_mutex s\<rparr>))" by simp
  then show ?thesis by simp
qed

section \<open>Moves of main\<close>

lemma cp_main_moves:
  assumes inv: "cp_inv s" and "threads_ok (m_threads s) mp" "cp_submitted mp = cp_submitted (cp_main_at s)"
    and "looked_after (m_threads s) (m_queue s) mp"
    and "cp_main_ok mp (m_shutdown s) (m_threads s) (cp_futures s) r (text_of None out)"
    and "out = cp_printed s \<or> (\<exists>p. out = cp_printed s @ [(None, p)])"
  shows "cp_inv (s\<lparr>main_res := r, cp_printed := out, cp_main_at := mp\<rparr>)"
proof -
  note I = cp_invD [OF inv]
  have "texts_ok called cp_sent cp_text out (m_queue s) (m_threads s) (cp_futures s) (cp_submitted mp)"
    using I(4) assms(3,6) texts_ok_main [OF I(4)] by auto
  then show ?thesis using I assms by (intro cp_invI) simp_all
qed

lemma threads_after:
  "threads_ok ws mp0 \<Longrightarrow> (\<And>i. mp0 \<noteq> Inits i) \<Longrightarrow> (\<And>i. mp \<noteq> Inits i) \<Longrightarrow> threads_ok ws mp"
  by (simp add: threads_ok_def)

lemma looked_main: "looked_after ws q mp0 \<Longrightarrow> (\<And>k. mp0 \<noteq> Notifies k) \<Longrightarrow> looked_after ws q mp"
  by (simp add: looked_after_def)

text \<open>A step behind \<open>init\<close> that only changes variables of \<open>main\<close>.\<close>

lemma cp_main_goes_on:
  assumes inv: "cp_inv s" and mp: "cp_main_at s = mp0" "\<And>i. mp0 \<noteq> Inits i" "\<And>k. mp0 \<noteq> Notifies k"
    and new: "\<And>i. mp \<noteq> Inits i" "cp_submitted mp = cp_submitted mp0"
    and "cp_main_ok mp (m_shutdown s) (m_threads s) (cp_futures s) r (text_of None out)"
    and "out = cp_printed s \<or> (\<exists>p. out = cp_printed s @ [(None, p)])"
  shows "cp_inv (s\<lparr>main_res := r, cp_printed := out, cp_main_at := mp\<rparr>)"
proof (rule cp_main_moves [OF inv])
  note I = cp_invD [OF inv]
  show "threads_ok (m_threads s) mp" using threads_after [of "m_threads s" mp0 mp] I(1) mp new by simp
  show "looked_after (m_threads s) (m_queue s) mp" using looked_main [of "m_threads s" "m_queue s" mp0] I(6) mp by simp
qed (use assms in simp_all)

lemma cp_main_inits:
  assumes inv: "cp_inv s" and mp: "cp_main_at s = Inits i" and step: "cp_main_step w s = Some s'"
  shows "cp_inv s'"
proof (cases "i < 3")
  case True
  note I = cp_invD [OF inv]
  let ?ws = "(m_threads s)[i := Tests]"
  have len: "i < length (m_threads s)" using I(8) True by simp
  have at: "m_threads s ! i = Not_running" using I(1) mp True by (auto simp: threads_ok_def)
  have s': "s' = cp_go i Tests (s\<lparr>cp_main_at := Inits (i + 1)\<rparr>)"
    using step mp len by (simp add: cp_main_steps)
  have 0: "cp_submitted (cp_main_at s) = 0" "cp_submitted (Inits (i + 1)) = 0" using mp by (simp_all add: cp_submitted_def)
  have "threads_ok ?ws (Inits (i + 1))" using I(1) mp True by (auto simp: threads_ok_def nth_list_update)
  moreover have "lock_ok cp_has_lock ?ws False (m_conditional_mutex s)" by (rule lock_ok_keep [OF I(2) len]) (simp add: at)
  moreover have "queue_ok called cp_result_of (m_queue s) ?ws (cp_futures s) 0"
    using queue_ok_same [OF I(3) len, of Tests] at 0 by simp
  moreover have "texts_ok called cp_sent cp_text (cp_printed s) (m_queue s) ?ws (cp_futures s) 0"
    using texts_ok_move [OF I(4), of Tests i] 0 by simp
  moreover have "looked_after ?ws (m_queue s) (Inits (i + 1))"
    using looked_main [OF looked_move [OF I(6) len]] mp by simp
  moreover have "cp_main_ok (Inits (i + 1)) (m_shutdown s) ?ws (cp_futures s) (main_res s) (text_of None (cp_printed s))"
    using I(7) mp True by (simp add: cp_main_ok_def cp_main_defs)
  ultimately show ?thesis
    unfolding s' by (intro cp_invI) (simp_all add: 0 [unfolded Suc_eq_plus1] positions_move [OF I(5)] cp_submitted_def)
next
  case False
  note I = cp_invD [OF inv]
  have "threads_ok (m_threads s) (Submits 0)" using I(1) mp False by (auto simp: threads_ok_def)
  moreover have "looked_after (m_threads s) (m_queue s) (Submits 0)"
    using looked_main [OF I(6)] mp by simp
  moreover have "cp_main_ok (Submits 0) (m_shutdown s) (m_threads s) (cp_futures s) (main_res s) (text_of None (cp_printed s))"
    using I(7) mp by (simp add: cp_main_ok_def cp_main_defs before_def)
  ultimately have "cp_inv (s\<lparr>main_res := main_res s, cp_printed := cp_printed s, cp_main_at := Submits 0\<rparr>)"
    using mp by (intro cp_main_moves [OF inv]) (simp_all add: cp_submitted_def)
  then show ?thesis using step mp False I(8) by (simp add: cp_main_steps)
qed

lemma cp_main_submits:
  assumes inv: "cp_inv s" and mp: "cp_main_at s = Submits k"
  shows "cp_inv (s\<lparr>m_queue := m_queue s @ [k], cp_main_at := Notifies k\<rparr>)"
proof -
  note I = cp_invD [OF inv]
  have "queue_ok called cp_result_of (m_queue s @ [k]) (m_threads s) (cp_futures s) (Suc k)"
    using queue_ok_submit I(3) mp by (simp add: cp_submitted_def)
  moreover have "texts_ok called cp_sent cp_text (cp_printed s) (m_queue s @ [k]) (m_threads s) (cp_futures s) (Suc k)"
    using texts_ok_submit I(4) mp by (simp add: cp_submitted_def)
  moreover have "threads_ok (m_threads s) (Notifies k)" using threads_after [OF I(1)] mp by simp
  moreover have "looked_after (m_threads s) (m_queue s @ [k]) (Notifies k)" by (simp add: looked_after_def)
  moreover have "cp_main_ok (Notifies k) (m_shutdown s) (m_threads s) (cp_futures s) (main_res s) (text_of None (cp_printed s))"
    using I(7) mp by (simp add: cp_main_ok_def cp_main_defs)
  ultimately show ?thesis using I(2,5) by (intro cp_invI) (simp_all add: cp_submitted_def)
qed

lemma after_submit_simps:
  "after_submit k \<noteq> Inits j" "cp_submitted (after_submit k) = k + 1"
  "k \<le> 19 \<Longrightarrow> cp_main_ok (Notifies k) st ws fut r out \<Longrightarrow> cp_main_ok (after_submit k) st ws fut r out"
  by (auto simp: after_submit_def cp_main_ok_def cp_main_defs before_def)

text \<open>Behind \<open>notify_one\<close> somebody will look into the queue: of two workers one is not in front of the wait.\<close>

lemma somebody_looks:
  assumes inv: "cp_inv s" and mp: "cp_main_at s = Notifies k" and none: "Asleep \<notin> set (m_threads s)"
  shows "some_at looking (m_threads s)"
proof -
  note I = cp_invD [OF inv]
  have "\<not> m_shutdown s" using I(7) mp by (simp add: cp_main_ok_def cp_stopping_def)
  then have at: "m_threads s ! t = Waits \<or> looking (m_threads s ! t)" if "t < 3" for t
  proof -
    have "m_threads s ! t \<in> set (m_threads s)" using that I(8) by simp
    with none have "m_threads s ! t \<noteq> Asleep" by metis
    moreover have "m_threads s ! t \<noteq> Not_running" using that I(1) mp by (simp add: threads_ok_def)
    moreover have "m_threads s ! t \<noteq> Ended" using that I(5,8) \<open>\<not> m_shutdown s\<close> by (simp add: positions_ok_def)
    ultimately show ?thesis by (simp add: looking_def)
  qed
  have "\<not> (m_threads s ! 0 = Waits \<and> m_threads s ! 1 = Waits)"
    using lock_ok_other [OF I(2), of 0 1] I(8) by auto
  then have "looking (m_threads s ! 0) \<or> looking (m_threads s ! 1)" using at [of 0] at [of 1] by auto
  moreover have "(0::nat) < 3" "(1::nat) < 3" by simp_all
  ultimately show ?thesis unfolding some_at_def I(8) by blast
qed

lemma cp_main_notified:
  assumes inv: "cp_inv s" and mp: "cp_main_at s = Notifies k" and looks: "some_at looking (m_threads s)"
  shows "cp_inv (s\<lparr>cp_main_at := after_submit k\<rparr>)"
proof -
  note I = cp_invD [OF inv]
  have k: "k \<le> 19" using I(7) mp by (simp add: cp_main_ok_def cp_within_def)
  have "cp_inv (s\<lparr>main_res := main_res s, cp_printed := cp_printed s, cp_main_at := after_submit k\<rparr>)"
  proof (rule cp_main_moves [OF inv])
    show "threads_ok (m_threads s) (after_submit k)"
      using threads_after [OF I(1), of "after_submit k"] mp after_submit_simps(1) by simp
    show "cp_submitted (after_submit k) = cp_submitted (cp_main_at s)"
      using mp by (simp add: after_submit_simps(2) cp_submitted_def [of "Notifies k"])
    show "looked_after (m_threads s) (m_queue s) (after_submit k)" using looks by (simp add: looked_after_def)
    show "cp_main_ok (after_submit k) (m_shutdown s) (m_threads s) (cp_futures s) (main_res s) (text_of None (cp_printed s))"
      using after_submit_simps(3) [OF k] I(7) mp by simp
  qed simp
  then show ?thesis by simp
qed

lemma cp_go_main: "cp_go w pc (s\<lparr>cp_main_at := mp\<rparr>) = (cp_go w pc s)\<lparr>cp_main_at := mp\<rparr>"
  by (cases s) (simp add: cp_go_def)

lemma cp_main_notifies:
  assumes inv: "cp_inv s" and mp: "cp_main_at s = Notifies k" and step: "cp_main_step w s = Some s'"
  shows "cp_inv s'"
proof (cases "w < length (m_threads s) \<and> m_threads s ! w = Asleep")
  case True
  then have s': "s' = (cp_go w Woken s)\<lparr>cp_main_at := after_submit k\<rparr>"
    using step mp by (simp add: cp_main_steps cp_go_main)
  have "cp_inv (cp_go w Woken s)" using cp_woken [OF inv] True by simp
  moreover have "some_at looking (m_threads (cp_go w Woken s))"
    using some_at_update [of w "m_threads s" looking Woken] True by simp
  ultimately show ?thesis unfolding s' using cp_main_notified [of "cp_go w Woken s" k] mp by simp
next
  case False
  then have s': "s' = s\<lparr>cp_main_at := after_submit k\<rparr>" and none: "Asleep \<notin> set (m_threads s)"
    using step mp by (auto simp: cp_main_steps split: if_splits)
  show ?thesis unfolding s' by (rule cp_main_notified [OF inv mp somebody_looks [OF inv mp none]])
qed

lemma cp_wake_simps:
  "cp_has_lock (cp_wake pc) = cp_has_lock pc" "called (cp_wake pc) = called pc" "cp_sent (cp_wake pc) = cp_sent pc"
  "cp_wake pc = Not_running \<longleftrightarrow> pc = Not_running" "cp_wake pc = Ended \<longleftrightarrow> pc = Ended"
  "cp_wake pc = Calls i k \<longleftrightarrow> pc = Calls i k" "cp_wake pc \<noteq> Asleep"
  by (auto simp: cp_wake_def cp_sent_def)

lemma cp_main_shuts_down:
  assumes inv: "cp_inv s" and mp: "cp_main_at s = Shuts_down"
  shows "cp_inv (s\<lparr>m_shutdown := True, cp_main_at := Notifies_all\<rparr>)"
proof -
  note I = cp_invD [OF inv]
  have "threads_ok (m_threads s) Notifies_all" using threads_after [OF I(1)] mp by simp
  moreover have "looked_after (m_threads s) (m_queue s) Notifies_all" using looked_main [OF I(6)] mp by simp
  moreover have "positions_ok (m_threads s) True (output_ref s) (cp_futures s)" using I(5) by (auto simp: positions_ok_def)
  moreover have "cp_main_ok Notifies_all True (m_threads s) (cp_futures s) (main_res s) (text_of None (cp_printed s))"
    using I(7) mp by (simp add: cp_main_ok_def cp_main_defs)
  moreover have "cp_submitted Shuts_down = cp_submitted Notifies_all" by (simp add: cp_submitted_def)
  ultimately show ?thesis using I(2,3,4) mp by (intro cp_invI) simp_all
qed

lemma cp_main_notifies_all:
  assumes inv: "cp_inv s" and mp: "cp_main_at s = Notifies_all"
  shows "cp_inv (s\<lparr>m_threads := map cp_wake (m_threads s), cp_main_at := Joins 0\<rparr>)"
proof -
  note I = cp_invD [OF inv]
  let ?ws = "map cp_wake (m_threads s)"
  have sub: "cp_submitted (Joins 0) = cp_submitted (cp_main_at s)" using mp by (simp add: cp_submitted_def)
  have "threads_ok ?ws (Joins 0)" using I(1) mp by (simp add: threads_ok_def cp_wake_simps)
  moreover have "lock_ok cp_has_lock ?ws False (m_conditional_mutex s)" using I(2) by (simp add: lock_ok_map cp_wake_simps)
  moreover have "queue_ok called cp_result_of (m_queue s) ?ws (cp_futures s) (cp_submitted (Joins 0))"
    using I(3) by (simp add: queue_ok_map cp_wake_simps sub)
  moreover have "texts_ok called cp_sent cp_text (cp_printed s) (m_queue s) ?ws (cp_futures s) (cp_submitted (Joins 0))"
    using texts_ok_map [OF I(4) cp_wake_simps(2,3)] by (simp add: sub)
  moreover have "positions_ok ?ws (m_shutdown s) (output_ref s) (cp_futures s)"
    using I(5) by (simp add: positions_ok_def cp_wake_simps)
  moreover have "m_queue s = []"
    using shut_down_empty [OF inv] I(7) mp by (simp add: cp_main_ok_def cp_stopping_def)
  moreover have "cp_main_ok (Joins 0) (m_shutdown s) ?ws (cp_futures s) (main_res s) (text_of None (cp_printed s))"
    using I(7) mp by (simp add: cp_main_ok_def cp_main_defs)
  ultimately show ?thesis by (intro cp_invI) (simp_all add: looked_after_def)
qed

lemma results_18_19: "cp_result_of 18 = Void" "cp_result_of 19 = Int_result 15"
  by (simp_all add: cp_result_of_def task_18 task_19)

lemma cp_main_step_inv:
  assumes inv: "cp_inv s" and step: "cp_main_step w s = Some s'"
  shows "cp_inv s'"
proof -
  note I = cp_invD [OF inv]
  note on = cp_main_goes_on [OF inv]
  have M: "cp_within (cp_main_at s)" "m_shutdown s = cp_stopping (cp_main_at s)"
    "\<forall>i. 18 \<le> i \<and> i < cp_waited (cp_main_at s) \<longrightarrow> cp_futures s i \<noteq> None"
    "\<forall>i < cp_joined (cp_main_at s). m_threads s ! i = Ended"
    "text_of None (cp_printed s) = cp_main_text (cp_main_at s)" "\<And>j. cp_main_at s = Says 19 j \<Longrightarrow> main_res s = 15"
    using I(7) by (auto simp: cp_main_ok_def)
  show ?thesis
  proof (cases "cp_main_at s")
    case (Inits i)
    then show ?thesis by (rule cp_main_inits [OF inv _ step])
  next
    case (Submits k)
    then show ?thesis using cp_main_submits [OF inv Submits] step by (simp add: cp_main_steps)
  next
    case (Notifies k)
    then show ?thesis by (rule cp_main_notifies [OF inv _ step])
  next
    case (Gets k)
    then obtain r where r: "cp_futures s k = Some r" using step by (auto simp: cp_main_steps split: option.splits)
    have k: "k = 18 \<or> k = 19" using M(1) Gets by (simp add: cp_within_def)
    have res: "r = cp_result_of k" by (rule queue_ok_result [OF I(3) r])
    let ?v = "if k = 19 then 15 else main_res s"
    have known: "\<forall>i. 18 \<le> i \<and> i < Suc k \<longrightarrow> cp_futures s i \<noteq> None"
      using M(3) r Gets by (auto simp: cp_waited_def less_Suc_eq)
    have "cp_inv (s\<lparr>main_res := ?v, cp_printed := cp_printed s, cp_main_at := Says k 0\<rparr>)"
      by (rule on [OF Gets]) (use M Gets k known in \<open>auto simp: cp_main_ok_def cp_main_defs\<close>)
    then show ?thesis using step Gets r k res results_18_19 by (auto simp: cp_main_steps)
  next
    case (Says k j)
    let ?r = "if k = 18 then output_ref s else main_res s"
    let ?mp = "if j < 2 then Says k (j + 1) else if k = 18 then Submits 19 else Shuts_down"
    have k: "k = 18 \<or> k = 19" "j < 3" using M(1) Says by (simp_all add: cp_within_def)
    have "cp_futures s 18 \<noteq> None" using M(3) Says k by (auto simp: cp_waited_def)
    then have r: "?r = (if k = 18 then 30 else 15)" using I(5) M(6) Says k by (auto simp: positions_ok_def)
    have line: "length (main_line v) = 3" for v by (simp add: main_line_def)
    have said: "text_of None (cp_printed s @ [(None, main_line ?r ! j)]) = cp_main_text ?mp"
    proof -
      have "take (Suc j) (main_line ?r) = take j (main_line ?r) @ [main_line ?r ! j]"
        using k line by (simp add: take_Suc_conv_app_nth)
      moreover have "take (Suc j) (main_line ?r) = main_line ?r" if "\<not> j < 2" using that line k by simp
      ultimately show ?thesis using M(5) Says r k by (auto simp: cp_main_text_def before_def)
    qed
    have "cp_inv (s\<lparr>main_res := main_res s, cp_printed := cp_printed s @ [(None, main_line ?r ! j)], cp_main_at := ?mp\<rparr>)"
    proof (rule on [OF Says])
      show "cp_submitted ?mp = cp_submitted (Says k j)" using k by (auto simp: cp_submitted_def)
      show "cp_main_ok ?mp (m_shutdown s) (m_threads s) (cp_futures s) (main_res s)
          (text_of None (cp_printed s @ [(None, main_line ?r ! j)]))"
        unfolding said using M(2,3,6) Says k by (auto simp: cp_main_ok_def cp_main_defs)
    qed simp_all
    then show ?thesis using step Says by (simp add: cp_main_steps)
  next
    case Shuts_down
    then show ?thesis using cp_main_shuts_down [OF inv Shuts_down] step by (simp add: cp_main_steps)
  next
    case Notifies_all
    then show ?thesis using cp_main_notifies_all [OF inv Notifies_all] step by (simp add: cp_main_steps)
  next
    case (Joins i)
    let ?mp = "if i < 3 then Joins (i + 1) else Done"
    have s': "s' = s\<lparr>cp_main_at := ?mp\<rparr>" "i < 3 \<longrightarrow> m_threads s ! i = Ended"
      using step Joins I(8) by (auto simp: cp_main_steps split: if_splits)
    have "cp_inv (s\<lparr>main_res := main_res s, cp_printed := cp_printed s, cp_main_at := ?mp\<rparr>)"
      by (rule on [OF Joins]) (use M Joins s'(2) in \<open>auto simp: cp_main_ok_def cp_main_defs less_Suc_eq\<close>)
    then show ?thesis by (simp add: s'(1))
  next
    case Done
    then show ?thesis using step by (simp add: cp_main_steps)
  qed
qed

lemma cp_step_inv: "cp_inv s \<Longrightarrow> cp_step a s = Some s' \<Longrightarrow> cp_inv s'"
  by (cases a) (auto split: if_splits intro: cp_worker_step_inv cp_main_step_inv cp_woken)

lemma cp_run_inv: "cp_run as s = Some s' \<Longrightarrow> cp_inv s \<Longrightarrow> cp_inv s'"
proof (induction as arbitrary: s)
  case (Cons a as)
  then obtain s1 where "cp_step a s = Some s1" "cp_run as s1 = Some s'"
    by (auto simp: bind_eq_Some_conv)
  then show ?case using Cons.IH [of s1] Cons.prems(2) cp_step_inv by blast
qed simp

section \<open>Where nothing can go on\<close>

text \<open>No thread can go on; a wakeup without a signal is no way out.\<close>

definition cp_stuck :: "cxx_pool \<Rightarrow> bool" where
  "cp_stuck s \<longleftrightarrow> (\<forall>t. cp_step (Worker_runs t) s = None) \<and> (\<forall>w. cp_step (Main_runs w) s = None)"

lemma cp_stuck_worker:
  assumes inv: "cp_inv s" and stuck: "cp_stuck s" and t: "t < 3"
  shows "m_threads s ! t \<in> {Not_running, Asleep, Ended}"
proof -
  note I = cp_invD [OF inv]
  have no: "cp_worker_step u s = None" if "u < 3" for u
    using stuck that I(8) unfolding cp_stuck_def by (metis cp_step.simps(1))
  have "m_conditional_mutex s = None"
  proof (cases "m_conditional_mutex s")
    case (Some h)
    then obtain u where "u < 3" "cp_has_lock (m_threads s ! u)"
      using I(2,8) by (cases h) (auto simp: lock_ok_def)
    then show ?thesis using no [of u] by (auto simp: cp_has_lock_def cp_worker_step_def split: list.splits)
  qed simp
  then show ?thesis using no [OF t]
    by (cases "m_threads s ! t") (auto simp: cp_worker_step_def split: list.splits)
qed

lemma cp_stuck_main: "cp_stuck s \<Longrightarrow> cp_main_step w s = None"
  by (simp add: cp_stuck_def)

lemma cp_stuck_end:
  assumes inv: "cp_inv s" and stuck: "cp_stuck s"
  shows "cp_main_at s = Done \<or> (\<exists>i < 3. cp_main_at s = Joins i \<and> m_threads s ! i = Asleep)"
proof -
  note I = cp_invD [OF inv]
  note no = cp_stuck_main [OF stuck]
  note at = cp_stuck_worker [OF inv stuck]
  show ?thesis
  proof (cases "cp_main_at s")
    case (Inits i)
    then show ?thesis using no [of 0] by (cases "i < length (m_threads s)") (simp_all add: cp_main_steps)
  next
    case (Submits k)
    then show ?thesis using no [of 0] by (simp add: cp_main_steps)
  next
    case (Notifies k)
    show ?thesis
    proof (cases "Asleep \<in> set (m_threads s)")
      case True
      then obtain w where "w < length (m_threads s)" "m_threads s ! w = Asleep" by (metis in_set_conv_nth)
      then show ?thesis using no [of w] Notifies by (simp add: cp_main_steps)
    next
      case False
      have "m_threads s ! 0 \<in> set (m_threads s)" using I(8) by simp
      with False have "m_threads s ! 0 \<noteq> Asleep" by metis
      then show ?thesis using no [of 0] Notifies False by (simp add: cp_main_steps)
    qed
  next
    case (Gets k)
    then have none: "cp_futures s k = None"
      using no [of 0] by (auto simp: cp_main_steps split: option.splits cp_result.splits)
    have quiet: "\<not> looking (m_threads s ! t) \<and> called (m_threads s ! t) = None" if "t < 3" for t
      using at [OF that] by auto
    then have "m_queue s = []" using I(6,8) Gets by (auto simp: looked_after_def some_at_def)
    then show ?thesis
      using queue_ok_where [OF I(3), of k] none quiet I(8) Gets by (auto simp: cp_submitted_def)
  next
    case (Says k j)
    then show ?thesis using no [of 0] by (simp add: cp_main_steps)
  next
    case Shuts_down
    then show ?thesis using no [of 0] by (simp add: cp_main_steps)
  next
    case Notifies_all
    then show ?thesis using no [of 0] by (simp add: cp_main_steps)
  next
    case (Joins i)
    then have i: "i < 3" "m_threads s ! i \<noteq> Ended"
      using no [of 0] I(8) by (auto simp: cp_main_steps split: if_splits)
    moreover have "m_threads s ! i \<noteq> Not_running" using I(1) Joins i by (simp add: threads_ok_def)
    ultimately show ?thesis using at [of i] Joins by auto
  qed simp
qed

lemma cp_main_text_partial: "cp_within mp \<Longrightarrow> \<exists>n. cp_main_text mp = take n (main_line 30 @ main_line 15)"
proof -
  assume w: "cp_within mp"
  have len: "length (main_line v) = 3" for v by (simp add: main_line_def)
  have 0: "\<exists>n. [] = take n (main_line 30 @ main_line 15)" by (intro exI [of _ 0]) simp
  have first: "\<exists>n. take j (main_line 30) = take n (main_line 30 @ main_line 15)" for j
    by (intro exI [of _ "min j 3"]) (simp add: len min_def)
  have half: "\<exists>n. main_line 30 = take n (main_line 30 @ main_line 15)" using first [of 3] by (simp add: len)
  have second: "\<exists>n. main_line 30 @ take j (main_line 15) = take n (main_line 30 @ main_line 15)" for j
    by (intro exI [of _ "j + 3"]) (simp add: len)
  have all: "\<exists>n. main_line 30 @ main_line 15 = take n (main_line 30 @ main_line 15)" using second [of 3] by (simp add: len)
  show ?thesis
  proof (cases mp)
    case (Says k j)
    then show ?thesis using w first [of j] second [of j] by (auto simp: cp_main_text_def cp_within_def before_def)
  qed (simp_all only: cp_main_text_def cp_main_pc.case before_def 0 half all split: if_split, simp_all)
qed

section \<open>Properties\<close>

text \<open>
  C7: In every interleaving, wakeups without a signal included: a future that is set holds the
  result of its task; each task and \<open>main\<close> have printed an initial part of their text, whatever the
  two variables of \<open>main\<close> held at first; a task that is being run is not in the queue, not
  done and run by one worker only; and the pool is not shut down with a task in the queue.
\<close>

theorem cxx_pool_safe:
  assumes "cp_run as (cp_start g h) = Some s"
  shows "(\<forall>k r. cp_futures s k = Some r \<longrightarrow> r = cp_result_of k)
    \<and> (\<exists>n. text_of (Some k) (cp_printed s) = take n (cp_text k))
    \<and> (\<exists>n. text_of None (cp_printed s) = take n (main_line (5 * 6) @ main_line (5 * 3)))
    \<and> (\<forall>t i j. t < length (m_threads s) \<and> m_threads s ! t = Calls i j \<longrightarrow> i \<notin> set (m_queue s)
         \<and> cp_futures s i = None \<and> (\<forall>u l. u < length (m_threads s) \<and> m_threads s ! u = Calls i l \<longrightarrow> u = t))
    \<and> (m_shutdown s \<longrightarrow> m_queue s = [])"
proof -
  have inv: "cp_inv s" by (rule cp_run_inv [OF assms cp_inv_start])
  note I = cp_invD [OF inv]
  have "\<exists>m. cp_sent (m_threads s ! t) = take m (cp_text i)" if "called (m_threads s ! t) = Some i" for t i
    using that by (cases "m_threads s ! t") (auto simp: cp_sent_def)
  then have "\<exists>n. text_of (Some k) (cp_printed s) = take n (cp_text k)" by (intro texts_ok_partial [OF I(4,3)])
  moreover have "\<exists>n. text_of None (cp_printed s) = take n (main_line (5 * 6) @ main_line (5 * 3))"
    using cp_main_text_partial [of "cp_main_at s"] I(7) by (simp add: cp_main_ok_def)
  moreover have "i \<notin> set (m_queue s) \<and> cp_futures s i = None
      \<and> (\<forall>u l. u < length (m_threads s) \<and> m_threads s ! u = Calls i l \<longrightarrow> u = t)"
    if "t < length (m_threads s)" "m_threads s ! t = Calls i j" for t i j
    using queue_ok_running [OF I(3) that(1), of i] that(2) by auto
  ultimately show ?thesis using queue_ok_result [OF I(3)] shut_down_empty [OF inv] by blast
qed

text \<open>
  For the examples: the first worker runs all tasks, up to the end of \<open>main\<close>'s second line; then the
  pool is shut down while the first worker is at the test of \<open>m_shutdown\<close>, or in front of its wait.
\<close>

definition work_run :: "cp_action list" where
  "work_run = replicate 42 (Main_runs 0) @ replicate (19 * 12) (Worker_runs 0) @ replicate 6 (Main_runs 0)
     @ replicate 12 (Worker_runs 0) @ replicate 4 (Main_runs 0)"

definition ending_run :: "cp_action list" where
  "ending_run = work_run @ replicate 2 (Main_runs 0) @ [Worker_runs 0, Worker_runs 1, Worker_runs 2] @ replicate 4 (Main_runs 0)"

definition hanging_run :: "cp_action list" where
  "hanging_run = work_run @ replicate 3 (Worker_runs 0) @ replicate 2 (Main_runs 0)
     @ [Worker_runs 0, Worker_runs 1, Worker_runs 2]"

text \<open>In the middle of the second task.\<close>

theorem cxx_pool_safe_witness:
  "\<exists>s. cp_run (take 60 work_run) (cp_start 7 7) = Some s \<and> m_threads s ! 0 = Calls 1 2 \<and> m_queue s = [2..<19]
     \<and> cp_futures s 0 = Some Void \<and> cp_futures s 1 = None"
proof -
  have "map_option (\<lambda>s. (m_threads s, m_queue s, cp_futures s 0)) (cp_run (take 60 work_run) (cp_start 7 7))
    = Some ([Calls 1 2, Tests, Tests], [2..<19], Some Void)" by code_simp
  then obtain s where s: "cp_run (take 60 work_run) (cp_start 7 7) = Some s"
    "m_threads s = [Calls 1 2, Tests, Tests]" "m_queue s = [2..<19]" "cp_futures s 0 = Some Void" by auto
  from cxx_pool_safe [OF s(1), of 0]
  have "\<forall>t i j. t < length (m_threads s) \<and> m_threads s ! t = Calls i j \<longrightarrow> cp_futures s i = None" by blast
  moreover have "0 < length (m_threads s) \<and> m_threads s ! 0 = Calls 1 2" by (simp add: s(2))
  ultimately have "cp_futures s 1 = None" by blast
  with s show ?thesis by auto
qed

text \<open>
  C8: No work is lost, though a worker can miss a notification between its test of the queue and
  its wait: when no thread can go on, all twenty tasks have been run and printed, both futures
  were read and both lines of \<open>main\<close> printed.  Either \<open>main\<close> is done and the workers have ended, or
  \<open>shutdown\<close> waits in \<open>join\<close> for a worker that sleeps.
\<close>

theorem cxx_pool_work_is_done:
  assumes "cp_run as (cp_start g h) = Some s" and "cp_stuck s"
  shows "(\<forall>k < 20. cp_futures s k = Some (cp_result_of k) \<and> text_of (Some k) (cp_printed s) = cp_text k)
    \<and> m_queue s = [] \<and> m_shutdown s
    \<and> text_of None (cp_printed s) = main_line (5 * 6) @ main_line (5 * 3)
    \<and> (cp_main_at s = Done \<and> (\<forall>t < 3. m_threads s ! t = Ended)
       \<or> (\<exists>i < 3. cp_main_at s = Joins i \<and> m_threads s ! i = Asleep))"
proof -
  have inv: "cp_inv s" by (rule cp_run_inv [OF assms(1) cp_inv_start])
  note I = cp_invD [OF inv]
  note e = cp_stuck_end [OF inv assms(2)]
  have main: "m_shutdown s" "cp_submitted (cp_main_at s) = 20"
    "text_of None (cp_printed s) = main_line (5 * 6) @ main_line (5 * 3)"
    "cp_main_at s = Done \<longrightarrow> (\<forall>t < 3. m_threads s ! t = Ended)"
    using e I(7) by (auto simp: cp_main_ok_def cp_main_defs)
  have empty: "m_queue s = []" by (rule shut_down_empty [OF inv main(1)])
  have "called (m_threads s ! t) = None" if "t < 3" for t using cp_stuck_worker [OF inv assms(2) that] by auto
  then have "cp_futures s k \<noteq> None" if "k < 20" for k
    using queue_ok_where [OF I(3), of k] that main(2) empty I(8) by auto
  then have "cp_futures s k = Some (cp_result_of k) \<and> text_of (Some k) (cp_printed s) = cp_text k" if "k < 20" for k
    using that queue_ok_result [OF I(3)] I(4) by (fastforce simp: texts_ok_def)
  with e main empty show ?thesis by blast
qed

text \<open>Both ends occur: here the worker that is in front of its wait misses the notification of \<open>shutdown\<close>.\<close>

lemma cp_worker_still: "m_threads s ! t \<in> {Asleep, Ended} \<Longrightarrow> cp_worker_step t s = None"
  by (auto simp: cp_worker_step_def)

lemma cp_still:
  assumes "m_threads s = [a, b, c]" "{a, b, c} \<subseteq> {Asleep, Ended}" "cp_main_at s = Done \<or> cp_main_at s = Joins 0 \<and> a = Asleep"
  shows "cp_stuck s"
proof -
  have "cp_worker_step t s = None" if "t < 3" for t
  proof (rule cp_worker_still)
    have "t = 0 \<or> t = 1 \<or> t = 2" using that by linarith
    then show "m_threads s ! t \<in> {Asleep, Ended}" using assms(1,2) by auto
  qed
  moreover have "cp_main_step w s = None" for w using assms(1,3) by (auto simp: cp_main_steps)
  ultimately show ?thesis using assms(1) by (simp add: cp_stuck_def)
qed

theorem cxx_pool_work_is_done_witness:
  "(\<exists>s. cp_run ending_run (cp_start 7 7) = Some s \<and> cp_main_at s = Done \<and> text_of (Some 19) (cp_printed s) = cp_text 19)
   \<and> (\<exists>s. cp_run hanging_run (cp_start 7 7) = Some s \<and> cp_stuck s \<and> cp_main_at s = Joins 0 \<and> m_threads s ! 0 = Asleep)"
proof -
  have "map_option (\<lambda>s. (m_threads s, cp_main_at s)) (cp_run ending_run (cp_start 7 7))
    = Some ([Ended, Ended, Ended], Done)" by code_simp
  then obtain s where s: "cp_run ending_run (cp_start 7 7) = Some s" "m_threads s = [Ended, Ended, Ended]"
    "cp_main_at s = Done" by auto
  have "map_option (\<lambda>s. (m_threads s, cp_main_at s)) (cp_run hanging_run (cp_start 7 7))
    = Some ([Asleep, Ended, Ended], Joins 0)" by code_simp
  then obtain s' where s': "cp_run hanging_run (cp_start 7 7) = Some s'" "m_threads s' = [Asleep, Ended, Ended]"
    "cp_main_at s' = Joins 0" by auto
  have "cp_stuck s" using cp_still [OF s(2)] s(3) by simp
  from cxx_pool_work_is_done [OF s(1) this] have "text_of (Some 19) (cp_printed s) = cp_text 19" by simp
  with s s' cp_still [OF s'(2)] show ?thesis by auto
qed

end
