(* ===== verification/CondDemo.thy ===== *)
theory CondDemo
  imports Prelude
begin

text \<open>
  \<open>3.Thread/3.cond/1.thread_cond.c\<close>: nine consumers and one producer that share a counter under a
  mutex, the consumers waiting on a condition variable while it is zero.  The loops do not end, so
  the program is a step function on explicit positions; waiting gives the mutex up, a signal wakes
  a waiter of the scheduler's choice, and a waiter can also wake up without one.
\<close>

section \<open>The program\<close>

abbreviation (input) CONSUMERS_COUNT :: nat where "CONSUMERS_COUNT \<equiv> 9"
abbreviation (input) PRODUCERS_COUNT :: nat where "PRODUCERS_COUNT \<equiv> 1"

text \<open>
  Where a thread is: not yet made, at the read of its argument, about to lock, at the test of the
  inner loop, asleep on the condition variable, woken and about to lock again, about to take one,
  about to unlock; the producer is at its increment or about to signal.
\<close>

datatype cv_pc =
  Not_made
| Reads_arg
| Wants_lock
| Tests
| Sleeps
| Wakes
| Takes
| Adds
| Signals
| Unlocks

text \<open>
  Where \<open>main\<close> is: at the creation of thread \<open>loop\<close>, or joining.  The threads get the address of
  \<open>loop\<close>, so what they read is its value at that time; \<open>nums\<close> keeps what each has read.
\<close>

datatype cv_main = Creating | Joins

record cv_state =
  share_variable :: int
  cv_mutex :: "nat option"
  cv_pcs :: "cv_pc list"
  nums :: "nat list"
  loop :: nat
  cv_main_at :: cv_main
  n_produced :: nat
  n_consumed :: nat

definition cv_start :: cv_state where
  "cv_start = \<lparr>share_variable = 0, cv_mutex = None,
     cv_pcs = replicate (CONSUMERS_COUNT + PRODUCERS_COUNT) Not_made,
     nums = replicate (CONSUMERS_COUNT + PRODUCERS_COUNT) 0,
     loop = 0, cv_main_at = Creating, n_produced = 0, n_consumed = 0\<rparr>"

definition go :: "nat \<Rightarrow> cv_pc \<Rightarrow> cv_state \<Rightarrow> cv_state" where
  "go t pc s = s\<lparr>cv_pcs := (cv_pcs s)[t := pc]\<rparr>"

text \<open>
  \<open>main\<close>: the two loops of \<open>pthread_create\<close> have the same body and \<open>loop\<close> goes on from one to the
  other; then \<open>loop\<close> starts again at zero for the joins, the first of which never returns.
\<close>

definition cv_main_step :: "cv_state \<Rightarrow> cv_state option" where
  "cv_main_step s = (case cv_main_at s of
     Creating \<Rightarrow>
       if loop s < CONSUMERS_COUNT + PRODUCERS_COUNT
       then Some ((go (loop s) Reads_arg s)\<lparr>loop := loop s + 1\<rparr>)
       else Some (s\<lparr>loop := 0, cv_main_at := Joins\<rparr>)
   | Joins \<Rightarrow> None)"

definition consumer_step :: "nat \<Rightarrow> cv_state \<Rightarrow> cv_state option" where
  "consumer_step t s = (case cv_pcs s ! t of
     Reads_arg \<Rightarrow> Some (go t Wants_lock (s\<lparr>nums := (nums s)[t := loop s]\<rparr>))
   | Wants_lock \<Rightarrow>
       if cv_mutex s = None then Some (go t Tests (s\<lparr>cv_mutex := Some t\<rparr>)) else None
   | Tests \<Rightarrow>
       if share_variable s = 0 then Some (go t Sleeps (s\<lparr>cv_mutex := None\<rparr>))
       else Some (go t Takes s)
   | Wakes \<Rightarrow>
       if cv_mutex s = None then Some (go t Tests (s\<lparr>cv_mutex := Some t\<rparr>)) else None
   | Takes \<Rightarrow> Some (go t Unlocks (s\<lparr>share_variable := share_variable s - 1,
                n_consumed := n_consumed s + 1\<rparr>))
   | Unlocks \<Rightarrow> Some (go t Wants_lock (s\<lparr>cv_mutex := None\<rparr>))
   | _ \<Rightarrow> None)"

text \<open>The signal wakes \<open>w\<close> if it sleeps; without a sleeper it has no effect.\<close>

definition producer_step :: "nat \<Rightarrow> nat \<Rightarrow> cv_state \<Rightarrow> cv_state option" where
  "producer_step t w s = (case cv_pcs s ! t of
     Reads_arg \<Rightarrow> Some (go t Wants_lock (s\<lparr>nums := (nums s)[t := loop s]\<rparr>))
   | Wants_lock \<Rightarrow>
       if cv_mutex s = None then Some (go t Adds (s\<lparr>cv_mutex := Some t\<rparr>)) else None
   | Adds \<Rightarrow> Some (go t Signals (s\<lparr>share_variable := share_variable s + 1,
                n_produced := n_produced s + 1\<rparr>))
   | Signals \<Rightarrow>
       if w < CONSUMERS_COUNT \<and> cv_pcs s ! w = Sleeps then Some (go t Unlocks (go w Wakes s))
       else if Sleeps \<notin> set (take CONSUMERS_COUNT (cv_pcs s)) then Some (go t Unlocks s)
       else None
   | Unlocks \<Rightarrow> Some (go t Wants_lock (s\<lparr>cv_mutex := None\<rparr>))
   | _ \<Rightarrow> None)"

text \<open>What the scheduler can do; \<open>Spurious\<close> is a wakeup without a signal.\<close>

datatype cv_action = Main_runs | Consumer nat | Producer nat nat | Spurious nat

fun cv_step :: "cv_action \<Rightarrow> cv_state \<Rightarrow> cv_state option" where
  "cv_step Main_runs s = cv_main_step s"
| "cv_step (Consumer t) s = (if t < CONSUMERS_COUNT then consumer_step t s else None)"
| "cv_step (Producer t w) s =
     (if CONSUMERS_COUNT \<le> t \<and> t < CONSUMERS_COUNT + PRODUCERS_COUNT then producer_step t w s else None)"
| "cv_step (Spurious t) s =
     (if t < CONSUMERS_COUNT \<and> cv_pcs s ! t = Sleeps then Some (go t Wakes s) else None)"

fun cv_run :: "cv_action list \<Rightarrow> cv_state \<Rightarrow> cv_state option" where
  "cv_run [] s = Some s"
| "cv_run (a # as) s = Option.bind (cv_step a s) (cv_run as)"

section \<open>The invariant\<close>

definition has_lock :: "cv_pc \<Rightarrow> bool" where
  "has_lock pc \<longleftrightarrow> pc \<in> {Tests, Takes, Adds, Signals, Unlocks}"

definition consumer_pc :: "cv_pc \<Rightarrow> bool" where
  "consumer_pc pc \<longleftrightarrow> pc \<in> {Not_made, Reads_arg, Wants_lock, Tests, Sleeps, Wakes, Takes, Unlocks}"

definition producer_pc :: "cv_pc \<Rightarrow> bool" where
  "producer_pc pc \<longleftrightarrow> pc \<in> {Not_made, Reads_arg, Wants_lock, Adds, Signals, Unlocks}"

definition cv_shape :: "cv_state \<Rightarrow> bool" where
  "cv_shape s \<longleftrightarrow> length (cv_pcs s) = 10 \<and> length (nums s) = 10
     \<and> (\<forall>t < 9. consumer_pc (cv_pcs s ! t)) \<and> producer_pc (cv_pcs s ! 9)
     \<and> (\<forall>t < 10. cv_pcs s ! t = Not_made \<longleftrightarrow> cv_main_at s = Creating \<and> loop s \<le> t)
     \<and> loop s \<le> 10"

definition cv_locked :: "cv_state \<Rightarrow> bool" where
  "cv_locked s \<longleftrightarrow> (\<forall>t < 10. has_lock (cv_pcs s ! t) \<longleftrightarrow> cv_mutex s = Some t)
     \<and> (\<forall>t. cv_mutex s = Some t \<longrightarrow> t < 10)"

definition cv_counts :: "cv_state \<Rightarrow> bool" where
  "cv_counts s \<longleftrightarrow> share_variable s = int (n_produced s) - int (n_consumed s)
     \<and> 0 \<le> share_variable s \<and> (\<forall>t < 9. cv_pcs s ! t = Takes \<longrightarrow> 0 < share_variable s)"

text \<open>With something to take and a consumer made, one of those made is not asleep, or the signal is to come.\<close>

definition cv_awake :: "cv_state \<Rightarrow> bool" where
  "cv_awake s \<longleftrightarrow> (0 < share_variable s \<longrightarrow> cv_pcs s ! 9 = Signals
     \<or> (\<exists>t < 9. cv_pcs s ! t \<noteq> Sleeps \<and> cv_pcs s ! t \<noteq> Not_made))"

definition cv_inv :: "cv_state \<Rightarrow> bool" where
  "cv_inv s \<longleftrightarrow> cv_shape s \<and> cv_locked s \<and> cv_counts s \<and> cv_awake s"

lemma go_simps [simp]:
  "cv_pcs (go t pc s) = (cv_pcs s)[t := pc]" "share_variable (go t pc s) = share_variable s"
  "cv_mutex (go t pc s) = cv_mutex s" "nums (go t pc s) = nums s" "loop (go t pc s) = loop s"
  "cv_main_at (go t pc s) = cv_main_at s" "n_produced (go t pc s) = n_produced s"
  "n_consumed (go t pc s) = n_consumed s"
  by (simp_all add: go_def)

lemma cv_inv_start: "cv_inv cv_start"
proof -
  have "cv_pcs cv_start ! t = Not_made" if "t < 10" for t
    unfolding cv_start_def using that by (simp only: cv_state.simps) (rule nth_replicate, simp)
  then show ?thesis
    by (auto simp: cv_inv_def cv_shape_def cv_locked_def cv_counts_def cv_awake_def cv_start_def
        has_lock_def consumer_pc_def producer_pc_def simp del: replicate.simps)
qed

text \<open>One thread moves from a position it has to another: what is to be shown for each part.\<close>

lemma shape_go:
  assumes "cv_shape s" "t < 10" "cv_pcs s ! t \<noteq> Not_made" "pc \<noteq> Not_made"
    "t < 9 \<Longrightarrow> consumer_pc pc" "t = 9 \<Longrightarrow> producer_pc pc"
    "cv_pcs s' = (cv_pcs s)[t := pc]" "length (nums s') = 10"
    "cv_main_at s' = cv_main_at s" "loop s' = loop s"
  shows "cv_shape s'"
  using assms by (auto simp: cv_shape_def nth_list_update)

lemma locked_keep:
  assumes "cv_locked s" "length (cv_pcs s) = 10" "t < 10" "has_lock pc = has_lock (cv_pcs s ! t)"
    "cv_pcs s' = (cv_pcs s)[t := pc]" "cv_mutex s' = cv_mutex s"
  shows "cv_locked s'"
  using assms by (auto simp: cv_locked_def nth_list_update)

lemma locked_take:
  assumes "cv_locked s" "length (cv_pcs s) = 10" "t < 10" "cv_mutex s = None" "has_lock pc"
    "cv_pcs s' = (cv_pcs s)[t := pc]" "cv_mutex s' = Some t"
  shows "cv_locked s'"
  using assms by (auto simp: cv_locked_def nth_list_update)

lemma locked_drop:
  assumes "cv_locked s" "length (cv_pcs s) = 10" "t < 10" "has_lock (cv_pcs s ! t)" "\<not> has_lock pc"
    "cv_pcs s' = (cv_pcs s)[t := pc]" "cv_mutex s' = None"
  shows "cv_locked s'"
  using assms by (auto simp: cv_locked_def nth_list_update)

lemma counts_go:
  assumes "cv_counts s" "length (cv_pcs s) = 10" "t < 10" "pc = Takes \<Longrightarrow> 0 < share_variable s"
    "cv_pcs s' = (cv_pcs s)[t := pc]" "share_variable s' = share_variable s"
    "n_produced s' = n_produced s" "n_consumed s' = n_consumed s"
  shows "cv_counts s'"
proof -
  have "0 < share_variable s" if "u < 9" "(cv_pcs s)[t := pc] ! u = Takes" for u
    using assms(1-4) that by (cases "u = t") (auto simp: cv_counts_def)
  then show ?thesis using assms(1,5-8) by (auto simp: cv_counts_def)
qed

lemma awake_go:
  assumes "cv_awake s" "length (cv_pcs s) = 10" "t < 9" "pc \<noteq> Not_made"
    "pc = Sleeps \<Longrightarrow> share_variable s = 0"
    "cv_pcs s' = (cv_pcs s)[t := pc]" "share_variable s' = share_variable s"
  shows "cv_awake s'"
proof (cases "pc = Sleeps")
  case True
  with assms(5,7) show ?thesis by (simp add: cv_awake_def)
next
  case False
  have "\<exists>u < 9. cv_pcs s' ! u \<noteq> Sleeps \<and> cv_pcs s' ! u \<noteq> Not_made"
    using assms(2-4,6) False by (intro exI [of _ t]) simp
  then show ?thesis by (simp add: cv_awake_def)
qed

lemmas cv_pc_defs = has_lock_def consumer_pc_def producer_pc_def

lemma cv_invI: "cv_shape s \<Longrightarrow> cv_locked s \<Longrightarrow> cv_counts s \<Longrightarrow> cv_awake s \<Longrightarrow> cv_inv s"
  by (simp add: cv_inv_def)

lemma cv_invD:
  assumes "cv_inv s"
  shows "cv_shape s" "cv_locked s" "cv_counts s" "cv_awake s" "length (cv_pcs s) = 10"
    "length (nums s) = 10"
  using assms by (simp_all add: cv_inv_def cv_shape_def)

text \<open>The moves of a consumer: one that keeps the lock as it is, one that takes it, one that gives it up.\<close>

lemma consumer_keeps:
  assumes "cv_inv s" "t < 9" "cv_pcs s ! t \<noteq> Not_made" "consumer_pc pc" "pc \<noteq> Not_made" "pc \<noteq> Sleeps"
    "pc = Takes \<Longrightarrow> 0 < share_variable s" "has_lock pc = has_lock (cv_pcs s ! t)" "length ns = 10"
  shows "cv_inv (go t pc (s\<lparr>nums := ns\<rparr>))"
proof -
  note I = cv_invD [OF assms(1)]
  have t: "t < 10" using assms(2) by simp
  show ?thesis
    by (rule cv_invI, rule shape_go [OF I(1) t assms(3,5)], insert assms(2,4,9), simp_all,
        rule locked_keep [OF I(2,5) t assms(8)], simp_all,
        rule counts_go [OF I(3,5) t assms(7)], simp_all,
        rule awake_go [OF I(4,5) assms(2,5)], simp_all add: assms(6))
qed

lemma consumer_locks:
  assumes "cv_inv s" "t < 9" "cv_pcs s ! t \<noteq> Not_made" "cv_mutex s = None"
  shows "cv_inv (go t Tests (s\<lparr>cv_mutex := Some t\<rparr>))"
proof -
  note I = cv_invD [OF assms(1)]
  have t: "t < 10" using assms(2) by simp
  show ?thesis
    by (rule cv_invI, rule shape_go [OF I(1) t assms(3), of Tests], insert assms(2) I(6),
        simp_all add: consumer_pc_def,
        rule locked_take [OF I(2,5) t assms(4), of Tests], simp_all add: has_lock_def,
        rule counts_go [OF I(3,5) t, of Tests], simp_all,
        rule awake_go [OF I(4,5) assms(2), of Tests], simp_all)
qed

lemma consumer_unlocks:
  assumes "cv_inv s" "t < 9" "has_lock (cv_pcs s ! t)" "pc = Sleeps \<Longrightarrow> share_variable s = 0"
    "pc = Sleeps \<or> pc = Wants_lock"
  shows "cv_inv (go t pc (s\<lparr>cv_mutex := None\<rparr>))"
proof -
  note I = cv_invD [OF assms(1)]
  have t: "t < 10" using assms(2) by simp
  have made: "cv_pcs s ! t \<noteq> Not_made" using assms(3) by (auto simp: has_lock_def)
  have pc: "pc \<noteq> Not_made" "pc \<noteq> Takes" "consumer_pc pc" "\<not> has_lock pc"
    using assms(5) by (auto simp: cv_pc_defs)
  show ?thesis
    by (rule cv_invI, rule shape_go [OF I(1) t made pc(1)], insert assms(2) I(6) pc(2,3), simp_all,
        rule locked_drop [OF I(2,5) t assms(3) pc(4)], simp_all,
        rule counts_go [OF I(3,5) t, of pc], simp_all,
        rule awake_go [OF I(4,5) assms(2) pc(1) assms(4)], simp_all)
qed

lemma only_one_takes:
  assumes "cv_locked s" "t < 10" "u < 10" "has_lock (cv_pcs s ! t)" "has_lock (cv_pcs s ! u)"
  shows "u = t"
  using assms by (simp add: cv_locked_def)

lemma consumer_takes:
  assumes "cv_inv s" "t < 9" "cv_pcs s ! t = Takes"
  shows "cv_inv (go t Unlocks (s\<lparr>share_variable := share_variable s - 1, n_consumed := n_consumed s + 1\<rparr>))"
    (is "cv_inv ?s")
proof -
  note I = cv_invD [OF assms(1)]
  have t: "t < 10" using assms(2) by simp
  have pos: "0 < share_variable s" using assms(2,3) I(3) unfolding cv_counts_def by blast
  have others: "(cv_pcs s)[t := Unlocks] ! u \<noteq> Takes" if "u < 9" for u
    using that only_one_takes [OF I(2) t, of u] assms(3) I(5)
    by (cases "u = t") (auto simp: has_lock_def)
  have "share_variable s = int (n_produced s) - int (n_consumed s)" using I(3) by (simp add: cv_counts_def)
  then have counts: "cv_counts ?s"
    using pos others by (simp add: cv_counts_def)
  have "\<exists>u < 9. cv_pcs ?s ! u \<noteq> Sleeps \<and> cv_pcs ?s ! u \<noteq> Not_made"
    using assms(2) I(5) by (intro exI [of _ t]) simp
  then have awake: "cv_awake ?s" by (simp add: cv_awake_def)
  show ?thesis
    by (rule cv_invI [OF _ _ counts awake], rule shape_go [OF I(1) t, of Unlocks],
        insert assms(2,3) I(6), simp_all add: consumer_pc_def,
        rule locked_keep [OF I(2,5) t, of Unlocks], simp_all add: has_lock_def)
qed

lemma consumer_step_inv:
  assumes inv: "cv_inv s" and t: "t < 9" and step: "consumer_step t s = Some s'"
  shows "cv_inv s'"
proof -
  note I = cv_invD [OF inv]
  consider "cv_pcs s ! t = Reads_arg" | "cv_pcs s ! t = Wants_lock \<or> cv_pcs s ! t = Wakes"
    | "cv_pcs s ! t = Tests" "share_variable s = 0" | "cv_pcs s ! t = Tests" "share_variable s \<noteq> 0"
    | "cv_pcs s ! t = Takes" | "cv_pcs s ! t = Unlocks"
    using step by (cases "cv_pcs s ! t") (auto simp: consumer_step_def)
  then show ?thesis
  proof cases
    case 1
    with step have "s' = go t Wants_lock (s\<lparr>nums := (nums s)[t := loop s]\<rparr>)"
      by (simp add: consumer_step_def)
    then show ?thesis using consumer_keeps [OF inv t, of Wants_lock] 1 I(6) by (simp add: cv_pc_defs)
  next
    case 2
    then have "s' = go t Tests (s\<lparr>cv_mutex := Some t\<rparr>)" "cv_mutex s = None" "cv_pcs s ! t \<noteq> Not_made"
      using step by (auto simp: consumer_step_def split: if_splits)
    then show ?thesis using consumer_locks [OF inv t] by simp
  next
    case 3
    with step have "s' = go t Sleeps (s\<lparr>cv_mutex := None\<rparr>)" by (simp add: consumer_step_def)
    then show ?thesis using consumer_unlocks [OF inv t] 3 by (simp add: has_lock_def)
  next
    case 4
    with step have s': "s' = go t Takes s" by (simp add: consumer_step_def)
    have "0 < share_variable s" using 4 I(3) by (simp add: cv_counts_def)
    then have "cv_inv (go t Takes (s\<lparr>nums := nums s\<rparr>))"
      using 4(1) I(6) by (intro consumer_keeps [OF inv t]) (simp_all add: cv_pc_defs)
    then show ?thesis by (simp add: s')
  next
    case 5
    with step have "s' = go t Unlocks (s\<lparr>share_variable := share_variable s - 1,
                n_consumed := n_consumed s + 1\<rparr>)" by (simp add: consumer_step_def)
    then show ?thesis using consumer_takes [OF inv t 5] by simp
  next
    case 6
    with step have "s' = go t Wants_lock (s\<lparr>cv_mutex := None\<rparr>)" by (simp add: consumer_step_def)
    then show ?thesis using consumer_unlocks [OF inv t, of Wants_lock] 6 by (simp add: has_lock_def)
  qed
qed

text \<open>The moves of the producer, thread 9.\<close>

lemma nine_lt_10: "(9::nat) < 10" by simp

lemma producer_moves_awake:
  assumes "cv_awake s" "cv_pcs s ! 9 \<noteq> Signals"
    "\<And>u. u < 9 \<Longrightarrow> cv_pcs s' ! u = cv_pcs s ! u" "share_variable s' = share_variable s"
  shows "cv_awake s'"
  using assms by (auto simp: cv_awake_def)

lemma producer_counts_go:
  assumes "cv_counts s" "\<And>u. u < 9 \<Longrightarrow> cv_pcs s' ! u = cv_pcs s ! u"
    "share_variable s' = share_variable s" "n_produced s' = n_produced s" "n_consumed s' = n_consumed s"
  shows "cv_counts s'"
  using assms by (auto simp: cv_counts_def)

lemma producer_moves:
  assumes inv: "cv_inv s" and at: "cv_pcs s ! 9 \<noteq> Not_made" "cv_pcs s ! 9 \<noteq> Signals"
    and pc: "producer_pc pc" "pc \<noteq> Not_made" and ns: "length ns = 10"
    and lock: "has_lock (cv_pcs s ! 9) = has_lock pc \<and> m = cv_mutex s
      \<or> cv_mutex s = None \<and> has_lock pc \<and> m = Some 9
      \<or> has_lock (cv_pcs s ! 9) \<and> \<not> has_lock pc \<and> m = None"
  shows "cv_inv (go 9 pc (s\<lparr>nums := ns, cv_mutex := m\<rparr>))" (is "cv_inv ?s")
proof (rule cv_invI)
  note I = cv_invD [OF inv]
  show "cv_shape ?s"
    by (rule shape_go [OF I(1) nine_lt_10 at(1) pc(2)]) (simp_all add: pc(1) ns)
  show "cv_locked ?s"
    using lock
  proof (elim disjE conjE)
    assume "has_lock (cv_pcs s ! 9) = has_lock pc" "m = cv_mutex s"
    then show ?thesis by (intro locked_keep [OF I(2,5) nine_lt_10, of pc]) simp_all
  next
    assume "cv_mutex s = None" "has_lock pc" "m = Some 9"
    then show ?thesis by (intro locked_take [OF I(2,5) nine_lt_10, of pc]) simp_all
  next
    assume "has_lock (cv_pcs s ! 9)" "\<not> has_lock pc" "m = None"
    then show ?thesis by (intro locked_drop [OF I(2,5) nine_lt_10, of pc]) simp_all
  qed
  show "cv_counts ?s" by (rule producer_counts_go [OF I(3)]) simp_all
  show "cv_awake ?s" by (rule producer_moves_awake [OF I(4) at(2)]) simp_all
qed

lemma producer_adds:
  assumes inv: "cv_inv s" and at: "cv_pcs s ! 9 = Adds"
  shows "cv_inv (go 9 Signals (s\<lparr>share_variable := share_variable s + 1, n_produced := n_produced s + 1\<rparr>))"
    (is "cv_inv ?s")
proof (rule cv_invI)
  note I = cv_invD [OF inv]
  show "cv_shape ?s"
    by (rule shape_go [OF I(1) nine_lt_10, of Signals]) (simp_all add: at cv_pc_defs I(6))
  show "cv_locked ?s"
    by (rule locked_keep [OF I(2,5) nine_lt_10, of Signals]) (simp_all add: at has_lock_def)
  show "cv_counts ?s" using I(3) by (simp add: cv_counts_def)
  show "cv_awake ?s" using I(5) by (simp add: cv_awake_def)
qed

text \<open>The signal: a sleeper wakes, or there is none, and then consumer 0 is awake.\<close>

lemma producer_signals_one:
  assumes inv: "cv_inv s" and at: "cv_pcs s ! 9 = Signals" and w: "w < 9" "cv_pcs s ! w = Sleeps"
  shows "cv_inv (go 9 Unlocks (go w Wakes s))" (is "cv_inv ?s")
proof (rule cv_invI)
  note I = cv_invD [OF inv]
  have w10: "w < 10" using w(1) by simp
  have shape: "cv_shape (go w Wakes s)"
    by (rule shape_go [OF I(1) w10, of Wakes], insert w I(6), simp_all add: consumer_pc_def)
  have at': "cv_pcs (go w Wakes s) ! 9 = Signals" using at w by simp
  show "cv_shape ?s"
    by (rule shape_go [OF shape nine_lt_10, of Unlocks])
      (simp_all only: at', simp_all add: producer_pc_def I(6))
  have locked: "cv_locked (go w Wakes s)"
    by (rule locked_keep [OF I(2,5) w10, of Wakes]) (simp_all add: w has_lock_def)
  show "cv_locked ?s"
    by (rule locked_keep [OF locked _ nine_lt_10, of Unlocks]) (simp_all only: at', simp_all add: has_lock_def I(5))
  have counts: "cv_counts (go w Wakes s)"
    by (rule counts_go [OF I(3,5) w10, of Wakes]) simp_all
  show "cv_counts ?s" by (rule producer_counts_go [OF counts]) simp_all
  have "\<exists>u < 9. cv_pcs ?s ! u \<noteq> Sleeps \<and> cv_pcs ?s ! u \<noteq> Not_made"
    using w(1) I(5) by (intro exI [of _ w]) simp
  then show "cv_awake ?s" by (simp add: cv_awake_def)
qed

lemma all_made:
  assumes "cv_shape s" "cv_pcs s ! 9 \<noteq> Not_made" "u < 10"
  shows "cv_pcs s ! u \<noteq> Not_made"
  using assms by (auto simp: cv_shape_def)

lemma producer_signals_none:
  assumes inv: "cv_inv s" and at: "cv_pcs s ! 9 = Signals" and none: "Sleeps \<notin> set (take 9 (cv_pcs s))"
  shows "cv_inv (go 9 Unlocks s)" (is "cv_inv ?s")
proof (rule cv_invI)
  note I = cv_invD [OF inv]
  show "cv_shape ?s"
    by (rule shape_go [OF I(1) nine_lt_10, of Unlocks]) (simp_all add: at cv_pc_defs I(6))
  show "cv_locked ?s"
    by (rule locked_keep [OF I(2,5) nine_lt_10, of Unlocks]) (simp_all add: at has_lock_def)
  show "cv_counts ?s" by (rule producer_counts_go [OF I(3)]) simp_all
  have "take 9 (cv_pcs s) ! 0 \<in> set (take 9 (cv_pcs s))" by (rule nth_mem) (simp add: I(5))
  then have "cv_pcs s ! 0 \<in> set (take 9 (cv_pcs s))" by simp
  then have "cv_pcs s ! 0 \<noteq> Sleeps" using none by auto
  moreover have "cv_pcs s ! 0 \<noteq> Not_made" by (rule all_made [OF I(1)]) (simp_all add: at)
  ultimately have "\<exists>u < 9. cv_pcs ?s ! u \<noteq> Sleeps \<and> cv_pcs ?s ! u \<noteq> Not_made"
    by (intro exI [of _ 0]) simp
  then show "cv_awake ?s" by (simp add: cv_awake_def)
qed

lemma producer_step_inv:
  assumes inv: "cv_inv s" and step: "producer_step 9 w s = Some s'"
  shows "cv_inv s'"
proof -
  note I = cv_invD [OF inv]
  consider "cv_pcs s ! 9 = Reads_arg" | "cv_pcs s ! 9 = Wants_lock" | "cv_pcs s ! 9 = Adds"
    | "cv_pcs s ! 9 = Signals" "w < 9" "cv_pcs s ! w = Sleeps"
    | "cv_pcs s ! 9 = Signals" "Sleeps \<notin> set (take 9 (cv_pcs s))" "\<not> (w < 9 \<and> cv_pcs s ! w = Sleeps)"
    | "cv_pcs s ! 9 = Unlocks"
    using step by (cases "cv_pcs s ! 9") (auto simp: producer_step_def split: if_splits)
  then show ?thesis
  proof cases
    case 1
    with step have s': "s' = go 9 Wants_lock (s\<lparr>nums := (nums s)[9 := loop s]\<rparr>)"
      by (simp add: producer_step_def)
    have "cv_inv (go 9 Wants_lock (s\<lparr>nums := (nums s)[9 := loop s], cv_mutex := cv_mutex s\<rparr>))"
      using 1 I(6) by (intro producer_moves [OF inv]) (simp_all add: cv_pc_defs)
    then show ?thesis by (simp add: s')
  next
    case 2
    then have s': "s' = go 9 Adds (s\<lparr>cv_mutex := Some 9\<rparr>)" and m: "cv_mutex s = None"
      using step by (simp_all add: producer_step_def split: if_splits)
    have "cv_inv (go 9 Adds (s\<lparr>nums := nums s, cv_mutex := Some 9\<rparr>))"
      using 2 I(6) m by (intro producer_moves [OF inv]) (simp_all add: cv_pc_defs)
    then show ?thesis by (simp add: s')
  next
    case 3
    with step have "s' = go 9 Signals (s\<lparr>share_variable := share_variable s + 1,
        n_produced := n_produced s + 1\<rparr>)" by (simp add: producer_step_def)
    then show ?thesis using producer_adds [OF inv 3] by simp
  next
    case 4
    with step have "s' = go 9 Unlocks (go w Wakes s)" by (simp add: producer_step_def)
    then show ?thesis using producer_signals_one [OF inv 4] by simp
  next
    case 5
    with step have "s' = go 9 Unlocks s" by (simp add: producer_step_def)
    then show ?thesis using producer_signals_none [OF inv 5(1,2)] by simp
  next
    case 6
    with step have s': "s' = go 9 Wants_lock (s\<lparr>cv_mutex := None\<rparr>)" by (simp add: producer_step_def)
    have "cv_inv (go 9 Wants_lock (s\<lparr>nums := nums s, cv_mutex := None\<rparr>))"
      using 6 I(6) by (intro producer_moves [OF inv]) (simp_all add: cv_pc_defs)
    then show ?thesis by (simp add: s')
  qed
qed

text \<open>A wakeup without a signal, and \<open>main\<close>.\<close>

lemma spurious_inv:
  assumes inv: "cv_inv s" and w: "w < 9" "cv_pcs s ! w = Sleeps"
  shows "cv_inv (go w Wakes s)"
proof -
  have "cv_inv (go w Wakes (s\<lparr>nums := nums s\<rparr>))"
    using w cv_invD(6) [OF inv] by (intro consumer_keeps [OF inv]) (simp_all add: cv_pc_defs)
  then show ?thesis by simp
qed

lemma main_step_inv:
  assumes inv: "cv_inv s" and step: "cv_main_step s = Some s'"
  shows "cv_inv s'"
proof -
  note I = cv_invD [OF inv]
  have creating: "cv_main_at s = Creating"
    using step by (cases "cv_main_at s") (simp_all add: cv_main_step_def)
  have le: "loop s \<le> 10" using I(1) by (simp add: cv_shape_def)
  show ?thesis
  proof (cases "loop s < 10")
    case True
    then have s': "s' = (go (loop s) Reads_arg s)\<lparr>loop := loop s + 1\<rparr>"
      using step creating by (simp add: cv_main_step_def)
    have made: "cv_pcs s ! u = Not_made \<longleftrightarrow> loop s \<le> u" if "u < 10" for u
      using I(1) creating that by (simp add: cv_shape_def)
    have now: "(cv_pcs s)[loop s := Reads_arg] ! u = (if u = loop s then Reads_arg else cv_pcs s ! u)" for u
      using True I(5) by simp
    have other: "cv_pcs s ! loop s = Not_made" using made [OF True] by simp
    show ?thesis
    proof (rule cv_invI)
      show "cv_shape s'"
        using I(1) True made creating
        by (auto simp: s' cv_shape_def now consumer_pc_def producer_pc_def)
      show "cv_locked s'"
        by (rule locked_keep [OF I(2,5) True, of Reads_arg]) (simp_all add: s' other has_lock_def)
      show "cv_counts s'"
        by (rule counts_go [OF I(3,5) True, of Reads_arg]) (simp_all add: s')
      show "cv_awake s'"
      proof (cases "loop s < 9")
        case True
        then show ?thesis by (intro awake_go [OF I(4,5), of "loop s" Reads_arg]) (simp_all add: s')
      next
        case False
        then have "loop s = 9" using \<open>loop s < 10\<close> by simp
        then show ?thesis
          using other by (intro producer_moves_awake [OF I(4)]) (simp_all add: s')
      qed
    qed
  next
    case False
    then have s': "s' = s\<lparr>loop := 0, cv_main_at := Joins\<rparr>"
      using step creating by (simp add: cv_main_step_def)
    show ?thesis
      using inv False le creating
      by (auto simp: cv_inv_def s' cv_shape_def cv_locked_def cv_counts_def cv_awake_def)
  qed
qed

lemma cv_step_inv: "cv_inv s \<Longrightarrow> cv_step a s = Some s' \<Longrightarrow> cv_inv s'"
proof (cases a)
  case (Producer t w)
  assume "cv_inv s" "cv_step a s = Some s'"
  then show ?thesis using Producer producer_step_inv [of s w s']
    by (auto split: if_splits simp: numeral_eq_Suc less_Suc_eq)
qed (auto split: if_splits intro: main_step_inv consumer_step_inv spurious_inv)

lemma cv_run_inv: "cv_run as s = Some s' \<Longrightarrow> cv_inv s \<Longrightarrow> cv_inv s'"
proof (induction as arbitrary: s)
  case (Cons a as)
  then obtain s1 where "cv_step a s = Some s1" "cv_run as s1 = Some s'"
    by (auto simp: bind_eq_Some_conv)
  then show ?case using Cons.IH [of s1] Cons.prems(2) cv_step_inv by blast
qed simp

section \<open>Properties\<close>

definition in_critical_section :: "nat \<Rightarrow> cv_state \<Rightarrow> bool" where
  "in_critical_section t s \<longleftrightarrow> t < 10 \<and> has_lock (cv_pcs s ! t)"

lemma holder_can_move:
  assumes inv: "cv_inv s" and m: "cv_mutex s = Some t"
  shows "\<exists>a s'. cv_step a s = Some s'"
proof -
  note I = cv_invD [OF inv]
  have t: "t < 10" and lock: "has_lock (cv_pcs s ! t)" using I(2) m by (auto simp: cv_locked_def)
  show ?thesis
  proof (cases "t < 9")
    case True
    then have "consumer_pc (cv_pcs s ! t)" using I(1) by (simp add: cv_shape_def)
    then have "cv_step (Consumer t) s \<noteq> None"
      using lock True by (auto simp: cv_pc_defs consumer_step_def)
    then show ?thesis by blast
  next
    case False
    then have t9: "t = 9" using t by simp
    have "producer_pc (cv_pcs s ! 9)" using I(1) by (simp add: cv_shape_def)
    then consider "cv_pcs s ! 9 \<in> {Adds, Unlocks}" | "cv_pcs s ! 9 = Signals"
      using lock t9 by (auto simp: cv_pc_defs)
    then show ?thesis
    proof cases
      case 1
      then have "cv_step (Producer 9 0) s \<noteq> None" by (auto simp: producer_step_def)
      then show ?thesis by blast
    next
      case 2
      show ?thesis
      proof (cases "Sleeps \<in> set (take 9 (cv_pcs s))")
        case True
        then obtain w where "w < 9" "cv_pcs s ! w = Sleeps"
          using I(5) by (auto simp: in_set_conv_nth)
        then have "cv_step (Producer 9 w) s \<noteq> None" using 2 by (simp add: producer_step_def)
        then show ?thesis by blast
      next
        case False
        then have "cv_step (Producer 9 0) s \<noteq> None" using 2 by (simp add: producer_step_def)
        then show ?thesis by blast
      qed
    qed
  qed
qed

lemma cv_not_stuck:
  assumes inv: "cv_inv s"
  shows "\<exists>a s'. cv_step a s = Some s'"
proof (cases "cv_mutex s")
  case (Some t)
  then show ?thesis using holder_can_move [OF inv] by blast
next
  case None
  note I = cv_invD [OF inv]
  show ?thesis
  proof (cases "cv_main_at s")
    case Creating
    then have "cv_step Main_runs s \<noteq> None" by (simp add: cv_main_step_def)
    then show ?thesis by blast
  next
    case Joins
    then have "cv_pcs s ! 9 \<noteq> Not_made" "producer_pc (cv_pcs s ! 9)" "\<not> has_lock (cv_pcs s ! 9)"
      using I(1,2) None by (auto simp: cv_shape_def cv_locked_def)
    then have "cv_pcs s ! 9 \<in> {Reads_arg, Wants_lock}" by (auto simp: cv_pc_defs)
    then have "cv_step (Producer 9 0) s \<noteq> None" using None by (auto simp: producer_step_def)
    then show ?thesis by blast
  qed
qed

text \<open>
  C16: In every state the program reaches, at most one thread is between its lock and its unlock,
  the shared counter is what was produced less what was consumed and never negative, and while
  something is left a signal is due or a consumer is not asleep: no wakeup is lost.
\<close>

theorem cond_safe:
  assumes "cv_run as cv_start = Some s"
  shows "(in_critical_section t s \<and> in_critical_section u s \<longrightarrow> t = u)
    \<and> share_variable s = int (n_produced s) - int (n_consumed s) \<and> n_consumed s \<le> n_produced s
    \<and> (n_consumed s < n_produced s \<longrightarrow> cv_pcs s ! 9 = Signals
       \<or> (\<exists>v < 9. cv_pcs s ! v \<notin> {Sleeps, Not_made}))
    \<and> (\<exists>a s'. cv_step a s = Some s')"
proof -
  have inv: "cv_inv s" by (rule cv_run_inv [OF assms cv_inv_start])
  note I = cv_invD [OF inv]
  have counts: "share_variable s = int (n_produced s) - int (n_consumed s)" "0 \<le> share_variable s"
    using I(3) unfolding cv_counts_def by simp_all
  moreover have "in_critical_section t s \<and> in_critical_section u s \<longrightarrow> t = u"
    using I(2) by (auto simp: in_critical_section_def cv_locked_def)
  moreover have "n_consumed s < n_produced s \<longrightarrow> cv_pcs s ! 9 = Signals
       \<or> (\<exists>v < 9. cv_pcs s ! v \<notin> {Sleeps, Not_made})"
    using I(4) counts by (auto simp: cv_awake_def)
  ultimately show ?thesis using cv_not_stuck [OF inv] by simp
qed

definition creates_all :: "cv_action list" where
  "creates_all = replicate 10 Main_runs"

text \<open>
  A consumer sleeps, the producer adds one and wakes it, and it takes the one.
\<close>

definition one_item :: "cv_action list" where
  "one_item = creates_all @ [Consumer 0, Consumer 0, Consumer 0, Producer 9 0, Producer 9 0,
     Producer 9 0, Producer 9 0, Producer 9 0, Consumer 0, Consumer 0, Consumer 0]"

theorem cond_safe_witness:
  "\<exists>s. cv_run one_item cv_start = Some s \<and> n_produced s = 1 \<and> n_consumed s = 1
     \<and> share_variable s = int (n_produced s) - int (n_consumed s) \<and> n_consumed s \<le> n_produced s"
proof -
  have "map_option (\<lambda>s. (n_produced s, n_consumed s)) (cv_run one_item cv_start) = Some (1, 1)"
    by code_simp
  then obtain s where s: "cv_run one_item cv_start = Some s" "n_produced s = 1" "n_consumed s = 1"
    by auto
  show ?thesis using s cond_safe [OF s(1), of 0 0] by blast
qed

text \<open>
  The threads get the address of \<open>loop\<close> and read it when they run: with every thread made
  before the first reads, all ten consumers and producers print the same number, and that number
  is none of theirs.
\<close>

theorem cond_threads_share_their_number:
  "map_option nums (cv_run (creates_all @ map Consumer [0..<9] @ [Producer 9 0]) cv_start)
     = Some (replicate 10 10)"
  by code_simp

end
