(* ===== verification/Scripts.thy ===== *)
theory Scripts
  imports Prelude
begin

text \<open>
  Programs of several threads or processes whose bodies have no jumps that depend on shared data:
  each is a list of commands, its loops unrolled.  A command is a wait or a post of a semaphore
  (a mutex is a semaphore that starts at one), an indivisible action on the shared data, the start
  of another thread, the wait for its end, or the end of the whole process.  A step lets any one
  thread do its next command.  The theory has what all such programs share: every run is bounded,
  a program without a stuck state can always be brought to its end (the locale \<open>progressing\<close>), and
  the states of a small one can be swept level by level.
\<close>

section \<open>Programs and their steps\<close>

datatype 'g cmd =
  Wait nat
| Post nat
| Act "'g \<Rightarrow> 'g"
| Spawn nat
| Join nat
| Halt

type_synonym 'g program = "'g cmd list list"

record 'g sys =
  pcs :: "nat list"
  live :: "bool list"
  halted :: bool
  sems :: "nat list"
  shared :: 'g

text \<open>Thread 0 is the one that runs \<open>main\<close>.\<close>

definition start :: "'g program \<Rightarrow> nat list \<Rightarrow> 'g \<Rightarrow> 'g sys" where
  "start prog v g = \<lparr>pcs = replicate (length prog) 0,
     live = map (\<lambda>i. i = 0) [0..<length prog], halted = False, sems = v, shared = g\<rparr>"

definition at_end :: "'g program \<Rightarrow> 'g sys \<Rightarrow> nat \<Rightarrow> bool" where
  "at_end prog s i \<longleftrightarrow> pcs s ! i = length (prog ! i)"

fun effect :: "'g program \<Rightarrow> 'g cmd \<Rightarrow> 'g sys \<Rightarrow> 'g sys option" where
  "effect prog (Wait k) s =
     (if 0 < sems s ! k then Some (s\<lparr>sems := (sems s)[k := sems s ! k - 1]\<rparr>) else None)"
| "effect prog (Post k) s = Some (s\<lparr>sems := (sems s)[k := sems s ! k + 1]\<rparr>)"
| "effect prog (Act f) s = Some (s\<lparr>shared := f (shared s)\<rparr>)"
| "effect prog (Spawn j) s = Some (s\<lparr>live := (live s)[j := True]\<rparr>)"
| "effect prog (Join j) s = (if live s ! j \<and> at_end prog s j then Some s else None)"
| "effect prog Halt s = Some (s\<lparr>halted := True\<rparr>)"

definition thread_step :: "'g program \<Rightarrow> nat \<Rightarrow> 'g sys \<Rightarrow> 'g sys option" where
  "thread_step prog i s =
     (if \<not> halted s \<and> live s ! i \<and> pcs s ! i < length (prog ! i)
      then map_option (\<lambda>t. t\<lparr>pcs := (pcs s)[i := Suc (pcs s ! i)]\<rparr>)
             (effect prog (prog ! i ! (pcs s ! i)) s)
      else None)"

inductive step :: "'g program \<Rightarrow> 'g sys \<Rightarrow> 'g sys \<Rightarrow> bool" for prog where
  step: "i < length prog \<Longrightarrow> thread_step prog i s = Some t \<Longrightarrow> step prog s t"

abbreviation steps :: "'g program \<Rightarrow> 'g sys \<Rightarrow> 'g sys \<Rightarrow> bool" where
  "steps prog \<equiv> (step prog)\<^sup>*\<^sup>*"

definition finished :: "'g program \<Rightarrow> 'g sys \<Rightarrow> bool" where
  "finished prog s \<longleftrightarrow>
     halted s \<or> list_all (\<lambda>i. live s ! i \<longrightarrow> at_end prog s i) [0..<length prog]"

definition stuck :: "'g program \<Rightarrow> 'g sys \<Rightarrow> bool" where
  "stuck prog s \<longleftrightarrow> list_all (\<lambda>i. thread_step prog i s = None) [0..<length prog]"

lemma finishedD:
  "finished prog s \<Longrightarrow> \<not> halted s \<Longrightarrow> i < length prog \<Longrightarrow> live s ! i \<Longrightarrow> at_end prog s i"
  by (simp add: finished_def list_all_iff)

text \<open>A schedule names the thread of every step; \<open>run\<close> follows it.\<close>

fun run :: "'g program \<Rightarrow> nat list \<Rightarrow> 'g sys \<Rightarrow> 'g sys option" where
  "run prog [] s = Some s"
| "run prog (i # is) s =
     (if i < length prog then Option.bind (thread_step prog i s) (run prog is) else None)"

lemma run_steps: "run prog sched s = Some t \<Longrightarrow> steps prog s t"
proof (induction sched arbitrary: s)
  case (Cons i sched)
  then obtain u where "i < length prog" "thread_step prog i s = Some u" "run prog sched u = Some t"
    by (auto split: if_splits bind_splits)
  with Cons.IH show ?case by (meson converse_rtranclp_into_rtranclp step.intros)
qed simp

text \<open>
  \<open>sem_open\<close> with \<open>O_CREAT\<close>: a semaphore of that name that is there already keeps its value, and the
  value of the call is used only for a new one.
\<close>

definition sem_open_creat :: "nat option \<Rightarrow> nat \<Rightarrow> nat" where
  "sem_open_creat there v = (case there of Some w \<Rightarrow> w | None \<Rightarrow> v)"

section \<open>Shape of the states\<close>

definition wf_sys :: "'g program \<Rightarrow> nat \<Rightarrow> 'g sys \<Rightarrow> bool" where
  "wf_sys prog n s \<longleftrightarrow> length (pcs s) = length prog \<and> length (live s) = length prog
     \<and> length (sems s) = n \<and> (\<forall>i < length prog. pcs s ! i \<le> length (prog ! i))"

lemma thread_stepE:
  assumes "thread_step prog i s = Some t"
  obtains u where "\<not> halted s" "live s ! i" "pcs s ! i < length (prog ! i)"
    "effect prog (prog ! i ! (pcs s ! i)) s = Some u"
    "t = u\<lparr>pcs := (pcs s)[i := Suc (pcs s ! i)]\<rparr>"
  using assms by (auto simp: thread_step_def split: if_splits)

lemma thread_step_eq:
  "thread_step prog i s = Some t \<longleftrightarrow>
     \<not> halted s \<and> live s ! i \<and> pcs s ! i < length (prog ! i) \<and>
     (\<exists>u. effect prog (prog ! i ! (pcs s ! i)) s = Some u \<and>
          t = u\<lparr>pcs := (pcs s)[i := Suc (pcs s ! i)]\<rparr>)"
  by (auto simp: thread_step_def split: if_splits)

lemma effect_shape:
  "effect prog c s = Some u \<Longrightarrow>
     pcs u = pcs s \<and> length (live u) = length (live s) \<and> length (sems u) = length (sems s)"
  by (cases c) (auto split: if_splits)

fun is_act :: "'g cmd \<Rightarrow> bool" where
  "is_act (Act f) \<longleftrightarrow> True"
| "is_act _ \<longleftrightarrow> False"

lemma effect_shared: "effect prog c s = Some u \<Longrightarrow> \<not> is_act c \<Longrightarrow> shared u = shared s"
  by (cases c) (auto split: if_splits)

fun do_act :: "'g cmd \<Rightarrow> 'g \<Rightarrow> 'g" where
  "do_act (Act f) g = f g"
| "do_act _ g = g"

lemma effect_do_act: "effect prog c s = Some u \<Longrightarrow> shared u = do_act c (shared s)"
  by (cases c) (auto split: if_splits)

lemma wf_start: "wf_sys prog (length v) (start prog v g)"
  by (simp add: wf_sys_def start_def)

lemma wf_pcs_le: "wf_sys prog n s \<Longrightarrow> i < length prog \<Longrightarrow> pcs s ! i \<le> length (prog ! i)"
  by (simp add: wf_sys_def)

lemma wf_thread_step:
  assumes "wf_sys prog n s" "i < length prog" "thread_step prog i s = Some t"
  shows "wf_sys prog n t"
  using assms(3)
proof (rule thread_stepE)
  fix u
  assume u: "pcs s ! i < length (prog ! i)" "effect prog (prog ! i ! (pcs s ! i)) s = Some u"
    "t = u\<lparr>pcs := (pcs s)[i := Suc (pcs s ! i)]\<rparr>"
  with effect_shape[OF u(2)] assms(1,2) show ?thesis
    by (auto simp: wf_sys_def nth_list_update)
qed

lemma steps_induct [consumes 1, case_names init step]:
  assumes "steps prog s t" "P s"
    and "\<And>i u v. steps prog s u \<Longrightarrow> P u \<Longrightarrow> i < length prog \<Longrightarrow>
           thread_step prog i u = Some v \<Longrightarrow> P v"
  shows "P t"
  using assms(1)
proof (induction rule: rtranclp_induct)
  case (step u v)
  from step(2) obtain i where "i < length prog" "thread_step prog i u = Some v"
    by (cases) auto
  with step(1,3) show ?case using assms(3) by blast
qed (rule assms(2))

lemma wf_steps:
  assumes "steps prog s t" "wf_sys prog n s"
  shows "wf_sys prog n t"
  using assms by (induction rule: steps_induct) (auto intro: wf_thread_step)

section \<open>Every run is bounded\<close>

definition left_over :: "'g program \<Rightarrow> 'g sys \<Rightarrow> nat" where
  "left_over prog s = (\<Sum>i < length prog. length (prog ! i) - pcs s ! i)"

lemma left_over_decreases:
  assumes "wf_sys prog n s" "i < length prog" "thread_step prog i s = Some t"
  shows "left_over prog t < left_over prog s"
  using assms(3)
proof (rule thread_stepE)
  fix u
  assume u: "pcs s ! i < length (prog ! i)" "effect prog (prog ! i ! (pcs s ! i)) s = Some u"
    "t = u\<lparr>pcs := (pcs s)[i := Suc (pcs s ! i)]\<rparr>"
  let ?f = "\<lambda>s j. length (prog ! j) - pcs s ! j"
  have len: "length (pcs s) = length prog" using assms(1) by (simp add: wf_sys_def)
  have "(\<Sum>j < length prog. ?f t j) < (\<Sum>j < length prog. ?f s j)"
  proof (rule sum_strict_mono_ex1)
    show "\<forall>j\<in>{..<length prog}. ?f t j \<le> ?f s j"
      using u(3) len assms(2) by (auto simp: nth_list_update)
    show "\<exists>j\<in>{..<length prog}. ?f t j < ?f s j"
      using u(1,3) len assms(2) by (intro bexI [of _ i]) auto
  qed simp
  then show ?thesis by (simp add: left_over_def)
qed

lemma run_bounded:
  assumes "wf_sys prog n s" "run prog sched s = Some t"
  shows "length sched + left_over prog t \<le> left_over prog s"
  using assms
proof (induction sched arbitrary: s)
  case (Cons i sched)
  then obtain u where u: "i < length prog" "thread_step prog i s = Some u"
      "run prog sched u = Some t"
    by (auto split: if_splits bind_splits)
  with Cons.IH [OF wf_thread_step [OF Cons.prems(1) u(1,2)] u(3)]
    left_over_decreases [OF Cons.prems(1) u(1,2)]
  show ?case by simp
qed simp

text \<open>
  A program that is never stuck before its end: from every state that it can be in, it can be
  brought to its end, and as runs are bounded, every schedule that goes on as long as it can
  ends there.
\<close>

locale progressing =
  fixes prog :: "'g program" and v0 :: "nat list" and g0 :: 'g
  assumes no_deadlock: "steps prog (start prog v0 g0) s \<Longrightarrow> stuck prog s \<Longrightarrow> finished prog s"
begin

lemma can_finish:
  assumes "steps prog (start prog v0 g0) s"
  shows "\<exists>t. steps prog s t \<and> finished prog t"
  using assms
proof (induction "left_over prog s" arbitrary: s rule: less_induct)
  case less
  have wf: "wf_sys prog (length v0) s" by (rule wf_steps [OF less.prems wf_start])
  show ?case
  proof (cases "stuck prog s")
    case True
    with no_deadlock [OF less.prems] show ?thesis by blast
  next
    case False
    then obtain i t where i: "i < length prog" and t: "thread_step prog i s = Some t"
      by (auto simp: stuck_def list_all_iff)
    have st: "step prog s t" by (rule step.intros [OF i t])
    then have "steps prog (start prog v0 g0) t"
      using less.prems by (rule rtranclp.rtrancl_into_rtrancl[rotated])
    with less.hyps [OF left_over_decreases [OF wf i t]]
    obtain r where "steps prog t r" "finished prog r" by blast
    with st show ?thesis by (meson converse_rtranclp_into_rtranclp)
  qed
qed

lemma maximal_run_finishes:
  assumes "run prog sched (start prog v0 g0) = Some s" "stuck prog s"
  shows "finished prog s \<and> length sched \<le> sum_list (map length prog)"
proof
  show "finished prog s" by (rule no_deadlock [OF run_steps [OF assms(1)] assms(2)])
  have "left_over prog (start prog v0 g0) = sum_list (map length prog)"
    by (simp add: left_over_def start_def sum_list_sum_nth atLeast0LessThan)
  with run_bounded [OF wf_start assms(1)] show "length sched \<le> sum_list (map length prog)"
    by simp
qed

end

section \<open>Threads that are started and joined\<close>

lemma pcs_step:
  assumes "thread_step prog i s = Some t"
  shows "pcs t = (pcs s)[i := Suc (pcs s ! i)]"
  using assms by (auto simp: thread_step_eq)

lemma executed_step:
  assumes "wf_sys prog n s" "i < length prog" "thread_step prog i s = Some t"
  shows "k < pcs t ! j \<longleftrightarrow> k < pcs s ! j \<or> j = i \<and> k = pcs s ! i"
  using assms(1,2) pcs_step [OF assms(3)]
  by (cases "j = i") (auto simp: wf_sys_def less_Suc_eq)

lemma at_end_kept:
  assumes "thread_step prog i s = Some t" "at_end prog s j"
  shows "at_end prog t j"
proof -
  have "i \<noteq> j" using assms by (auto simp: thread_step_eq at_end_def)
  with assms pcs_step [OF assms(1)] show ?thesis by (simp add: at_end_def)
qed

text \<open>A thread that has been joined has come to its end.\<close>

lemma joined:
  assumes "steps prog (start prog v g) s"
    and "i < length prog" "k < pcs s ! i" "prog ! i ! k = Join j"
  shows "at_end prog s j"
  using assms
proof (induction rule: steps_induct)
  case init
  then show ?case by (simp add: start_def)
next
  case (step i' u t)
  show ?case
  proof (cases "k < pcs u ! i")
    case True
    with step show ?thesis using at_end_kept by blast
  next
    case False
    with step.prems(2) executed_step [OF wf_steps [OF step.hyps(1) wf_start] step.hyps(2,3)]
    have "i' = i" "k = pcs u ! i" by auto
    with step.hyps(3) step.prems(3) have "at_end prog u j"
      by (auto simp: thread_step_eq split: if_splits)
    with step.hyps(3) show ?thesis by (rule at_end_kept)
  qed
qed

lemma nth_update_True: "xs ! j \<Longrightarrow> xs[k := True] ! j"
  by (cases "k = j"; cases "k < length xs") (auto simp: list_update_beyond)

lemma live_kept:
  assumes "thread_step prog i s = Some t" "live s ! j"
  shows "live t ! j"
  using assms
  by (cases "prog ! i ! (pcs s ! i)") (auto simp: thread_step_eq nth_update_True split: if_splits)

lemma spawned:
  assumes "steps prog (start prog v g) s"
    and "i < length prog" "k < pcs s ! i" "prog ! i ! k = Spawn j" "j < length prog"
  shows "live s ! j"
  using assms
proof (induction rule: steps_induct)
  case init
  then show ?case by (simp add: start_def)
next
  case (step i' u t)
  note wf = wf_steps [OF step.hyps(1) wf_start]
  show ?case
  proof (cases "k < pcs u ! i")
    case True
    with step show ?thesis using live_kept by blast
  next
    case False
    with step.prems(2) executed_step [OF wf step.hyps(2,3)]
    have "i' = i" "k = pcs u ! i" by auto
    with step.hyps(3) step.prems(3,4) wf show ?thesis
      by (auto simp: thread_step_eq wf_sys_def)
  qed
qed

lemma main_live:
  assumes "steps prog (start prog v g) s" "0 < length prog"
  shows "live s ! 0"
  using assms
  by (induction rule: steps_induct) (auto simp: start_def intro: live_kept)

lemma halted_by:
  assumes "steps prog (start prog v g) s" "halted s"
  shows "\<exists>i < length prog. \<exists>k < pcs s ! i. prog ! i ! k = Halt"
  using assms
proof (induction rule: steps_induct)
  case init
  then show ?case by (simp add: start_def)
next
  case (step i u t)
  note wf = wf_steps [OF step.hyps(1) wf_start]
  have "\<not> halted u" using step.hyps(3) by (auto simp: thread_step_eq)
  with step.hyps(3) step.prems have "prog ! i ! (pcs u ! i) = Halt"
    by (cases "prog ! i ! (pcs u ! i)") (auto simp: thread_step_eq split: if_splits)
  moreover have "pcs u ! i < pcs t ! i"
    using executed_step [OF wf step.hyps(2,3)] by blast
  ultimately show ?case using step.hyps(2) by blast
qed

text \<open>Every join of a list of commands comes after the start of the same thread.\<close>

fun joins_ok :: "nat \<Rightarrow> nat list \<Rightarrow> 'g cmd list \<Rightarrow> bool" where
  "joins_ok n seen [] \<longleftrightarrow> True"
| "joins_ok n seen (Spawn j # cs) \<longleftrightarrow> joins_ok n (j # seen) cs"
| "joins_ok n seen (Join j # cs) \<longleftrightarrow> 0 < j \<and> j < n \<and> j \<in> set seen \<and> joins_ok n seen cs"
| "joins_ok n seen (_ # cs) \<longleftrightarrow> joins_ok n seen cs"

lemma joins_okD:
  assumes "joins_ok n seen cs" "k < length cs" "cs ! k = Join j"
  shows "0 < j \<and> j < n \<and> (j \<in> set seen \<or> (\<exists>k' < k. cs ! k' = Spawn j))"
  using assms
proof (induction n seen cs arbitrary: k rule: joins_ok.induct)
  case (2 n seen i cs)
  then obtain k0 where k: "k = Suc k0" by (cases k) auto
  with 2 have "0 < j \<and> j < n \<and> (j \<in> set (i # seen) \<or> (\<exists>k' < k0. cs ! k' = Spawn j))" by simp
  then show ?case unfolding k by (auto intro: exI [of _ 0] exI [of _ "Suc k'" for k'])
next
  case (3 n seen i cs)
  show ?case
  proof (cases k)
    case 0
    with 3 show ?thesis by simp
  next
    case (Suc k0)
    with 3 have "0 < j \<and> j < n \<and> (j \<in> set seen \<or> (\<exists>k' < k0. cs ! k' = Spawn j))" by simp
    with Suc show ?thesis by auto
  qed
qed (auto simp: nth_Cons split: nat.splits)

text \<open>
  A program whose \<open>main\<close> starts the threads it joins, joins each after its start, and is not
  blocked elsewhere, and whose threads never block.
\<close>

locale fork_join =
  fixes prog :: "'g program" and v0 :: "nat list" and g0 :: 'g
  assumes main_there: "0 < length prog"
    and threads_act: "0 < i \<Longrightarrow> i < length prog \<Longrightarrow> c \<in> set (prog ! i) \<Longrightarrow> \<exists>f. c = Act f"
    and join_after_spawn: "joins_ok (length prog) [] (prog ! 0)"
    and main_moves: "steps prog (start prog v0 g0) s \<Longrightarrow> pcs s ! 0 < length (prog ! 0) \<Longrightarrow>
          \<nexists>j. prog ! 0 ! (pcs s ! 0) = Join j \<Longrightarrow>
          effect prog (prog ! 0 ! (pcs s ! 0)) s \<noteq> None"
begin

lemma thread_moves:
  assumes "\<not> halted s" "0 < i" "i < length prog" "live s ! i" "pcs s ! i < length (prog ! i)"
  shows "thread_step prog i s \<noteq> None"
proof -
  obtain f where "prog ! i ! (pcs s ! i) = Act f"
    using threads_act [OF assms(2,3)] assms(5) nth_mem by blast
  with assms show ?thesis by (simp add: thread_step_def)
qed

lemma fork_join_progress:
  assumes st: "steps prog (start prog v0 g0) s" and stuck: "stuck prog s"
  shows "finished prog s"
proof (cases "halted s")
  case True
  then show ?thesis by (simp add: finished_def)
next
  case False
  have none: "thread_step prog i s = None" if "i < length prog" for i
    using stuck that by (simp add: stuck_def list_all_iff)
  have wf: "wf_sys prog (length v0) s" by (rule wf_steps [OF st wf_start])
  have thread_end: "at_end prog s i" if "0 < i" "i < length prog" "live s ! i" for i
  proof (rule ccontr)
    assume "\<not> at_end prog s i"
    with wf that have "pcs s ! i < length (prog ! i)"
      by (auto simp: wf_sys_def at_end_def intro: le_neq_trans)
    from thread_moves [OF False that this] none [OF that(2)] show False by simp
  qed
  have "at_end prog s 0"
  proof (rule ccontr)
    assume "\<not> at_end prog s 0"
    with wf main_there have lt: "pcs s ! 0 < length (prog ! 0)"
      by (auto simp: wf_sys_def at_end_def intro: le_neq_trans)
    have blocked: "effect prog (prog ! 0 ! (pcs s ! 0)) s = None"
      using none [OF main_there] False lt main_live [OF st main_there]
      by (simp add: thread_step_def)
    with main_moves [OF st lt] obtain j where j: "prog ! 0 ! (pcs s ! 0) = Join j" by blast
    from joins_okD [OF join_after_spawn lt j] obtain k where
      k: "k < pcs s ! 0" "prog ! 0 ! k = Spawn j" and j0: "0 < j" "j < length prog" by auto
    from spawned [OF st main_there k j0(2)] have "live s ! j" .
    with thread_end [OF j0] blocked j show False by simp
  qed
  with thread_end have "at_end prog s i" if "i < length prog" "live s ! i" for i
    using that by (cases "i = 0") simp_all
  then show ?thesis by (simp add: finished_def list_all_iff)
qed

end

sublocale fork_join \<subseteq> progressing
  by unfold_locales (rule fork_join_progress)

section \<open>Sweeping the states of a small program\<close>

text \<open>
  All states a program can reach in one step, two steps, and so on; two states of one level can be
  the same and are then followed once.
\<close>

definition moves :: "'g program \<Rightarrow> 'g sys \<Rightarrow> 'g sys list" where
  "moves prog s = List.map_filter (\<lambda>i. thread_step prog i s) [0..<length prog]"

fun sweep :: "('g sys \<Rightarrow> bool) \<Rightarrow> 'g program \<Rightarrow> nat \<Rightarrow> 'g sys list \<Rightarrow> bool" where
  "sweep Q prog 0 S \<longleftrightarrow> S = []"
| "sweep Q prog (Suc n) S \<longleftrightarrow>
     S = [] \<or> list_all Q S \<and> sweep Q prog n (remdups (concat (map (moves prog) S)))"

lemma step_in_moves: "step prog s t \<longleftrightarrow> t \<in> set (moves prog s)"
  by (auto simp: moves_def map_filter_def step.simps image_iff)

lemma sweep_sound:
  assumes "sweep Q prog n S" "s \<in> set S" "steps prog s t"
  shows "Q t"
  using assms
proof (induction n arbitrary: S s)
  case (Suc n)
  from Suc.prems(3) show ?case
  proof (cases rule: converse_rtranclpE)
    case base
    with Suc.prems(1,2) show ?thesis by (auto simp: list_all_iff)
  next
    case (step u)
    then have "u \<in> set (remdups (concat (map (moves prog) S)))"
      using Suc.prems(2) by (auto simp: step_in_moves)
    moreover have "sweep Q prog n (remdups (concat (map (moves prog) S)))"
      using Suc.prems(1,2) by auto
    ultimately show ?thesis using Suc.IH step(2) by blast
  qed
qed simp

lemma sweep_run:
  assumes "sweep Q prog n [s0]" "run prog sched s0 = Some s"
  shows "Q s"
  by (rule sweep_sound [OF assms(1) _ run_steps [OF assms(2)]]) simp

lemma progressing_by_sweep:
  assumes "sweep (\<lambda>s. stuck prog s \<longrightarrow> finished prog s) prog n [start prog v g]"
  shows "progressing prog v g"
  by unfold_locales (use sweep_sound [OF assms] in auto)

section \<open>Loops\<close>

text \<open>
  A loop whose body has \<open>m\<close> commands in every pass: the command at position \<open>m * i + r\<close> is the
  one at \<open>r\<close> in pass \<open>i\<close>.
\<close>

lemma loop_length:
  assumes "\<And>i. length (body i) = m"
  shows "length (concat (map body [0..<n])) = m * n"
  by (induction n) (simp_all add: assms)

lemma loop_nth:
  assumes "\<And>i. length (body i) = m" "i < n" "r < m"
  shows "concat (map body [0..<n]) ! (m * i + r) = body i ! r"
  using assms(2)
proof (induction n)
  case (Suc n)
  show ?case
  proof (cases "i < n")
    case True
    then have "m * i + r < m * n"
    proof -
      have "m * i + r < m * Suc i" using assms(3) by simp
      also have "\<dots> \<le> m * n" using True by (intro mult_le_mono2) simp
      finally show ?thesis .
    qed
    with True Suc.IH show ?thesis by (simp add: nth_append loop_length [OF assms(1)])
  next
    case False
    with Suc.prems have "i = n" by simp
    then show ?thesis by (simp add: nth_append loop_length [OF assms(1)] assms)
  qed
qed simp

lemma loop_pos:
  fixes p m n :: nat
  assumes "p < m * n"
  obtains i r where "p = m * i + r" "i < n" "r < m"
proof
  have "0 < m" using assms by (cases m) auto
  show "p = m * (p div m) + p mod m" by simp
  show "p mod m < m" using \<open>0 < m\<close> by simp
  show "p div m < n" using assms by (simp add: less_mult_imp_div_less mult.commute)
qed

end
