(* ===== verification/BoundedBuffer.thy ===== *)
theory BoundedBuffer
  imports Scripts
begin

text \<open>
  The bounded buffers of \<open>3.Thread/4.semaphore/demo.c\<close> and \<open>demo2.c\<close>: one producer and one
  consumer, a ring of five slots, two semaphores that count the free and the filled slots and a
  mutex.  The programs are scripts of the theory \<open>Scripts\<close>; the invariant ties the position of each
  thread to the semaphores, to the ring and to what has been printed.
\<close>

section \<open>The program\<close>

abbreviation (input) BUFFER_SIZE :: nat where "BUFFER_SIZE \<equiv> 5"

datatype bb_line = Producer_produced int | Consumer_consumed int

text \<open>
  The globals, the local \<open>item\<close> of the consumer, and the lines printed so far; \<open>in_pos\<close> and
  \<open>out_pos\<close> are \<open>in\<close> and \<open>out\<close>.
\<close>

record ring_state =
  buffer :: "int list"
  in_pos :: nat
  out_pos :: nat
  c_item :: int
  bb_printed :: "bb_line list"

definition ring0 :: ring_state where
  "ring0 = \<lparr>buffer = replicate BUFFER_SIZE 0, in_pos = 0, out_pos = 0, c_item = 0,
     bb_printed = []\<rparr>"

abbreviation (input) empty_slots :: nat where "empty_slots \<equiv> 0"
abbreviation (input) filled_slots :: nat where "filled_slots \<equiv> 1"
abbreviation (input) mutex :: nat where "mutex \<equiv> 2"

text \<open>
  The four actions on shared data; \<open>printf\<close> and the update of the index are actions of their own,
  and \<open>sleep\<close> is no command, since any delay is possible between two commands.
\<close>

definition put_item :: "int \<Rightarrow> ring_state \<Rightarrow> ring_state" where
  "put_item x g = g\<lparr>buffer := (buffer g)[in_pos g := x]\<rparr>"

definition next_in :: "ring_state \<Rightarrow> ring_state" where
  "next_in g = g\<lparr>in_pos := (in_pos g + 1) mod BUFFER_SIZE\<rparr>"

definition take_item :: "ring_state \<Rightarrow> ring_state" where
  "take_item g = g\<lparr>c_item := buffer g ! out_pos g\<rparr>"

definition next_out :: "ring_state \<Rightarrow> ring_state" where
  "next_out g = g\<lparr>out_pos := (out_pos g + 1) mod BUFFER_SIZE\<rparr>"

definition say :: "bb_line \<Rightarrow> ring_state \<Rightarrow> ring_state" where
  "say l g = g\<lparr>bb_printed := bb_printed g @ [l]\<rparr>"

definition producer_pass :: "nat \<Rightarrow> ring_state cmd list" where
  "producer_pass i =
     [Wait empty_slots,
      Wait mutex,
      Act (put_item (int i)),
      Act (say (Producer_produced (int i))),
      Act next_in,
      Post mutex,
      Post filled_slots]"

definition producer :: "ring_state cmd list" where
  "producer = concat (map producer_pass [0..<10])"

definition consumer_pass :: "nat \<Rightarrow> ring_state cmd list" where
  "consumer_pass i =
     [Wait filled_slots,
      Wait mutex,
      Act take_item,
      Act (\<lambda>g. say (Consumer_consumed (c_item g)) g),
      Act next_out,
      Post mutex,
      Post empty_slots]"

definition consumer :: "ring_state cmd list" where
  "consumer = concat (map consumer_pass [0..<10])"

text \<open>
  \<open>main\<close> of \<open>demo.c\<close>: the two threads are made and joined; the initial values of the semaphores and
  of the mutex are those of \<open>demo_sems\<close>.
\<close>

definition bb_main :: "ring_state cmd list" where
  "bb_main = [Spawn 1, Spawn 2, Join 1, Join 2, Halt]"

definition demo_program :: "ring_state program" where
  "demo_program = [bb_main, producer, consumer]"

definition demo_sems :: "nat list" where
  "demo_sems = [BUFFER_SIZE, 0, 1]"

definition demo_start :: "ring_state sys" where
  "demo_start = start demo_program demo_sems ring0"

text \<open>
  \<open>demo2.c\<close> has named semaphores in place of the two unnamed ones.  \<open>opened\<close> is whether both calls
  of \<open>sem_open\<close> succeed; \<open>e\<close> and \<open>f\<close> are the values of semaphores left by an earlier run.
\<close>

definition producer2 :: "ring_state cmd list" where
  "producer2 = concat (map (\<lambda>i.
     [Wait empty_slots, Wait mutex, Act (put_item (int i)),
      Act (say (Producer_produced (int i))), Act next_in,
      Post mutex, Post filled_slots]) [0..<10])"

definition consumer2 :: "ring_state cmd list" where
  "consumer2 = concat (map (\<lambda>i.
     [Wait filled_slots, Wait mutex, Act take_item,
      Act (\<lambda>g. say (Consumer_consumed (c_item g)) g), Act next_out,
      Post mutex, Post empty_slots]) [0..<10])"

definition demo2_main :: "bool \<Rightarrow> ring_state cmd list" where
  "demo2_main opened = (if opened then [Spawn 1, Spawn 2, Join 1, Join 2, Halt] else [Halt])"

definition demo2_program :: "bool \<Rightarrow> ring_state program" where
  "demo2_program opened = [demo2_main opened, producer2, consumer2]"

definition demo2_sems :: "nat option \<Rightarrow> nat option \<Rightarrow> nat list" where
  "demo2_sems e f = [sem_open_creat e BUFFER_SIZE, sem_open_creat f 0, 1]"

definition demo2_start :: "bool \<Rightarrow> nat option \<Rightarrow> nat option \<Rightarrow> ring_state sys" where
  "demo2_start opened e f = start (demo2_program opened) (demo2_sems e f) ring0"

section \<open>What has been printed\<close>

fun produced_item :: "bb_line \<Rightarrow> int option" where
  "produced_item (Producer_produced x) = Some x"
| "produced_item (Consumer_consumed x) = None"

fun consumed_item :: "bb_line \<Rightarrow> int option" where
  "consumed_item (Producer_produced x) = None"
| "consumed_item (Consumer_consumed x) = Some x"

definition produced :: "ring_state sys \<Rightarrow> int list" where
  "produced s = List.map_filter produced_item (bb_printed (shared s))"

definition consumed :: "ring_state sys \<Rightarrow> int list" where
  "consumed s = List.map_filter consumed_item (bb_printed (shared s))"

section \<open>The invariant\<close>

text \<open>
  A thread in pass \<open>i\<close> at command \<open>r\<close> of its loop has done command \<open>q\<close> of the loop \<open>nth_done i r q\<close>
  times.
\<close>

definition nth_done :: "nat \<Rightarrow> nat \<Rightarrow> nat \<Rightarrow> nat" where
  "nth_done i r q = (if q < r then Suc i else i)"

definition place :: "nat \<Rightarrow> nat \<Rightarrow> nat \<Rightarrow> bool" where
  "place p i r \<longleftrightarrow> p = 7 * i + r \<and> r < 7 \<and> (i < 10 \<or> i = 10 \<and> r = 0)"

definition counts_ok :: "nat list \<Rightarrow> nat \<Rightarrow> nat \<Rightarrow> nat \<Rightarrow> nat \<Rightarrow> bool" where
  "counts_ok v i r j q \<longleftrightarrow> length v = 3
     \<and> v ! empty_slots + nth_done i r 0 = BUFFER_SIZE + nth_done j q 6
     \<and> v ! filled_slots + nth_done j q 0 = nth_done i r 6
     \<and> v ! mutex + nth_done i r 1 + nth_done j q 1 = 1 + nth_done i r 5 + nth_done j q 5"

definition ring_ok :: "ring_state \<Rightarrow> nat \<Rightarrow> nat \<Rightarrow> nat \<Rightarrow> nat \<Rightarrow> bool" where
  "ring_ok g i r j q \<longleftrightarrow> length (buffer g) = BUFFER_SIZE
     \<and> in_pos g = nth_done i r 4 mod BUFFER_SIZE
     \<and> out_pos g = nth_done j q 4 mod BUFFER_SIZE
     \<and> (\<forall>k. nth_done j q 2 \<le> k \<longrightarrow> k < nth_done i r 2 \<longrightarrow> buffer g ! (k mod BUFFER_SIZE) = int k)
     \<and> (q = 3 \<longrightarrow> c_item g = int j)
     \<and> List.map_filter produced_item (bb_printed g) = map int [0..<nth_done i r 3]
     \<and> List.map_filter consumed_item (bb_printed g) = map int [0..<nth_done j q 3]"

definition main_ok :: "ring_state sys \<Rightarrow> nat \<Rightarrow> nat \<Rightarrow> nat \<Rightarrow> bool" where
  "main_ok s m i j \<longleftrightarrow> m \<le> 5 \<and> live s = [True, 1 \<le> m, 2 \<le> m] \<and> halted s = (m = 5)
     \<and> (3 \<le> m \<longrightarrow> i = 10) \<and> (4 \<le> m \<longrightarrow> j = 10)"

definition bb_at :: "ring_state sys \<Rightarrow> nat \<Rightarrow> nat \<Rightarrow> nat \<Rightarrow> nat \<Rightarrow> nat \<Rightarrow> bool" where
  "bb_at s m i r j q \<longleftrightarrow> pcs s = [m, 7 * i + r, 7 * j + q]
     \<and> place (7 * i + r) i r \<and> place (7 * j + q) j q
     \<and> main_ok s m i j \<and> counts_ok (sems s) i r j q \<and> ring_ok (shared s) i r j q"

definition bb_inv :: "ring_state sys \<Rightarrow> bool" where
  "bb_inv s \<longleftrightarrow> (\<exists>m i r j q. bb_at s m i r j q)"

lemma producer_length [simp]: "length producer = 70"
  by (simp add: producer_def loop_length [where m = 7] producer_pass_def)

lemma consumer_length [simp]: "length consumer = 70"
  by (simp add: consumer_def loop_length [where m = 7] consumer_pass_def)

lemma producer_nth: "i < 10 \<Longrightarrow> r < 7 \<Longrightarrow> producer ! (7 * i + r) = producer_pass i ! r"
  unfolding producer_def by (rule loop_nth) (simp_all add: producer_pass_def)

lemma consumer_nth: "i < 10 \<Longrightarrow> r < 7 \<Longrightarrow> consumer ! (7 * i + r) = consumer_pass i ! r"
  unfolding consumer_def by (rule loop_nth) (simp_all add: consumer_pass_def)

lemma less7_cases:
  assumes "r < (7::nat)"
  obtains "r = 0" | "r = 1" | "r = 2" | "r = 3" | "r = 4" | "r = 5" | "r = 6"
  using assms by linarith

lemma mod_distinct:
  assumes "j \<le> k" "k < i" "i < j + 5"
  shows "k mod 5 \<noteq> i mod (5::nat)"
proof
  assume "k mod 5 = i mod 5"
  with assms(2) have "5 dvd i - k" by (metis mod_eq_dvd_iff_nat less_imp_le)
  with assms show False by (auto dest: dvd_imp_le)
qed

lemmas bb_defs = bb_at_def place_def main_ok_def counts_ok_def ring_ok_def nth_done_def

lemma demo_program_nth [simp]:
  "demo_program ! 0 = bb_main" "demo_program ! Suc 0 = producer" "demo_program ! 2 = consumer"
  "length demo_program = 3"
  by (simp_all add: demo_program_def)

definition next_pass :: "nat \<Rightarrow> nat \<Rightarrow> nat" where
  "next_pass i r = (if r = 6 then Suc i else i)"

definition next_place :: "nat \<Rightarrow> nat" where
  "next_place r = (if r = 6 then 0 else Suc r)"

lemma producer_counts:
  assumes "counts_ok (sems s) i r j q" "r < 7" "effect demo_program (producer_pass i ! r) s = Some u"
  shows "counts_ok (sems u) (next_pass i r) (next_place r) j q"
  using assms(2)
  by (cases rule: less7_cases; use assms(1,3) in
      \<open>auto simp: counts_ok_def producer_pass_def nth_done_def next_pass_def next_place_def
         split: if_splits\<close>)

lemma producer_ring_same:
  assumes "ring_ok g i r j q" "r \<in> {0, 1, 5, 6}"
  shows "ring_ok g (next_pass i r) (next_place r) j q"
  using assms by (elim insertE emptyE) (simp_all add: ring_ok_def nth_done_def next_pass_def next_place_def)

lemma put_item_ring:
  assumes "ring_ok g i 2 j q" "counts_ok v i 2 j q"
  shows "ring_ok (put_item (int i) g) i 3 j q"
proof -
  have "k mod 5 \<noteq> i mod 5" if "nth_done j q 2 \<le> k" "k < i" for k
  proof (rule mod_distinct [OF that])
    show "i < nth_done j q 2 + 5"
      using assms(2) by (simp add: counts_ok_def nth_done_def split: if_splits)
  qed
  note other = this
  have d: "nth_done i 2 2 = i" "nth_done i 2 4 = i" by (simp_all add: nth_done_def)
  have "buffer (put_item (int i) g) ! (k mod 5) = int k"
    if k: "nth_done j q 2 \<le> k" "k < Suc i" for k
  proof (cases "k = i")
    case False
    with k(2) have "k < i" by simp
    with other [OF k(1) this] k(1) assms(1) show ?thesis
      by (simp add: ring_ok_def put_item_def d)
  qed (use assms(1) in \<open>simp add: ring_ok_def put_item_def d\<close>)
  moreover have "nth_done i 3 2 = Suc i" "nth_done i 3 3 = nth_done i 2 3"
    "nth_done i 3 4 = nth_done i 2 4"
    by (simp_all add: nth_done_def)
  ultimately show ?thesis
    using assms(1) by (simp add: ring_ok_def) (simp add: put_item_def)
qed

lemma say_ring:
  assumes "ring_ok g i 3 j q"
  shows "ring_ok (say (Producer_produced (int i)) g) i 4 j q"
  using assms by (simp add: ring_ok_def say_def nth_done_def map_filter_def)

lemma next_in_ring:
  assumes "ring_ok g i 4 j q"
  shows "ring_ok (next_in g) i 5 j q"
  using assms by (simp add: ring_ok_def next_in_def nth_done_def mod_Suc_eq)

lemma producer_ring:
  assumes "ring_ok (shared s) i r j q" "counts_ok (sems s) i r j q" "r < 7"
    "effect demo_program (producer_pass i ! r) s = Some u"
  shows "ring_ok (shared u) (next_pass i r) (next_place r) j q"
proof -
  consider "r \<in> {0, 1, 5, 6}" | "r = 2" | "r = 3" | "r = 4" using assms(3) by fastforce
  then show ?thesis
  proof cases
    case 1
    then have "shared u = shared s"
      using assms(4) by (auto simp: producer_pass_def split: if_splits)
    with producer_ring_same [OF assms(1) 1] show ?thesis by simp
  next
    case 2
    with assms(1,2,4) put_item_ring show ?thesis
      by (auto simp: producer_pass_def next_pass_def next_place_def)
  next
    case 3
    with assms(1,4) say_ring show ?thesis
      by (auto simp: producer_pass_def next_pass_def next_place_def)
  next
    case 4
    with assms(1,4) next_in_ring show ?thesis
      by (auto simp: producer_pass_def next_pass_def next_place_def)
  qed
qed

lemma consumer_counts:
  assumes "counts_ok (sems s) i r j q" "q < 7" "effect demo_program (consumer_pass j ! q) s = Some u"
  shows "counts_ok (sems u) i r (next_pass j q) (next_place q)"
  using assms(2)
  by (cases rule: less7_cases; use assms(1,3) in
      \<open>auto simp: counts_ok_def consumer_pass_def nth_done_def next_pass_def next_place_def
         split: if_splits\<close>)

lemma consumer_ring_same:
  assumes "ring_ok g i r j q" "q \<in> {0, 1, 5, 6}"
  shows "ring_ok g i r (next_pass j q) (next_place q)"
  using assms by (elim insertE emptyE) (simp_all add: ring_ok_def nth_done_def next_pass_def next_place_def)

lemma take_item_ring:
  assumes "ring_ok g i r j 2" "counts_ok v i r j 2"
  shows "ring_ok (take_item g) i r j 3"
proof -
  have "j < nth_done i r 2"
    using assms(2) by (simp add: counts_ok_def nth_done_def split: if_splits)
  then show ?thesis
    using assms(1) by (simp add: ring_ok_def take_item_def nth_done_def)
qed

lemma consumer_say_ring:
  assumes "ring_ok g i r j 3"
  shows "ring_ok (say (Consumer_consumed (c_item g)) g) i r j 4"
  using assms by (simp add: ring_ok_def say_def nth_done_def map_filter_def)

lemma next_out_ring:
  assumes "ring_ok g i r j 4"
  shows "ring_ok (next_out g) i r j 5"
  using assms by (simp add: ring_ok_def next_out_def nth_done_def mod_Suc_eq)

lemma consumer_ring:
  assumes "ring_ok (shared s) i r j q" "counts_ok (sems s) i r j q" "q < 7"
    "effect demo_program (consumer_pass j ! q) s = Some u"
  shows "ring_ok (shared u) i r (next_pass j q) (next_place q)"
proof -
  consider "q \<in> {0, 1, 5, 6}" | "q = 2" | "q = 3" | "q = 4" using assms(3) by fastforce
  then show ?thesis
  proof cases
    case 1
    then have "shared u = shared s"
      using assms(4) by (auto simp: consumer_pass_def split: if_splits)
    with consumer_ring_same [OF assms(1) 1] show ?thesis by simp
  next
    case 2
    with assms(1,2,4) take_item_ring show ?thesis
      by (auto simp: consumer_pass_def next_pass_def next_place_def)
  next
    case 3
    with assms(1,4) consumer_say_ring show ?thesis
      by (auto simp: consumer_pass_def next_pass_def next_place_def)
  next
    case 4
    with assms(1,4) next_out_ring show ?thesis
      by (auto simp: consumer_pass_def next_pass_def next_place_def)
  qed
qed

text \<open>The loops change neither which threads run nor what \<open>main\<close> has done.\<close>

lemma pass_effect_main:
  assumes "effect demo_program (c ! r) s = Some u" "r < 7"
    "c = producer_pass i \<or> c = consumer_pass i"
  shows "live u = live s \<and> halted u = halted s"
  using assms(2)
  by (cases rule: less7_cases; use assms(1,3) in
      \<open>auto simp: producer_pass_def consumer_pass_def split: if_splits\<close>)

lemma next_position:
  assumes "place (7 * i + r) i r" "i < 10"
  shows "Suc (7 * i + r) = 7 * next_pass i r + next_place r"
    "place (7 * next_pass i r + next_place r) (next_pass i r) (next_place r)"
  using assms by (auto simp: place_def next_pass_def next_place_def)

lemma producer_step:
  assumes at: "bb_at s m i r j q" and st: "thread_step demo_program 1 s = Some t"
  shows "bb_at t m (next_pass i r) (next_place r) j q"
proof -
  from at have pc: "pcs s = [m, 7 * i + r, 7 * j + q]" and r: "r < 7"
    and pl: "place (7 * i + r) i r"
    by (auto simp: bb_at_def place_def)
  from at st have i: "i < 10"
    by (auto simp: thread_step_eq bb_at_def place_def)
  from st obtain u where u: "effect demo_program (producer_pass i ! r) s = Some u"
      and t: "t = u\<lparr>pcs := [m, Suc (7 * i + r), 7 * j + q]\<rparr>" and run: "\<not> halted s"
    by (auto simp: thread_step_eq pc producer_nth i r)
  have "main_ok t m (next_pass i r) j"
    using at run i pass_effect_main [OF u r] by (auto simp: t bb_at_def main_ok_def)
  moreover have "counts_ok (sems t) (next_pass i r) (next_place r) j q"
    using at producer_counts [OF _ r u] by (simp add: t bb_at_def)
  moreover have "ring_ok (shared t) (next_pass i r) (next_place r) j q"
    using at producer_ring [OF _ _ r u] by (simp add: t bb_at_def)
  ultimately show ?thesis
    using at next_position [OF pl i] by (simp add: bb_at_def t)
qed

lemma consumer_step:
  assumes at: "bb_at s m i r j q" and st: "thread_step demo_program 2 s = Some t"
  shows "bb_at t m i r (next_pass j q) (next_place q)"
proof -
  from at have pc: "pcs s = [m, 7 * i + r, 7 * j + q]" and q: "q < 7"
    and pl: "place (7 * j + q) j q"
    by (auto simp: bb_at_def place_def)
  from at st have j: "j < 10"
    by (auto simp: thread_step_eq bb_at_def place_def)
  from st obtain u where u: "effect demo_program (consumer_pass j ! q) s = Some u"
      and t: "t = u\<lparr>pcs := [m, 7 * i + r, Suc (7 * j + q)]\<rparr>" and run: "\<not> halted s"
    by (auto simp: thread_step_eq pc consumer_nth j q)
  have "main_ok t m i (next_pass j q)"
    using at run j pass_effect_main [OF u q] by (auto simp: t bb_at_def main_ok_def)
  moreover have "counts_ok (sems t) i r (next_pass j q) (next_place q)"
    using at consumer_counts [OF _ q u] by (simp add: t bb_at_def)
  moreover have "ring_ok (shared t) i r (next_pass j q) (next_place q)"
    using at consumer_ring [OF _ _ q u] by (simp add: t bb_at_def)
  ultimately show ?thesis
    using at next_position [OF pl j] by (simp add: bb_at_def t)
qed

lemma main_step:
  assumes at: "bb_at s m i r j q" and st: "thread_step demo_program 0 s = Some t"
  shows "bb_at t (Suc m) i r j q"
proof -
  from at have pc: "pcs s = [m, 7 * i + r, 7 * j + q]" by (simp add: bb_at_def)
  from st obtain u where m: "m < 5" and u: "effect demo_program (bb_main ! m) s = Some u"
      and t: "t = u\<lparr>pcs := [Suc m, 7 * i + r, 7 * j + q]\<rparr>" and run: "\<not> halted s"
    by (auto simp: thread_step_eq pc bb_main_def)
  have fin: "7 * i + r = 70 \<Longrightarrow> i = 10" "7 * j + q = 70 \<Longrightarrow> j = 10"
    using at by (auto simp: bb_at_def place_def)
  have mo: "main_ok s m i j" using at by (simp add: bb_at_def)
  then have live: "live s = [True, 1 \<le> m, 2 \<le> m]" and h: "halted s = (m = 5)"
    by (simp_all add: main_ok_def)
  have ends: "at_end demo_program s 1 \<Longrightarrow> i = 10" "at_end demo_program s 2 \<Longrightarrow> j = 10"
    using fin by (simp_all add: at_end_def pc)
  consider "m = 0" | "m = 1" | "m = 2" | "m = 3" | "m = 4" using m by linarith
  then have "main_ok t (Suc m) i j \<and> sems t = sems s \<and> shared t = shared s"
  proof cases
    case 1
    with u live h mo show ?thesis by (auto simp: t bb_main_def main_ok_def)
  next
    case 2
    with u live h mo show ?thesis by (auto simp: t bb_main_def main_ok_def numeral_2_eq_2)
  next
    case 3
    with u live h mo ends(1) show ?thesis by (auto simp: t bb_main_def main_ok_def split: if_splits)
  next
    case 4
    with u live h mo ends(2) show ?thesis by (auto simp: t bb_main_def main_ok_def split: if_splits)
  next
    case 5
    with u live h mo show ?thesis by (auto simp: t bb_main_def main_ok_def)
  qed
  with at show ?thesis by (simp add: bb_at_def t)
qed

lemma bb_inv_start: "bb_inv demo_start"
proof -
  have "bb_at demo_start 0 0 0 0 0"
    by (simp add: bb_defs demo_start_def start_def demo_sems_def ring0_def map_filter_def
        demo_program_def)
  then show ?thesis unfolding bb_inv_def by blast
qed

lemma bb_inv_reachable:
  assumes "steps demo_program demo_start s"
  shows "bb_inv s"
  using assms
proof (induction rule: steps_induct)
  case (step i u v)
  from step.IH obtain m a r b q where at: "bb_at u m a r b q" by (auto simp: bb_inv_def)
  from step.hyps(2) consider "i = 0" | "i = 1" | "i = 2" by fastforce
  then have "\<exists>m a r b q. bb_at v m a r b q"
  proof cases
    case 1
    with main_step [OF at] step.hyps(3) show ?thesis by (intro exI) simp
  next
    case 2
    with producer_step [OF at] step.hyps(3) show ?thesis by (intro exI) simp
  next
    case 3
    with consumer_step [OF at] step.hyps(3) show ?thesis by (intro exI) simp
  qed
  then show ?case by (simp only: bb_inv_def)
qed (rule bb_inv_start)

section \<open>No deadlock\<close>

lemma producer_can_move:
  assumes "bb_at s m i r j q" "1 \<le> m" "m < 5" "i < 10"
    "r = 0 \<longrightarrow> 0 < sems s ! empty_slots" "r = 1 \<longrightarrow> 0 < sems s ! mutex"
  shows "thread_step demo_program 1 s \<noteq> None"
proof -
  have r: "r < 7" using assms(1) by (simp add: bb_at_def place_def)
  have "effect demo_program (producer_pass i ! r) s \<noteq> None"
    using r by (cases rule: less7_cases) (use assms(5,6) in \<open>simp_all add: producer_pass_def\<close>)
  with assms(1-4) r show ?thesis
    by (simp add: thread_step_def bb_at_def main_ok_def producer_nth)
qed

lemma consumer_can_move:
  assumes "bb_at s m i r j q" "2 \<le> m" "m < 5" "j < 10"
    "q = 0 \<longrightarrow> 0 < sems s ! filled_slots" "q = 1 \<longrightarrow> 0 < sems s ! mutex"
  shows "thread_step demo_program 2 s \<noteq> None"
proof -
  have q: "q < 7" using assms(1) by (simp add: bb_at_def place_def)
  have "effect demo_program (consumer_pass j ! q) s \<noteq> None"
    using q by (cases rule: less7_cases) (use assms(5,6) in \<open>simp_all add: consumer_pass_def\<close>)
  with assms(1-4) q show ?thesis
    by (simp add: thread_step_def bb_at_def main_ok_def consumer_nth)
qed

lemma main_can_move:
  assumes "bb_at s m i r j q" "m < 5" "m = 2 \<longrightarrow> i = 10" "m = 3 \<longrightarrow> j = 10"
  shows "thread_step demo_program 0 s \<noteq> None"
proof -
  have pc: "pcs s = [m, 7 * i + r, 7 * j + q]" using assms(1) by (simp add: bb_at_def)
  have ends: "i = 10 \<Longrightarrow> at_end demo_program s 1" "j = 10 \<Longrightarrow> at_end demo_program s 2"
    using assms(1) by (auto simp: at_end_def pc bb_at_def place_def)
  consider "m = 0" | "m = 1" | "m = 2" | "m = 3" | "m = 4" using assms(2) by linarith
  then have "effect demo_program (bb_main ! m) s \<noteq> None"
    by cases (use assms ends in \<open>simp_all add: bb_main_def bb_at_def main_ok_def\<close>)
  with assms(1,2) show ?thesis
    by (simp add: thread_step_def bb_at_def main_ok_def) (simp add: bb_main_def)
qed

text \<open>
  While one of the loops goes on, one of them can move: the two semaphores cannot both be down,
  and who has the mutex is past its waits.
\<close>

lemma loops_progress:
  assumes at: "bb_at s m i r j q" and m: "2 \<le> m" "m < 5" and todo: "i < 10 \<or> j < 10"
  shows "\<not> stuck demo_program s"
proof
  assume "stuck demo_program s"
  then have none: "thread_step demo_program k s = None" if "k < 3" for k
    using that by (simp add: stuck_def list_all_iff)
  have p: "i < 10 \<Longrightarrow> r = 0 \<and> sems s ! 0 = 0 \<or> r = 1 \<and> sems s ! 2 = 0"
    using producer_can_move [OF at _ m(2)] m none [of 1] by (cases "r = 0"; cases "r = 1"; cases "sems s ! 0"; cases "sems s ! 2"; simp)
  have c: "j < 10 \<Longrightarrow> q = 0 \<and> sems s ! 1 = 0 \<or> q = 1 \<and> sems s ! 2 = 0"
    using consumer_can_move [OF at m] none [of 2] by (cases "q = 0"; cases "q = 1"; cases "sems s ! 1"; cases "sems s ! 2"; simp)
  have co: "counts_ok (sems s) i r j q" and pl: "i = 10 \<longrightarrow> r = 0" "j = 10 \<longrightarrow> q = 0"
      "i \<le> 10" "j \<le> 10"
    using at by (auto simp: bb_at_def place_def)
  show False
  proof (cases "i < 10")
    case True
    with p co c pl show False by (cases "j < 10") (auto simp: counts_ok_def nth_done_def)
  next
    case False
    with pl todo c co show False by (auto simp: counts_ok_def nth_done_def)
  qed
qed

lemma demo_no_deadlock:
  assumes "steps demo_program demo_start s" "stuck demo_program s"
  shows "finished demo_program s"
proof -
  obtain m i r j q where at: "bb_at s m i r j q"
    using bb_inv_reachable [OF assms(1)] by (auto simp: bb_inv_def)
  have none: "thread_step demo_program 0 s = None"
    using assms(2) by (simp add: stuck_def list_all_iff)
  have m: "m \<le> 5" "halted s = (m = 5)" and ij: "i \<le> 10" "j \<le> 10"
    using at by (auto simp: bb_at_def main_ok_def place_def)
  have "m = 5"
  proof (rule ccontr)
    assume "m \<noteq> 5"
    with m(1) have "m < 5" by simp
    with main_can_move [OF at] none have "m = 2 \<and> i \<noteq> 10 \<or> m = 3 \<and> j \<noteq> 10" by auto
    with ij loops_progress [OF at _ \<open>m < 5\<close>] assms(2) show False by auto
  qed
  with m show ?thesis by (simp add: finished_def)
qed

interpretation bb: progressing demo_program demo_sems ring0
  by unfold_locales (use demo_no_deadlock in \<open>simp add: demo_start_def\<close>)

section \<open>The buffer is a queue\<close>

lemma bb_queue:
  assumes "steps demo_program demo_start s"
  shows "\<exists>a b. produced s = map int [0..<a] \<and> consumed s = map int [0..<b]
    \<and> b \<le> a \<and> a \<le> b + BUFFER_SIZE \<and> a \<le> 10"
proof -
  obtain m i r j q where at: "bb_at s m i r j q"
    using bb_inv_reachable [OF assms] by (auto simp: bb_inv_def)
  have "counts_ok (sems s) i r j q" "place (7 * i + r) i r" using at by (simp_all add: bb_at_def)
  then have "nth_done j q 3 \<le> nth_done i r 3 \<and> nth_done i r 3 \<le> nth_done j q 3 + 5
      \<and> nth_done i r 3 \<le> 10"
    by (auto simp: counts_ok_def nth_done_def place_def split: if_splits)
  with at show ?thesis
    by (intro exI [of _ "nth_done i r 3"] exI [of _ "nth_done j q 3"])
      (simp add: bb_at_def ring_ok_def produced_def consumed_def)
qed

lemma bb_finished:
  assumes "steps demo_program demo_start s" "finished demo_program s"
  shows "consumed s = map int [0..<10] \<and> produced s = map int [0..<10]"
proof -
  obtain m i r j q where at: "bb_at s m i r j q"
    using bb_inv_reachable [OF assms(1)] by (auto simp: bb_inv_def)
  have "m = 5"
    using finishedD [OF assms(2), of 0] at
    by (cases "halted s") (simp_all add: bb_at_def main_ok_def at_end_def bb_main_def)
  with at have "i = 10" "r = 0" "j = 10" "q = 0"
    by (auto simp: bb_at_def main_ok_def place_def)
  with at show ?thesis
    by (simp add: bb_at_def ring_ok_def nth_done_def produced_def consumed_def)
qed

text \<open>A thread is inside when it has the mutex.\<close>

definition inside :: "ring_state sys \<Rightarrow> nat \<Rightarrow> bool" where
  "inside s k \<longleftrightarrow> 2 \<le> pcs s ! k mod 7 \<and> pcs s ! k mod 7 \<le> 5"

lemma bb_exclusion:
  assumes "steps demo_program demo_start s"
  shows "\<not> (inside s 1 \<and> inside s 2)"
proof -
  obtain m i r j q where at: "bb_at s m i r j q"
    using bb_inv_reachable [OF assms(1)] by (auto simp: bb_inv_def)
  then have "pcs s = [m, 7 * i + r, 7 * j + q]" "r < 7" "q < 7" "counts_ok (sems s) i r j q"
    by (auto simp: bb_at_def place_def)
  then show ?thesis by (auto simp: inside_def counts_ok_def nth_done_def)
qed

text \<open>The same scripts run in both programs when both names of \<open>demo2.c\<close> are new.\<close>

lemma demo2_is_demo:
  "demo2_program True = demo_program" "demo2_start True None None = demo_start"
proof -
  show p: "demo2_program True = demo_program"
    by (simp add: demo2_program_def demo_program_def demo2_main_def bb_main_def producer_def
        producer2_def consumer_def consumer2_def producer_pass_def [abs_def]
        consumer_pass_def [abs_def])
  show "demo2_start True None None = demo_start"
    by (simp only: demo2_start_def demo_start_def p)
      (simp add: demo2_sems_def demo_sems_def sem_open_creat_def)
qed

section \<open>Properties\<close>

text \<open>
  In every interleaving of the two threads what the consumer has printed is the items 0, 1,
  2, \<open>\<dots>\<close> in order, always a prefix of what the producer has printed and never more than five items
  behind, and the two are never inside the mutex together.
\<close>

theorem bounded_buffer_is_queue:
  assumes "run demo_program sched demo_start = Some s"
  shows "(\<exists>a b. produced s = map int [0..<a] \<and> consumed s = map int [0..<b]
      \<and> b \<le> a \<and> a \<le> b + BUFFER_SIZE \<and> a \<le> 10)
    \<and> \<not> (inside s 1 \<and> inside s 2)"
  using bb_queue [OF run_steps [OF assms]] bb_exclusion [OF run_steps [OF assms]] by blast

text \<open>
  The program cannot deadlock: from every state of every run it can go on to its end, a run
  that can go no further has ended, no run has more than 145 steps, and at the end all ten items
  have been produced and consumed in order.
\<close>

theorem bounded_buffer_completes:
  assumes "run demo_program sched demo_start = Some s"
  shows "(\<exists>t. steps demo_program s t \<and> finished demo_program t)
    \<and> (stuck demo_program s \<longrightarrow> finished demo_program s \<and> length sched \<le> 145)
    \<and> (finished demo_program s \<longrightarrow> produced s = map int [0..<10] \<and> consumed s = map int [0..<10])"
proof (intro conjI impI)
  note st = run_steps [OF assms]
  show "\<exists>t. steps demo_program s t \<and> finished demo_program t"
    using bb.can_finish st by (simp add: demo_start_def)
  show "finished demo_program s" if "stuck demo_program s"
    by (rule demo_no_deadlock [OF st that])
  show "length sched \<le> 145" if "stuck demo_program s"
    using bb.maximal_run_finishes [of sched s] assms that
    by (simp add: demo_start_def demo_program_def bb_main_def)
  show "produced s = map int [0..<10]" "consumed s = map int [0..<10]" if "finished demo_program s"
    using bb_finished [OF st that] by simp_all
qed

theorem bounded_buffer_completes_witness:
  "\<exists>s t. run demo_program [0, 1, 0, 1, 1] demo_start = Some s
     \<and> steps demo_program s t \<and> finished demo_program t"
proof -
  obtain s where s: "run demo_program [0, 1, 0, 1, 1] demo_start = Some s"
  proof -
    have "run demo_program [0, 1, 0, 1, 1] demo_start \<noteq> None" by code_simp
    with that show ?thesis by auto
  qed
  with bounded_buffer_completes [OF s] show ?thesis by blast
qed

text \<open>
  The version with named semaphores is the same program when both names are new.  If an earlier
  run was stopped and left \<open>/filled_slots\<close> at one, \<open>sem_open\<close> keeps that value, and the consumer
  reads and prints an item before anything has been produced; if a semaphore cannot be opened the
  program ends and neither thread runs.
\<close>

theorem named_semaphores_keep_old_values:
  "demo2_program True = demo_program \<and> demo2_start True None None = demo_start
   \<and> (\<exists>sched s. run (demo2_program True) sched (demo2_start True None (Some 1)) = Some s
        \<and> produced s = [] \<and> consumed s = [0])
   \<and> (\<exists>s. run (demo2_program False) [0] (demo2_start False e f) = Some s
        \<and> stuck (demo2_program False) s \<and> live s = [True, False, False])"
proof (intro conjI)
  have "map_option (\<lambda>s. (produced s, consumed s))
      (run (demo2_program True) [0, 0, 2, 2, 2, 2] (demo2_start True None (Some 1))) = Some ([], [0])"
    by code_simp
  then obtain s where "run (demo2_program True) [0, 0, 2, 2, 2, 2] (demo2_start True None (Some 1)) = Some s"
      "produced s = []" "consumed s = [0]"
    by auto
  then show "\<exists>sched s. run (demo2_program True) sched (demo2_start True None (Some 1)) = Some s
        \<and> produced s = [] \<and> consumed s = [0]"
    by blast
  show "\<exists>s. run (demo2_program False) [0] (demo2_start False e f) = Some s
        \<and> stuck (demo2_program False) s \<and> live s = [True, False, False]"
    by (simp add: demo2_start_def start_def demo2_program_def demo2_main_def thread_step_def
        stuck_def list_all_iff upt_rec)
qed (rule demo2_is_demo)+

text \<open>
  C13: The bounded buffer.  In every interleaving of the two threads what the consumer has printed is
  the items 0, 1, 2, \<open>\<dots>\<close> in order, always a prefix of what the producer has printed and never more
  than five items behind, and the two are never inside the mutex together.  The version with
  named semaphores is the same program when both names are new; if an earlier run left
  \<open>/filled_slots\<close> at one, \<open>sem_open\<close> keeps that value, and the consumer prints an item before anything
  has been produced; if a semaphore cannot be opened the program ends and neither thread runs.
\<close>

theorem buffer_programs:
  assumes "run demo_program sched demo_start = Some s"
  shows "(\<exists>a b. produced s = map int [0..<a] \<and> consumed s = map int [0..<b]
      \<and> b \<le> a \<and> a \<le> b + BUFFER_SIZE \<and> a \<le> 10)
    \<and> \<not> (inside s 1 \<and> inside s 2)
    \<and> (demo2_program True = demo_program \<and> demo2_start True None None = demo_start)
    \<and> (\<exists>sched s. run (demo2_program True) sched (demo2_start True None (Some 1)) = Some s
        \<and> produced s = [] \<and> consumed s = [0])
    \<and> (\<exists>s. run (demo2_program False) [0] (demo2_start False e f) = Some s
        \<and> stuck (demo2_program False) s \<and> live s = [True, False, False])"
  using bounded_buffer_is_queue [OF assms] named_semaphores_keep_old_values by blast

theorem buffer_programs_witness:
  "\<exists>s. run demo_program [0, 1, 1, 1, 1, 1, 1, 1, 0, 2, 2, 2, 2] demo_start = Some s
     \<and> produced s = [0] \<and> consumed s = [0] \<and> \<not> (inside s 1 \<and> inside s 2)"
proof -
  obtain s where s: "run demo_program [0, 1, 1, 1, 1, 1, 1, 1, 0, 2, 2, 2, 2] demo_start = Some s"
      "produced s = [0]" "consumed s = [0]"
  proof -
    have "map_option (\<lambda>s. (produced s, consumed s))
      (run demo_program [0, 1, 1, 1, 1, 1, 1, 1, 0, 2, 2, 2, 2] demo_start) = Some ([0], [0])"
      by code_simp
    with that show ?thesis by auto
  qed
  with buffer_programs [OF s(1)] show ?thesis by blast
qed

end
