(* ===== verification/ProcessSemaphores.thy ===== *)
theory ProcessSemaphores
  imports Scripts
begin

text \<open>
  The programs of two processes that meet at semaphores: \<open>4.Process/9.semaphore/demo.c\<close> and
  \<open>demo2.c\<close> (a producer and a consumer in lock step), \<open>4.Process/2.shm.c\<close> (a message in shared
  memory) and \<open>4.Process/8.thread_sem.c\<close> (System V and POSIX semaphores).  A process is a script of
  the theory \<open>Scripts\<close>, \<open>fork\<close> starts one and \<open>wait\<close> joins it; the results of the calls that can
  fail are parameters.  The programs are small, so all their states are swept.
\<close>

section \<open>A producer and a consumer in lock step\<close>

text \<open>The lines of \<open>demo.c\<close> and of \<open>demo2.c\<close>; \<open>hs_removed\<close> is whether the names have been removed.\<close>

datatype hs_line = Produced int | Consumed int

record handshake =
  hs_shared :: int
  hs_item :: int
  hs_log :: "hs_line list"
  hs_removed :: bool

definition handshake0 :: handshake where
  "handshake0 = \<lparr>hs_shared = 0, hs_item = 0, hs_log = [], hs_removed = False\<rparr>"

abbreviation (input) sem_producer :: nat where "sem_producer \<equiv> 0"
abbreviation (input) sem_consumer :: nat where "sem_consumer \<equiv> 1"

definition hs_say :: "hs_line \<Rightarrow> handshake \<Rightarrow> handshake" where
  "hs_say l g = g\<lparr>hs_log := hs_log g @ [l]\<rparr>"

definition hs_clean :: "handshake \<Rightarrow> handshake" where
  "hs_clean g = g\<lparr>hs_removed := True\<rparr>"

subsection \<open>The first version\<close>

definition hs_producer :: "handshake cmd list" where
  "hs_producer = concat (map (\<lambda>i.
     [Act (hs_say (Produced (int i + 1))),
      Post sem_consumer,
      Wait sem_producer]) [0..<5])"

definition hs_consumer :: "handshake cmd list" where
  "hs_consumer = concat (map (\<lambda>i.
     [Wait sem_consumer,
      Act (hs_say (Consumed (int i + 1))),
      Post sem_producer]) [0..<5])"

text \<open>\<open>opened\<close>: both semaphores could be opened; \<open>forked\<close>: the child could be made.\<close>

definition hs_main :: "bool \<Rightarrow> bool \<Rightarrow> handshake cmd list" where
  "hs_main opened forked =
     (if \<not> opened then []
      else if \<not> forked then []
      else Spawn 1 # hs_producer @ [Join 1, Act hs_clean])"

definition hs_program :: "bool \<Rightarrow> bool \<Rightarrow> handshake program" where
  "hs_program opened forked = [hs_main opened forked, hs_consumer]"

definition hs_sems :: "nat option \<Rightarrow> nat option \<Rightarrow> nat list" where
  "hs_sems p c = [sem_open_creat p 0, sem_open_creat c 0]"

definition hs_start :: "bool \<Rightarrow> bool \<Rightarrow> nat option \<Rightarrow> nat option \<Rightarrow> handshake sys" where
  "hs_start opened forked p c = start (hs_program opened forked) (hs_sems p c) handshake0"

subsection \<open>The version with shared memory\<close>

text \<open>
  \<open>r\<close> gives the numbers that \<open>rand\<close> returns in the parent: two in every pass, the first for the
  sleep and the second for the item.  No call is checked: if \<open>fork\<close> fails, the parent goes on
  alone, and \<open>wait\<close> returns at once.
\<close>

definition hs_random :: "(nat \<Rightarrow> int) \<Rightarrow> nat \<Rightarrow> int" where
  "hs_random r i = r (2 * i + 1) mod 100"

definition hs2_producer :: "(nat \<Rightarrow> int) \<Rightarrow> handshake cmd list" where
  "hs2_producer r = concat (map (\<lambda>i.
     [Act (\<lambda>g. g\<lparr>hs_shared := hs_random r i\<rparr>),
      Act (hs_say (Produced (hs_random r i))),
      Post sem_consumer,
      Wait sem_producer]) [0..<5])"

definition hs2_consumer :: "handshake cmd list" where
  "hs2_consumer = concat (map (\<lambda>i.
     [Wait sem_consumer,
      Act (\<lambda>g. g\<lparr>hs_item := hs_shared g\<rparr>),
      Act (\<lambda>g. hs_say (Consumed (hs_item g)) g),
      Post sem_producer]) [0..<5])"

definition hs2_main :: "bool \<Rightarrow> (nat \<Rightarrow> int) \<Rightarrow> handshake cmd list" where
  "hs2_main forked r =
     (if forked then Spawn 1 # hs2_producer r @ [Join 1, Act hs_clean]
      else hs2_producer r @ [Act hs_clean])"

definition hs2_program :: "bool \<Rightarrow> (nat \<Rightarrow> int) \<Rightarrow> handshake program" where
  "hs2_program forked r = [hs2_main forked r, hs2_consumer]"

definition hs2_start :: "bool \<Rightarrow> (nat \<Rightarrow> int) \<Rightarrow> nat option \<Rightarrow> nat option \<Rightarrow> handshake sys" where
  "hs2_start forked r p c = start (hs2_program forked r) (hs_sems p c) handshake0"

subsection \<open>Both alternate\<close>

definition alternation :: "(nat \<Rightarrow> int) \<Rightarrow> hs_line list" where
  "alternation x = concat (map (\<lambda>i. [Produced (x i), Consumed (x i)]) [0..<5])"

definition hs_good :: "(nat \<Rightarrow> int) \<Rightarrow> handshake program \<Rightarrow> handshake sys \<Rightarrow> bool" where
  "hs_good x prog s \<longleftrightarrow>
     hs_log (shared s) = take (length (hs_log (shared s))) (alternation x)
     \<and> (stuck prog s \<longrightarrow> finished prog s \<and> hs_log (shared s) = alternation x
          \<and> hs_removed (shared s))"

lemma hs_sweep:
  "sweep (hs_good (\<lambda>i. int i + 1) (hs_program True True)) (hs_program True True) 40
     [hs_start True True None None]"
  by code_simp

lemma hs2_sweep:
  "sweep (hs_good (hs_random r) (hs2_program True r)) (hs2_program True r) 50
     [hs2_start True r None None]"
  by code_simp

text \<open>A name that is new, or that an earlier run left at zero, makes no difference.\<close>

lemma hs_sems_zero:
  "sem_open_creat p 0 = 0 \<Longrightarrow> sem_open_creat c 0 = 0 \<Longrightarrow> hs_sems p c = hs_sems None None"
  by (simp add: hs_sems_def) (simp add: sem_open_creat_def)

text \<open>Calls that fail: nothing is printed or removed, or the producer waits for ever.\<close>

definition hs_silent :: "handshake sys \<Rightarrow> bool" where
  "hs_silent s \<longleftrightarrow> hs_log (shared s) = [] \<and> \<not> hs_removed (shared s)"

lemma hs_silent_sweep: "sweep hs_silent [[], hs_consumer] 2 [start [[], hs_consumer] [a, b] handshake0]"
  by code_simp

lemma hs_failed:
  assumes "run (hs_program opened forked) sched (hs_start opened forked p c) = Some s" "\<not> (opened \<and> forked)"
  shows "hs_silent s"
proof -
  have m: "hs_program opened forked = [[], hs_consumer]"
    using assms(2) by (auto simp: hs_program_def hs_main_def)
  show ?thesis
    using sweep_run [OF hs_silent_sweep] assms(1) by (simp add: hs_start_def m hs_sems_def)
qed

definition hs_alone :: "(nat \<Rightarrow> int) \<Rightarrow> handshake sys \<Rightarrow> bool" where
  "hs_alone r s \<longleftrightarrow>
     (stuck (hs2_program False r) s \<longrightarrow> \<not> finished (hs2_program False r) s
        \<and> hs_log (shared s) = [Produced (hs_random r 0)] \<and> \<not> hs_removed (shared s))"

lemma hs_alone_sweep: "sweep (hs_alone r) (hs2_program False r) 50 [hs2_start False r None None]"
  by code_simp

text \<open>A semaphore that an earlier run left above zero breaks the order.\<close>

lemma hs_leftover_consumer:
  "map_option (\<lambda>s. hs_log (shared s)) (run (hs_program True True) [0, 1, 1]
     (start (hs_program True True) [a, Suc n] handshake0)) = Some [Consumed 1]"
  by code_simp

lemma hs_leftover_producer:
  "map_option (\<lambda>s. hs_log (shared s)) (run (hs_program True True) [0, 0, 0, 0, 0]
     (start (hs_program True True) [Suc n, a] handshake0)) = Some [Produced 1, Produced 2]"
  by code_simp

section \<open>A message in shared memory\<close>

text \<open>
  \<open>2.shm.c\<close>.  The segment is given by the C string that it holds, \<open>seg_there\<close> and \<open>sem_there\<close> are
  whether the segment and the semaphore of the kernel exist; \<open>old_*\<close> are the fields of the second
  segment that \<open>old_demo\<close> makes.
\<close>

abbreviation (input) SHM_SIZE :: nat where "SHM_SIZE \<equiv> 1024"

datatype shm_line =
  Child_read string
| Parent_wrote string
| Failed string
| Exit_1
| Old_size int
| Old_text string

record shm_world =
  seg :: string
  seg_there :: bool
  sem_there :: bool
  old_seg :: string
  old_there :: bool
  old_crashed :: bool
  shm_log :: "shm_line list"

definition shm_say :: "shm_line \<Rightarrow> shm_world \<Rightarrow> shm_world" where
  "shm_say l g = g\<lparr>shm_log := shm_log g @ [l]\<rparr>"

text \<open>The results of the calls that the code checks; \<open>reattached\<close> is not checked by \<open>old_demo\<close>.\<close>

record shm_calls =
  semget_ok :: bool
  shmget_ok :: bool
  fork_ok :: bool
  shmat_child_ok :: bool
  shmdt_child_ok :: bool
  shmat_parent_ok :: bool
  shmdt_parent_ok :: bool
  shm_rmid_ok :: bool
  reattached :: bool

text \<open>
  The operations of the semaphore, and \<open>strncpy\<close> into the segment: a message shorter than the limit
  is the C string the segment then holds.
\<close>

definition shm_sem_wait :: "shm_world cmd" where
  "shm_sem_wait = Wait 0"

definition shm_sem_signal :: "shm_world cmd" where
  "shm_sem_signal = Post 0"

definition strncpy :: "nat \<Rightarrow> string \<Rightarrow> string" where
  "strncpy n s = take n s"

definition shm_message :: string where
  "shm_message = ''Hello from parent!''"

definition die :: "string \<Rightarrow> shm_world cmd list" where
  "die msg = [Act (shm_say (Failed msg)), Act (shm_say Exit_1)]"

definition shm_child :: "shm_calls \<Rightarrow> shm_world cmd list" where
  "shm_child c =
     (if \<not> shmat_child_ok c then die ''shmat failed in child''
      else
       [shm_sem_wait,
        Act (\<lambda>g. shm_say (Child_read (seg g)) g)]
       @ (if \<not> shmdt_child_ok c then die ''shmdt failed in child'' else []))"

definition old_demo :: "shm_calls \<Rightarrow> shm_world cmd list" where
  "old_demo c =
     [Act (\<lambda>g. g\<lparr>old_seg := [], old_there := True\<rparr>),
      Act (shm_say (Old_size 0x6400)),
      Act (\<lambda>g. g\<lparr>old_seg := ''Hello, world.''\<rparr>),
      Act (\<lambda>g. if reattached c then shm_say (Old_text (old_seg g)) g
               else g\<lparr>old_crashed := True\<rparr>),
      Act (\<lambda>g. if old_crashed g then g else g\<lparr>old_there := False\<rparr>)]"

definition shm_parent :: "shm_calls \<Rightarrow> shm_world cmd list" where
  "shm_parent c =
     (if \<not> shmat_parent_ok c then die ''shmat failed in parent''
      else
       [Act (\<lambda>g. g\<lparr>seg := strncpy SHM_SIZE shm_message\<rparr>),
        Act (shm_say (Parent_wrote shm_message)),
        shm_sem_signal,
        Join 1]
       @ (if \<not> shmdt_parent_ok c then die ''shmdt failed in parent''
          else if \<not> shm_rmid_ok c then die ''shmctl failed''
          else
           [Act (\<lambda>g. g\<lparr>seg_there := False\<rparr>),
            Act (\<lambda>g. g\<lparr>sem_there := False\<rparr>)]
           @ old_demo c))"

definition shm_main :: "shm_calls \<Rightarrow> shm_world cmd list" where
  "shm_main c =
     (if \<not> semget_ok c then die ''semget failed''
      else Act (\<lambda>g. g\<lparr>sem_there := True\<rparr>) #
        (if \<not> shmget_ok c then die ''shmget failed''
         else Act (\<lambda>g. g\<lparr>seg_there := True\<rparr>) #
           (if \<not> fork_ok c then die ''fork failed''
            else Spawn 1 # shm_parent c)))"

definition shm_program :: "shm_calls \<Rightarrow> shm_world program" where
  "shm_program c = [shm_main c, shm_child c]"

text \<open>\<open>old\<close> is what a segment with the key of \<open>ftok\<close> may hold from before.\<close>

definition shm_start :: "shm_calls \<Rightarrow> string \<Rightarrow> shm_world sys" where
  "shm_start c old = start (shm_program c) [0]
     \<lparr>seg = old, seg_there = False, sem_there = False, old_seg = [], old_there = False,
      old_crashed = False, shm_log = []\<rparr>"

definition shm_full :: "shm_line list" where
  "shm_full = [Parent_wrote shm_message, Child_read shm_message, Old_size 0x6400,
     Old_text ''Hello, world.'']"

definition shm_good :: "shm_calls \<Rightarrow> shm_world sys \<Rightarrow> bool" where
  "shm_good c s \<longleftrightarrow>
     shm_log (shared s) = take (length (shm_log (shared s))) shm_full
     \<and> (stuck (shm_program c) s \<longrightarrow> finished (shm_program c) s \<and> shm_log (shared s) = shm_full
          \<and> \<not> seg_there (shared s) \<and> \<not> sem_there (shared s) \<and> \<not> old_there (shared s))"

definition all_ok :: shm_calls where
  "all_ok = \<lparr>semget_ok = True, shmget_ok = True, fork_ok = True, shmat_child_ok = True,
     shmdt_child_ok = True, shmat_parent_ok = True, shmdt_parent_ok = True, shm_rmid_ok = True,
     reattached = True\<rparr>"

lemma shm_sweep: "sweep (shm_good all_ok) (shm_program all_ok) 30 [shm_start all_ok old]"
  by code_simp

text \<open>With a failed \<open>shmat\<close> of the parent the child waits for ever, and nothing is removed.\<close>

definition no_parent :: shm_calls where
  "no_parent = all_ok\<lparr>shmat_parent_ok := False\<rparr>"

definition shm_orphan :: "shm_world sys \<Rightarrow> bool" where
  "shm_orphan s \<longleftrightarrow>
     (stuck (shm_program no_parent) s \<longrightarrow> pcs s ! 1 = 0 \<and> \<not> finished (shm_program no_parent) s
        \<and> seg_there (shared s) \<and> sem_there (shared s))"

lemma shm_orphan_sweep:
  "sweep shm_orphan (shm_program no_parent) 30 [shm_start no_parent old]"
  by code_simp

section \<open>System V and POSIX semaphores\<close>

text \<open>
  \<open>8.thread_sem.c\<close>.  The child of \<open>system_v\<close> returns to \<open>main\<close> as its parent does, so it runs
  \<open>posix\<close> too: process 0 is the first one, 1 its child in \<open>system_v\<close>, 2 the child that process 1
  makes in \<open>posix\<close>, and 3 the child that process 0 makes there.  A line is printed with the process
  that prints it.  Semaphore 0 is the one of \<open>system_v\<close>, 1 the one that process 1 opens in \<open>posix\<close>
  and 2 the one that process 0 opens there.
\<close>

datatype api = System_V | POSIX

datatype ts_line =
  Banner api
| Child_waits api
| Child_goes_on api
| Parent_works api
| Parent_done api
| Removed api
| Ts_failed string

record ts_world =
  sysv_there :: bool
  posix_there :: bool
  ts_log :: "(nat \<times> ts_line) list"

record ts_calls =
  sysv_semget_ok :: bool
  sysv_fork_ok :: bool
  open_ok_0 :: bool
  fork_ok_0 :: bool
  open_ok_1 :: bool
  fork_ok_1 :: bool

definition ts_say :: "nat \<Rightarrow> ts_line \<Rightarrow> ts_world cmd" where
  "ts_say me l = Act (\<lambda>g. g\<lparr>ts_log := ts_log g @ [(me, l)]\<rparr>)"

definition m_sem_wait :: "nat \<Rightarrow> ts_world cmd" where
  "m_sem_wait semid = Wait semid"

definition m_sem_signal :: "nat \<Rightarrow> ts_world cmd" where
  "m_sem_signal semid = Post semid"

definition system_v_child :: "nat \<Rightarrow> nat \<Rightarrow> ts_world cmd list" where
  "system_v_child me semid =
     [ts_say me (Child_waits System_V),
      m_sem_wait semid,
      ts_say me (Child_goes_on System_V)]"

text \<open>
  A process that ends in \<open>exit\<close> does nothing more: \<open>rest\<close> is what follows the return from
  \<open>system_v\<close>.
\<close>

definition system_v_parent ::
  "ts_calls \<Rightarrow> nat \<Rightarrow> nat \<Rightarrow> nat \<Rightarrow> ts_world cmd list \<Rightarrow> ts_world cmd list" where
  "system_v_parent c me kid semid rest =
     (if \<not> sysv_semget_ok c then [ts_say me (Ts_failed ''semget failed'')]
      else Act (\<lambda>g. g\<lparr>sysv_there := True\<rparr>) #
        (if \<not> sysv_fork_ok c then [ts_say me (Ts_failed ''fork failed'')]
         else
          [Spawn kid,
           ts_say me (Parent_works System_V),
           ts_say me (Parent_done System_V),
           m_sem_signal semid,
           Join kid,
           Act (\<lambda>g. g\<lparr>sysv_there := False\<rparr>),
           ts_say me (Removed System_V)] @ rest))"

definition posix_child :: "nat \<Rightarrow> nat \<Rightarrow> ts_world cmd list" where
  "posix_child me sem =
     [ts_say me (Child_waits POSIX),
      Wait sem,
      ts_say me (Child_goes_on POSIX)]"

definition posix :: "bool \<Rightarrow> bool \<Rightarrow> nat \<Rightarrow> nat \<Rightarrow> nat \<Rightarrow> ts_world cmd list" where
  "posix opened forked me kid sem =
     (if \<not> opened then [ts_say me (Ts_failed ''sem_open failed'')]
      else Act (\<lambda>g. g\<lparr>posix_there := True\<rparr>) #
        (if \<not> forked then [ts_say me (Ts_failed ''fork failed'')]
         else
          [Spawn kid,
           ts_say me (Parent_works POSIX),
           ts_say me (Parent_done POSIX),
           Post sem,
           Join kid,
           Act (\<lambda>g. g\<lparr>posix_there := False\<rparr>),
           ts_say me (Removed POSIX)]))"

definition ts_main :: "ts_calls \<Rightarrow> ts_world cmd list" where
  "ts_main c = ts_say 0 (Banner System_V) #
     system_v_parent c 0 1 0
       (ts_say 0 (Banner POSIX) # posix (open_ok_0 c) (fork_ok_0 c) 0 3 2)"

definition ts_child :: "ts_calls \<Rightarrow> ts_world cmd list" where
  "ts_child c = system_v_child 1 0 @
     ts_say 1 (Banner POSIX) # posix (open_ok_1 c) (fork_ok_1 c) 1 2 1"

definition ts_program :: "ts_calls \<Rightarrow> ts_world program" where
  "ts_program c = [ts_main c, ts_child c, posix_child 2 1, posix_child 3 2]"

text \<open>
  \<open>SETVAL\<close> sets the first semaphore to zero; \<open>there\<close> is the value of a \<open>/posix_sem\<close> of an earlier
  run.  Process 0 opens it after process 1 has ended: a new one if process 1 got to \<open>sem_unlink\<close>.
\<close>

definition ts_sems :: "ts_calls \<Rightarrow> nat option \<Rightarrow> nat list" where
  "ts_sems c there = [0, sem_open_creat there 0,
     if open_ok_1 c \<and> fork_ok_1 c then sem_open_creat None 0 else sem_open_creat there 0]"

definition ts_start :: "ts_calls \<Rightarrow> nat option \<Rightarrow> ts_world sys" where
  "ts_start c there = start (ts_program c) (ts_sems c there)
     \<lparr>sysv_there = False, posix_there = False, ts_log = []\<rparr>"

definition ts_all_ok :: ts_calls where
  "ts_all_ok = \<lparr>sysv_semget_ok = True, sysv_fork_ok = True, open_ok_0 = True, fork_ok_0 = True,
     open_ok_1 = True, fork_ok_1 = True\<rparr>"

definition ts_good :: "ts_world sys \<Rightarrow> bool" where
  "ts_good s \<longleftrightarrow>
     ((1, Child_goes_on System_V) \<in> set (ts_log (shared s)) \<longrightarrow>
        (0, Parent_done System_V) \<in> set (ts_log (shared s)))
     \<and> ((2, Child_goes_on POSIX) \<in> set (ts_log (shared s)) \<longrightarrow>
        (1, Parent_done POSIX) \<in> set (ts_log (shared s)))
     \<and> ((3, Child_goes_on POSIX) \<in> set (ts_log (shared s)) \<longrightarrow>
        (0, Parent_done POSIX) \<in> set (ts_log (shared s)))
     \<and> (stuck (ts_program ts_all_ok) s \<longrightarrow> finished (ts_program ts_all_ok) s
        \<and> \<not> sysv_there (shared s) \<and> \<not> posix_there (shared s)
        \<and> [me. (me, l) \<leftarrow> ts_log (shared s), l = Banner POSIX] = [1, 0]
        \<and> [me. (me, l) \<leftarrow> ts_log (shared s), l = Child_goes_on POSIX] = [2, 3])"

lemma ts_sweep:
  "sweep ts_good (ts_program ts_all_ok) 50 [ts_start ts_all_ok None]"
  by code_simp

section \<open>Properties\<close>

lemma run_found: "map_option f (run prog sched s0) = Some y \<Longrightarrow> \<exists>sched s. run prog sched s0 = Some s \<and> f s = y"
  by (auto simp del: run.simps)

text \<open>A leftover semaphore at work: the runs of the first program that break the order.\<close>

lemma hs_leftover:
  "0 < sem_open_creat c 0 \<Longrightarrow>
     \<exists>sched s. run (hs_program True True) sched (hs_start True True p c) = Some s \<and> hs_log (shared s) = [Consumed 1]"
  "0 < sem_open_creat p 0 \<Longrightarrow>
     \<exists>sched s. run (hs_program True True) sched (hs_start True True p c) = Some s
       \<and> hs_log (shared s) = [Produced 1, Produced 2]"
proof -
  assume "0 < sem_open_creat c 0"
  then obtain n where "sem_open_creat c 0 = Suc n" by (metis Suc_pred)
  with run_found [OF hs_leftover_consumer [of "sem_open_creat p 0" n]]
  show "\<exists>sched s. run (hs_program True True) sched (hs_start True True p c) = Some s
      \<and> hs_log (shared s) = [Consumed 1]" by (simp only: hs_start_def hs_sems_def)
next
  assume "0 < sem_open_creat p 0"
  then obtain n where "sem_open_creat p 0 = Suc n" by (metis Suc_pred)
  with run_found [OF hs_leftover_producer [of n "sem_open_creat c 0"]]
  show "\<exists>sched s. run (hs_program True True) sched (hs_start True True p c) = Some s
      \<and> hs_log (shared s) = [Produced 1, Produced 2]" by (simp only: hs_start_def hs_sems_def)
qed

text \<open>
  C22: in both programs the producer and the consumer take turns, when the semaphores could be
  opened, the child could be made, and each name is new or was left at zero by an earlier run: in
  every interleaving what has been printed is a prefix of produced 1, consumed 1, produced 2, and so on (in
  \<open>demo2.c\<close> with the random items in place of the numbers, so each item is consumed as it was
  produced), and a run that can go no further has printed all of it, has ended and has removed the
  semaphores.  If a call of \<open>demo.c\<close> fails, nothing is printed and nothing removed; if the \<open>fork\<close> of
  \<open>demo2.c\<close> fails, which is not looked at, the producer waits for ever after its first item.  A
  semaphore left above zero breaks the order: there is a run in which the consumer prints first, or
  one in which the producer prints twice.
\<close>

theorem processes_take_turns:
  assumes "run (hs_program opened forked) sched (hs_start opened forked p c) = Some s"
    and "run (hs2_program forked2 r) sched2 (hs2_start forked2 r p c) = Some s2"
  shows "(sem_open_creat p 0 = 0 \<and> sem_open_creat c 0 = 0 \<longrightarrow>
      (opened \<and> forked \<longrightarrow> hs_good (\<lambda>i. int i + 1) (hs_program True True) s)
      \<and> (forked2 \<longrightarrow> hs_good (hs_random r) (hs2_program True r) s2)
      \<and> (\<not> forked2 \<longrightarrow> hs_alone r s2))
    \<and> (\<not> (opened \<and> forked) \<longrightarrow> hs_silent s)
    \<and> (0 < sem_open_creat c 0 \<longrightarrow>
        (\<exists>sched u. run (hs_program True True) sched (hs_start True True p c) = Some u
          \<and> hs_log (shared u) = [Consumed 1]))
    \<and> (0 < sem_open_creat p 0 \<longrightarrow>
        (\<exists>sched u. run (hs_program True True) sched (hs_start True True p c) = Some u
          \<and> hs_log (shared u) = [Produced 1, Produced 2]))"
proof -
  have z: "(opened \<and> forked \<longrightarrow> hs_good (\<lambda>i. int i + 1) (hs_program True True) s)
      \<and> (forked2 \<longrightarrow> hs_good (hs_random r) (hs2_program True r) s2)
      \<and> (\<not> forked2 \<longrightarrow> hs_alone r s2)"
    if "sem_open_creat p 0 = 0" "sem_open_creat c 0 = 0"
  proof (intro conjI impI)
    note z = hs_sems_zero [OF that]
    show "hs_good (\<lambda>i. int i + 1) (hs_program True True) s" if "opened \<and> forked"
      using sweep_run [OF hs_sweep, of sched s] assms(1) that by (simp only: hs_start_def z simp_thms)
    show "hs_good (hs_random r) (hs2_program True r) s2" if "forked2"
      using sweep_run [OF hs2_sweep, of r sched2 s2] assms(2) that by (simp only: hs2_start_def z simp_thms)
    show "hs_alone r s2" if "\<not> forked2"
      using sweep_run [OF hs_alone_sweep, of r sched2 s2] assms(2) that by (simp only: hs2_start_def z simp_thms)
  qed
  then show ?thesis using hs_failed [OF assms(1)] hs_leftover [of c p] hs_leftover(2) [of p c] by blast
qed

theorem processes_take_turns_witness:
  "\<exists>s s2. run (hs_program True True) [0, 0, 0, 1, 1] (hs_start True True None (Some 0)) = Some s
     \<and> run (hs2_program True (\<lambda>k. 7)) [0, 0, 0, 0, 1, 1, 1] (hs2_start True (\<lambda>k. 7) None (Some 0))
         = Some s2
     \<and> hs_log (shared s) = [Produced 1, Consumed 1] \<and> hs_log (shared s2) = [Produced 7, Consumed 7]
     \<and> hs_good (\<lambda>i. int i + 1) (hs_program True True) s"
proof -
  have "map_option (\<lambda>s. hs_log (shared s))
      (run (hs_program True True) [0, 0, 0, 1, 1] (hs_start True True None (Some 0)))
        = Some [Produced 1, Consumed 1]"
    and "map_option (\<lambda>s. hs_log (shared s))
      (run (hs2_program True (\<lambda>k. 7)) [0, 0, 0, 0, 1, 1, 1] (hs2_start True (\<lambda>k. 7) None (Some 0)))
        = Some [Produced 7, Consumed 7]"
    by code_simp+
  then obtain s s2 where
    s: "run (hs_program True True) [0, 0, 0, 1, 1] (hs_start True True None (Some 0)) = Some s"
      "hs_log (shared s) = [Produced 1, Consumed 1]"
    and s2: "run (hs2_program True (\<lambda>k. 7)) [0, 0, 0, 0, 1, 1, 1]
        (hs2_start True (\<lambda>k. 7) None (Some 0)) = Some s2"
      "hs_log (shared s2) = [Produced 7, Consumed 7]"
    by blast
  have "sem_open_creat None 0 = 0 \<and> sem_open_creat (Some 0) 0 = 0" by (simp add: sem_open_creat_def)
  with processes_take_turns [OF s(1) s2(1), THEN conjunct1] s s2 show ?thesis by blast
qed

text \<open>
  In every interleaving of \<open>2.shm.c\<close> in which no call fails, the child prints the message of the
  parent and nothing else, whatever the segment held before; then the parent alone runs the old
  demo, and at the end the semaphore and both segments have been removed.
\<close>

theorem shared_memory_message:
  assumes "run (shm_program all_ok) sched (shm_start all_ok old) = Some s"
  shows "shm_good all_ok s"
  by (rule sweep_run [OF shm_sweep assms])

text \<open>
  In every interleaving of \<open>8.thread_sem.c\<close> in which no call fails, a child goes on only after
  its parent has said that it is done, no process waits for ever and both semaphores are removed;
  and as the child of \<open>system_v\<close> returns to \<open>main\<close>, the POSIX part is run twice, first by the child
  and then by the parent.
\<close>

theorem semaphore_demo_runs_posix_twice:
  assumes "run (ts_program ts_all_ok) sched (ts_start ts_all_ok there) = Some s" "sem_open_creat there 0 = 0"
  shows "ts_good s"
proof -
  have "ts_start ts_all_ok there = ts_start ts_all_ok None"
    using assms(2) by (simp add: ts_start_def ts_sems_def) (simp add: sem_open_creat_def)
  then show ?thesis using sweep_run [OF ts_sweep] assms(1) by simp
qed

lemma ts_leftover_run:
  "map_option (\<lambda>s. ((2, Child_goes_on POSIX) \<in> set (ts_log (shared s)),
      (1, Parent_done POSIX) \<in> set (ts_log (shared s))))
    (run (ts_program ts_all_ok) [0, 0, 0, 0, 0, 0, 1, 1, 1, 1, 1, 1, 2, 2, 2]
      (start (ts_program ts_all_ok) [0, Suc n, a] \<lparr>sysv_there = False, posix_there = False, ts_log = []\<rparr>))
    = Some (True, False)"
  by code_simp

lemma ts_leftover:
  assumes "0 < sem_open_creat there 0"
  shows "\<exists>sched s. run (ts_program ts_all_ok) sched (ts_start ts_all_ok there) = Some s
    \<and> (2, Child_goes_on POSIX) \<in> set (ts_log (shared s))
    \<and> (1, Parent_done POSIX) \<notin> set (ts_log (shared s))"
proof -
  obtain n where n: "sem_open_creat there 0 = Suc n" using assms by (metis Suc_pred)
  have "ts_start ts_all_ok there = start (ts_program ts_all_ok) [0, Suc n, sem_open_creat None 0]
      \<lparr>sysv_there = False, posix_there = False, ts_log = []\<rparr>"
    by (simp add: ts_start_def ts_sems_def n) (simp add: ts_all_ok_def)
  with run_found [OF ts_leftover_run [of n "sem_open_creat None 0"]] show ?thesis by simp
qed

text \<open>
  C29: Shared memory and semaphores of processes, in every interleaving in which no call
  fails.  In \<open>2.shm.c\<close> the child prints the message of the parent and nothing else, whatever the segment
  held before; then the parent alone runs the old demo, and at the end the semaphore and both
  segments have been removed.  In \<open>8.thread_sem.c\<close>, when \<open>/posix_sem\<close> is new or was left at zero by an
  earlier run, a child goes on only after its parent has said
  that it is done, no process waits for ever and both semaphores are removed; and as the child of
  \<open>system_v\<close> returns to \<open>main\<close>, the POSIX part is run twice, first by the child and then by the parent.
  When \<open>/posix_sem\<close> was left above zero, there is a run in which a child goes on before its parent is
  done; and when \<open>shmat\<close> fails in the parent of \<open>2.shm.c\<close>, every run ends with the child waiting for
  ever and with segment and semaphore still there.
\<close>

theorem parents_and_children_synchronise:
  assumes "run (shm_program all_ok) sched (shm_start all_ok old) = Some s"
    and "run (ts_program ts_all_ok) sched2 (ts_start ts_all_ok there) = Some s2"
  shows "shm_good all_ok s
    \<and> (sem_open_creat there 0 = 0 \<longrightarrow> ts_good s2)
    \<and> (0 < sem_open_creat there 0 \<longrightarrow>
        (\<exists>sched u. run (ts_program ts_all_ok) sched (ts_start ts_all_ok there) = Some u
          \<and> (2, Child_goes_on POSIX) \<in> set (ts_log (shared u))
          \<and> (1, Parent_done POSIX) \<notin> set (ts_log (shared u))))
    \<and> (\<forall>sched u. run (shm_program no_parent) sched (shm_start no_parent old) = Some u \<longrightarrow> shm_orphan u)"
  using shared_memory_message [OF assms(1)] semaphore_demo_runs_posix_twice [OF assms(2)] ts_leftover
    sweep_run [OF shm_orphan_sweep] by blast

theorem parents_and_children_synchronise_witness:
  "\<exists>s s2. run (shm_program all_ok) [0, 0, 0, 0, 0, 0, 1, 1] (shm_start all_ok ''x'') = Some s
     \<and> shm_log (shared s) = [Parent_wrote shm_message, Child_read shm_message] \<and> shm_good all_ok s
     \<and> run (ts_program ts_all_ok) [0, 0, 0, 0, 0, 0, 1, 1, 1] (ts_start ts_all_ok None) = Some s2
     \<and> (1, Child_goes_on System_V) \<in> set (ts_log (shared s2)) \<and> ts_good s2"
proof -
  have "map_option (\<lambda>s. shm_log (shared s))
      (run (shm_program all_ok) [0, 0, 0, 0, 0, 0, 1, 1] (shm_start all_ok ''x''))
        = Some [Parent_wrote shm_message, Child_read shm_message]"
    and "map_option (\<lambda>s. (1, Child_goes_on System_V) \<in> set (ts_log (shared s)))
      (run (ts_program ts_all_ok) [0, 0, 0, 0, 0, 0, 1, 1, 1] (ts_start ts_all_ok None)) = Some True"
    by code_simp+
  then obtain s s2 where
    s: "run (shm_program all_ok) [0, 0, 0, 0, 0, 0, 1, 1] (shm_start all_ok ''x'') = Some s"
      "shm_log (shared s) = [Parent_wrote shm_message, Child_read shm_message]"
    and s2: "run (ts_program ts_all_ok) [0, 0, 0, 0, 0, 0, 1, 1, 1] (ts_start ts_all_ok None) = Some s2"
      "(1, Child_goes_on System_V) \<in> set (ts_log (shared s2))"
    by blast
  note p = parents_and_children_synchronise [OF s(1) s2(1)]
  have "sem_open_creat None 0 = 0" by (simp add: sem_open_creat_def)
  with p [THEN conjunct1] p [THEN conjunct2, THEN conjunct1] s s2 show ?thesis by blast
qed

end
