(* ===== verification/ThreadDemos.thy ===== *)
theory ThreadDemos
  imports Scripts
begin

text \<open>
  The small programs of several threads, as scripts of the theory \<open>Scripts\<close>:
  \<open>3.Thread/2.mutex/1.thread_mutex.c\<close>, \<open>3.Thread/4.semaphore/semaphore.c\<close>,
  \<open>3.Thread/1.create_stop/1.thread_create.c\<close>, \<open>2.thread_stop.c\<close> and \<open>3.thread_join.c\<close>.  All their
  states are swept.
\<close>

section \<open>Two threads print under a mutex\<close>

text \<open>
  \<open>1.thread_mutex.c\<close>: a line is given by the number of its thread (the handle that \<open>pthread_self\<close>
  returns stands for it), \<open>retval\<close> is what a thread has returned, \<open>retval_main\<close> what \<open>pthread_join\<close>
  has handed to \<open>main\<close>.
\<close>

datatype mx_line =
  I_am_thread nat
| Tid_is nat
| Retval_is nat nat
| Perror_pthread_create

record mx_world =
  retval :: "nat list"
  retval_main :: "nat list"
  mx_log :: "mx_line list"

definition mx_say :: "mx_line \<Rightarrow> mx_world cmd" where
  "mx_say l = Act (\<lambda>g. g\<lparr>mx_log := mx_log g @ [l]\<rparr>)"

definition return_val :: "nat \<Rightarrow> nat \<Rightarrow> mx_world cmd" where
  "return_val t v = Act (\<lambda>g. g\<lparr>retval := (retval g)[t := v]\<rparr>)"

definition printVal :: "nat \<Rightarrow> mx_world cmd list" where
  "printVal num =
     [Wait 0,
      mx_say (I_am_thread num)]
     @ concat (map (\<lambda>i. [mx_say (Tid_is num)]) [0..<10])
     @ [Post 0]"

definition mx_run_1 :: "mx_world cmd list" where
  "mx_run_1 = printVal 1 @ [return_val 1 1]"

definition mx_run_2 :: "mx_world cmd list" where
  "mx_run_2 = printVal 2 @ [return_val 2 2]"

definition join_val :: "nat \<Rightarrow> mx_world cmd list" where
  "join_val t = [Join t, Act (\<lambda>g. g\<lparr>retval_main := (retval_main g)[t := retval g ! t]\<rparr>)]"

definition print_retval :: "nat \<Rightarrow> mx_world cmd" where
  "print_retval t = Act (\<lambda>g. g\<lparr>mx_log := mx_log g @ [Retval_is t (retval_main g ! t)]\<rparr>)"

text \<open>\<open>ok1\<close> and \<open>ok2\<close>: \<open>pthread_create\<close> returns zero.  A return from \<open>main\<close> ends all threads.\<close>

definition mx_main :: "bool \<Rightarrow> bool \<Rightarrow> mx_world cmd list" where
  "mx_main ok1 ok2 =
     (if \<not> ok1 then [mx_say Perror_pthread_create, Halt]
      else Spawn 1 #
        (if \<not> ok2 then [mx_say Perror_pthread_create, Halt]
         else
          [Spawn 2] @ join_val 1 @ join_val 2 @ [print_retval 1, print_retval 2, Halt]))"

definition mx_program :: "bool \<Rightarrow> bool \<Rightarrow> mx_world program" where
  "mx_program ok1 ok2 = [mx_main ok1 ok2, mx_run_1, mx_run_2]"

definition mx_world0 :: mx_world where
  "mx_world0 = \<lparr>retval = [0, 0, 0], retval_main = [0, 0, 0], mx_log = []\<rparr>"

definition mx_start :: "bool \<Rightarrow> bool \<Rightarrow> mx_world sys" where
  "mx_start ok1 ok2 = start (mx_program ok1 ok2) [1] mx_world0"

definition block :: "nat \<Rightarrow> mx_line list" where
  "block t = I_am_thread t # replicate 10 (Tid_is t)"

definition mx_orders :: "mx_line list list" where
  "mx_orders = [block 1 @ block 2 @ [Retval_is 1 1, Retval_is 2 2],
                block 2 @ block 1 @ [Retval_is 1 1, Retval_is 2 2]]"

definition mx_good :: "mx_world sys \<Rightarrow> bool" where
  "mx_good s \<longleftrightarrow>
     list_ex (\<lambda>l. mx_log (shared s) = take (length (mx_log (shared s))) l) mx_orders
     \<and> (stuck (mx_program True True) s \<longrightarrow> finished (mx_program True True) s
          \<and> mx_log (shared s) \<in> set mx_orders)"

lemma mx_sweep: "sweep mx_good (mx_program True True) 60 [mx_start True True]"
  by code_simp

section \<open>Two threads in a critical section of a semaphore\<close>

text \<open>\<open>semaphore.c\<close>: a line is printed by thread 1 or 2.\<close>

datatype cs_line = Entered nat | Just_exiting nat

definition cs_say :: "cs_line \<Rightarrow> cs_line list cmd" where
  "cs_say l = Act (\<lambda>g. g @ [l])"

definition cs_thread :: "nat \<Rightarrow> cs_line list cmd list" where
  "cs_thread t =
     [Wait 0,
      cs_say (Entered t),
      cs_say (Just_exiting t),
      Post 0]"

definition cs_main :: "cs_line list cmd list" where
  "cs_main = [Spawn 1, Spawn 2, Join 1, Join 2, Halt]"

definition cs_program :: "cs_line list program" where
  "cs_program = [cs_main, cs_thread 1, cs_thread 2]"

definition cs_start :: "cs_line list sys" where
  "cs_start = start cs_program [1] []"

definition cs_orders :: "cs_line list list" where
  "cs_orders = [[Entered 1, Just_exiting 1, Entered 2, Just_exiting 2],
                [Entered 2, Just_exiting 2, Entered 1, Just_exiting 1]]"

definition cs_good :: "cs_line list sys \<Rightarrow> bool" where
  "cs_good s \<longleftrightarrow>
     list_ex (\<lambda>l. shared s = take (length (shared s)) l) cs_orders
     \<and> (stuck cs_program s \<longrightarrow> finished cs_program s \<and> shared s \<in> set cs_orders)"

lemma cs_sweep: "sweep cs_good cs_program 30 [cs_start]"
  by code_simp

section \<open>Threads that are joined for their result\<close>

text \<open>
  \<open>3.thread_join.c\<close>: what each thread prints is a list of its own, as the order between threads is
  left open; the lines of \<open>main\<close> are the two results.
\<close>

record jn_world =
  jn_loops_1 :: "nat list"
  jn_loops_2 :: "nat list"
  jn_ret :: "nat list"
  jn_ret_main :: "nat list"
  jn_results :: "nat list"

definition jn_run_1 :: "jn_world cmd list" where
  "jn_run_1 = map (\<lambda>k. Act (\<lambda>g. g\<lparr>jn_loops_1 := jn_loops_1 g @ [k]\<rparr>)) [0..<10]
     @ [Act (\<lambda>g. g\<lparr>jn_ret := (jn_ret g)[1 := 1]\<rparr>)]"

definition jn_run_2 :: "jn_world cmd list" where
  "jn_run_2 = map (\<lambda>k. Act (\<lambda>g. g\<lparr>jn_loops_2 := jn_loops_2 g @ [k]\<rparr>)) [0..<3]
     @ [Act (\<lambda>g. g\<lparr>jn_ret := (jn_ret g)[2 := 2]\<rparr>)]"

definition jn_main :: "jn_world cmd list" where
  "jn_main = [Spawn 1, Spawn 2]
     @ [Join 1, Act (\<lambda>g. g\<lparr>jn_ret_main := (jn_ret_main g)[1 := jn_ret g ! 1]\<rparr>)]
     @ [Join 2, Act (\<lambda>g. g\<lparr>jn_ret_main := (jn_ret_main g)[2 := jn_ret g ! 2]\<rparr>)]
     @ map (\<lambda>t. Act (\<lambda>g. g\<lparr>jn_results := jn_results g @ [jn_ret_main g ! t]\<rparr>)) [1, 2]
     @ [Halt]"

definition jn_program :: "jn_world program" where
  "jn_program = [jn_main, jn_run_1, jn_run_2]"

definition jn_world0 :: jn_world where
  "jn_world0 = \<lparr>jn_loops_1 = [], jn_loops_2 = [], jn_ret = [0, 0, 0], jn_ret_main = [0, 0, 0],
     jn_results = []\<rparr>"

definition jn_start :: "jn_world sys" where
  "jn_start = start jn_program [] jn_world0"

definition jn_good :: "jn_world sys \<Rightarrow> bool" where
  "jn_good s \<longleftrightarrow>
     (jn_results (shared s) = take (length (jn_results (shared s))) [1, 2])
     \<and> (jn_results (shared s) \<noteq> [] \<longrightarrow>
          jn_loops_1 (shared s) = [0..<10] \<and> jn_loops_2 (shared s) = [0..<3])
     \<and> (stuck jn_program s \<longrightarrow> finished jn_program s \<and> jn_results (shared s) = [1, 2])"

lemma jn_sweep: "sweep jn_good jn_program 40 [jn_start]"
  by code_simp

section \<open>Threads that are not joined\<close>

text \<open>
  \<open>1.thread_create.c\<close> and \<open>2.thread_stop.c\<close>: \<open>main\<close> sleeps in place of a join, which sets no order,
  and its return ends the threads.  A line is the number of the thread that prints it, 0 for
  \<open>main\<close>; behind the return of \<open>run1\<close> and the \<open>pthread_exit\<close> of \<open>run2\<close> nothing is reached.
\<close>

definition nj_print :: "nat \<Rightarrow> nat list cmd" where
  "nj_print t = Act (\<lambda>g. g @ [t])"

definition create_run_1 :: "nat list cmd list" where
  "create_run_1 = [nj_print 1]"

definition create_run_2 :: "nat list cmd list" where
  "create_run_2 = [nj_print 2]"

text \<open>\<open>99\<close> stands for the message of \<open>perror\<close>.\<close>

definition create_main :: "bool \<Rightarrow> bool \<Rightarrow> nat list cmd list" where
  "create_main ok1 ok2 =
     (if \<not> ok1 then [nj_print 99, Halt]
      else Spawn 1 #
        (if \<not> ok2 then [nj_print 99, Halt]
         else [Spawn 2, nj_print 0, Halt]))"

definition create_program :: "bool \<Rightarrow> bool \<Rightarrow> nat list program" where
  "create_program ok1 ok2 = [create_main ok1 ok2, create_run_1, create_run_2]"

definition stop_run1 :: "nat list cmd list" where
  "stop_run1 = [nj_print 1]"

definition stop_run2 :: "nat list cmd list" where
  "stop_run2 = [nj_print 2]"

definition stop_main :: "nat list cmd list" where
  "stop_main = [Spawn 1, Spawn 2, nj_print 0, Halt]"

definition stop_program :: "nat list program" where
  "stop_program = [stop_main, stop_run1, stop_run2]"

definition nj_good :: "nat list program \<Rightarrow> nat list sys \<Rightarrow> bool" where
  "nj_good prog s \<longleftrightarrow> distinct (shared s) \<and> set (shared s) \<subseteq> {0, 1, 2}
     \<and> (stuck prog s \<longrightarrow> halted s \<and> 0 \<in> set (shared s))"

lemma nj_sweep:
  "sweep (nj_good (create_program True True)) (create_program True True) 20
     [start (create_program True True) [] []]"
  "sweep (nj_good stop_program) stop_program 20 [start stop_program [] []]"
  by code_simp+

text \<open>Every set of threads can get to print before \<open>main\<close> returns, the empty one included.\<close>

lemma nj_lost:
  "map_option shared (run stop_program [0, 0, 0, 0] (start stop_program [] [])) = Some [0]"
  "map_option shared (run stop_program [0, 1, 0, 0, 0] (start stop_program [] [])) = Some [1, 0]"
  "map_option shared (run stop_program [0, 0, 2, 0, 1, 0] (start stop_program [] []))
     = Some [2, 0, 1]"
  by code_simp+

section \<open>Properties\<close>

text \<open>
  What two threads print inside a mutex or a semaphore that starts at one is never mixed: in
  every interleaving of \<open>1.thread_mutex.c\<close> the eleven lines of one thread come before those of
  the other and the results 1 and 2 after both, and likewise the two lines of \<open>semaphore.c\<close>; and no
  run of either waits for ever.
\<close>

theorem critical_sections_do_not_mix:
  assumes "run (mx_program True True) sched (mx_start True True) = Some s"
    and "run cs_program sched2 cs_start = Some s2"
  shows "mx_good s \<and> cs_good s2"
  using sweep_run [OF mx_sweep assms(1)] sweep_run [OF cs_sweep assms(2)] by simp

text \<open>
  \<open>pthread_join\<close> waits and hands over the result: in every interleaving of \<open>3.thread_join.c\<close>
  \<open>main\<close> prints 1 and 2, in this order, and only after both threads have printed all their lines.
  Where \<open>main\<close> only sleeps (\<open>2.thread_stop.c\<close>, and \<open>1.thread_create.c\<close> has the same shape) nothing
  is printed twice and every run ends, but a run can end before any thread has printed.
\<close>

theorem join_waits_for_results:
  assumes "run jn_program sched jn_start = Some s"
    and "run stop_program sched2 (start stop_program [] []) = Some s2"
    and "run (create_program True True) sched3 (start (create_program True True) [] []) = Some s3"
  shows "jn_good s \<and> nj_good stop_program s2 \<and> nj_good (create_program True True) s3
    \<and> (\<exists>sched s. run stop_program sched (start stop_program [] []) = Some s
         \<and> finished stop_program s \<and> shared s = [0])"
proof -
  have "map_option (\<lambda>s. (finished stop_program s, shared s))
      (run stop_program [0, 0, 0, 0] (start stop_program [] [])) = Some (True, [0])"
    by code_simp
  then have "\<exists>sched s. run stop_program sched (start stop_program [] []) = Some s
         \<and> finished stop_program s \<and> shared s = [0]"
    by (intro exI [of _ "[0, 0, 0, 0]"]) auto
  with sweep_run [OF jn_sweep assms(1)] sweep_run [OF nj_sweep(2) assms(2)]
    sweep_run [OF nj_sweep(1) assms(3)]
  show ?thesis by blast
qed

text \<open>
  C24: Threads that print, in every interleaving.  What two threads print inside a mutex
  or a semaphore that starts at one is never mixed: the eleven lines of one thread of
  \<open>1.thread_mutex.c\<close> come before those of the other and the results 1 and 2 after both, and likewise
  the two lines of \<open>semaphore.c\<close>.  \<open>pthread_join\<close> waits and hands over the result: \<open>3.thread_join.c\<close> prints 1
  and 2, in this order, and only after both threads have printed all their lines.  Where \<open>main\<close>
  only sleeps (\<open>2.thread_stop.c\<close>, \<open>1.thread_create.c\<close>) nothing is printed twice, but a run can end before
  any thread has printed: \<open>sleep\<close> is any delay here, as it sets no upper bound on when another thread
  runs, although the comments there say that the two seconds of \<open>main\<close> make it the last.  No run of any
  of the programs waits for ever.
\<close>

theorem printing_threads:
  assumes "run (mx_program True True) sched (mx_start True True) = Some m"
    and "run cs_program sched' cs_start = Some c" and "run jn_program sched1 jn_start = Some s"
    and "run stop_program sched2 (start stop_program [] []) = Some s2"
    and "run (create_program True True) sched3 (start (create_program True True) [] []) = Some s3"
  shows "mx_good m
    \<and> cs_good c
    \<and> jn_good s
    \<and> nj_good stop_program s2
    \<and> (nj_good (create_program True True) s3)
    \<and> (\<exists>sched s. run stop_program sched (start stop_program [] []) = Some s
         \<and> finished stop_program s \<and> shared s = [0])"
  using critical_sections_do_not_mix [OF assms(1,2)] join_waits_for_results [OF assms(3-5)] by blast

theorem printing_threads_witness:
  "\<exists>m c s. run (mx_program True True) [0, 0, 2, 2, 1] (mx_start True True) = None
     \<and> run (mx_program True True) [0, 0, 2, 2, 2] (mx_start True True) = Some m
     \<and> mx_log (shared m) = [I_am_thread 2, Tid_is 2] \<and> mx_good m
     \<and> run cs_program [0, 0, 2, 2, 2, 2, 1, 1] cs_start = Some c
     \<and> shared c = [Entered 2, Just_exiting 2, Entered 1] \<and> cs_good c
     \<and> run jn_program [0, 0, 1, 2] jn_start = Some s \<and> jn_loops_1 (shared s) = [0] \<and> jn_good s"
proof -
  have blocked: "run (mx_program True True) [0, 0, 2, 2, 1] (mx_start True True) = None"
    by code_simp
  have "map_option (\<lambda>s. mx_log (shared s))
      (run (mx_program True True) [0, 0, 2, 2, 2] (mx_start True True))
        = Some [I_am_thread 2, Tid_is 2]"
    and "map_option shared (run cs_program [0, 0, 2, 2, 2, 2, 1, 1] cs_start)
        = Some [Entered 2, Just_exiting 2, Entered 1]"
    and "map_option (\<lambda>s. jn_loops_1 (shared s)) (run jn_program [0, 0, 1, 2] jn_start) = Some [0]"
    and "run (create_program True True) [0, 0, 2, 0]
      (start (create_program True True) [] []) \<noteq> None"
    by code_simp+
  with nj_lost(2) obtain m c s s2 s3 where
    m: "run (mx_program True True) [0, 0, 2, 2, 2] (mx_start True True) = Some m"
      "mx_log (shared m) = [I_am_thread 2, Tid_is 2]"
    and c: "run cs_program [0, 0, 2, 2, 2, 2, 1, 1] cs_start = Some c"
      "shared c = [Entered 2, Just_exiting 2, Entered 1]"
    and s: "run jn_program [0, 0, 1, 2] jn_start = Some s" "jn_loops_1 (shared s) = [0]"
    and s2: "run stop_program [0, 1, 0, 0, 0] (start stop_program [] []) = Some s2"
    and s3: "run (create_program True True) [0, 0, 2, 0]
      (start (create_program True True) [] []) = Some s3"
    by blast
  note p = printing_threads [OF m(1) c(1) s(1) s2 s3]
  show ?thesis using p blocked m c s by blast
qed

end
