(* ===== verification/AtomicDemos.thy ===== *)
theory AtomicDemos
  imports Scripts "HOL-Library.Word" "HOL-Library.Multiset"
begin

text \<open>
  The programs with atomic operations: \<open>8.atomic_ops/libc_demo/demo.c\<close> (C11 atomics, twelve threads
  in three groups) and \<open>8.atomic_ops/gcc_demo/demo.c\<close> (the builtins of GCC, two threads).  An
  atomic operation is one action.  The loops are too long to sweep, so what a group of threads has
  done is read off the positions of its threads.
\<close>

unbundle bit_operations_syntax

section \<open>C11 atomics\<close>

text \<open>
  The three atomic variables, what each thread keeps in its local \<open>expected\<close> and \<open>old_ptr\<close> (by the
  number of the thread), and the lines printed.
\<close>

datatype at_line =
  Final_counter int
| Set_flag nat
| Saw_flag nat
| Changed_ptr nat int int

record at_world =
  counter :: "32 word"
  flag :: bool
  shared_ptr :: int
  won :: "nat \<Rightarrow> bool"
  old_ptr :: "nat \<Rightarrow> int"
  at_log :: "at_line list"

definition fetch_add :: "at_world \<Rightarrow> at_world" where
  "fetch_add g = g\<lparr>counter := counter g + 1\<rparr>"

definition compare_exchange :: "nat \<Rightarrow> at_world \<Rightarrow> at_world" where
  "compare_exchange t g =
     (if flag g = False then g\<lparr>flag := True, won := (won g)(t := True)\<rparr>
      else g\<lparr>won := (won g)(t := False)\<rparr>)"

definition say_flag :: "nat \<Rightarrow> at_world \<Rightarrow> at_world" where
  "say_flag t g = g\<lparr>at_log := at_log g @ [if won g t then Set_flag t else Saw_flag t]\<rparr>"

definition exchange :: "nat \<Rightarrow> int \<Rightarrow> at_world \<Rightarrow> at_world" where
  "exchange t v g = g\<lparr>old_ptr := (old_ptr g)(t := shared_ptr g), shared_ptr := v\<rparr>"

definition say_ptr :: "nat \<Rightarrow> int \<Rightarrow> at_world \<Rightarrow> at_world" where
  "say_ptr t v g = g\<lparr>at_log := at_log g @ [Changed_ptr t (old_ptr g t) v]\<rparr>"

definition say_counter :: "at_world \<Rightarrow> at_world" where
  "say_counter g = g\<lparr>at_log := at_log g @ [Final_counter (sint (counter g))]\<rparr>"

definition increment_counter :: "at_world cmd list" where
  "increment_counter = map (\<lambda>i. Act fetch_add) [0..<1000]"

definition set_flag_once :: "nat \<Rightarrow> at_world cmd list" where
  "set_flag_once t = [Act (compare_exchange t), Act (say_flag t)]"

definition exchange_pointer :: "nat \<Rightarrow> int \<Rightarrow> at_world cmd list" where
  "exchange_pointer t arg = [Act (exchange t arg), Act (say_ptr t arg)]"

text \<open>
  \<open>THREAD_COUNT\<close> threads in every group: 1 to 4 increment, 5 to 8 set the flag, 9 to 12 exchange
  the pointer.
\<close>

abbreviation (input) THREAD_COUNT :: nat where "THREAD_COUNT \<equiv> 4"

definition group :: "nat \<Rightarrow> at_world cmd list" where
  "group n = map (\<lambda>i. Spawn (n + i)) [0..<THREAD_COUNT] @ map (\<lambda>i. Join (n + i)) [0..<THREAD_COUNT]"

definition at_main :: "at_world cmd list" where
  "at_main = group 1 @ [Act say_counter] @ group 5 @ group 9 @ [Halt]"

definition at_program :: "at_world program" where
  "at_program = at_main #
     map (\<lambda>i. increment_counter) [0..<THREAD_COUNT] @
     map (\<lambda>i. set_flag_once (5 + i)) [0..<THREAD_COUNT] @
     map (\<lambda>i. exchange_pointer (9 + i) (int i + 100)) [0..<THREAD_COUNT]"

definition at_world0 :: at_world where
  "at_world0 = \<lparr>counter = 0, flag = False, shared_ptr = 0, won = (\<lambda>_. False),
     old_ptr = (\<lambda>_. 0), at_log = []\<rparr>"

definition at_start :: "at_world sys" where
  "at_start = start at_program [] at_world0"

subsection \<open>The steps of its threads\<close>

lemma at_program_length [simp]: "length at_program = 13"
  by (simp add: at_program_def)

lemma at_main_eq:
  "at_main = [Spawn 1, Spawn 2, Spawn 3, Spawn 4, Join 1, Join 2, Join 3, Join 4, Act say_counter,
     Spawn 5, Spawn 6, Spawn 7, Spawn 8, Join 5, Join 6, Join 7, Join 8,
     Spawn 9, Spawn 10, Spawn 11, Spawn 12, Join 9, Join 10, Join 11, Join 12, Halt]"
  by (simp add: at_main_def group_def upt_rec)

lemma at_program_eq:
  "at_program = [at_main, increment_counter, increment_counter, increment_counter,
     increment_counter, set_flag_once 5, set_flag_once 6, set_flag_once 7, set_flag_once 8,
     exchange_pointer 9 100, exchange_pointer 10 101, exchange_pointer 11 102,
     exchange_pointer 12 103]"
  by (simp add: at_program_def upt_rec)

lemma at_program_nth:
  "at_program ! 0 = at_main"
  "1 \<le> i \<Longrightarrow> i < 5 \<Longrightarrow> at_program ! i = increment_counter"
  "5 \<le> i \<Longrightarrow> i < 9 \<Longrightarrow> at_program ! i = set_flag_once i"
  "9 \<le> i \<Longrightarrow> i < 13 \<Longrightarrow> at_program ! i = exchange_pointer i (int i + 91)"
proof -
  show "at_program ! 0 = at_main" by (simp add: at_program_eq)
  show "at_program ! i = increment_counter" if "1 \<le> i" "i < 5"
  proof -
    from that have "i = 1 \<or> i = 2 \<or> i = 3 \<or> i = 4" by linarith
    then show ?thesis by (auto simp: at_program_eq)
  qed
  show "at_program ! i = set_flag_once i" if "5 \<le> i" "i < 9"
  proof -
    from that have "i = 5 \<or> i = 6 \<or> i = 7 \<or> i = 8" by linarith
    then show ?thesis by (auto simp: at_program_eq)
  qed
  show "at_program ! i = exchange_pointer i (int i + 91)" if "9 \<le> i" "i < 13"
  proof -
    from that have "i = 9 \<or> i = 10 \<or> i = 11 \<or> i = 12" by linarith
    then show ?thesis by (auto simp: at_program_eq)
  qed
qed

lemma at_main_act: "k < 26 \<Longrightarrow> k = 8 \<or> \<not> is_act (at_main ! k)"
proof -
  have "list_all (\<lambda>k. k = 8 \<or> \<not> is_act (at_main ! k)) [0..<26]" by code_simp
  then show "k < 26 \<Longrightarrow> k = 8 \<or> \<not> is_act (at_main ! k)" by (simp add: list_all_iff)
qed

lemma at_step:
  assumes i: "i < 13" and st: "thread_step at_program i s = Some t"
  obtains (main) "i = 0" "shared t = (if pcs s ! 0 = 8 then say_counter (shared s) else shared s)"
  | (increment) "1 \<le> i" "i < 5" "pcs s ! i < 1000" "shared t = fetch_add (shared s)"
  | (cas) "5 \<le> i" "i < 9" "pcs s ! i = 0" "shared t = compare_exchange i (shared s)"
  | (cas_print) "5 \<le> i" "i < 9" "pcs s ! i = 1" "shared t = say_flag i (shared s)"
  | (swap) "9 \<le> i" "i < 13" "pcs s ! i = 0" "shared t = exchange i (int i + 91) (shared s)"
  | (swap_print) "9 \<le> i" "i < 13" "pcs s ! i = 1"
      "shared t = say_ptr i (int i + 91) (shared s)"
proof -
  from st obtain u where lt: "pcs s ! i < length (at_program ! i)"
      and u: "effect at_program (at_program ! i ! (pcs s ! i)) s = Some u"
      and t: "shared t = shared u"
    by (auto simp: thread_step_eq)
  consider "i = 0" | "1 \<le> i" "i < 5" | "5 \<le> i" "i < 9" | "9 \<le> i" "i < 13"
    using i by linarith
  then show thesis
  proof cases
    case 1
    have k: "pcs s ! 0 < 26" using lt 1 by (simp add: at_program_nth at_main_eq)
    show thesis
    proof (cases "pcs s ! 0 = 8")
      case True
      with u 1 have "shared u = say_counter (shared s)"
        by (auto simp: at_program_nth at_main_eq)
      with True t 1 main show thesis by simp
    next
      case False
      with at_main_act [OF k] effect_shared [OF u] 1 have "shared u = shared s"
        by (simp add: at_program_nth)
      with False t 1 main show thesis by simp
    qed
  next
    case 2
    with lt u t increment show thesis
      by (auto simp: at_program_nth increment_counter_def)
  next
    case 3
    with lt have "pcs s ! i = 0 \<or> pcs s ! i = 1"
      by (auto simp: at_program_nth set_flag_once_def)
    with 3 u t cas cas_print show thesis
      by (auto simp: at_program_nth set_flag_once_def)
  next
    case 4
    with lt have "pcs s ! i = 0 \<or> pcs s ! i = 1"
      by (auto simp: at_program_nth exchange_pointer_def)
    with 4 u t swap swap_print show thesis
      by (auto simp: at_program_nth exchange_pointer_def)
  qed
qed

subsection \<open>The invariant\<close>

text \<open>
  The counter is the number of increments done; the flag is set exactly when one of its threads has
  won; the old values of the threads that have exchanged and the value of the pointer are together
  the first value and all that have been written.
\<close>

definition at_counter_inv :: "at_world sys \<Rightarrow> bool" where
  "at_counter_inv s \<longleftrightarrow>
     counter (shared s) = of_nat (pcs s ! 1 + pcs s ! 2 + pcs s ! 3 + pcs s ! 4)"

definition at_winner :: "at_world sys \<Rightarrow> nat \<Rightarrow> bool" where
  "at_winner s w \<longleftrightarrow> 5 \<le> w \<and> w < 9 \<and> 1 \<le> pcs s ! w
     \<and> (\<forall>i. 5 \<le> i \<longrightarrow> i < 9 \<longrightarrow> 1 \<le> pcs s ! i \<longrightarrow> won (shared s) i = (i = w))
     \<and> (\<forall>i. Set_flag i \<in> set (at_log (shared s)) \<longrightarrow> i = w)"

definition at_no_winner :: "at_world sys \<Rightarrow> bool" where
  "at_no_winner s \<longleftrightarrow> (\<forall>i. 5 \<le> i \<longrightarrow> i < 9 \<longrightarrow> pcs s ! i = 0)
     \<and> (\<forall>i. Set_flag i \<notin> set (at_log (shared s)))"

definition at_lines :: "at_world sys \<Rightarrow> bool" where
  "at_lines s \<longleftrightarrow> (\<forall>i. 5 \<le> i \<longrightarrow> i < 9 \<longrightarrow> pcs s ! i = 2 \<longrightarrow>
     (if won (shared s) i then Set_flag i else Saw_flag i) \<in> set (at_log (shared s)))"

definition at_flag_inv :: "at_world sys \<Rightarrow> bool" where
  "at_flag_inv s \<longleftrightarrow>
     (if flag (shared s) then \<exists>w. at_winner s w else at_no_winner s) \<and> at_lines s"

definition swapped :: "at_world sys \<Rightarrow> nat set" where
  "swapped s = {i. 9 \<le> i \<and> i < 13 \<and> 1 \<le> pcs s ! i}"

definition at_ptr_inv :: "at_world sys \<Rightarrow> bool" where
  "at_ptr_inv s \<longleftrightarrow>
     image_mset (old_ptr (shared s)) (mset_set (swapped s)) + {#shared_ptr (shared s)#}
       = {#0#} + image_mset (\<lambda>i. int i + 91) (mset_set (swapped s))"

lemma at_wf: "steps at_program at_start s \<Longrightarrow> wf_sys at_program 0 s"
  using wf_steps [OF _ wf_start] by (fastforce simp: at_start_def)

lemma at_pcs_step:
  assumes "wf_sys at_program 0 s" "i < 13" "thread_step at_program i s = Some t"
  shows "pcs t ! j = (if j = i then Suc (pcs s ! i) else pcs s ! j)"
  using assms pcs_step [OF assms(3)] by (simp add: wf_sys_def)

lemma at_counter_step:
  assumes "at_counter_inv s" "wf_sys at_program 0 s" "i < 13"
    "thread_step at_program i s = Some t"
  shows "at_counter_inv t"
proof -
  note p = at_pcs_step [OF assms(2-4)]
  from assms(3,4) show ?thesis
  proof (cases rule: at_step)
    case increment
    then have "i = 1 \<or> i = 2 \<or> i = 3 \<or> i = 4" by linarith
    with increment assms(1) show ?thesis
      by (auto simp: at_counter_inv_def p fetch_add_def)
  qed (use assms(1) in \<open>auto simp: at_counter_inv_def p say_counter_def compare_exchange_def
         say_flag_def exchange_def say_ptr_def\<close>)
qed

lemma at_flag_cas:
  assumes inv: "at_flag_inv s" and i: "5 \<le> i" "i < 9" "pcs s ! i = 0"
    and sh: "shared t = compare_exchange i (shared s)"
    and p: "\<And>j. pcs t ! j = (if j = i then Suc (pcs s ! i) else pcs s ! j)"
  shows "at_flag_inv t"
proof -
  have lines: "at_lines t"
    using inv i by (auto simp: at_flag_inv_def at_lines_def p sh compare_exchange_def)
  have "\<exists>w. at_winner t w"
  proof (cases "flag (shared s)")
    case True
    with inv obtain w where w: "at_winner s w" by (auto simp: at_flag_inv_def)
    then have "w \<noteq> i" using i(3) by (auto simp: at_winner_def)
    with w True have "at_winner t w"
      by (simp add: at_winner_def p sh compare_exchange_def)
    then show ?thesis ..
  next
    case False
    with inv have "at_no_winner s" by (simp add: at_flag_inv_def)
    with False i have "at_winner t i"
      by (simp add: at_winner_def at_no_winner_def p sh compare_exchange_def)
    then show ?thesis ..
  qed
  moreover have "flag (shared t)" by (simp add: sh compare_exchange_def)
  ultimately show ?thesis using lines by (simp add: at_flag_inv_def)
qed

lemma at_flag_print:
  assumes inv: "at_flag_inv s" and i: "5 \<le> i" "i < 9" "pcs s ! i = 1"
    and sh: "shared t = say_flag i (shared s)"
    and p: "\<And>j. pcs t ! j = (if j = i then Suc (pcs s ! i) else pcs s ! j)"
  shows "at_flag_inv t"
proof -
  have f: "flag (shared s)"
    using inv i by (auto simp: at_flag_inv_def at_no_winner_def split: if_splits)
  with inv obtain w where w: "at_winner s w" by (auto simp: at_flag_inv_def)
  then have "won (shared s) i = (i = w)" using i by (simp add: at_winner_def)
  with w i have "at_winner t w" by (auto simp: at_winner_def p sh say_flag_def)
  moreover have "at_lines t"
    using inv by (auto simp: at_flag_inv_def at_lines_def p sh say_flag_def)
  ultimately show ?thesis using f by (auto simp: at_flag_inv_def sh say_flag_def)
qed

lemma at_flag_same:
  assumes inv: "at_flag_inv s" and same: "flag (shared t) = flag (shared s)"
    "won (shared t) = won (shared s)" "\<And>j. 5 \<le> j \<Longrightarrow> j < 9 \<Longrightarrow> pcs t ! j = pcs s ! j"
    and l: "at_log (shared t) = at_log (shared s) @ l"
      "\<And>j. Set_flag j \<notin> set l" "\<And>j. Saw_flag j \<notin> set l"
  shows "at_flag_inv t"
proof -
  have "at_winner t = at_winner s"
    using same l by (auto simp: at_winner_def fun_eq_iff)
  moreover have "at_no_winner t = at_no_winner s" using same l by (auto simp: at_no_winner_def)
  moreover have "at_lines t = at_lines s" using same l by (auto simp: at_lines_def)
  ultimately show ?thesis using inv same(1) by (simp add: at_flag_inv_def)
qed

lemma at_flag_step:
  assumes "at_flag_inv s" "wf_sys at_program 0 s" "i < 13"
    "thread_step at_program i s = Some t"
  shows "at_flag_inv t"
proof -
  note p = at_pcs_step [OF assms(2-4)]
  from assms(3,4) show ?thesis
  proof (cases rule: at_step)
    case main
    then show ?thesis
      by (intro at_flag_same [OF assms(1), where
            l = "if pcs s ! 0 = 8 then [Final_counter (sint (counter (shared s)))] else []"])
        (simp_all add: p say_counter_def)
  next
    case increment
    then show ?thesis
      by (intro at_flag_same [OF assms(1), where l = "[]"]) (simp_all add: p fetch_add_def)
  next
    case cas
    with at_flag_cas [OF assms(1) _ _ _ _ p] show ?thesis by blast
  next
    case cas_print
    with at_flag_print [OF assms(1) _ _ _ _ p] show ?thesis by blast
  next
    case swap
    then show ?thesis
      by (intro at_flag_same [OF assms(1), where l = "[]"]) (simp_all add: p exchange_def)
  next
    case swap_print
    then show ?thesis
      by (intro at_flag_same [OF assms(1), where
            l = "[Changed_ptr i (old_ptr (shared s) i) (int i + 91)]"])
        (simp_all add: p say_ptr_def)
  qed
qed

lemma at_ptr_same:
  assumes "at_ptr_inv s" "swapped t = swapped s" "old_ptr (shared t) = old_ptr (shared s)"
    "shared_ptr (shared t) = shared_ptr (shared s)"
  shows "at_ptr_inv t"
  using assms by (simp add: at_ptr_inv_def)

lemma at_ptr_swap:
  assumes inv: "at_ptr_inv s" and i: "9 \<le> i" "i < 13" "pcs s ! i = 0"
    and sh: "shared t = exchange i (int i + 91) (shared s)"
    and p: "\<And>j. pcs t ! j = (if j = i then Suc (pcs s ! i) else pcs s ! j)"
  shows "at_ptr_inv t"
proof -
  have sw: "swapped t = insert i (swapped s)" and new: "i \<notin> swapped s"
    using i by (auto simp: swapped_def p)
  have fin: "finite (swapped s)"
    by (rule finite_subset [of _ "{9..<13}"]) (auto simp: swapped_def)
  have same: "image_mset (old_ptr (shared t)) (mset_set (swapped s))
      = image_mset (old_ptr (shared s)) (mset_set (swapped s))"
    using new fin by (intro image_mset_cong) (auto simp: sh exchange_def)
  have i': "old_ptr (shared t) i = shared_ptr (shared s)" "shared_ptr (shared t) = int i + 91"
    by (simp_all add: sh exchange_def)
  have "image_mset (old_ptr (shared t)) (mset_set (swapped t)) + {#shared_ptr (shared t)#}
      = (image_mset (old_ptr (shared s)) (mset_set (swapped s)) + {#shared_ptr (shared s)#})
          + {#int i + 91#}"
    using fin new same by (simp add: sw i')
  also have "\<dots> = {#0#} + image_mset (\<lambda>i. int i + 91) (mset_set (swapped s)) + {#int i + 91#}"
    using inv by (simp add: at_ptr_inv_def)
  finally show ?thesis using fin new by (simp add: at_ptr_inv_def sw)
qed

lemma at_ptr_step:
  assumes "at_ptr_inv s" "wf_sys at_program 0 s" "i < 13"
    "thread_step at_program i s = Some t"
  shows "at_ptr_inv t"
proof -
  note p = at_pcs_step [OF assms(2-4)]
  have same: "swapped t = swapped s" if "i < 9 \<or> pcs s ! i = 1"
    using that by (auto simp: swapped_def p)
  from assms(3,4) show ?thesis
  proof (cases rule: at_step)
    case swap
    with at_ptr_swap [OF assms(1) _ _ _ _ p] show ?thesis by blast
  qed (use at_ptr_same [OF assms(1) same] in \<open>auto simp: say_counter_def fetch_add_def
         compare_exchange_def say_flag_def say_ptr_def\<close>)
qed

text \<open>The line with the final value of the counter.\<close>

definition at_final_inv :: "at_world sys \<Rightarrow> bool" where
  "at_final_inv s \<longleftrightarrow> (\<forall>v. Final_counter v \<in> set (at_log (shared s)) \<longrightarrow> v = 4000)
     \<and> (8 < pcs s ! 0 \<longrightarrow> Final_counter 4000 \<in> set (at_log (shared s)))"

lemma at_joined:
  assumes "steps at_program at_start s" "at_main ! k = Join j" "k < pcs s ! 0"
  shows "at_end at_program s j"
  by (rule joined [OF assms(1) [unfolded at_start_def], of 0 k])
    (simp_all add: at_program_nth assms)

lemma at_group_1_done:
  assumes "steps at_program at_start s" "8 \<le> pcs s ! 0"
  shows "pcs s ! 1 = 1000 \<and> pcs s ! 2 = 1000 \<and> pcs s ! 3 = 1000 \<and> pcs s ! 4 = 1000"
proof -
  have "at_end at_program s j" if "j = k - 3" "4 \<le> k" "k < 8" for j k
  proof -
    have "k = 4 \<or> k = 5 \<or> k = 6 \<or> k = 7" using that by linarith
    then have "at_main ! k = Join j" using that(1) by (auto simp: at_main_eq)
    from at_joined [OF assms(1) this] that assms(2) show ?thesis by simp
  qed
  from this [of 1 4] this [of 2 5] this [of 3 6] this [of 4 7]
  have "at_end at_program s 1" "at_end at_program s 2" "at_end at_program s 3"
    "at_end at_program s 4" by simp_all
  then show ?thesis by (simp add: at_end_def at_program_nth increment_counter_def)
qed

lemma at_final_step:
  assumes "at_final_inv s" "steps at_program at_start s" "at_counter_inv s" "i < 13"
    "thread_step at_program i s = Some t"
  shows "at_final_inv t"
proof -
  note p = at_pcs_step [OF at_wf [OF assms(2)] assms(4,5)]
  from assms(4,5) show ?thesis
  proof (cases rule: at_step)
    case main
    show ?thesis
    proof (cases "pcs s ! 0 = 8")
      case True
      with at_group_1_done [OF assms(2)] assms(3) have "counter (shared s) = 4000"
        by (simp add: at_counter_inv_def)
      with main True assms(1) show ?thesis
        by (auto simp: at_final_inv_def p say_counter_def)
    next
      case False
      with main assms(1) show ?thesis by (auto simp: at_final_inv_def p)
    qed
  qed (use assms(1) in \<open>auto simp: at_final_inv_def p fetch_add_def compare_exchange_def
         say_flag_def exchange_def say_ptr_def\<close>)
qed

lemma at_invariants:
  assumes "steps at_program at_start s"
  shows "at_counter_inv s \<and> at_flag_inv s \<and> at_ptr_inv s \<and> at_final_inv s"
  using assms
proof (induction rule: steps_induct)
  case init
  have "pcs at_start ! i = 0" if "i < 13" for i
    unfolding at_start_def start_def by (simp only: sys.simps at_program_length) (rule nth_replicate [OF that])
  moreover have "swapped at_start = {}"
    using calculation by (auto simp: swapped_def)
  moreover have "shared at_start = at_world0" by (simp add: at_start_def start_def)
  ultimately show ?case
    by (simp add: at_counter_inv_def at_flag_inv_def at_no_winner_def at_lines_def at_ptr_inv_def
        at_final_inv_def at_world0_def)
next
  case (step i u v)
  have "i < 13" using step.hyps(2) by simp
  with step.IH step.hyps(3) at_counter_step [OF _ at_wf [OF step.hyps(1)]]
    at_flag_step [OF _ at_wf [OF step.hyps(1)]] at_ptr_step [OF _ at_wf [OF step.hyps(1)]]
    at_final_step [OF _ step.hyps(1)]
  show ?case by blast
qed

interpretation at: fork_join at_program "[]" at_world0
proof unfold_locales
  fix i c
  assume "0 < i" "i < length at_program" and c: "c \<in> set (at_program ! i)"
  then consider "1 \<le> i" "i < 5" | "5 \<le> i" "i < 9" | "9 \<le> i" "i < 13" by fastforce
  then show "\<exists>f. c = Act f"
    by cases (use c in \<open>auto simp: at_program_nth increment_counter_def set_flag_once_def
                 exchange_pointer_def\<close>)
next
  show "joins_ok (length at_program) [] (at_program ! 0)"
    by (simp add: at_program_nth at_main_eq)
next
  fix s :: "at_world sys"
  assume lt: "pcs s ! 0 < length (at_program ! 0)"
    and nj: "\<nexists>j. at_program ! 0 ! (pcs s ! 0) = Join j"
  have "list_all (\<lambda>c. (\<forall>k. c \<noteq> Wait k)) at_main" by (simp add: at_main_eq)
  then have "at_main ! (pcs s ! 0) \<noteq> Wait k" for k
    using lt by (auto simp: list_all_length at_program_nth)
  with nj show "effect at_program (at_program ! 0 ! (pcs s ! 0)) s \<noteq> None"
    by (cases "at_program ! 0 ! (pcs s ! 0)") (auto simp: at_program_nth)
qed simp

lemma at_finished:
  assumes st: "steps at_program at_start s" and fin: "finished at_program s"
  shows "pcs s ! 0 = 26 \<and> (\<forall>i. 5 \<le> i \<longrightarrow> i < 13 \<longrightarrow> pcs s ! i = 2)"
proof -
  have "pcs s ! 0 \<le> length (at_program ! 0)"
    using at_wf [OF st] by (simp add: wf_sys_def)
  then have "pcs s ! 0 \<le> 26" by (simp add: at_program_nth at_main_eq)
  moreover have "\<not> pcs s ! 0 < 26"
  proof
    assume lt: "pcs s ! 0 < 26"
    have "halted s"
    proof (rule ccontr)
      assume "\<not> halted s"
      from finishedD [OF fin this, of 0] main_live [of at_program] st lt show False
        by (auto simp: at_end_def at_program_nth at_main_eq at_start_def)
    qed
    with halted_by [of at_program] st obtain i k where
      ik: "i < 13" "k < pcs s ! i" "at_program ! i ! k = Halt"
      by (force simp: at_start_def)
    then have kl: "k < length (at_program ! i)"
      using at_wf [OF st] by (auto simp: wf_sys_def dest: less_le_trans)
    show False
    proof (cases "i = 0")
      case True
      have "list_all (\<lambda>k. k = 25 \<or> (case at_main ! k of Halt \<Rightarrow> False | _ \<Rightarrow> True)) [0..<26]"
        by (simp add: at_main_eq upt_rec)
      moreover have "k \<in> set [0..<26]" using True ik(2) lt by simp
      ultimately have "k = 25 \<or> (case at_main ! k of Halt \<Rightarrow> False | _ \<Rightarrow> True)"
        by (simp only: list_all_iff)
      with True ik lt show False by (simp add: at_program_nth)
    next
      case False
      with at.threads_act [of i] ik kl nth_mem show False by fastforce
    qed
  qed
  ultimately have pc: "pcs s ! 0 = 26" by simp
  have "pcs s ! i = 2" if "5 \<le> i" "i < 13" for i
  proof -
    have "\<exists>k < 26. at_main ! k = Join i"
    proof -
      have "i = 5 \<or> i = 6 \<or> i = 7 \<or> i = 8 \<or> i = 9 \<or> i = 10 \<or> i = 11 \<or> i = 12"
        using that by linarith
      then show ?thesis
        by (elim disjE; intro exI [of _ "if i < 9 then i + 8 else i + 12"]) (simp_all add: at_main_eq)
    qed
    with at_joined [OF st] pc have "at_end at_program s i" by auto
    moreover have "length (at_program ! i) = 2"
      using that by (cases "i < 9") (simp_all add: at_program_nth set_flag_once_def exchange_pointer_def)
    ultimately show ?thesis by (simp add: at_end_def)
  qed
  with pc show ?thesis by blast
qed

text \<open>What holds when the program has ended.\<close>

definition at_result :: "at_world \<Rightarrow> bool" where
  "at_result g \<longleftrightarrow> counter g = 4000 \<and> Final_counter 4000 \<in> set (at_log g)
     \<and> (\<exists>w \<in> {5..<9}. \<forall>i \<in> {5..<9}.
          (Set_flag i \<in> set (at_log g)) = (i = w) \<and> (i \<noteq> w \<longrightarrow> Saw_flag i \<in> set (at_log g)))
     \<and> {# shared_ptr g, old_ptr g 9, old_ptr g 10, old_ptr g 11, old_ptr g 12 #}
         = {# 100, 101, 102, 103, 0 #}"

lemma at_flag_result:
  assumes inv: "at_flag_inv s" and two: "\<And>i. 5 \<le> i \<Longrightarrow> i < 9 \<Longrightarrow> pcs s ! i = 2"
  shows "\<exists>w \<in> {5..<9}. \<forall>i \<in> {5..<9}. (Set_flag i \<in> set (at_log (shared s))) = (i = w)
      \<and> (i \<noteq> w \<longrightarrow> Saw_flag i \<in> set (at_log (shared s)))"
proof -
  have "flag (shared s)"
    using inv two [of 5] by (auto simp: at_flag_inv_def at_no_winner_def split: if_splits)
  with inv obtain w where w: "at_winner s w" and l: "at_lines s"
    by (auto simp: at_flag_inv_def)
  have "(Set_flag i \<in> set (at_log (shared s))) = (i = w)
      \<and> (i \<noteq> w \<longrightarrow> Saw_flag i \<in> set (at_log (shared s)))" if i: "i \<in> {5..<9}" for i
  proof -
    have "won (shared s) i = (i = w)" using w two [of i] i by (simp add: at_winner_def)
    moreover have "(if won (shared s) i then Set_flag i else Saw_flag i) \<in> set (at_log (shared s))"
      using l two [of i] i by (simp add: at_lines_def)
    moreover have "Set_flag i \<in> set (at_log (shared s)) \<Longrightarrow> i = w"
      using w by (simp add: at_winner_def)
    ultimately show ?thesis by (cases "i = w") auto
  qed
  moreover have "w \<in> {5..<9}" using w by (simp add: at_winner_def)
  ultimately show ?thesis by blast
qed

lemma at_ptr_result:
  assumes inv: "at_ptr_inv s" and two: "\<And>i. 9 \<le> i \<Longrightarrow> i < 13 \<Longrightarrow> pcs s ! i = 2"
  shows "{# shared_ptr (shared s), old_ptr (shared s) 9, old_ptr (shared s) 10,
      old_ptr (shared s) 11, old_ptr (shared s) 12 #} = {# 100, 101, 102, 103, 0 #}"
proof -
  have "swapped s = {9..<13}" using two by (auto simp: swapped_def)
  also have "\<dots> = {9, 10, 11, 12}" by auto
  finally have "mset_set (swapped s) = {# 9, 10, 11, 12 #}" by simp
  then have "image_mset f (mset_set (swapped s)) = {# f 9, f 10, f 11, f 12 #}" for f :: "nat \<Rightarrow> int"
    by simp
  with inv show ?thesis by (simp only: at_ptr_inv_def) simp
qed

lemma at_end_result:
  assumes st: "steps at_program at_start s" and fin: "finished at_program s"
  shows "at_result (shared s)"
proof -
  from at_finished [OF assms] have pc: "pcs s ! 0 = 26"
    and two: "\<And>i. 5 \<le> i \<Longrightarrow> i < 13 \<Longrightarrow> pcs s ! i = 2" by blast+
  from at_invariants [OF st] have inv: "at_counter_inv s" "at_flag_inv s" "at_ptr_inv s"
    "at_final_inv s" by blast+
  have "counter (shared s) = 4000"
    using inv(1) at_group_1_done [OF st] pc by (simp add: at_counter_inv_def)
  moreover have "Final_counter 4000 \<in> set (at_log (shared s))"
    using inv(4) pc by (simp add: at_final_inv_def)
  moreover note at_flag_result [OF inv(2)] at_ptr_result [OF inv(3)] two
  ultimately show ?thesis unfolding at_result_def by simp
qed

section \<open>The builtins of GCC\<close>

text \<open>
  The globals and the locals of the demos; \<open>lock\<close> is semaphore 0, which is one while the variable is
  zero: \<open>__sync_lock_test_and_set\<close> in a loop goes on exactly when it finds zero.
  \<open>__sync_synchronize\<close> is no command, as the steps are in program order.
\<close>

datatype gc_line =
  Gc_final int
| After_bits int
| Cas_success int
| Cas_failed int
| Lock_acquired
| Lock_released
| Barrier int int

record gc_world =
  gc_counter :: "32 word"
  gc_value :: "32 word"
  gc_success :: bool
  bar_a :: int
  bar_b :: int
  gc_log :: "gc_line list"

definition gc_say :: "(gc_world \<Rightarrow> gc_line) \<Rightarrow> gc_world cmd" where
  "gc_say l = Act (\<lambda>g. g\<lparr>gc_log := gc_log g @ [l g]\<rparr>)"

definition gc_add :: "gc_world cmd" where
  "gc_add = Act (\<lambda>g. g\<lparr>gc_counter := gc_counter g + 1\<rparr>)"

definition gc_sub :: "gc_world cmd" where
  "gc_sub = Act (\<lambda>g. g\<lparr>gc_counter := gc_counter g - 1\<rparr>)"

definition thread_func_arithmetic :: "gc_world cmd list" where
  "thread_func_arithmetic = concat (map (\<lambda>i. [gc_add, gc_sub, gc_add, gc_sub]) [0..<10000])"

definition bit_operations_demo :: "gc_world cmd list" where
  "bit_operations_demo =
     [Act (\<lambda>g. g\<lparr>gc_value := 0b1100\<rparr>),
      Act (\<lambda>g. g\<lparr>gc_value := gc_value g OR 0b0011\<rparr>),
      Act (\<lambda>g. g\<lparr>gc_value := gc_value g AND 0b1110\<rparr>),
      Act (\<lambda>g. g\<lparr>gc_value := gc_value g XOR 0b0101\<rparr>),
      gc_say (\<lambda>g. After_bits (sint (gc_value g)))]"

definition cas_demo :: "gc_world cmd list" where
  "cas_demo =
     [Act (\<lambda>g. if gc_counter g = 0 then g\<lparr>gc_counter := 1, gc_success := True\<rparr>
               else g\<lparr>gc_success := False\<rparr>),
      gc_say (\<lambda>g. if gc_success g then Cas_success (sint (gc_counter g))
                   else Cas_failed (sint (gc_counter g)))]"

definition spinlock_demo :: "gc_world cmd list" where
  "spinlock_demo =
     [Wait 0,
      gc_say (\<lambda>g. Lock_acquired),
      gc_add,
      Post 0,
      gc_say (\<lambda>g. Lock_released)]"

definition memory_barrier_demo :: "gc_world cmd list" where
  "memory_barrier_demo =
     [Act (\<lambda>g. g\<lparr>bar_a := 0\<rparr>),
      Act (\<lambda>g. g\<lparr>bar_b := 0\<rparr>),
      Act (\<lambda>g. g\<lparr>bar_a := 1\<rparr>),
      Act (\<lambda>g. g\<lparr>bar_b := 2\<rparr>),
      gc_say (\<lambda>g. Barrier (bar_a g) (bar_b g))]"

definition gc_main :: "gc_world cmd list" where
  "gc_main = [Spawn 1, Spawn 2, Join 1, Join 2, gc_say (\<lambda>g. Gc_final (sint (gc_counter g)))]
     @ bit_operations_demo @ cas_demo @ spinlock_demo @ memory_barrier_demo @ [Halt]"

definition gc_program :: "gc_world program" where
  "gc_program = [gc_main, thread_func_arithmetic, thread_func_arithmetic]"

definition gc_world0 :: gc_world where
  "gc_world0 = \<lparr>gc_counter = 0, gc_value = 0, gc_success = False, bar_a = 0, bar_b = 0,
     gc_log = []\<rparr>"

definition gc_start :: "gc_world sys" where
  "gc_start = start gc_program [1] gc_world0"

lemma gc_program_simps [simp]:
  "length gc_program = 3" "gc_program ! 0 = gc_main"
  "gc_program ! Suc 0 = thread_func_arithmetic" "gc_program ! 2 = thread_func_arithmetic"
  by (simp_all add: gc_program_def)

lemma arithmetic_length [simp]: "length thread_func_arithmetic = 40000"
  by (simp add: thread_func_arithmetic_def loop_length [where m = 4])

lemma arithmetic_nth:
  assumes "p < 40000"
  shows "thread_func_arithmetic ! p = (if even p then gc_add else gc_sub)"
proof -
  from assms have "p < 4 * 10000" by simp
  then obtain i r where p: "p = 4 * i + r" "i < 10000" "r < 4" by (rule loop_pos)
  have "thread_func_arithmetic ! p = [gc_add, gc_sub, gc_add, gc_sub] ! r"
    unfolding thread_func_arithmetic_def p(1) by (rule loop_nth) (use p in simp_all)
  moreover have "r = 0 \<or> r = 1 \<or> r = 2 \<or> r = 3" using p(3) by linarith
  ultimately show ?thesis using p(1) by auto
qed

lemma gc_main_length [simp]: "length gc_main = 23"
  by (simp add: gc_main_def bit_operations_demo_def cas_demo_def spinlock_demo_def
      memory_barrier_demo_def)

text \<open>What \<open>main\<close> alone makes of the shared data, and of the lock.\<close>

definition gc_seq :: "nat \<Rightarrow> gc_world" where
  "gc_seq k = foldl (\<lambda>g c. do_act c g) gc_world0 (take k gc_main)"

definition gc_lock :: "nat \<Rightarrow> nat list" where
  "gc_lock k = (if 12 < k \<and> k \<le> 15 then [0] else [1])"

lemma gc_seq_Suc: "k < 23 \<Longrightarrow> gc_seq (Suc k) = do_act (gc_main ! k) (gc_seq k)"
  by (simp add: gc_seq_def take_Suc_conv_app_nth)

definition gc_inv :: "gc_world sys \<Rightarrow> bool" where
  "gc_inv s \<longleftrightarrow> sems s = gc_lock (pcs s ! 0)
     \<and> shared s = (if pcs s ! 0 \<le> 4
          then gc_world0\<lparr>gc_counter := of_nat (pcs s ! 1 mod 2 + pcs s ! 2 mod 2)\<rparr>
          else gc_seq (pcs s ! 0))"

lemma gc_wf: "steps gc_program gc_start s \<Longrightarrow> wf_sys gc_program 1 s"
  using wf_steps [OF _ wf_start] by (fastforce simp: gc_start_def)

lemma gc_pcs_step:
  assumes "wf_sys gc_program 1 s" "i < 3" "thread_step gc_program i s = Some t"
  shows "pcs t ! j = (if j = i then Suc (pcs s ! i) else pcs s ! j)"
  using assms pcs_step [OF assms(3)] by (simp add: wf_sys_def)

lemma gc_main_start:
  "gc_main ! 0 = Spawn 1" "gc_main ! Suc 0 = Spawn 2" "gc_main ! 2 = Join 1" "gc_main ! 3 = Join 2"
  by (simp_all add: gc_main_def)

lemma gc_joined:
  assumes "steps gc_program gc_start s" "4 \<le> pcs s ! 0"
  shows "pcs s ! 1 = 40000 \<and> pcs s ! 2 = 40000"
proof -
  have "at_end gc_program s 1" "at_end gc_program s 2"
    using joined [OF assms(1) [unfolded gc_start_def], of 0 2]
      joined [OF assms(1) [unfolded gc_start_def], of 0 3] assms(2)
    by (simp_all add: gc_main_start)
  then show ?thesis by (simp add: at_end_def)
qed

lemma gc_thread_step:
  assumes inv: "gc_inv s" and st: "steps gc_program gc_start s" and i: "i = 1 \<or> i = 2"
    and step: "thread_step gc_program i s = Some t"
  shows "gc_inv t"
proof -
  have i3: "i < 3" using i by auto
  note p = gc_pcs_step [OF gc_wf [OF st] i3 step]
  have prog: "gc_program ! i = thread_func_arithmetic" using i by auto
  from step have lt: "pcs s ! i < 40000" by (auto simp: thread_step_eq prog)
  with gc_joined [OF st] i have k: "pcs s ! 0 \<le> 4" by (cases "4 \<le> pcs s ! 0") auto
  from step obtain u where
    u: "effect gc_program (if even (pcs s ! i) then gc_add else gc_sub) s = Some u"
    and t: "shared t = shared u" "sems t = sems u"
    by (auto simp: thread_step_eq prog arithmetic_nth [OF lt])
  have sems: "sems t = sems s" using u t by (auto simp: gc_add_def gc_sub_def split: if_splits)
  have "shared t = (if even (pcs s ! i)
      then (shared s)\<lparr>gc_counter := gc_counter (shared s) + 1\<rparr>
      else (shared s)\<lparr>gc_counter := gc_counter (shared s) - 1\<rparr>)"
    using u t by (auto simp: gc_add_def gc_sub_def split: if_splits)
  moreover have "shared s = gc_world0\<lparr>gc_counter := of_nat (pcs s ! 1 mod 2 + pcs s ! 2 mod 2)\<rparr>"
    using inv k by (simp add: gc_inv_def)
  moreover have "(pcs s ! i) mod 2 = (if even (pcs s ! i) then 0 else 1)"
    by (simp add: mod2_eq_if)
  ultimately have "shared t = gc_world0\<lparr>gc_counter := of_nat (pcs t ! 1 mod 2 + pcs t ! 2 mod 2)\<rparr>"
    using i by (cases "even (pcs s ! i)") (auto simp: p mod_Suc)
  with inv k sems i show ?thesis by (auto simp: gc_inv_def p)
qed

lemma gc_sems_main:
  "k < 23 \<Longrightarrow> k = 12 \<or> k = 15 \<or> (\<forall>j. gc_main ! k \<noteq> Wait j \<and> gc_main ! k \<noteq> Post j)"
  "gc_main ! 12 = Wait 0" "gc_main ! 15 = Post 0"
proof -
  have "list_all (\<lambda>k. k = 12 \<or> k = 15 \<or>
      (case gc_main ! k of Wait j \<Rightarrow> False | Post j \<Rightarrow> False | _ \<Rightarrow> True)) [0..<23]"
    by (simp add: gc_main_def bit_operations_demo_def cas_demo_def spinlock_demo_def
        memory_barrier_demo_def gc_say_def gc_add_def upt_rec)
  then have all: "k = 12 \<or> k = 15 \<or>
      (case gc_main ! k of Wait j \<Rightarrow> False | Post j \<Rightarrow> False | _ \<Rightarrow> True)" if "k < 23" for k
    using that by (simp add: list_all_iff del: upt_rec_numeral)
  show "k < 23 \<Longrightarrow> k = 12 \<or> k = 15 \<or> (\<forall>j. gc_main ! k \<noteq> Wait j \<and> gc_main ! k \<noteq> Post j)"
    using all [of k] by (cases "gc_main ! k") auto
  show "gc_main ! 12 = Wait 0" "gc_main ! 15 = Post 0"
    by (simp_all add: gc_main_def bit_operations_demo_def cas_demo_def spinlock_demo_def)
qed

lemma gc_seq_4: "gc_seq 4 = gc_world0"
  by (simp add: gc_seq_def gc_main_def)

lemma gc_main_step:
  assumes inv: "gc_inv s" and st: "steps gc_program gc_start s"
    and step: "thread_step gc_program 0 s = Some t"
  shows "gc_inv t"
proof -
  define k where "k = pcs s ! 0"
  note p = gc_pcs_step [OF gc_wf [OF st] _ step]
  from step obtain u where k: "k < 23" and u: "effect gc_program (gc_main ! k) s = Some u"
    and t: "shared t = shared u" "sems t = sems u"
    by (auto simp: thread_step_eq k_def)
  have sh: "shared t = do_act (gc_main ! k) (shared s)" using effect_do_act [OF u] t by simp
  have lock: "sems s = gc_lock k" using inv by (simp add: gc_inv_def k_def)
  have "sems t = gc_lock (Suc k)"
    using gc_sems_main(1) [OF k]
  proof (elim disjE)
    assume "k = 12"
    with u t lock show ?thesis by (auto simp: gc_sems_main gc_lock_def)
  next
    assume "k = 15"
    with u t lock show ?thesis by (auto simp: gc_sems_main gc_lock_def)
  next
    assume "\<forall>j. gc_main ! k \<noteq> Wait j \<and> gc_main ! k \<noteq> Post j"
    then have "sems u = sems s" "k \<noteq> 12" "k \<noteq> 15"
      using u gc_sems_main by (cases "gc_main ! k"; auto split: if_splits)+
    with t lock show ?thesis by (auto simp: gc_lock_def)
  qed
  moreover have "shared t = (if Suc k \<le> 4
      then gc_world0\<lparr>gc_counter := of_nat (pcs s ! 1 mod 2 + pcs s ! 2 mod 2)\<rparr>
      else gc_seq (Suc k))"
  proof (cases "k < 4")
    case True
    then have "k = 0 \<or> k = 1 \<or> k = 2 \<or> k = 3" by linarith
    then have "do_act (gc_main ! k) g = g" for g by (auto simp: gc_main_start)
    with inv True sh show ?thesis by (simp add: gc_inv_def k_def)
  next
    case False
    with gc_joined [OF st] have "pcs s ! 1 = 40000" "pcs s ! 2 = 40000" by (simp_all add: k_def)
    then have "shared s = gc_seq k"
      using inv False gc_seq_4 by (cases "k = 4") (simp_all add: gc_inv_def k_def gc_world0_def)
    with False sh gc_seq_Suc [OF k] show ?thesis by simp
  qed
  ultimately show ?thesis by (simp add: gc_inv_def p k_def)
qed

lemma gc_reachable:
  assumes "steps gc_program gc_start s"
  shows "gc_inv s"
  using assms
proof (induction rule: steps_induct)
  case init
  show ?case by (simp add: gc_inv_def gc_start_def start_def gc_lock_def gc_world0_def)
next
  case (step i u v)
  from step.hyps(2) have "i = 0 \<or> i = 1 \<or> i = 2" by auto
  with gc_main_step [OF step.IH step.hyps(1)] gc_thread_step [OF step.IH step.hyps(1)] step.hyps(3)
  show ?case by blast
qed

interpretation gc: fork_join gc_program "[1]" gc_world0
proof unfold_locales
  fix i c
  assume "0 < i" "i < length gc_program" and c: "c \<in> set (gc_program ! i)"
  then have "i = 1 \<or> i = 2" by auto
  with c have "c = gc_add \<or> c = gc_sub" by (auto simp: thread_func_arithmetic_def)
  then show "\<exists>f. c = Act f" by (auto simp: gc_add_def gc_sub_def)
next
  show "joins_ok (length gc_program) [] (gc_program ! 0)"
    by (simp add: gc_main_def bit_operations_demo_def cas_demo_def spinlock_demo_def
        memory_barrier_demo_def gc_say_def gc_add_def)
next
  fix s
  assume st: "steps gc_program (start gc_program [1] gc_world0) s"
    and lt: "pcs s ! 0 < length (gc_program ! 0)"
    and nj: "\<nexists>j. gc_program ! 0 ! (pcs s ! 0) = Join j"
  have lock: "sems s = gc_lock (pcs s ! 0)"
    using gc_reachable st by (simp add: gc_start_def gc_inv_def)
  show "effect gc_program (gc_program ! 0 ! (pcs s ! 0)) s \<noteq> None"
  proof (cases "pcs s ! 0 = 12")
    case True
    with lock show ?thesis by (simp add: gc_sems_main gc_lock_def)
  next
    case False
    with gc_sems_main lt nj show ?thesis
      by (cases "gc_main ! (pcs s ! 0)") (auto simp: gc_sems_main(3) dest: gc_sems_main(1))
  qed
qed simp

definition gc_output :: "gc_line list" where
  "gc_output = [Gc_final 0, After_bits 11, Cas_success 1, Lock_acquired, Lock_released, Barrier 1 2]"

lemma gc_seq_end: "gc_log (gc_seq 23) = gc_output" "gc_counter (gc_seq 23) = 2"
  by code_simp+

lemma gc_finished:
  assumes st: "steps gc_program gc_start s" and fin: "finished gc_program s"
  shows "gc_log (shared s) = gc_output \<and> gc_counter (shared s) = 2"
proof -
  have "pcs s ! 0 \<le> 23" using wf_pcs_le [OF gc_wf [OF st], of 0] by simp
  moreover have "\<not> pcs s ! 0 < 23"
  proof
    assume lt: "pcs s ! 0 < 23"
    have "halted s"
    proof (rule ccontr)
      assume "\<not> halted s"
      from finishedD [OF fin this, of 0] main_live [of gc_program] st lt show False
        by (auto simp: at_end_def gc_start_def)
    qed
    with halted_by [of gc_program] st obtain i k where
      ik: "i < 3" "k < pcs s ! i" "gc_program ! i ! k = Halt"
      by (force simp: gc_start_def)
    then have kl: "k < length (gc_program ! i)"
      using gc_wf [OF st] by (auto simp: wf_sys_def dest: less_le_trans)
    show False
    proof (cases "i = 0")
      case True
      have "list_all (\<lambda>k. case gc_main ! k of Halt \<Rightarrow> False | _ \<Rightarrow> True) [0..<22]"
        by (simp add: gc_main_def bit_operations_demo_def cas_demo_def spinlock_demo_def
            memory_barrier_demo_def gc_say_def gc_add_def upt_rec)
      moreover have "k \<in> set [0..<22]" using True ik(2) lt by simp
      ultimately have "case gc_main ! k of Halt \<Rightarrow> False | _ \<Rightarrow> True"
        by (simp only: list_all_iff)
      with True ik show False by simp
    next
      case False
      with gc.threads_act [of i] ik kl nth_mem show False by fastforce
    qed
  qed
  ultimately have "pcs s ! 0 = 23" by simp
  with gc_reachable [OF st] gc_seq_end show ?thesis by (simp add: gc_inv_def)
qed

section \<open>Properties\<close>

text \<open>
  In every interleaving of the twelve threads of \<open>libc_demo/demo.c\<close> no value but 4000 is ever
  printed as the final counter; no state is stuck before the end, every run can go on to the end,
  and at the end the counter is 4000, exactly one of the four threads has set the flag and the
  other three saw it set, and the old values of the four exchanges and the last value of the
  pointer are together 0, 100, 101, 102 and 103, so no exchange is lost.
\<close>

theorem atomic_results_do_not_depend_on_order:
  assumes "run at_program sched at_start = Some s"
  shows "(\<forall>v. Final_counter v \<in> set (at_log (shared s)) \<longrightarrow> v = 4000)
    \<and> (stuck at_program s \<longrightarrow> finished at_program s)
    \<and> (\<exists>t. steps at_program s t \<and> finished at_program t \<and> at_result (shared t))
    \<and> (finished at_program s \<longrightarrow> at_result (shared s))"
proof -
  note st = run_steps [OF assms]
  obtain t where t: "steps at_program s t" "finished at_program t"
    using at.can_finish st by (auto simp: at_start_def)
  have "steps at_program at_start t" using st t(1) by (rule rtranclp_trans)
  from at_end_result [OF this t(2)] t have "\<exists>t. steps at_program s t \<and> finished at_program t
      \<and> at_result (shared t)" by blast
  moreover have "at_final_inv s" using at_invariants [OF st] by blast
  ultimately show ?thesis
    using at_end_result [OF st] at.no_deadlock st by (auto simp: at_final_inv_def at_start_def)
qed

lemma at_first:
  "at_main ! 0 = Spawn 1" "length at_main = 26" "length increment_counter = 1000"
  "k < 1000 \<Longrightarrow> increment_counter ! k = Act fetch_add"
  by (simp_all add: at_main_eq increment_counter_def)

text \<open>
  In every interleaving of the two threads of \<open>gcc_demo/demo.c\<close>, each of which adds one and
  takes it away 20000 times, the program goes on to its end, where it has printed a final counter of
  0, 11 after the bit operations, the success of the compare-and-swap, the two lines of the spin
  lock and the two values of the barrier demo.
\<close>

theorem gcc_atomics_output:
  assumes "run gc_program sched gc_start = Some s"
  shows "(stuck gc_program s \<longrightarrow> finished gc_program s)
    \<and> (finished gc_program s \<longrightarrow> gc_log (shared s) =
         [Gc_final 0, After_bits 11, Cas_success 1, Lock_acquired, Lock_released, Barrier 1 2]
         \<and> gc_counter (shared s) = 2)
    \<and> (\<exists>t. steps gc_program s t \<and> finished gc_program t)"
  using gc_finished [OF run_steps [OF assms]] gc.no_deadlock gc.can_finish run_steps [OF assms]
  by (simp add: gc_start_def gc_output_def)

text \<open>
  C28: The two programs of atomic operations, in every interleaving.  \<open>libc_demo/demo.c\<close>, of twelve threads: no
  value but 4000 is ever printed as the final counter; no state is stuck before the end, every run
  can go on to the end, and at the end the counter is 4000, exactly one of the four threads has set
  the flag and the other three saw it set, and the old values of the four exchanges and the last
  value of the pointer are together 0, 100, 101, 102 and 103, so no exchange is lost.
  \<open>gcc_demo/demo.c\<close>, of two threads that each add one and take it away 20000 times: the program goes
  on to its end, where it has printed a final counter of 0, 11 after the bit operations, the success
  of the compare-and-swap, the two lines of the spin lock and the two values of the barrier demo.
\<close>

theorem atomic_programs_end_alike:
  assumes "run at_program sched at_start = Some s" and "run gc_program sched2 gc_start = Some s2"
  shows "(\<forall>v. Final_counter v \<in> set (at_log (shared s)) \<longrightarrow> v = 4000)
    \<and> ((stuck at_program s \<longrightarrow> finished at_program s) \<and> (finished at_program s \<longrightarrow> at_result (shared s)))
    \<and> (\<exists>t. steps at_program s t \<and> finished at_program t \<and> at_result (shared t))
    \<and> (stuck gc_program s2 \<longrightarrow> finished gc_program s2)
    \<and> (finished gc_program s2 \<longrightarrow> gc_log (shared s2) =
         [Gc_final 0, After_bits 11, Cas_success 1, Lock_acquired, Lock_released, Barrier 1 2]
         \<and> gc_counter (shared s2) = 2)
    \<and> (\<exists>t. steps gc_program s2 t \<and> finished gc_program t)"
  using atomic_results_do_not_depend_on_order [OF assms(1)] gcc_atomics_output [OF assms(2)] by blast

theorem atomic_programs_end_alike_witness:
  "\<exists>s s2. run at_program [0, 1, 1] at_start = Some s \<and> counter (shared s) = 2
     \<and> (\<exists>t. steps at_program s t \<and> finished at_program t \<and> at_result (shared t))
     \<and> run gc_program [0, 0, 0] gc_start = None \<and> run gc_program [0, 0] gc_start = Some s2
     \<and> (\<exists>t. steps gc_program s2 t \<and> finished gc_program t)"
proof -
  obtain s where s: "run at_program [0, 1, 1] at_start = Some s" "counter (shared s) = 2"
    by (simp add: at_start_def start_def thread_step_def at_program_nth at_first fetch_add_def
        at_world0_def upt_rec)
  have no: "run gc_program [0, 0, 0] gc_start = None"
    by (simp add: gc_start_def start_def thread_step_def gc_main_start
        gc_main_start [unfolded numeral_2_eq_2] upt_rec at_end_def)
  obtain s2 where s2: "run gc_program [0, 0] gc_start = Some s2"
    by (simp add: gc_start_def start_def thread_step_def gc_main_start upt_rec)
  show ?thesis
    using atomic_programs_end_alike [OF s(1) s2] s no s2
    by (intro exI [of _ s] exI [of _ s2]) simp
qed

end
