(* ===== verification/CxxMutex.thy ===== *)
theory CxxMutex
  imports PoolWorkers
begin

text \<open>
  \<open>3.Thread/2.mutex/2.thread_mutex_CXX.cpp\<close>: ten threads that print under a mutex, two threads
  that fill a container whose operations lock a recursive mutex twice, and ten threads that print
  under a scoped lock.  Each thread has the list of what it still does; \<open>main\<close> goes on to the next
  test when all have done everything, as it joins them.  All threads of a test can start at once:
  every schedule in which \<open>main\<close> starts them later is among these.  Whether the mutex of the
  container is recursive is a parameter, as the comments of the code speak of both.
\<close>

section \<open>The program\<close>

datatype cm_mutex = Io | Container

datatype cm_instr =
  Lock cm_mutex
| Unlock cm_mutex
| Say piece
| Push int
| Say_elements

record cm_state =
  todo :: "cm_instr list list"
  io_owner :: "nat option"
  con_owner :: "(nat \<times> nat) option"
  elements :: "int list"
  cm_out :: "piece list"
  test :: nat

text \<open>The number of a thread in its test stands for its id.\<close>

definition cm_block :: "nat \<Rightarrow> piece list" where
  "cm_block t = [Str ''Enter thread: '', Num (int t), Newline, Str ''Leave thread: '', Num (int t), Newline]"

definition Func1 :: "nat \<Rightarrow> cm_instr list" where
  "Func1 t = [Lock Io] @ map Say (cm_block t) @ [Unlock Io]"

definition Add :: "int \<Rightarrow> cm_instr list" where
  "Add element = [Lock Container, Push element, Unlock Container]"

definition AddForTestRecursive :: "int \<Rightarrow> cm_instr list" where
  "AddForTestRecursive element = [Lock Container] @ Add element @ [Unlock Container]"

definition Dump :: "cm_instr list" where
  "Dump = [Lock Container, Say_elements, Unlock Container]"

definition Func2 :: "int list \<Rightarrow> cm_instr list" where
  "Func2 is = concat (map AddForTestRecursive is)"

text \<open>The lock is taken when it is constructed and given back when it is destroyed.\<close>

definition Func3 :: "nat \<Rightarrow> cm_instr list" where
  "Func3 t = Lock Io # map Say (cm_block t) @ [Unlock Io]"

text \<open>
  A \<open>std::mutex\<close> blocks everybody while it is held, its owner too; a recursive one counts how often
  its owner has locked it.  Unlocking what one does not hold is undefined.
\<close>

definition cm_lock :: "bool \<Rightarrow> nat \<Rightarrow> (nat \<times> nat) option \<Rightarrow> (nat \<times> nat) option option" where
  "cm_lock recursive t m = (case m of
     None \<Rightarrow> Some (Some (t, 1))
   | Some (u, d) \<Rightarrow> if recursive \<and> u = t then Some (Some (t, d + 1)) else None)"

definition cm_unlock :: "nat \<Rightarrow> (nat \<times> nat) option \<Rightarrow> (nat \<times> nat) option option" where
  "cm_unlock t m = (case m of
     None \<Rightarrow> None
   | Some (u, d) \<Rightarrow> if u = t then Some (if d = 1 then None else Some (t, d - 1)) else None)"

fun cm_exec :: "bool \<Rightarrow> nat \<Rightarrow> cm_instr \<Rightarrow> cm_state \<Rightarrow> cm_state option" where
  "cm_exec recursive t (Lock Io) s = (if io_owner s = None then Some (s\<lparr>io_owner := Some t\<rparr>) else None)"
| "cm_exec recursive t (Unlock Io) s = (if io_owner s = Some t then Some (s\<lparr>io_owner := None\<rparr>) else None)"
| "cm_exec recursive t (Lock Container) s =
     map_option (\<lambda>m. s\<lparr>con_owner := m\<rparr>) (cm_lock recursive t (con_owner s))"
| "cm_exec recursive t (Unlock Container) s = map_option (\<lambda>m. s\<lparr>con_owner := m\<rparr>) (cm_unlock t (con_owner s))"
| "cm_exec recursive t (Say p) s = Some (s\<lparr>cm_out := cm_out s @ [p]\<rparr>)"
| "cm_exec recursive t (Push x) s = Some (s\<lparr>elements := elements s @ [x]\<rparr>)"
| "cm_exec recursive t Say_elements s =
     Some (s\<lparr>cm_out := cm_out s @ concat (map (\<lambda>x. [Num x, Newline]) (elements s))\<rparr>)"

definition cm_thread :: "bool \<Rightarrow> nat \<Rightarrow> cm_state \<Rightarrow> cm_state option" where
  "cm_thread recursive t s =
     (if t < length (todo s)
      then case todo s ! t of
             [] \<Rightarrow> None
           | i # is \<Rightarrow> map_option (\<lambda>s'. s'\<lparr>todo := (todo s)[t := is]\<rparr>) (cm_exec recursive t i s)
      else None)"

text \<open>The three tests; the second one ends with the dump, which \<open>main\<close> does itself.\<close>

definition Test1 :: "cm_instr list list" where
  "Test1 = map Func1 [0..<10]"

definition Test2 :: "cm_instr list list" where
  "Test2 = [Func2 [1..10], Func2 [100..110]]"

definition Test3 :: "cm_instr list list" where
  "Test3 = map Func3 [0..<10]"

definition cm_main :: "cm_state \<Rightarrow> cm_state option" where
  "cm_main s =
     (if list_all (\<lambda>l. l = []) (todo s)
      then if test s = 1 then Some (s\<lparr>todo := Test2, elements := [], con_owner := None, test := 2\<rparr>)
           else if test s = 2 then Some (s\<lparr>todo := [Dump], test := 3\<rparr>)
           else if test s = 3 then Some (s\<lparr>todo := Test3, test := 4\<rparr>)
           else if test s = 4 then Some (s\<lparr>test := 5\<rparr>)
           else None
      else None)"

definition cm_start :: cm_state where
  "cm_start = \<lparr>todo = Test1, io_owner = None, con_owner = None, elements = [], cm_out = [], test = 1\<rparr>"

datatype cm_action = Thread nat | Main_goes_on

fun cm_step :: "bool \<Rightarrow> cm_action \<Rightarrow> cm_state \<Rightarrow> cm_state option" where
  "cm_step recursive (Thread t) s = cm_thread recursive t s"
| "cm_step recursive Main_goes_on s = cm_main s"

fun cm_run :: "bool \<Rightarrow> cm_action list \<Rightarrow> cm_state \<Rightarrow> cm_state option" where
  "cm_run recursive [] s = Some s"
| "cm_run recursive (a # as) s = Option.bind (cm_step recursive a s) (cm_run recursive as)"

definition cm_stuck :: "bool \<Rightarrow> cm_state \<Rightarrow> bool" where
  "cm_stuck recursive s \<longleftrightarrow> (\<forall>a. cm_step recursive a s = None)"

section \<open>Threads that print a block\<close>

text \<open>
  In the first and the third test the threads in \<open>ds\<close> have printed their blocks, in this order, and
  the owner of the mutex the first pieces of its block.
\<close>

definition half :: "nat \<Rightarrow> nat \<Rightarrow> cm_instr list" where
  "half k t = map Say (drop k (cm_block t)) @ [Unlock Io]"

definition blocks_at :: "nat list \<Rightarrow> (nat \<times> nat) option \<Rightarrow> nat \<Rightarrow> cm_instr list" where
  "blocks_at ds h t = (if t \<in> set ds then [] else case h of
     Some (u, k) \<Rightarrow> if t = u then half k u else Func1 t | None \<Rightarrow> Func1 t)"

definition blocks_text :: "nat list \<Rightarrow> (nat \<times> nat) option \<Rightarrow> piece list" where
  "blocks_text ds h = concat (map cm_block ds) @ (case h of Some (u, k) \<Rightarrow> take k (cm_block u) | None \<Rightarrow> [])"

definition blocks_ok :: "piece list \<Rightarrow> cm_state \<Rightarrow> nat list \<Rightarrow> (nat \<times> nat) option \<Rightarrow> bool" where
  "blocks_ok base s ds h \<longleftrightarrow> length (todo s) = 10 \<and> distinct ds \<and> set ds \<subseteq> {..<10} \<and> con_owner s = None
     \<and> io_owner s = map_option fst h \<and> (\<forall>u k. h = Some (u, k) \<longrightarrow> u < 10 \<and> u \<notin> set ds \<and> k \<le> 6)
     \<and> cm_out s = base @ blocks_text ds h \<and> (\<forall>t < 10. todo s ! t = blocks_at ds h t)"

lemma length_cm_block [simp]: "length (cm_block t) = 6"
  by (simp add: cm_block_def)

lemma Func3_Func1: "Func3 = Func1"
  by (simp add: Func3_def Func1_def fun_eq_iff)

lemma blocks_start: "todo s = Test1 \<Longrightarrow> con_owner s = None \<Longrightarrow> io_owner s = None \<Longrightarrow> cm_out s = base \<Longrightarrow>
    blocks_ok base s [] None"
  by (simp add: blocks_ok_def Test1_def blocks_at_def blocks_text_def)

lemma blocks_step:
  assumes ok: "blocks_ok base s ds h" and step: "cm_thread recursive t s = Some s'"
  shows "\<exists>ds' h'. blocks_ok base s' ds' h' \<and> test s' = test s \<and> elements s' = elements s"
proof -
  have t: "t < 10" using step ok by (auto simp: cm_thread_def blocks_ok_def split: if_splits)
  have at: "todo s ! t = blocks_at ds h t" using ok t by (simp add: blocks_ok_def)
  have notin: "t \<notin> set ds" using step at t ok by (auto simp: cm_thread_def blocks_at_def blocks_ok_def)
  show ?thesis
  proof (cases h)
    case None
    have "todo s ! t = Lock Io # half 0 t" using at notin None by (simp add: blocks_at_def Func1_def half_def)
    then have s': "s' = s\<lparr>io_owner := Some t, todo := (todo s)[t := half 0 t]\<rparr>"
      using step t ok None by (auto simp: cm_thread_def blocks_ok_def)
    have "blocks_ok base s' ds (Some (t, 0))"
      using ok t notin None unfolding s'
      by (auto simp: blocks_ok_def blocks_at_def blocks_text_def nth_list_update)
    then show ?thesis by (intro exI conjI) (simp_all add: s')
  next
    case (Some uk)
    then obtain u k where h: "h = Some (u, k)" by (cases uk) simp
    have u: "u < 10" "u \<notin> set ds" "k \<le> 6" "io_owner s = Some u" using ok h by (auto simp: blocks_ok_def)
    have tu: "t = u"
    proof (rule ccontr)
      assume "t \<noteq> u"
      then have "todo s ! t = Lock Io # half 0 t" using at notin h by (simp add: blocks_at_def Func1_def half_def)
      then show False using step u(4) by (simp add: cm_thread_def split: if_splits)
    qed
    show ?thesis
    proof (cases "k < 6")
      case True
      have "drop k (cm_block u) = cm_block u ! k # drop (Suc k) (cm_block u)"
        using True by (simp add: Cons_nth_drop_Suc)
      then have "todo s ! t = Say (cm_block u ! k) # half (Suc k) u"
        using at notin h tu by (simp add: blocks_at_def half_def)
      then have s': "s' = s\<lparr>cm_out := cm_out s @ [cm_block u ! k], todo := (todo s)[t := half (Suc k) u]\<rparr>"
        using step t ok by (auto simp: cm_thread_def blocks_ok_def)
      have "take (Suc k) (cm_block u) = take k (cm_block u) @ [cm_block u ! k]"
        using True by (simp add: take_Suc_conv_app_nth)
      then have "blocks_ok base s' ds (Some (u, Suc k))"
        using ok t u h tu True unfolding s'
        by (auto simp: blocks_ok_def blocks_at_def blocks_text_def nth_list_update)
      then show ?thesis by (intro exI conjI) (simp_all add: s')
    next
      case False
      then have k: "k = 6" using u(3) by simp
      have "todo s ! t = [Unlock Io]" using at notin h tu k by (simp add: blocks_at_def half_def)
      then have s': "s' = s\<lparr>io_owner := None, todo := (todo s)[t := []]\<rparr>"
        using step t ok u(4) tu by (auto simp: cm_thread_def blocks_ok_def)
      have "blocks_ok base s' (ds @ [u]) None"
        using ok t u h tu k unfolding s'
        by (auto simp: blocks_ok_def blocks_at_def blocks_text_def nth_list_update)
      then show ?thesis by (intro exI conjI) (simp_all add: s')
    qed
  qed
qed

text \<open>All have printed; or somebody can go on.\<close>

lemma blocks_done:
  assumes ok: "blocks_ok base s ds h" and "list_all (\<lambda>l. l = []) (todo s)"
  shows "h = None" "distinct ds" "set ds = {..<10}" "cm_out s = base @ concat (map cm_block ds)"
    "io_owner s = None" "con_owner s = None"
proof -
  have empty: "blocks_at ds h t = []" if "t < 10" for t
    using assms that by (auto simp: blocks_ok_def list_all_length)
  have all: "t \<in> set ds" if "t < 10" for t
    using empty [OF that] by (auto simp: blocks_at_def Func1_def half_def split: if_splits option.splits)
  show h: "h = None"
  proof (cases h)
    case (Some uk)
    then show ?thesis using ok all by (cases uk) (auto simp: blocks_ok_def)
  qed
  show "distinct ds" "set ds = {..<10}" using ok all by (auto simp: blocks_ok_def)
  show "cm_out s = base @ concat (map cm_block ds)" "io_owner s = None" "con_owner s = None"
    using ok h by (simp_all add: blocks_ok_def blocks_text_def)
qed

lemma blocks_go_on:
  assumes ok: "blocks_ok base s ds h" and "\<not> list_all (\<lambda>l. l = []) (todo s)"
  shows "\<exists>t. cm_thread recursive t s \<noteq> None"
proof (cases h)
  case None
  obtain t where "t < 10" "todo s ! t \<noteq> []" using assms by (auto simp: blocks_ok_def list_all_length)
  then have "todo s ! t = Lock Io # half 0 t" "t < length (todo s)" "io_owner s = None"
    using ok None by (auto simp: blocks_ok_def blocks_at_def Func1_def half_def split: if_splits)
  then show ?thesis by (intro exI [of _ t]) (simp add: cm_thread_def)
next
  case (Some uk)
  then obtain u k where h: "h = Some (u, k)" by (cases uk) simp
  have u: "u < length (todo s)" "todo s ! u = half k u" "io_owner s = Some u" "k \<le> 6"
    using ok h by (auto simp: blocks_ok_def blocks_at_def)
  have "cm_thread recursive u s \<noteq> None"
  proof (cases "k < 6")
    case True
    then have "drop k (cm_block u) = cm_block u ! k # drop (Suc k) (cm_block u)" by (simp add: Cons_nth_drop_Suc)
    then have "half k u = Say (cm_block u ! k) # half (Suc k) u" by (simp add: half_def)
    then show ?thesis using u by (simp add: cm_thread_def)
  next
    case False
    then have "half k u = [Unlock Io]" using u(4) by (simp add: half_def)
    then show ?thesis using u by (simp add: cm_thread_def)
  qed
  then show ?thesis by blast
qed

section \<open>Threads that fill the container\<close>

text \<open>
  Thread \<open>t\<close> has added \<open>n\<close> numbers of its range and done \<open>r\<close> of the five steps for the next one; \<open>depth\<close>
  is how often it has the mutex then.
\<close>

definition range_of :: "nat \<Rightarrow> int list" where
  "range_of t = (if t = 0 then [1..10] else [100..110])"

definition depth :: "nat \<Rightarrow> nat" where
  "depth r = [0, 1, 2, 2, 1] ! r"

definition fill_at :: "int list \<Rightarrow> nat \<Rightarrow> nat \<Rightarrow> cm_instr list" where
  "fill_at L n r = (if n < length L then drop r (AddForTestRecursive (L ! n)) @ Func2 (drop (Suc n) L) else [])"

definition added :: "nat \<Rightarrow> nat \<Rightarrow> nat" where
  "added n r = (if 3 \<le> r then Suc n else n)"

definition fill_ok :: "piece list \<Rightarrow> cm_state \<Rightarrow> (nat \<Rightarrow> nat) \<Rightarrow> (nat \<Rightarrow> nat) \<Rightarrow> bool" where
  "fill_ok base s n r \<longleftrightarrow> length (todo s) = 2 \<and> io_owner s = None \<and> cm_out s = base
     \<and> (\<forall>t < 2. todo s ! t = fill_at (range_of t) (n t) (r t) \<and> r t < 5 \<and> (r t \<noteq> 0 \<longrightarrow> n t < length (range_of t)))
     \<and> (\<forall>t < 2. filter (\<lambda>x. x \<in> set (range_of t)) (elements s) = take (added (n t) (r t)) (range_of t))
     \<and> set (elements s) \<subseteq> set (range_of 0) \<union> set (range_of 1)
     \<and> (\<forall>t d. con_owner s = Some (t, d) \<longleftrightarrow> t < 2 \<and> d = depth (r t) \<and> 0 < d)"

lemma depth_simps [simp]: "depth 0 = 0" "depth (Suc 0) = 1" "depth 2 = 2" "depth 3 = 2" "depth 4 = 1"
  by (simp_all add: depth_def)

lemma drop_add:
  "drop 0 (AddForTestRecursive x) = Lock Container # drop 1 (AddForTestRecursive x)"
  "drop 1 (AddForTestRecursive x) = Lock Container # drop 2 (AddForTestRecursive x)"
  "drop 2 (AddForTestRecursive x) = Push x # drop 3 (AddForTestRecursive x)"
  "drop 3 (AddForTestRecursive x) = Unlock Container # drop 4 (AddForTestRecursive x)"
  "drop 4 (AddForTestRecursive x) = [Unlock Container]"
  by (simp_all add: AddForTestRecursive_def Add_def numeral_eq_Suc)

lemma fill_at_simps:
  assumes "n < length L"
  shows "fill_at L n 0 = Lock Container # fill_at L n 1" "fill_at L n 1 = Lock Container # fill_at L n 2"
    "fill_at L n 2 = Push (L ! n) # fill_at L n 3" "fill_at L n 3 = Unlock Container # fill_at L n 4"
    "fill_at L n 4 = Unlock Container # fill_at L (Suc n) 0"
proof -
  have "Func2 (drop (Suc n) L) = fill_at L (Suc n) 0"
  proof (cases "Suc n < length L")
    case True
    then have "drop (Suc n) L = L ! Suc n # drop (Suc (Suc n)) L" by (simp add: Cons_nth_drop_Suc)
    then show ?thesis using True by (simp add: fill_at_def Func2_def)
  qed (simp add: fill_at_def Func2_def)
  then show "fill_at L n 4 = Unlock Container # fill_at L (Suc n) 0"
    using assms by (simp only: fill_at_def if_True drop_add append.simps)
qed (use assms in \<open>simp_all only: fill_at_def if_True drop_add append.simps\<close>)

lemma fill_at_done: "\<not> n < length L \<Longrightarrow> fill_at L n r = []"
  by (simp add: fill_at_def)

lemma ranges_apart: "t < 2 \<Longrightarrow> u < 2 \<Longrightarrow> t \<noteq> u \<Longrightarrow> x \<in> set (range_of t) \<Longrightarrow> x \<notin> set (range_of u)"
  by (cases "t = 0"; cases "u = 0") (auto simp: range_of_def)

lemma fill_start:
  "todo s = Test2 \<Longrightarrow> con_owner s = None \<Longrightarrow> io_owner s = None \<Longrightarrow> cm_out s = base \<Longrightarrow> elements s = [] \<Longrightarrow>
     fill_ok base s (\<lambda>_. 0) (\<lambda>_. 0)"
proof -
  assume a: "todo s = Test2" "con_owner s = None" "io_owner s = None" "cm_out s = base" "elements s = []"
  have "Func2 L = fill_at L 0 0" if "L \<noteq> []" for L using that by (cases L) (simp_all add: fill_at_def Func2_def)
  then have "todo s ! t = fill_at (range_of t) 0 0" if "t < 2" for t
    using that a(1) by (cases "t = 0") (simp_all add: Test2_def range_of_def nth_Cons')
  then show ?thesis using a by (auto simp: fill_ok_def Test2_def added_def)
qed

text \<open>A step of thread \<open>t\<close> to \<open>n'\<close> and \<open>r'\<close>.\<close>

lemma fill_move:
  assumes ok: "fill_ok base s n r" and t: "t < 2"
    and new: "r' < 5" "r' \<noteq> 0 \<longrightarrow> n' < length (range_of t)"
    and el: "el = elements s \<and> added n' r' = added (n t) (r t)
      \<or> el = elements s @ [range_of t ! n t] \<and> n t < length (range_of t) \<and> added (n t) (r t) = n t \<and> added n' r' = Suc (n t)"
    and owner: "\<And>u. u < 2 \<Longrightarrow> u \<noteq> t \<Longrightarrow> depth (r u) = 0"
    and con: "con = (if 0 < depth r' then Some (t, depth r') else None)"
  shows "fill_ok base (s\<lparr>con_owner := con, elements := el, todo := (todo s)[t := fill_at (range_of t) n' r']\<rparr>)
    (n(t := n')) (r(t := r'))"
proof -
  let ?n = "n(t := n')" and ?r = "r(t := r')"
  have F: "filter (\<lambda>x. x \<in> set (range_of u)) (elements s) = take (added (n u) (r u)) (range_of u)" if "u < 2" for u
    using ok that by (simp add: fill_ok_def)
  have "filter (\<lambda>x. x \<in> set (range_of u)) el = take (added (?n u) (?r u)) (range_of u)" if u: "u < 2" for u
  proof (cases "u = t")
    case True
    then show ?thesis using el F [OF t] by (auto simp: take_Suc_conv_app_nth)
  next
    case False
    have "range_of t ! n t \<notin> set (range_of u)" if "n t < length (range_of t)"
      using ranges_apart [OF t u] False that by simp
    then show ?thesis using el F [OF u] False by auto
  qed
  moreover have "set el \<subseteq> set (range_of 0) \<union> set (range_of 1)"
  proof -
    have "range_of t ! n t \<in> set (range_of 0) \<union> set (range_of 1)" if "n t < length (range_of t)"
      using t that nth_mem [OF that] by (cases "t = 0") (auto simp: less_2_cases_iff)
    then show ?thesis using el ok by (auto simp: fill_ok_def)
  qed
  moreover have "con = Some (u, d) \<longleftrightarrow> u < 2 \<and> d = depth (?r u) \<and> 0 < d" for u d
    using con t owner [of u] by (cases "u = t") auto
  ultimately show ?thesis
    using ok t new by (simp add: fill_ok_def nth_list_update)
qed

lemma cm_same: "s\<lparr>con_owner := con_owner s, elements := el\<rparr> = s\<lparr>elements := el\<rparr>"
  "s\<lparr>con_owner := m, elements := elements s\<rparr> = s\<lparr>con_owner := m\<rparr>"
  by (cases s; simp)+

lemma fill_step:
  assumes ok: "fill_ok base s n r" and step: "cm_thread True t s = Some s'"
  shows "\<exists>n' r'. fill_ok base s' n' r' \<and> test s' = test s"
proof -
  have t: "t < 2" "t < length (todo s)" using step ok by (auto simp: cm_thread_def fill_ok_def split: if_splits)
  have at: "todo s ! t = fill_at (range_of t) (n t) (r t)" "r t < 5" using ok t by (auto simp: fill_ok_def)
  have n: "n t < length (range_of t)"
    using step at t by (cases "n t < length (range_of t)") (simp_all add: cm_thread_def fill_at_done)
  note L = fill_at_simps [OF n]
  have own: "con_owner s = Some (u, d) \<longleftrightarrow> u < 2 \<and> d = depth (r u) \<and> 0 < d" for u d using ok by (simp add: fill_ok_def)
  have alone: "depth (r u) = 0" if "u < 2" "u \<noteq> t" "0 < depth (r t)" for u
    using own [of u "depth (r u)"] own [of t "depth (r t)"] that t by auto
  have free: "depth (r u) = 0" if "u < 2" "con_owner s = None" for u
    using own [of u "depth (r u)"] that by auto
  note move = fill_move [OF ok t(1)]
  consider "r t = 0" | "r t = 1" | "r t = 2" | "r t = 3" | "r t = 4" using at(2) by linarith
  then show ?thesis
  proof cases
    case 1
    have none: "con_owner s = None"
    proof (cases "con_owner s")
      case (Some ud)
      then obtain u d where ud: "con_owner s = Some (u, d)" by (cases ud) simp
      then have "u \<noteq> t" using own [of u d] 1 by auto
      then show ?thesis using step at(1) L(1) 1 t ud by (simp add: cm_thread_def cm_lock_def)
    qed simp
    have "fill_ok base (s\<lparr>con_owner := Some (t, 1), elements := elements s,
        todo := (todo s)[t := fill_at (range_of t) (n t) 1]\<rparr>) (n(t := n t)) (r(t := 1))"
      by (rule move) (use free none n 1 in \<open>simp_all add: added_def\<close>)
    moreover have "s' = s\<lparr>con_owner := Some (t, 1), todo := (todo s)[t := fill_at (range_of t) (n t) 1]\<rparr>"
      using step at(1) L(1) 1 t none by (simp add: cm_thread_def cm_lock_def)
    ultimately show ?thesis unfolding cm_same by auto
  next
    case 2
    then have c: "con_owner s = Some (t, 1)" using own t by simp
    have "fill_ok base (s\<lparr>con_owner := Some (t, 2), elements := elements s,
        todo := (todo s)[t := fill_at (range_of t) (n t) 2]\<rparr>) (n(t := n t)) (r(t := 2))"
      by (rule move) (use alone n 2 in \<open>simp_all add: added_def\<close>)
    moreover have "s' = s\<lparr>con_owner := Some (t, 2), todo := (todo s)[t := fill_at (range_of t) (n t) 2]\<rparr>"
      using step at(1) L(2) 2 t c by (simp add: cm_thread_def cm_lock_def numeral_2_eq_2)
    ultimately show ?thesis unfolding cm_same by auto
  next
    case 3
    then have c: "con_owner s = Some (t, 2)" using own t by simp
    have "fill_ok base (s\<lparr>con_owner := con_owner s, elements := elements s @ [range_of t ! n t],
        todo := (todo s)[t := fill_at (range_of t) (n t) 3]\<rparr>) (n(t := n t)) (r(t := 3))"
      by (rule move) (use alone n 3 c in \<open>simp_all add: added_def\<close>)
    moreover have "s' = s\<lparr>elements := elements s @ [range_of t ! n t], todo := (todo s)[t := fill_at (range_of t) (n t) 3]\<rparr>"
      using step at(1) L(3) 3 t by (simp add: cm_thread_def)
    ultimately show ?thesis unfolding cm_same by auto
  next
    case 4
    then have c: "con_owner s = Some (t, 2)" using own t by simp
    have "fill_ok base (s\<lparr>con_owner := Some (t, 1), elements := elements s,
        todo := (todo s)[t := fill_at (range_of t) (n t) 4]\<rparr>) (n(t := n t)) (r(t := 4))"
      by (rule move) (use alone n 4 in \<open>simp_all add: added_def\<close>)
    moreover have "s' = s\<lparr>con_owner := Some (t, 1), todo := (todo s)[t := fill_at (range_of t) (n t) 4]\<rparr>"
      using step at(1) L(4) 4 t c by (simp add: cm_thread_def cm_unlock_def)
    ultimately show ?thesis unfolding cm_same by auto
  next
    case 5
    then have c: "con_owner s = Some (t, 1)" using own t by simp
    have "fill_ok base (s\<lparr>con_owner := None, elements := elements s,
        todo := (todo s)[t := fill_at (range_of t) (Suc (n t)) 0]\<rparr>) (n(t := Suc (n t))) (r(t := 0))"
      by (rule move) (use alone n 5 in \<open>simp_all add: added_def\<close>)
    moreover have "s' = s\<lparr>con_owner := None, todo := (todo s)[t := fill_at (range_of t) (Suc (n t)) 0]\<rparr>"
      using step at(1) L(5) 5 t c by (simp add: cm_thread_def cm_unlock_def)
    ultimately show ?thesis unfolding cm_same by auto
  qed
qed

text \<open>What the container holds in the end: both ranges, each in its order.\<close>

definition filled :: "int list \<Rightarrow> bool" where
  "filled xs \<longleftrightarrow> filter (\<lambda>x. x \<in> set [1..10]) xs = [1..10] \<and> filter (\<lambda>x. x \<in> set [100..110]) xs = [100..110]
     \<and> set xs \<subseteq> set [1..10] \<union> set [100..110]"

lemma fill_done:
  assumes ok: "fill_ok base s n r" and "list_all (\<lambda>l. l = []) (todo s)"
  shows "filled (elements s)" "con_owner s = None" "io_owner s = None" "cm_out s = base"
proof -
  have all: "\<not> n t < length (range_of t) \<and> r t = 0" if t: "t < 2" for t
  proof -
    have "fill_at (range_of t) (n t) (r t) = []" "r t < 5" "r t \<noteq> 0 \<longrightarrow> n t < length (range_of t)"
      using assms t by (auto simp: fill_ok_def list_all_length)
    moreover have "r t = 0 \<or> r t = 1 \<or> r t = 2 \<or> r t = 3 \<or> r t = 4" using \<open>r t < 5\<close> by linarith
    ultimately show ?thesis using fill_at_simps [of "n t" "range_of t"] by auto
  qed
  have "filter (\<lambda>x. x \<in> set (range_of t)) (elements s) = range_of t" if "t < 2" for t
    using ok all [OF that] that by (simp add: fill_ok_def added_def)
  from this [of 0] this [of 1] ok show "filled (elements s)" by (simp add: filled_def range_of_def fill_ok_def)
  show "con_owner s = None"
  proof (cases "con_owner s")
    case (Some ud)
    obtain u d where ud: "ud = (u, d)" by (cases ud)
    have "u < 2 \<and> d = depth (r u) \<and> 0 < d" using ok Some ud unfolding fill_ok_def by blast
    then show ?thesis using all [of u] by simp
  qed simp
  show "io_owner s = None" "cm_out s = base" using ok by (simp_all add: fill_ok_def)
qed

lemma fill_go_on:
  assumes ok: "fill_ok base s n r" and "\<not> list_all (\<lambda>l. l = []) (todo s)"
  shows "\<exists>t. cm_thread True t s \<noteq> None"
proof -
  have own: "con_owner s = Some (u, d) \<longleftrightarrow> u < 2 \<and> d = depth (r u) \<and> 0 < d" for u d using ok by (simp add: fill_ok_def)
  have at: "todo s ! t = fill_at (range_of t) (n t) (r t)" "r t < 5" "r t \<noteq> 0 \<longrightarrow> n t < length (range_of t)"
    "t < length (todo s)" if "t < 2" for t using ok that by (simp_all add: fill_ok_def)
  show ?thesis
  proof (cases "con_owner s")
    case None
    obtain t where t: "t < 2" "todo s ! t \<noteq> []" using assms by (auto simp: fill_ok_def list_all_length)
    then have n: "n t < length (range_of t)" using at(1) fill_at_done by metis
    have "depth (r t) = 0" using own [of t "depth (r t)"] None t(1) by auto
    moreover have "r t = 0 \<or> r t = 1 \<or> r t = 2 \<or> r t = 3 \<or> r t = 4" using at(2) [OF t(1)] by linarith
    ultimately have "r t = 0" by auto
    then have "cm_thread True t s \<noteq> None"
      using at(1,4) [OF t(1)] fill_at_simps(1) [OF n] None by (simp add: cm_thread_def cm_lock_def)
    then show ?thesis by blast
  next
    case (Some ud)
    obtain t d where ud: "ud = (t, d)" by (cases ud)
    then have t: "t < 2" "d = depth (r t)" "0 < d" using own [of t d] Some by auto
    then have "r t \<noteq> 0" by (metis depth_simps(1) less_irrefl)
    then have n: "n t < length (range_of t)" using at(3) [OF t(1)] by simp
    have "r t = 1 \<or> r t = 2 \<or> r t = 3 \<or> r t = 4" using at(2) [OF t(1)] \<open>r t \<noteq> 0\<close> by linarith
    then have "cm_thread True t s \<noteq> None"
      using at(1,4) [OF t(1)] fill_at_simps [OF n] Some ud by (auto simp: cm_thread_def cm_lock_def cm_unlock_def)
    then show ?thesis by blast
  qed
qed

section \<open>The dump\<close>

definition numbers :: "int list \<Rightarrow> piece list" where
  "numbers xs = concat (map (\<lambda>x. [Num x, Newline]) xs)"

definition dump_ok :: "piece list \<Rightarrow> cm_state \<Rightarrow> nat \<Rightarrow> bool" where
  "dump_ok base s k \<longleftrightarrow> todo s = [drop k Dump] \<and> k \<le> 3 \<and> io_owner s = None
     \<and> con_owner s = (if k = 1 \<or> k = 2 then Some (0, 1) else None)
     \<and> filled (elements s) \<and> cm_out s = base @ (if 2 \<le> k then numbers (elements s) else [])"

lemma dump_drop: "drop 0 Dump = Lock Container # drop 1 Dump" "drop 1 Dump = Say_elements # drop 2 Dump"
  "drop 2 Dump = Unlock Container # drop 3 Dump" "drop 3 Dump = []"
  by (simp_all add: Dump_def numeral_eq_Suc)

lemma dump_step:
  assumes ok: "dump_ok base s k" and step: "cm_thread True t s = Some s'"
  shows "dump_ok base s' (Suc k) \<and> test s' = test s"
proof -
  have t: "t = 0" using step ok by (auto simp: cm_thread_def dump_ok_def split: if_splits)
  have "k = 0 \<or> k = 1 \<or> k = 2 \<or> k = 3" using ok unfolding dump_ok_def by linarith
  then show ?thesis
    using ok step t
    by (auto simp: dump_ok_def cm_thread_def cm_lock_def cm_unlock_def numbers_def Dump_def numeral_eq_Suc)
qed

lemma dump_done: "dump_ok base s k \<Longrightarrow> list_all (\<lambda>l. l = []) (todo s) \<Longrightarrow>
    k = 3 \<and> cm_out s = base @ numbers (elements s) \<and> io_owner s = None \<and> con_owner s = None \<and> filled (elements s)"
proof -
  assume ok: "dump_ok base s k" and e: "list_all (\<lambda>l. l = []) (todo s)"
  have "k = 0 \<or> k = 1 \<or> k = 2 \<or> k = 3" using ok unfolding dump_ok_def by linarith
  moreover have "drop k Dump = []" using ok e by (simp add: dump_ok_def)
  ultimately have "k = 3" using dump_drop by auto
  then show ?thesis using ok by (simp add: dump_ok_def)
qed

lemma dump_go_on: "dump_ok base s k \<Longrightarrow> \<not> list_all (\<lambda>l. l = []) (todo s) \<Longrightarrow> cm_thread True 0 s \<noteq> None"
proof -
  assume ok: "dump_ok base s k" and e: "\<not> list_all (\<lambda>l. l = []) (todo s)"
  have "k = 0 \<or> k = 1 \<or> k = 2 \<or> k = 3" using ok unfolding dump_ok_def by linarith
  then show ?thesis using ok e
    by (auto simp: dump_ok_def cm_thread_def cm_lock_def cm_unlock_def Dump_def numeral_eq_Suc)
qed

section \<open>The whole program\<close>

text \<open>What has been printed by the tests before this one.\<close>

definition printed_blocks :: "piece list \<Rightarrow> bool" where
  "printed_blocks ps \<longleftrightarrow> (\<exists>ds. distinct ds \<and> set ds = {..<10} \<and> ps = concat (map cm_block ds))"

definition printed_numbers :: "piece list \<Rightarrow> bool" where
  "printed_numbers ps \<longleftrightarrow> (\<exists>xs. filled xs \<and> ps = numbers xs)"

definition before_test :: "nat \<Rightarrow> piece list \<Rightarrow> bool" where
  "before_test k base \<longleftrightarrow> (if k \<le> 1 then base = [] else if k \<le> 3 then printed_blocks base
     else if k = 4 then \<exists>a b. base = a @ b \<and> printed_blocks a \<and> printed_numbers b
     else \<exists>a b c. base = a @ b @ c \<and> printed_blocks a \<and> printed_numbers b \<and> printed_blocks c)"

definition cm_inv :: "cm_state \<Rightarrow> bool" where
  "cm_inv s \<longleftrightarrow> (\<exists>base. before_test (test s) base \<and>
     ((test s = 1 \<or> test s = 4) \<and> (\<exists>ds h. blocks_ok base s ds h)
      \<or> test s = 2 \<and> (\<exists>n r. fill_ok base s n r)
      \<or> test s = 3 \<and> (\<exists>k. dump_ok base s k)
      \<or> test s = 5 \<and> cm_out s = base \<and> list_all (\<lambda>l. l = []) (todo s)))"

lemma cm_invE:
  assumes "cm_inv s"
  obtains (blocks) base ds h where "before_test (test s) base" "test s = 1 \<or> test s = 4" "blocks_ok base s ds h"
    | (fill) base n r where "before_test (test s) base" "test s = 2" "fill_ok base s n r"
    | (dump) base k where "before_test (test s) base" "test s = 3" "dump_ok base s k"
    | (over) base where "before_test (test s) base" "test s = 5" "cm_out s = base" "list_all (\<lambda>l. l = []) (todo s)"
  using assms unfolding cm_inv_def by blast

lemma cm_invI:
  "before_test (test s) base \<Longrightarrow> test s = 1 \<or> test s = 4 \<Longrightarrow> blocks_ok base s ds h \<Longrightarrow> cm_inv s"
  "before_test (test s) base \<Longrightarrow> test s = 2 \<Longrightarrow> fill_ok base s n r \<Longrightarrow> cm_inv s"
  "before_test (test s) base \<Longrightarrow> test s = 3 \<Longrightarrow> dump_ok base s k \<Longrightarrow> cm_inv s"
  "before_test (test s) (cm_out s) \<Longrightarrow> test s = 5 \<Longrightarrow> list_all (\<lambda>l. l = []) (todo s) \<Longrightarrow> cm_inv s"
  unfolding cm_inv_def by blast+

lemma cm_inv_start: "cm_inv cm_start"
proof -
  have "blocks_ok [] cm_start [] None" by (rule blocks_start) (simp_all add: cm_start_def)
  then show ?thesis by (rule cm_invI(1) [rotated 2]) (simp_all add: cm_start_def before_test_def)
qed

lemma nobody_moves: "list_all (\<lambda>l. l = []) (todo s) \<Longrightarrow> cm_thread recursive t s = None"
  by (simp add: cm_thread_def list_all_length)

lemma cm_thread_inv:
  assumes "cm_inv s" "cm_thread True t s = Some s'"
  shows "cm_inv s'"
  using assms(1)
proof (cases rule: cm_invE)
  case (blocks base ds h)
  from blocks_step [OF blocks(3) assms(2)] obtain ds' h' where "blocks_ok base s' ds' h'" "test s' = test s" by blast
  with blocks(1,2) show ?thesis using cm_invI(1) [of s'] by metis
next
  case (fill base n r)
  from fill_step [OF fill(3) assms(2)] obtain n' r' where "fill_ok base s' n' r'" "test s' = test s" by blast
  with fill(1,2) show ?thesis using cm_invI(2) [of s'] by metis
next
  case (dump base k)
  from dump_step [OF dump(3) assms(2)] dump(1,2) show ?thesis using cm_invI(3) [of s'] by metis
next
  case (over base)
  then show ?thesis using assms(2) nobody_moves by simp
qed

lemma cm_main_inv:
  assumes "cm_inv s" "cm_main s = Some s'"
  shows "cm_inv s'"
proof -
  have e: "list_all (\<lambda>l. l = []) (todo s)" using assms(2) by (auto simp: cm_main_def split: if_splits)
  show ?thesis using assms(1)
  proof (cases rule: cm_invE)
    case (blocks base ds h)
    note d = blocks_done [OF blocks(3) e]
    have c: "printed_blocks (concat (map cm_block ds))" using d(2,3) by (auto simp: printed_blocks_def)
    show ?thesis
    proof (cases "test s = 1")
      case True
      then have s': "s' = s\<lparr>todo := Test2, elements := [], con_owner := None, test := 2\<rparr>"
        using assms(2) e by (simp add: cm_main_def)
      have "fill_ok (cm_out s) s' (\<lambda>_. 0) (\<lambda>_. 0)" by (rule fill_start) (simp_all add: s' d(5))
      moreover have "before_test (test s') (cm_out s)" using blocks(1) d(4) c True by (simp add: before_test_def s')
      ultimately show ?thesis by (intro cm_invI(2)) (simp_all add: s')
    next
      case False
      then have 4: "test s = 4" using blocks(2) by simp
      have s': "s' = s\<lparr>test := 5\<rparr>" using assms(2) e 4 by (simp add: cm_main_def)
      obtain a b where ab: "base = a @ b" "printed_blocks a" "printed_numbers b"
        using blocks(1) 4 by (auto simp: before_test_def)
      have "cm_out s = a @ b @ concat (map cm_block ds)" using d(4) ab(1) by simp
      with ab(2,3) c have "before_test (test s') (cm_out s')" unfolding before_test_def s' by auto
      then show ?thesis by (rule cm_invI(4)) (simp_all add: s' e)
    qed
  next
    case (fill base n r)
    note d = fill_done [OF fill(3) e]
    have s': "s' = s\<lparr>todo := [Dump], test := 3\<rparr>" using assms(2) e fill(2) by (simp add: cm_main_def)
    have "dump_ok base s' 0" using d by (simp add: dump_ok_def s')
    moreover have "before_test (test s') base" using fill(1,2) by (simp add: before_test_def s')
    ultimately show ?thesis by (intro cm_invI(3)) (simp_all add: s')
  next
    case (dump base k)
    note d = dump_done [OF dump(3) e]
    have s': "s' = s\<lparr>todo := Test3, test := 4\<rparr>" using assms(2) e dump(2) by (simp add: cm_main_def)
    have "blocks_ok (cm_out s) s' [] None"
      by (rule blocks_start) (use d in \<open>simp_all add: s' Test3_def Test1_def Func3_Func1\<close>)
    moreover have "before_test (test s') (cm_out s)"
    proof -
      have "printed_blocks base" using dump(1,2) by (simp add: before_test_def)
      moreover have "printed_numbers (numbers (elements s))" using d by (auto simp: printed_numbers_def)
      ultimately show ?thesis using d unfolding before_test_def s' by auto
    qed
    ultimately show ?thesis by (intro cm_invI(1)) (simp_all add: s')
  next
    case (over base)
    then show ?thesis using assms(2) by (simp add: cm_main_def split: if_splits)
  qed
qed

lemma cm_step_inv: "cm_inv s \<Longrightarrow> cm_step True a s = Some s' \<Longrightarrow> cm_inv s'"
  using cm_thread_inv [of s _ s'] cm_main_inv [of s s'] by (cases a) simp_all

lemma cm_run_inv: "cm_run True as s = Some s' \<Longrightarrow> cm_inv s \<Longrightarrow> cm_inv s'"
proof (induction as arbitrary: s)
  case (Cons a as)
  then obtain s1 where s1: "cm_step True a s = Some s1" "cm_run True as s1 = Some s'"
    by (auto simp: bind_eq_Some_conv)
  from Cons.IH [OF s1(2) cm_step_inv [OF Cons.prems(2) s1(1)]] show ?case .
qed simp

text \<open>Nobody is stuck before the end.\<close>

lemma cm_not_stuck:
  assumes inv: "cm_inv s" and stuck: "cm_stuck True s"
  shows "test s = 5"
proof -
  have no: "cm_thread True t s = None" "cm_main s = None" for t
    using stuck unfolding cm_stuck_def by (metis cm_step.simps)+
  have e: "test s = 5" if "list_all (\<lambda>l. l = []) (todo s)" "test s \<in> {1, 2, 3, 4, 5}"
    using no(2) that by (auto simp: cm_main_def split: if_splits)
  show ?thesis using inv
  proof (cases rule: cm_invE)
    case (blocks base ds h)
    then show ?thesis using blocks_go_on [OF blocks(3), of True] no(1) e by auto
  next
    case (fill base n r)
    then show ?thesis using fill_go_on [OF fill(3)] no(1) e by auto
  next
    case (dump base k)
    then show ?thesis using dump_go_on [OF dump(3)] no(1) e by auto
  qed simp
qed

section \<open>The container with a mutex that is not recursive\<close>

text \<open>The first thread that adds a number waits for itself, and the other one for it.\<close>

definition halted_ok :: "piece list \<Rightarrow> cm_state \<Rightarrow> bool" where
  "halted_ok base s \<longleftrightarrow> length (todo s) = 2 \<and> cm_out s = base \<and> elements s = [] \<and> test s = 2
     \<and> (con_owner s = None \<and> (\<forall>t < 2. todo s ! t = fill_at (range_of t) 0 0)
       \<or> (\<exists>u < 2. con_owner s = Some (u, 1) \<and> (\<forall>t < 2. todo s ! t = fill_at (range_of t) 0 (if t = u then 1 else 0))))"

lemma range_nonempty: "0 < length (range_of t)"
  by (simp add: range_of_def)

lemmas first_add = fill_at_simps(1,2) [OF range_nonempty]

lemma halted_todo:
  assumes "halted_ok base s" "t < 2"
  shows "\<exists>rest. todo s ! t = Lock Container # rest"
proof -
  have "\<exists>r. todo s ! t = fill_at (range_of t) 0 r \<and> (r = 0 \<or> r = 1)" using assms by (auto simp: halted_ok_def)
  then show ?thesis using first_add [of t] by metis
qed

lemma halted_step:
  assumes ok: "halted_ok base s" and step: "cm_thread False t s = Some s'"
  shows "halted_ok base s'"
proof -
  have t: "t < 2" "t < length (todo s)" using step ok by (auto simp: cm_thread_def halted_ok_def split: if_splits)
  show ?thesis
  proof (cases "con_owner s")
    case None
    then have at: "\<forall>t < 2. todo s ! t = fill_at (range_of t) 0 0" using ok by (auto simp: halted_ok_def)
    have "s' = s\<lparr>con_owner := Some (t, 1), todo := (todo s)[t := fill_at (range_of t) 0 1]\<rparr>"
      using step t at None first_add(1) [of t] by (simp add: cm_thread_def cm_lock_def)
    then show ?thesis using ok t at by (auto simp: halted_ok_def nth_list_update)
  next
    case (Some ud)
    obtain rest where "todo s ! t = Lock Container # rest" using halted_todo [OF ok t(1)] by blast
    then show ?thesis using step t Some by (cases ud) (simp add: cm_thread_def cm_lock_def)
  qed
qed

definition cm_halts :: "cm_state \<Rightarrow> bool" where
  "cm_halts s \<longleftrightarrow> test s = 1 \<and> (\<exists>ds h. blocks_ok [] s ds h) \<or> (\<exists>base. printed_blocks base \<and> halted_ok base s)"

lemma cm_halts_step:
  assumes h: "cm_halts s" and step: "cm_step False a s = Some s'"
  shows "cm_halts s'"
proof (cases a)
  case (Thread t)
  then have st: "cm_thread False t s = Some s'" using step by simp
  from h consider ds h where "test s = 1" "blocks_ok [] s ds h" | base where "printed_blocks base" "halted_ok base s"
    by (auto simp: cm_halts_def)
  then show ?thesis
  proof cases
    case 1
    from blocks_step [OF 1(2) st] 1(1) show ?thesis unfolding cm_halts_def by metis
  next
    case 2
    from halted_step [OF 2(2) st] 2(1) show ?thesis unfolding cm_halts_def by blast
  qed
next
  case Main_goes_on
  then have st: "cm_main s = Some s'" and e: "list_all (\<lambda>l. l = []) (todo s)"
    using step by (auto simp: cm_main_def split: if_splits)
  from h consider ds h where "test s = 1" "blocks_ok [] s ds h" | base where "halted_ok base s"
    by (auto simp: cm_halts_def)
  then show ?thesis
  proof cases
    case 1
    note d = blocks_done [OF 1(2) e]
    have s': "s' = s\<lparr>todo := Test2, elements := [], con_owner := None, test := 2\<rparr>" using st e 1(1) by (simp add: cm_main_def)
    have "fill_ok (cm_out s) s' (\<lambda>_. 0) (\<lambda>_. 0)" by (rule fill_start) (simp_all add: s' d(5))
    then have "halted_ok (cm_out s) s'" by (simp add: halted_ok_def fill_ok_def s')
    moreover have "printed_blocks (cm_out s)" using d by (auto simp: printed_blocks_def)
    ultimately show ?thesis unfolding cm_halts_def by blast
  next
    case 2
    then have "todo s ! 0 = []" using e by (simp add: halted_ok_def list_all_length)
    then show ?thesis using halted_todo [OF 2, of 0] by simp
  qed
qed

lemma cm_halts_run: "cm_run False as s = Some s' \<Longrightarrow> cm_halts s \<Longrightarrow> cm_halts s'"
proof (induction as arbitrary: s)
  case (Cons a as)
  then obtain s1 where s1: "cm_step False a s = Some s1" "cm_run False as s1 = Some s'"
    by (auto simp: bind_eq_Some_conv)
  from Cons.IH [OF s1(2) cm_halts_step [OF Cons.prems(2) s1(1)]] show ?case .
qed simp

lemma cm_halts_start: "cm_halts cm_start"
proof -
  have "blocks_ok [] cm_start [] None" by (rule blocks_start) (simp_all add: cm_start_def)
  then show ?thesis by (auto simp: cm_halts_def cm_start_def)
qed

section \<open>Properties\<close>

lemma recursive_output:
  assumes "cm_run True as cm_start = Some s"
  shows "(cm_stuck True s \<longrightarrow> test s = 5)
    \<and> (test s = 5 \<longrightarrow> (\<exists>ds xs ds'. distinct ds \<and> set ds = {..<10} \<and> distinct ds' \<and> set ds' = {..<10} \<and> filled xs
        \<and> cm_out s = concat (map cm_block ds) @ numbers xs @ concat (map cm_block ds')))"
proof -
  have inv: "cm_inv s" by (rule cm_run_inv [OF assms cm_inv_start])
  have "\<exists>ds xs ds'. distinct ds \<and> set ds = {..<10} \<and> distinct ds' \<and> set ds' = {..<10} \<and> filled xs
        \<and> cm_out s = concat (map cm_block ds) @ numbers xs @ concat (map cm_block ds')" if "test s = 5"
    using inv
  proof (cases rule: cm_invE)
    case (over base)
    then obtain a b c where "cm_out s = a @ b @ c" "printed_blocks a" "printed_numbers b" "printed_blocks c"
      by (auto simp: before_test_def)
    then show ?thesis unfolding printed_blocks_def printed_numbers_def by blast
  qed (use that in simp_all)
  with cm_not_stuck [OF inv] show ?thesis by blast
qed

lemma plain_deadlocks:
  assumes "cm_run False as cm_start = Some s"
  shows "test s \<le> 2 \<and> (test s = 2 \<longrightarrow> elements s = []
    \<and> (\<exists>ds. distinct ds \<and> set ds = {..<10} \<and> cm_out s = concat (map cm_block ds)))"
  using cm_halts_run [OF assms cm_halts_start] by (auto simp: cm_halts_def halted_ok_def printed_blocks_def)

text \<open>One thread after the other.\<close>

definition cm_whole :: "cm_action list" where
  "cm_whole = concat (map (\<lambda>t. replicate 8 (Thread t)) [0..<10]) @ [Main_goes_on]
     @ concat (replicate 10 (replicate 5 (Thread 1) @ replicate 5 (Thread 0))) @ replicate 5 (Thread 1)
     @ [Main_goes_on] @ replicate 3 (Thread 0) @ [Main_goes_on]
     @ concat (map (\<lambda>t. replicate 8 (Thread t)) [0..<10]) @ [Main_goes_on]"

text \<open>
  C25: With the recursive mutex the program is never stuck before its end, in no interleaving; and
  at its end the blocks of the ten threads of the first test stand unmixed in some order, then
  the numbers of the container, which holds both ranges each in its order, then the blocks
  of the third test.  With a mutex that is not recursive the program never gets behind the second
  test, and not one number is added to the container, as the comment in the code warns.
\<close>

theorem cxx_mutex_output:
  assumes "cm_run True as cm_start = Some s" and "cm_run False as' cm_start = Some s'"
  shows "(cm_stuck True s \<longrightarrow> test s = 5)
    \<and> (test s = 5 \<longrightarrow> (\<exists>ds xs ds'. distinct ds \<and> set ds = {..<10} \<and> distinct ds' \<and> set ds' = {..<10} \<and> filled xs
        \<and> cm_out s = concat (map cm_block ds) @ numbers xs @ concat (map cm_block ds')))
    \<and> test s' \<le> 2 \<and> (test s' = 2 \<longrightarrow> elements s' = [])"
  using recursive_output [OF assms(1)] plain_deadlocks [OF assms(2)] by blast

theorem cxx_mutex_output_witness:
  "(\<exists>s xs. cm_run True cm_whole cm_start = Some s \<and> test s = 5 \<and> filled xs
     \<and> (\<exists>ds ds'. cm_out s = concat (map cm_block ds) @ numbers xs @ concat (map cm_block ds')))
   \<and> (\<exists>s. cm_run False (take 82 cm_whole) cm_start = Some s \<and> test s = 2 \<and> con_owner s = Some (1, 1) \<and> elements s = [])"
proof -
  have "map_option test (cm_run True cm_whole cm_start) = Some 5" by code_simp
  then obtain s where s: "cm_run True cm_whole cm_start = Some s" "test s = 5" by auto
  have "map_option (\<lambda>s. (test s, con_owner s)) (cm_run False (take 82 cm_whole) cm_start) = Some (2, Some (1, 1))" by code_simp
  then obtain s' where s': "cm_run False (take 82 cm_whole) cm_start = Some s'" "test s' = 2" "con_owner s' = Some (1, 1)" by auto
  from cxx_mutex_output [OF s(1) s'(1)] s s' show ?thesis by blast
qed

end
