(* ===== verification/ForkDemos.thy ===== *)
theory ForkDemos
  imports Scripts
begin

text \<open>
  \<open>4.Process/1.create_stop/1.fork.c\<close> and \<open>1.fork_2.c\<close>: a process that creates another one.  The two
  are scripts of the theory \<open>Scripts\<close>; each has its own copy of the variables, of the buffer of
  \<open>stdout\<close> and of the list of exit handlers.  A terminal gets every line at once, a file or a pipe
  gets the buffer at the exit (the programs print less than a buffer holds).  What each process
  writes is a list of its own, as the order between the two is left open.  Process 0 is the parent,
  process 1 the child.  The two calls of \<open>atexit\<close> succeed, as ISO C promises room for 32 handlers, so
  the messages of their failure are left out.
\<close>

section \<open>Standard output and exit\<close>

datatype fork_line =
  Process_Creation_Study
| Child_process_is_running
| Parent_process_is_running
| Process_creation_failed
| Child_pid_is
| Father_pid_is
| Perror_fork
| Values nat int int
| First_exit_handler nat
| Second_exit_handler nat

record fork_world =
  written :: "fork_line list list"
  buffers :: "fork_line list list"
  handlers :: "fork_line list list"
  glob :: "int list"
  localvar :: "int list"

definition fw_start :: fork_world where
  "fw_start = \<lparr>written = [[], []], buffers = [[], []], handlers = [[], []], glob = [10, 0], localvar = [8, 0]\<rparr>"

definition printf :: "bool \<Rightarrow> nat \<Rightarrow> fork_line \<Rightarrow> fork_world \<Rightarrow> fork_world" where
  "printf terminal i l w =
     (if terminal then w\<lparr>written := (written w)[i := written w ! i @ [l]]\<rparr>
      else w\<lparr>buffers := (buffers w)[i := buffers w ! i @ [l]]\<rparr>)"

definition atexit :: "nat \<Rightarrow> fork_line \<Rightarrow> fork_world \<Rightarrow> fork_world" where
  "atexit i h w = w\<lparr>handlers := (handlers w)[i := h # handlers w ! i]\<rparr>"

text \<open>The child starts with copies of everything; a handler prints the number of its process.\<close>

definition fork_copy :: "fork_world \<Rightarrow> fork_world" where
  "fork_copy w = w\<lparr>buffers := (buffers w)[1 := buffers w ! 0], handlers := (handlers w)[1 := handlers w ! 0],
     glob := (glob w)[1 := glob w ! 0], localvar := (localvar w)[1 := localvar w ! 0]\<rparr>"

fun handler_of :: "nat \<Rightarrow> fork_line \<Rightarrow> fork_line" where
  "handler_of i (First_exit_handler j) = First_exit_handler i"
| "handler_of i (Second_exit_handler j) = Second_exit_handler i"
| "handler_of i l = l"

text \<open>The exit of a process with \<open>n\<close> handlers: it calls them, the last registered one first, and then flushes.\<close>

definition call_handler :: "bool \<Rightarrow> nat \<Rightarrow> fork_world \<Rightarrow> fork_world" where
  "call_handler terminal i w =
     (case handlers w ! i of
        [] \<Rightarrow> w
      | h # hs \<Rightarrow> printf terminal i (handler_of i h) (w\<lparr>handlers := (handlers w)[i := hs]\<rparr>))"

definition flush :: "nat \<Rightarrow> fork_world \<Rightarrow> fork_world" where
  "flush i w = w\<lparr>written := (written w)[i := written w ! i @ buffers w ! i], buffers := (buffers w)[i := []]\<rparr>"

definition exit_process :: "bool \<Rightarrow> nat \<Rightarrow> nat \<Rightarrow> fork_world cmd list" where
  "exit_process terminal i n = replicate n (Act (call_handler terminal i)) @ [Act (flush i)]"

section \<open>The programs\<close>

text \<open>\<open>1.fork.c\<close>; \<open>ok\<close>: the fork succeeds.\<close>

definition fork_main :: "bool \<Rightarrow> bool \<Rightarrow> fork_world cmd list" where
  "fork_main terminal ok =
     Act (printf terminal 0 Process_Creation_Study) #
     (if ok then [Act fork_copy, Spawn 1, Act (printf terminal 0 Parent_process_is_running)]
      else [Act (printf terminal 0 Process_creation_failed)])
     @ exit_process terminal 0 0"

definition fork_child :: "bool \<Rightarrow> fork_world cmd list" where
  "fork_child terminal = Act (printf terminal 1 Child_process_is_running) # exit_process terminal 1 0"

definition fork_program :: "bool \<Rightarrow> bool \<Rightarrow> fork_world program" where
  "fork_program terminal ok = [fork_main terminal ok, fork_child terminal]"

text \<open>\<open>1.fork_2.c\<close>; \<open>perror\<close> is not buffered, whatever \<open>stdout\<close> is; the last \<open>printf\<close> and the exit are shared by both.\<close>

definition print_values :: "bool \<Rightarrow> nat \<Rightarrow> fork_world \<Rightarrow> fork_world" where
  "print_values terminal i w = printf terminal i (Values i (glob w ! i) (localvar w ! i)) w"

definition rest_of_main :: "bool \<Rightarrow> nat \<Rightarrow> fork_world cmd list" where
  "rest_of_main terminal i = Act (print_values terminal i) # exit_process terminal i 2"

definition fork2_main :: "bool \<Rightarrow> bool \<Rightarrow> fork_world cmd list" where
  "fork2_main terminal ok =
     [Act (atexit 0 (First_exit_handler 0)), Act (atexit 0 (Second_exit_handler 0))]
     @ (if ok
        then [Act fork_copy, Spawn 1,
              Act (\<lambda>w. w\<lparr>glob := (glob w)[0 := glob w ! 0 + 1]\<rparr>),
              Act (\<lambda>w. w\<lparr>localvar := (localvar w)[0 := localvar w ! 0 - 1]\<rparr>),
              Act (printf terminal 0 Father_pid_is)]
        else [Act (printf True 0 Perror_fork)])
     @ rest_of_main terminal 0"

definition fork2_child :: "bool \<Rightarrow> fork_world cmd list" where
  "fork2_child terminal = Act (printf terminal 1 Child_pid_is) # rest_of_main terminal 1"

definition fork2_program :: "bool \<Rightarrow> bool \<Rightarrow> fork_world program" where
  "fork2_program terminal ok = [fork2_main terminal ok, fork2_child terminal]"

section \<open>All interleavings\<close>

definition fork_outputs :: "bool \<Rightarrow> bool \<Rightarrow> fork_line list list" where
  "fork_outputs terminal ok =
     (if \<not> ok then [[Process_Creation_Study, Process_creation_failed], []]
      else [[Process_Creation_Study, Parent_process_is_running],
            if terminal then [Child_process_is_running] else [Process_Creation_Study, Child_process_is_running]])"

definition fork2_outputs :: "bool \<Rightarrow> fork_line list list" where
  "fork2_outputs ok =
     (if ok
      then [[Father_pid_is, Values 0 11 7, Second_exit_handler 0, First_exit_handler 0],
            [Child_pid_is, Values 1 10 8, Second_exit_handler 1, First_exit_handler 1]]
      else [[Perror_fork, Values 0 10 8, Second_exit_handler 0, First_exit_handler 0], []])"

definition ends_with :: "fork_line list list \<Rightarrow> fork_world program \<Rightarrow> fork_world sys \<Rightarrow> bool" where
  "ends_with out prog s \<longleftrightarrow> (stuck prog s \<longrightarrow> finished prog s \<and> written (shared s) = out)"

lemma fork_sweep:
  "list_all (\<lambda>(terminal, ok). sweep (ends_with (fork_outputs terminal ok) (fork_program terminal ok))
     (fork_program terminal ok) 12 [start (fork_program terminal ok) [] fw_start])
     [(True, True), (True, False), (False, True), (False, False)]"
  by code_simp

lemma fork2_sweep:
  "list_all (\<lambda>(terminal, ok). sweep (ends_with (fork2_outputs ok) (fork2_program terminal ok))
     (fork2_program terminal ok) 20 [start (fork2_program terminal ok) [] fw_start])
     [(True, True), (True, False), (False, True), (False, False)]"
  by code_simp

lemma by_flags: "list_all (\<lambda>(a, b). P a b) [(True, True), (True, False), (False, True), (False, False)] \<Longrightarrow> P a b"
  by (cases a; cases b) simp_all

section \<open>Properties\<close>

text \<open>
  C27: In every interleaving, with \<open>stdout\<close> a terminal or not and the fork successful or not, both
  programs come to their end and write what is expected: the child has the values from before the
  fork and the parent its own changed ones, and the exit handlers run in both, the last one
  registered first.  But \<open>1.fork.c\<close> writes its first line twice when \<open>stdout\<close> is not a terminal, as
  the child gets a copy of the buffer.
\<close>

theorem fork_programs_write:
  assumes "run (fork_program terminal ok) sched (start (fork_program terminal ok) [] fw_start) = Some s"
    and "run (fork2_program terminal2 ok2) sched2 (start (fork2_program terminal2 ok2) [] fw_start) = Some s2"
  shows "(stuck (fork_program terminal ok) s \<longrightarrow>
      finished (fork_program terminal ok) s \<and> written (shared s) = fork_outputs terminal ok)
    \<and> (stuck (fork2_program terminal2 ok2) s2 \<longrightarrow>
      finished (fork2_program terminal2 ok2) s2 \<and> written (shared s2) = fork2_outputs ok2)"
  using sweep_run [OF by_flags [OF fork_sweep] assms(1)] sweep_run [OF by_flags [OF fork2_sweep] assms(2)]
  by (simp add: ends_with_def)

theorem fork_programs_write_witness:
  "\<exists>s. run (fork_program False True) [0, 0, 0, 1, 0, 1, 0] (start (fork_program False True) [] fw_start) = Some s
     \<and> written (shared s) = [[Process_Creation_Study, Parent_process_is_running],
         [Process_Creation_Study, Child_process_is_running]]"
proof -
  have "map_option (stuck (fork_program False True))
      (run (fork_program False True) [0, 0, 0, 1, 0, 1, 0] (start (fork_program False True) [] fw_start)) = Some True"
    by code_simp
  then obtain s where s: "run (fork_program False True) [0, 0, 0, 1, 0, 1, 0] (start (fork_program False True) [] fw_start) = Some s"
    "stuck (fork_program False True) s" by auto
  have "run (fork2_program True True) [] (start (fork2_program True True) [] fw_start)
    = Some (start (fork2_program True True) [] fw_start)" by simp
  from fork_programs_write [OF s(1) this] s show ?thesis by (simp add: fork_outputs_def)
qed

end
