(* ===== verification/PipeDemos.thy ===== *)
theory PipeDemos
  imports ConfigFile "HOL-Library.Sublist"
begin

text \<open>
  \<open>4.Process/5.pipe/1.pipe.c\<close> and \<open>2.pipe2.c\<close>: a parent that writes into a pipe and a child that reads
  from it.  A reader gets what there is, waits while there is nothing and the pipe is open for
  writing in some process, and gets the end of the file after that; a writer waits for room, and
  is killed by a signal when nobody has the pipe open for reading.  Messages are at most
  \<open>PIPE_BUF\<close> bytes and are written whole.
\<close>

section \<open>Pipes\<close>

definition pipe_read :: "nat \<Rightarrow> bool \<Rightarrow> string \<Rightarrow> (string \<times> string) option" where
  "pipe_read n writers d =
     (if d \<noteq> [] then Some (take n d, drop n d) else if writers then None else Some ([], []))"

datatype signal = SIGPIPE

definition pipe_write :: "nat \<Rightarrow> bool \<Rightarrow> string \<Rightarrow> string \<Rightarrow> (signal + string) option" where
  "pipe_write capacity readers m d =
     (if \<not> readers then Some (Inl SIGPIPE)
      else if length d + length m \<le> capacity then Some (Inr (d @ m)) else None)"

section \<open>The program with streams\<close>

text \<open>
  The parent closes its reading end, writes the message five times, with a flush each time, and
  closes its writing end.  The child closes its writing end and reads lines until \<open>fgets\<close> gives
  nothing more.
\<close>

datatype writer_pc = W_close_read | Writer nat | W_close_write | W_done | W_killed

datatype reader_pc = R_close_write | Reader | R_close_read | R_done

record pipe_state =
  pipe_data :: string
  parent_reads :: bool
  parent_writes :: bool
  child_reads :: bool
  child_writes :: bool
  parent_at :: writer_pc
  child_at :: reader_pc
  stream_buf :: string
  stream_eof :: bool
  child_out :: string

definition message_line :: string where
  "message_line = ''Hello, world.'' @ [newline]"

text \<open>A fork that fails leaves no child, and the program goes on as the parent.\<close>

definition pp_start :: "bool \<Rightarrow> pipe_state" where
  "pp_start ok = \<lparr>pipe_data = [], parent_reads = True, parent_writes = True, child_reads = ok, child_writes = ok,
     parent_at = W_close_read, child_at = (if ok then R_close_write else R_done),
     stream_buf = [], stream_eof = False, child_out = []\<rparr>"

definition pp_parent :: "nat \<Rightarrow> pipe_state \<Rightarrow> pipe_state option" where
  "pp_parent capacity s = (case parent_at s of
     W_close_read \<Rightarrow> Some (s\<lparr>parent_reads := False, parent_at := Writer 5\<rparr>)
   | Writer count \<Rightarrow>
       if count = 0 then Some (s\<lparr>parent_at := W_close_write\<rparr>)
       else (case pipe_write capacity (parent_reads s \<or> child_reads s) message_line (pipe_data s) of
               None \<Rightarrow> None
             | Some (Inl SIGPIPE) \<Rightarrow> Some (s\<lparr>parent_at := W_killed, parent_writes := False\<rparr>)
             | Some (Inr d) \<Rightarrow> Some (s\<lparr>pipe_data := d, parent_at := Writer (count - 1)\<rparr>))
   | W_close_write \<Rightarrow> Some (s\<lparr>parent_writes := False, parent_at := W_done\<rparr>)
   | _ \<Rightarrow> None)"

text \<open>
  One pass of the loop of \<open>reader\<close>: \<open>fgets\<close> takes a line of at most 1023 characters from the buffer of
  the stream, which is filled from the pipe as long as it holds no whole line; at the end of the
  file it takes what is left, or gives nothing and ends the loop.
\<close>

definition pp_reader :: "pipe_state \<Rightarrow> pipe_state option" where
  "pp_reader s =
     (let line = fst (take_line 1023 (stream_buf s)); rest = snd (take_line 1023 (stream_buf s))
      in if length line = 1023 \<or> newline \<in> set line
         then Some (s\<lparr>stream_buf := rest, child_out := child_out s @ line\<rparr>)
         else if stream_eof s
         then Some (s\<lparr>stream_buf := [], child_out := child_out s @ line, child_at := R_close_read\<rparr>)
         else (case pipe_read 4096 (parent_writes s \<or> child_writes s) (pipe_data s) of
                 None \<Rightarrow> None
               | Some (got, d) \<Rightarrow>
                   Some (s\<lparr>pipe_data := d, stream_buf := stream_buf s @ got, stream_eof := (got = [])\<rparr>)))"

definition pp_child :: "pipe_state \<Rightarrow> pipe_state option" where
  "pp_child s = (case child_at s of
     R_close_write \<Rightarrow> Some (s\<lparr>child_writes := False, child_at := Reader\<rparr>)
   | Reader \<Rightarrow> pp_reader s
   | R_close_read \<Rightarrow> Some (s\<lparr>child_reads := False, child_at := R_done\<rparr>)
   | R_done \<Rightarrow> None)"

text \<open>A schedule says who makes the next step.\<close>

fun pp_run :: "nat \<Rightarrow> bool list \<Rightarrow> pipe_state \<Rightarrow> pipe_state option" where
  "pp_run capacity [] s = Some s"
| "pp_run capacity (p # ps) s =
     Option.bind (if p then pp_parent capacity s else pp_child s) (pp_run capacity ps)"

definition pp_stuck :: "nat \<Rightarrow> pipe_state \<Rightarrow> bool" where
  "pp_stuck capacity s \<longleftrightarrow> pp_parent capacity s = None \<and> pp_child s = None"

section \<open>The program with plain reads and writes\<close>

datatype pipe2_pc = P_close | P_moves | P_close_other | P_done | P_killed

record pipe2_state =
  p2_data :: "char list"
  p2_reads :: "bool \<times> bool"
  p2_writes :: "bool \<times> bool"
  father_at :: pipe2_pc
  sub_at :: pipe2_pc
  p2_buffer :: "string option"

text \<open>The message with its terminating zero; the components of a pair are the parent's and the child's ends.\<close>

definition p2_message :: string where
  "p2_message = ''Hello from father process!'' @ [CHR 0x00]"

definition p2_start :: pipe2_state where
  "p2_start = \<lparr>p2_data = [], p2_reads = (True, True), p2_writes = (True, True), father_at = P_close, sub_at = P_close,
     p2_buffer = None\<rparr>"

definition p2_father :: "nat \<Rightarrow> pipe2_state \<Rightarrow> pipe2_state option" where
  "p2_father capacity s = (case father_at s of
     P_close \<Rightarrow> Some (s\<lparr>p2_reads := (False, snd (p2_reads s)), father_at := P_moves\<rparr>)
   | P_moves \<Rightarrow>
       (case pipe_write capacity (fst (p2_reads s) \<or> snd (p2_reads s)) p2_message (p2_data s) of
          None \<Rightarrow> None
        | Some (Inl SIGPIPE) \<Rightarrow> Some (s\<lparr>father_at := P_killed, p2_writes := (False, snd (p2_writes s))\<rparr>)
        | Some (Inr d) \<Rightarrow> Some (s\<lparr>p2_data := d, father_at := P_close_other\<rparr>))
   | P_close_other \<Rightarrow> Some (s\<lparr>p2_writes := (False, snd (p2_writes s)), father_at := P_done\<rparr>)
   | _ \<Rightarrow> None)"

text \<open>What is printed is the string in front of the zero.\<close>

definition p2_sub :: "pipe2_state \<Rightarrow> pipe2_state option" where
  "p2_sub s = (case sub_at s of
     P_close \<Rightarrow> Some (s\<lparr>p2_writes := (fst (p2_writes s), False), sub_at := P_moves\<rparr>)
   | P_moves \<Rightarrow>
       (case pipe_read 256 (fst (p2_writes s) \<or> snd (p2_writes s)) (p2_data s) of
          None \<Rightarrow> None
        | Some (got, d) \<Rightarrow> Some (s\<lparr>p2_data := d, p2_buffer := Some got, sub_at := P_close_other\<rparr>))
   | P_close_other \<Rightarrow> Some (s\<lparr>p2_reads := (fst (p2_reads s), False), sub_at := P_done\<rparr>)
   | _ \<Rightarrow> None)"

fun p2_run :: "nat \<Rightarrow> bool list \<Rightarrow> pipe2_state \<Rightarrow> pipe2_state option" where
  "p2_run capacity [] s = Some s"
| "p2_run capacity (p # ps) s =
     Option.bind (if p then p2_father capacity s else p2_sub s) (p2_run capacity ps)"

section \<open>The stream\<close>

definition sent :: "writer_pc \<Rightarrow> nat" where
  "sent pc = (case pc of W_close_read \<Rightarrow> 0 | Writer count \<Rightarrow> 5 - count | _ \<Rightarrow> 5)"

definition messages :: "nat \<Rightarrow> string" where
  "messages n = concat (replicate n message_line)"

lemma messages_Suc: "messages (Suc n) = messages n @ message_line"
  by (induction n) (simp_all add: messages_def)

lemma messages_prefix: "n \<le> m \<Longrightarrow> prefix (messages n) (messages m)"
  by (induction m) (auto simp: le_Suc_eq messages_Suc intro: prefix_order.trans)

lemma length_message: "length message_line = 14"
  by (simp add: message_line_def)

lemma take_line_whole: "fst (take_line n cs) @ snd (take_line n cs) = cs"
  by (induction n cs rule: take_line.induct) (auto split: prod.splits)

lemma take_line_rest:
  "\<not> (length (fst (take_line n cs)) = n \<or> newline \<in> set (fst (take_line n cs))) \<Longrightarrow> snd (take_line n cs) = []"
  by (induction n cs rule: take_line.induct) (auto split: prod.splits if_splits)

text \<open>What has been written is what the child has printed, holds, or can still read.\<close>

definition pp_inv :: "pipe_state \<Rightarrow> bool" where
  "pp_inv s \<longleftrightarrow> child_out s @ stream_buf s @ pipe_data s = messages (sent (parent_at s))
     \<and> parent_at s \<noteq> W_killed \<and> (\<forall>c. parent_at s = Writer c \<longrightarrow> c \<le> 5)
     \<and> parent_reads s = (parent_at s = W_close_read) \<and> parent_writes s = (parent_at s \<noteq> W_done)
     \<and> child_reads s = (child_at s \<noteq> R_done) \<and> child_writes s = (child_at s = R_close_write)
     \<and> (stream_eof s \<longrightarrow> parent_at s = W_done \<and> pipe_data s = [])
     \<and> (child_at s = R_close_read \<or> child_at s = R_done \<longrightarrow> stream_eof s \<and> stream_buf s = [])"

lemma pp_inv_start: "pp_inv (pp_start True)"
  by (simp add: pp_inv_def pp_start_def sent_def messages_def)

lemma pp_parent_inv:
  assumes inv: "pp_inv s" and step: "pp_parent capacity s = Some s'"
  shows "pp_inv s'"
proof (cases "parent_at s")
  case (Writer c)
  have c: "c \<le> 5" and reads: "child_reads s" using inv Writer by (auto simp: pp_inv_def)
  show ?thesis
  proof (cases "c = 0")
    case True
    then show ?thesis using inv step Writer by (auto simp: pp_parent_def pp_inv_def sent_def)
  next
    case False
    then have s': "s' = s\<lparr>pipe_data := pipe_data s @ message_line, parent_at := Writer (c - 1)\<rparr>"
      using step Writer reads by (auto simp: pp_parent_def pipe_write_def split: if_splits)
    have "sent (Writer (c - 1)) = Suc (sent (Writer c))" using False c by (simp add: sent_def)
    then show ?thesis using inv Writer c by (auto simp: s' pp_inv_def messages_Suc)
  qed
qed (use inv step in \<open>auto simp: pp_parent_def pp_inv_def sent_def\<close>)

lemma pp_reader_inv:
  assumes inv: "pp_inv s" and at: "child_at s = Reader" and step: "pp_reader s = Some s'"
  shows "pp_inv s'"
proof -
  obtain l r where lr: "take_line 1023 (stream_buf s) = (l, r)" by (cases "take_line 1023 (stream_buf s)")
  have whole: "stream_buf s = l @ r" using take_line_whole [of 1023 "stream_buf s"] lr by simp
  consider "length l = 1023 \<or> newline \<in> set l" | "\<not> (length l = 1023 \<or> newline \<in> set l)" "stream_eof s"
    | "\<not> (length l = 1023 \<or> newline \<in> set l)" "\<not> stream_eof s" by blast
  then show ?thesis
  proof cases
    case 1
    then have "s' = s\<lparr>stream_buf := r, child_out := child_out s @ l\<rparr>" using step by (simp add: pp_reader_def lr)
    then show ?thesis using inv at whole by (simp add: pp_inv_def)
  next
    case 2
    then have s': "s' = s\<lparr>stream_buf := [], child_out := child_out s @ l, child_at := R_close_read\<rparr>"
      using step by (simp add: pp_reader_def lr)
    have "r = []" using 2(1) take_line_rest [of 1023 "stream_buf s"] lr by simp
    then show ?thesis using inv at whole 2(2) by (auto simp: s' pp_inv_def)
  next
    case 3
    then obtain got d where g: "pipe_read 4096 (parent_writes s \<or> child_writes s) (pipe_data s) = Some (got, d)"
      "s' = s\<lparr>pipe_data := d, stream_buf := stream_buf s @ got, stream_eof := (got = [])\<rparr>"
      using step by (auto simp: pp_reader_def lr split: option.splits)
    have "pipe_data s = got @ d" "got = [] \<longrightarrow> \<not> parent_writes s \<and> d = []"
      using g(1) by (auto simp: pipe_read_def split: if_splits)
    then show ?thesis using inv at 3(2) by (simp add: g(2) pp_inv_def)
  qed
qed

lemma pp_child_inv:
  assumes inv: "pp_inv s" and step: "pp_child s = Some s'"
  shows "pp_inv s'"
proof (cases "child_at s")
  case Reader
  then show ?thesis using pp_reader_inv [OF inv] step by (simp add: pp_child_def)
qed (use inv step in \<open>auto simp: pp_child_def pp_inv_def\<close>)

lemma pp_run_inv: "pp_run capacity sched s = Some s' \<Longrightarrow> pp_inv s \<Longrightarrow> pp_inv s'"
proof (induction sched arbitrary: s)
  case (Cons p ps)
  then obtain s1 where s1: "(if p then pp_parent capacity s else pp_child s) = Some s1" "pp_run capacity ps s1 = Some s'"
    by (auto simp: bind_eq_Some_conv)
  have "pp_inv s1" using s1(1) pp_parent_inv [OF Cons.prems(2)] pp_child_inv [OF Cons.prems(2)] by (cases p) simp_all
  from Cons.IH [OF s1(2) this] show ?case .
qed simp

text \<open>Each step leaves less to do: characters move on, and each kind of step is bounded.\<close>

definition parent_left :: "writer_pc \<Rightarrow> nat" where
  "parent_left pc = (case pc of W_close_read \<Rightarrow> 8 | Writer c \<Rightarrow> c + 2 | W_close_write \<Rightarrow> 1 | _ \<Rightarrow> 0)"

definition child_left :: "reader_pc \<Rightarrow> nat" where
  "child_left pc = (case pc of R_close_write \<Rightarrow> 3 | Reader \<Rightarrow> 2 | R_close_read \<Rightarrow> 1 | R_done \<Rightarrow> 0)"

definition pp_left :: "pipe_state \<Rightarrow> nat" where
  "pp_left s = 30 * parent_left (parent_at s) + 2 * length (pipe_data s) + length (stream_buf s)
     + child_left (child_at s) + (if stream_eof s then 0 else 1)"

lemma pp_parent_left: "pp_parent capacity s = Some s' \<Longrightarrow> pp_left s' < pp_left s"
  by (cases "parent_at s")
    (auto simp: pp_parent_def pp_left_def parent_left_def pipe_write_def length_message split: if_splits)

lemma filled_less: "d \<noteq> [] \<Longrightarrow> 2 * (length d - 4096) + min (length d) 4096 < 2 * length d"
  by (cases "length d \<le> 4096") auto

lemma pp_child_left: "pp_child s = Some s' \<Longrightarrow> pp_left s' < pp_left s"
proof (cases "child_at s")
  case Reader
  assume step: "pp_child s = Some s'"
  obtain l r where lr: "take_line 1023 (stream_buf s) = (l, r)" by (cases "take_line 1023 (stream_buf s)")
  have "stream_buf s = l @ r" using take_line_whole [of 1023 "stream_buf s"] lr by simp
  then show ?thesis using step Reader lr
    by (auto simp: pp_child_def pp_reader_def pp_left_def child_left_def pipe_read_def filled_less split: if_splits)
qed (auto simp: pp_child_def pp_left_def child_left_def)

lemma pp_run_left: "pp_run capacity sched s = Some s' \<Longrightarrow> length sched + pp_left s' \<le> pp_left s"
proof (induction sched arbitrary: s)
  case (Cons p ps)
  then obtain s1 where s1: "(if p then pp_parent capacity s else pp_child s) = Some s1" "pp_run capacity ps s1 = Some s'"
    by (auto simp: bind_eq_Some_conv)
  have "pp_left s1 < pp_left s" using s1(1) pp_parent_left pp_child_left by (cases p) auto
  with Cons.IH [OF s1(2)] show ?case by simp
qed simp

lemma pp_stuck_end:
  assumes inv: "pp_inv s" and stuck: "pp_stuck capacity s" and room: "14 \<le> capacity"
  shows "parent_at s = W_done \<and> child_at s = R_done"
proof -
  have p: "pp_parent capacity s = None" and c: "pp_child s = None" using stuck by (simp_all add: pp_stuck_def)
  have blocked: "pipe_data s \<noteq> [] \<or> parent_at s = W_done"
  proof (cases "parent_at s")
    case (Writer k)
    have "child_reads s" using inv Writer by (auto simp: pp_inv_def)
    then show ?thesis using p Writer room by (auto simp: pp_parent_def pipe_write_def length_message split: if_splits)
  qed (use p inv in \<open>auto simp: pp_parent_def pp_inv_def\<close>)
  have "child_at s = R_done"
  proof (cases "child_at s")
    case Reader
    then have "pp_reader s = None" using c by (simp add: pp_child_def)
    then have "pipe_read 4096 (parent_writes s \<or> child_writes s) (pipe_data s) = None"
      by (auto simp: pp_reader_def Let_def split: if_splits option.splits)
    then have "pipe_data s = []" "parent_writes s \<or> child_writes s" by (auto simp: pipe_read_def split: if_splits)
    then show ?thesis using inv Reader blocked by (auto simp: pp_inv_def)
  qed (use c in \<open>simp_all add: pp_child_def\<close>)
  then show ?thesis using inv by (auto simp: pp_inv_def)
qed

text \<open>Without a child the first write meets a pipe that nobody reads.\<close>

definition pp_alone :: "pipe_state \<Rightarrow> bool" where
  "pp_alone s \<longleftrightarrow> child_at s = R_done \<and> \<not> child_reads s
     \<and> (parent_at s = W_close_read \<or> parent_at s = Writer 5 \<and> \<not> parent_reads s \<or> parent_at s = W_killed)"

lemma pp_alone_run: "pp_run capacity sched s = Some s' \<Longrightarrow> pp_alone s \<Longrightarrow> pp_alone s'"
proof (induction sched arbitrary: s)
  case (Cons p ps)
  then obtain s1 where s1: "(if p then pp_parent capacity s else pp_child s) = Some s1" "pp_run capacity ps s1 = Some s'"
    by (auto simp: bind_eq_Some_conv)
  have "pp_alone s1" using s1(1) Cons.prems(2)
    by (cases p) (auto simp: pp_alone_def pp_parent_def pp_child_def pipe_write_def)
  from Cons.IH [OF s1(2) this] show ?case .
qed simp

lemma pp_alone_stuck: "pp_alone s \<Longrightarrow> pp_stuck capacity s \<Longrightarrow> parent_at s = W_killed"
  by (auto simp: pp_alone_def pp_stuck_def pp_parent_def pipe_write_def)

section \<open>The plain pipe\<close>

definition p2_inv :: "pipe2_state \<Rightarrow> bool" where
  "p2_inv s \<longleftrightarrow> father_at s \<noteq> P_killed \<and> sub_at s \<noteq> P_killed
     \<and> p2_reads s = (father_at s = P_close, sub_at s \<noteq> P_done)
     \<and> p2_writes s = (father_at s \<noteq> P_done, sub_at s = P_close)
     \<and> (if father_at s = P_close \<or> father_at s = P_moves
        then p2_data s = [] \<and> p2_buffer s = None \<and> (sub_at s = P_close \<or> sub_at s = P_moves)
        else if sub_at s = P_close \<or> sub_at s = P_moves then p2_data s = p2_message \<and> p2_buffer s = None
        else p2_data s = [] \<and> p2_buffer s = Some p2_message)"

lemma length_p2_message: "length p2_message = 27"
  by (simp add: p2_message_def)

lemma p2_father_inv: "p2_inv s \<Longrightarrow> p2_father capacity s = Some s' \<Longrightarrow> p2_inv s'"
  by (cases "father_at s") (auto simp: p2_father_def p2_inv_def pipe_write_def split: if_splits)

lemma p2_sub_inv: "p2_inv s \<Longrightarrow> p2_sub s = Some s' \<Longrightarrow> p2_inv s'"
  by (cases "sub_at s"; cases "father_at s")
    (auto simp: p2_sub_def p2_inv_def pipe_read_def length_p2_message split: if_splits)

lemma p2_run_inv: "p2_run capacity sched s = Some s' \<Longrightarrow> p2_inv s \<Longrightarrow> p2_inv s'"
proof (induction sched arbitrary: s)
  case (Cons p ps)
  then obtain s1 where s1: "(if p then p2_father capacity s else p2_sub s) = Some s1" "p2_run capacity ps s1 = Some s'"
    by (auto simp: bind_eq_Some_conv)
  have "p2_inv s1" using s1(1) p2_father_inv [OF Cons.prems(2)] p2_sub_inv [OF Cons.prems(2)] by (cases p) simp_all
  from Cons.IH [OF s1(2) this] show ?case .
qed simp

lemma p2_inv_start: "p2_inv p2_start"
  by (simp add: p2_inv_def p2_start_def)

lemma p2_stuck_end:
  assumes "p2_inv s" "p2_father capacity s = None" "p2_sub s = None" "27 \<le> capacity"
  shows "father_at s = P_done \<and> sub_at s = P_done \<and> p2_buffer s = Some p2_message"
proof -
  have f: "father_at s = P_done" using assms
    by (cases "father_at s") (auto simp: p2_father_def p2_inv_def pipe_write_def length_p2_message split: if_splits)
  then have "sub_at s = P_done" using assms
    by (cases "sub_at s") (auto simp: p2_sub_def p2_inv_def pipe_read_def split: if_splits)
  with f assms(1) show ?thesis by (simp add: p2_inv_def)
qed

section \<open>Properties\<close>

text \<open>
  C26: In every interleaving the child of \<open>1.pipe.c\<close> prints an initial part of the five lines, the
  parent is not killed, and no run has more than 244 steps; when nobody can go on, both are done
  and the five lines are printed.  When the fork fails, the parent is killed by its first write.
  The child of \<open>2.pipe2.c\<close> receives the whole message.
\<close>

theorem pipes_deliver:
  assumes "14 \<le> capacity" and "pp_run capacity sched (pp_start True) = Some s"
    and "pp_run capacity sched' (pp_start False) = Some s'"
    and "27 \<le> capacity2" and "p2_run capacity2 sched2 p2_start = Some s2"
  shows "parent_at s \<noteq> W_killed \<and> prefix (child_out s) (concat (replicate 5 message_line)) \<and> length sched \<le> 244
    \<and> (pp_stuck capacity s \<longrightarrow> parent_at s = W_done \<and> child_at s = R_done
         \<and> child_out s = concat (replicate 5 message_line))
    \<and> (pp_stuck capacity s' \<longrightarrow> parent_at s' = W_killed)
    \<and> (p2_father capacity2 s2 = None \<and> p2_sub s2 = None \<longrightarrow> father_at s2 = P_done \<and> sub_at s2 = P_done
         \<and> map_option c_str (p2_buffer s2) = Some ''Hello from father process!'')"
proof -
  have inv: "pp_inv s" by (rule pp_run_inv [OF assms(2) pp_inv_start])
  have m: "concat (replicate 5 message_line) = messages 5" by (simp only: messages_def)
  have written: "child_out s @ stream_buf s @ pipe_data s = messages (sent (parent_at s))" using inv by (simp add: pp_inv_def)
  have "prefix (child_out s) (messages (sent (parent_at s)))" using written by (metis prefixI)
  moreover have "sent (parent_at s) \<le> 5" by (auto simp: sent_def split: writer_pc.split)
  ultimately have 1: "prefix (child_out s) (messages 5)" using messages_prefix prefix_order.trans by blast
  have 2: "length sched \<le> 244"
    using pp_run_left [OF assms(2)] by (simp add: pp_left_def pp_start_def parent_left_def child_left_def)
  have 3: "parent_at s = W_done \<and> child_at s = R_done \<and> child_out s = messages 5" if "pp_stuck capacity s"
  proof -
    have e: "parent_at s = W_done" "child_at s = R_done" using pp_stuck_end [OF inv that assms(1)] by simp_all
    then have "stream_buf s = []" "pipe_data s = []" using inv by (simp_all add: pp_inv_def)
    with e written show ?thesis by (simp add: sent_def)
  qed
  have "pp_alone s'" by (rule pp_alone_run [OF assms(3)]) (simp add: pp_alone_def pp_start_def)
  then have 4: "pp_stuck capacity s' \<longrightarrow> parent_at s' = W_killed" using pp_alone_stuck by blast
  have c: "c_str p2_message = ''Hello from father process!''" by (simp add: p2_message_def c_str_def)
  have 5: "father_at s2 = P_done \<and> sub_at s2 = P_done \<and> map_option c_str (p2_buffer s2) = Some ''Hello from father process!''"
    if "p2_father capacity2 s2 = None" "p2_sub s2 = None"
    using p2_stuck_end [OF p2_run_inv [OF assms(5) p2_inv_start] that assms(4)] c by simp
  have "parent_at s \<noteq> W_killed" using inv by (simp add: pp_inv_def)
  with 1 2 3 4 5 show ?thesis unfolding m by blast
qed

text \<open>The parent writes two lines, the child reads them, then the other three, and the end.\<close>

definition pp_whole :: "bool list" where
  "pp_whole = [True, False, True, True, False, False, False, True, True, True, False, False, False, False, True, True,
     False, False, False]"

lemma take_line_numeral [simp]:
  "take_line (numeral k) [] = ([], [])"
  "take_line (numeral k) (c # cs) =
     (if c = newline then ([c], cs) else let (l, r) = take_line (pred_numeral k) cs in (c # l, r))"
  by (simp_all only: numeral_eq_Suc take_line.simps)

theorem pipes_deliver_witness:
  "\<exists>s. pp_run 65536 pp_whole (pp_start True) = Some s \<and> pp_stuck 65536 s \<and> child_out s = concat (replicate 5 message_line)"
proof -
  have "map_option (\<lambda>s. (parent_at s, child_at s)) (pp_run 65536 pp_whole (pp_start True)) = Some (W_done, R_done)"
    by (simp add: pp_whole_def pp_start_def pp_parent_def pp_child_def pp_reader_def pipe_read_def pipe_write_def
        message_line_def Let_def)
  then obtain s where s: "pp_run 65536 pp_whole (pp_start True) = Some s" "parent_at s = W_done" "child_at s = R_done"
    by auto
  have stuck: "pp_stuck 65536 s" using s(2,3) by (simp add: pp_stuck_def pp_parent_def pp_child_def)
  have "pp_run 65536 [] (pp_start False) = Some (pp_start False)" "p2_run 65536 [] p2_start = Some p2_start" by simp_all
  from pipes_deliver [OF _ s(1) this(1) _ this(2)] stuck
  have "child_out s = concat (replicate 5 message_line)" by (simp del: replicate_numeral_Cons)
  with s(1) stuck show ?thesis by blast
qed

end
