(* ===== verification/Schedules.thy ===== *)
theory Schedules
  imports Prelude
begin

text \<open>
  Programs whose parts take turns: an event says who moves and what the system answers, a step is a
  partial function of the event and the state, and a schedule is a list of events.  The locale
  \<open>bounded_machine\<close> collects what makes such a program come to its end: an invariant, a measure that
  every step decreases, and a step from every state that is not final.
\<close>

fun run_schedule :: "('e \<Rightarrow> 's \<Rightarrow> 's option) \<Rightarrow> 'e list \<Rightarrow> 's \<Rightarrow> 's option" where
  "run_schedule step [] s = Some s"
| "run_schedule step (e # es) s = Option.bind (step e s) (run_schedule step es)"

lemma run_schedule_Cons_Some:
  "run_schedule step (e # es) s = Some t \<longleftrightarrow> (\<exists>s'. step e s = Some s' \<and> run_schedule step es s' = Some t)"
  by (simp add: bind_eq_Some_conv)

lemma run_schedule_append:
  "run_schedule step (es @ fs) s = Option.bind (run_schedule step es s) (run_schedule step fs)"
proof (induction es arbitrary: s)
  case (Cons e es)
  then show ?case by (cases "step e s") simp_all
qed simp

lemma run_schedule_invariant:
  assumes "\<And>e s s'. P s \<Longrightarrow> step e s = Some s' \<Longrightarrow> P s'"
  shows "run_schedule step es s = Some t \<Longrightarrow> P s \<Longrightarrow> P t"
  by (induction es arbitrary: s) (auto simp: bind_eq_Some_conv dest: assms)

text \<open>An invariant of the schedules whose events satisfy a condition.\<close>

lemma run_schedule_invariant_if:
  assumes "\<And>e s s'. Q e \<Longrightarrow> P s \<Longrightarrow> step e s = Some s' \<Longrightarrow> P s'"
  shows "run_schedule step es s = Some t \<Longrightarrow> \<forall>e\<in>set es. Q e \<Longrightarrow> P s \<Longrightarrow> P t"
  by (induction es arbitrary: s) (auto simp: bind_eq_Some_conv dest: assms)

locale bounded_machine =
  fixes step :: "'e \<Rightarrow> 's \<Rightarrow> 's option" and inv :: "'s \<Rightarrow> bool" and left :: "'s \<Rightarrow> nat" and final :: "'s \<Rightarrow> bool"
  assumes inv_step: "inv s \<Longrightarrow> step e s = Some s' \<Longrightarrow> inv s'"
    and left_step: "inv s \<Longrightarrow> step e s = Some s' \<Longrightarrow> left s' < left s"
    and progress: "inv s \<Longrightarrow> \<not> final s \<Longrightarrow> \<exists>e. step e s \<noteq> None"
begin

lemma run_inv: "run_schedule step es s = Some t \<Longrightarrow> inv s \<Longrightarrow> inv t"
  by (rule run_schedule_invariant) (rule inv_step)

lemma run_bound: "run_schedule step es s = Some t \<Longrightarrow> inv s \<Longrightarrow> length es + left t \<le> left s"
proof (induction es arbitrary: s)
  case (Cons e es)
  then obtain s' where s': "step e s = Some s'" "run_schedule step es s' = Some t"
    by (auto simp: bind_eq_Some_conv)
  from Cons.IH [OF s'(2) inv_step [OF Cons.prems(2) s'(1)]] left_step [OF Cons.prems(2) s'(1)]
  show ?case by simp
qed simp

lemma stuck_is_final: "inv s \<Longrightarrow> \<forall>e. step e s = None \<Longrightarrow> final s"
  using progress [of s] by auto

lemma can_finish: "inv s \<Longrightarrow> \<exists>es t. run_schedule step es s = Some t \<and> final t"
proof (induction "left s" arbitrary: s rule: less_induct)
  case less
  show ?case
  proof (cases "final s")
    case True
    then show ?thesis by (intro exI [of _ "[]"]) simp
  next
    case False
    then obtain e s' where e: "step e s = Some s'" using progress [OF less.prems] by blast
    obtain es t where "run_schedule step es s' = Some t" "final t"
      using less.hyps [OF left_step [OF less.prems e] inv_step [OF less.prems e]] by blast
    then show ?thesis using e by (intro exI [of _ "e # es"]) simp
  qed
qed

text \<open>All of it for the runs from a state.\<close>

lemma runs_end:
  assumes "run_schedule step es s = Some t" and "inv s"
  shows "inv t" and "length es \<le> left s" and "(\<forall>e. step e t = None) \<Longrightarrow> final t"
    and "\<exists>fs u. run_schedule step fs t = Some u \<and> final u"
  using run_inv [OF assms] run_bound [OF assms] stuck_is_final can_finish by auto

end

end
