(* ===== verification/ChildProcesses.thy ===== *)
theory ChildProcesses
  imports Decimal Schedules "HOL-Library.Multiset"
begin

text \<open>
  \<open>4.Process/1.create_stop\<close>: the programs that start another and look at how it ended (\<open>2.exec.c\<close>,
  \<open>3.wait.c\<close>), that clean up in a handler of \<open>SIGCHLD\<close> (\<open>3.wait_2.c\<close>), that count a signal
  (\<open>4.sigusr1.c\<close>), and \<open>12.signal.c\<close>, which exits in its handler.
\<close>

section \<open>The status of a child\<close>





section \<open>Starting a program\<close>





section \<open>Signals that wait\<close>










section \<open>Statuses\<close>





section \<open>Children and signals\<close>













end
