(* ===== verification/MappedFile.thy ===== *)
theory MappedFile
  imports Decimal
begin

text \<open>
  \<open>4.Process/3.mmap/mmap_write.c\<close> and \<open>mmap_read.c\<close>: a program that writes a random number into a file by
  way of a mapping, and one that prints the number and doubles it there.  A file is its characters; a
  mapping shows the start of the file, and zeros behind its end, which are not kept.
\<close>

section \<open>Mappings\<close>

definition FILE_LENGTH :: nat where
  "FILE_LENGTH = 256"

text \<open>An access to a mapping of an empty file is an error of the bus; for others the first page is there.\<close>

definition mapping :: "string \<Rightarrow> string option" where
  "mapping file = (if file = [] then None else Some (take FILE_LENGTH (file @ replicate FILE_LENGTH (CHR 0x00))))"

definition store_mapping :: "string \<Rightarrow> string \<Rightarrow> string" where
  "store_mapping mem file = take (length file) mem @ drop (length mem) file"

text \<open>\<open>sprintf(mem, "%d\n", i)\<close>, with the zero behind the text.\<close>

definition sprintf_d :: "int \<Rightarrow> string \<Rightarrow> string" where
  "sprintf_d i mem = (let txt = print_int i @ [newline, CHR 0x00] in txt @ drop (length txt) mem)"

text \<open>
  \<open>sscanf(mem, "%d", &i)\<close>: \<^term>\<open>None\<close> when there is no number, so that the variable stays uninitialised, or when
  it is no \<open>int\<close>.
\<close>

definition sscanf_d :: "string \<Rightarrow> int option" where
  "sscanf_d s =
     (let t = dropWhile isspace s;
          u = (if t \<noteq> [] \<and> (hd t = CHR ''-'' \<or> hd t = CHR ''+'') then tl t else t)
      in if u \<noteq> [] \<and> is_digit (hd u) then atoi s else None)"

section \<open>The programs\<close>

text \<open>
  \<open>random_range\<close> on unsigned numbers, for an answer of \<open>rand\<close> up to \<open>RAND_MAX\<close>, which is \<open>2 ^ 31 - 1\<close>.  The
  product is exact as a \<open>double\<close> for ranges below \<open>2 ^ 22\<close>, and the divisor is a power of two.
\<close>

definition random_range :: "32 word \<Rightarrow> 32 word \<Rightarrow> nat \<Rightarrow> 32 word" where
  "random_range low high r = (let range = high - low + 1 in low + of_nat (unat range * r div 2 ^ 31))"

text \<open>
  \<open>write(fd, "", 1)\<close> at \<open>FILE_LENGTH + 1\<close>: the file is as long as that, with zeros in a gap.
\<close>

definition extend_file :: "string \<Rightarrow> string" where
  "extend_file f =
     (let g = f @ replicate (FILE_LENGTH + 2 - length f) (CHR 0x00) in g[FILE_LENGTH + 1 := CHR 0x00])"

definition mmap_write_main :: "nat \<Rightarrow> string option \<Rightarrow> string option" where
  "mmap_write_main r file =
     (let f = extend_file (case file of None \<Rightarrow> [] | Some f \<Rightarrow> f)
      in map_option (\<lambda>mem. store_mapping (sprintf_d (sint (random_range (- 100) 100 r)) mem) f) (mapping f))"

text \<open>The reader does not make the file; a mapping that failed is accessed all the same.\<close>

definition mmap_read_main :: "string option \<Rightarrow> (int \<times> string) option" where
  "mmap_read_main file = do {
     f \<leftarrow> file;
     mem \<leftarrow> mapping f;
     i \<leftarrow> sscanf_d (c_str mem);
     if - (2 ^ 31) \<le> 2 * i \<and> 2 * i < 2 ^ 31
     then Some (i, store_mapping (sprintf_d (2 * i) mem) f) else None }"

text \<open>The reader run several times: what it prints, and the file at the end.\<close>

fun read_times :: "nat \<Rightarrow> string \<Rightarrow> (int list \<times> string) option" where
  "read_times 0 f = Some ([], f)"
| "read_times (Suc n) f = do {
     (i, g) \<leftarrow> mmap_read_main (Some f);
     (is, h) \<leftarrow> read_times n g;
     Some (i # is, h) }"

section \<open>Random numbers\<close>

lemma random_range_value:
  assumes "r < 2 ^ 31"
  shows "sint (random_range (- 100) 100 r) = int (201 * r div 2 ^ 31) - 100"
proof -
  let ?k = "201 * r div 2 ^ 31"
  have "201 * r < 201 * 2 ^ 31" using assms by simp
  then have k: "?k < 201" by (simp add: less_mult_imp_div_less)
  have "unat ((100 :: 32 word) - (- 100) + 1) = 201" by simp
  then have "random_range (- 100) 100 r = of_int (int ?k - 100)"
    by (simp add: random_range_def)
  moreover have "signed_take_bit 31 (int ?k - 100) = int ?k - 100" using k by (intro signed_take_bit_int_eq_self) auto
  moreover have "sint (of_int (int ?k - 100) :: 32 word) = signed_take_bit 31 (int ?k - 100)"
    by (subst signed_of_int) simp
  ultimately show ?thesis by (simp only:)
qed

text \<open>Every number of the range is one of these values.\<close>

lemma random_range_all:
  assumes "- 100 \<le> v" and "v \<le> 100"
  shows "\<exists>r<2 ^ 31. int (201 * r div 2 ^ 31) - 100 = v"
proof -
  define k where "k = nat (v + 100)"
  have k: "k \<le> 200" "v = int k - 100" using assms by (simp_all add: k_def)
  define r where "r = (k * 2 ^ 31 + 200) div 201"
  have "201 * r \<le> k * 2 ^ 31 + 200" "k * 2 ^ 31 + 200 < 201 * r + 201"
    unfolding r_def using div_mult_mod_eq [of "k * 2 ^ 31 + 200" 201] by linarith+
  then have lo: "k * 2 ^ 31 \<le> 201 * r" and hi: "201 * r < (k + 1) * 2 ^ 31" by simp_all
  then have "201 * r div 2 ^ 31 = k" by (intro div_nat_eqI) (simp_all add: mult.commute)
  moreover have "r < 2 ^ 31" using hi k(1) by simp
  ultimately show ?thesis using k(2) by (intro exI [of _ r]) simp
qed

section \<open>A number in the file\<close>

text \<open>The number, its newline and zero, and anything behind.\<close>

definition holds_number :: "int \<Rightarrow> string \<Rightarrow> bool" where
  "holds_number i f \<longleftrightarrow> (\<exists>rest. f = print_int i @ [newline, CHR 0x00] @ rest) \<and> FILE_LENGTH < length f"

lemma length_print_int: "- (2 ^ 31) \<le> i \<Longrightarrow> i < 2 ^ 31 \<Longrightarrow> length (print_int i) \<le> 11"
proof -
  assume "- (2 ^ 31) \<le> i" and "i < 2 ^ 31"
  then have "nat \<bar>i\<bar> < 10 ^ 10" by auto
  then have "length (decimal (nat \<bar>i\<bar>)) \<le> 10" by (rule length_decimal) simp
  then show ?thesis by (auto simp: print_int_def)
qed

lemma print_int_no_zero: "CHR 0x00 \<notin> set (print_int i @ [newline])"
  using decimal_digits [of "CHR 0x00"] by (auto simp: print_int_def is_digit_def)

lemma sscanf_print:
  assumes "- (2 ^ 31) \<le> i" and "i < 2 ^ 31"
  shows "sscanf_d (print_int i @ [newline]) = Some i"
proof -
  have a: "atoi (print_int i @ [newline]) = Some i" by (rule atoi_print_int [OF assms]) (simp add: is_digit_def)
  obtain c cs where d: "decimal (nat \<bar>i\<bar>) = c # cs" by (meson decimal_nonempty list.exhaust)
  then have "c \<in> set (decimal (nat \<bar>i\<bar>))" by simp
  note c = decimal_no_space [OF this] decimal_digits [OF this]
  show ?thesis
  proof (cases "i < 0")
    case True
    then have "print_int i = CHR ''-'' # c # cs" using d by (simp add: print_int_def)
    then show ?thesis using a c(2) by (simp add: sscanf_d_def isspace_def)
  next
    case False
    then have "print_int i = c # cs" using d by (simp add: print_int_def)
    then show ?thesis using a c by (simp add: sscanf_d_def)
  qed
qed

lemma mapping_long: "FILE_LENGTH \<le> length f \<Longrightarrow> mapping f = Some (take FILE_LENGTH f)"
  by (auto simp: mapping_def FILE_LENGTH_def)

lemma store_sprintf:
  assumes len: "FILE_LENGTH < length f" and i: "- (2 ^ 31) \<le> i" "i < 2 ^ 31"
  shows "holds_number i (store_mapping (sprintf_d i (take FILE_LENGTH f)) f)"
    and "length (store_mapping (sprintf_d i (take FILE_LENGTH f)) f) = length f"
proof -
  let ?t = "print_int i @ [newline, CHR 0x00]"
  have t: "length ?t \<le> FILE_LENGTH" using length_print_int [OF i] by (simp add: FILE_LENGTH_def)
  have mem: "length (sprintf_d i (take FILE_LENGTH f)) = FILE_LENGTH"
    using t len by (simp add: sprintf_d_def Let_def)
  have s: "store_mapping (sprintf_d i (take FILE_LENGTH f)) f = sprintf_d i (take FILE_LENGTH f) @ drop FILE_LENGTH f"
    using len by (simp add: store_mapping_def mem)
  show "length (store_mapping (sprintf_d i (take FILE_LENGTH f)) f) = length f" using len by (simp add: s mem)
  then show "holds_number i (store_mapping (sprintf_d i (take FILE_LENGTH f)) f)"
    using len unfolding holds_number_def s unfolding sprintf_d_def Let_def by auto
qed

lemma read_number:
  assumes f: "holds_number i f" and i: "- (2 ^ 31) \<le> i" "i < 2 ^ 31"
  shows "if - (2 ^ 31) \<le> 2 * i \<and> 2 * i < 2 ^ 31
    then \<exists>g. mmap_read_main (Some f) = Some (i, g) \<and> holds_number (2 * i) g
    else mmap_read_main (Some f) = None"
proof -
  obtain rest where rest: "f = (print_int i @ [newline]) @ CHR 0x00 # rest" and len: "FILE_LENGTH < length f"
    using f by (auto simp: holds_number_def)
  have t: "length (print_int i @ [newline, CHR 0x00]) \<le> FILE_LENGTH" using length_print_int [OF i] by (simp add: FILE_LENGTH_def)
  then obtain k where "FILE_LENGTH = length (print_int i @ [newline, CHR 0x00]) + k" using le_Suc_ex by blast
  then have "take FILE_LENGTH f = take (length (print_int i @ [newline, CHR 0x00]) + k) ((print_int i @ [newline, CHR 0x00]) @ rest)"
    by (simp add: rest)
  also have "\<dots> = (print_int i @ [newline, CHR 0x00]) @ take k rest" unfolding take_append by simp
  finally have "take FILE_LENGTH f = (print_int i @ [newline]) @ CHR 0x00 # take k rest" by simp
  moreover have "takeWhile (\<lambda>c. c \<noteq> CHR 0x00) ((print_int i @ [newline]) @ CHR 0x00 # take k rest)
      = (print_int i @ [newline]) @ takeWhile (\<lambda>c. c \<noteq> CHR 0x00) (CHR 0x00 # take k rest)"
    by (rule takeWhile_append2) (use print_int_no_zero [of i] in metis)
  ultimately have "c_str (take FILE_LENGTH f) = print_int i @ [newline]" by (simp add: c_str_def)
  then have "sscanf_d (c_str (take FILE_LENGTH f)) = Some i" using sscanf_print [OF i] by simp
  then show ?thesis using len store_sprintf [OF len, of "2 * i"]
    by (auto simp: mmap_read_main_def mapping_long)
qed

lemma length_extend_file: "FILE_LENGTH < length (extend_file f)"
  by (simp add: extend_file_def Let_def)

lemma doubled_range:
  fixes i :: int
  assumes "- (2 ^ 31) \<le> i * 2 ^ n" and "i * 2 ^ n < 2 ^ 31"
  shows "- (2 ^ 31) \<le> i" and "i < 2 ^ 31"
proof -
  have one: "1 \<le> (2 :: int) ^ n" by simp
  have "- (2 ^ 31) \<le> i \<and> i < 2 ^ 31"
  proof (cases "0 \<le> i")
    case True
    then have "i * 1 \<le> i * 2 ^ n" by (rule mult_left_mono [OF one])
    then show ?thesis using True assms(2) by simp
  next
    case False
    then have "i * 2 ^ n \<le> i * 1" by (intro mult_left_mono_neg [OF one]) simp
    then have "i * 2 ^ n \<le> i" by (simp only: mult.right_neutral)
    then show ?thesis using False assms(1) by (intro conjI) (linarith, simp)
  qed
  then show "- (2 ^ 31) \<le> i" and "i < 2 ^ 31" by blast+
qed

lemma read_doubles:
  assumes "holds_number i f" and "- (2 ^ 31) \<le> i * 2 ^ n" and "i * 2 ^ n < 2 ^ 31"
  shows "\<exists>g. read_times n f = Some (map (\<lambda>k. i * 2 ^ k) [0..<n], g) \<and> holds_number (i * 2 ^ n) g"
  using assms
proof (induction n arbitrary: i f)
  case (Suc n)
  have r: "- (2 ^ 31) \<le> (2 * i) * 2 ^ n" "(2 * i) * 2 ^ n < 2 ^ 31" using Suc.prems(2,3) by (simp_all add: ac_simps)
  obtain g where g: "mmap_read_main (Some f) = Some (i, g)" "holds_number (2 * i) g"
    using read_number [OF Suc.prems(1) doubled_range [OF Suc.prems(2,3)]] doubled_range [OF r] by auto
  obtain h where h: "read_times n g = Some (map (\<lambda>k. 2 * i * 2 ^ k) [0..<n], h)" "holds_number (2 * i * 2 ^ n) h"
    using Suc.IH [OF g(2) r] by blast
  have "map (\<lambda>k. i * 2 ^ k) [0..<Suc n] = i # map (\<lambda>k. 2 * i * 2 ^ k) [0..<n]"
    by (simp add: upt_conv_Cons ac_simps del: upt_Suc flip: map_Suc_upt)
  then show ?case using g h by (simp add: ac_simps)
qed simp

text \<open>What the writer leaves, for any file that was there, and what the reader does with it.\<close>

lemma write_then_read:
  assumes r: "r < 2 ^ 31" and v: "v = int (201 * r div 2 ^ 31) - 100"
  shows "- 100 \<le> v \<and> v \<le> 100 \<and> (\<exists>f. mmap_write_main r before = Some f \<and> holds_number v f
      \<and> (\<forall>n. - (2 ^ 31) \<le> v * 2 ^ n \<and> v * 2 ^ n < 2 ^ 31 \<longrightarrow>
           (\<exists>g. read_times n f = Some (map (\<lambda>k. v * 2 ^ k) [0..<n], g)
             \<and> (mmap_read_main (Some g) = None \<longleftrightarrow> \<not> (- (2 ^ 31) \<le> v * 2 ^ Suc n \<and> v * 2 ^ Suc n < 2 ^ 31)))))"
proof -
  define e where "e = extend_file (case before of None \<Rightarrow> [] | Some f \<Rightarrow> f)"
  define f where "f = store_mapping (sprintf_d v (take FILE_LENGTH e)) e"
  have "201 * r < 201 * 2 ^ 31" using r by simp
  then have "201 * r div 2 ^ 31 < 201" by (simp add: less_mult_imp_div_less)
  then have bounds: "- 100 \<le> v" "v \<le> 100" by (simp_all add: v)
  then have i: "- (2 ^ 31) \<le> v" "v < 2 ^ 31" by simp_all
  have len: "FILE_LENGTH < length e" by (simp add: e_def length_extend_file)
  have w: "mmap_write_main r before = Some f"
    using len by (simp add: mmap_write_main_def mapping_long f_def e_def Let_def random_range_value [OF r] v)
  have h: "holds_number v f" unfolding f_def by (rule store_sprintf(1) [OF len i])
  have "\<exists>g. read_times n f = Some (map (\<lambda>k. v * 2 ^ k) [0..<n], g)
             \<and> (mmap_read_main (Some g) = None \<longleftrightarrow> \<not> (- (2 ^ 31) \<le> v * 2 ^ Suc n \<and> v * 2 ^ Suc n < 2 ^ 31))"
    if n: "- (2 ^ 31) \<le> v * 2 ^ n" "v * 2 ^ n < 2 ^ 31" for n
  proof -
    obtain g where g: "read_times n f = Some (map (\<lambda>k. v * 2 ^ k) [0..<n], g)" "holds_number (v * 2 ^ n) g"
      using read_doubles [OF h n] by blast
    have "(mmap_read_main (Some g) = None) = (\<not> (- (2 ^ 31) \<le> 2 * (v * 2 ^ n) \<and> 2 * (v * 2 ^ n) < 2 ^ 31))"
      using read_number [OF g(2) n] by (auto split: if_splits)
    moreover have "2 * (v * 2 ^ n) = v * 2 ^ Suc n" by simp
    ultimately show ?thesis using g(1) by metis
  qed
  with bounds w h show ?thesis by blast
qed

text \<open>
  C36: For an answer \<open>r\<close> of \<open>rand\<close> the writer stores the number \<open>201 * r / 2^31 - 100\<close>, rounded down, in
  the file, which need not exist and is then longer than the mapping: its decimal digits, a newline and
  a zero.  These are the numbers from -100 to 100, although the bounds are passed as unsigned, and each
  of them is stored, and read back, for some \<open>r\<close>.
  The reader, run again and again, prints the number and its doubles as long as they are \<open>int\<close>s; the
  doubling that leaves the range is undefined, and so is a reader without a file.
\<close>

theorem mapped_file_doubles:
  assumes r: "r < 2 ^ 31" and v: "v = int (201 * r div 2 ^ 31) - 100"
  shows "(- 100 \<le> v \<and> v \<le> 100 \<and> (\<exists>f. mmap_write_main r before = Some f \<and> holds_number v f
      \<and> (\<forall>n. - (2 ^ 31) \<le> v * 2 ^ n \<and> v * 2 ^ n < 2 ^ 31 \<longrightarrow>
           (\<exists>g. read_times n f = Some (map (\<lambda>k. v * 2 ^ k) [0..<n], g)
             \<and> (mmap_read_main (Some g) = None \<longleftrightarrow> \<not> (- (2 ^ 31) \<le> v * 2 ^ Suc n \<and> v * 2 ^ Suc n < 2 ^ 31))))))
    \<and> (- 100 \<le> w \<longrightarrow> w \<le> 100 \<longrightarrow> (\<exists>r<2 ^ 31. \<exists>f g. mmap_write_main r before = Some f
          \<and> holds_number w f \<and> mmap_read_main (Some f) = Some (w, g)))
    \<and> (mmap_read_main None = None)"
proof -
  note c1 = write_then_read [OF r v, of before]
  have c2: "\<exists>r<2 ^ 31. \<exists>f g. mmap_write_main r before = Some f \<and> holds_number w f \<and> mmap_read_main (Some f) = Some (w, g)"
    if w: "- 100 \<le> w" "w \<le> 100"
  proof -
    obtain q where q: "q < 2 ^ 31" "w = int (201 * q div 2 ^ 31) - 100" using random_range_all [OF w] by auto
    obtain f where f: "mmap_write_main q before = Some f" "holds_number w f"
      using write_then_read [OF q, of before] by blast
    have "- (2 ^ 31) \<le> w" "w < 2 ^ 31" "- (2 ^ 31) \<le> 2 * w" "2 * w < 2 ^ 31" using w by simp_all
    with read_number [OF f(2)] have "\<exists>g. mmap_read_main (Some f) = Some (w, g)" by auto
    with q(1) f show ?thesis by blast
  qed
  have c3: "mmap_read_main None = None" by (simp add: mmap_read_main_def)
  show ?thesis
    by (rule conjI [OF c1 conjI [OF impI [OF impI [OF c2]] c3]])
qed

lemma mapped_file_doubles_witness:
  "\<exists>f. mmap_write_main 0 None = Some f \<and> (\<exists>g. read_times 3 f = Some ([- 100, - 200, - 400], g))"
proof -
  have z: "(0 :: nat) < 2 ^ 31" "- 100 = int (201 * 0 div 2 ^ 31) - 100" by simp_all
  obtain f where f: "mmap_write_main 0 None = Some f"
    and n: "\<And>n. - (2 ^ 31) \<le> (- 100 :: int) * 2 ^ n \<and> (- 100 :: int) * 2 ^ n < 2 ^ 31 \<Longrightarrow>
      \<exists>g. read_times n f = Some (map (\<lambda>k. - 100 * 2 ^ k) [0..<n], g)"
    using mapped_file_doubles [OF z, where before = None, THEN conjunct1] by blast
  have "\<exists>g. read_times 3 f = Some (map (\<lambda>k. - 100 * 2 ^ k) [0..<3], g)" by (intro n) simp
  then have "\<exists>g. read_times 3 f = Some ([- 100, - 200, - 400], g)" by (simp add: upt_conv_Cons)
  then show ?thesis using f by blast
qed

end
