(* ===== verification/EchoServer.thy ===== *)
theory EchoServer
  imports ConfigFile Schedules "HOL-Library.Sublist"
begin

text \<open>
  \<open>5.net/tcp/server.c\<close> and \<open>client.c\<close>: a server that greets a client and sends back what it gets, and a
  client that sends the words typed by the user and prints the answers.  A connection is two
  streams of characters; the kernel hands over any non-empty part of what has arrived.  The line with
  the address of the client, which the server prints before its greeting, is left out of its output.
\<close>

section \<open>Streams\<close>

definition BUFSIZ :: nat where
  "BUFSIZ = 8192"

text \<open>\<open>recv(fd, buf, BUFSIZ, 0)\<close>: it waits while there is nothing and the other end is open.\<close>

definition recv :: "nat \<Rightarrow> bool \<Rightarrow> string \<Rightarrow> (string \<times> string) option" where
  "recv n peer_open d =
     (if d \<noteq> [] then (let k = max 1 (min n BUFSIZ) in Some (take k d, drop k d))
      else if peer_open then None else Some ([], []))"

text \<open>\<open>buf[len] = '\0'\<close> in a buffer of \<open>BUFSIZ\<close> characters, and the string that is then in it.\<close>

definition terminated :: "string \<Rightarrow> string option" where
  "terminated bs = (if length bs < BUFSIZ then Some (c_str bs) else None)"

section \<open>The programs\<close>

datatype tcp_client_pc = C_welcome | C_type | C_answer | C_close | C_done | C_killed | C_undefined

datatype tcp_server_pc = S_welcome | S_recv | S_send string | S_done | S_failed | S_undefined

text \<open>
  \<open>client_sent\<close> and \<open>client_got\<close> record what the client has sent and what each \<open>recv\<close> has given it;
  \<open>typed\<close> is what \<open>scanf\<close> still finds, after which it reaches the end of the input.
\<close>

record echo_state =
  to_server :: string
  to_client :: string
  typed :: "string list"
  client_buf :: string
  client_at :: tcp_client_pc
  server_at :: tcp_server_pc
  client_out :: "string list"
  server_out :: "string list"
  client_sent :: "string list"
  client_got :: "string list"

definition greeting :: string where
  "greeting = ''Welcome to my server'' @ [newline]"

datatype tcp_call = Socket_call | Bind_call | Listen_call | Accept_call | Connect_call

text \<open>Before the connection stands, the first call that fails ends the program.\<close>

definition tcp_server_begin :: "tcp_call option \<Rightarrow> string + tcp_server_pc" where
  "tcp_server_begin fails = (case fails of
     Some Socket_call \<Rightarrow> Inl ''socket error''
   | Some Bind_call \<Rightarrow> Inl ''bind error''
   | Some Listen_call \<Rightarrow> Inl ''listen error''
   | Some Accept_call \<Rightarrow> Inl ''accept error''
   | _ \<Rightarrow> Inr S_welcome)"

definition tcp_client_begin :: "tcp_call option \<Rightarrow> string + tcp_client_pc" where
  "tcp_client_begin fails = (case fails of
     Some Socket_call \<Rightarrow> Inl ''socket error''
   | Some Connect_call \<Rightarrow> Inl ''connect error''
   | _ \<Rightarrow> Inr C_welcome)"

definition echo_start :: "string list \<Rightarrow> echo_state" where
  "echo_start words = \<lparr>to_server = [], to_client = [], typed = words, client_buf = [],
     client_at = C_welcome, server_at = S_welcome, client_out = [''connected to server'' @ [newline]],
     server_out = [], client_sent = [], client_got = []\<rparr>"

definition client_open :: "echo_state \<Rightarrow> bool" where
  "client_open s \<longleftrightarrow> client_at s \<notin> {C_done, C_killed}"

definition server_open :: "echo_state \<Rightarrow> bool" where
  "server_open s \<longleftrightarrow> server_at s \<notin> {S_done, S_failed}"

text \<open>
  What the client does after a \<open>recv\<close>: \<open>label\<close> is the text in front of what it prints.  At the end of
  the input \<open>scanf\<close> leaves the buffer as it is, which the client does not notice.
\<close>

definition client_recv :: "string \<Rightarrow> nat \<Rightarrow> echo_state \<Rightarrow> echo_state option" where
  "client_recv label n s =
     (case recv n (server_open s) (to_client s) of
        None \<Rightarrow> None
      | Some (bs, rest) \<Rightarrow>
          (case terminated bs of
             None \<Rightarrow> Some (s\<lparr>client_at := C_undefined\<rparr>)
           | Some str \<Rightarrow> Some (s\<lparr>to_client := rest, client_buf := str, client_at := C_type,
               client_out := client_out s @ [label @ str @ [newline]], client_got := client_got s @ [bs]\<rparr>)))"

definition client_type :: "echo_state \<Rightarrow> echo_state" where
  "client_type s =
     (let w = (case typed s of [] \<Rightarrow> client_buf s | w # _ \<Rightarrow> w);
          s = s\<lparr>typed := tl (typed s), client_out := client_out s @ [''Enter string to send:'']\<rparr>
      in if BUFSIZ \<le> length w then s\<lparr>client_at := C_undefined\<rparr>
         else if c_str w = ''quit'' then s\<lparr>client_buf := c_str w, client_at := C_close\<rparr>
         else if server_open s
         then s\<lparr>client_buf := c_str w, to_server := to_server s @ c_str w, client_at := C_answer,
                client_sent := client_sent s @ [c_str w]\<rparr>
         else s\<lparr>client_at := C_killed\<rparr>)"

definition tcp_client :: "nat \<Rightarrow> echo_state \<Rightarrow> echo_state option" where
  "tcp_client n s = (case client_at s of
     C_welcome \<Rightarrow> client_recv [] n s
   | C_type \<Rightarrow> Some (client_type s)
   | C_answer \<Rightarrow> client_recv ''received:'' n s
   | C_close \<Rightarrow> Some (s\<lparr>client_at := C_done\<rparr>)
   | _ \<Rightarrow> None)"

text \<open>
  A client that closes with answers unread resets the connection: \<open>recv\<close> and \<open>send\<close> of the server can
  then fail, which the event tells by \<open>n = 0\<close>.  A failed \<open>send\<close> is an error message or a signal.
\<close>

definition tcp_server :: "nat \<Rightarrow> echo_state \<Rightarrow> echo_state option" where
  "tcp_server n s = (case server_at s of
     S_welcome \<Rightarrow> Some (s\<lparr>to_client := to_client s @ greeting, server_at := S_recv\<rparr>)
   | S_recv \<Rightarrow>
       if n = 0 \<and> \<not> client_open s then Some (s\<lparr>server_at := S_done\<rparr>)
       else (case recv n (client_open s) (to_server s) of
               None \<Rightarrow> None
             | Some (bs, rest) \<Rightarrow>
                 if bs = [] then Some (s\<lparr>server_at := S_done\<rparr>)
                 else (case terminated bs of
                         None \<Rightarrow> Some (s\<lparr>server_at := S_undefined\<rparr>)
                       | Some str \<Rightarrow> Some (s\<lparr>to_server := rest, server_at := S_send bs,
                           server_out := server_out s @ [str @ [newline]]\<rparr>)))
   | S_send bs \<Rightarrow>
       if client_open s then Some (s\<lparr>to_client := to_client s @ bs, server_at := S_recv\<rparr>)
       else if n = 0 then Some (s\<lparr>server_at := S_failed\<rparr>)
       else Some (s\<lparr>server_at := S_recv\<rparr>)
   | _ \<Rightarrow> None)"

text \<open>An event: whether the server moves, and how many characters the kernel hands over at most.\<close>

definition echo_step :: "bool \<times> nat \<Rightarrow> echo_state \<Rightarrow> echo_state option" where
  "echo_step e s = (if fst e then tcp_server (snd e) s else tcp_client (snd e) s)"

section \<open>Nothing is lost and nobody waits for ever\<close>

definition held :: "tcp_server_pc \<Rightarrow> string" where
  "held pc = (case pc of S_send bs \<Rightarrow> bs | _ \<Rightarrow> [])"

definition in_flight :: "echo_state \<Rightarrow> string" where
  "in_flight s = to_client s @ held (server_at s) @ to_server s"

lemma held_simps [simp]: "held (S_send bs) = bs" "held S_recv = []" "held S_welcome = []" "held S_done = []"
    "held S_failed = []" "held S_undefined = []"
  by (simp_all add: held_def)

lemma recv_SomeD:
  assumes "recv n peer d = Some (bs, rest)"
  shows "d = bs @ rest" and "bs = [] \<longleftrightarrow> d = []" and "bs = [] \<Longrightarrow> \<not> peer" and "length bs \<le> BUFSIZ"
  using assms by (auto simp: recv_def BUFSIZ_def Let_def split: if_splits)

lemma recv_None: "recv n peer d = None \<longleftrightarrow> d = [] \<and> peer"
  by (simp add: recv_def Let_def)

text \<open>The words a user types, up to the one that ends the client.\<close>

definition words_ok :: "string list \<Rightarrow> bool" where
  "words_ok ws \<longleftrightarrow> (\<forall>w\<in>set ws. w \<noteq> [] \<and> w \<noteq> ''quit'' \<and> CHR 0x00 \<notin> set w)
     \<and> length greeting + length (concat ws) < BUFSIZ"

lemma c_str_word: "CHR 0x00 \<notin> set w \<Longrightarrow> c_str w = w"
  by (auto simp: c_str_def takeWhile_eq_all_conv)

definition stream_inv :: "echo_state \<Rightarrow> bool" where
  "stream_inv s \<longleftrightarrow> server_open s \<and>
     concat (client_got s) @ in_flight s = (if server_at s = S_welcome then [] else greeting) @ concat (client_sent s)"

definition typing_inv :: "string list \<Rightarrow> string list \<Rightarrow> echo_state \<Rightarrow> bool" where
  "typing_inv ws rest s \<longleftrightarrow> (case client_at s of
     C_welcome \<Rightarrow> client_sent s = [] \<and> client_got s = [] \<and> typed s = ws @ ''quit'' # rest
   | C_type \<Rightarrow> (\<exists>us. ws = client_sent s @ us \<and> typed s = us @ ''quit'' # rest)
       \<and> length (client_got s) = Suc (length (client_sent s))
   | C_answer \<Rightarrow> (\<exists>us. ws = client_sent s @ us \<and> typed s = us @ ''quit'' # rest)
       \<and> length (client_got s) = length (client_sent s) \<and> in_flight s \<noteq> []
   | C_close \<Rightarrow> client_sent s = ws \<and> length (client_got s) = Suc (length ws)
   | C_done \<Rightarrow> client_sent s = ws \<and> length (client_got s) = Suc (length ws) \<and> length (to_server s) < BUFSIZ
   | _ \<Rightarrow> False)"

definition echo_inv :: "string list \<Rightarrow> string list \<Rightarrow> echo_state \<Rightarrow> bool" where
  "echo_inv ws rest s \<longleftrightarrow> typing_inv ws rest s \<and> (client_at s \<noteq> C_done \<longrightarrow> stream_inv s)
     \<and> (server_at s = S_welcome \<longrightarrow> client_at s = C_welcome) \<and> server_at s \<noteq> S_undefined \<and> server_at s \<noteq> S_send []
     \<and> prefix (concat (client_got s)) (greeting @ concat ws) \<and> [] \<notin> set (client_got s)"

lemma greeting_length [simp]: "length greeting = 21"
  by (simp add: greeting_def)

lemma greeting_nonempty [simp]: "greeting \<noteq> []"
  by (simp add: greeting_def)

lemma echo_inv_start: "echo_inv ws rest (echo_start (ws @ ''quit'' # rest))"
  by (simp add: echo_inv_def echo_start_def in_flight_def server_open_def typing_inv_def stream_inv_def)

lemma echo_invD:
  assumes "echo_inv ws rest s"
  shows "typing_inv ws rest s" and "client_at s \<noteq> C_done \<Longrightarrow> server_open s"
    and "client_at s \<noteq> C_done \<Longrightarrow>
      concat (client_got s) @ in_flight s = (if server_at s = S_welcome then [] else greeting) @ concat (client_sent s)"
    and "server_at s = S_welcome \<Longrightarrow> client_at s = C_welcome" and "server_at s \<noteq> S_undefined" and "server_at s \<noteq> S_send []"
    and "prefix (concat (client_got s)) (greeting @ concat ws)" and "[] \<notin> set (client_got s)"
  using assms by (simp_all add: echo_inv_def stream_inv_def)

lemma echo_inv_sent: "echo_inv ws rest s \<Longrightarrow> \<exists>us. ws = client_sent s @ us"
  by (cases "client_at s") (auto simp: echo_inv_def typing_inv_def)

lemma echo_inv_at: "echo_inv ws rest s \<Longrightarrow> client_at s \<noteq> C_killed \<and> client_at s \<noteq> C_undefined"
  by (cases "client_at s") (auto simp: echo_inv_def typing_inv_def)

lemma echo_inv_open_iff: "echo_inv ws rest s \<Longrightarrow> client_open s \<longleftrightarrow> client_at s \<noteq> C_done"
  by (simp add: client_open_def echo_inv_at)

lemma echo_inv_short:
  assumes inv: "echo_inv ws rest s" and ok: "words_ok ws" and at: "client_at s \<noteq> C_done"
  shows "length (to_client s) + length (held (server_at s)) + length (to_server s) < BUFSIZ"
proof -
  have "length (in_flight s) \<le> length (concat (client_got s) @ in_flight s)" by simp
  also have "\<dots> \<le> length greeting + length (concat (client_sent s))"
    by (subst echo_invD(3) [OF inv at]) simp
  also have "\<dots> \<le> length greeting + length (concat ws)" using echo_inv_sent [OF inv] by auto
  also have "\<dots> < BUFSIZ" using ok by (simp add: words_ok_def)
  finally show ?thesis by (simp add: in_flight_def)
qed

lemma terminated_short: "length bs < BUFSIZ \<Longrightarrow> terminated bs = Some (c_str bs)"
  by (simp add: terminated_def)

lemma client_recv_shape:
  assumes inv: "echo_inv ws rest s" and ok: "words_ok ws" and at: "client_at s \<in> {C_welcome, C_answer}"
    and step: "client_recv label n s = Some s'"
  obtains bs r where "recv n True (to_client s) = Some (bs, r)" and "to_client s = bs @ r" and "bs \<noteq> []"
    and "s' = s\<lparr>to_client := r, client_buf := c_str bs, client_at := C_type,
      client_out := client_out s @ [label @ c_str bs @ [newline]], client_got := client_got s @ [bs]\<rparr>"
proof -
  have nodone: "client_at s \<noteq> C_done" using at by auto
  have open_: "server_open s" by (rule echo_invD(2) [OF inv nodone])
  obtain bs r where r: "recv n True (to_client s) = Some (bs, r)"
    using step open_ by (auto simp: client_recv_def split: option.splits)
  note d = recv_SomeD [OF r]
  have "length bs < BUFSIZ" using echo_inv_short [OF inv ok nodone] d(1) by simp
  then have "s' = s\<lparr>to_client := r, client_buf := c_str bs, client_at := C_type,
      client_out := client_out s @ [label @ c_str bs @ [newline]], client_got := client_got s @ [bs]\<rparr>"
    using step open_ r by (simp add: client_recv_def terminated_short)
  then show ?thesis using that r d by blast
qed

lemma client_recv_inv:
  assumes inv: "echo_inv ws rest s" and ok: "words_ok ws" and at: "client_at s \<in> {C_welcome, C_answer}"
    and step: "client_recv label n s = Some s'"
  shows "echo_inv ws rest s'"
proof -
  from client_recv_shape [OF inv ok at step] obtain bs r where
    d: "to_client s = bs @ r" "bs \<noteq> []" and
    s': "s' = s\<lparr>to_client := r, client_buf := c_str bs, client_at := C_type,
      client_out := client_out s @ [label @ c_str bs @ [newline]], client_got := client_got s @ [bs]\<rparr>" .
  have nodone: "client_at s \<noteq> C_done" using at by auto
  note i = echo_invD [OF inv]
  have nw: "server_at s \<noteq> S_welcome"
  proof
    assume w: "server_at s = S_welcome"
    then have "client_sent s = []" using i(1,4) by (simp add: typing_inv_def)
    then have "in_flight s = []" using i(3) [OF nodone] w by simp
    then show False using d by (simp add: in_flight_def)
  qed
  have eq: "concat (client_got s @ [bs]) @ in_flight s' = greeting @ concat (client_sent s)"
    using i(3) [OF nodone] nw d(1) by (simp add: in_flight_def s')
  obtain us where us: "ws = client_sent s @ us" using echo_inv_sent [OF inv] by blast
  have "prefix (concat (client_got s @ [bs])) (greeting @ concat (client_sent s))"
    by (rule prefixI [OF eq [symmetric]])
  then have pre: "prefix (concat (client_got s @ [bs])) (greeting @ concat ws)"
    unfolding us concat_append append_assoc [symmetric] by (rule prefix_prefix)
  have "typing_inv ws rest s'" using i(1) at by (auto simp: typing_inv_def s')
  moreover have "stream_inv s'" using eq nw i(2) [OF nodone] by (simp add: stream_inv_def s' server_open_def)
  ultimately show ?thesis using i(5,6,8) nw pre d(2) by (simp add: echo_inv_def s')
qed

lemma client_type_inv:
  assumes inv: "echo_inv ws rest s" and ok: "words_ok ws" and at: "client_at s = C_type"
  shows "echo_inv ws rest (client_type s)"
proof -
  note i = echo_invD [OF inv]
  have ty: "length (client_got s) = Suc (length (client_sent s))" using i(1) at by (simp add: typing_inv_def)
  obtain us where us: "ws = client_sent s @ us" "typed s = us @ ''quit'' # rest"
    using i(1) at by (auto simp: typing_inv_def)
  have nodone: "client_at s \<noteq> C_done" and nw: "server_at s \<noteq> S_welcome" using at i(4) by auto
  note st = i(3) [OF nodone]
  show ?thesis
  proof (cases us)
    case Nil
    then have s': "client_type s = s\<lparr>typed := rest, client_out := client_out s @ [''Enter string to send:''],
        client_buf := ''quit'', client_at := C_close\<rparr>"
      using us by (simp add: client_type_def c_str_def BUFSIZ_def)
    have "typing_inv ws rest (client_type s)" using us Nil ty by (simp add: typing_inv_def s')
    moreover have "stream_inv (client_type s)" using st i(2) [OF nodone]
      by (simp add: stream_inv_def s' server_open_def in_flight_def)
    ultimately show ?thesis using i(5-8) nw by (simp add: echo_inv_def s')
  next
    case (Cons w vs)
    have w: "w \<noteq> []" "w \<noteq> ''quit''" "c_str w = w" using ok us Cons by (auto simp: words_ok_def c_str_word)
    have "length w < BUFSIZ" using ok us Cons by (auto simp: words_ok_def)
    then have s': "client_type s = s\<lparr>typed := vs @ ''quit'' # rest, client_out := client_out s @ [''Enter string to send:''],
        client_buf := w, to_server := to_server s @ w, client_at := C_answer, client_sent := client_sent s @ [w]\<rparr>"
      using us Cons w i(2) [OF nodone] by (simp add: client_type_def server_open_def)
    have "typing_inv ws rest (client_type s)" using us Cons ty w by (simp add: typing_inv_def s' in_flight_def)
    moreover have "stream_inv (client_type s)" using st nw i(2) [OF nodone]
      by (simp add: stream_inv_def s' server_open_def in_flight_def)
    ultimately show ?thesis using i(5-8) nw by (simp add: echo_inv_def s')
  qed
qed

lemma tcp_client_inv:
  assumes inv: "echo_inv ws rest s" and ok: "words_ok ws" and step: "tcp_client n s = Some s'"
  shows "echo_inv ws rest s'"
proof (cases "client_at s")
  case C_close
  have "length (to_server s) < BUFSIZ" using echo_inv_short [OF inv ok] C_close by simp
  then show ?thesis using echo_invD [OF inv] step C_close by (auto simp: tcp_client_def echo_inv_def typing_inv_def)
qed (use step client_recv_inv [OF inv ok] client_type_inv [OF inv ok] in \<open>auto simp: tcp_client_def\<close>)

lemma echo_inv_server:
  assumes inv: "echo_inv ws rest s"
    and same: "client_at s' = client_at s" "client_sent s' = client_sent s" "client_got s' = client_got s" "typed s' = typed s"
    and sv: "server_at s' \<noteq> S_welcome" "server_at s' \<noteq> S_undefined" "server_at s' \<noteq> S_send []"
    and op: "client_at s \<noteq> C_done \<Longrightarrow> in_flight s' = (if server_at s = S_welcome then greeting else []) @ in_flight s \<and> server_open s'"
    and cl: "client_at s = C_done \<Longrightarrow> length (to_server s') \<le> length (to_server s)"
  shows "echo_inv ws rest s'"
proof -
  note i = echo_invD [OF inv]
  have "typing_inv ws rest s'"
    using i(1,4) op cl by (cases "client_at s") (auto simp: typing_inv_def same)
  moreover have "stream_inv s'" if c: "client_at s \<noteq> C_done"
  proof (cases "server_at s = S_welcome")
    case True
    then have "client_sent s = []" "client_got s = []" using i(1,4) by (auto simp: typing_inv_def)
    then show ?thesis using i(3) [OF c] op [OF c] sv(1) True by (simp add: stream_inv_def same)
  next
    case False
    then show ?thesis using i(3) [OF c] op [OF c] sv(1) by (simp add: stream_inv_def same)
  qed
  ultimately show ?thesis using i(7,8) sv by (simp add: echo_inv_def same)
qed

lemma tcp_server_inv:
  assumes inv: "echo_inv ws rest s" and ok: "words_ok ws" and step: "tcp_server n s = Some s'"
  shows "echo_inv ws rest s'"
proof (cases "server_at s")
  case S_welcome
  then have "client_at s = C_welcome" "to_server s = []" "to_client s = []"
    using echo_invD(4) [OF inv] echo_invD(1,3) [OF inv] by (auto simp: typing_inv_def in_flight_def)
  then show ?thesis using step S_welcome
    by (intro echo_inv_server [OF inv]) (auto simp: tcp_server_def in_flight_def server_open_def)
next
  case (S_send bs)
  show ?thesis
    by (rule echo_inv_server [OF inv])
      (use step S_send echo_inv_open_iff [OF inv] in \<open>auto simp: tcp_server_def in_flight_def server_open_def split: if_splits\<close>)
next
  case S_recv
  have short: "length (to_server s) < BUFSIZ"
  proof (cases "client_at s = C_done")
    case True
    then show ?thesis using echo_invD(1) [OF inv] by (simp add: typing_inv_def)
  next
    case False
    then show ?thesis using echo_inv_short [OF inv ok] by simp
  qed
  have step': "tcp_server n s = (if n = 0 \<and> \<not> client_open s then Some (s\<lparr>server_at := S_done\<rparr>)
      else case recv n (client_open s) (to_server s) of None \<Rightarrow> None
        | Some (bs, rest) \<Rightarrow> if bs = [] then Some (s\<lparr>server_at := S_done\<rparr>)
            else (case terminated bs of None \<Rightarrow> Some (s\<lparr>server_at := S_undefined\<rparr>)
               | Some str \<Rightarrow> Some (s\<lparr>to_server := rest, server_at := S_send bs, server_out := server_out s @ [str @ [newline]]\<rparr>)))"
    using S_recv by (simp add: tcp_server_def)
  show ?thesis
  proof (cases "\<not> client_open s \<and> s' = s\<lparr>server_at := S_done\<rparr>")
    case True
    then show ?thesis using echo_inv_open_iff [OF inv] by (intro echo_inv_server [OF inv]) auto
  next
    case False
    then obtain bs r where r: "recv n (client_open s) (to_server s) = Some (bs, r)" "bs \<noteq> []"
      using step unfolding step' by (auto dest: recv_SomeD split: option.splits if_splits)
    note d = recv_SomeD [OF r(1)]
    have "terminated bs = Some (c_str bs)" using short d(1) by (simp add: terminated_short)
    then have s': "s' = s\<lparr>to_server := r, server_at := S_send bs, server_out := server_out s @ [c_str bs @ [newline]]\<rparr>"
      using False step r unfolding step' by (auto split: if_splits)
    show ?thesis
      by (rule echo_inv_server [OF inv]) (use S_recv d(1) r(2) in \<open>auto simp: s' in_flight_def server_open_def\<close>)
  qed
qed (use step in \<open>auto simp: tcp_server_def\<close>)

lemma echo_step_inv: "words_ok ws \<Longrightarrow> echo_inv ws rest s \<Longrightarrow> echo_step e s = Some s' \<Longrightarrow> echo_inv ws rest s'"
  by (auto simp: echo_step_def intro: tcp_client_inv tcp_server_inv split: if_splits)

section \<open>Every connection comes to its end\<close>

definition client_left :: "tcp_client_pc \<Rightarrow> nat" where
  "client_left pc = (case pc of C_close \<Rightarrow> 2 | C_done \<Rightarrow> 1 | C_killed \<Rightarrow> 0 | C_undefined \<Rightarrow> 0 | _ \<Rightarrow> 3)"

definition server_left :: "tcp_server_pc \<Rightarrow> nat" where
  "server_left pc = (case pc of S_welcome \<Rightarrow> 25 | S_recv \<Rightarrow> 1 | S_send _ \<Rightarrow> 1 | _ \<Rightarrow> 0)"

definition echo_left :: "echo_state \<Rightarrow> nat" where
  "echo_left s = 4 * length (concat (typed s)) + 3 * length (to_server s) + 2 * length (held (server_at s))
     + length (to_client s) + client_left (client_at s) + server_left (server_at s)"

definition echo_final :: "echo_state \<Rightarrow> bool" where
  "echo_final s \<longleftrightarrow> client_at s = C_done \<and> server_at s \<in> {S_done, S_failed}"

definition echo_ok :: "echo_state \<Rightarrow> bool" where
  "echo_ok s \<longleftrightarrow> (\<exists>ws rest. words_ok ws \<and> echo_inv ws rest s)"

lemma client_recv_left:
  assumes "client_recv label n s = Some s'" and "client_at s \<in> {C_welcome, C_answer}" and "server_open s"
  shows "echo_left s' < echo_left s"
proof -
  obtain bs r where r: "recv n True (to_client s) = Some (bs, r)"
    using assms by (auto simp: client_recv_def split: option.splits)
  have "to_client s = bs @ r" "bs \<noteq> []" using recv_SomeD [OF r] by auto
  then show ?thesis using assms r
    by (auto simp: client_recv_def echo_left_def client_left_def split: option.splits)
qed

lemma client_type_left:
  assumes "echo_inv ws rest s" and "words_ok ws" and "client_at s = C_type"
  shows "echo_left (client_type s) < echo_left s"
proof -
  obtain us where us: "ws = client_sent s @ us" "typed s = us @ ''quit'' # rest"
    using assms(1,3) by (auto simp: echo_inv_def typing_inv_def)
  show ?thesis
  proof (cases us)
    case Nil
    then show ?thesis using us assms(3)
      by (simp add: client_type_def c_str_def BUFSIZ_def echo_left_def client_left_def)
  next
    case (Cons w vs)
    have "w \<noteq> []" "c_str w = w" using assms(2) us Cons by (auto simp: words_ok_def c_str_word)
    then have "0 < length w" "length (c_str w) = length w" by simp_all
    then show ?thesis using us assms(3) Cons
      by (auto simp: client_type_def echo_left_def client_left_def Let_def)
  qed
qed

lemma tcp_client_left:
  assumes "echo_inv ws rest s" and "words_ok ws" and "tcp_client n s = Some s'"
  shows "echo_left s' < echo_left s"
proof (cases "client_at s")
  case C_close
  then show ?thesis using assms(3) by (auto simp: tcp_client_def echo_left_def client_left_def)
qed (use assms client_recv_left client_type_left echo_invD(2) [OF assms(1)] in \<open>auto simp: tcp_client_def\<close>)

lemma tcp_server_left:
  assumes "tcp_server n s = Some s'" and "server_at s \<noteq> S_send []"
  shows "echo_left s' < echo_left s"
proof (cases "server_at s")
  case S_recv
  show ?thesis
  proof (cases "s' = s\<lparr>server_at := S_done\<rparr> \<or> s' = s\<lparr>server_at := S_undefined\<rparr>")
    case True
    then show ?thesis using S_recv by (auto simp: echo_left_def server_left_def)
  next
    case False
    then obtain bs r where r: "recv n (client_open s) (to_server s) = Some (bs, r)" "bs \<noteq> []"
      "s' = s\<lparr>to_server := r, server_at := S_send bs, server_out := server_out s @ [c_str bs @ [newline]]\<rparr>"
      using assms(1) S_recv by (auto simp: tcp_server_def terminated_def split: option.splits if_splits)
    then show ?thesis using recv_SomeD(1) [OF r(1)] S_recv by (auto simp: echo_left_def server_left_def)
  qed
qed (use assms in \<open>auto simp: tcp_server_def echo_left_def server_left_def split: if_splits\<close>)

lemma server_can_move:
  assumes "server_at s \<in> {S_welcome} \<or> (\<exists>bs. server_at s = S_send bs) \<or> server_at s = S_recv \<and> (to_server s \<noteq> [] \<or> \<not> client_open s)"
  shows "\<exists>e. echo_step e s \<noteq> None"
  using assms by (intro exI [of _ "(True, 1)"])
    (auto simp: echo_step_def tcp_server_def recv_None split: option.splits)

lemma echo_progress:
  assumes inv: "echo_inv ws rest s" and nf: "\<not> echo_final s"
  shows "\<exists>e. echo_step e s \<noteq> None"
proof (cases "client_at s")
  case C_done
  then have "server_at s \<notin> {S_done, S_failed, S_undefined}" using nf echo_invD(5) [OF inv] by (auto simp: echo_final_def)
  then show ?thesis using C_done by (intro server_can_move) (cases "server_at s"; simp add: client_open_def)
next
  case C_welcome
  then have fl: "in_flight s = (if server_at s = S_welcome then [] else greeting)" and so: "server_open s"
    using echo_invD(1-3) [OF inv] by (auto simp: typing_inv_def)
  show ?thesis
  proof (cases "to_client s = []")
    case True
    then show ?thesis using fl so echo_invD(5) [OF inv]
      by (intro server_can_move) (cases "server_at s"; simp add: in_flight_def server_open_def)
  next
    case False
    then show ?thesis using C_welcome by (intro exI [of _ "(False, 1)"])
      (auto simp: echo_step_def tcp_client_def client_recv_def recv_None split: option.splits)
  qed
next
  case C_answer
  then have fl: "in_flight s \<noteq> []" and so: "server_open s"
    using echo_invD(1,2) [OF inv] by (auto simp: typing_inv_def)
  show ?thesis
  proof (cases "to_client s = []")
    case True
    then show ?thesis using fl so echo_invD(5) [OF inv]
      by (intro server_can_move) (cases "server_at s"; simp add: in_flight_def server_open_def)
  next
    case False
    then show ?thesis using C_answer by (intro exI [of _ "(False, 1)"])
      (auto simp: echo_step_def tcp_client_def client_recv_def recv_None split: option.splits)
  qed
qed (use echo_inv_at [OF inv] in \<open>auto simp: echo_step_def tcp_client_def intro: exI [of _ "(False, 1)"]\<close>)

interpretation echo: bounded_machine echo_step echo_ok echo_left echo_final
proof unfold_locales
  fix s s' e assume "echo_ok s" and step: "echo_step e s = Some s'"
  then obtain ws rest where inv: "words_ok ws" "echo_inv ws rest s" by (auto simp: echo_ok_def)
  show "echo_ok s'" using echo_step_inv [OF inv step] inv(1) by (auto simp: echo_ok_def)
  show "echo_left s' < echo_left s"
    using step tcp_client_left [OF inv(2,1)] tcp_server_left echo_invD(6) [OF inv(2)]
    by (auto simp: echo_step_def split: if_splits)
next
  fix s assume "echo_ok s" and "\<not> echo_final s"
  then show "\<exists>e. echo_step e s \<noteq> None" using echo_progress by (auto simp: echo_ok_def)
qed

section \<open>What is printed when nothing is split\<close>

definition client_lines :: "string list \<Rightarrow> string list" where
  "client_lines ws = [''connected to server'' @ [newline], greeting @ [newline]]
     @ concat (map (\<lambda>w. [''Enter string to send:'', ''received:'' @ w @ [newline]]) ws)"

definition server_lines :: "string list \<Rightarrow> string list" where
  "server_lines ws = map (\<lambda>w. w @ [newline]) ws"

lemma lines_Nil: "client_lines [] = [''connected to server'' @ [newline], greeting @ [newline]]" "server_lines [] = []"
  by (simp_all add: client_lines_def server_lines_def)

lemma lines_snoc:
  "client_lines (ws @ [w]) = client_lines ws @ [''Enter string to send:'', ''received:'' @ w @ [newline]]"
  "server_lines (ws @ [w]) = server_lines ws @ [w @ [newline]]"
  by (simp_all add: client_lines_def server_lines_def)

definition whole_inv :: "echo_state \<Rightarrow> bool" where
  "whole_inv s \<longleftrightarrow> (case client_at s of
     C_welcome \<Rightarrow> to_server s = [] \<and> client_out s = [''connected to server'' @ [newline]] \<and> server_out s = []
       \<and> (server_at s = S_welcome \<and> to_client s = [] \<or> server_at s = S_recv \<and> to_client s = greeting)
   | C_type \<Rightarrow> to_server s = [] \<and> to_client s = [] \<and> server_at s = S_recv
       \<and> client_out s = client_lines (client_sent s) \<and> server_out s = server_lines (client_sent s)
   | C_answer \<Rightarrow> client_sent s \<noteq> []
       \<and> client_out s = client_lines (butlast (client_sent s)) @ [''Enter string to send:'']
       \<and> (server_at s = S_recv \<and> to_server s = last (client_sent s) \<and> to_client s = []
             \<and> server_out s = server_lines (butlast (client_sent s))
          \<or> server_at s = S_send (last (client_sent s)) \<and> to_server s = [] \<and> to_client s = []
             \<and> server_out s = server_lines (client_sent s)
          \<or> server_at s = S_recv \<and> to_server s = [] \<and> to_client s = last (client_sent s)
             \<and> server_out s = server_lines (client_sent s))
   | _ \<Rightarrow> to_server s = [] \<and> server_at s \<in> {S_recv, S_done}
       \<and> client_out s = client_lines (client_sent s) @ [''Enter string to send:'']
       \<and> server_out s = server_lines (client_sent s))"

lemma recv_whole: "BUFSIZ \<le> n \<Longrightarrow> d \<noteq> [] \<Longrightarrow> length d < BUFSIZ \<Longrightarrow> recv n peer d = Some (d, [])"
  by (simp add: recv_def BUFSIZ_def Let_def)

lemma words_ok_word:
  assumes "words_ok ws" and "w \<in> set ws"
  shows "w \<noteq> []" and "w \<noteq> ''quit''" and "c_str w = w" and "length w < BUFSIZ"
proof -
  have "length w \<le> length (concat ws)" using assms(2) by (auto simp: in_set_conv_decomp)
  then show "length w < BUFSIZ" using assms by (simp add: words_ok_def)
qed (use assms in \<open>auto simp: words_ok_def c_str_word\<close>)

lemma butlast_last_eq: "xs \<noteq> [] \<Longrightarrow> P (butlast xs @ [last xs]) \<longleftrightarrow> P xs"
  by simp

lemma last_sent:
  assumes "echo_inv ws rest s" and "words_ok ws" and "client_sent s \<noteq> []"
  shows "last (client_sent s) \<noteq> []" and "c_str (last (client_sent s)) = last (client_sent s)"
    and "length (last (client_sent s)) < BUFSIZ"
proof -
  obtain us where "ws = client_sent s @ us" using echo_inv_sent [OF assms(1)] by blast
  then have "last (client_sent s) \<in> set ws" using assms(3) by simp
  then show "last (client_sent s) \<noteq> []" and "c_str (last (client_sent s)) = last (client_sent s)"
    and "length (last (client_sent s)) < BUFSIZ"
    using words_ok_word [OF assms(2)] by blast+
qed

lemma greeting_string: "c_str greeting = greeting" "length greeting < BUFSIZ" "terminated greeting = Some greeting"
  by (simp_all add: greeting_def c_str_def BUFSIZ_def terminated_def)

lemma tcp_client_whole:
  assumes inv: "echo_inv ws rest s" "words_ok ws" and w: "whole_inv s" and n: "BUFSIZ \<le> n"
    and step: "tcp_client n s = Some s'"
  shows "whole_inv s'"
proof (cases "client_at s")
  case C_welcome
  then have "server_open s" using echo_invD(2) [OF inv(1)] by simp
  then have "recv n True (to_client s) \<noteq> None"
    using step C_welcome by (auto simp: tcp_client_def client_recv_def split: option.splits)
  then have "to_client s \<noteq> []" by (simp add: recv_None)
  then have "server_at s = S_recv" "to_client s = greeting" using w C_welcome by (auto simp: whole_inv_def)
  moreover have "client_sent s = []" using echo_invD(1) [OF inv(1)] C_welcome by (simp add: typing_inv_def)
  moreover have "recv n True greeting = Some (greeting, [])" by (rule recv_whole [OF n greeting_nonempty greeting_string(2)])
  ultimately show ?thesis using step w C_welcome \<open>server_open s\<close>
    by (auto simp: tcp_client_def client_recv_def whole_inv_def greeting_string lines_Nil)
next
  case C_type
  obtain us where us: "ws = client_sent s @ us" "typed s = us @ ''quit'' # rest"
    using echo_invD(1) [OF inv(1)] C_type by (auto simp: typing_inv_def)
  have op: "server_open s" using echo_invD(2) [OF inv(1)] C_type by simp
  show ?thesis
  proof (cases us)
    case Nil
    then show ?thesis using step w C_type us op
      by (auto simp: tcp_client_def client_type_def c_str_def BUFSIZ_def whole_inv_def)
  next
    case (Cons u vs)
    have "u \<in> set ws" using us Cons by simp
    then show ?thesis using step w C_type us op Cons words_ok_word [OF inv(2), of u]
      by (auto simp: tcp_client_def client_type_def whole_inv_def Let_def server_open_def)
  qed
next
  case C_answer
  then have "server_open s" using echo_invD(2) [OF inv(1)] by simp
  then have "recv n True (to_client s) \<noteq> None"
    using step C_answer by (auto simp: tcp_client_def client_recv_def split: option.splits)
  then have "to_client s \<noteq> []" by (simp add: recv_None)
  then have e: "client_sent s \<noteq> []" "server_at s = S_recv" "to_server s = []" "to_client s = last (client_sent s)"
      "server_out s = server_lines (client_sent s)"
      "client_out s = client_lines (butlast (client_sent s)) @ [''Enter string to send:'']"
    using w C_answer by (auto simp: whole_inv_def)
  have "client_lines (client_sent s) = client_lines (butlast (client_sent s) @ [last (client_sent s)])"
    using e(1) by simp
  then have "client_lines (client_sent s) = client_out s @ [''received:'' @ last (client_sent s) @ [newline]]"
    unfolding lines_snoc e(6) by simp
  moreover have "recv n True (to_client s) = Some (last (client_sent s), [])"
    using recv_whole [OF n] last_sent [OF inv e(1)] by (simp add: e)
  ultimately show ?thesis using step C_answer e \<open>server_open s\<close> last_sent [OF inv e(1)]
    by (auto simp: tcp_client_def client_recv_def whole_inv_def terminated_short)
next
  case C_close
  then show ?thesis using step w by (auto simp: tcp_client_def whole_inv_def)
qed (use step in \<open>simp_all add: tcp_client_def\<close>)

lemma tcp_server_whole:
  assumes inv: "echo_inv ws rest s" "words_ok ws" and w: "whole_inv s" and n: "BUFSIZ \<le> n"
    and step: "tcp_server n s = Some s'"
  shows "whole_inv s'"
proof (cases "server_at s")
  case S_welcome
  then have "client_at s = C_welcome" using echo_invD(4) [OF inv(1)] by simp
  then show ?thesis using step w S_welcome by (auto simp: tcp_server_def whole_inv_def)
next
  case (S_send bs)
  then have "client_at s = C_answer" using w echo_inv_at [OF inv(1)]
    by (cases "client_at s") (auto simp: whole_inv_def)
  then show ?thesis using step w S_send by (auto simp: tcp_server_def whole_inv_def client_open_def)
next
  case S_recv
  have n0: "n \<noteq> 0" using n by (simp add: BUFSIZ_def)
  show ?thesis
  proof (cases "to_server s = []")
    case True
    then have "recv n (client_open s) (to_server s) = (if client_open s then None else Some ([], []))"
      by (simp add: recv_def)
    then have "client_at s = C_done" "s' = s\<lparr>server_at := S_done\<rparr>"
      using step S_recv n0 echo_inv_open_iff [OF inv(1)] by (auto simp: tcp_server_def split: if_splits)
    then show ?thesis using w True by (simp add: whole_inv_def)
  next
    case False
    then have c: "client_at s = C_answer" using w echo_inv_at [OF inv(1)]
      by (cases "client_at s") (auto simp: whole_inv_def)
    then have e: "client_sent s \<noteq> []" "to_server s = last (client_sent s)" "to_client s = []"
        "server_out s = server_lines (butlast (client_sent s))"
        "client_out s = client_lines (butlast (client_sent s)) @ [''Enter string to send:'']"
      using w False S_recv by (auto simp: whole_inv_def)
    have "server_lines (client_sent s) = server_lines (butlast (client_sent s) @ [last (client_sent s)])"
      using e(1) by simp
    then have "server_lines (client_sent s) = server_out s @ [last (client_sent s) @ [newline]]"
      unfolding lines_snoc e(4) .
    moreover have "recv n (client_open s) (to_server s) = Some (last (client_sent s), [])"
      using recv_whole [OF n] last_sent [OF inv e(1)] by (simp add: e)
    ultimately show ?thesis using step S_recv c n0 e last_sent [OF inv e(1)]
      by (auto simp: tcp_server_def whole_inv_def terminated_short)
  qed
qed (use step in \<open>simp_all add: tcp_server_def\<close>)

lemma echo_step_whole:
  assumes "words_ok ws" and "BUFSIZ \<le> snd e" and "echo_inv ws rest s" and "whole_inv s" and "echo_step e s = Some s'"
  shows "echo_inv ws rest s'" and "whole_inv s'"
proof -
  show "echo_inv ws rest s'" by (rule echo_step_inv [OF assms(1,3,5)])
  show "whole_inv s'"
  proof (cases "fst e")
    case True
    then show ?thesis using tcp_server_whole [OF assms(3,1,4,2)] assms(5) by (simp add: echo_step_def)
  next
    case False
    then show ?thesis using tcp_client_whole [OF assms(3,1,4,2)] assms(5) by (simp add: echo_step_def)
  qed
qed

lemma echo_whole_run:
  assumes ok: "words_ok ws"
    and run: "run_schedule echo_step es (echo_start (ws @ ''quit'' # rest)) = Some s" and whole: "\<forall>e\<in>set es. BUFSIZ \<le> snd e"
  shows "whole_inv s"
proof -
  have "echo_inv ws rest (echo_start (ws @ ''quit'' # rest)) \<and> whole_inv (echo_start (ws @ ''quit'' # rest))"
    using echo_inv_start by (simp add: whole_inv_def echo_start_def)
  then have "echo_inv ws rest s \<and> whole_inv s"
    by (rule run_schedule_invariant_if [where Q = "\<lambda>e. BUFSIZ \<le> snd e", OF _ run whole, rotated])
      (use echo_step_whole [OF ok] in blast)
  then show ?thesis ..
qed

lemma echo_end:
  assumes inv: "echo_inv ws rest s" and "\<forall>e. echo_step e s = None"
  shows "client_at s = C_done" and "server_at s \<in> {S_done, S_failed}" and "client_sent s = ws"
    and "length (client_got s) = Suc (length ws)"
proof -
  have "echo_final s" using echo_progress [OF inv] assms(2) by auto
  then show "client_at s = C_done" and "server_at s \<in> {S_done, S_failed}" by (simp_all add: echo_final_def)
  then show "client_sent s = ws" and "length (client_got s) = Suc (length ws)"
    using echo_invD(1) [OF inv] by (simp_all add: typing_inv_def)
qed

lemma full_buffer_overflows:
  assumes "server_at s = S_recv" and "BUFSIZ \<le> length (to_server s)"
  shows "\<exists>s'. tcp_server BUFSIZ s = Some s' \<and> server_at s' = S_undefined"
proof -
  have d: "to_server s \<noteq> []" and b: "BUFSIZ \<noteq> 0" using assms(2) by (auto simp: BUFSIZ_def)
  then have "recv BUFSIZ (client_open s) (to_server s) = Some (take BUFSIZ (to_server s), drop BUFSIZ (to_server s))"
    by (simp add: recv_def BUFSIZ_def)
  moreover have "terminated (take BUFSIZ (to_server s)) = None" using assms(2) by (simp add: terminated_def)
  ultimately show ?thesis using assms(1) b d by (auto simp: tcp_server_def)
qed

text \<open>
  C30: A user types words, none of them \<open>quit\<close>, then \<open>quit\<close>; together with the greeting the words fit the
  buffers.  However the kernel cuts the streams and whoever moves: neither program accesses memory
  outside its buffers; what the client gets is, put together, a prefix of the greeting and its own
  words, in order; the number of steps is bounded, and a run that cannot go on has ended both
  programs after one answer for each word.  When nothing is cut, the answers are the words.  Where
  the sum of what waits reaches the size of the buffer, \<open>buf[len]\<close> is outside of it.
\<close>

theorem echo_connection:
  assumes ok: "words_ok ws" and run: "run_schedule echo_step es (echo_start (ws @ ''quit'' # rest)) = Some s"
  shows "(client_at s \<notin> {C_killed, C_undefined} \<and> server_at s \<noteq> S_undefined)
    \<and> (prefix (concat (client_got s)) (greeting @ concat ws) \<and> [] \<notin> set (client_got s))
    \<and> (length es \<le> 4 * length (concat (ws @ ''quit'' # rest)) + 28)
    \<and> ((\<forall>e. echo_step e s = None) \<longrightarrow> client_at s = C_done \<and> server_at s \<in> {S_done, S_failed}
           \<and> client_sent s = ws \<and> length (client_got s) = Suc (length ws))
    \<and> (\<exists>fs t. run_schedule echo_step fs s = Some t \<and> echo_final t)
    \<and> ((\<forall>e\<in>set es. BUFSIZ \<le> snd e) \<longrightarrow> client_at s = C_done \<longrightarrow>
           client_out s = client_lines ws @ [''Enter string to send:''] \<and> server_out s = server_lines ws)
    \<and> (server_at u = S_recv \<longrightarrow> BUFSIZ \<le> length (to_server u) \<longrightarrow>
           (\<exists>v. tcp_server BUFSIZ u = Some v \<and> server_at v = S_undefined))
    \<and> (tcp_server_begin f = Inr pc \<longrightarrow> pc = server_at (echo_start us))
    \<and> (tcp_client_begin f = Inr pc' \<longrightarrow> pc' = client_at (echo_start us))"
proof -
  have c8: "tcp_server_begin f = Inr pc \<longrightarrow> pc = server_at (echo_start us)"
    and c9: "tcp_client_begin f = Inr pc' \<longrightarrow> pc' = client_at (echo_start us)"
    by (auto simp: tcp_server_begin_def tcp_client_begin_def echo_start_def split: option.splits tcp_call.splits)
  have start: "echo_ok (echo_start (ws @ ''quit'' # rest))" using ok echo_inv_start by (auto simp: echo_ok_def)
  have inv: "echo_inv ws rest s"
    by (rule run_schedule_invariant [where P = "echo_inv ws rest", OF _ run echo_inv_start]) (rule echo_step_inv [OF ok])
  have c1: "client_at s \<notin> {C_killed, C_undefined} \<and> server_at s \<noteq> S_undefined"
    and c2: "prefix (concat (client_got s)) (greeting @ concat ws) \<and> [] \<notin> set (client_got s)"
    using echo_inv_at [OF inv] echo_invD [OF inv] by simp_all
  have c3: "length es \<le> 4 * length (concat (ws @ ''quit'' # rest)) + 28"
    using echo.runs_end(2) [OF run start] by (simp add: echo_left_def echo_start_def client_left_def server_left_def)
  have c4: "(\<forall>e. echo_step e s = None) \<longrightarrow> client_at s = C_done \<and> server_at s \<in> {S_done, S_failed}
      \<and> client_sent s = ws \<and> length (client_got s) = Suc (length ws)"
    using echo_end [OF inv] by blast
  have c5: "\<exists>fs t. run_schedule echo_step fs s = Some t \<and> echo_final t" by (rule echo.runs_end(4) [OF run start])
  have c6: "(\<forall>e\<in>set es. BUFSIZ \<le> snd e) \<longrightarrow> client_at s = C_done \<longrightarrow>
      client_out s = client_lines ws @ [''Enter string to send:''] \<and> server_out s = server_lines ws"
    using echo_whole_run [OF ok run] echo_invD(1) [OF inv] by (auto simp: whole_inv_def typing_inv_def)
  have c7: "server_at u = S_recv \<longrightarrow> BUFSIZ \<le> length (to_server u) \<longrightarrow>
      (\<exists>v. tcp_server BUFSIZ u = Some v \<and> server_at v = S_undefined)"
    using full_buffer_overflows by blast
  show ?thesis
    by (rule conjI [OF c1 conjI [OF c2 conjI [OF c3 conjI [OF c4 conjI [OF c5 conjI [OF c6 conjI [OF c7 conjI [OF c8 c9]]]]]]]])
qed

text \<open>The word \<open>hi\<close>: the connection of one word, nothing cut.\<close>

lemma echo_connection_witness:
  "words_ok [''hi'']
   \<and> (\<exists>s. run_schedule echo_step [(True, 8192), (False, 8192), (False, 8192), (True, 8192), (True, 8192), (False, 8192),
          (False, 8192), (False, 8192), (True, 8192)] (echo_start [''hi'', ''quit'']) = Some s
        \<and> client_out s = client_lines [''hi''] @ [''Enter string to send:''] \<and> server_out s = server_lines [''hi''])"
proof -
  let ?es = "[(True, 8192), (False, 8192), (False, 8192), (True, 8192), (True, 8192), (False, 8192),
          (False, 8192), (False, 8192), (True, 8192)]"
  have ok: "words_ok [''hi'']" by (simp add: words_ok_def BUFSIZ_def)
  obtain s where s: "run_schedule echo_step ?es (echo_start ([''hi''] @ ''quit'' # [])) = Some s" "client_at s = C_done"
    by (simp add: echo_step_def tcp_server_def tcp_client_def client_recv_def client_type_def echo_start_def recv_def
        BUFSIZ_def terminated_def c_str_def server_open_def client_open_def greeting_def Let_def)
  have "\<forall>e\<in>set ?es. BUFSIZ \<le> snd e" by (simp add: BUFSIZ_def)
  then show ?thesis using ok s echo_connection [OF ok s(1), THEN conjunct2, THEN conjunct2, THEN conjunct2, THEN conjunct2, THEN conjunct2, THEN conjunct1] by auto
qed

end
