(* ===== verification/MessageServer.thy ===== *)
theory MessageServer
  imports Blackbox
begin

text \<open>
  \<open>4.Process/4.socket/2.socket-server.c\<close> and \<open>2.socket-client.c\<close>: messages that are sent as a length and a
  text, and a server that prints the message of each client until one is \<open>quit\<close>; and \<open>1.server.c\<close> with
  \<open>1.client.c\<close>, where one client sends one text.  A read may give fewer bytes than it was asked for, and
  the programs do not look at how many.
\<close>

section \<open>Reads\<close>

text \<open>The answer of \<open>read\<close>: \<^term>\<open>None\<close> is an error, an empty list the end of the stream.\<close>

type_synonym answer = "uchar list option"

text \<open>What a buffer holds after a \<open>read\<close> into it.\<close>

definition read_into :: "uchar list \<Rightarrow> answer \<Rightarrow> uchar list" where
  "read_into buf a = (case a of None \<Rightarrow> buf | Some bs \<Rightarrow> bs @ drop (length bs) buf)"

text \<open>An answer to a request for \<open>n\<close> bytes of a stream, at most \<open>k\<close> of them and at least one if there is one.\<close>

definition read_answer :: "nat \<Rightarrow> nat \<Rightarrow> uchar list \<Rightarrow> uchar list" where
  "read_answer n k d = take (max 1 (min k n)) d"

section \<open>Messages with a length\<close>

definition write_text :: "uchar list \<Rightarrow> uchar list" where
  "write_text txt = le_bytes 4 (of_nat (length txt + 1) :: 32 word) @ txt @ [0]"

text \<open>
  A connection as the server meets it: the uninitialised bytes of \<open>length\<close>, the answers of its reads,
  and whether \<open>malloc\<close> gives memory.  A failed \<open>accept\<close> is a connection whose reads fail.
\<close>

record connection =
  junk :: "uchar list"
  length_answer :: answer
  memory :: bool
  text_answer :: answer

definition quit_text :: "uchar list" where
  "quit_text = text_bytes ''quit''"

text \<open>
  \<open>server\<close>: the message it prints, with its length, and its result.  A negative length is a huge \<open>size_t\<close>,
  for which \<open>malloc\<close> gives \<open>NULL\<close>; \<open>memset\<close> then writes through it.
\<close>

definition server :: "connection \<Rightarrow> ((uchar list \<times> int) option \<times> bool) option" where
  "server c =
     (if length_answer c = Some [] then Some (None, False)
      else let len = of_le (read_into (junk c) (length_answer c)) :: 32 word
      in if len = 0 then Some (None, False)
         else if \<not> memory c \<or> sint len < 0 then None
         else do {
           txt \<leftarrow> c_string (read_into (replicate (unat len) 0) (text_answer c));
           Some (Some (txt, sint len), txt = quit_text) })"

definition printed :: "'a option \<Rightarrow> 'a list" where
  "printed msg = (case msg of None \<Rightarrow> [] | Some m \<Rightarrow> [m])"

text \<open>The loop of \<open>main\<close> over the connections: what is printed, and whether it has ended.\<close>

fun serve :: "connection list \<Rightarrow> ((uchar list \<times> int) list \<times> bool) option" where
  "serve [] = Some ([], False)"
| "serve (c # cs) = do {
     (msg, client_sent_quit_message) \<leftarrow> server c;
     if client_sent_quit_message then Some (printed msg, True)
     else do { (msgs, ended) \<leftarrow> serve cs; Some (printed msg @ msgs, ended) } }"

text \<open>The connection of a client that sends a text; the reads give at most \<open>k\<close> and \<open>l\<close> bytes.\<close>

definition client_connection :: "uchar list \<Rightarrow> nat \<Rightarrow> nat \<Rightarrow> uchar list \<Rightarrow> connection" where
  "client_connection garbage k l txt =
     (let a = read_answer 4 k (write_text txt)
      in \<lparr>junk = garbage, length_answer = Some a, memory = True,
          text_answer = Some (read_answer (length txt + 1) l (drop (length a) (write_text txt)))\<rparr>)"

section \<open>One text\<close>

definition hello_text :: "uchar list" where
  "hello_text = text_bytes ''Hello from client''"

text \<open>
  The calls of \<open>1.server.c\<close> before it reads, with their results: the message of the one that ends the
  program.
\<close>

definition hello_server_begin :: "int \<Rightarrow> int \<Rightarrow> int \<Rightarrow> int \<Rightarrow> string option" where
  "hello_server_begin socket_fd bound listening new_socket =
     (if socket_fd = 0 then Some ''socket failed''
      else if bound < 0 then Some ''bind failed''
      else if listening < 0 then Some ''listen''
      else if new_socket < 0 then Some ''accept''
      else None)"

definition hello_server :: "answer \<Rightarrow> uchar list option" where
  "hello_server a = c_string (read_into (replicate 1024 0) a)"

definition hello_client :: "int \<Rightarrow> int \<Rightarrow> int \<Rightarrow> string + uchar list" where
  "hello_client sock converted connected =
     (if sock < 0 then Inl ''Socket creation error''
      else if converted \<le> 0 then Inl ''Invalid address/ Address not supported''
      else if connected < 0 then Inl ''Connection Failed''
      else Inr hello_text)"

section \<open>Whole and cut messages\<close>

definition text_ok :: "uchar list \<Rightarrow> bool" where
  "text_ok txt \<longleftrightarrow> 0 \<notin> set txt \<and> length txt + 1 < 2 ^ 31"

lemma c_string_zero_end: "0 \<notin> set xs \<Longrightarrow> c_string (xs @ 0 # ys) = Some xs"
proof -
  assume "0 \<notin> set xs"
  then have "takeWhile (\<lambda>c. c \<noteq> 0) (xs @ 0 # ys) = xs @ takeWhile (\<lambda>c. c \<noteq> 0) (0 # ys)"
    by (intro takeWhile_append2) auto
  then show ?thesis by (simp add: c_string_def)
qed

lemma int_length:
  assumes "n < 2 ^ 31"
  shows "unat (of_nat n :: 32 word) = n" and "sint (of_nat n :: 32 word) = int n"
proof -
  show u: "unat (of_nat n :: 32 word) = n" using assms by (simp add: unat_of_nat)
  have "signed_take_bit 31 (int n) = int n" using assms by (simp add: signed_take_bit_int_eq_self)
  then show "sint (of_nat n :: 32 word) = int n" by (simp add: signed_of_nat)
qed

lemma read_length:
  assumes "length (junk c) = 4" and "length_answer c = Some (le_bytes 4 w)"
  shows "of_le (read_into (junk c) (length_answer c)) = (w :: 32 word)"
  using assms by (simp add: read_into_def of_le_bytes)

text \<open>The buffer was cleared, so the text ends where the bytes that came end.\<close>

lemma cut_text:
  assumes "0 \<notin> set txt" and "l \<le> length txt + 1"
  shows "c_string (read_into (replicate (length txt + 1) 0) (Some (take l (txt @ [0])))) = Some (take l txt)"
proof (cases "l = length txt + 1")
  case True
  then show ?thesis using assms(1) by (simp add: read_into_def c_string_zero_end)
next
  case False
  then have l: "l \<le> length txt" using assms(2) by simp
  then have "read_into (replicate (length txt + 1) 0) (Some (take l (txt @ [0]))) = take l txt @ 0 # replicate (length txt - l) 0"
    by (simp add: read_into_def Suc_diff_le flip: replicate_Suc)
  moreover have "0 \<notin> set (take l txt)" using assms(1) by (meson in_set_takeD)
  ultimately show ?thesis by (simp add: c_string_zero_end)
qed

lemma server_client:
  assumes ok: "text_ok txt" and j: "length garbage = 4" and k: "4 \<le> k"
  shows "server (client_connection garbage k l txt)
    = Some (Some (take (max 1 l) txt, int (length txt + 1)), take (max 1 l) txt = quit_text)"
proof -
  let ?n = "length txt + 1" and ?c = "client_connection garbage k l txt"
  have n: "?n < 2 ^ 31" and z: "0 \<notin> set txt" using ok by (simp_all add: text_ok_def)
  have a: "read_answer 4 k (write_text txt) = le_bytes 4 (of_nat ?n :: 32 word)"
    using k by (simp add: read_answer_def write_text_def)
  have c: "junk ?c = garbage" "length_answer ?c = Some (le_bytes 4 (of_nat ?n :: 32 word))" "memory ?c"
      "text_answer ?c = Some (take (max 1 (min l ?n)) (txt @ [0]))"
    using a by (simp_all add: client_connection_def Let_def write_text_def read_answer_def)
  have len: "of_le (read_into (junk ?c) (length_answer ?c)) = (of_nat ?n :: 32 word)"
    by (rule read_length) (simp_all add: c j)
  have nz: "(of_nat ?n :: 32 word) \<noteq> 0" using int_length(1) [OF n] by (metis Suc_eq_plus1 nat.distinct(1) unat_0)
  have ne: "le_bytes 4 (of_nat ?n :: 32 word) \<noteq> []" by (metis length_le_bytes list.size(3) zero_neq_numeral)
  have cut: "c_string (read_into (replicate ?n 0) (text_answer ?c)) = Some (take (max 1 (min l ?n)) txt)"
    unfolding c by (rule cut_text [OF z]) simp
  have same: "take (max 1 (min l ?n)) txt = take (max 1 l) txt" by (cases "l \<le> ?n") (auto simp: min_def max_def)
  show ?thesis
    unfolding server_def len Let_def int_length [OF n] cut
    using nz ne c(2,3) same by simp
qed

lemma server_whole:
  assumes "text_ok txt" and "length garbage = 4" and "4 \<le> k" and "length txt < l"
  shows "server (client_connection garbage k l txt) = Some (Some (txt, int (length txt + 1)), txt = quit_text)"
  using server_client [OF assms(1-3), of l] assms(4) by (simp add: max_def)

text \<open>The messages up to the first \<open>quit\<close>.\<close>

fun upto_quit :: "uchar list list \<Rightarrow> uchar list list" where
  "upto_quit [] = []"
| "upto_quit (m # ms) = m # (if m = quit_text then [] else upto_quit ms)"

lemma serve_whole:
  assumes "\<forall>m\<in>set ms. text_ok m" and "length garbage = 4"
  shows "serve (map (\<lambda>m. client_connection garbage 4 (length m + 1) m) ms)
    = Some (map (\<lambda>m. (m, int (length m + 1))) (upto_quit ms), quit_text \<in> set ms)"
  using assms by (induction ms) (auto simp: server_whole printed_def)

text \<open>The single text of the other pair: printed whole or cut, and the error of a socket that was not made.\<close>

lemma hello_message:
  shows "hello_client 3 1 0 = Inr hello_text"
    and "l \<le> 17 \<Longrightarrow> hello_server (Some (take l hello_text)) = Some (take l hello_text)"
    and "hello_server None = Some []"
    and "0 \<notin> set bs \<Longrightarrow> length bs = 1024 \<Longrightarrow> hello_server (Some bs) = None"
    and "hello_server_begin (- 1) (- 1) li ns = Some ''bind failed''"
proof -
  show "hello_client 3 1 0 = Inr hello_text" by (simp add: hello_client_def)
  show "hello_server (Some (take l hello_text)) = Some (take l hello_text)" if "l \<le> 17"
  proof -
    have len: "length hello_text = 17" by (simp add: hello_text_def text_bytes_def)
    then have "read_into (replicate 1024 0) (Some (take l hello_text)) = take l hello_text @ 0 # replicate (1023 - l) 0"
      using that by (simp add: read_into_def Suc_diff_le del: replicate_numeral_Cons flip: replicate_Suc)
    moreover have "0 \<notin> set hello_text" by (simp add: hello_text_def text_bytes_def of_char_def)
    then have "0 \<notin> set (take l hello_text)" by (meson in_set_takeD)
    ultimately show ?thesis by (simp add: hello_server_def c_string_zero_end del: replicate_numeral_Cons)
  qed
  show "hello_server None = Some []"
    using c_string_zero_end [of "[]" "replicate 1023 0"]
    by (simp add: hello_server_def read_into_def del: replicate_numeral_Cons flip: replicate_Suc)
  show "hello_server (Some bs) = None" if "0 \<notin> set bs" and "length bs = 1024"
    using that by (simp add: hello_server_def read_into_def c_string_def del: replicate_numeral_Cons)
  show "hello_server_begin (- 1) (- 1) li ns = Some ''bind failed''"
    by (simp add: hello_server_begin_def)
qed

text \<open>
  C33: The server prints the messages of its clients in order, with their lengths, up to the first
  \<open>quit\<close>, and ends there and only there, when each read gives what was sent.  A read that gives fewer
  bytes of a text cuts it, and the server takes the rest for sent: a message that begins with \<open>quit\<close>
  can end it.  A client that closes at once, and a failed read of the text, do no harm; a negative
  length, or a text without its zero, makes the server access memory it does not have.  The server of
  the single text prints what came of it, is undefined when a text fills its buffer, and calls a
  socket that was not made a failed \<open>bind\<close>.
\<close>

theorem message_server:
  fixes w :: "32 word"
  assumes msgs: "\<forall>m\<in>set ms. text_ok m" and garbage: "length garbage = 4" and ok: "text_ok txt"
  shows "(serve (map (\<lambda>m. client_connection garbage 4 (length m + 1) m) ms)
      = Some (map (\<lambda>m. (m, int (length m + 1))) (upto_quit ms), quit_text \<in> set ms))
    \<and> (server (client_connection garbage 4 (Suc l) txt)
      = Some (Some (take (Suc l) txt, int (length txt + 1)), take (Suc l) txt = quit_text))
    \<and> (serve (c\<lparr>length_answer := Some []\<rparr> # cs) = serve cs)
    \<and> (server \<lparr>junk = garbage, length_answer = Some (le_bytes 4 w), memory = True, text_answer = None\<rparr> =
      (if w = 0 then Some (None, False) else if sint w < 0 then None else Some (Some ([], sint w), False)))
    \<and> (sint w < 0 \<longrightarrow> server \<lparr>junk = garbage, length_answer = Some (le_bytes 4 w), memory = m, text_answer = a\<rparr> = None)
    \<and> (0 \<notin> set bs \<longrightarrow> length bs = unat w \<longrightarrow> w \<noteq> 0 \<longrightarrow> server \<lparr>junk = garbage, length_answer = Some (le_bytes 4 w), memory = m, text_answer = Some bs\<rparr> = None)
    \<and> (k \<le> 17 \<longrightarrow> (hello_client 3 1 0 = Inr hello_text \<and> hello_server (Some (take k hello_text)) = Some (take k hello_text)))
    \<and> (0 \<notin> set cs' \<longrightarrow> length cs' = 1024 \<longrightarrow> hello_server (Some cs') = None)
    \<and> (hello_server_begin (- 1) (- 1) li ns = Some ''bind failed'')"
proof -
  have c7: "k \<le> 17 \<Longrightarrow> hello_client 3 1 0 = Inr hello_text \<and> hello_server (Some (take k hello_text)) = Some (take k hello_text)"
    and c8: "0 \<notin> set cs' \<Longrightarrow> length cs' = 1024 \<Longrightarrow> hello_server (Some cs') = None"
    and c9: "hello_server_begin (- 1) (- 1) li ns = Some ''bind failed''"
    using hello_message by blast+
  have c1: "serve (map (\<lambda>m. client_connection garbage 4 (length m + 1) m) ms)
      = Some (map (\<lambda>m. (m, int (length m + 1))) (upto_quit ms), quit_text \<in> set ms)"
    by (rule serve_whole [OF msgs garbage])
  have c2: "server (client_connection garbage 4 (Suc l) txt)
      = Some (Some (take (Suc l) txt, int (length txt + 1)), take (Suc l) txt = quit_text)"
    using server_client [OF ok garbage, of 4 "Suc l"] by simp
  have c3: "serve (c\<lparr>length_answer := Some []\<rparr> # cs) = serve cs"
    by (cases "serve cs") (auto simp: server_def printed_def)
  have ne: "le_bytes 4 w \<noteq> []" by (metis length_le_bytes list.size(3) zero_neq_numeral)
  have len: "of_le (read_into garbage (Some (le_bytes 4 w))) = w"
    using garbage by (simp add: read_into_def of_le_bytes)
  have z: "c_string (read_into (replicate (unat w) 0) None) = Some []" if "w \<noteq> 0"
    using that by (cases "unat w") (simp_all add: read_into_def c_string_def unsigned_eq_0_iff)
  have nq: "quit_text \<noteq> []" by (simp add: quit_text_def text_bytes_def)
  have c4: "server \<lparr>junk = garbage, length_answer = Some (le_bytes 4 w), memory = True, text_answer = None\<rparr> =
      (if w = 0 then Some (None, False) else if sint w < 0 then None else Some (Some ([], sint w), False))"
    using ne z nq by (simp add: server_def len Let_def)
  have c5: "server \<lparr>junk = garbage, length_answer = Some (le_bytes 4 w), memory = m, text_answer = a\<rparr> = None" if "sint w < 0"
    using ne that by (auto simp: server_def len Let_def)
  have c6: "server \<lparr>junk = garbage, length_answer = Some (le_bytes 4 w), memory = m, text_answer = Some bs\<rparr> = None"
    if "0 \<notin> set bs" and "length bs = unat w" and "w \<noteq> 0"
  proof -
    have "c_string (read_into (replicate (unat w) 0) (Some bs)) = None"
      using that by (simp add: read_into_def c_string_def)
    then show ?thesis using ne that(3) by (simp add: server_def len Let_def)
  qed
  show ?thesis
    by (rule conjI [OF c1 conjI [OF c2 conjI [OF c3 conjI [OF c4 conjI [OF impI [OF c5] conjI [OF impI [OF impI [OF impI [OF c6]]] conjI [OF impI [OF c7] conjI [OF impI [OF impI [OF c8]] c9]]]]]]]])
qed

text \<open>Two clients with one message each, the second one \<open>quit\<close>; and one whose \<open>quitting\<close> is cut after four bytes.\<close>

lemma message_server_witness:
  "serve (map (\<lambda>m. client_connection [1, 2, 3, 4] 4 (length m + 1) m) [text_bytes ''hi'', quit_text, text_bytes ''no''])
     = Some ([(text_bytes ''hi'', 3), (quit_text, 5)], True)
   \<and> server (client_connection [1, 2, 3, 4] 4 (Suc 3) (text_bytes ''quitting'')) = Some (Some (quit_text, 9), True)
   \<and> server \<lparr>junk = [1, 2, 3, 4], length_answer = Some (le_bytes 4 (- 1 :: 32 word)), memory = True, text_answer = None\<rparr> = None
   \<and> server \<lparr>junk = [1, 2, 3, 4], length_answer = Some (le_bytes 4 (1 :: 32 word)), memory = True, text_answer = Some [65]\<rparr> = None
   \<and> hello_server (Some (take 5 hello_text)) = Some (take 5 hello_text) \<and> hello_server (Some (replicate 1024 65)) = None"
proof -
  have ok: "\<forall>m\<in>set [text_bytes ''hi'', quit_text, text_bytes ''no'']. text_ok m" "text_ok (text_bytes ''quitting'')"
    by (simp_all add: text_ok_def quit_text_def text_bytes_def of_char_def)
  have l: "length [1, 2, 3, 4 :: uchar] = 4" by simp
  have u: "upto_quit [text_bytes ''hi'', quit_text, text_bytes ''no''] = [text_bytes ''hi'', quit_text]"
    "quit_text \<in> set [text_bytes ''hi'', quit_text, text_bytes ''no'']"
    by (simp_all add: quit_text_def text_bytes_def)
  have q: "take (Suc 3) (text_bytes ''quitting'') = quit_text" "length (text_bytes ''hi'') = 2" "length quit_text = 4"
      "length (text_bytes ''quitting'') = 8"
    by (simp_all add: quit_text_def text_bytes_def)
  have s: "sint (- 1 :: 32 word) < 0" "(0 :: uchar) \<notin> set [65]" "length [65 :: uchar] = unat (1 :: 32 word)" by simp_all
  show ?thesis
    using message_server [OF ok(1) l ok(2), THEN conjunct1] message_server [OF ok(1) l ok(2), where l = 3, THEN conjunct2, THEN conjunct1] u q
      message_server [OF ok(1) l ok(2), where w = "- 1" and m = True and a = None, THEN conjunct2, THEN conjunct2, THEN conjunct2, THEN conjunct2, THEN conjunct1, rule_format, OF s(1)]
      message_server [OF ok(1) l ok(2), where w = 1 and bs = "[65]" and m = True, THEN conjunct2, THEN conjunct2, THEN conjunct2, THEN conjunct2, THEN conjunct2, THEN conjunct1, rule_format, OF s(2,3)]
      message_server [OF ok(1) l ok(2), where k = 5, THEN conjunct2, THEN conjunct2, THEN conjunct2, THEN conjunct2, THEN conjunct2, THEN conjunct2, THEN conjunct1]
      message_server [OF ok(1) l ok(2), where cs' = "replicate 1024 65", THEN conjunct2, THEN conjunct2, THEN conjunct2, THEN conjunct2, THEN conjunct2, THEN conjunct2, THEN conjunct2, THEN conjunct1]
    by (simp del: replicate_numeral_Cons)
qed

end
