(* ===== verification/Datagrams.thy ===== *)
theory Datagrams
  imports EchoServer
begin

text \<open>
  The programs of \<open>5.net/udp\<close>: a datagram of one message (\<open>unicast\<close>), a file that is broadcast line by
  line (\<open>broadcast\<close>), and two pairs that send typed lines to a group (\<open>multicast/demo1\<close>, \<open>demo2\<close>).  A datagram
  arrives whole or not at all; what is longer than the buffer of the receiver is cut.
\<close>

section \<open>Unicast\<close>




section \<open>Broadcast\<close>


lemma take_line_less: "cs \<noteq> [] \<Longrightarrow> length (snd (take_line (Suc n) cs)) < length cs"
proof -
  have le: "length (snd (take_line n cs)) \<le> length cs" for n cs
    by (induction n cs rule: take_line.induct) (auto split: prod.splits)
  assume "cs \<noteq> []"
  then obtain c ds where "cs = c # ds" by (cases cs) auto
  then show ?thesis using le [of n ds] by (auto split: prod.splits)
qed







section \<open>The first group\<close>









section \<open>The second group\<close>








section \<open>Lines\<close>

text \<open>
  A text is read in pieces of at most \<open>n\<close> characters: each ends with the line, if the line ends in it.
  \<open>cut_up\<close> says what they are, and the function computes them.
\<close>

function pieces :: "nat \<Rightarrow> string \<Rightarrow> string list" where
  "pieces n cs = (if n = 0 \<or> cs = [] then []
     else fst (take_line n cs) # pieces n (snd (take_line n cs)))"
  by pat_completeness auto
termination
proof (relation "measure (\<lambda>(n, cs). length cs)")
  fix n :: nat and cs :: string assume "\<not> (n = 0 \<or> cs = [])"
  then show "((n, snd (take_line n cs)), (n, cs)) \<in> measure (\<lambda>(n, cs). length cs)"
    using take_line_less [of cs "n - 1"] by simp
qed simp

declare pieces.simps [simp del]

lemma pieces_Nil [simp]: "pieces n [] = []"
  by (subst pieces.simps) simp















section \<open>What is sent\<close>


section \<open>The two groups\<close>











end
