(* ===== verification/TimeTools.thy ===== *)
theory TimeTools
  imports Decimal "HOL-Library.Signed_Division"
begin

text \<open>
  The programs of \<open>3.tools/5.time\<close>: what \<open>time_func.c\<close> prints of a time and how it computes elapsed
  times; the timer of \<open>timefd_create.c\<close> that is read as a file; the timer of \<open>timer_create.c\<close> whose signal
  is blocked for a while; the setting of \<open>timer_create2.c\<close>.  Times are integers, and \<open>/\<close> and \<open>%\<close> of C are
  \<open>sdiv\<close> and \<open>smod\<close>; the clocks and the kernel's timers are arguments.
\<close>

section \<open>Times\<close>

record timespec =
  tv_sec :: int
  tv_nsec :: int

record timeval =
  tv_secs :: int
  tv_usec :: int

record tm =
  tm_sec :: int
  tm_min :: int
  tm_hour :: int
  tm_mday :: int
  tm_mon :: int
  tm_year :: int

text \<open>What \<open>get_local_time\<close> prints after its label, and the string of \<open>format_time\<close>, which must fit a buffer.\<close>

definition local_time_text :: "tm \<Rightarrow> string" where
  "local_time_text t = padded_int 2 (tm_mday t) @ ''-'' @ padded_int 2 (tm_mon t + 1) @ ''-'' @ padded_int 4 (tm_year t + 1900)
     @ '' '' @ padded_int 2 (tm_hour t) @ '':'' @ padded_int 2 (tm_min t) @ '':'' @ padded_int 2 (tm_sec t)"

definition format_time :: "tm \<Rightarrow> string option" where
  "format_time t =
     (let s = print_int (tm_year t + 1900) @ ''-'' @ padded_int 2 (tm_mon t + 1) @ ''-'' @ padded_int 2 (tm_mday t)
            @ '' '' @ padded_int 2 (tm_hour t) @ '':'' @ padded_int 2 (tm_min t) @ '':'' @ padded_int 2 (tm_sec t)
      in if length s < 100 then Some s else None)"

definition high_precision_text :: "timespec \<Rightarrow> string \<times> string" where
  "high_precision_text ts = (print_int (tv_sec ts), print_int (tv_nsec ts))"

text \<open>The elapsed milliseconds of \<open>measure_cpu_time2\<close> and \<open>measure_cpu_time3\<close>.\<close>

definition measure_cpu_time2 :: "timespec \<Rightarrow> timespec \<Rightarrow> int" where
  "measure_cpu_time2 time1 time2 =
     (tv_sec time2 - tv_sec time1) * 1000 + (tv_nsec time2 - tv_nsec time1) sdiv 1000000"

definition measure_cpu_time3 :: "timeval \<Rightarrow> timeval \<Rightarrow> int" where
  "measure_cpu_time3 tmstart tmend =
     (1000000 * (tv_secs tmend - tv_secs tmstart) + (tv_usec tmend - tv_usec tmstart)) sdiv 1000"

text \<open>
  The numbers both compute on the way.  They are integers here: the \<open>long\<close> of the code cannot overflow
  on clocks that show less than \<open>2 ^ 43\<close> seconds, as is shown with the property.
\<close>

definition long_ok :: "int \<Rightarrow> bool" where
  "long_ok i \<longleftrightarrow> - (2 ^ 63) \<le> i \<and> i < 2 ^ 63"

definition time2_steps :: "timespec \<Rightarrow> timespec \<Rightarrow> int list" where
  "time2_steps time1 time2 =
     [tv_sec time2 - tv_sec time1, (tv_sec time2 - tv_sec time1) * 1000, tv_nsec time2 - tv_nsec time1,
      (tv_nsec time2 - tv_nsec time1) sdiv 1000000, measure_cpu_time2 time1 time2]"

definition time3_steps :: "timeval \<Rightarrow> timeval \<Rightarrow> int list" where
  "time3_steps tmstart tmend =
     [tv_secs tmend - tv_secs tmstart, 1000000 * (tv_secs tmend - tv_secs tmstart), tv_usec tmend - tv_usec tmstart,
      1000000 * (tv_secs tmend - tv_secs tmstart) + (tv_usec tmend - tv_usec tmstart),
      measure_cpu_time3 tmstart tmend]"

text \<open>
  \<open>print_elapsed_time\<close>: its static variable, the two clock readings (the first one is used in the
  first call only, and a failing clock ends the program), and the two numbers it prints.
\<close>

definition c_int :: "int \<Rightarrow> int" where
  "c_int i = signed_take_bit 31 i"

definition elapsed_numbers :: "timespec \<Rightarrow> timespec \<Rightarrow> int \<times> int" where
  "elapsed_numbers start curr_time =
     (let secs = c_int (tv_sec curr_time - tv_sec start);
          nsecs = c_int (tv_nsec curr_time - tv_nsec start);
          (secs, nsecs) = (if nsecs < 0 then (secs - 1, nsecs + 1000000000) else (secs, nsecs))
      in (secs, (nsecs + 500000) sdiv 1000000))"

definition elapsed_text :: "int \<times> int \<Rightarrow> string" where
  "elapsed_text n = print_int (fst n) @ ''.'' @ padded_int 3 (snd n) @ '': ''"

definition print_elapsed_time ::
  "timespec option \<Rightarrow> timespec option \<Rightarrow> timespec option \<Rightarrow> (timespec \<times> int \<times> int) option" where
  "print_elapsed_time start clock1 clock2 =
     (case (case start of None \<Rightarrow> clock1 | Some t \<Rightarrow> Some t) of
        None \<Rightarrow> None
      | Some st \<Rightarrow> map_option (\<lambda>curr_time. (st, elapsed_numbers st curr_time)) clock2)"

section \<open>Timers\<close>

record itimerspec =
  it_value :: timespec
  it_interval :: timespec

definition nanoseconds :: "timespec \<Rightarrow> int" where
  "nanoseconds t = tv_sec t * 1000000000 + tv_nsec t"

definition time_ok :: "timespec \<Rightarrow> bool" where
  "time_ok t \<longleftrightarrow> 0 \<le> tv_sec t \<and> 0 \<le> tv_nsec t \<and> tv_nsec t < 1000000000"

text \<open>What the kernel accepts as a setting, and how often a timer with an absolute start has expired.\<close>

definition settime_ok :: "itimerspec \<Rightarrow> bool" where
  "settime_ok its \<longleftrightarrow> time_ok (it_value its) \<and> time_ok (it_interval its)"

definition expired :: "int \<Rightarrow> int \<Rightarrow> int \<Rightarrow> nat" where
  "expired first every t =
     (if t < first then 0 else if every = 0 then 1 else nat ((t - first) div every) + 1)"

definition expirations :: "itimerspec \<Rightarrow> int \<Rightarrow> nat" where
  "expirations its t =
     (if nanoseconds (it_value its) = 0 then 0
      else expired (nanoseconds (it_value its)) (nanoseconds (it_interval its)) t)"

text \<open>A setting relative to the time at which it is made.\<close>

definition expirations_from :: "int \<Rightarrow> itimerspec \<Rightarrow> int \<Rightarrow> nat" where
  "expirations_from now its t =
     (if nanoseconds (it_value its) = 0 then 0
      else expired (now + nanoseconds (it_value its)) (nanoseconds (it_interval its)) t)"

section \<open>The timer as a file\<close>

definition timerfd_settings :: "string list \<Rightarrow> timespec \<Rightarrow> (string + itimerspec \<times> int) option" where
  "timerfd_settings argv now =
     (if length argv \<noteq> 2 \<and> length argv \<noteq> 4 then Some (Inl ''init-secs [interval-secs max-exp]'')
      else do {
        init \<leftarrow> atoi (argv ! 1);
        (every, max_exp) \<leftarrow> (if length argv = 2 then Some (0, 1)
           else do { i \<leftarrow> atoi (argv ! 2); m \<leftarrow> atoi (argv ! 3); Some (i, m) });
        Some (Inr (\<lparr>it_value = \<lparr>tv_sec = tv_sec now + init, tv_nsec = tv_nsec now\<rparr>,
                    it_interval = \<lparr>tv_sec = every, tv_nsec = 0\<rparr>\<rparr>, max_exp)) })"

datatype loop_end = Finished | Waiting | Failed string

type_synonym fd_line = "(int \<times> int) \<times> 64 word \<times> 64 word"

text \<open>
  The loop over the reads: the answer of each (\<^term>\<open>None\<close> for an error) and the clock after it.  The
  comparison is one of unsigned numbers; with no answer left the program waits in \<open>read\<close>.
\<close>

fun timer_loop :: "64 word \<Rightarrow> timespec \<Rightarrow> 64 word \<Rightarrow> (64 word option \<times> timespec option) list \<Rightarrow> fd_line list \<times> loop_end" where
  "timer_loop max_exp start tot_exp [] = ([], if tot_exp < max_exp then Waiting else Finished)"
| "timer_loop max_exp start tot_exp ((answer, clock) # reads) =
     (if \<not> tot_exp < max_exp then ([], Finished)
      else (case answer of
        None \<Rightarrow> ([], Failed ''read'')
      | Some n \<Rightarrow>
          (case print_elapsed_time (Some start) None clock of
             None \<Rightarrow> ([], Failed ''clock_gettime'')
           | Some (_, numbers) \<Rightarrow>
               let tot = tot_exp + n; (rows, e) = timer_loop max_exp start tot reads
               in ((numbers, n, tot) # rows, e))))"

definition fd_line_text :: "fd_line \<Rightarrow> string" where
  "fd_line_text l = elapsed_text (fst l) @ ''read: '' @ decimal (unat (fst (snd l)))
     @ ''; total='' @ decimal (unat (snd (snd l))) @ [newline]"

text \<open>
  \<open>main\<close>: the arguments, the clock, whether the timer could be made, the clocks of the first call of
  \<open>print_elapsed_time\<close>, the reads.  An error is its message.
\<close>

definition timerfd_main ::
  "string list \<Rightarrow> timespec option \<Rightarrow> bool \<Rightarrow> timespec option \<Rightarrow> timespec option
     \<Rightarrow> (64 word option \<times> timespec option) list \<Rightarrow> (string + (int \<times> int) \<times> fd_line list \<times> loop_end) option" where
  "timerfd_main argv now made clock1 clock2 reads =
     (if length argv \<noteq> 2 \<and> length argv \<noteq> 4 then Some (Inl ''init-secs [interval-secs max-exp]'')
      else (case now of None \<Rightarrow> Some (Inl ''clock_gettime'')
      | Some now \<Rightarrow>
        (case timerfd_settings argv now of None \<Rightarrow> None
         | Some (Inl msg) \<Rightarrow> Some (Inl msg)
         | Some (Inr (its, max_exp)) \<Rightarrow>
             Some (if \<not> made then Inl ''timerfd_create''
                   else if \<not> settime_ok its then Inl ''timerfd_settime''
                   else (case print_elapsed_time None clock1 clock2 of
                           None \<Rightarrow> Inl ''clock_gettime''
                         | Some (start, numbers) \<Rightarrow> Inr (numbers, timer_loop (of_int max_exp) start 0 reads))))))"

section \<open>The timer with a signal\<close>

datatype tc_line = Establishing | Blocking | Timer_id | Sleeping int | Unblocking | Caught | Overrun int

datatype tc_call = Sigaction | Sigprocmask | Timer_create | Sigprocmask_unblock | Getoverrun

definition freq_settings :: "int \<Rightarrow> itimerspec" where
  "freq_settings freq =
     (let t = \<lparr>tv_sec = freq sdiv 1000000000, tv_nsec = freq smod 1000000000\<rparr>
      in \<lparr>it_value = t, it_interval = t\<rparr>)"

text \<open>
  The handler, run when the signal is no longer blocked: one signal is queued however often the timer
  has expired, and the overrun count tells of the others, up to the largest \<open>int\<close>.
\<close>

definition tc_handler :: "tc_call option \<Rightarrow> nat \<Rightarrow> tc_line list \<times> string option" where
  "tc_handler fails n =
     (if n = 0 then ([], None)
      else if fails = Some Getoverrun then ([Caught], Some ''timer_getoverrun'')
      else ([Caught, Overrun (int (min (n - 1) (2 ^ 31 - 1)))], None))"

text \<open>\<open>main\<close>: which call fails, the time of the setting, and the time from there to the unblocking.\<close>

definition tc_main :: "string list \<Rightarrow> tc_call option \<Rightarrow> int \<Rightarrow> nat \<Rightarrow> (tc_line list \<times> string option) option" where
  "tc_main argv fails now elapsed =
     (if length argv \<noteq> 3 then Some ([], Some ''<sleep-secs> <freq-nanosecs>'')
      else if fails = Some Sigaction then Some ([Establishing], Some ''sigaction'')
      else if fails = Some Sigprocmask then Some ([Establishing, Blocking], Some ''sigprocmask'')
      else if fails = Some Timer_create then Some ([Establishing, Blocking], Some ''timer_create'')
      else do {
        freq_nanosecs \<leftarrow> atoll (argv ! 2);
        let its = freq_settings freq_nanosecs;
        if \<not> settime_ok its then Some ([Establishing, Blocking, Timer_id], Some ''timer_settime'')
        else do {
          secs \<leftarrow> atoi (argv ! 1);
          let start = [Establishing, Blocking, Timer_id, Sleeping secs, Unblocking];
          if fails = Some Sigprocmask_unblock then Some (start, Some ''sigprocmask'')
          else (let (rows, err) = tc_handler fails (expirations_from now its (now + int elapsed))
                in Some (start @ rows, err)) } })"

text \<open>The setting of \<open>timer_create2.c\<close>, which is made with \<open>TIMER_ABSTIME\<close>.\<close>

definition timer2_settings :: itimerspec where
  "timer2_settings = \<lparr>it_value = \<lparr>tv_sec = 3, tv_nsec = 0\<rparr>, it_interval = \<lparr>tv_sec = 1, tv_nsec = 0\<rparr>\<rparr>"

section \<open>Elapsed times\<close>

lemma nanoseconds_diff:
  "nanoseconds t2 - nanoseconds t1 = (tv_sec t2 - tv_sec t1) * 1000000000 + (tv_nsec t2 - tv_nsec t1)"
  by (simp add: nanoseconds_def)

lemma div_mult_add: "(a * 1000000000 + b) div 1000000 = a * 1000 + b div (1000000 :: int)"
proof -
  have "a * 1000000000 + b = (a * 1000) * 1000000 + b" by simp
  then show ?thesis by simp
qed

lemma dvd_mult_add: "(1000000 :: int) dvd a * 1000000000 + b \<longleftrightarrow> 1000000 dvd b"
proof -
  have "a * 1000000000 = 1000000 * (a * 1000)" by simp
  then have "(1000000 :: int) dvd a * 1000000000" by (metis dvd_triv_left)
  then show ?thesis by (rule dvd_add_right_iff)
qed

lemma measure_cpu_time2_eq:
  "measure_cpu_time2 t1 t2 = (nanoseconds t2 - nanoseconds t1) div 1000000
     + of_bool (tv_nsec t2 < tv_nsec t1 \<and> \<not> 1000000 dvd nanoseconds t2 - nanoseconds t1)"
proof -
  let ?a = "tv_sec t2 - tv_sec t1" and ?b = "tv_nsec t2 - tv_nsec t1"
  have "?b sdiv 1000000 = ?b div 1000000 + of_bool (?b < 0 \<and> \<not> 1000000 dvd ?b)"
    by (simp add: signed_divide_int_eq_divide_int sgn_if)
  then show ?thesis unfolding nanoseconds_diff div_mult_add dvd_mult_add measure_cpu_time2_def by simp
qed

definition microseconds :: "timeval \<Rightarrow> int" where
  "microseconds t = tv_secs t * 1000000 + tv_usec t"

lemma measure_cpu_time3_eq:
  "microseconds t1 \<le> microseconds t2 \<Longrightarrow> measure_cpu_time3 t1 t2 = (microseconds t2 - microseconds t1) div 1000"
proof -
  assume "microseconds t1 \<le> microseconds t2"
  moreover have "measure_cpu_time3 t1 t2 = (microseconds t2 - microseconds t1) sdiv 1000"
    by (simp add: measure_cpu_time3_def microseconds_def algebra_simps)
  ultimately show ?thesis by (simp add: signed_divide_int_eq_divide_int sgn_if)
qed

lemma c_int_id: "- (2 ^ 31) \<le> i \<Longrightarrow> i < 2 ^ 31 \<Longrightarrow> c_int i = i"
  by (simp add: c_int_def signed_take_bit_int_eq_self)

lemma elapsed_numbers_eq:
  assumes ok: "time_ok st" "time_ok now" and le: "nanoseconds st \<le> nanoseconds now"
    and small: "tv_sec now - tv_sec st < 2 ^ 31"
  defines "e \<equiv> nanoseconds now - nanoseconds st"
  shows "elapsed_numbers st now = (e div 1000000000, (e mod 1000000000 + 500000) div 1000000)"
proof -
  let ?a = "tv_sec now - tv_sec st" and ?b = "tv_nsec now - tv_nsec st"
  have b: "- 1000000000 < ?b" "?b < 1000000000" using ok by (auto simp: time_ok_def)
  have a: "0 \<le> ?a" using le b ok by (auto simp: nanoseconds_def time_ok_def)
  have c: "c_int ?a = ?a" "c_int ?b = ?b" using a b small by (auto intro: c_int_id)
  have e: "e = ?a * 1000000000 + ?b" by (simp add: e_def nanoseconds_diff)
  show ?thesis
  proof (cases "?b < 0")
    case True
    have d: "e = 1000000000 * (?a - 1) + (?b + 1000000000)" by (simp add: e)
    have "e div 1000000000 = ?a - 1" "e mod 1000000000 = ?b + 1000000000"
      using int_div_pos_eq [OF d] int_mod_pos_eq [OF d] b True by simp_all
    then show ?thesis using True b
      by (simp add: elapsed_numbers_def c signed_divide_int_eq_divide_int sgn_if)
  next
    case False
    have d: "e = 1000000000 * ?a + ?b" by (simp add: e)
    have "e div 1000000000 = ?a" "e mod 1000000000 = ?b"
      using int_div_pos_eq [OF d] int_mod_pos_eq [OF d] b False by simp_all
    then show ?thesis using False
      by (simp add: elapsed_numbers_def c signed_divide_int_eq_divide_int sgn_if)
  qed
qed

lemma elapsed_rounding:
  fixes e :: int
  shows "e div 1000000000 * 1000 + (e mod 1000000000 + 500000) div 1000000 = (e + 500000) div 1000000"
proof -
  let ?k = "e div 1000000000 * 1000" and ?r = "e mod 1000000000 + 500000"
  have "e + 500000 = ?k * 1000000 + ?r"
    using div_mult_mod_eq [of e 1000000000] by linarith
  then have "(e + 500000) div 1000000 = (?k * 1000000 + ?r) div 1000000" by (rule arg_cong)
  also have "\<dots> = ?k + ?r div 1000000" by (rule div_mult_self3) simp
  finally show ?thesis by simp
qed

section \<open>Dates\<close>

definition tm_ok :: "tm \<Rightarrow> bool" where
  "tm_ok t \<longleftrightarrow> 0 \<le> tm_sec t \<and> tm_sec t \<le> 60 \<and> 0 \<le> tm_min t \<and> tm_min t < 60 \<and> 0 \<le> tm_hour t \<and> tm_hour t < 24
     \<and> 1 \<le> tm_mday t \<and> tm_mday t \<le> 31 \<and> 0 \<le> tm_mon t \<and> tm_mon t < 12 \<and> - 900 \<le> tm_year t \<and> tm_year t < 8100"

lemma two_digits: "0 \<le> i \<Longrightarrow> i < 100 \<Longrightarrow> length (padded_int 2 i) = 2 \<and> digits_value (padded_int 2 i) = i"
  using length_padded [of "nat i" 2] by (auto simp: padded_int_def digits_value_padded)

lemma year_digits:
  assumes "1000 \<le> i" and "i < 10000"
  shows "padded_int 4 i = print_int i" and "length (print_int i) = 4" and "digits_value (print_int i) = i"
proof -
  have "length (decimal (nat i)) = 4" using decimal_exact [of 3 "nat i"] assms by simp
  then show "padded_int 4 i = print_int i" and "length (print_int i) = 4" and "digits_value (print_int i) = i"
    using assms by (simp_all add: padded_int_def print_int_def padded_def digits_value_decimal)
qed

lemma format_time_fields:
  assumes "tm_ok t"
  obtains s where "format_time t = Some s" and "length s = 19"
    and "local_time_text t = take 2 (drop 8 s) @ ''-'' @ take 2 (drop 5 s) @ ''-'' @ take 4 s @ drop 10 s"
    and "map digits_value [take 4 s, take 2 (drop 5 s), take 2 (drop 8 s), take 2 (drop 11 s), take 2 (drop 14 s), drop 17 s]
           = [tm_year t + 1900, tm_mon t + 1, tm_mday t, tm_hour t, tm_min t, tm_sec t]"
proof -
  obtain Y M D h m s where parts: "print_int (tm_year t + 1900) = Y" "padded_int 2 (tm_mon t + 1) = M"
      "padded_int 2 (tm_mday t) = D" "padded_int 2 (tm_hour t) = h" "padded_int 2 (tm_min t) = m" "padded_int 2 (tm_sec t) = s"
    by blast
  have len: "length Y = 4" "length M = 2" "length D = 2" "length h = 2" "length m = 2" "length s = 2"
    and val: "digits_value Y = tm_year t + 1900" "digits_value M = tm_mon t + 1" "digits_value D = tm_mday t"
      "digits_value h = tm_hour t" "digits_value m = tm_min t" "digits_value s = tm_sec t"
    using assms parts year_digits(2,3) [of "tm_year t + 1900"] two_digits [of "tm_mon t + 1"] two_digits [of "tm_mday t"]
      two_digits [of "tm_hour t"] two_digits [of "tm_min t"] two_digits [of "tm_sec t"]
    by (simp_all add: tm_ok_def)
  have year: "padded_int 4 (tm_year t + 1900) = Y"
    using year_digits(1) [of "tm_year t + 1900"] assms parts(1) by (simp add: tm_ok_def)
  let ?s = "Y @ ''-'' @ M @ ''-'' @ D @ '' '' @ h @ '':'' @ m @ '':'' @ s"
  show ?thesis
  proof (rule that [of ?s])
    show "format_time t = Some ?s" using len by (simp add: format_time_def parts)
    show "length ?s = 19" using len by simp
    show "local_time_text t = take 2 (drop 8 ?s) @ ''-'' @ take 2 (drop 5 ?s) @ ''-'' @ take 4 ?s @ drop 10 ?s"
      using len by (simp add: local_time_text_def parts year)
    show "map digits_value [take 4 ?s, take 2 (drop 5 ?s), take 2 (drop 8 ?s), take 2 (drop 11 ?s), take 2 (drop 14 ?s), drop 17 ?s]
        = [tm_year t + 1900, tm_mon t + 1, tm_mday t, tm_hour t, tm_min t, tm_sec t]"
      using len val by simp
  qed
qed

section \<open>Reads of a timer\<close>

lemma expired_once: "expired first 0 t \<le> 1"
  by (simp add: expired_def)

text \<open>
  What the reads of a timer give that are made at the times \<open>ts\<close>: the expirations since the last one.
  A read returns when there is one, so each time must show more expirations than the one before.
\<close>

fun timer_reads :: "itimerspec \<Rightarrow> nat \<Rightarrow> (int \<times> timespec) list \<Rightarrow> (64 word option \<times> timespec option) list" where
  "timer_reads its c [] = []"
| "timer_reads its c ((t, clock) # ts) =
     (Some (of_nat (expirations its t - c)), Some clock) # timer_reads its (expirations its t) ts"

fun read_times_ok :: "itimerspec \<Rightarrow> nat \<Rightarrow> (int \<times> timespec) list \<Rightarrow> bool" where
  "read_times_ok its c [] \<longleftrightarrow> True"
| "read_times_ok its c ((t, clock) # ts) \<longleftrightarrow>
     c < expirations its t \<and> expirations its t < 2 ^ 63 \<and> read_times_ok its (expirations its t) ts"

text \<open>The reads that the loop makes: up to the first after which the timer has expired often enough.\<close>

fun reads_made :: "itimerspec \<Rightarrow> nat \<Rightarrow> nat \<Rightarrow> (int \<times> timespec) list \<Rightarrow> (int \<times> timespec) list" where
  "reads_made its m c [] = []"
| "reads_made its m c ((t, clock) # ts) =
     (if m \<le> c then [] else (t, clock) # reads_made its m (expirations its t) ts)"

lemma timer_loop_reads:
  fixes M :: "64 word"
  assumes "read_times_ok its c ts" and "c < 2 ^ 63"
  shows "map (unat \<circ> snd \<circ> snd) (fst (timer_loop M start (of_nat c) (timer_reads its c ts)))
           = map (expirations its \<circ> fst) (reads_made its (unat M) c ts)"
    and "map fst (fst (timer_loop M start (of_nat c) (timer_reads its c ts)))
           = map (elapsed_numbers start \<circ> snd) (reads_made its (unat M) c ts)"
    and "snd (timer_loop M start (of_nat c) (timer_reads its c ts))
           = (if unat M \<le> c \<or> (\<exists>t\<in>fst ` set ts. unat M \<le> expirations its t) then Finished else Waiting)"
proof -
  have less: "(of_nat k :: 64 word) < M \<longleftrightarrow> k < unat M" if "k < 2 ^ 63" for k
  proof -
    have "unat (of_nat k :: 64 word) = k" using that by (simp add: unat_of_nat)
    then show ?thesis by (simp add: word_less_nat_alt)
  qed
  have "map (unat \<circ> snd \<circ> snd) (fst (timer_loop M start (of_nat c) (timer_reads its c ts)))
           = map (expirations its \<circ> fst) (reads_made its (unat M) c ts)
      \<and> map fst (fst (timer_loop M start (of_nat c) (timer_reads its c ts)))
           = map (elapsed_numbers start \<circ> snd) (reads_made its (unat M) c ts)
      \<and> snd (timer_loop M start (of_nat c) (timer_reads its c ts))
           = (if unat M \<le> c \<or> (\<exists>t\<in>fst ` set ts. unat M \<le> expirations its t) then Finished else Waiting)"
    using assms
  proof (induction ts arbitrary: c)
    case Nil
    then show ?case by (simp add: less not_less)
  next
    case (Cons r ts)
    obtain t clock where r: "r = (t, clock)" by (cases r)
    let ?n = "expirations its t"
    have n: "c < ?n" "?n < 2 ^ 63" and ok: "read_times_ok its ?n ts" using Cons.prems(1) by (simp_all add: r)
    have sum: "(of_nat c + of_nat (?n - c) :: 64 word) = of_nat ?n" using n(1) by (simp flip: of_nat_add)
    have u: "unat (of_nat ?n :: 64 word) = ?n" using n(2) by (simp add: unat_of_nat)
    note IH = Cons.IH [OF ok n(2)]
    show ?case
    proof (cases "c < unat M")
      case False
      then show ?thesis by (simp add: r less [OF Cons.prems(2)])
    next
      case True
      then have "timer_loop M start (of_nat c) (timer_reads its c (r # ts))
        = ((elapsed_numbers start clock, of_nat (?n - c), of_nat ?n)
             # fst (timer_loop M start (of_nat ?n) (timer_reads its ?n ts)),
           snd (timer_loop M start (of_nat ?n) (timer_reads its ?n ts)))"
        by (simp add: r less [OF Cons.prems(2)] print_elapsed_time_def sum Let_def split: prod.split)
      then show ?thesis using IH True by (auto simp: r u)
    qed
  qed
  then show "map (unat \<circ> snd \<circ> snd) (fst (timer_loop M start (of_nat c) (timer_reads its c ts)))
           = map (expirations its \<circ> fst) (reads_made its (unat M) c ts)"
    and "map fst (fst (timer_loop M start (of_nat c) (timer_reads its c ts)))
           = map (elapsed_numbers start \<circ> snd) (reads_made its (unat M) c ts)"
    and "snd (timer_loop M start (of_nat c) (timer_reads its c ts))
           = (if unat M \<le> c \<or> (\<exists>t\<in>fst ` set ts. unat M \<le> expirations its t) then Finished else Waiting)"
    by blast+
qed

lemma read_times_small: "read_times_ok its c ts \<Longrightarrow> t \<in> fst ` set ts \<Longrightarrow> expirations its t < 2 ^ 63"
  by (induction its c ts rule: read_times_ok.induct) auto

lemma unat_of_int_neg:
  assumes "m < 0" and "- (2 ^ 31) \<le> m"
  shows "2 ^ 63 \<le> unat (of_int m :: 64 word)"
proof -
  have d: "m = 2 ^ 64 * (- 1) + (m + 2 ^ 64)" by simp
  have "m mod 2 ^ 64 = m + 2 ^ 64" by (rule int_mod_pos_eq [OF d]) (use assms in simp_all)
  then have "uint (of_int m :: 64 word) = m + 2 ^ 64" by (simp add: uint_word_of_int)
  then have "int (unat (of_int m :: 64 word)) = m + 2 ^ 64" by simp
  then have "int (2 ^ 63) \<le> int (unat (of_int m :: 64 word))" using assms(2) by simp
  then show ?thesis by (simp only: of_nat_le_iff)
qed

lemma unat_of_int_nonneg: "0 \<le> m \<Longrightarrow> m < 2 ^ 31 \<Longrightarrow> unat (of_int m :: 64 word) = nat m"
  by (simp add: unat_eq_nat_uint uint_word_of_int)

section \<open>The blocked signal\<close>

lemma freq_settings_pos:
  assumes "0 < freq"
  shows "settime_ok (freq_settings freq)" and "nanoseconds (it_value (freq_settings freq)) = freq"
    and "nanoseconds (it_interval (freq_settings freq)) = freq"
proof -
  have d: "freq sdiv 1000000000 = freq div 1000000000" "freq smod 1000000000 = freq mod 1000000000"
    using assms by (simp_all add: signed_divide_int_def signed_modulo_int_def)
  show "settime_ok (freq_settings freq)"
    using assms by (simp add: settime_ok_def time_ok_def freq_settings_def Let_def d pos_imp_zdiv_nonneg_iff)
  show "nanoseconds (it_value (freq_settings freq)) = freq" and "nanoseconds (it_interval (freq_settings freq)) = freq"
    by (simp_all add: nanoseconds_def freq_settings_def Let_def d)
qed

lemma freq_settings_neg: "freq < 0 \<Longrightarrow> \<not> settime_ok (freq_settings freq)"
proof -
  assume neg: "freq < 0"
  have "freq sdiv 1000000000 * 1000000000 + freq smod 1000000000 = freq" by (rule sdiv_mult_smod_eq)
  then have "freq sdiv 1000000000 < 0 \<or> freq smod 1000000000 < 0" using neg by linarith
  then show ?thesis by (auto simp: settime_ok_def time_ok_def freq_settings_def Let_def)
qed

lemma expirations_freq:
  assumes "0 < freq"
  shows "expirations_from now (freq_settings freq) (now + int elapsed) = nat (int elapsed div freq)"
proof -
  have "nat ((int elapsed - freq) div freq) + 1 = nat (int elapsed div freq)" if "freq \<le> int elapsed"
  proof -
    have "0 \<le> (int elapsed - freq) div freq" using that assms by (simp add: pos_imp_zdiv_nonneg_iff)
    moreover have "(int elapsed - freq) div freq = int elapsed div freq - 1"
      using div_add_self2 [of freq "int elapsed - freq"] assms by simp
    ultimately show ?thesis by simp
  qed
  moreover have "int elapsed div freq = 0" if "int elapsed < freq" using that by simp
  ultimately show ?thesis using assms by (auto simp: expirations_from_def expired_def freq_settings_pos)
qed

lemma expirations_zero: "expirations_from now (freq_settings 0) t = 0"
  by (simp add: expirations_from_def freq_settings_def nanoseconds_def signed_modulo_int_def Let_def)

lemma atoi_range: "atoi s = Some n \<Longrightarrow> - (2 ^ 31) \<le> n \<and> n < 2 ^ 31"
  by (simp add: atoi_def Let_def split: if_splits)

text \<open>No step of the two computations leaves the range of \<open>long\<close>.\<close>

lemma sdiv_bounds:
  fixes a :: int
  assumes "0 < n" "- m \<le> a" "a \<le> m"
  shows "- m \<le> a sdiv n \<and> a sdiv n \<le> m"
proof -
  have "\<bar>a\<bar> div n \<le> \<bar>a\<bar> div 1" using assms(1) by (intro zdiv_mono2) simp_all
  moreover have "0 \<le> \<bar>a\<bar> div n" using assms(1) by (simp add: pos_imp_zdiv_nonneg_iff)
  ultimately have "\<bar>a\<bar> div n \<le> \<bar>a\<bar>" "0 \<le> \<bar>a\<bar> div n" by simp_all
  then show ?thesis using assms by (simp add: signed_divide_int_def sgn_if abs_if split: if_splits)
qed

definition clock_time :: "timespec \<Rightarrow> bool" where
  "clock_time t \<longleftrightarrow> time_ok t \<and> tv_sec t < 2 ^ 43"

definition day_time :: "timeval \<Rightarrow> bool" where
  "day_time u \<longleftrightarrow> 0 \<le> tv_secs u \<and> tv_secs u < 2 ^ 43 \<and> 0 \<le> tv_usec u \<and> tv_usec u < 1000000"

lemma time2_steps_long:
  assumes "clock_time t1 \<and> clock_time t2"
  shows "list_all long_ok (time2_steps t1 t2)"
proof -
  have n: "- 1000000000 \<le> tv_nsec t2 - tv_nsec t1" "tv_nsec t2 - tv_nsec t1 \<le> 1000000000"
    using assms by (simp_all add: clock_time_def time_ok_def)
  from sdiv_bounds [OF _ n, of 1000000] assms show ?thesis
    by (simp add: time2_steps_def long_ok_def measure_cpu_time2_def clock_time_def time_ok_def)
qed

lemma time3_steps_long:
  assumes "day_time u1 \<and> day_time u2"
  shows "list_all long_ok (time3_steps u1 u2)"
proof -
  let ?d = "1000000 * (tv_secs u2 - tv_secs u1) + (tv_usec u2 - tv_usec u1)"
  have d: "- 9000000000000000000 \<le> ?d" "?d \<le> 9000000000000000000"
    using assms by (simp_all add: day_time_def)
  from sdiv_bounds [OF _ d, of 1000] assms show ?thesis
    by (simp add: time3_steps_def long_ok_def measure_cpu_time3_def day_time_def)
qed

text \<open>
  C35: Milliseconds from two readings of a clock.  With microseconds the result is the elapsed time
  rounded down; with nanoseconds it is one too large when the nanoseconds of the second reading are
  smaller and the time is no whole number of milliseconds, since \<open>/\<close> rounds a negative part up.
  \<open>print_elapsed_time\<close> rounds to the next millisecond, but the rounded part can be 1000, and is
  then printed behind the dot with four digits.  The date of \<open>get_local_time\<close> and that of
  \<open>format_time\<close> have the same fields, which can be read back.  On clocks that show less than \<open>2 ^ 43\<close>
  seconds no step of the two first computations overflows the \<open>long\<close> of the code.
\<close>

theorem elapsed_times:
  shows "(measure_cpu_time2 t1 t2 = (nanoseconds t2 - nanoseconds t1) div 1000000
      + of_bool (tv_nsec t2 < tv_nsec t1 \<and> \<not> 1000000 dvd nanoseconds t2 - nanoseconds t1))
    \<and> (microseconds u1 \<le> microseconds u2 \<longrightarrow> measure_cpu_time3 u1 u2 = (microseconds u2 - microseconds u1) div 1000)
    \<and> (time_ok t1 \<longrightarrow> time_ok t2 \<longrightarrow> nanoseconds t1 \<le> nanoseconds t2 \<longrightarrow> tv_sec t2 - tv_sec t1 < 2 ^ 31 \<longrightarrow> (\<exists>secs ms. print_elapsed_time None (Some t1) (Some t2) = Some (t1, secs, ms)
        \<and> secs * 1000 + ms = (nanoseconds t2 - nanoseconds t1 + 500000) div 1000000 \<and> 0 \<le> ms \<and> ms \<le> 1000
        \<and> (ms = 1000 \<longleftrightarrow> 999500000 \<le> (nanoseconds t2 - nanoseconds t1) mod 1000000000)
        \<and> elapsed_text (secs, ms) = print_int secs @ ''.'' @ (if ms = 1000 then ''1000'' else padded 3 (nat ms)) @ '': ''))
    \<and> (tm_ok d \<longrightarrow> (\<exists>s. format_time d = Some s \<and> length s = 19
      \<and> local_time_text d = take 2 (drop 8 s) @ ''-'' @ take 2 (drop 5 s) @ ''-'' @ take 4 s @ drop 10 s
      \<and> map digits_value [take 4 s, take 2 (drop 5 s), take 2 (drop 8 s), take 2 (drop 11 s), take 2 (drop 14 s), drop 17 s]
           = [tm_year d + 1900, tm_mon d + 1, tm_mday d, tm_hour d, tm_min d, tm_sec d]))
    \<and> (clock_time t1 \<and> clock_time t2 \<longrightarrow> list_all long_ok (time2_steps t1 t2))
    \<and> (day_time u1 \<and> day_time u2 \<longrightarrow> list_all long_ok (time3_steps u1 u2))"
proof -
  have c1: "measure_cpu_time2 t1 t2 = (nanoseconds t2 - nanoseconds t1) div 1000000
      + of_bool (tv_nsec t2 < tv_nsec t1 \<and> \<not> 1000000 dvd nanoseconds t2 - nanoseconds t1)"
    by (rule measure_cpu_time2_eq)
  have c2: "microseconds u1 \<le> microseconds u2 \<Longrightarrow>
      measure_cpu_time3 u1 u2 = (microseconds u2 - microseconds u1) div 1000"
    by (rule measure_cpu_time3_eq)
  have c3: "\<exists>secs ms. print_elapsed_time None (Some t1) (Some t2) = Some (t1, secs, ms)
        \<and> secs * 1000 + ms = (nanoseconds t2 - nanoseconds t1 + 500000) div 1000000 \<and> 0 \<le> ms \<and> ms \<le> 1000
        \<and> (ms = 1000 \<longleftrightarrow> 999500000 \<le> (nanoseconds t2 - nanoseconds t1) mod 1000000000)
        \<and> elapsed_text (secs, ms) = print_int secs @ ''.'' @ (if ms = 1000 then ''1000'' else padded 3 (nat ms)) @ '': ''"
    if ok: "time_ok t1" "time_ok t2" "nanoseconds t1 \<le> nanoseconds t2" "tv_sec t2 - tv_sec t1 < 2 ^ 31"
  proof (intro exI conjI)
    let ?e = "nanoseconds t2 - nanoseconds t1"
    let ?r = "?e mod 1000000000"
    have r: "0 \<le> ?r" "?r < 1000000000" by simp_all
    have "(?r + 500000) div 1000000 * 1000000 + (?r + 500000) mod 1000000 = ?r + 500000"
      "0 \<le> (?r + 500000) mod 1000000" "(?r + 500000) mod 1000000 < 1000000" by simp_all
    then have ms: "0 \<le> (?r + 500000) div 1000000" "(?r + 500000) div 1000000 \<le> 1000"
      "(?r + 500000) div 1000000 = 1000 \<longleftrightarrow> 999500000 \<le> ?r"
      using r by linarith+
    show "print_elapsed_time None (Some t1) (Some t2) = Some (t1, ?e div 1000000000, (?r + 500000) div 1000000)"
      by (simp add: print_elapsed_time_def elapsed_numbers_eq [OF ok])
    show "?e div 1000000000 * 1000 + (?r + 500000) div 1000000 = (?e + 500000) div 1000000"
      by (rule elapsed_rounding)
    show "0 \<le> (?r + 500000) div 1000000" and "(?r + 500000) div 1000000 \<le> 1000"
      and "((?r + 500000) div 1000000 = 1000) = (999500000 \<le> ?r)" by (fact ms)+
    have "padded 3 1000 = ''1000''" by code_simp
    then show "elapsed_text (?e div 1000000000, (?r + 500000) div 1000000) = print_int (?e div 1000000000) @ ''.'' @
        (if (?r + 500000) div 1000000 = 1000 then ''1000'' else padded 3 (nat ((?r + 500000) div 1000000))) @ '': ''"
      using ms(1) by (simp add: elapsed_text_def padded_int_def)
  qed
  have c4: "\<exists>s. format_time d = Some s \<and> length s = 19
      \<and> local_time_text d = take 2 (drop 8 s) @ ''-'' @ take 2 (drop 5 s) @ ''-'' @ take 4 s @ drop 10 s
      \<and> map digits_value [take 4 s, take 2 (drop 5 s), take 2 (drop 8 s), take 2 (drop 11 s), take 2 (drop 14 s), drop 17 s]
           = [tm_year d + 1900, tm_mon d + 1, tm_mday d, tm_hour d, tm_min d, tm_sec d]" if "tm_ok d"
    by (rule format_time_fields [OF that]) (intro exI conjI; assumption)
  show ?thesis
    by (rule conjI [OF c1 conjI [OF impI [OF c2] conjI [OF impI [OF impI [OF impI [OF impI [OF c3]]]] conjI [OF impI [OF c4]
      conjI [OF impI [OF time2_steps_long] impI [OF time3_steps_long]]]]]])
qed

text \<open>Half a microsecond that is printed as one millisecond, and almost a second that is printed as \<open>0.1000\<close>.\<close>

lemma elapsed_times_witness:
  "measure_cpu_time2 \<lparr>tv_sec = 1, tv_nsec = 999999500\<rparr> \<lparr>tv_sec = 2, tv_nsec = 0\<rparr> = 1
   \<and> measure_cpu_time3 \<lparr>tv_secs = 1, tv_usec = 999999\<rparr> \<lparr>tv_secs = 2, tv_usec = 0\<rparr> = 0
   \<and> (\<exists>secs ms. print_elapsed_time None (Some \<lparr>tv_sec = 5, tv_nsec = 0\<rparr>) (Some \<lparr>tv_sec = 5, tv_nsec = 999999999\<rparr>)
        = Some (\<lparr>tv_sec = 5, tv_nsec = 0\<rparr>, secs, ms) \<and> secs * 1000 + ms = 1000 \<and> ms = 1000)
   \<and> (\<exists>s. format_time \<lparr>tm_sec = 5, tm_min = 4, tm_hour = 3, tm_mday = 2, tm_mon = 0, tm_year = 125\<rparr> = Some s \<and> length s = 19)"
proof -
  let ?t = "\<lparr>tv_sec = 5, tv_nsec = 0\<rparr>" and ?u = "\<lparr>tv_sec = 5, tv_nsec = 999999999\<rparr>"
  have "time_ok ?t" "time_ok ?u" "nanoseconds ?t \<le> nanoseconds ?u" "tv_sec ?u - tv_sec ?t < 2 ^ 31"
    by (simp_all add: time_ok_def nanoseconds_def)
  note e = elapsed_times [THEN conjunct2, THEN conjunct2, THEN conjunct1, rule_format, OF this]
  have d: "tm_ok \<lparr>tm_sec = 5, tm_min = 4, tm_hour = 3, tm_mday = 2, tm_mon = 0, tm_year = 125\<rparr>" by (simp add: tm_ok_def)
  have m: "measure_cpu_time2 \<lparr>tv_sec = 1, tv_nsec = 999999500\<rparr> \<lparr>tv_sec = 2, tv_nsec = 0\<rparr> = 1"
    by (simp add: elapsed_times [THEN conjunct1] nanoseconds_def)
  have u: "measure_cpu_time3 \<lparr>tv_secs = 1, tv_usec = 999999\<rparr> \<lparr>tv_secs = 2, tv_usec = 0\<rparr> = 0"
    by (subst elapsed_times [THEN conjunct2, THEN conjunct1, rule_format]) (simp_all add: microseconds_def)
  from e have "\<exists>secs ms. print_elapsed_time None (Some ?t) (Some ?u) = Some (?t, secs, ms) \<and> secs * 1000 + ms = 1000 \<and> ms = 1000"
    by (simp add: nanoseconds_def)
  then show ?thesis using m u elapsed_times [THEN conjunct2, THEN conjunct2, THEN conjunct2, THEN conjunct1, rule_format, OF d] by blast
qed

text \<open>The loop with a number of expirations as \<open>main\<close> takes it: an \<open>int\<close>, compared as unsigned.\<close>

lemma timer_loop_nonneg:
  assumes reads: "read_times_ok its 0 ts" and m: "0 \<le> m" "m < 2 ^ 31"
    and r: "timer_loop (of_int m) start 0 (timer_reads its 0 ts) = (rows, e)"
  shows "map (unat \<circ> snd \<circ> snd) rows = map (expirations its \<circ> fst) (reads_made its (nat m) 0 ts)
     \<and> map fst rows = map (elapsed_numbers start \<circ> snd) (reads_made its (nat m) 0 ts)
     \<and> (e = Finished \<longleftrightarrow> m = 0 \<or> (\<exists>t\<in>fst ` set ts. m \<le> int (expirations its t)))"
proof -
  have u: "unat (of_int m :: 64 word) = nat m" by (rule unat_of_int_nonneg [OF m])
  have "(nat m \<le> expirations its t) = (m \<le> int (expirations its t))" for t by auto
  moreover have "(of_int m :: 64 word) = 0 \<longleftrightarrow> m = 0" using u m(1) by (metis nat_0_iff nat_eq_iff unat_0 unsigned_eq_0_iff)
  ultimately show ?thesis
    using timer_loop_reads [OF reads, of "of_int m :: 64 word" start, simplified] u r m(1) by (auto split: if_splits)
qed

lemma timer_loop_waits:
  assumes reads: "read_times_ok its 0 ts" and m: "- (2 ^ 31) \<le> m" "m < 2 ^ 31"
    and r: "timer_loop (of_int m) start 0 (timer_reads its 0 ts) = (rows, e)"
    and never: "m < 0 \<or> nanoseconds (it_interval its) = 0 \<and> 1 < m"
  shows "e = Waiting"
proof -
  have "expirations its t < unat (of_int m :: 64 word)" if t: "t \<in> fst ` set ts" for t
  proof (cases "m < 0")
    case True
    then show ?thesis using read_times_small [OF reads t] unat_of_int_neg [OF True m(1)] by simp
  next
    case False
    then have "unat (of_int m :: 64 word) = nat m" using unat_of_int_nonneg [of m] m(2) by simp
    then show ?thesis using expired_once [of "nanoseconds (it_value its)" t] never False by (auto simp: expirations_def)
  qed
  moreover have "unat (of_int m :: 64 word) \<noteq> 0"
    using never unat_of_int_neg [of m] unat_of_int_nonneg [of m] m by (cases "m < 0") auto
  ultimately show ?thesis
    using timer_loop_reads(3) [OF reads, of "of_int m :: 64 word" start, simplified] r
    by (force simp: not_le [symmetric] unsigned_eq_0_iff split: if_splits)
qed

lemma tc_main_result:
  assumes a: "atoll f = Some freq" "atoi s = Some secs"
  shows "tc_main [prog, s, f] None t0 elapsed = Some
        (if freq < 0 then ([Establishing, Blocking, Timer_id], Some ''timer_settime'')
         else ([Establishing, Blocking, Timer_id, Sleeping secs, Unblocking]
                @ (let n = if freq = 0 then 0 else nat (int elapsed div freq)
                   in if n = 0 then [] else [Caught, Overrun (int (min (n - 1) (2 ^ 31 - 1)))]), None))"
proof -
  consider "freq < 0" | "freq = 0" | "0 < freq" by linarith
  then show ?thesis
  proof cases
    case 1
    then show ?thesis using a freq_settings_neg [OF 1] by (simp add: tc_main_def)
  next
    case 2
    have "settime_ok (freq_settings 0)"
      by (simp add: settime_ok_def time_ok_def freq_settings_def signed_modulo_int_def Let_def)
    then show ?thesis using a 2 expirations_zero by (simp add: tc_main_def tc_handler_def)
  next
    case 3
    then show ?thesis using a freq_settings_pos(1) [OF 3] expirations_freq [OF 3, of t0 elapsed]
      by (simp add: tc_main_def tc_handler_def Let_def)
  qed
qed

text \<open>
  C34: The loop of \<open>timefd_create.c\<close> reports, after each read, how often the timer has expired so far and
  the time since its start, and stops at the first read that reaches the number asked for; it waits
  for ever when the timer expires only once and more is asked for, and also when the number is
  negative, since it is compared as unsigned.  Settings that are no times are refused.  In
  \<open>timer_create.c\<close> the blocked signal is delivered once and its overrun count tells of all other
  expirations; a period of zero starts no timer and a negative one is refused.  The timer of
  \<open>timer_create2.c\<close> is set to three seconds after 1970, so it has expired when it is set.
\<close>

theorem timers_count:
  fixes ts :: "(int \<times> timespec) list"
  assumes settings: "timerfd_settings argv now = Some (Inr (its, m))"
    and reads: "read_times_ok its 0 ts" and clock: "print_elapsed_time None c1 c2 = Some (start, n0)"
  shows "(settime_ok its \<longrightarrow> (\<exists>rows e. timerfd_main argv (Some now) True c1 c2 (timer_reads its 0 ts) = Some (Inr (n0, rows, e))
      \<and> (0 \<le> m \<longrightarrow> map (unat \<circ> snd \<circ> snd) rows = map (expirations its \<circ> fst) (reads_made its (nat m) 0 ts)
           \<and> map fst rows = map (elapsed_numbers start \<circ> snd) (reads_made its (nat m) 0 ts)
           \<and> (e = Finished \<longleftrightarrow> m = 0 \<or> (\<exists>t\<in>fst ` set ts. m \<le> int (expirations its t))))
      \<and> (m < 0 \<or> nanoseconds (it_interval its) = 0 \<and> 1 < m \<longrightarrow> e = Waiting)))
    \<and> (\<not> settime_ok its \<longrightarrow> timerfd_main argv (Some now) True c1 c2 answers = Some (Inl ''timerfd_settime''))
    \<and> (atoll f = Some freq \<longrightarrow> atoi s = Some secs \<longrightarrow> tc_main [prog, s, f] None t0 elapsed = Some
        (if freq < 0 then ([Establishing, Blocking, Timer_id], Some ''timer_settime'')
         else ([Establishing, Blocking, Timer_id, Sleeping secs, Unblocking]
                @ (let n = if freq = 0 then 0 else nat (int elapsed div freq)
                   in if n = 0 then [] else [Caught, Overrun (int (min (n - 1) (2 ^ 31 - 1)))]), None)))
    \<and> (3000000000 \<le> t0 \<longrightarrow> 0 < expirations timer2_settings t0)
    \<and> (t < 3000000000 \<longrightarrow> expirations_from t0 timer2_settings (t0 + t) = 0)"
proof -
  have argc: "length argv = 2 \<or> length argv = 4" using settings by (auto simp: timerfd_settings_def split: if_splits)
  have m: "- (2 ^ 31) \<le> m" "m < 2 ^ 31"
    using settings atoi_range by (auto simp: timerfd_settings_def bind_eq_Some_conv split: if_splits)
  obtain rows e where r: "timer_loop (of_int m) start 0 (timer_reads its 0 ts) = (rows, e)" by fastforce
  have main: "timerfd_main argv (Some now) True c1 c2 (timer_reads its 0 ts) = Some (Inr (n0, rows, e))" if "settime_ok its"
    using argc settings that clock r by (auto simp: timerfd_main_def)
  have c1: "\<exists>rows e. timerfd_main argv (Some now) True c1 c2 (timer_reads its 0 ts) = Some (Inr (n0, rows, e))
      \<and> (0 \<le> m \<longrightarrow> map (unat \<circ> snd \<circ> snd) rows = map (expirations its \<circ> fst) (reads_made its (nat m) 0 ts)
           \<and> map fst rows = map (elapsed_numbers start \<circ> snd) (reads_made its (nat m) 0 ts)
           \<and> (e = Finished \<longleftrightarrow> m = 0 \<or> (\<exists>t\<in>fst ` set ts. m \<le> int (expirations its t))))
      \<and> (m < 0 \<or> nanoseconds (it_interval its) = 0 \<and> 1 < m \<longrightarrow> e = Waiting)" if ok: "settime_ok its"
    using main [OF ok] timer_loop_nonneg [OF reads _ m(2) r] timer_loop_waits [OF reads m r] by blast
  have c2: "timerfd_main argv (Some now) True c1 c2 answers = Some (Inl ''timerfd_settime'')" if "\<not> settime_ok its"
    using argc settings that by (auto simp: timerfd_main_def)
  have c4: "3000000000 \<le> t0 \<Longrightarrow> 0 < expirations timer2_settings t0"
    by (simp add: expirations_def expired_def timer2_settings_def nanoseconds_def)
  have c5: "t < 3000000000 \<Longrightarrow> expirations_from t0 timer2_settings (t0 + t) = 0"
    by (simp add: expirations_from_def expired_def timer2_settings_def nanoseconds_def)
  show ?thesis
    by (rule conjI [OF impI [OF c1] conjI [OF impI [OF c2] conjI [OF impI [OF impI [OF tc_main_result]] conjI [OF impI [OF c4] impI [OF c5]]]]])
qed

text \<open>
  The call \<open>./a.out 3 1 10\<close> at second 100, with reads at 103, at 105 after two more expirations, and at
  112; and a period of 100 milliseconds that is blocked for one second.
\<close>

lemma timers_count_witness:
  "\<exists>e. timerfd_main [''a'', ''3'', ''1'', ''10''] (Some \<lparr>tv_sec = 100, tv_nsec = 0\<rparr>) True
       (Some \<lparr>tv_sec = 7, tv_nsec = 0\<rparr>) (Some \<lparr>tv_sec = 7, tv_nsec = 0\<rparr>)
       (timer_reads \<lparr>it_value = \<lparr>tv_sec = 103, tv_nsec = 0\<rparr>, it_interval = \<lparr>tv_sec = 1, tv_nsec = 0\<rparr>\<rparr> 0
          [(103000000000, \<lparr>tv_sec = 10, tv_nsec = 0\<rparr>), (105000000000, \<lparr>tv_sec = 12, tv_nsec = 0\<rparr>),
           (112000000000, \<lparr>tv_sec = 19, tv_nsec = 0\<rparr>)])
     = Some (Inr ((0, 0), e, Finished)) \<and> map (unat \<circ> snd \<circ> snd) e = [1, 3, 10]
   \<and> tc_main [''a'', ''1'', ''100000000''] None 0 1000000000
     = Some ([Establishing, Blocking, Timer_id, Sleeping 1, Unblocking, Caught, Overrun 9], None)"
proof -
  define now :: timespec where d0: "now = \<lparr>tv_sec = 100, tv_nsec = 0\<rparr>"
  define st :: timespec where d1: "st = \<lparr>tv_sec = 7, tv_nsec = 0\<rparr>"
  define its :: itimerspec where d2: "its = \<lparr>it_value = \<lparr>tv_sec = 103, tv_nsec = 0\<rparr>, it_interval = \<lparr>tv_sec = 1, tv_nsec = 0\<rparr>\<rparr>"
  define ts :: "(int \<times> timespec) list" where d3: "ts = [(103000000000, \<lparr>tv_sec = 10, tv_nsec = 0\<rparr>), (105000000000, \<lparr>tv_sec = 12, tv_nsec = 0\<rparr>),
           (112000000000, \<lparr>tv_sec = 19, tv_nsec = 0\<rparr>)]"
  have n: "atoi ''3'' = Some 3" "atoi ''1'' = Some 1" "atoi ''10'' = Some 10" "atoll ''100000000'' = Some 100000000"
    by (simp_all add: atoi_def atoll_def ato_def Let_def isspace_def is_digit_def digits_value_def of_char_def)
  have x: "expirations its 103000000000 = 1" "expirations its 105000000000 = 3" "expirations its 112000000000 = 10"
    by (simp_all add: d2 expirations_def expired_def nanoseconds_def)
  have s: "timerfd_settings [''a'', ''3'', ''1'', ''10''] now = Some (Inr (its, 10))"
    by (simp add: timerfd_settings_def n d0 d2)
  have r: "read_times_ok its 0 ts" by (simp add: x d3)
  have c: "print_elapsed_time None (Some st) (Some st) = Some (st, 0, 0)"
    by (simp add: print_elapsed_time_def elapsed_numbers_def c_int_def signed_divide_int_def)
  have ok: "settime_ok its" by (simp add: settime_ok_def time_ok_def d2)
  have made: "map (expirations its \<circ> fst) (reads_made its (nat 10) 0 ts) = [1, 3, 10]" by (simp add: x d3)
  have ten: "\<exists>t\<in>fst ` set ts. 10 \<le> int (expirations its t)" by (simp add: x d3)
  have "0 \<le> (10 :: int)" by simp
  then obtain rows e where "timerfd_main [''a'', ''3'', ''1'', ''10''] (Some now) True (Some st) (Some st) (timer_reads its 0 ts)
      = Some (Inr ((0, 0), rows, e))" "map (unat \<circ> snd \<circ> snd) rows = [1, 3, 10]" "e = Finished"
    using timers_count [OF s r c, THEN conjunct1, rule_format, OF ok] ten unfolding made by auto
  then have e: "timerfd_main [''a'', ''3'', ''1'', ''10''] (Some now) True (Some st) (Some st) (timer_reads its 0 ts)
      = Some (Inr ((0, 0), rows, Finished)) \<and> map (unat \<circ> snd \<circ> snd) rows = [1, 3, 10]" by simp
  have "tc_main [''a'', ''1'', ''100000000''] None 0 1000000000
     = Some ([Establishing, Blocking, Timer_id, Sleeping 1, Unblocking, Caught, Overrun 9], None)"
    by (subst timers_count [OF s r c, THEN conjunct2, THEN conjunct2, THEN conjunct1, rule_format, OF n(4,2)]) simp
  then show ?thesis using e unfolding d0 d1 d2 d3 by (intro exI [of _ rows] conjI) simp_all
qed

end
