(* ===== verification/TimedWait.thy ===== *)
theory TimedWait
  imports Schedules
begin

text \<open>
  \<open>3.Thread/3.cond/3.thread_cond_wait_time.c\<close>: a thread that waits for a condition at most five seconds,
  and a main thread that signals after three.  Time is a clock in microseconds that moves between the
  steps by any amount; a wait can also end with no signal and before its time.
\<close>

section \<open>The program\<close>

datatype waiter_pc = T_lock | T_time | T_call | T_waiting | T_relock | T_unlock | T_print | T_done

datatype sender_pc = M_announce | M_sleep nat | M_sending | M_lock | M_signal | M_unlock | M_join | M_done | M_failed

datatype tw_line = Create_failed | Wait_signal nat | Sending_signal | Thread_ret int

text \<open>
  \<open>mutex\<close>: who holds it (\<^term>\<open>True\<close> for the main thread).  The last three components record when the thread
  asked for the time, when the signal was sent, and whether anybody waited then.
\<close>

record tw_state =
  clock :: nat
  mutex :: "bool option"
  signalled :: bool
  deadline :: nat
  ret :: int
  waiter_at :: waiter_pc
  sender_at :: sender_pc
  tw_out :: "tw_line list"
  asked :: "nat option"
  sent :: "nat option"
  heard :: bool

definition SENDSIGTIME :: nat where
  "SENDSIGTIME = 3"

definition ETIMEDOUT :: int where
  "ETIMEDOUT = 110"

definition tw_start :: "bool \<Rightarrow> nat \<Rightarrow> tw_state" where
  "tw_start created t = \<lparr>clock = t, mutex = None, signalled = False, deadline = 0, ret = 0, waiter_at = T_lock,
     sender_at = (if created then M_announce else M_failed), tw_out = (if created then [] else [Create_failed]),
     asked = None, sent = None, heard = False\<rparr>"

text \<open>The deadline is a \<open>timespec\<close>: seconds and nanoseconds of a time in microseconds, five seconds later.\<close>

definition outtime :: "nat \<Rightarrow> nat" where
  "outtime now = (now div 1000000 + 5) * 1000000000 + now mod 1000000 * 1000"

definition waiter_step :: "bool \<Rightarrow> tw_state \<Rightarrow> tw_state option" where
  "waiter_step spurious s = (case waiter_at s of
     T_lock \<Rightarrow> if mutex s = None then Some (s\<lparr>mutex := Some False, waiter_at := T_time\<rparr>) else None
   | T_time \<Rightarrow> Some (s\<lparr>deadline := outtime (clock s), asked := Some (clock s), waiter_at := T_call\<rparr>)
   | T_call \<Rightarrow> Some (s\<lparr>mutex := None, waiter_at := T_waiting\<rparr>)
   | T_waiting \<Rightarrow>
       if signalled s then Some (s\<lparr>signalled := False, waiter_at := T_relock, ret := 0\<rparr>)
       else if deadline s \<le> clock s * 1000 then Some (s\<lparr>waiter_at := T_relock, ret := ETIMEDOUT\<rparr>)
       else if spurious then Some (s\<lparr>waiter_at := T_relock, ret := 0\<rparr>) else None
   | T_relock \<Rightarrow> if mutex s = None then Some (s\<lparr>mutex := Some False, waiter_at := T_unlock\<rparr>) else None
   | T_unlock \<Rightarrow> Some (s\<lparr>mutex := None, waiter_at := T_print\<rparr>)
   | T_print \<Rightarrow> Some (s\<lparr>tw_out := tw_out s @ [Thread_ret (ret s)], waiter_at := T_done\<rparr>)
   | T_done \<Rightarrow> None)"

definition sender_step :: "tw_state \<Rightarrow> tw_state option" where
  "sender_step s = (case sender_at s of
     M_announce \<Rightarrow> Some (s\<lparr>tw_out := tw_out s @ [Wait_signal SENDSIGTIME], sender_at := M_sleep (clock s + SENDSIGTIME * 1000000)\<rparr>)
   | M_sleep t \<Rightarrow> if t \<le> clock s then Some (s\<lparr>sender_at := M_sending\<rparr>) else None
   | M_sending \<Rightarrow> Some (s\<lparr>tw_out := tw_out s @ [Sending_signal], sender_at := M_lock\<rparr>)
   | M_lock \<Rightarrow> if mutex s = None then Some (s\<lparr>mutex := Some True, sender_at := M_signal\<rparr>) else None
   | M_signal \<Rightarrow> Some (s\<lparr>signalled := (waiter_at s = T_waiting), heard := (waiter_at s = T_waiting),
       sent := Some (clock s), sender_at := M_unlock\<rparr>)
   | M_unlock \<Rightarrow> Some (s\<lparr>mutex := None, sender_at := M_join\<rparr>)
   | M_join \<Rightarrow> if waiter_at s = T_done then Some (s\<lparr>sender_at := M_done\<rparr>) else None
   | _ \<Rightarrow> None)"

text \<open>
  An event: whether the main thread moves, how much time passes before, and whether a wait may end
  without a reason.  When the thread could not be created only the main thread exists.
\<close>

definition tw_step :: "bool \<times> nat \<times> bool \<Rightarrow> tw_state \<Rightarrow> tw_state option" where
  "tw_step e s =
     (let s = s\<lparr>clock := clock s + fst (snd e)\<rparr>
      in if sender_at s = M_failed then None
         else if fst e then sender_step s else waiter_step (snd (snd e)) s)"

section \<open>Positions\<close>

lemma outtime_eq: "outtime now = now * 1000 + 5000000000"
proof -
  have "now = now div 1000000 * 1000000 + now mod 1000000" by (rule div_mult_mod_eq [symmetric])
  then have "now * 1000 = (now div 1000000 * 1000000 + now mod 1000000) * 1000" by (rule arg_cong)
  then show ?thesis unfolding outtime_def add_mult_distrib by simp
qed

definition waiter_holds :: "waiter_pc \<Rightarrow> bool" where
  "waiter_holds pc \<longleftrightarrow> pc = T_time \<or> pc = T_call \<or> pc = T_unlock"

definition sender_holds :: "sender_pc \<Rightarrow> bool" where
  "sender_holds pc \<longleftrightarrow> pc = M_signal \<or> pc = M_unlock"

definition returned :: "waiter_pc \<Rightarrow> bool" where
  "returned pc \<longleftrightarrow> pc = T_relock \<or> pc = T_unlock \<or> pc = T_print \<or> pc = T_done"

definition was_sent :: "sender_pc \<Rightarrow> bool" where
  "was_sent pc \<longleftrightarrow> pc = M_unlock \<or> pc = M_join \<or> pc = M_done"

definition sender_lines :: "sender_pc \<Rightarrow> tw_line list" where
  "sender_lines pc = (case pc of
     M_announce \<Rightarrow> [] | M_sleep _ \<Rightarrow> [Wait_signal 3] | M_sending \<Rightarrow> [Wait_signal 3] | M_failed \<Rightarrow> []
   | _ \<Rightarrow> [Wait_signal 3, Sending_signal])"

definition from_sender :: "tw_line \<Rightarrow> bool" where
  "from_sender l = (case l of Thread_ret _ \<Rightarrow> False | _ \<Rightarrow> True)"

lemmas tw_sets = waiter_holds_def sender_holds_def returned_def was_sent_def

section \<open>The cases of a step\<close>

lemma waiter_stepE:
  assumes "waiter_step sp s = Some s'"
  obtains (lock) "waiter_at s = T_lock" "mutex s = None" "s' = s\<lparr>mutex := Some False, waiter_at := T_time\<rparr>"
  | (time) "waiter_at s = T_time" "s' = s\<lparr>deadline := outtime (clock s), asked := Some (clock s), waiter_at := T_call\<rparr>"
  | (call) "waiter_at s = T_call" "s' = s\<lparr>mutex := None, waiter_at := T_waiting\<rparr>"
  | (woken) "waiter_at s = T_waiting" "signalled s" "s' = s\<lparr>signalled := False, waiter_at := T_relock, ret := 0\<rparr>"
  | (timeout) "waiter_at s = T_waiting" "\<not> signalled s" "deadline s \<le> clock s * 1000"
      "s' = s\<lparr>waiter_at := T_relock, ret := 110\<rparr>"
  | (spurious) "sp" "waiter_at s = T_waiting" "\<not> signalled s" "s' = s\<lparr>waiter_at := T_relock, ret := 0\<rparr>"
  | (relock) "waiter_at s = T_relock" "mutex s = None" "s' = s\<lparr>mutex := Some False, waiter_at := T_unlock\<rparr>"
  | (unlock) "waiter_at s = T_unlock" "s' = s\<lparr>mutex := None, waiter_at := T_print\<rparr>"
  | (print) "waiter_at s = T_print" "s' = s\<lparr>tw_out := tw_out s @ [Thread_ret (ret s)], waiter_at := T_done\<rparr>"
proof (cases "waiter_at s")
  case T_lock
  then show ?thesis using assms lock by (simp add: waiter_step_def ETIMEDOUT_def split: if_splits)
next
  case T_time
  then show ?thesis using assms time by (simp add: waiter_step_def ETIMEDOUT_def split: if_splits)
next
  case T_call
  then show ?thesis using assms call by (simp add: waiter_step_def ETIMEDOUT_def split: if_splits)
next
  case T_waiting
  then show ?thesis using assms woken timeout spurious by (simp add: waiter_step_def ETIMEDOUT_def split: if_splits)
next
  case T_relock
  then show ?thesis using assms relock by (simp add: waiter_step_def ETIMEDOUT_def split: if_splits)
next
  case T_unlock
  then show ?thesis using assms unlock by (simp add: waiter_step_def ETIMEDOUT_def split: if_splits)
next
  case T_print
  then show ?thesis using assms print by (simp add: waiter_step_def ETIMEDOUT_def split: if_splits)
qed (use assms in \<open>simp_all add: waiter_step_def\<close>)

lemma sender_stepE:
  assumes "sender_step s = Some s'"
  obtains (announce) "sender_at s = M_announce" "s' = s\<lparr>tw_out := tw_out s @ [Wait_signal 3], sender_at := M_sleep (clock s + 3000000)\<rparr>"
  | (sleep) t where "sender_at s = M_sleep t" "t \<le> clock s" "s' = s\<lparr>sender_at := M_sending\<rparr>"
  | (sending) "sender_at s = M_sending" "s' = s\<lparr>tw_out := tw_out s @ [Sending_signal], sender_at := M_lock\<rparr>"
  | (lock) "sender_at s = M_lock" "mutex s = None" "s' = s\<lparr>mutex := Some True, sender_at := M_signal\<rparr>"
  | (heard) "sender_at s = M_signal" "waiter_at s = T_waiting"
      "s' = s\<lparr>signalled := True, heard := True, sent := Some (clock s), sender_at := M_unlock\<rparr>"
  | (unheard) "sender_at s = M_signal" "waiter_at s \<noteq> T_waiting"
      "s' = s\<lparr>signalled := False, heard := False, sent := Some (clock s), sender_at := M_unlock\<rparr>"
  | (unlock) "sender_at s = M_unlock" "s' = s\<lparr>mutex := None, sender_at := M_join\<rparr>"
  | (join) "sender_at s = M_join" "waiter_at s = T_done" "s' = s\<lparr>sender_at := M_done\<rparr>"
proof (cases "sender_at s")
  case M_announce
  then show ?thesis using assms announce by (simp add: sender_step_def SENDSIGTIME_def split: if_splits)
next
  case (M_sleep t)
  then show ?thesis using assms sleep by (simp add: sender_step_def SENDSIGTIME_def split: if_splits)
next
  case M_sending
  then show ?thesis using assms sending by (simp add: sender_step_def SENDSIGTIME_def split: if_splits)
next
  case M_lock
  then show ?thesis using assms lock by (simp add: sender_step_def SENDSIGTIME_def split: if_splits)
next
  case M_signal
  then show ?thesis using assms heard unheard by (cases "waiter_at s = T_waiting") (simp_all add: sender_step_def SENDSIGTIME_def split: if_splits)
next
  case M_unlock
  then show ?thesis using assms unlock by (simp add: sender_step_def SENDSIGTIME_def split: if_splits)
next
  case M_join
  then show ?thesis using assms join by (simp add: sender_step_def SENDSIGTIME_def split: if_splits)
qed (use assms in \<open>simp_all add: sender_step_def\<close>)

section \<open>Invariants\<close>

definition lock_inv :: "tw_state \<Rightarrow> bool" where
  "lock_inv s \<longleftrightarrow> sender_at s \<noteq> M_failed
     \<and> (mutex s = Some False \<longleftrightarrow> waiter_holds (waiter_at s)) \<and> (mutex s = Some True \<longleftrightarrow> sender_holds (sender_at s))
     \<and> (sender_at s = M_done \<longrightarrow> waiter_at s = T_done)"

definition line_inv :: "tw_state \<Rightarrow> bool" where
  "line_inv s \<longleftrightarrow> filter from_sender (tw_out s) = sender_lines (sender_at s)
     \<and> filter (\<lambda>l. \<not> from_sender l) (tw_out s) = (if waiter_at s = T_done then [Thread_ret (ret s)] else [])"

lemma waiter_lock: "waiter_step sp s = Some s' \<Longrightarrow> lock_inv s \<Longrightarrow> lock_inv s'"
  by (erule waiter_stepE) (auto simp: lock_inv_def waiter_holds_def)

lemma sender_lock: "sender_step s = Some s' \<Longrightarrow> lock_inv s \<Longrightarrow> lock_inv s'"
  by (erule sender_stepE) (auto simp: lock_inv_def sender_holds_def)

lemma waiter_line: "waiter_step sp s = Some s' \<Longrightarrow> line_inv s \<Longrightarrow> line_inv s'"
  by (erule waiter_stepE) (simp_all add: line_inv_def from_sender_def)

lemma sender_line: "sender_step s = Some s' \<Longrightarrow> line_inv s \<Longrightarrow> line_inv s'"
  by (erule sender_stepE) (simp_all add: line_inv_def from_sender_def sender_lines_def split: if_splits)

text \<open>What the recorded times say: \<open>a\<close> is when the thread asked for the time, \<open>b\<close> when the signal was sent.\<close>

definition times_inv :: "nat \<Rightarrow> tw_state \<Rightarrow> bool" where
  "times_inv t0 s \<longleftrightarrow> t0 \<le> clock s
     \<and> (\<forall>t. sender_at s = M_sleep t \<longrightarrow> t0 + 3000000 \<le> t)
     \<and> (sender_at s \<noteq> M_announce \<and> (\<forall>t. sender_at s \<noteq> M_sleep t) \<longrightarrow> t0 + 3000000 \<le> clock s)
     \<and> (asked s = None \<longleftrightarrow> waiter_at s = T_lock \<or> waiter_at s = T_time)
     \<and> (\<forall>a. asked s = Some a \<longrightarrow> a \<le> clock s \<and> deadline s = a * 1000 + 5000000000)
     \<and> (sent s = None \<longleftrightarrow> \<not> was_sent (sender_at s))
     \<and> (\<forall>b. sent s = Some b \<longrightarrow> t0 + 3000000 \<le> b \<and> b \<le> clock s)"

definition order_inv :: "tw_state \<Rightarrow> bool" where
  "order_inv s \<longleftrightarrow>
     (heard s \<longrightarrow> the (asked s) \<le> the (sent s) \<and> asked s \<noteq> None \<and> sent s \<noteq> None)
     \<and> (signalled s \<longrightarrow> waiter_at s = T_waiting \<and> heard s)
     \<and> (waiter_at s = T_waiting \<and> heard s \<longrightarrow> signalled s)
     \<and> (waiter_at s = T_waiting \<and> \<not> heard s \<and> sent s \<noteq> None \<longrightarrow> the (sent s) \<le> the (asked s))
     \<and> (waiter_at s = T_call \<and> sent s \<noteq> None \<longrightarrow> \<not> heard s \<and> the (sent s) \<le> the (asked s))
     \<and> (returned (waiter_at s) \<longrightarrow> ret s = 0 \<or> ret s = 110 \<and> \<not> heard s \<and> the (asked s) + 5000000 \<le> clock s
          \<and> (sent s \<noteq> None \<longrightarrow> the (sent s) \<le> the (asked s) \<or> the (asked s) + 5000000 \<le> the (sent s)))"

text \<open>Without spurious wakeups a result of zero is a signal.\<close>

definition woken_inv :: "tw_state \<Rightarrow> bool" where
  "woken_inv s \<longleftrightarrow> (returned (waiter_at s) \<and> ret s = 0 \<longrightarrow> heard s)"

lemma waiter_times: "waiter_step sp s = Some s' \<Longrightarrow> times_inv t0 s \<Longrightarrow> times_inv t0 s'"
  by (erule waiter_stepE) (simp_all add: times_inv_def outtime_eq)

lemma sender_times: "sender_step s = Some s' \<Longrightarrow> times_inv t0 s \<Longrightarrow> times_inv t0 s'"
  by (erule sender_stepE) (auto simp: times_inv_def was_sent_def)

lemma order_invI:
  assumes "heard s \<Longrightarrow> asked s \<noteq> None \<and> sent s \<noteq> None \<and> the (asked s) \<le> the (sent s)"
    and "signalled s \<Longrightarrow> waiter_at s = T_waiting \<and> heard s"
    and "waiter_at s = T_waiting \<Longrightarrow> heard s \<Longrightarrow> signalled s"
    and "waiter_at s = T_waiting \<Longrightarrow> \<not> heard s \<Longrightarrow> sent s \<noteq> None \<Longrightarrow> the (sent s) \<le> the (asked s)"
    and "waiter_at s = T_call \<Longrightarrow> sent s \<noteq> None \<Longrightarrow> \<not> heard s \<and> the (sent s) \<le> the (asked s)"
    and "returned (waiter_at s) \<Longrightarrow> ret s = 0 \<or> ret s = 110 \<and> \<not> heard s \<and> the (asked s) + 5000000 \<le> clock s
          \<and> (sent s \<noteq> None \<longrightarrow> the (sent s) \<le> the (asked s) \<or> the (asked s) + 5000000 \<le> the (sent s))"
  shows "order_inv s"
  using assms unfolding order_inv_def by blast

lemma order_invD:
  assumes "order_inv s"
  shows "heard s \<Longrightarrow> asked s \<noteq> None" and "heard s \<Longrightarrow> sent s \<noteq> None" and "heard s \<Longrightarrow> the (asked s) \<le> the (sent s)"
    and "signalled s \<Longrightarrow> waiter_at s = T_waiting" and "signalled s \<Longrightarrow> heard s"
    and "waiter_at s = T_waiting \<Longrightarrow> heard s \<Longrightarrow> signalled s"
    and "waiter_at s = T_waiting \<Longrightarrow> \<not> heard s \<Longrightarrow> sent s \<noteq> None \<Longrightarrow> the (sent s) \<le> the (asked s)"
    and "waiter_at s = T_call \<Longrightarrow> sent s \<noteq> None \<Longrightarrow> \<not> heard s" and "waiter_at s = T_call \<Longrightarrow> sent s \<noteq> None \<Longrightarrow> the (sent s) \<le> the (asked s)"
    and "returned (waiter_at s) \<Longrightarrow> ret s = 0 \<or> ret s = 110 \<and> \<not> heard s \<and> the (asked s) + 5000000 \<le> clock s
          \<and> (sent s \<noteq> None \<longrightarrow> the (sent s) \<le> the (asked s) \<or> the (asked s) + 5000000 \<le> the (sent s))"
  using assms unfolding order_inv_def by blast+

lemma waiter_order:
  assumes step: "waiter_step sp s = Some s'" and t: "times_inv t0 s" and o: "order_inv s"
  shows "order_inv s'"
  using step
proof (cases rule: waiter_stepE)
  case lock
  then show ?thesis using order_invD(1,4) [OF o] t by (intro order_invI) (auto simp: times_inv_def returned_def)
next
  case time
  have "asked s = None" using t time by (simp add: times_inv_def)
  then have "\<not> heard s" "\<not> signalled s" using order_invD(1,5) [OF o] by blast+
  moreover have "the (sent s) \<le> clock s" if "sent s \<noteq> None" using t that by (auto simp: times_inv_def)
  ultimately show ?thesis using time by (intro order_invI) (simp_all add: returned_def)
next
  case call
  have "\<not> signalled s" using order_invD(4) [OF o] call by auto
  moreover have "\<not> heard s" using order_invD(2,8) [OF o] call by blast
  ultimately show ?thesis using call order_invD(9) [OF o] by (intro order_invI) (simp_all add: returned_def)
next
  case woken
  then show ?thesis using order_invD(1-3) [OF o] by (intro order_invI) (simp_all add: returned_def)
next
  case timeout
  have h: "\<not> heard s" using timeout order_invD(6) [OF o] by blast
  have "asked s \<noteq> None" using t timeout(1) by (simp add: times_inv_def)
  then have "the (asked s) + 5000000 \<le> clock s" using t timeout(3) by (auto simp: times_inv_def)
  then show ?thesis using h timeout order_invD(7) [OF o] by (intro order_invI) (simp_all add: returned_def)
next
  case spurious
  then show ?thesis using order_invD(6) [OF o] by (intro order_invI) (auto simp: returned_def)
next
  case relock
  then show ?thesis using order_invD(1-5,10) [OF o] by (intro order_invI) (simp_all add: returned_def)
next
  case unlock
  then show ?thesis using order_invD(1-5,10) [OF o] by (intro order_invI) (simp_all add: returned_def)
next
  case print
  then show ?thesis using order_invD(1-5,10) [OF o] by (intro order_invI) (simp_all add: returned_def)
qed

lemma waiter_woken: "waiter_step False s = Some s' \<Longrightarrow> order_inv s \<Longrightarrow> woken_inv s \<Longrightarrow> woken_inv s'"
  by (erule waiter_stepE) (auto simp: woken_inv_def returned_def dest: order_invD(5))

lemma order_inv_same:
  assumes "order_inv s" and "heard s' = heard s" "signalled s' = signalled s" "sent s' = sent s" "asked s' = asked s"
    "waiter_at s' = waiter_at s" "ret s' = ret s" "clock s \<le> clock s'"
  shows "order_inv s'"
  using assms(1) unfolding order_inv_def assms(2-7) by (blast intro: order_trans [OF _ assms(8)])

lemma not_sent:
  assumes "times_inv t0 s" and "order_inv s" and "sender_at s = M_signal"
  shows "sent s = None" and "\<not> heard s" and "\<not> signalled s"
proof -
  show s: "sent s = None" using assms(1,3) by (simp add: times_inv_def was_sent_def)
  show h: "\<not> heard s" using order_invD(2) [OF assms(2)] s by blast
  show "\<not> signalled s" using order_invD(5) [OF assms(2)] h by blast
qed

lemma sender_order:
  assumes step: "sender_step s = Some s'" and l: "lock_inv s" and t: "times_inv t0 s" and o: "order_inv s"
  shows "order_inv s'"
  using step
proof (cases rule: sender_stepE)
  case heard
  then have "asked s \<noteq> None" "the (asked s) \<le> clock s" using t by (auto simp: times_inv_def)
  then show ?thesis using heard by (simp add: order_inv_def returned_def)
next
  case unheard
  note n = not_sent [OF t o unheard(1)]
  have w: "waiter_at s \<noteq> T_call" using l unheard(1) by (auto simp: lock_inv_def tw_sets)
  have "returned (waiter_at s) \<Longrightarrow> ret s = 0 \<or> ret s = 110 \<and> the (asked s) + 5000000 \<le> clock s"
    using o unfolding order_inv_def by blast
  moreover have eqs: "heard s' = False" "signalled s' = False" "sent s' = Some (clock s)" "asked s' = asked s"
      "waiter_at s' = waiter_at s" "ret s' = ret s" "clock s' = clock s"
    by (simp_all add: unheard(3))
  ultimately show ?thesis using unheard(2) w unfolding order_inv_def eqs option.sel by blast
qed (rule order_inv_same [OF o]; simp)+

lemma sender_woken:
  assumes step: "sender_step s = Some s'" and t: "times_inv t0 s" and o: "order_inv s" and w: "woken_inv s"
  shows "woken_inv s'"
  using step
proof (cases rule: sender_stepE)
  case unheard
  then show ?thesis using not_sent(2) [OF t o unheard(1)] w by (simp add: woken_inv_def)
qed (use w in \<open>simp_all add: woken_inv_def\<close>)

section \<open>The end\<close>

definition waiter_left :: "waiter_pc \<Rightarrow> nat" where
  "waiter_left pc = (case pc of T_lock \<Rightarrow> 7 | T_time \<Rightarrow> 6 | T_call \<Rightarrow> 5 | T_waiting \<Rightarrow> 4 | T_relock \<Rightarrow> 3
     | T_unlock \<Rightarrow> 2 | T_print \<Rightarrow> 1 | T_done \<Rightarrow> 0)"

definition sender_left :: "sender_pc \<Rightarrow> nat" where
  "sender_left pc = (case pc of M_announce \<Rightarrow> 7 | M_sleep _ \<Rightarrow> 6 | M_sending \<Rightarrow> 5 | M_lock \<Rightarrow> 4 | M_signal \<Rightarrow> 3
     | M_unlock \<Rightarrow> 2 | M_join \<Rightarrow> 1 | _ \<Rightarrow> 0)"

definition tw_left :: "tw_state \<Rightarrow> nat" where
  "tw_left s = waiter_left (waiter_at s) + sender_left (sender_at s)"

definition tw_final :: "tw_state \<Rightarrow> bool" where
  "tw_final s \<longleftrightarrow> waiter_at s = T_done \<and> sender_at s = M_done"

definition tw_inv :: "nat \<Rightarrow> tw_state \<Rightarrow> bool" where
  "tw_inv t0 s \<longleftrightarrow> lock_inv s \<and> line_inv s \<and> times_inv t0 s \<and> order_inv s"

lemma elapse_times: "times_inv t0 s \<Longrightarrow> times_inv t0 (s\<lparr>clock := clock s + d\<rparr>)"
  unfolding times_inv_def by (elim conjE, intro conjI) (simp_all add: trans_le_add1)

lemma elapse_order: "order_inv s \<Longrightarrow> order_inv (s\<lparr>clock := clock s + d\<rparr>)"
  by (erule order_inv_same) simp_all

lemma elapse_inv: "tw_inv t0 s \<Longrightarrow> tw_inv t0 (s\<lparr>clock := clock s + d\<rparr>)"
  by (simp add: tw_inv_def elapse_times elapse_order) (simp add: lock_inv_def line_inv_def)

lemma tw_stepE:
  assumes "tw_step (main, d, sp) s = Some s'"
  obtains (main) "main" "sender_step (s\<lparr>clock := clock s + d\<rparr>) = Some s'"
  | (thread) "\<not> main" "waiter_step sp (s\<lparr>clock := clock s + d\<rparr>) = Some s'"
  using assms by (auto simp: tw_step_def Let_def split: if_splits)

lemma tw_step_inv:
  assumes step: "tw_step e s = Some s'" and inv: "tw_inv t0 s"
  shows "tw_inv t0 s'"
proof -
  obtain main d sp where e: "e = (main, d, sp)" by (cases e)
  have i: "tw_inv t0 (s\<lparr>clock := clock s + d\<rparr>)" (is "tw_inv t0 ?s") by (rule elapse_inv [OF inv])
  then have i: "lock_inv ?s" "line_inv ?s" "times_inv t0 ?s" "order_inv ?s" by (simp_all add: tw_inv_def)
  show ?thesis using step unfolding e
  proof (cases rule: tw_stepE)
    case main
    then show ?thesis using sender_lock sender_line sender_times sender_order i by (simp add: tw_inv_def)
  next
    case thread
    then show ?thesis using waiter_lock waiter_line waiter_times waiter_order i by (simp add: tw_inv_def)
  qed
qed

lemma waiter_left_step: "waiter_step sp s = Some s' \<Longrightarrow> tw_left s' < tw_left s"
  by (erule waiter_stepE) (simp_all add: tw_left_def waiter_left_def)

lemma sender_left_step: "sender_step s = Some s' \<Longrightarrow> tw_left s' < tw_left s"
  by (erule sender_stepE) (simp_all add: tw_left_def sender_left_def)

text \<open>A wait can always end: the time that passes before a step can be as long as it takes.\<close>

lemma tw_progress:
  assumes inv: "tw_inv t0 s" and nf: "\<not> tw_final s"
  shows "\<exists>e. tw_step e s \<noteq> None"
proof -
  have l: "lock_inv s" and nofail: "sender_at s \<noteq> M_failed" using inv by (auto simp: tw_inv_def lock_inv_def)
  have W: "\<exists>e. tw_step e s \<noteq> None" if d: "\<exists>d. waiter_step False (s\<lparr>clock := clock s + d\<rparr>) \<noteq> None"
  proof -
    obtain d where "waiter_step False (s\<lparr>clock := clock s + d\<rparr>) \<noteq> None" using d ..
    then have "tw_step (False, d, False) s \<noteq> None" using nofail by (simp add: tw_step_def Let_def)
    then show ?thesis ..
  qed
  have S: "\<exists>e. tw_step e s \<noteq> None" if d: "\<exists>d. sender_step (s\<lparr>clock := clock s + d\<rparr>) \<noteq> None"
  proof -
    obtain d where "sender_step (s\<lparr>clock := clock s + d\<rparr>) \<noteq> None" using d ..
    then have "tw_step (True, d, False) s \<noteq> None" using nofail by (simp add: tw_step_def Let_def)
    then show ?thesis ..
  qed
  show ?thesis
  proof (cases "waiter_holds (waiter_at s)")
    case True
    then show ?thesis by (intro W exI [of _ 0]) (auto simp: waiter_holds_def waiter_step_def)
  next
    case nw: False
    show ?thesis
    proof (cases "sender_holds (sender_at s)")
      case True
      then show ?thesis by (intro S exI [of _ 0]) (auto simp: sender_holds_def sender_step_def)
    next
      case False
      have free: "mutex s = None"
      proof (cases "mutex s")
        case (Some b)
        then show ?thesis using l nw False by (cases b) (simp_all add: lock_inv_def)
      qed
      show ?thesis
      proof (cases "waiter_at s = T_done")
        case True
        then have nd: "sender_at s \<noteq> M_done" using nf by (simp add: tw_final_def)
        show ?thesis
        proof (cases "sender_at s")
          case (M_sleep t)
          then show ?thesis by (intro S exI [of _ t]) (simp add: sender_step_def)
        qed (use nd nofail free True in \<open>(intro S exI [of _ 0], simp add: sender_step_def)+\<close>)
      next
        case False
        show ?thesis
        proof (cases "waiter_at s = T_waiting")
          case True
          then show ?thesis by (intro W exI [of _ "deadline s"]) (simp add: waiter_step_def)
        next
          case nwait: False
          then show ?thesis using False nw free
            by (intro W exI [of _ 0]) (cases "waiter_at s"; simp add: waiter_step_def waiter_holds_def)
        qed
      qed
    qed
  qed
qed

interpretation timed: bounded_machine tw_step "\<lambda>s. \<exists>t0. tw_inv t0 s" tw_left tw_final
proof unfold_locales
  fix s s' :: tw_state and e :: "bool \<times> nat \<times> bool"
  assume "\<exists>t0. tw_inv t0 s" and step: "tw_step e s = Some s'"
  then show "\<exists>t0. tw_inv t0 s'" using tw_step_inv by blast
  obtain main d sp where e: "e = (main, d, sp)" by (cases e)
  have same: "tw_left (s\<lparr>clock := clock s + d\<rparr>) = tw_left s" by (simp add: tw_left_def)
  show "tw_left s' < tw_left s" using step unfolding e
    by (rule tw_stepE) (metis same waiter_left_step sender_left_step)+
next
  fix s assume "\<exists>t0. tw_inv t0 s" and "\<not> tw_final s"
  then show "\<exists>e. tw_step e s \<noteq> None" using tw_progress by blast
qed

lemma tw_start_inv: "tw_inv t0 (tw_start True t0)" and tw_start_woken: "woken_inv (tw_start True t0)"
  by (simp_all add: tw_inv_def lock_inv_def line_inv_def times_inv_def order_inv_def woken_inv_def tw_start_def tw_sets
      sender_lines_def)

lemma tw_run_inv: "run_schedule tw_step es (tw_start True t0) = Some s \<Longrightarrow> tw_inv t0 s"
  by (rule run_schedule_invariant [where P = "tw_inv t0", OF tw_step_inv _ tw_start_inv])

text \<open>What a result means when the thread is done, and without wakeups that have no reason.\<close>

lemma returned_result:
  assumes inv: "tw_inv t0 s" and d: "waiter_at s = T_done"
  shows "ret s = 0 \<or> ret s = ETIMEDOUT \<and> (\<exists>a. asked s = Some a \<and> a + 5000000 \<le> clock s
           \<and> (\<forall>b. sent s = Some b \<longrightarrow> b \<le> a \<or> a + 5000000 \<le> b))"
proof -
  have order: "order_inv s" and "asked s \<noteq> None" using inv d by (simp_all add: tw_inv_def times_inv_def)
  then obtain a where a: "asked s = Some a" by blast
  have "ret s = 0 \<or> ret s = 110 \<and> a + 5000000 \<le> clock s
      \<and> (sent s \<noteq> None \<longrightarrow> the (sent s) \<le> a \<or> a + 5000000 \<le> the (sent s))"
    using order d unfolding order_inv_def returned_def a option.sel by blast
  then show ?thesis unfolding a ETIMEDOUT_def by fastforce
qed

lemma tw_step_woken:
  assumes "\<not> snd (snd e)" and i: "tw_inv t0 s" "woken_inv s" and st: "tw_step e s = Some s'"
  shows "woken_inv s'"
proof -
  obtain main d where e: "e = (main, d, False)" using assms(1) by (cases e) auto
  have w: "woken_inv (s\<lparr>clock := clock s + d\<rparr>)" (is "woken_inv ?s") using i(2) by (simp add: woken_inv_def)
  have "tw_inv t0 ?s" using i(1) elapse_inv by blast
  then have o: "times_inv t0 ?s" "order_inv ?s" by (simp_all add: tw_inv_def)
  show ?thesis using st unfolding e
    by (rule tw_stepE) (use waiter_woken [of ?s s'] sender_woken [of ?s s' t0] o w in blast)+
qed

lemma heard_result:
  assumes run: "run_schedule tw_step es (tw_start True t0) = Some s" and ns: "\<forall>e\<in>set es. \<not> snd (snd e)"
    and d: "waiter_at s = T_done" "ret s = 0"
  shows "\<exists>a b. asked s = Some a \<and> sent s = Some b \<and> a \<le> b"
proof -
  have "tw_inv t0 s \<and> woken_inv s"
    by (rule run_schedule_invariant_if [where Q = "\<lambda>e. \<not> snd (snd e)" and P = "\<lambda>s. tw_inv t0 s \<and> woken_inv s", OF _ run ns])
      (use tw_step_inv tw_step_woken tw_start_inv tw_start_woken in blast)+
  then have "heard s" and order: "order_inv s" using d by (simp_all add: woken_inv_def returned_def tw_inv_def)
  then have "asked s \<noteq> None" "sent s \<noteq> None" "the (asked s) \<le> the (sent s)"
    unfolding order_inv_def by blast+
  then show ?thesis by fastforce
qed

text \<open>
  C31: Every run comes to its end in at most fourteen steps, however long anything takes and although
  the signal can be sent before anybody waits for it: nobody waits for ever, and the main thread ends
  after the other has printed its result, which is 0 or \<open>ETIMEDOUT\<close>.  The signal is sent three seconds
  after the start or later.  \<open>ETIMEDOUT\<close> comes five seconds after the thread asked for the time
  or later, and only when the signal had been sent before that moment, or is sent after those five seconds,
  or not yet.  0 means that the signal was sent and was heard, unless a wait ends without a reason: then
  it is 0 as well.
\<close>

theorem timed_wait_returns:
  assumes run: "run_schedule tw_step es (tw_start True t0) = Some s"
  shows "(length es \<le> 14)
    \<and> ((\<forall>e. tw_step e s = None) \<longrightarrow> tw_final s)
    \<and> (\<exists>fs u. run_schedule tw_step fs s = Some u \<and> tw_final u)
    \<and> (filter from_sender (tw_out s) = sender_lines (sender_at s))
    \<and> (sender_at s = M_done \<longrightarrow> filter (\<lambda>l. \<not> from_sender l) (tw_out s) = [Thread_ret (ret s)])
    \<and> (\<forall>b. sent s = Some b \<longrightarrow> t0 + 3000000 \<le> b)
    \<and> (waiter_at s = T_done \<longrightarrow> ret s = 0 \<or> ret s = ETIMEDOUT \<and> (\<exists>a. asked s = Some a \<and> a + 5000000 \<le> clock s
           \<and> (\<forall>b. sent s = Some b \<longrightarrow> b \<le> a \<or> a + 5000000 \<le> b)))
    \<and> ((\<forall>e\<in>set es. \<not> snd (snd e)) \<longrightarrow> waiter_at s = T_done \<longrightarrow> ret s = 0 \<longrightarrow>
           (\<exists>a b. asked s = Some a \<and> sent s = Some b \<and> a \<le> b))
    \<and> (run_schedule tw_step fs (tw_start False t0) = Some v \<longrightarrow> tw_out v = [Create_failed])"
proof -
  note inv = tw_run_inv [OF run]
  have start: "\<exists>t0'. tw_inv t0' (tw_start True t0)" using tw_start_inv by blast
  have c1: "length es \<le> 14"
    using timed.runs_end(2) [OF run start] by (simp add: tw_left_def tw_start_def waiter_left_def sender_left_def)
  have c2: "(\<forall>e. tw_step e s = None) \<longrightarrow> tw_final s" using timed.runs_end(3) [OF run start] by blast
  have c3: "\<exists>fs u. run_schedule tw_step fs s = Some u \<and> tw_final u" by (rule timed.runs_end(4) [OF run start])
  have line: "line_inv s" and lock: "lock_inv s" and times: "times_inv t0 s"
    using inv by (simp_all add: tw_inv_def)
  have c4: "filter from_sender (tw_out s) = sender_lines (sender_at s)" using line by (simp add: line_inv_def)
  have c5: "sender_at s = M_done \<longrightarrow> filter (\<lambda>l. \<not> from_sender l) (tw_out s) = [Thread_ret (ret s)]"
    using line lock by (simp add: line_inv_def lock_inv_def)
  have c6: "\<forall>b. sent s = Some b \<longrightarrow> t0 + 3000000 \<le> b" using times by (simp add: times_inv_def)
  have c9: "run_schedule tw_step fs (tw_start False t0) = Some v \<longrightarrow> tw_out v = [Create_failed]"
    by (cases fs) (auto simp: tw_step_def tw_start_def Let_def)
  show ?thesis
    by (rule conjI [OF c1 conjI [OF c2 conjI [OF c3 conjI [OF c4 conjI [OF c5 conjI [OF c6 conjI [OF impI [OF returned_result [OF inv]]
      conjI [OF impI [OF impI [OF impI [OF heard_result [OF run]]]] c9]]]]]]]])
qed

text \<open>A run in which the thread waits at once, and the signal comes after three seconds; and a late thread.\<close>

lemma timed_wait_returns_witness:
  "(\<exists>s. run_schedule tw_step [(False, 1, False), (False, 1, False), (False, 1, False), (True, 0, False), (True, 3000000, False),
        (True, 0, False), (True, 0, False), (True, 0, False), (True, 0, False), (False, 0, False), (False, 0, False),
        (False, 0, False), (False, 0, False), (True, 0, False)] (tw_start True 7) = Some s
      \<and> ret s = 0 \<and> (\<exists>a b. asked s = Some a \<and> sent s = Some b \<and> a \<le> b))
   \<and> (\<exists>s. run_schedule tw_step [(True, 0, False), (True, 3000000, False), (True, 0, False), (True, 0, False), (True, 0, False),
        (True, 0, False), (False, 1, False), (False, 1, False), (False, 1, False), (False, 5000000, False),
        (False, 0, False), (False, 0, False), (False, 0, False), (True, 0, False)] (tw_start True 7) = Some s
      \<and> ret s = 110 \<and> filter (\<lambda>l. \<not> from_sender l) (tw_out s) = [Thread_ret 110])"
proof -
  let ?a = "[(False, 1, False), (False, 1, False), (False, 1, False), (True, 0, False), (True, 3000000, False),
        (True, 0, False), (True, 0, False), (True, 0, False), (True, 0, False), (False, 0, False), (False, 0, False),
        (False, 0, False), (False, 0, False), (True, 0, False)]"
  let ?b = "[(True, 0, False), (True, 3000000, False), (True, 0, False), (True, 0, False), (True, 0, False),
        (True, 0, False), (False, 1, False), (False, 1, False), (False, 1, False), (False, 5000000, False),
        (False, 0, False), (False, 0, False), (False, 0, False), (True, 0, False)]"
  obtain s where s: "run_schedule tw_step ?a (tw_start True 7) = Some s" "waiter_at s = T_done" "ret s = 0"
    by (simp add: tw_step_def tw_start_def sender_step_def waiter_step_def SENDSIGTIME_def outtime_eq Let_def)
  obtain u where u: "run_schedule tw_step ?b (tw_start True 7) = Some u" "sender_at u = M_done" "ret u = 110"
    by (simp add: tw_step_def tw_start_def sender_step_def waiter_step_def SENDSIGTIME_def ETIMEDOUT_def outtime_eq Let_def)
  have n: "\<forall>e\<in>set ?a. \<not> snd (snd e)" by simp
  have "\<exists>a b. asked s = Some a \<and> sent s = Some b \<and> a \<le> b" using timed_wait_returns [OF s(1), THEN conjunct2, THEN conjunct2, THEN conjunct2, THEN conjunct2, THEN conjunct2, THEN conjunct2, THEN conjunct2, THEN conjunct1] n s(2,3) by blast
  moreover have "filter (\<lambda>l. \<not> from_sender l) (tw_out u) = [Thread_ret 110]"
    using timed_wait_returns [OF u(1), THEN conjunct2, THEN conjunct2, THEN conjunct2, THEN conjunct2, THEN conjunct1] u(2,3) by simp
  ultimately show ?thesis using s u by blast
qed

end
