(* ===== verification/SysInfo.thy ===== *)
theory SysInfo
  imports Complex_Main Decimal
begin

text \<open>
  \<open>3.tools/6.sys_info\<close>: the numbers in the release of the kernel (\<open>2.get_kernel_ver.c\<close>), the share of the
  processor between two readings of its counters and the memory in use (\<open>1.cpu_mem_query.c\<close>), and the
  pages of a process (\<open>3.get_rss.c\<close>).  The texts and counters the kernel gives are arguments.
\<close>

section \<open>The release of the kernel\<close>

text \<open>\<open>strtol\<close> on a text that starts with a digit: the number, at most the largest \<open>long\<close>.\<close>

definition strtol_digits :: "string \<Rightarrow> int" where
  "strtol_digits s = min (digits_value (takeWhile is_digit s)) (2 ^ 63 - 1)"

lemma dropWhile_shorter: "p \<noteq> [] \<Longrightarrow> P (hd p) \<Longrightarrow> length (dropWhile P p) < length p"
proof (cases p)
  case (Cons c cs)
  assume "P (hd p)"
  then show ?thesis using length_dropWhile_le [of P cs] by (simp add: Cons)
qed simp

text \<open>The loop: every run of digits is a number, everything else is skipped.\<close>

function version_numbers :: "string \<Rightarrow> int list" where
  "version_numbers p =
     (if p = [] then []
      else if is_digit (hd p) then strtol_digits p # version_numbers (dropWhile is_digit p)
      else version_numbers (tl p))"
  by pat_completeness auto

termination
  by (relation "measure length") (auto simp: dropWhile_shorter)

declare version_numbers.simps [simp del]

text \<open>
  The numbers are written to \<open>ver[16]\<close>, and the first four are printed: more than sixteen do not fit,
  and a missing one is not initialised.
\<close>

definition kernel_version :: "string \<Rightarrow> int list option" where
  "kernel_version release =
     (let ver = version_numbers release
      in if 4 \<le> length ver \<and> length ver \<le> 16 then Some (take 4 ver) else None)"

section \<open>Counters\<close>

text \<open>\<open>get_cpu_times\<close>: user, nice, system, idle, iowait, irq, softirq, steal.\<close>

type_synonym cpu_counters = "64 word list"

definition get_cpu_times :: "cpu_counters \<Rightarrow> 64 word \<times> 64 word" where
  "get_cpu_times c = (c ! 3 + c ! 4, c ! 0 + c ! 1 + c ! 2 + c ! 3 + c ! 4 + c ! 5 + c ! 6 + c ! 7)"

text \<open>
  The usage in percent, as the exact value of the expression; without a difference it is \<open>0.0 / 0\<close>,
  which is no number.
\<close>

definition cpu_usage :: "cpu_counters \<Rightarrow> cpu_counters \<Rightarrow> rat option" where
  "cpu_usage c1 c2 =
     (let idle_diff = fst (get_cpu_times c2) - fst (get_cpu_times c1);
          total_diff = snd (get_cpu_times c2) - snd (get_cpu_times c1)
      in if total_diff = 0 then None
         else Some (100 * (1 - of_nat (unat idle_diff) / of_nat (unat total_diff))))"

definition mem_usage :: "int \<Rightarrow> int \<Rightarrow> (rat \<times> int) option" where
  "mem_usage mem_total mem_free =
     (let mem_used = mem_total - mem_free
      in if mem_total = 0 then None else Some (100 * of_int mem_used / of_int mem_total, mem_used))"

text \<open>\<open>get_rss\<close>: the number of pages in the file, \<^term>\<open>None\<close> when it cannot be opened or read.\<close>

definition get_rss :: "int option \<Rightarrow> int \<Rightarrow> int" where
  "get_rss rss pagesize = (case rss of None \<Rightarrow> - 1 | Some n \<Rightarrow> n * pagesize div 1024)"

section \<open>Releases\<close>

text \<open>A release: numbers, each behind a text without digits, and a text without digits at the end.\<close>

fun release_text :: "(string \<times> nat) list \<Rightarrow> string \<Rightarrow> string" where
  "release_text [] tail = tail"
| "release_text ((sep, n) # parts) tail = sep @ decimal n @ release_text parts tail"

fun release_ok :: "bool \<Rightarrow> (string \<times> nat) list \<Rightarrow> bool" where
  "release_ok first [] \<longleftrightarrow> True"
| "release_ok first ((sep, n) # parts) \<longleftrightarrow>
     (first \<or> sep \<noteq> []) \<and> (\<forall>c\<in>set sep. \<not> is_digit c) \<and> n < 2 ^ 63 \<and> release_ok False parts"

lemma version_numbers_skip:
  "\<forall>c\<in>set sep. \<not> is_digit c \<Longrightarrow> version_numbers (sep @ p) = version_numbers p"
  by (induction sep) (simp, subst version_numbers.simps, simp)

lemma version_numbers_none: "\<forall>c\<in>set p. \<not> is_digit c \<Longrightarrow> version_numbers p = []"
  using version_numbers_skip [of p "[]"] by (simp add: version_numbers.simps)

lemma release_start:
  "release_ok False parts \<Longrightarrow> \<forall>c\<in>set tail. \<not> is_digit c \<Longrightarrow> release_text parts tail = [] \<or> \<not> is_digit (hd (release_text parts tail))"
  by (cases parts) (auto simp: hd_append)

lemma version_numbers_release:
  assumes "release_ok first parts" and "\<forall>c\<in>set tail. \<not> is_digit c"
  shows "version_numbers (release_text parts tail) = map (int \<circ> snd) parts"
  using assms
proof (induction parts arbitrary: first)
  case Nil
  then show ?case by (simp add: version_numbers_none)
next
  case (Cons part parts)
  obtain sep n where part: "part = (sep, n)" by (cases part)
  let ?r = "release_text parts tail"
  have ok: "\<forall>c\<in>set sep. \<not> is_digit c" "n < 2 ^ 63" "release_ok False parts" using Cons.prems(1) by (auto simp: part)
  obtain c cs where d: "decimal n = c # cs" by (meson decimal_nonempty list.exhaust)
  have dig: "\<forall>c\<in>set (decimal n). is_digit c" using decimal_digits by blast
  have rest: "?r = [] \<or> \<not> is_digit (hd ?r)" by (rule release_start [OF ok(3) Cons.prems(2)])
  have tw: "takeWhile is_digit (decimal n @ ?r) = decimal n"
    using dig rest by (cases ?r) (auto simp: takeWhile_append takeWhile_eq_all_conv)
  have dw: "dropWhile is_digit (decimal n @ ?r) = ?r"
    using dig rest by (cases ?r) (auto simp: dropWhile_append dropWhile_eq_Nil_conv)
  have "is_digit (hd (decimal n @ ?r))" using dig by (simp add: d)
  then have "version_numbers (decimal n @ ?r) = strtol_digits (decimal n @ ?r) # version_numbers ?r"
    by (subst version_numbers.simps) (simp add: dw)
  also have "strtol_digits (decimal n @ ?r) = int n"
    using ok(2) by (simp add: strtol_digits_def tw digits_value_decimal)
  also have "version_numbers ?r = map (int \<circ> snd) parts" by (rule Cons.IH [OF ok(3) Cons.prems(2)])
  finally show ?case by (simp add: part version_numbers_skip [OF ok(1)])
qed

section \<open>Shares\<close>

text \<open>A counter that has moved from \<open>a\<close> to \<open>b\<close> has not been set back.\<close>

definition advanced :: "cpu_counters \<Rightarrow> cpu_counters \<Rightarrow> nat list \<Rightarrow> bool" where
  "advanced c1 c2 ds \<longleftrightarrow> length c1 = 8 \<and> length c2 = 8 \<and> length ds = 8 \<and> (\<forall>k<8. c2 ! k = c1 ! k + of_nat (ds ! k))"

lemma cpu_usage_share:
  assumes adv: "advanced c1 c2 ds" and small: "sum_list ds < 2 ^ 64"
  shows "cpu_usage c1 c2 = (if sum_list ds = 0 then None
    else Some (100 * (1 - of_nat (ds ! 3 + ds ! 4) / of_nat (sum_list ds))))"
proof -
  have len: "length ds = 8" using adv by (simp add: advanced_def)
  then obtain a b c d e f g h where ds: "ds = [a, b, c, d, e, f, g, h]"
    by (auto simp: eval_nat_numeral length_Suc_conv)
  have el: "c2 ! k = c1 ! k + of_nat (ds ! k)" if "k < 8" for k using adv that by (simp add: advanced_def)
  have c2: "c2 ! 0 = c1 ! 0 + of_nat a" "c2 ! 1 = c1 ! 1 + of_nat b" "c2 ! 2 = c1 ! 2 + of_nat c" "c2 ! 3 = c1 ! 3 + of_nat d"
    "c2 ! 4 = c1 ! 4 + of_nat e" "c2 ! 5 = c1 ! 5 + of_nat f" "c2 ! 6 = c1 ! 6 + of_nat g" "c2 ! 7 = c1 ! 7 + of_nat h"
    using el [of 0] el [of 1] el [of 2] el [of 3] el [of 4] el [of 5] el [of 6] el [of 7] by (simp_all add: ds)
  have idle: "fst (get_cpu_times c2) - fst (get_cpu_times c1) = of_nat (d + e)"
    unfolding get_cpu_times_def c2 by simp
  have total: "snd (get_cpu_times c2) - snd (get_cpu_times c1) = of_nat (sum_list ds)"
    unfolding get_cpu_times_def c2 ds by simp
  have u: "unat (of_nat (sum_list ds) :: 64 word) = sum_list ds" using small by (simp add: unat_of_nat)
  have v: "unat (of_nat (d + e) :: 64 word) = d + e" using small by (simp add: unat_of_nat ds del: of_nat_add)
  have z: "(of_nat (sum_list ds) :: 64 word) = 0 \<longleftrightarrow> sum_list ds = 0"
  proof
    assume "(of_nat (sum_list ds) :: 64 word) = 0"
    then have "unat (of_nat (sum_list ds) :: 64 word) = 0" by (simp only: unat_0)
    then show "sum_list ds = 0" using u by (simp only:)
  next
    assume "sum_list ds = 0"
    then have "(of_nat (sum_list ds) :: 64 word) = of_nat 0" by (rule arg_cong)
    then show "(of_nat (sum_list ds) :: 64 word) = 0" unfolding semiring_1_class.of_nat_0 .
  qed
  show ?thesis unfolding cpu_usage_def idle total Let_def z u v by (simp add: ds)
qed

lemma share_bounds:
  fixes x y :: nat
  assumes "x \<le> y" and "0 < y"
  shows "0 \<le> 100 * (1 - of_nat x / of_nat y :: rat)" and "100 * (1 - of_nat x / of_nat y :: rat) \<le> 100"
  using assms by (simp_all add: divide_le_eq)

text \<open>
  C37: From the release of a kernel the numbers are read in order, whatever stands between them; with
  fewer than four the program prints an uninitialised one, and with more than sixteen it writes
  behind its array, as a release of 64 characters can make it.  The share of the processor is the
  part of the counted time that was not idle, also when the counters wrap around, and lies between
  0 and 100; without any counted time it is no number.
\<close>

theorem system_information:
  assumes parts: "release_ok True parts" and rest: "\<forall>c\<in>set tail. \<not> is_digit c"
    and counters: "advanced c1 c2 ds" and small: "sum_list ds < 2 ^ 64"
  shows "(kernel_version (release_text parts tail)
      = (if 4 \<le> length parts \<and> length parts \<le> 16 then Some (map (int \<circ> snd) (take 4 parts)) else None))
    \<and> (cpu_usage c1 c2 = None \<longleftrightarrow> sum_list ds = 0)
    \<and> (cpu_usage c1 c2 = Some u \<longrightarrow> (u = 100 * (1 - of_nat (ds ! 3 + ds ! 4) / of_nat (sum_list ds)) \<and> 0 \<le> u \<and> u \<le> 100))
    \<and> (0 < mem_total \<longrightarrow> 0 \<le> mem_free \<longrightarrow> mem_free \<le> mem_total \<longrightarrow> (\<exists>p. mem_usage mem_total mem_free = Some (p, mem_total - mem_free) \<and> 0 \<le> p \<and> p \<le> 100))
    \<and> (get_rss (Some n) 4096 = 4 * n)"
proof -
  have c1: "kernel_version (release_text parts tail)
      = (if 4 \<le> length parts \<and> length parts \<le> 16 then Some (map (int \<circ> snd) (take 4 parts)) else None)"
    using version_numbers_release [OF parts rest] by (simp add: kernel_version_def take_map)
  note c = cpu_usage_share [OF counters small]
  have c2: "cpu_usage c1 c2 = None \<longleftrightarrow> sum_list ds = 0" unfolding c by simp
  have len: "length ds = 8" using counters by (simp add: advanced_def)
  then obtain a b d e f g h i where ds: "ds = [a, b, d, e, f, g, h, i]"
    by (auto simp: eval_nat_numeral length_Suc_conv)
  have le: "ds ! 3 + ds ! 4 \<le> sum_list ds" by (simp add: ds)
  have c3: "u = 100 * (1 - of_nat (ds ! 3 + ds ! 4) / of_nat (sum_list ds)) \<and> 0 \<le> u \<and> u \<le> 100" if "cpu_usage c1 c2 = Some u"
  proof -
    have nz: "sum_list ds \<noteq> 0"
    proof
      assume "sum_list ds = 0"
      then have "cpu_usage c1 c2 = None" unfolding c by (rule if_P)
      then show False using that by simp
    qed
    then have p: "0 < sum_list ds" by (rule neq0_conv [THEN iffD1])
    have "cpu_usage c1 c2 = Some (100 * (1 - of_nat (ds ! 3 + ds ! 4) / of_nat (sum_list ds)))"
      unfolding c using nz by (rule if_not_P)
    then have u: "u = 100 * (1 - of_nat (ds ! 3 + ds ! 4) / of_nat (sum_list ds))" using that by (simp only: option.inject)
    then show ?thesis using share_bounds [OF le p] by blast
  qed
  have c4: "\<exists>p. mem_usage mem_total mem_free = Some (p, mem_total - mem_free) \<and> 0 \<le> p \<and> p \<le> 100"
    if "0 < mem_total" "0 \<le> mem_free" "mem_free \<le> mem_total"
    using that by (simp add: mem_usage_def divide_le_eq)
  have c5: "get_rss (Some n) 4096 = 4 * n" by (simp add: get_rss_def)
  show ?thesis
    by (rule conjI [OF c1 conjI [OF c2 conjI [OF impI [OF c3] conjI [OF impI [OF impI [OF impI [OF c4]]] c5]]]])
qed

lemma system_information_witness:
  "kernel_version (release_text [([], 6), (''.'', 8), (''.'', 0), (''-'', 45)] ''-generic'') = Some [6, 8, 0, 45]
   \<and> cpu_usage [0, 0, 0, 0, 0, 0, 0, - 5] [10, 0, 0, 25, 5, 0, 0, 5] = Some 40
   \<and> (\<exists>p. mem_usage 1000 250 = Some (p, 750) \<and> 0 \<le> p \<and> p \<le> 100)"
proof -
  have r: "release_ok True [([], 6), (''.'', 8), (''.'', 0), (''-'', 45)]" "\<forall>c\<in>set ''-generic''. \<not> is_digit c"
    by (simp_all add: is_digit_def of_char_def)
  have k: "k = 0 \<or> k = 1 \<or> k = 2 \<or> k = 3 \<or> k = 4 \<or> k = 5 \<or> k = 6 \<or> k = 7" if "k < 8" for k :: nat using that by linarith
  have a: "advanced [0, 0, 0, 0, 0, 0, 0, - 5] [10, 0, 0, 25, 5, 0, 0, 5] [10, 0, 0, 25, 5, 0, 0, 10]"
    unfolding advanced_def by (auto dest!: k)
  have s: "sum_list [10, 0, 0, 25, 5, 0, 0, 10 :: nat] < 2 ^ 64" by simp
  obtain u where u: "cpu_usage [0, 0, 0, 0, 0, 0, 0, - 5] [10, 0, 0, 25, 5, 0, 0, 5] = Some u"
    using system_information [OF r a s, THEN conjunct2, THEN conjunct1] by auto
  have "u = 40" using system_information [OF r a s, THEN conjunct2, THEN conjunct2, THEN conjunct1, rule_format, OF u] by simp
  moreover have "kernel_version (release_text [([], 6), (''.'', 8), (''.'', 0), (''-'', 45)] ''-generic'') = Some [6, 8, 0, 45]"
    using system_information [OF r a s, THEN conjunct1] by simp
  moreover have "\<exists>p. mem_usage 1000 250 = Some (p, 750) \<and> 0 \<le> p \<and> p \<le> 100"
    using system_information [OF r a s, where mem_total = 1000 and mem_free = 250, THEN conjunct2, THEN conjunct2, THEN conjunct2, THEN conjunct1] by simp
  ultimately show ?thesis using u by blast
qed


end
