(* ===== verification/Iterators.thy ===== *)
theory Iterators
  imports Decimal
begin

text \<open>
  Small programs about the language: the iterators of \<open>3.tools/2.iterator\<close>, the sum of a variable number
  of arguments and the macros of \<open>9.variable_parameters.c\<close>, the initialised array of \<open>16.array.c\<close>, and the
  jump of \<open>14.long_jmp.c\<close>.
\<close>

section \<open>An array iterator\<close>








section \<open>A range\<close>






section \<open>Variable arguments\<close>









section \<open>An array and a jump\<close>

text \<open>An array with designated initialisers: what has none is zero, with no name.\<close>

type_synonym person = "int \<times> string option"

definition designated :: "nat \<Rightarrow> (nat \<times> person) list \<Rightarrow> person list" where
  "designated n inits = foldl (\<lambda>arr (i, p). arr[i := p]) (replicate n (0, None)) inits"











section \<open>Loops and lists\<close>







text \<open>A format is its texts with conversions between them.\<close>

definition format_of :: "(string \<times> int) list \<Rightarrow> string \<Rightarrow> string" where
  "format_of ps rest = concat (map (\<lambda>(body, n). body @ ''%d'') ps) @ rest"







lemma format_of_front: "format_of ((t, n) # ps) rest = t @ ''%d'' @ format_of ps rest"
  by (simp add: format_of_def)





lemma length_designated [simp]: "length (designated n inits) = n"
  by (induction inits rule: rev_induct) (auto simp: designated_def)







end
