(* ===== verification/Spec2Isabelle.thy ===== *)
theory Spec2Isabelle
  imports ImplicitFreeList SegregatedFits FixedBins MemPoolBase MemPoolServer SlabPool
    Blackbox ConfigFile DaemonGuard HexString FileTools DirTree OptionParsing
    ThreadPool FuturePool CxxThreadPool CondDemo BoundedBuffer ProcessSemaphores ThreadDemos AtomicDemos CxxMutex
    ForkDemos PipeDemos ChildProcesses MappedFile EchoServer MessageServer Datagrams TimeTools TimedWait SysInfo Iterators
begin

text \<open>
  A verification library for the C programs of the repository (\<open>1.Demo\<close>): memory allocators and
  pools, an error log, a configuration file reader, a process supervisor, string and file
  routines, programs of several threads or processes, network programs, and timers.  The programs do not call each other;
  what they share is the C language, its library and POSIX.  All paths below are relative to
  \<open>1.Demo/1.syntax_interface\<close> unless they start with \<open>3.tools\<close>.

  \<^bold>\<open>Conventions.\<close>  C integers keep their width as words where they can wrap or overflow (\<open>size_t\<close>
  is \<open>64 word\<close>); an \<open>int\<close> with undefined overflow is an integer with the bound written out.  A
  function whose run can be undefined (an access outside an object, a use of released memory)
  has an option type, and \<^term>\<open>None\<close> is that outcome; error returns are values.  Answers of the
  C library and the kernel (\<open>malloc\<close>, \<open>fopen\<close>, \<open>fork\<close>, \<open>time\<close>, \<open>waitpid\<close>) are arguments of the
  operation that asks.  Loops are functions with a termination proof; where the C loop need not end
  (cyclic bins, the workers of the thread pool, the two loops of the condition variable program) the
  model is a partial function on options or a step function, so that not returning is visible.
  The runs of the scripted programs are bounded by the length of the scripts (\<open>Scripts\<close>), the runs of
  the pool workers by five phases for each round (\<open>PoolPhases\<close>).  Three operations have a number
  that bounds them: \<open>jump_from\<close> (\<open>Iterators\<close>) the returns of \<open>setjmp\<close>, of which two are enough, as shown;
  \<open>group1_datagrams\<close> (\<open>Datagrams\<close>) the rounds of a loop without end, every number of which is covered; and
  \<open>rmdir_recursive\<close> (\<open>DirTree\<close>) the file descriptors the process has, a limit of the system.

  \<^bold>\<open>Shared theories.\<close>  \<open>Prelude\<close>: machine types, hints, list and map lemmas.  \<open>Allocator\<close>: the contract
  of an allocator (the locales \<open>safe_allocator\<close> and \<open>allocator\<close>) and what follows from it for every
  disciplined client.  \<open>PoolLayout\<close>: a pool as a row of headers and payloads.  \<open>PointerList\<close>: linked
  lists in memory.  \<open>PoolPhases\<close>: the contract of the critical sections of a pool that threads share
  (the locale \<open>pool_phases\<close>) and its workers as a step relation.  \<open>Scripts\<close>: programs of threads as
  lists of commands (wait, post, action, start, join, end of the process), the step relation of
  their interleavings, the bound of their runs, and the locales \<open>progressing\<close> (no state but the end
  is stuck) and \<open>fork_join\<close> (a main thread that starts the others and joins them).  \<open>Schedules\<close>: runs of a
  step function along a list of events, and the locale \<open>bounded_machine\<close> (an invariant, a measure that
  each step makes smaller, and no state but an end without a step: then runs are bounded, and every
  run can be led to an end).  \<open>Decimal\<close>: numbers as \<open>printf\<close> writes and \<open>atoi\<close> reads them.

  \<^bold>\<open>Allocators\<close> (\<open>15.memory_allocation/1.allocation_strategy\<close>).  \<open>ImplicitFreeList\<close>,
  \<open>ExplicitFreeList\<close>, \<open>SegregatedFits\<close> and \<open>FixedBins\<close> model the four files whole: the pool is a
  map from header addresses to headers, with the links of the free lists as addresses.  Each has an
  invariant that all operations keep, the functional result of allocation and free, and an
  interpretation of the allocator contract (of \<open>chunk_stack\<close> for the bins), from which follows
  that no two live blocks overlap and no call is undefined for disciplined clients.  The
  segregated allocator keeps this only as long as its calls return: it changes the size of a block
  before it looks up its bin, so a bin can become a cycle.

  \<^bold>\<open>Memory pools\<close> (\<open>15.memory_allocation/2.mem_pool_c\<close> and \<open>3.mem_pool_cxx\<close>).  \<open>MemPoolBase\<close>: the
  pool with guards in byte buffers, an active array and free lists for each class; \<open>MemPoolUpgrade\<close>:
  the second version with separate locks, every critical section an operation of its own;
  \<open>MemPoolServer\<close>: the third, refined to the second by a simulation; \<open>SlabPool\<close>: the C++ pool with
  its allocator.  Shown: consistency for all clients that stay inside their blocks, detection of
  overflows, that no interleaving of the demonstration threads aborts, and that they finish.

  \<^bold>\<open>Data and files.\<close>  \<open>Blackbox\<close> (\<open>3.tools/8.blackbox\<close>): the ring of the last hundred log calls, as an
  object and as the bytes of its file, refined to a list.  \<open>ConfigFile\<close> (\<open>7.file_dir_opt/rw_cfg.c\<close>):
  lines, trimming, types of values, search; reading is the inverse of writing items.  \<open>DaemonGuard\<close>
  (\<open>3.tools/1.daemon/daemon/daemon_guard.c\<close>): command line, start, restart policy, cleanup; the log of
  a whole run shows for each worker when it was started, restarted and killed.
  \<open>HexString\<close> (\<open>10.convert/conv_str_hex.c\<close>): digits to bytes and back.  \<open>FileTools\<close>
  (\<open>7.file_dir_opt/create_file.c\<close>): the four files it makes, run once or again over what is there, and
  the parts of a path.  \<open>DirTree\<close>
  (\<open>7.file_dir_opt/dir.c\<close>): making a path of directories, refined to a map from paths to kinds, and
  the recursive removal, within the bounds of its path buffer and of the file descriptors; the names
  \<open>.\<close> and \<open>..\<close> and the limits of the system on names and paths are part of the model.
  \<open>OptionParsing\<close> (\<open>1.getopt\<close>): the two option loops over a model of the library's scan; command
  lines in any spelling and order, mistakes, and help.

  \<^bold>\<open>Threads and processes.\<close>  \<open>ThreadPool\<close> (\<open>3.Thread/5.thread_pool/1.thread_pool.c\<close>) and \<open>CondDemo\<close>
  (\<open>3.Thread/3.cond/1.thread_cond.c\<close>) model condition variables with spurious wakeups as step
  functions on program positions; so do the two pools in C++, \<open>CxxThreadPool\<close>
  (\<open>2.thread_pool_CXX\<close>, whose shutdown can miss a worker) and \<open>FuturePool\<close> (\<open>3.ThreadPool_CXX\<close>), both on
  \<open>PoolWorkers\<close>: lock, queue, account of the tasks and of what they print.  \<open>CxxMutex\<close>
  (\<open>2.mutex/2.thread_mutex_CXX.cpp\<close>): blocks printed under a mutex, and a container with a recursive
  mutex, which with a plain one deadlocks.  \<open>BoundedBuffer\<close> (\<open>3.Thread/4.semaphore/demo.c\<close>, \<open>demo2.c\<close>),
  \<open>ProcessSemaphores\<close> (\<open>4.Process/9.semaphore\<close>, \<open>2.shm.c\<close>, \<open>8.thread_sem.c\<close>), \<open>ThreadDemos\<close> (mutex, semaphore,
  create, stop, join), \<open>AtomicDemos\<close> (\<open>8.atomic_ops\<close>) and \<open>ForkDemos\<close> (\<open>4.Process/1.create_stop\<close>, with the
  buffers and exit handlers of two processes) are scripts; their properties hold in every
  interleaving.  Actions of a script are indivisible: for plain variables this rests on the lock
  the script shows around them, for atomic ones on the operation being sequentially consistent.
  \<open>PipeDemos\<close> (\<open>4.Process/5.pipe\<close>): two processes and a pipe, with its open ends and its capacity.
  \<open>ChildProcesses\<close> (\<open>4.Process/1.create_stop\<close>, \<open>12.signal.c\<close>): the status word of a child, and handlers of
  signals that are delivered once however often they were raised, also for a child that only stops.  \<open>TimedWait\<close>
  (\<open>3.Thread/3.cond/3.thread_cond_wait_time.c\<close>): a wait with a limit, on a clock that moves between the
  steps by any amount.  \<open>MappedFile\<close> (\<open>4.Process/3.mmap\<close>): a number in a mapped file.

  \<^bold>\<open>Network.\<close>  \<open>EchoServer\<close> (\<open>5.net/tcp\<close>): server and client as two processes over two streams, which the
  kernel hands over in any parts; \<open>MessageServer\<close> (\<open>4.Process/4.socket\<close>): messages with a length, and one
  text, over reads that may give less than was asked for; \<open>Datagrams\<close> (\<open>5.net/udp\<close>): eight programs whose
  datagrams arrive whole or cut at the buffer of the receiver, and what each sends for any text or file.

  \<^bold>\<open>Time, system and language.\<close>  \<open>TimeTools\<close> (\<open>3.tools/5.time\<close>): elapsed times with the division of C, dates,
  and timers whose expirations the kernel counts; \<open>SysInfo\<close> (\<open>3.tools/6.sys_info\<close>): the numbers of a
  release, shares of counters that wrap; \<open>Iterators\<close> (\<open>3.tools/2.iterator\<close>, \<open>9.variable_parameters.c\<close>, \<open>16.array.c\<close>,
  \<open>14.long_jmp.c\<close>): loops over an array, a range and an argument list against loops over lists.

  The properties stand at the end of the theories of their components; this one only brings them
  together.

  \<^bold>\<open>Not modelled.\<close>  Programs that are single calls of the system or the library without state or
  decisions of their own (redirection, the HTTP client, environment, thread attributes, the
  profiling timer, temporary files, linking, inline assembler, data formats).  Of modelled
  programs: processor times and percentages as doubles (percentages are exact numbers here), the
  rendering of pointers, the text of \<open>perror\<close>, sleeping other than as any delay, failures of \<open>fwrite\<close>
  and \<open>fclose\<close>.
\<close>

end
